(* ===== verification/Editor_Prelude.thy ===== *)
theory Editor_Prelude
  imports Main "HOL-Library.Word" "HOL-Library.Multiset"
begin

text \<open>
  Shared vocabulary of the development: names for the machine integers the Rust code uses,
  Rust's three-valued comparison, the \<open>panic\<close> convention for fallible code, and the
  generic facts on lists, options and words that several components use.

  The convention for panics: a Rust function whose body can reach \<open>unwrap()\<close> on
  \<open>None\<close>, \<open>unreachable!()\<close>, a failed \<open>assert!\<close> or an out-of-range index
  is modelled with a result of type \<^typ>\<open>'a option\<close>, and \<^const>\<open>None\<close> is the panic.
  Where the Rust function itself returns an \<open>Option\<close>, the two layers are kept apart.
  Arithmetic follows the release profile of \<open>Cargo.toml\<close>, which does not set
  \<open>overflow-checks\<close>: fixed-width integers wrap around, and \<open>debug_assert!\<close>
  is compiled out (its condition appears as a lemma where it matters).
\<close>

type_synonym u8 = "8 word"
type_synonym u16 = "16 word"
type_synonym u32 = "32 word"
type_synonym u64 = "64 word"

named_theorems items_simps \<open>equations for the item sequence of a tree after an operation\<close>
named_theorems wf_intros \<open>well-formedness of the results of tree operations\<close>

subsection \<open>Comparison\<close>

text \<open>Rust's \<open>std::cmp::Ordering\<close> and \<open>Ord::cmp\<close>.\<close>

datatype ordering = Less | Equal | Greater

definition cmp :: "'a::linorder \<Rightarrow> 'a \<Rightarrow> ordering" where
  "cmp a b = (if a < b then Less else if a = b then Equal else Greater)"

lemma cmp_simps [simp]:
  "cmp a b = Less \<longleftrightarrow> a < b"
  "cmp a b = Equal \<longleftrightarrow> a = b"
  "cmp a b = Greater \<longleftrightarrow> b < a"
  by (auto simp: cmp_def)

text \<open>\<open>Ordering::then_with\<close>.\<close>

definition then_with :: "ordering \<Rightarrow> ordering \<Rightarrow> ordering" where
  "then_with a b = (if a = Equal then b else a)"

subsection \<open>Lists\<close>

text \<open>\<open>Vec::resize(n, v)\<close> where the new length is at least the old one.\<close>

definition resize_up :: "nat \<Rightarrow> 'a \<Rightarrow> 'a list \<Rightarrow> 'a list" where
  "resize_up n v xs = xs @ replicate (n - length xs) v"

lemma length_resize_up [simp]: "length (resize_up n v xs) = max n (length xs)"
  by (simp add: resize_up_def)

lemma nth_resize_up:
  "i < max n (length xs) \<Longrightarrow> resize_up n v xs ! i = (if i < length xs then xs ! i else v)"
  by (auto simp: resize_up_def nth_append)

text \<open>Indexing with a default, \<open>v.get(i).copied().unwrap_or(d)\<close>.\<close>

definition get_or :: "'a \<Rightarrow> 'a list \<Rightarrow> nat \<Rightarrow> 'a" where
  "get_or d xs i = (if i < length xs then xs ! i else d)"

lemma get_or_resize_up [simp]: "get_or d (resize_up n d xs) i = get_or d xs i"
  by (auto simp: get_or_def nth_resize_up)

lemma get_or_update:
  "i < length xs \<Longrightarrow> get_or d (xs[i := v]) j = (if j = i then v else get_or d xs j)"
  by (auto simp: get_or_def nth_list_update)

lemma get_or_Cons_0 [simp]: "get_or d (x # xs) 0 = x"
  and get_or_Cons_Suc [simp]: "get_or d (x # xs) (Suc i) = get_or d xs i"
  and get_or_Nil [simp]: "get_or d [] i = d"
  by (auto simp: get_or_def)

text \<open>Of two ways to cut a list, the one with the shorter first part leaves the rest of the other first part.\<close>

lemma append_cut:
  assumes "xs @ ys = zs @ ws" "length xs \<le> length zs"
  obtains us where "zs = xs @ us" "ys = us @ ws"
  using assms by (auto simp: append_eq_append_conv2)

lemma concat_singletons_nonempty:
  "ts \<noteq> [] \<Longrightarrow> \<forall>t \<in> set ts. f t \<noteq> [] \<Longrightarrow> concat (map f ts) \<noteq> []"
  by (cases ts) auto

lemma butlast_snoc_last: "xs \<noteq> [] \<Longrightarrow> concat (map f xs) = concat (map f (butlast xs)) @ f (last xs)"
  by (cases xs rule: rev_cases) auto

lemma in_set_butlast_last: "xs \<noteq> [] \<Longrightarrow> set xs = insert (last xs) (set (butlast xs))"
  by (cases xs rule: rev_cases) auto

lemma distinct_submset:
  assumes "distinct ys" "mset xs \<subseteq># mset ys"
  shows "distinct xs \<and> set xs \<subseteq> set ys"
proof -
  obtain N where "mset ys = mset xs + N" using assms(2) by (metis mset_subset_eq_exists_conv)
  moreover obtain zs where "mset zs = N" using ex_mset by blast
  ultimately have "mset (xs @ zs) = mset ys" by simp
  then have "distinct (xs @ zs)" "set (xs @ zs) = set ys" using assms(1) mset_eq_imp_distinct_iff mset_eq_setD by blast+
  then show ?thesis by auto
qed

subsection \<open>Words and vectors with a default\<close>

lemma word_less_add_1:
  fixes x :: "'a::len word" assumes "x < - 1" shows "x < x + 1"
proof -
  have "x + 1 \<noteq> 0" using max_word_wrap [of x] assms by auto
  then show ?thesis by (simp add: word_less_nat_alt unatSuc add.commute)
qed

lemma max_neq_0: "(a :: 'a::len word) \<noteq> 0 \<or> b \<noteq> 0 \<Longrightarrow> max a b \<noteq> 0"
  by (auto simp: max_def)

lemma get_or_take_zero: "(\<And>j. n \<le> j \<Longrightarrow> get_or d xs j = d) \<Longrightarrow> get_or d (take n xs) i = get_or d xs i"
  by (cases "n \<le> i") (auto simp: get_or_def)

end
