(* ===== verification/Clock.thy ===== *)
theory Clock
  imports Editor_Prelude
begin

unbundle bit_operations_syntax

text \<open>
  The logical clocks of \<open>crates/clock/src/clock.rs\<close>: replica ids, Lamport timestamps
  with their total order and 64-bit encoding, and the version vector \<open>Global\<close>.
  A \<open>Global\<close> is a vector of sequence numbers indexed by replica id in which absent
  entries count as 0; the theory shows that every operation of the vector is the expected
  operation on the function \<^term>\<open>\<lambda>r. get g r\<close>, and that the length tests the code
  uses as short cuts are right because no operation leaves a trailing zero.
\<close>

subsection \<open>Replica ids\<close>

type_synonym replica_id = u16

definition LOCAL :: replica_id where "LOCAL = 0"
definition REMOTE_SERVER :: replica_id where "REMOTE_SERVER = 1"
definition AGENT :: replica_id where "AGENT = 2"
definition LOCAL_BRANCH :: replica_id where "LOCAL_BRANCH = 3"
definition FIRST_COLLAB_ID :: replica_id where "FIRST_COLLAB_ID = 8"

definition is_remote :: "replica_id \<Rightarrow> bool" where
  "is_remote r \<longleftrightarrow> r = REMOTE_SERVER \<or> FIRST_COLLAB_ID \<le> r"

subsection \<open>Lamport timestamps\<close>

type_synonym seq = u32

datatype lamport = Lamport (tvalue: seq) (replica_id: replica_id)

definition lamport_cmp :: "lamport \<Rightarrow> lamport \<Rightarrow> ordering" where
  "lamport_cmp a b = then_with (cmp (tvalue a) (tvalue b)) (cmp (replica_id a) (replica_id b))"

instantiation lamport :: linorder
begin

definition less_lamport :: "lamport \<Rightarrow> lamport \<Rightarrow> bool" where
  "less_lamport a b \<longleftrightarrow> lamport_cmp a b = Less"

definition less_eq_lamport :: "lamport \<Rightarrow> lamport \<Rightarrow> bool" where
  "less_eq_lamport a b \<longleftrightarrow> lamport_cmp a b \<noteq> Greater"

instance
proof
  fix x y z :: lamport
  show "x < y \<longleftrightarrow> x \<le> y \<and> \<not> y \<le> x"
    by (auto simp: less_lamport_def less_eq_lamport_def lamport_cmp_def then_with_def)
  show "x \<le> x"
    by (simp add: less_eq_lamport_def lamport_cmp_def then_with_def)
  show "x \<le> y \<Longrightarrow> y \<le> z \<Longrightarrow> x \<le> z"
    by (auto simp: less_eq_lamport_def lamport_cmp_def then_with_def cmp_def split: if_splits)
  show "x \<le> y \<Longrightarrow> y \<le> x \<Longrightarrow> x = y"
    by (cases x; cases y)
      (auto simp: less_eq_lamport_def lamport_cmp_def then_with_def cmp_def split: if_splits)
  show "x \<le> y \<or> y \<le> x"
    by (auto simp: less_eq_lamport_def lamport_cmp_def then_with_def)
qed

end

definition lamport_MIN :: lamport where "lamport_MIN = Lamport 0 0"
definition lamport_MAX :: lamport where "lamport_MAX = Lamport (-1) (-1)"

definition lamport_new :: "replica_id \<Rightarrow> lamport" where
  "lamport_new r = Lamport 1 r"

definition as_u64 :: "lamport \<Rightarrow> u64" where
  "as_u64 t = push_bit 32 (ucast (tvalue t)) OR ucast (replica_id t)"

definition tick :: "lamport \<Rightarrow> lamport \<times> lamport" where
  "tick t = (t, Lamport (tvalue t + 1) (replica_id t))"

definition lamport_observe :: "lamport \<Rightarrow> lamport \<Rightarrow> lamport" where
  "lamport_observe t s = Lamport (max (tvalue t) (tvalue s) + 1) (replica_id t)"

subsection \<open>Version vectors\<close>

datatype global = Global (vals: "seq list")

definition global_new :: global where "global_new = Global []"

definition get :: "global \<Rightarrow> replica_id \<Rightarrow> seq" where
  "get g r = get_or 0 (vals g) (unat r)"

definition observe :: "global \<Rightarrow> lamport \<Rightarrow> global" where
  "observe g t =
     (if 0 < tvalue t then
        let new_len = unat (replica_id t) + 1;
            vs = (if new_len > length (vals g) then resize_up new_len 0 (vals g) else vals g);
            i = unat (replica_id t)
        in Global (vs[i := max (vs ! i) (tvalue t)])
      else g)"

fun zip_max :: "seq list \<Rightarrow> seq list \<Rightarrow> seq list" where
  "zip_max (l # ls) (r # rs) = max l r # zip_max ls rs"
| "zip_max ls [] = ls"
| "zip_max [] rs = []"

definition join :: "global \<Rightarrow> global \<Rightarrow> global" where
  "join g h =
     (let vs = (if length (vals h) > length (vals g)
                then resize_up (length (vals h)) 0 (vals g) else vals g)
      in Global (zip_max vs (vals h)))"

definition meet_entry :: "seq \<Rightarrow> seq \<Rightarrow> seq" where
  "meet_entry l r = (if l = 0 then r else if r = 0 then l else min l r)"

text \<open>The loop of \<open>meet\<close>: the updated vector and \<open>new_len\<close>, from index \<open>ix\<close> on.\<close>

fun meet_loop :: "nat \<Rightarrow> nat \<Rightarrow> seq list \<Rightarrow> seq list \<Rightarrow> seq list \<times> nat" where
  "meet_loop ix new_len (l # ls) (r # rs) =
     (let l' = meet_entry l r;
          (ls', n) = meet_loop (ix + 1) (if l' \<noteq> 0 then ix + 1 else new_len) ls rs
      in (l' # ls', n))"
| "meet_loop ix new_len ls [] = (ls, new_len)"
| "meet_loop ix new_len [] rs = ([], new_len)"

definition meet :: "global \<Rightarrow> global \<Rightarrow> global" where
  "meet g h =
     (let vs = (if length (vals h) > length (vals g)
                then resize_up (length (vals h)) 0 (vals g) else vals g);
          (vs', new_len) = meet_loop 0 0 vs (vals h)
      in Global (if length (vals h) = length vs' then take new_len vs' else vs'))"

definition observed :: "global \<Rightarrow> lamport \<Rightarrow> bool" where
  "observed g t \<longleftrightarrow> tvalue t \<le> get g (replica_id t)"

definition global_iter :: "global \<Rightarrow> lamport list" where
  "global_iter g = map (\<lambda>(i, s). Lamport s (of_nat i)) (enumerate 0 (vals g))"

definition observed_any :: "global \<Rightarrow> global \<Rightarrow> bool" where
  "observed_any g h \<longleftrightarrow>
     list_ex (\<lambda>(l, r). 0 < tvalue r \<and> tvalue r \<le> tvalue l) (zip (global_iter g) (global_iter h))"

definition observed_all :: "global \<Rightarrow> global \<Rightarrow> bool" where
  "observed_all g h \<longleftrightarrow>
     \<not> length (vals g) < length (vals h) \<and>
     list_all (\<lambda>(l, r). tvalue r \<le> tvalue l) (zip (global_iter g) (global_iter h))"

definition changed_since :: "global \<Rightarrow> global \<Rightarrow> bool" where
  "changed_since g h \<longleftrightarrow>
     length (vals g) > length (vals h) \<or> list_ex (\<lambda>(l, r). r < l) (zip (vals g) (vals h))"

text \<open>\<open>Iterator::max_by_key\<close> returns the last of several maximal elements.\<close>

fun max_by_value :: "lamport \<Rightarrow> lamport list \<Rightarrow> lamport" where
  "max_by_value best [] = best"
| "max_by_value best (t # ts) = max_by_value (if tvalue best \<le> tvalue t then t else best) ts"

definition most_recent :: "global \<Rightarrow> lamport option" where
  "most_recent g = (case global_iter g of [] \<Rightarrow> None | t # ts \<Rightarrow> Some (max_by_value t ts))"

definition global_from_iter :: "lamport list \<Rightarrow> global" where
  "global_from_iter ts = foldl observe global_new ts"

subsection \<open>Timestamps are totally ordered\<close>

lemma lamport_less_iff:
  "a < b \<longleftrightarrow> tvalue a < tvalue b \<or> (tvalue a = tvalue b \<and> replica_id a < replica_id b)"
  by (auto simp: less_lamport_def lamport_cmp_def then_with_def)

lemma uint_as_u64: "uint (as_u64 t) = uint (tvalue t) * 2 ^ 32 + uint (replica_id t)"
proof -
  let ?v = "ucast (tvalue t) :: u64" and ?r = "ucast (replica_id t) :: u64"
  have v: "uint ?v = uint (tvalue t)" and r: "uint ?r = uint (replica_id t)"
    by (simp_all add: unsigned_ucast_eq take_bit_int_eq_self_iff)
      (use uint_lt2p [of "tvalue t"] uint_lt2p [of "replica_id t"] in simp_all)
  have "push_bit 32 ?v AND ?r = 0"
    by (rule bit_eqI) (auto simp: bit_simps dest: bit_imp_le_length)
  then have "as_u64 t = push_bit 32 ?v + ?r"
    by (simp add: as_u64_def disjunctive_add_eq_or)
  moreover have "uint (push_bit 32 ?v) = uint (tvalue t) * 2 ^ 32"
    using v uint_lt2p [of "tvalue t"]
    by (simp add: push_bit_eq_mult uint_word_ariths)
  ultimately show ?thesis
    using r uint_lt2p [of "tvalue t"] uint_lt2p [of "replica_id t"]
    by (simp add: uint_word_ariths)
qed

lemma pair_code_less_iff:
  fixes v v' r r' :: int
  assumes "0 \<le> r" "r < 4294967296" "0 \<le> r'" "r' < 4294967296"
  shows "v * 4294967296 + r < v' * 4294967296 + r' \<longleftrightarrow> v < v' \<or> v = v' \<and> r < r'"
  using assms by (cases v v' rule: linorder_cases) linarith+

text \<open>Fact (as_u64_mono): the 64-bit encoding of a timestamp preserves and reflects the total order
  of timestamps, so sorting encoded timestamps sorts the timestamps.\<close>

theorem as_u64_mono: "as_u64 a < as_u64 b \<longleftrightarrow> a < b"
proof -
  have "uint (replica_id a) < 4294967296" "uint (replica_id b) < 4294967296"
    using uint_lt2p [of "replica_id a"] uint_lt2p [of "replica_id b"] by simp_all
  then show ?thesis
    by (simp add: word_less_def uint_as_u64 lamport_less_iff word_uint_eq_iff pair_code_less_iff)
qed

lemma zip_max_Nil [simp]: "zip_max ls [] = ls" "zip_max [] rs = []"
  by (cases ls; simp)(cases rs; simp)

lemma length_zip_max [simp]: "length (zip_max ls rs) = length ls"
  by (induction ls rs rule: zip_max.induct) auto

lemma zip_max_eq_Nil [simp]: "zip_max ls rs = [] \<longleftrightarrow> ls = []"
  by (cases ls; cases rs) auto

lemma get_or_zip_max:
  "length rs \<le> length ls \<Longrightarrow> get_or 0 (zip_max ls rs) i = max (get_or 0 ls i) (get_or 0 rs i)"
proof (induction ls rs arbitrary: i rule: zip_max.induct)
  case (1 l ls r rs)
  then show ?case by (cases i) auto
qed auto

lemma get_observe:
  "get (observe g t) r = (if r = replica_id t then max (get g r) (tvalue t) else get g r)"
proof (cases "0 < tvalue t")
  case True
  then show ?thesis
    by (auto simp: get_def observe_def Let_def get_or_update word_unat_eq_iff max_def get_or_def
        nth_resize_up nth_list_update) 
next
  case False
  then have "tvalue t = 0" by (simp add: word_gt_0)
  then show ?thesis by (auto simp: observe_def)
qed

lemma get_join: "get (join g h) r = max (get g r) (get h r)"
  by (auto simp: get_def join_def Let_def get_or_zip_max)

lemma meet_loop_Nil [simp]: "meet_loop ix n ls [] = (ls, n)" "meet_loop ix n [] rs = ([], n)"
  by (cases ls; simp)(cases rs; simp)

lemma length_meet_loop [simp]: "length (fst (meet_loop ix n ls rs)) = length ls"
  by (induction ix n ls rs rule: meet_loop.induct) (auto simp: Let_def split: prod.splits)

lemma get_or_meet_loop:
  "length rs \<le> length ls \<Longrightarrow>
   get_or 0 (fst (meet_loop ix n ls rs)) i = meet_entry (get_or 0 ls i) (get_or 0 rs i)"
proof (induction ix n ls rs arbitrary: i rule: meet_loop.induct)
  case (1 ix n l ls r rs)
  then show ?case by (cases i) (auto simp: Let_def split: prod.splits)
qed (auto simp: meet_entry_def)

lemma meet_loop_len_ge: "n \<le> ix \<Longrightarrow> n \<le> snd (meet_loop ix n ls rs)"
proof (induction ix n ls rs rule: meet_loop.induct)
  case (1 ix n l ls r rs)
  then show ?case 
   by (auto simp: Let_def  split: prod.splits if_splits)
qed auto

lemma meet_loop_zero:
  "n \<le> ix \<Longrightarrow> length ls = length rs \<Longrightarrow> snd (meet_loop ix n ls rs) \<le> ix + j \<Longrightarrow>
   get_or 0 (fst (meet_loop ix n ls rs)) j = 0"
proof (induction ix n ls rs arbitrary: j rule: meet_loop.induct)
  case (1 ix n l ls r rs)
  show ?case
  proof (cases j)
    case 0
    have "\<not> meet_entry l r \<noteq> 0"
      using "1.prems" 0 meet_loop_len_ge [of "ix + 1" "ix + 1" ls rs]
      by (auto simp: Let_def split: prod.splits if_splits)
    then show ?thesis using 0 by (simp add: Let_def split: prod.splits)
  next
    case (Suc k)
    then show ?thesis using "1.IH" [OF refl, of k] "1.prems"
      by (auto simp: Let_def split: prod.splits)
  qed
qed auto

lemma get_meet: "get (meet g h) r = meet_entry (get g r) (get h r)"
proof -
  define vs where "vs = (if length (vals h) > length (vals g)
    then resize_up (length (vals h)) 0 (vals g) else vals g)"
  obtain vs' n where ml: "meet_loop 0 0 vs (vals h) = (vs', n)" by fastforce
  have len: "length (vals h) \<le> length vs" by (simp add: vs_def)
  have vs': "get_or 0 vs' i = meet_entry (get_or 0 vs i) (get_or 0 (vals h) i)" for i
    using get_or_meet_loop [OF len, of 0 0 i] ml by simp
  have "length vs' = length vs" using length_meet_loop [of 0 0 vs "vals h"] ml by simp
  then have tk: "get_or 0 (take n vs') i = get_or 0 vs' i" if "length (vals h) = length vs'" for i
    using meet_loop_zero [of 0 0 vs "vals h"] ml that by (intro get_or_take_zero) auto
  have "get_or 0 vs i = get_or 0 (vals g) i" for i by (simp add: vs_def)
  with ml vs' tk show ?thesis
    by (auto simp: get_def meet_def vs_def [symmetric] Let_def)
qed

subsection \<open>No trailing zeros\<close>

text \<open>
  The length of the vector is significant to \<open>observed_all\<close>, \<open>changed_since\<close> and to the
  derived equality: all three are right only for vectors without trailing zeros. The length is
  also bounded by the number of replica ids, so that \<open>iter\<close> never truncates an index.
\<close>

definition wf_global :: "global \<Rightarrow> bool" where
  "wf_global g \<longleftrightarrow> length (vals g) \<le> 65536 \<and> (vals g = [] \<or> last (vals g) \<noteq> 0)"

lemma unat_u16_less: "unat (r :: u16) < 65536"
  using unsigned_less [of r] by simp

lemma unat_of_nat_u16: "i < 65536 \<Longrightarrow> unat (of_nat i :: u16) = i"
  by (simp add: unat_of_nat)

lemma get_of_nat: "i < 65536 \<Longrightarrow> get g (of_nat i) = get_or 0 (vals g) i"
  by (simp add: get_def unat_of_nat_u16)

text \<open>Length against entries: a vector without trailing zeros has an entry at its last index.\<close>

lemma wf_global_last:
  assumes "wf_global g" "vals g \<noteq> []"
  shows "get g (of_nat (length (vals g) - 1)) \<noteq> 0"
  using assms by (auto simp: wf_global_def get_of_nat get_or_def last_conv_nth)

lemma get_beyond: "length (vals g) \<le> unat r \<Longrightarrow> get g r = 0"
  by (simp add: get_def get_or_def)

lemma get_global_new: "get global_new r = 0"
  by (simp add: global_new_def get_beyond)

lemma wf_global_length_le:
  assumes "wf_global h" "\<And>r. get h r \<le> get g r"
  shows "length (vals h) \<le> length (vals g)"
proof (rule ccontr)
  assume *: "\<not> length (vals h) \<le> length (vals g)"
  define r :: u16 where "r = of_nat (length (vals h) - 1)"
  have "unat r = length (vals h) - 1"
    using assms(1) * unfolding r_def by (intro unat_of_nat_u16) (auto simp: wf_global_def)
  then have "get g r = 0" using * by (intro get_beyond) auto
  moreover have "get h r \<noteq> 0" unfolding r_def using * by (intro wf_global_last assms) auto
  ultimately show False using assms(2) [of r] by simp
qed

lemma wf_globalI:
  assumes "length vs \<le> 65536" "vs \<noteq> [] \<Longrightarrow> get_or 0 vs (length vs - 1) \<noteq> 0"
  shows "wf_global (Global vs)"
  using assms by (auto simp: wf_global_def last_conv_nth get_or_def split: if_splits)

lemma wf_global_get_or:
  "wf_global g \<Longrightarrow> vals g \<noteq> [] \<Longrightarrow> get_or 0 (vals g) (length (vals g) - 1) \<noteq> 0"
  by (auto simp: wf_global_def last_conv_nth get_or_def)

lemma wf_global_new [wf_intros]: "wf_global global_new"
  by (simp add: wf_global_def global_new_def)

lemma wf_observe [wf_intros]:
  assumes "wf_global g" shows "wf_global (observe g t)"
proof (cases "0 < tvalue t")
  case True
  define n where "n = unat (replica_id t)"
  define m where "m = max (get g (replica_id t)) (tvalue t)"
  define vs where "vs = (if n + 1 > length (vals g) then resize_up (n + 1) 0 (vals g) else vals g)"
  have obs: "observe g t = Global (vs[n := m])"
    using True by (auto simp: observe_def Let_def get_def get_or_def nth_resize_up vs_def m_def n_def)
  have m: "m \<noteq> 0" using True unfolding m_def by (intro max_neq_0) (auto simp: word_gt_0)
  have n: "n < length vs" "n < 65536" by (auto simp: vs_def n_def unat_u16_less)
  have "length vs \<le> 65536" using assms n by (auto simp: vs_def wf_global_def)
  moreover have "get_or 0 (vs[n := m]) (length vs - 1) \<noteq> 0"
  proof (cases "n = length vs - 1")
    case False
    then have "vs = vals g" "vals g \<noteq> []" using n by (auto simp: vs_def max_def split: if_splits)
    with False n wf_global_get_or [OF assms] show ?thesis by (simp add: get_or_update)
  qed (use n m in \<open>simp add: get_or_update\<close>)
  ultimately show ?thesis unfolding obs by (intro wf_globalI) auto
qed (use assms in \<open>simp add: observe_def\<close>)

lemma wf_join [wf_intros]:
  assumes "wf_global g" "wf_global h" shows "wf_global (join g h)"
proof -
  define vs where "vs = (if length (vals h) > length (vals g)
    then resize_up (length (vals h)) 0 (vals g) else vals g)"
  have "length vs = max (length (vals g)) (length (vals h))" by (auto simp: vs_def)
  moreover have "get_or 0 vs i = get_or 0 (vals g) i" for i by (simp add: vs_def)
  ultimately have "wf_global (Global (zip_max vs (vals h)))"
    using assms wf_global_get_or [OF assms(1)] wf_global_get_or [OF assms(2)]
    by (intro wf_globalI)
      (fastforce simp: get_or_zip_max wf_global_def max_def intro!: max_neq_0 split: if_splits)+
  then show ?thesis by (simp add: join_def vs_def [symmetric])
qed

lemma meet_loop_last:
  "n \<le> ix \<Longrightarrow> length ls = length rs \<Longrightarrow> snd (meet_loop ix n ls rs) = n \<or>
   (ix < snd (meet_loop ix n ls rs) \<and> snd (meet_loop ix n ls rs) \<le> ix + length ls \<and>
    get_or 0 (fst (meet_loop ix n ls rs)) (snd (meet_loop ix n ls rs) - 1 - ix) \<noteq> 0)"
proof (induction ix n ls rs rule: meet_loop.induct)
  case (1 ix n l ls r rs)
  define m where "m = (if meet_entry l r \<noteq> 0 then ix + 1 else n)"
  obtain ls' k where *: "meet_loop (ix + 1) m ls rs = (ls', k)" by fastforce
  have "k = m \<or> (ix + 1 < k \<and> k \<le> ix + 1 + length ls \<and> get_or 0 ls' (k - 1 - (ix + 1)) \<noteq> 0)"
    using "1.IH" [OF refl] "1.prems" * by (auto simp: m_def split: if_splits)
  moreover have "meet_loop ix n (l # ls) (r # rs) = (meet_entry l r # ls', k)"
    using * by (auto simp: m_def Let_def)
  moreover have "k - 1 - ix = Suc (k - 1 - (ix + 1))" if "ix + 1 < k" using that by arith
  ultimately show ?case by (auto simp: m_def split: if_splits)
qed auto

lemma wf_meet [wf_intros]:
  assumes "wf_global g" "wf_global h" shows "wf_global (meet g h)"
proof -
  define vs where "vs = (if length (vals h) > length (vals g)
    then resize_up (length (vals h)) 0 (vals g) else vals g)"
  obtain vs' n where ml: "meet_loop 0 0 vs (vals h) = (vs', n)" by fastforce
  have "length vs' = length vs" using length_meet_loop [of 0 0 vs "vals h"] ml by simp
  moreover have "length (vals h) \<le> length vs" "length vs \<le> 65536"
    using assms by (auto simp: vs_def wf_global_def)
  ultimately have len: "length vs' = length vs" "length (vals h) \<le> length vs" "length vs \<le> 65536"
    by auto
  have mt: "meet g h = Global (if length (vals h) = length vs' then take n vs' else vs')"
    using ml by (simp add: meet_def vs_def [symmetric])
  show ?thesis
  proof (cases "length (vals h) = length vs'")
    case True
    then have "n = 0 \<or> (0 < n \<and> n \<le> length vs' \<and> get_or 0 vs' (n - 1) \<noteq> 0)"
      using meet_loop_last [of 0 0 vs "vals h"] ml len by simp
    then show ?thesis using True len unfolding mt
      by (auto intro!: wf_globalI simp: get_or_def split: if_splits)
  next
    case False
    then have *: "length (vals h) < length vs" "vs = vals g" using len by (auto simp: vs_def)
    then have beyond: "get_or 0 (vals h) (length vs - 1) = 0" by (auto simp: get_or_def)
    have "get_or 0 vs' (length vs - 1) = meet_entry (get_or 0 vs (length vs - 1)) 0"
      using get_or_meet_loop [of "vals h" vs 0 0 "length vs - 1"] ml * beyond by simp
    also have "\<dots> \<noteq> 0"
      using * wf_global_get_or [OF assms(1)] by (fastforce simp: meet_entry_def)
    finally show ?thesis using False len unfolding mt by (auto intro!: wf_globalI)
  qed
qed

lemma wf_from_iter [wf_intros]: "wf_global (global_from_iter ts)"
proof -
  have "wf_global g \<Longrightarrow> wf_global (foldl observe g ts)" for g
    by (induction ts arbitrary: g) (auto intro: wf_observe)
  then show ?thesis by (simp add: global_from_iter_def wf_global_new)
qed

lemma wf_global_eqI:
  assumes "wf_global g" "wf_global h" "\<And>r. get g r = get h r"
  shows "g = h"
proof -
  have "length (vals g) = length (vals h)"
    using wf_global_length_le [of g h] wf_global_length_le [of h g] assms by auto
  moreover have "vals g ! i = vals h ! i" if "i < length (vals g)" for i
    using assms(3) [of "of_nat i"] that assms(1,2) calculation
    by (simp add: get_of_nat wf_global_def get_or_def)
  ultimately show ?thesis by (intro global.expand nth_equalityI) auto
qed

lemma global_iter_nth:
  "i < length (vals g) \<Longrightarrow> global_iter g ! i = Lamport (vals g ! i) (of_nat i)"
  "length (global_iter g) = length (vals g)"
  by (simp_all add: global_iter_def nth_enumerate_eq)

lemma observed_all_get:
  assumes "wf_global h"
  shows "observed_all g h \<longleftrightarrow> (\<forall>r. get h r \<le> get g r)"
proof
  assume *: "observed_all g h"
  show "\<forall>r. get h r \<le> get g r"
  proof
    fix r show "get h r \<le> get g r"
    proof (cases "unat r < length (vals h)")
      case True
      then have "vals h ! unat r \<le> vals g ! unat r"
        using * by (auto simp: observed_all_def list_all_length global_iter_nth)
      then show ?thesis using True * by (auto simp: get_def get_or_def observed_all_def)
    qed (simp add: get_beyond)
  qed
next
  assume *: "\<forall>r. get h r \<le> get g r"
  have len: "length (vals h) \<le> length (vals g)"
    using wf_global_length_le assms * by auto
  have "vals h ! i \<le> vals g ! i" if "i < length (vals h)" for i
    using * [rule_format, of "of_nat i"] that len assms
    by (simp add: get_of_nat wf_global_def get_or_def)
  then show "observed_all g h"
    using len by (auto simp: observed_all_def list_all_length global_iter_nth)
qed

lemma observed_all_iff: "wf_global g \<Longrightarrow> wf_global h \<Longrightarrow> observed_all g h \<longleftrightarrow> (\<forall>r. get h r \<le> get g r)"
  by (rule observed_all_get)

lemma changed_since_iff:
  assumes "wf_global g" "wf_global h"
  shows "changed_since g h \<longleftrightarrow> \<not> observed_all h g"
  by (auto simp: changed_since_def observed_all_def list_all_length list_ex_length global_iter_nth not_le)

lemma observed_any_get:
  assumes "wf_global h"
  shows "observed_any g h \<longleftrightarrow> (\<exists>r. 0 < get h r \<and> get h r \<le> get g r)"
proof
  assume "observed_any g h"
  then obtain i where i: "i < length (vals g)" "i < length (vals h)"
      "0 < vals h ! i" "vals h ! i \<le> vals g ! i"
    by (auto simp: observed_any_def list_ex_length global_iter_nth)
  then show "\<exists>r. 0 < get h r \<and> get h r \<le> get g r"
    using assms by (intro exI [of _ "of_nat i"]) (auto simp: get_of_nat wf_global_def get_or_def)
next
  assume "\<exists>r. 0 < get h r \<and> get h r \<le> get g r"
  then obtain r where r: "0 < get h r" "get h r \<le> get g r" by blast
  then have "get h r \<noteq> 0" "get g r \<noteq> 0" by (auto simp: word_gt_0)
  then have "unat r < length (vals h)" "unat r < length (vals g)"
    using get_beyond not_less by metis+
  with r show "observed_any g h"
    by (auto simp: observed_any_def list_ex_length global_iter_nth get_def get_or_def intro!: exI [of _ "unat r"])
qed

subsection \<open>The interface of version vectors\<close>

text \<open>
  What the buffer, the undo map and the operation queue rely on: which timestamps a version has
  observed after \<open>observe\<close> and \<open>join\<close>. From these laws alone the order and the multiplicity in
  which timestamps arrive do not matter.
\<close>

definition covers :: "lamport \<Rightarrow> lamport \<Rightarrow> bool" where
  "covers t s \<longleftrightarrow> replica_id s = replica_id t \<and> tvalue s \<le> tvalue t"

locale version_vector =
  fixes vobserve :: "'g \<Rightarrow> lamport \<Rightarrow> 'g"
    and vjoin :: "'g \<Rightarrow> 'g \<Rightarrow> 'g"
    and vobserved :: "'g \<Rightarrow> lamport \<Rightarrow> bool"
  assumes observed_observe: "vobserved (vobserve g t) s \<longleftrightarrow> vobserved g s \<or> covers t s"
    and observed_join: "vobserved (vjoin g h) s \<longleftrightarrow> vobserved g s \<or> vobserved h s"
    and observed_covers: "vobserved g t \<Longrightarrow> covers t s \<Longrightarrow> vobserved g s"
begin

lemma observed_self: "vobserved (vobserve g t) t"
  by (simp add: observed_observe covers_def)

lemma observed_foldl:
  "vobserved (foldl vobserve g ts) s \<longleftrightarrow> vobserved g s \<or> (\<exists>t \<in> set ts. covers t s)"
  by (induction ts arbitrary: g) (auto simp: observed_observe)

lemma delivery_order_irrelevant:
  "set ts = set us \<Longrightarrow> vobserved (foldl vobserve g ts) s = vobserved (foldl vobserve g us) s"
  by (simp add: observed_foldl)

lemma join_foldl:
  "vobserved (vjoin (foldl vobserve g ts) (foldl vobserve g us)) s =
   vobserved (foldl vobserve g (ts @ us)) s"
  by (auto simp: observed_join observed_foldl simp del: foldl_append)

end

interpretation vv: version_vector observe join observed
proof unfold_locales
  fix g h t s
  show "observed (observe g t) s \<longleftrightarrow> observed g s \<or> covers t s"
    by (auto simp: observed_def get_observe covers_def le_max_iff_disj)
  show "observed (join g h) s \<longleftrightarrow> observed g s \<or> observed h s"
    by (auto simp: observed_def get_join le_max_iff_disj)
  show "observed g t \<Longrightarrow> covers t s \<Longrightarrow> observed g s"
    by (auto simp: observed_def covers_def)
qed

lemma get_eq_iff_observed: "get g r = get h r \<longleftrightarrow> (\<forall>v. observed g (Lamport v r) = observed h (Lamport v r))"
  by (auto simp: observed_def) (metis order_refl order.antisym)

lemma observed_ext:
  "wf_global g \<Longrightarrow> wf_global h \<Longrightarrow> (\<And>s. observed g s = observed h s) \<Longrightarrow> g = h"
  by (rule wf_global_eqI) (simp_all add: get_eq_iff_observed)

text \<open>C32 (version_delivery_order): collecting timestamps into a version vector depends only on
  the set of timestamps: neither the order of delivery nor duplicates matter.\<close>

theorem version_delivery_order:
  assumes "set ts = set us"
  shows "global_from_iter ts = global_from_iter us"
  unfolding global_from_iter_def
  using wf_from_iter [of ts] wf_from_iter [of us] vv.delivery_order_irrelevant [OF assms]
  by (intro observed_ext) (simp_all add: global_from_iter_def)

theorem version_delivery_order_witness:
  "global_from_iter [Lamport 3 0, Lamport 1 9, Lamport 2 0] =
   global_from_iter [Lamport 1 9, Lamport 2 0, Lamport 3 0, Lamport 1 9]"
  using version_delivery_order
    [of "[Lamport 3 0, Lamport 1 9, Lamport 2 0]" "[Lamport 1 9, Lamport 2 0, Lamport 3 0, Lamport 1 9]"]
  by auto


text \<open>\<open>join\<close> is the least upper bound of two version vectors for the
  order that \<open>observed_all\<close> decides.\<close>

theorem join_least_upper_bound:
  assumes "wf_global g" "wf_global h" "wf_global k"
  shows "observed_all k (join g h) \<longleftrightarrow> observed_all k g \<and> observed_all k h"
  using assms by (auto simp: observed_all_iff wf_intros get_join)

text \<open>C33 (tick_after_observe): a replica that observes a remote timestamp and then ticks issues a
  timestamp above both the remote one and its own clock, as long as the 32-bit counter does not
  wrap around.\<close>

theorem tick_after_observe:
  assumes "tvalue t < - 1" "tvalue s < - 1"
  shows "s < fst (tick (lamport_observe t s)) \<and> t < fst (tick (lamport_observe t s))"
proof -
  have "max (tvalue t) (tvalue s) < max (tvalue t) (tvalue s) + 1"
    using assms by (intro word_less_add_1) (auto simp: max_def)
  then show ?thesis by (auto simp: tick_def lamport_observe_def lamport_less_iff)
qed

theorem tick_after_observe_witness:
  "Lamport 7 9 < fst (tick (lamport_observe (Lamport 3 0) (Lamport 7 9))) \<and>
   Lamport 3 0 < fst (tick (lamport_observe (Lamport 3 0) (Lamport 7 9)))"
  by (rule tick_after_observe) simp_all


lemma max_by_value_in: "max_by_value b ts \<in> insert b (set ts)"
proof (induction ts arbitrary: b)
  case (Cons u ts)
  then show ?case using Cons.IH [of u] Cons.IH [of b] by auto
qed simp

lemma max_by_value_ge: "t \<in> insert b (set ts) \<Longrightarrow> tvalue t \<le> tvalue (max_by_value b ts)"
proof (induction ts arbitrary: b t)
  case (Cons u ts)
  show ?case
  proof (cases "tvalue b \<le> tvalue u")
    case True
    have "tvalue u \<le> tvalue (max_by_value u ts)" by (rule Cons.IH) simp
    then show ?thesis using Cons True by (auto intro: order_trans)
  next
    case False
    have "tvalue b \<le> tvalue (max_by_value b ts)" by (rule Cons.IH) simp
    moreover have "tvalue u \<le> tvalue b" using False by simp
    ultimately show ?thesis using Cons False by (auto intro: order_trans)
  qed
qed simp

lemma get_global_iter:
  assumes "wf_global g"
  shows "t \<in> set (global_iter g) \<Longrightarrow> get g (replica_id t) = tvalue t"
    and "get g r \<noteq> 0 \<Longrightarrow> \<exists>t \<in> set (global_iter g). tvalue t = get g r"
proof -
  show "get g (replica_id t) = tvalue t" if "t \<in> set (global_iter g)"
    using that assms by (auto simp: in_set_conv_nth global_iter_nth get_of_nat get_or_def wf_global_def)
  assume "get g r \<noteq> 0"
  then have r: "unat r < length (vals g)" using get_beyond not_less by metis
  then have "global_iter g ! unat r \<in> set (global_iter g)"
    by (intro nth_mem) (simp add: global_iter_nth)
  with r show "\<exists>t \<in> set (global_iter g). tvalue t = get g r"
    by (intro bexI [of _ "global_iter g ! unat r"]) (auto simp: global_iter_nth get_def get_or_def)
qed

text \<open>Fact (most_recent_bounds): \<open>most_recent\<close> returns an entry of the version vector, and no replica has a
  larger sequence number.\<close>

theorem most_recent_bounds:
  assumes "wf_global g" "most_recent g = Some t"
  shows "get g (replica_id t) = tvalue t \<and> (\<forall>r. get g r \<le> tvalue t)"
proof -
  obtain u us where us: "global_iter g = u # us" "t = max_by_value u us"
    using assms(2) by (auto simp: most_recent_def split: list.splits)
  have "t \<in> set (global_iter g)" using us max_by_value_in [of u us] by simp
  moreover have "get g r \<le> tvalue t" for r
  proof (cases "get g r = 0")
    case False
    then obtain s where "s \<in> set (global_iter g)" "tvalue s = get g r"
      using get_global_iter(2) [OF assms(1)] by blast
    then show ?thesis using us max_by_value_ge [of s u us] by auto
  qed simp
  ultimately show ?thesis using get_global_iter(1) [OF assms(1)] by blast
qed

theorem most_recent_bounds_witness:
  "get (Global [3, 5, 5]) (replica_id (Lamport 5 2)) = tvalue (Lamport 5 2) \<and>
   (\<forall>r. get (Global [3, 5, 5]) r \<le> tvalue (Lamport 5 2))"
  by (rule most_recent_bounds)
    (simp_all add: wf_global_def most_recent_def global_iter_def enumerate_eq_zip)



text \<open>Fact (changed_since_pointwise): the editor's test whether a buffer changed since a version is
  the pointwise one: some replica's sequence number has grown. The code's comparison of
  vector lengths agrees with it on every vector the operations can build.\<close>

theorem changed_since_pointwise:
  assumes "wf_global g" "wf_global h"
  shows "changed_since g h \<longleftrightarrow> (\<exists>r. get h r < get g r)"
  using assms by (auto simp: changed_since_iff observed_all_iff not_le)

theorem changed_since_pointwise_witness:
  "changed_since (Global [3, 0, 1]) (Global [3]) \<longleftrightarrow>
   (\<exists>r. get (Global [3]) r < get (Global [3, 0, 1]) r)"
  by (rule changed_since_pointwise) (simp_all add: wf_global_def)

text \<open>Fact (meet_pointwise): \<open>meet\<close> takes, for each replica, the sequence number of the vector that has
  observed it, and the smaller one where both have; the result has no trailing zero.\<close>

theorem meet_pointwise:
  assumes "wf_global g" "wf_global h"
  shows "wf_global (meet g h) \<and>
    (\<forall>r. get (meet g h) r =
       (if get g r = 0 then get h r else if get h r = 0 then get g r else min (get g r) (get h r)))"
  using assms by (simp add: wf_intros get_meet meet_entry_def)

theorem meet_pointwise_witness:
  "wf_global (meet (Global [4, 0, 2]) (Global [3, 7])) \<and>
    (\<forall>r. get (meet (Global [4, 0, 2]) (Global [3, 7])) r =
       (if get (Global [4, 0, 2]) r = 0 then get (Global [3, 7]) r
        else if get (Global [3, 7]) r = 0 then get (Global [4, 0, 2]) r
        else min (get (Global [4, 0, 2]) r) (get (Global [3, 7]) r)))"
  by (rule meet_pointwise) (simp_all add: wf_global_def)

end
