(* ===== verification/Sum_Tree.thy ===== *)
theory Sum_Tree
  imports Editor_Prelude
begin

text \<open>
  The B+ tree of \<open>crates/sum_tree/src/sum_tree.rs\<close>, which every other structure of the text
  core is stored in. Leaves hold items with their summaries, internal nodes hold the summaries of
  their children. The \<open>Item\<close> and \<open>Summary\<close> traits become a dictionary of operations, passed
  to each function; the summary context \<open>cx\<close> is part of the dictionary. The theory models
  construction (\<open>from_iter\<close>, \<open>from_par_iter\<close>, \<open>push\<close>, \<open>extend\<close>, \<open>append\<close> with its two
  directions) and the accessors and updates at both ends, and shows that each of them, on
  well-formed trees, does not panic, keeps the tree well formed and acts on the item sequence as a
  list operation.
\<close>

definition TREE_BASE :: nat where
  "TREE_BASE = 6"

abbreviation CAPACITY :: nat where
  "CAPACITY \<equiv> 2 * TREE_BASE"

text \<open>The traits \<open>Item\<close> and \<open>Summary\<close>: the zero summary, addition, and the summary of an item.\<close>

record ('t, 's) item_ops =
  szero :: 's
  sadd :: "'s \<Rightarrow> 's \<Rightarrow> 's"
  ssummary :: "'t \<Rightarrow> 's"

text \<open>\<open>Internal height summary child_summaries child_trees\<close> and
  \<open>Leaf summary items item_summaries\<close>. A \<open>SumTree\<close> is a shared pointer to a node.\<close>

datatype ('t, 's) node =
    Internal nat 's "'s list" "('t, 's) node list"
  | Leaf 's "'t list" "'s list"

definition sum_of :: "('t, 's) item_ops \<Rightarrow> 's list \<Rightarrow> 's" where
  "sum_of S ss = foldl (sadd S) (szero S) ss"

subsection \<open>Accessors of a node\<close>

fun is_leaf :: "('t, 's) node \<Rightarrow> bool" where
  "is_leaf (Internal h s cs ts) = False"
| "is_leaf (Leaf s xs ss) = True"

fun node_height :: "('t, 's) node \<Rightarrow> nat" where
  "node_height (Internal h s cs ts) = h"
| "node_height (Leaf s xs ss) = 0"

fun node_summary :: "('t, 's) node \<Rightarrow> 's" where
  "node_summary (Internal h s cs ts) = s"
| "node_summary (Leaf s xs ss) = s"

fun child_summaries :: "('t, 's) node \<Rightarrow> 's list" where
  "child_summaries (Internal h s cs ts) = cs"
| "child_summaries (Leaf s xs ss) = ss"

fun child_trees :: "('t, 's) node \<Rightarrow> ('t, 's) node list option" where
  "child_trees (Internal h s cs ts) = Some ts"
| "child_trees (Leaf s xs ss) = None"

fun node_items :: "('t, 's) node \<Rightarrow> 't list option" where
  "node_items (Leaf s xs ss) = Some xs"
| "node_items (Internal h s cs ts) = None"

fun is_underflowing :: "('t, 's) node \<Rightarrow> bool" where
  "is_underflowing (Internal h s cs ts) = (length ts < TREE_BASE)"
| "is_underflowing (Leaf s xs ss) = (length xs < TREE_BASE)"

fun is_empty :: "('t, 's) node \<Rightarrow> bool" where
  "is_empty (Internal h s cs ts) = False"
| "is_empty (Leaf s xs ss) = (xs = [])"

subsection \<open>Construction\<close>

definition tree_new :: "('t, 's) item_ops \<Rightarrow> ('t, 's) node" where
  "tree_new S = Leaf (szero S) [] []"

definition from_summary :: "'s \<Rightarrow> ('t, 's) node" where
  "from_summary s = Leaf s [] []"

definition from_child_trees :: "('t, 's) item_ops \<Rightarrow> ('t, 's) node \<Rightarrow> ('t, 's) node \<Rightarrow> ('t, 's) node" where
  "from_child_trees S l r =
     (let cs = [node_summary l, node_summary r]
      in Internal (node_height l + 1) (sum_of S cs) cs [l, r])"

text \<open>\<open>slice::chunks\<close> and the batches of \<open>Iterator::take\<close>.\<close>

function chunks :: "nat \<Rightarrow> 'a list \<Rightarrow> 'a list list" where
  "chunks n xs = (if n = 0 \<or> xs = [] then [] else take n xs # chunks n (drop n xs))"
  by pat_completeness auto
termination
  by (relation "measure (\<lambda>(n, xs). length xs)") auto

declare chunks.simps [simp del]

text \<open>One leaf of the first loop of \<open>from_iter\<close>: the summary starts from that of the first item.\<close>

definition leaf_of :: "('t, 's) item_ops \<Rightarrow> 't list \<Rightarrow> ('t, 's) node" where
  "leaf_of S xs =
     (let ss = map (ssummary S) xs in Leaf (foldl (sadd S) (hd ss) (tl ss)) xs ss)"

text \<open>
  The body of the inner loop over \<open>nodes.drain(..)\<close>: the state is the list of finished parents
  and the parent being filled (its summary, child summaries and child trees).
\<close>

type_synonym ('t, 's) level_state =
  "('t, 's) node list \<times> ('s \<times> 's list \<times> ('t, 's) node list) option"

definition push_child ::
  "('t, 's) item_ops \<Rightarrow> nat \<Rightarrow> ('t, 's) level_state \<Rightarrow> ('t, 's) node \<Rightarrow> ('t, 's) level_state" where
  "push_child S height st child =
     (let (parents, cur) = st;
          (s, cs, ts) = (case cur of None \<Rightarrow> (szero S, [], []) | Some p \<Rightarrow> p);
          s' = sadd S s (node_summary child);
          cs' = cs @ [node_summary child];
          ts' = ts @ [child]
      in if length ts' = CAPACITY then (parents @ [Internal height s' cs' ts'], None)
         else (parents, Some (s', cs', ts')))"

definition build_level :: "('t, 's) item_ops \<Rightarrow> nat \<Rightarrow> ('t, 's) node list \<Rightarrow> ('t, 's) node list" where
  "build_level S height nodes =
     (let (parents, cur) = foldl (push_child S height) ([], None) nodes
      in parents @ (case cur of None \<Rightarrow> [] | Some (s, cs, ts) \<Rightarrow> [Internal height s cs ts]))"

lemma chunks_Nil [simp]: "chunks n [] = []"
  by (simp add: chunks.simps)

lemma chunks_append:
  "length ys = n \<Longrightarrow> 0 < n \<Longrightarrow> chunks n (ys @ xs) = ys # chunks n xs"
  by (subst chunks.simps) auto

lemma chunks_short: "0 < length xs \<Longrightarrow> length xs \<le> n \<Longrightarrow> chunks n xs = [xs]"
  by (cases xs; subst chunks.simps) auto

text \<open>The internal node over a list of children, and what one level of the loop builds.\<close>

definition internal_of :: "('t, 's) item_ops \<Rightarrow> nat \<Rightarrow> ('t, 's) node list \<Rightarrow> ('t, 's) node" where
  "internal_of S h ts = (let cs = map node_summary ts in Internal h (sum_of S cs) cs ts)"

definition partial_parent ::
  "('t, 's) item_ops \<Rightarrow> ('t, 's) node list \<Rightarrow> ('s \<times> 's list \<times> ('t, 's) node list) option" where
  "partial_parent S ts =
     (if ts = [] then None
      else Some (sum_of S (map node_summary ts), map node_summary ts, ts))"

lemma push_child_partial:
  "push_child S h (ps, partial_parent S ts) t =
     (if length ts + 1 = CAPACITY then (ps @ [internal_of S h (ts @ [t])], None)
      else (ps, partial_parent S (ts @ [t])))"
  by (auto simp: push_child_def partial_parent_def internal_of_def sum_of_def Let_def)

lemma foldl_push_child:
  assumes "length ts < CAPACITY"
  shows "(case foldl (push_child S h) (ps, partial_parent S ts) nodes of (parents, cur) \<Rightarrow>
      parents @ (case cur of None \<Rightarrow> [] | Some (s, cs, us) \<Rightarrow> [Internal h s cs us])) =
    ps @ map (internal_of S h) (chunks CAPACITY (ts @ nodes))"
  using assms
proof (induction nodes arbitrary: ps ts)
  case Nil
  then show ?case
    by (auto simp: partial_parent_def internal_of_def Let_def chunks_short)
next
  case (Cons t nodes)
  show ?case
  proof (cases "length ts + 1 = CAPACITY")
    case True
    have "chunks CAPACITY (ts @ t # nodes) = (ts @ [t]) # chunks CAPACITY nodes"
      using True chunks_append [of "ts @ [t]" CAPACITY nodes] by (simp add: TREE_BASE_def)
    moreover have "None = partial_parent S []" by (simp add: partial_parent_def)
    ultimately show ?thesis
      using True Cons.IH [of "[]" "ps @ [internal_of S h (ts @ [t])]"]
      by (simp add: push_child_partial TREE_BASE_def)
  next
    case False
    with Cons.prems Cons.IH [of "ts @ [t]" ps] show ?thesis
      by (simp add: push_child_partial)
  qed
qed

lemma build_level_chunks:
  "build_level S h nodes = map (internal_of S h) (chunks CAPACITY nodes)"
  using foldl_push_child [where ts = "[]" and ps = "[]" and nodes = nodes]
  by (simp add: build_level_def partial_parent_def TREE_BASE_def)

lemma length_chunks_le: "0 < n \<Longrightarrow> length (chunks n xs) \<le> length xs"
proof (induction n xs rule: chunks.induct)
  case (1 n xs)
  then show ?case by (cases xs; subst chunks.simps) (auto simp: less_eq_Suc_le)
qed

lemma length_chunks_less:
  assumes "1 < length xs" "1 < n" shows "length (chunks n xs) < length xs"
proof -
  have "length (chunks n (drop n xs)) \<le> length (drop n xs)"
    using assms by (intro length_chunks_le) auto
  then show ?thesis using assms by (subst chunks.simps) auto
qed

text \<open>The outer loop \<open>while nodes.len() > 1\<close>.\<close>

function build_levels :: "('t, 's) item_ops \<Rightarrow> nat \<Rightarrow> ('t, 's) node list \<Rightarrow> ('t, 's) node list" where
  "build_levels S height nodes =
     (if length nodes > 1 then build_levels S (height + 1) (build_level S (height + 1) nodes)
      else nodes)"
  by pat_completeness auto
termination
  by (relation "measure (\<lambda>(S, h, nodes). length nodes)")
    (auto simp: build_level_chunks TREE_BASE_def length_chunks_less)

declare build_levels.simps [simp del]

definition from_iter :: "('t, 's) item_ops \<Rightarrow> 't list \<Rightarrow> ('t, 's) node" where
  "from_iter S xs =
     (case build_levels S 0 (map (leaf_of S) (chunks CAPACITY xs)) of
        [] \<Rightarrow> tree_new S
      | nodes \<Rightarrow> last nodes)"

text \<open>The parallel construction: both levels are maps over chunks, and an internal node's summary
  starts from that of its first child instead of from zero.\<close>

definition par_internal :: "('t, 's) item_ops \<Rightarrow> nat \<Rightarrow> ('t, 's) node list \<Rightarrow> ('t, 's) node" where
  "par_internal S h ts =
     (let cs = map node_summary ts in Internal h (foldl (sadd S) (hd cs) (tl cs)) cs ts)"

function par_levels :: "('t, 's) item_ops \<Rightarrow> nat \<Rightarrow> ('t, 's) node list \<Rightarrow> ('t, 's) node list" where
  "par_levels S height nodes =
     (if length nodes > 1
      then par_levels S (height + 1) (map (par_internal S (height + 1)) (chunks CAPACITY nodes))
      else nodes)"
  by pat_completeness auto
termination
  by (relation "measure (\<lambda>(S, h, nodes). length nodes)")
    (auto simp: TREE_BASE_def length_chunks_less)

declare par_levels.simps [simp del]

definition from_par_iter :: "('t, 's) item_ops \<Rightarrow> 't list \<Rightarrow> ('t, 's) node" where
  "from_par_iter S xs =
     (case par_levels S 0 (map (leaf_of S) (chunks CAPACITY xs)) of
        [] \<Rightarrow> tree_new S
      | nodes \<Rightarrow> last nodes)"


subsection \<open>Appending\<close>

text \<open>
  The common tail of the internal case of \<open>push_tree_recursive\<close>: add children on the right, and
  split at the midpoint when they do not fit. Returns the updated node and the split-off sibling.
\<close>

definition append_children ::
  "('t, 's) item_ops \<Rightarrow> nat \<Rightarrow> 's \<Rightarrow> 's list \<Rightarrow> ('t, 's) node list \<Rightarrow> 's list \<Rightarrow> ('t, 's) node list
     \<Rightarrow> ('t, 's) node \<times> ('t, 's) node option" where
  "append_children S h s cs ts cs' ts' =
     (let child_count = length ts + length ts' in
      if child_count > CAPACITY then
        let midpoint = (child_count + child_count mod 2) div 2;
            left_summaries = take midpoint (cs @ cs');
            right_summaries = drop midpoint (cs @ cs');
            left_trees = take midpoint (ts @ ts');
            right_trees = drop midpoint (ts @ ts')
        in (Internal h (sum_of S left_summaries) left_summaries left_trees,
            Some (Internal h (sum_of S right_summaries) right_summaries right_trees))
      else (Internal h s (cs @ cs') (ts @ ts'), None))"

text \<open>The leaf case: items are added on the right, splitting likewise.\<close>

definition append_items ::
  "('t, 's) item_ops \<Rightarrow> 's \<Rightarrow> 't list \<Rightarrow> 's list \<Rightarrow> 's \<Rightarrow> 't list \<Rightarrow> 's list
     \<Rightarrow> ('t, 's) node \<times> ('t, 's) node option" where
  "append_items S s xs ss s' xs' ss' =
     (let child_count = length xs + length xs' in
      if child_count > CAPACITY then
        let midpoint = (child_count + child_count mod 2) div 2;
            left_items = take midpoint (xs @ xs');
            right_items = drop midpoint (xs @ xs');
            left_summaries = take midpoint (ss @ ss');
            right_summaries = drop midpoint (ss @ ss')
        in (Leaf (sum_of S left_summaries) left_items left_summaries,
            Some (Leaf (sum_of S right_summaries) right_items right_summaries))
      else (Leaf (sadd S s s') (xs @ xs') (ss @ ss'), None))"

lemma size_last_less [termination_simp]:
  "ts \<noteq> [] \<Longrightarrow> size (last ts) < Suc (n + size_list size ts)"
  using size_list_estimation' [of "last ts" ts "size (last ts)" size] by simp

lemma size_hd_less [termination_simp]:
  "ts \<noteq> [] \<Longrightarrow> size (hd ts) < Suc (n + size_list size ts)"
  using size_list_estimation' [of "hd ts" ts "size (hd ts)" size] by simp

fun push_tree_recursive ::
  "('t, 's) item_ops \<Rightarrow> ('t, 's) node \<Rightarrow> ('t, 's) node \<Rightarrow> (('t, 's) node \<times> ('t, 's) node option) option" where
  "push_tree_recursive S (Internal h s cs ts) other =
     (let s1 = sadd S s (node_summary other) in
      if h < node_height other then None
      else if h - node_height other = 0 then
        (case child_trees other of
           None \<Rightarrow> None
         | Some other_trees \<Rightarrow>
             Some (append_children S h s1 cs ts (child_summaries other) other_trees))
      else if h - node_height other = 1 \<and> \<not> is_underflowing other then
        Some (append_children S h s1 cs ts [node_summary other] [other])
      else if ts = [] \<or> cs = [] then None
      else
        (case push_tree_recursive S (last ts) other of
           None \<Rightarrow> None
         | Some (last', tree_to_append) \<Rightarrow>
             let cs1 = butlast cs @ [node_summary last'];
                 ts1 = butlast ts @ [last']
             in (case tree_to_append of
                   None \<Rightarrow> Some (append_children S h s1 cs1 ts1 [] [])
                 | Some split_tree \<Rightarrow>
                     Some (append_children S h s1 cs1 ts1 [node_summary split_tree] [split_tree]))))"
| "push_tree_recursive S (Leaf s xs ss) other =
     (case node_items other of
        None \<Rightarrow> None
      | Some other_items \<Rightarrow>
          Some (append_items S s xs ss (node_summary other) other_items (child_summaries other)))"

text \<open>
  \<open>merge_into_right\<close>: prepend the contents of \<open>small\<close> to \<open>large\<close>; if they do not fit, the first half
  becomes a new node. Returns the updated \<open>large\<close> and the new node.
\<close>

fun merge_into_right ::
  "('t, 's) item_ops \<Rightarrow> ('t, 's) node \<Rightarrow> ('t, 's) node \<Rightarrow> (('t, 's) node \<times> ('t, 's) node option) option" where
  "merge_into_right S (Internal h' small_summary small_cs small_ts) (Internal h s cs ts) =
     (let total_child_count = length ts + length small_ts in
      if total_child_count \<le> CAPACITY then
        Some (Internal h (sadd S small_summary s) (small_cs @ cs) (small_ts @ ts), None)
      else
        let midpoint = (total_child_count + 1) div 2;
            left_trees = take midpoint (small_ts @ ts);
            right_trees = drop midpoint (small_ts @ ts);
            left_summaries = take midpoint (small_cs @ cs);
            right_summaries = drop midpoint (small_cs @ cs)
        in Some (Internal h (sum_of S right_summaries) right_summaries right_trees,
                 Some (Internal h (sum_of S left_summaries) left_summaries left_trees)))"
| "merge_into_right S (Leaf small_summary small_xs small_ss) (Leaf s xs ss) =
     (let total_child_count = length small_xs + length xs in
      if total_child_count \<le> CAPACITY then
        Some (Leaf (sadd S small_summary s) (small_xs @ xs) (small_ss @ ss), None)
      else
        let midpoint = (total_child_count + 1) div 2;
            left_items = take midpoint (small_xs @ xs);
            right_items = drop midpoint (small_xs @ xs);
            left_summaries = take midpoint (small_ss @ ss);
            right_summaries = drop midpoint (small_ss @ ss)
        in Some (Leaf (sum_of S right_summaries) right_items right_summaries,
                 Some (Leaf (sum_of S left_summaries) left_items left_summaries)))"
| "merge_into_right S small large = None"

text \<open>\<open>append_large\<close>: prepend a lower tree to a higher one, descending its left spine.\<close>

fun append_large ::
  "('t, 's) item_ops \<Rightarrow> ('t, 's) node \<Rightarrow> ('t, 's) node \<Rightarrow> (('t, 's) node \<times> ('t, 's) node option) option" where
  "append_large S small (Leaf s xs ss) =
     (if node_height small = 0 then
        (if \<not> is_underflowing small then Some (Leaf s xs ss, Some small)
         else merge_into_right S small (Leaf s xs ss))
      else None)"
| "append_large S small (Internal h s cs ts) =
     (if node_height small = h then
        (if \<not> is_underflowing small then Some (Internal h s cs ts, Some small)
         else merge_into_right S small (Internal h s cs ts))
      else if ts = [] \<or> cs = [] then None
      else
        (let full_summary = sadd S (node_summary small) s in
         case append_large S small (hd ts) of
           None \<Rightarrow> None
         | Some (first, res) \<Rightarrow>
             let cs1 = node_summary first # tl cs;
                 ts1 = first # tl ts
             in (case res of
                   None \<Rightarrow> Some (Internal h full_summary cs1 ts1, None)
                 | Some tree \<Rightarrow>
                     if length ts1 < CAPACITY then
                       Some (Internal h full_summary (node_summary tree # cs1) (tree # ts1), None)
                     else
                       let new_cs = node_summary tree # take TREE_BASE cs1;
                           new_ts = tree # take TREE_BASE ts1
                       in Some (Internal h (sum_of S (drop TREE_BASE cs1))
                                  (drop TREE_BASE cs1) (drop TREE_BASE ts1),
                                Some (Internal h (sum_of S new_cs) new_cs new_ts)))))"

definition append_tree ::
  "('t, 's) item_ops \<Rightarrow> ('t, 's) node \<Rightarrow> ('t, 's) node \<Rightarrow> ('t, 's) node option" where
  "append_tree S self other =
     (if is_empty self then Some other
      else if \<not> is_empty other then
        if node_height self < node_height other then
          (case append_large S self other of
             None \<Rightarrow> None
           | Some (other', Some tree) \<Rightarrow> Some (from_child_trees S tree other')
           | Some (other', None) \<Rightarrow> Some other')
        else
          (case push_tree_recursive S self other of
             None \<Rightarrow> None
           | Some (self', Some split_tree) \<Rightarrow> Some (from_child_trees S self' split_tree)
           | Some (self', None) \<Rightarrow> Some self')
      else Some self)"

definition push :: "('t, 's) item_ops \<Rightarrow> ('t, 's) node \<Rightarrow> 't \<Rightarrow> ('t, 's) node option" where
  "push S t x = append_tree S t (Leaf (ssummary S x) [x] [ssummary S x])"

definition extend :: "('t, 's) item_ops \<Rightarrow> ('t, 's) node \<Rightarrow> 't list \<Rightarrow> ('t, 's) node option" where
  "extend S t xs = append_tree S t (from_iter S xs)"

definition par_extend :: "('t, 's) item_ops \<Rightarrow> ('t, 's) node \<Rightarrow> 't list \<Rightarrow> ('t, 's) node option" where
  "par_extend S t xs = append_tree S t (from_par_iter S xs)"

definition from_item :: "('t, 's) item_ops \<Rightarrow> 't \<Rightarrow> ('t, 's) node option" where
  "from_item S x = push S (tree_new S) x"

subsection \<open>Both ends of a tree\<close>

fun leftmost_leaf :: "('t, 's) node \<Rightarrow> ('t, 's) node option" where
  "leftmost_leaf (Leaf s xs ss) = Some (Leaf s xs ss)"
| "leftmost_leaf (Internal h s cs ts) = (if ts = [] then None else leftmost_leaf (hd ts))"

fun rightmost_leaf :: "('t, 's) node \<Rightarrow> ('t, 's) node option" where
  "rightmost_leaf (Leaf s xs ss) = Some (Leaf s xs ss)"
| "rightmost_leaf (Internal h s cs ts) = (if ts = [] then None else rightmost_leaf (last ts))"

definition head_opt :: "'a list \<Rightarrow> 'a option" where
  "head_opt xs = (if xs = [] then None else Some (hd xs))"

definition last_opt :: "'a list \<Rightarrow> 'a option" where
  "last_opt xs = (if xs = [] then None else Some (last xs))"

definition tree_first :: "('t, 's) node \<Rightarrow> 't option option" where
  "tree_first t = Option.bind (leftmost_leaf t) (\<lambda>l. map_option head_opt (node_items l))"

definition tree_last :: "('t, 's) node \<Rightarrow> 't option option" where
  "tree_last t = Option.bind (rightmost_leaf t) (\<lambda>l. map_option last_opt (node_items l))"

definition last_summary :: "('t, 's) node \<Rightarrow> 's option option" where
  "last_summary t = map_option (\<lambda>l. last_opt (child_summaries l)) (rightmost_leaf t)"

text \<open>\<open>update_last_recursive\<close>: the updated node and the summary it returns to its parent.\<close>

fun update_last_recursive ::
  "('t, 's) item_ops \<Rightarrow> ('t \<Rightarrow> 't) \<Rightarrow> ('t, 's) node \<Rightarrow> (('t, 's) node \<times> 's option) option" where
  "update_last_recursive S f (Internal h s cs ts) =
     (if cs = [] \<or> ts = [] then None
      else
        (case update_last_recursive S f (last ts) of
           Some (last', Some ls) \<Rightarrow>
             let cs' = butlast cs @ [ls];
                 s' = sum_of S cs'
             in Some (Internal h s' cs' (butlast ts @ [last']), Some s')
         | _ \<Rightarrow> None))"
| "update_last_recursive S f (Leaf s xs ss) =
     (if xs = [] \<or> ss = [] then Some (Leaf s xs ss, None)
      else
        let x = f (last xs);
            ss' = butlast ss @ [ssummary S x];
            s' = sum_of S ss'
        in Some (Leaf s' (butlast xs @ [x]) ss', Some s'))"

definition update_last :: "('t, 's) item_ops \<Rightarrow> ('t \<Rightarrow> 't) \<Rightarrow> ('t, 's) node \<Rightarrow> ('t, 's) node option" where
  "update_last S f t = map_option fst (update_last_recursive S f t)"

fun update_first_recursive ::
  "('t, 's) item_ops \<Rightarrow> ('t \<Rightarrow> 't) \<Rightarrow> ('t, 's) node \<Rightarrow> (('t, 's) node \<times> 's option) option" where
  "update_first_recursive S f (Internal h s cs ts) =
     (if cs = [] \<or> ts = [] then None
      else
        (case update_first_recursive S f (hd ts) of
           Some (first', Some fs) \<Rightarrow>
             let cs' = fs # tl cs;
                 s' = sum_of S cs'
             in Some (Internal h s' cs' (first' # tl ts), Some s')
         | _ \<Rightarrow> None))"
| "update_first_recursive S f (Leaf s xs ss) =
     (if xs = [] \<or> ss = [] then Some (Leaf s xs ss, None)
      else
        let x = f (hd xs);
            ss' = ssummary S x # tl ss;
            s' = sum_of S ss'
        in Some (Leaf s' (x # tl xs) ss', Some s'))"

definition update_first :: "('t, 's) item_ops \<Rightarrow> ('t \<Rightarrow> 't) \<Rightarrow> ('t, 's) node \<Rightarrow> ('t, 's) node option" where
  "update_first S f t = map_option fst (update_first_recursive S f t)"

subsection \<open>Well-formed trees and their items\<close>

fun tree_items :: "('t, 's) node \<Rightarrow> 't list" where
  "tree_items (Leaf s xs ss) = xs"
| "tree_items (Internal h s cs ts) = concat (map tree_items ts)"

fun wf_tree :: "('t, 's) item_ops \<Rightarrow> ('t, 's) node \<Rightarrow> bool" where
  "wf_tree S (Leaf s xs ss) \<longleftrightarrow>
     ss = map (ssummary S) xs \<and> s = sum_of S ss \<and> length xs \<le> CAPACITY"
| "wf_tree S (Internal h s cs ts) \<longleftrightarrow>
     ts \<noteq> [] \<and> length ts \<le> CAPACITY \<and> cs = map node_summary ts \<and> s = sum_of S cs \<and>
     (\<forall>t \<in> set ts. wf_tree S t \<and> node_height t + 1 = h \<and> tree_items t \<noteq> [])"

text \<open>A list of children fit for a node of height \<open>h\<close>.\<close>

definition wf_children :: "('t, 's) item_ops \<Rightarrow> nat \<Rightarrow> ('t, 's) node list \<Rightarrow> bool" where
  "wf_children S h ts \<longleftrightarrow> (\<forall>t \<in> set ts. wf_tree S t \<and> node_height t + 1 = h \<and> tree_items t \<noteq> [])"

lemma wf_children_simps [simp]:
  "wf_children S h []"
  "wf_children S h (t # ts) \<longleftrightarrow>
     wf_tree S t \<and> node_height t + 1 = h \<and> tree_items t \<noteq> [] \<and> wf_children S h ts"
  "wf_children S h (ts @ us) \<longleftrightarrow> wf_children S h ts \<and> wf_children S h us"
  by (auto simp: wf_children_def)

lemma wf_children_take: "wf_children S h ts \<Longrightarrow> wf_children S h (take n ts)"
  and wf_children_drop: "wf_children S h ts \<Longrightarrow> wf_children S h (drop n ts)"
  by (auto simp: wf_children_def dest: in_set_takeD in_set_dropD)

lemma wf_internal:
  "wf_tree S (Internal h s cs ts) \<longleftrightarrow>
     ts \<noteq> [] \<and> length ts \<le> CAPACITY \<and> cs = map node_summary ts \<and> s = sum_of S cs \<and> wf_children S h ts"
  by (simp add: wf_children_def)

declare wf_tree.simps(2) [simp del]

lemma wf_children_items: "wf_children S h ts \<Longrightarrow> ts \<noteq> [] \<Longrightarrow> concat (map tree_items ts) \<noteq> []"
  by (cases ts) auto

lemma wf_internal_items: "wf_tree S (Internal h s cs ts) \<Longrightarrow> tree_items (Internal h s cs ts) \<noteq> []"
  unfolding wf_internal tree_items.simps using wf_children_items by blast

lemma is_empty_iff: "wf_tree S t \<Longrightarrow> is_empty t \<longleftrightarrow> tree_items t = []"
  by (cases t) (auto simp: wf_internal_items del: concat_eq_Nil_conv dest: wf_internal_items)

text \<open>The result of growing a node: the node and perhaps a sibling, on its right or on its left.\<close>

fun grown_right :: "('t, 's) item_ops \<Rightarrow> nat \<Rightarrow> 't list \<Rightarrow> ('t, 's) node \<times> ('t, 's) node option \<Rightarrow> bool" where
  "grown_right S h xs (t, None) \<longleftrightarrow>
     wf_tree S t \<and> node_height t = h \<and> tree_items t \<noteq> [] \<and> tree_items t = xs"
| "grown_right S h xs (t, Some r) \<longleftrightarrow>
     wf_tree S t \<and> node_height t = h \<and> tree_items t \<noteq> [] \<and>
     wf_tree S r \<and> node_height r = h \<and> tree_items r \<noteq> [] \<and> tree_items t @ tree_items r = xs"

fun grown_left :: "('t, 's) item_ops \<Rightarrow> nat \<Rightarrow> 't list \<Rightarrow> ('t, 's) node \<times> ('t, 's) node option \<Rightarrow> bool" where
  "grown_left S h xs (t, None) \<longleftrightarrow> grown_right S h xs (t, None)"
| "grown_left S h xs (t, Some l) \<longleftrightarrow> grown_right S h xs (l, Some t)"

lemma concat_chunks: "0 < n \<Longrightarrow> concat (chunks n xs) = xs"
proof (induction n xs rule: chunks.induct)
  case (1 n xs)
  then show ?case by (subst chunks.simps) auto
qed

lemma set_chunks: "c \<in> set (chunks n xs) \<Longrightarrow> 0 < n \<Longrightarrow> set c \<subseteq> set xs"
  using concat_chunks [of n xs] by (metis UN_upper set_concat)

lemma in_chunks: "c \<in> set (chunks n xs) \<Longrightarrow> c \<noteq> [] \<and> length c \<le> n"
proof (induction n xs rule: chunks.induct)
  case (1 n xs)
  from "1.prems" "1.IH" show ?case by (subst (asm) chunks.simps) (auto split: if_splits)
qed

definition leaf_node :: "('t, 's) item_ops \<Rightarrow> 't list \<Rightarrow> ('t, 's) node" where
  "leaf_node S xs = Leaf (sum_of S (map (ssummary S) xs)) xs (map (ssummary S) xs)"

subsection \<open>Lawful summaries\<close>

text \<open>
  What the tree relies on, for the summaries that can arise from items: addition is associative and the
  zero summary is a left unit. It need not be a right unit: for keys and locators, adding a summary replaces the old one.
\<close>

inductive summable :: "('t, 's) item_ops \<Rightarrow> 's \<Rightarrow> bool" for S where
  summable_zero [simp, intro]: "summable S (szero S)"
| summable_item [simp, intro]: "summable S (ssummary S x)"
| summable_add: "summable S a \<Longrightarrow> summable S b \<Longrightarrow> summable S (sadd S a b)"

lemma summable_foldl: "summable S a \<Longrightarrow> \<forall>s \<in> set ss. summable S s \<Longrightarrow> summable S (foldl (sadd S) a ss)"
  by (induction ss arbitrary: a) (auto intro: summable_add)

lemma summable_sum_of: "\<forall>s \<in> set ss. summable S s \<Longrightarrow> summable S (sum_of S ss)"
  by (simp add: sum_of_def summable_foldl)

lemma summable_sum_items [simp]: "summable S (sum_of S (map (ssummary S) xs))"
  by (rule summable_sum_of) simp

lemma wf_tree_summable: "wf_tree S t \<Longrightarrow> summable S (node_summary t)"
proof (induction t)
  case (Internal h s cs ts)
  then show ?case by (auto simp: wf_internal wf_children_def intro!: summable_sum_of)
qed (auto intro!: summable_sum_of)

lemma wf_children_summable: "wf_children S h ts \<Longrightarrow> t \<in> set ts \<Longrightarrow> summable S (node_summary t)"
  by (auto simp: wf_children_def intro: wf_tree_summable)

definition lawful_summary :: "('t, 's) item_ops \<Rightarrow> bool" where
  "lawful_summary S \<longleftrightarrow>
     (\<forall>a b c. summable S a \<longrightarrow> summable S b \<longrightarrow> summable S c \<longrightarrow> sadd S (sadd S a b) c = sadd S a (sadd S b c)) \<and>
     (\<forall>a. summable S a \<longrightarrow> sadd S (szero S) a = a)"

locale summary_laws =
  fixes S :: "('t, 's) item_ops"
  assumes lawful: "lawful_summary S"
begin

lemma add_assoc: "summable S a \<Longrightarrow> summable S b \<Longrightarrow> summable S c \<Longrightarrow> sadd S (sadd S a b) c = sadd S a (sadd S b c)"
  and zero_add [simp]: "summable S a \<Longrightarrow> sadd S (szero S) a = a"
  using lawful by (auto simp: lawful_summary_def)

lemma foldl_sadd:
  "summable S a \<Longrightarrow> summable S b \<Longrightarrow> \<forall>s \<in> set ss. summable S s \<Longrightarrow>
    foldl (sadd S) (sadd S a b) ss = sadd S a (foldl (sadd S) b ss)"
  by (induction ss arbitrary: b) (auto simp: add_assoc summable_add)

lemma sum_of_append:
  assumes "ys \<noteq> []" "\<forall>s \<in> set xs. summable S s" "\<forall>s \<in> set ys. summable S s"
  shows "sum_of S (xs @ ys) = sadd S (sum_of S xs) (sum_of S ys)"
  using assms by (cases ys) (auto simp: sum_of_def foldl_sadd summable_foldl)

lemma sum_of_single [simp]: "summable S a \<Longrightarrow> sum_of S [a] = a"
  by (simp add: sum_of_def)

lemma sum_of_Cons: "ys \<noteq> [] \<Longrightarrow> \<forall>s \<in> set (y # ys). summable S s \<Longrightarrow> sum_of S (y # ys) = sadd S y (sum_of S ys)"
  using sum_of_append [of ys "[y]"] by simp

lemma foldl_from_first:
  "ss \<noteq> [] \<Longrightarrow> \<forall>s \<in> set ss. summable S s \<Longrightarrow> foldl (sadd S) (hd ss) (tl ss) = sum_of S ss"
  by (cases ss) (auto simp: sum_of_def)

lemma tree_summary_items:
  "wf_tree S t \<Longrightarrow> node_summary t = sum_of S (map (ssummary S) (tree_items t))"
proof (induction t)
  case (Internal h s cs ts)
  have "wf_children S h us \<Longrightarrow> set us \<subseteq> set ts \<Longrightarrow> us \<noteq> [] \<Longrightarrow>
      sum_of S (map node_summary us) = sum_of S (map (ssummary S) (concat (map tree_items us)))" for us
  proof (induction us)
    case (Cons u us)
    then show ?case
      using Internal.IH [of u] wf_children_items [of S h us]
      by (cases "us = []") (auto simp: sum_of_Cons sum_of_append wf_children_summable del: concat_eq_Nil_conv)
  qed simp
  then show ?case using Internal.prems by (simp add: wf_internal)
qed simp

lemma internal_split:
  assumes "wf_children S h us" "0 < mid" "mid < length us" "mid \<le> CAPACITY" "length us - mid \<le> CAPACITY"
  shows "grown_right S h (concat (map tree_items us))
    (internal_of S h (take mid us), Some (internal_of S h (drop mid us)))"
proof -
  have ne: "take mid us \<noteq> []" "drop mid us \<noteq> []" using assms by auto
  have wf: "wf_children S h (take mid us)" "wf_children S h (drop mid us)"
    using assms(1) by (auto intro: wf_children_take wf_children_drop)
  have "concat (map tree_items (take mid us)) @ concat (map tree_items (drop mid us)) =
      concat (map tree_items us)"
    by (simp flip: concat_append map_append)
  then show ?thesis
    using assms ne wf wf_children_items [OF wf(1) ne(1)] wf_children_items [OF wf(2) ne(2)]
    by (simp add: internal_of_def Let_def wf_internal del: concat_eq_Nil_conv)
qed

lemma leaf_split:
  assumes "0 < mid" "mid < length xs" "mid \<le> CAPACITY" "length xs - mid \<le> CAPACITY"
  shows "grown_right S 0 xs (leaf_node S (take mid xs), Some (leaf_node S (drop mid xs)))"
  using assms by (auto simp: leaf_node_def)

lemma internal_merge:
  assumes "wf_children S h us" "us \<noteq> []" "length us \<le> CAPACITY"
  shows "grown_right S h (concat (map tree_items us)) (internal_of S h us, None)"
  using assms wf_children_items [OF assms(1,2)] by (simp add: internal_of_def Let_def wf_internal)

lemma append_children_grown:
  assumes "wf_children S h (ts @ ts')" "ts \<noteq> []" "length ts \<le> CAPACITY" "length ts' \<le> CAPACITY"
    and "s = sum_of S (map node_summary (ts @ ts'))"
  shows "grown_right S h (concat (map tree_items (ts @ ts')))
    (append_children S h s (map node_summary ts) ts (map node_summary ts') ts')"
proof (cases "length ts + length ts' > CAPACITY")
  case True
  define n where "n = length (ts @ ts')"
  define mid where "mid = (n + n mod 2) div 2"
  have mid: "0 < mid" "mid < n" "mid \<le> CAPACITY" "n - mid \<le> CAPACITY"
    using True assms(3,4) unfolding mid_def n_def TREE_BASE_def length_append by presburger+
  have "append_children S h s (map node_summary ts) ts (map node_summary ts') ts' =
     (internal_of S h (take mid (ts @ ts')), Some (internal_of S h (drop mid (ts @ ts'))))"
    using True unfolding append_children_def internal_of_def Let_def map_append [symmetric]
      take_map drop_map length_append [symmetric] n_def [symmetric] mid_def [symmetric] by simp
  then show ?thesis using internal_split [OF assms(1) mid(1)] mid by (simp only: n_def)
next
  case False
  then show ?thesis
    using internal_merge [OF assms(1)] assms
    by (simp add: append_children_def internal_of_def Let_def)
qed

lemma append_items_grown:
  assumes "xs \<noteq> []" "xs' \<noteq> []" "length xs \<le> CAPACITY" "length xs' \<le> CAPACITY"
  shows "grown_right S 0 (xs @ xs')
    (append_items S (sum_of S (map (ssummary S) xs)) xs (map (ssummary S) xs)
      (sum_of S (map (ssummary S) xs')) xs' (map (ssummary S) xs'))"
proof (cases "length xs + length xs' > CAPACITY")
  case True
  define n where "n = length (xs @ xs')"
  define mid where "mid = (n + n mod 2) div 2"
  have mid: "0 < mid" "mid < n" "mid \<le> CAPACITY" "n - mid \<le> CAPACITY"
    using True assms(3,4) unfolding mid_def n_def TREE_BASE_def length_append by presburger+
  have "append_items S (sum_of S (map (ssummary S) xs)) xs (map (ssummary S) xs)
      (sum_of S (map (ssummary S) xs')) xs' (map (ssummary S) xs') =
     (leaf_node S (take mid (xs @ xs')), Some (leaf_node S (drop mid (xs @ xs'))))"
    using True unfolding append_items_def leaf_node_def Let_def map_append [symmetric]
      take_map drop_map length_append [symmetric] n_def [symmetric] mid_def [symmetric] by simp
  then show ?thesis using leaf_split [OF mid(1)] mid by (simp only: n_def)
next
  case False
  with assms show ?thesis by (simp add: append_items_def sum_of_append)
qed

lemma sum_children:
  "wf_children S h ts \<Longrightarrow> ts \<noteq> [] \<Longrightarrow>
   sum_of S (map node_summary ts) = sum_of S (map (ssummary S) (concat (map tree_items ts)))"
proof (induction ts)
  case (Cons t ts)
  then show ?case using wf_children_items [of S h ts]
    by (cases "ts = []") (auto simp: sum_of_Cons sum_of_append tree_summary_items wf_children_summable del: concat_eq_Nil_conv)
qed simp

lemma sum_last_replaced:
  assumes "wf_children S h ts" "ts \<noteq> []" "wf_tree S u" "tree_items u \<noteq> []"
    and "wf_children S h us" "us \<noteq> []"
    and "concat (map tree_items us) = concat (map tree_items ts) @ tree_items u"
  shows "sadd S (sum_of S (map node_summary ts)) (node_summary u) = sum_of S (map node_summary us)"
  using assms by (simp add: sum_children sum_of_append tree_summary_items del: map_concat)

lemma sum_first_replaced:
  assumes "wf_children S h ts" "ts \<noteq> []" "wf_tree S u" "tree_items u \<noteq> []"
    and "wf_children S h us" "us \<noteq> []"
    and "concat (map tree_items us) = tree_items u @ concat (map tree_items ts)"
  shows "sadd S (node_summary u) (sum_of S (map node_summary ts)) = sum_of S (map node_summary us)"
  using assms wf_children_items [OF assms(1,2)]
  by (simp add: sum_children sum_of_append tree_summary_items del: map_concat concat_eq_Nil_conv)

lemma push_tree_recursive_grown:
  assumes "wf_tree S t" "tree_items t \<noteq> []" "wf_tree S other" "tree_items other \<noteq> []"
    and "node_height other \<le> node_height t"
  shows "\<exists>r. push_tree_recursive S t other = Some r \<and>
    grown_right S (node_height t) (tree_items t @ tree_items other) r"
  using assms
proof (induction t)
  case (Internal h s cs ts)
  have wf: "wf_children S h ts" "ts \<noteq> []" "length ts \<le> CAPACITY" "cs = map node_summary ts"
      "s = sum_of S cs"
    using Internal.prems(1) by (auto simp: wf_internal)
  define xs where "xs = tree_items (Internal h s cs ts) @ tree_items other"
  define s1 where "s1 = sadd S s (node_summary other)"
  have s1: "s1 = sum_of S (map node_summary us)"
    if "wf_children S h us" "us \<noteq> []" "concat (map tree_items us) = xs" for us
    using sum_last_replaced [OF wf(1,2) Internal.prems(3,4) that(1,2)] that(3) wf
    by (simp add: s1_def xs_def)
  have grown: "grown_right S h xs (append_children S h s1 (map node_summary ts1) ts1 (map node_summary ts2) ts2)"
    if "wf_children S h (ts1 @ ts2)" "ts1 \<noteq> []" "length ts1 \<le> CAPACITY" "length ts2 \<le> CAPACITY"
       "concat (map tree_items (ts1 @ ts2)) = xs" for ts1 ts2
    using append_children_grown [OF that(1-4) s1 [OF that(1)]] that by simp
  consider (same) "node_height other = h"
    | (below) "node_height other + 1 = h" "\<not> is_underflowing other"
    | (descend) "node_height other < h" "node_height other + 1 \<noteq> h \<or> is_underflowing other"
    using Internal.prems(5) by fastforce
  then have "\<exists>r. push_tree_recursive S (Internal h s cs ts) other = Some r \<and> grown_right S h xs r"
  proof cases
    case same
    obtain s' cs' ts' where o: "other = Internal h s' cs' ts'"
      using same Internal.prems(3) wf by (cases other) (auto simp: wf_children_def neq_Nil_conv)
    have "push_tree_recursive S (Internal h s cs ts) other = Some (append_children S h s1 cs ts cs' ts')"
      by (simp add: o s1_def)
    then show ?thesis
      using grown [of ts ts'] wf Internal.prems(3) by (simp add: xs_def o wf_internal)
  next
    case below
    then have "h - node_height other = 1" by simp
    then have "push_tree_recursive S (Internal h s cs ts) other =
        Some (append_children S h s1 cs ts [node_summary other] [other])"
      using below by (simp add: s1_def)
    then show ?thesis
      using below grown [of ts "[other]"] wf Internal.prems by (simp add: xs_def TREE_BASE_def)
  next
    case descend
    have l: "last ts \<in> set ts" using wf by simp
    have lw: "wf_tree S (last ts)" "node_height (last ts) + 1 = h" "tree_items (last ts) \<noteq> []"
      using wf(1) l by (auto simp: wf_children_def)
    obtain t' r where r: "push_tree_recursive S (last ts) other = Some (t', r)"
        "grown_right S (node_height (last ts)) (tree_items (last ts) @ tree_items other) (t', r)"
      using Internal.IH [OF l] lw Internal.prems(3,4) descend by fastforce
    have bl: "wf_children S h (butlast ts)" using wf(1) by (auto simp: wf_children_def dest: in_set_butlastD)
    have xs': "xs = concat (map tree_items (butlast ts)) @ tree_items (last ts) @ tree_items other"
      using butlast_snoc_last [OF wf(2), of tree_items] by (simp add: xs_def)
    define new where "new = (case r of None \<Rightarrow> [] | Some u \<Rightarrow> [u])"
    have "\<not> h < node_height other" "h - node_height other \<noteq> 0"
      "\<not> (h - node_height other = 1 \<and> \<not> is_underflowing other)" using descend by auto
    then have "push_tree_recursive S (Internal h s cs ts) other = Some (append_children S h s1
        (map node_summary (butlast ts @ [t'])) (butlast ts @ [t']) (map node_summary new) new)"
      using wf r(1) by (cases r) (auto simp: s1_def new_def map_butlast Let_def)
    moreover have "wf_children S h ((butlast ts @ [t']) @ new)"
      "concat (map tree_items ((butlast ts @ [t']) @ new)) = xs"
      using r(2) lw bl xs' by (cases r; simp add: new_def)+
    moreover have "length (butlast ts @ [t']) \<le> CAPACITY" "length new \<le> CAPACITY"
      using wf(2,3) by (auto simp: new_def TREE_BASE_def split: option.splits)
    ultimately show ?thesis using grown [of "butlast ts @ [t']" new] by auto
  qed
  then show ?case by (simp only: xs_def node_height.simps)
next
  case (Leaf s xs ss)
  then obtain s' xs' ss' where o: "other = Leaf s' xs' ss'"
    by (cases other) (auto simp: wf_internal wf_children_def)
  show ?case using Leaf append_items_grown [of xs xs'] unfolding o by simp
qed


lemma grown_left_swap: "grown_right S h xs (l, Some t) \<Longrightarrow> grown_left S h xs (t, Some l)"
  by simp

lemma merge_into_right_grown:
  assumes "wf_tree S a" "wf_tree S b" "tree_items a \<noteq> []" "tree_items b \<noteq> []"
    and "node_height a = node_height b"
  shows "\<exists>r. merge_into_right S a b = Some r \<and> grown_left S (node_height b) (tree_items a @ tree_items b) r"
proof (cases b)
  case (Internal h s cs ts)
  then obtain s' cs' ts' where a: "a = Internal h s' cs' ts'"
    using assms by (cases a) (auto simp: wf_internal wf_children_def neq_Nil_conv)
  define n where "n = length (ts' @ ts)"
  define mid where "mid = (n + 1) div 2"
  have wf: "wf_children S h (ts' @ ts)" "ts' \<noteq> []" "ts \<noteq> []" "length ts' \<le> CAPACITY" "length ts \<le> CAPACITY"
    and cs: "cs = map node_summary ts" "cs' = map node_summary ts'" "s = sum_of S cs" "s' = sum_of S cs'"
    using assms Internal a by (auto simp: wf_internal)
  show ?thesis
  proof (cases "n \<le> CAPACITY")
    case True
    then have "merge_into_right S a b = Some (internal_of S h (ts' @ ts), None)"
      using wf cs wf_children_summable [of S h ts] wf_children_summable [of S h ts']
      by (simp add: a Internal n_def internal_of_def Let_def sum_of_append add.commute)
    moreover have "tree_items a @ tree_items b = concat (map tree_items (ts' @ ts))" by (simp add: a Internal)
    moreover have "grown_left S h (concat (map tree_items (ts' @ ts))) (internal_of S h (ts' @ ts), None)"
      unfolding grown_left.simps using True wf by (intro internal_merge) (auto simp: n_def)
    ultimately show ?thesis by (simp only: Internal node_height.simps) blast
  next
    case False
    then have mid: "0 < mid" "mid < n" "mid \<le> CAPACITY" "n - mid \<le> CAPACITY"
      using wf(4,5) unfolding mid_def n_def TREE_BASE_def length_append by presburger+
    have n': "length ts + length ts' = n" by (simp add: n_def)
    have "merge_into_right S a b = Some (internal_of S h (drop mid (ts' @ ts)), Some (internal_of S h (take mid (ts' @ ts))))"
      using False unfolding a Internal merge_into_right.simps internal_of_def Let_def cs map_append [symmetric]
        take_map drop_map n' mid_def [symmetric] by simp
    moreover have "grown_right S h (concat (map tree_items (ts' @ ts)))
        (internal_of S h (take mid (ts' @ ts)), Some (internal_of S h (drop mid (ts' @ ts))))"
      using mid wf(1) by (intro internal_split) (simp_all add: n_def)
    ultimately show ?thesis
      unfolding a Internal grown_left.simps(2) [symmetric] tree_items.simps node_height.simps
        concat_append [symmetric] map_append [symmetric] by blast
  qed
next
  case (Leaf s xs ss)
  then obtain s' xs' ss' where a: "a = Leaf s' xs' ss'"
    using assms by (cases a) (auto simp: wf_internal wf_children_def neq_Nil_conv)
  define n where "n = length (xs' @ xs)"
  define mid where "mid = (n + 1) div 2"
  have wf: "xs' \<noteq> []" "xs \<noteq> []" "length xs' \<le> CAPACITY" "length xs \<le> CAPACITY"
    and ss: "ss = map (ssummary S) xs" "ss' = map (ssummary S) xs'" "s = sum_of S ss" "s' = sum_of S ss'"
    using assms Leaf a by auto
  show ?thesis
  proof (cases "n \<le> CAPACITY")
    case True
    then show ?thesis using wf ss by (simp add: a Leaf n_def sum_of_append)
  next
    case False
    then have mid: "0 < mid" "mid < n" "mid \<le> CAPACITY" "n - mid \<le> CAPACITY"
      using wf(3,4) unfolding mid_def n_def TREE_BASE_def length_append by presburger+
    have "merge_into_right S a b = Some (leaf_node S (drop mid (xs' @ xs)), Some (leaf_node S (take mid (xs' @ xs))))"
      using False unfolding a Leaf merge_into_right.simps leaf_node_def Let_def ss map_append [symmetric]
        take_map drop_map length_append [symmetric] n_def [symmetric] mid_def [symmetric] by simp
    moreover have "grown_right S 0 (xs' @ xs)
        (leaf_node S (take mid (xs' @ xs)), Some (leaf_node S (drop mid (xs' @ xs))))"
      using mid by (intro leaf_split) (simp_all add: n_def)
    ultimately show ?thesis
      unfolding a Leaf grown_left.simps(2) [symmetric] tree_items.simps node_height.simps by blast
  qed
qed

lemma append_large_grown:
  assumes "wf_tree S a" "wf_tree S b" "tree_items a \<noteq> []" "tree_items b \<noteq> []"
    and "node_height a \<le> node_height b"
  shows "\<exists>r. append_large S a b = Some r \<and> grown_left S (node_height b) (tree_items a @ tree_items b) r"
  using assms
proof (induction b)
  case (Internal h s cs ts)
  show ?case
  proof (cases "node_height a = h")
    case True
    then show ?thesis
      using Internal.prems merge_into_right_grown [OF Internal.prems(1,2)]
      by (cases "is_underflowing a") (auto)
  next
    case False
    have wf: "wf_children S h ts" "ts \<noteq> []" "length ts \<le> CAPACITY" "cs = map node_summary ts" "s = sum_of S cs"
      using Internal.prems(2) by (auto simp: wf_internal)
    have f: "hd ts \<in> set ts" using wf by simp
    have fw: "wf_tree S (hd ts)" "node_height (hd ts) + 1 = h" "tree_items (hd ts) \<noteq> []"
      using wf(1) f by (auto simp: wf_children_def)
    obtain t' l where r: "append_large S a (hd ts) = Some (t', l)"
        "grown_left S (node_height (hd ts)) (tree_items a @ tree_items (hd ts)) (t', l)"
      using Internal.IH [OF f] fw Internal.prems False by fastforce
    define us where "us = (case l of None \<Rightarrow> [t'] | Some l' \<Rightarrow> [l', t']) @ tl ts"
    have ts: "ts = hd ts # tl ts" using wf by simp
    have tl: "wf_children S h (tl ts)" using wf(1) ts by (metis wf_children_simps(2))
    have us: "wf_children S h us" "us \<noteq> []" using r(2) fw tl by (auto simp: us_def split: option.splits)
    have items: "concat (map tree_items us) = tree_items a @ concat (map tree_items ts)"
      using r(2) by (subst ts) (auto simp: us_def split: option.splits)
    have sum: "sadd S (node_summary a) s = sum_of S (map node_summary us)"
      using sum_first_replaced [OF wf(1,2) _ _ us items] Internal.prems wf by simp
    have "\<exists>r. append_large S a (Internal h s cs ts) = Some r \<and>
        grown_left S h (concat (map tree_items us)) r"
    proof (cases "length us \<le> CAPACITY")
      case True
      then have "append_large S a (Internal h s cs ts) = Some (internal_of S h us, None)"
        using r(1) False wf ts sum
        by (cases l) (auto simp: us_def internal_of_def Let_def map_tl)
      moreover have "grown_left S h (concat (map tree_items us)) (internal_of S h us, None)"
        unfolding grown_left.simps by (rule internal_merge [OF us True])
      ultimately show ?thesis by blast
    next
      case F: False
      then obtain l' where l': "l = Some l'" using wf by (cases l) (auto simp: us_def)
      have len: "length us = CAPACITY + 1" using F wf by (auto simp: us_def l')
      have "append_large S a (Internal h s cs ts) =
          Some (internal_of S h (drop (TREE_BASE + 1) us), Some (internal_of S h (take (TREE_BASE + 1) us)))"
        using r(1) False wf F by (auto simp: us_def internal_of_def Let_def l' map_tl simp flip: take_map drop_map)
      moreover have "grown_right S h (concat (map tree_items us))
          (internal_of S h (take (TREE_BASE + 1) us), Some (internal_of S h (drop (TREE_BASE + 1) us)))"
        using us(1) len by (intro internal_split) (auto simp: TREE_BASE_def)
      ultimately show ?thesis unfolding grown_left.simps(2) [symmetric] by blast
    qed
    then show ?thesis by (simp only: items tree_items.simps node_height.simps)
  qed
next
  case (Leaf s xs ss)
  then show ?case using merge_into_right_grown [OF Leaf.prems(1,2)]
    by (cases "is_underflowing a") auto
qed

lemma from_child_trees_wf:
  assumes "grown_right S h xs (l, Some r)"
  shows "wf_tree S (from_child_trees S l r) \<and> tree_items (from_child_trees S l r) = xs"
  using assms by (auto simp: from_child_trees_def Let_def wf_internal TREE_BASE_def)

lemma append_tree_spec:
  assumes "wf_tree S a" "wf_tree S b"
  shows "\<exists>r. append_tree S a b = Some r \<and> wf_tree S r \<and> tree_items r = tree_items a @ tree_items b"
proof (cases "tree_items a = [] \<or> tree_items b = []")
  case True
  then show ?thesis using assms is_empty_iff by (auto simp: append_tree_def)
next
  case False
  then have ne: "\<not> is_empty a" "\<not> is_empty b" using assms is_empty_iff by blast+
  show ?thesis
  proof (cases "node_height a < node_height b")
    case True
    then obtain b' l where "append_large S a b = Some (b', l)"
        "grown_left S (node_height b) (tree_items a @ tree_items b) (b', l)"
      using append_large_grown [OF assms] False by force
    with True ne from_child_trees_wf show ?thesis
      by (cases l) (auto simp: append_tree_def)
  next
    case F: False
    then obtain a' r where "push_tree_recursive S a b = Some (a', r)"
        "grown_right S (node_height a) (tree_items a @ tree_items b) (a', r)"
      using push_tree_recursive_grown [OF assms(1) _ assms(2)] False by force
    with F ne from_child_trees_wf show ?thesis
      by (cases r) (auto simp: append_tree_def)
  qed
qed



lemma internal_of_wf:
  assumes "wf_children S h ts" "ts \<noteq> []" "length ts \<le> CAPACITY"
  shows "wf_children S (h + 1) [internal_of S h ts]" "tree_items (internal_of S h ts) = concat (map tree_items ts)"
  using assms wf_children_items [OF assms(1,2)]
  by (simp_all add: internal_of_def Let_def wf_internal)

lemma build_level_wf:
  assumes "wf_children S h nodes"
  shows "wf_children S (h + 1) (build_level S h nodes)"
    and "concat (map tree_items (build_level S h nodes)) = concat (map tree_items nodes)"
proof -
  have sub: "wf_children S h c \<and> c \<noteq> [] \<and> length c \<le> CAPACITY" if "c \<in> set (chunks CAPACITY nodes)" for c
  proof -
    have "set c \<subseteq> set nodes"
      using set_chunks [OF that] by (simp add: TREE_BASE_def)
    then show ?thesis using assms in_chunks [OF that] by (auto simp: wf_children_def)
  qed
  then show "wf_children S (h + 1) (build_level S h nodes)"
    using internal_of_wf(1) by (fastforce simp: build_level_chunks wf_children_def)
  have "concat (map tree_items (map (internal_of S h) cs)) = concat (map tree_items (concat cs))"
    if "\<forall>c \<in> set cs. wf_children S h c \<and> c \<noteq> [] \<and> length c \<le> CAPACITY" for cs
    using that internal_of_wf(2) by (induction cs) auto
  from this [of "chunks CAPACITY nodes"] sub show
    "concat (map tree_items (build_level S h nodes)) = concat (map tree_items nodes)"
    by (simp add: build_level_chunks concat_chunks TREE_BASE_def)
qed

lemma build_levels_wf:
  assumes "wf_children S (h + 1) nodes" "nodes \<noteq> []"
  shows "\<exists>t. build_levels S h nodes = [t] \<and> wf_tree S t \<and> tree_items t = concat (map tree_items nodes)"
  using assms
proof (induction "length nodes" arbitrary: h nodes rule: less_induct)
  case less
  show ?case
  proof (cases "length nodes > 1")
    case True
    let ?up = "build_level S (h + 1) nodes"
    have "length ?up < length nodes"
      using True by (simp add: build_level_chunks length_chunks_less TREE_BASE_def)
    moreover have "?up \<noteq> []"
      using True by (subst build_level_chunks, subst chunks.simps) (auto simp: TREE_BASE_def)
    ultimately show ?thesis
      using less.hyps [of ?up "h + 1"] True build_level_wf [OF less.prems(1)]
      by (subst build_levels.simps) simp
  next
    case False
    then obtain t where "nodes = [t]" using less.prems by (cases nodes) auto
    then show ?thesis using less.prems by (subst build_levels.simps) auto
  qed
qed

lemma leaves_wf: "wf_children S 1 (map (leaf_of S) (chunks CAPACITY xs))"
  using in_chunks [of _ CAPACITY xs] foldl_from_first
  by (auto simp: wf_children_def leaf_of_def Let_def)

lemma from_iter_spec: "wf_tree S (from_iter S xs) \<and> tree_items (from_iter S xs) = xs"
proof (cases "xs = []")
  case True
  then show ?thesis by (simp add: from_iter_def build_levels.simps tree_new_def sum_of_def)
next
  case False
  define leaves where "leaves = map (leaf_of S) (chunks CAPACITY xs)"
  have "wf_children S (0 + 1) leaves" using leaves_wf by (simp add: leaves_def)
  moreover have "leaves \<noteq> []" using False by (subst leaves_def, subst chunks.simps) (simp add: TREE_BASE_def)
  moreover have "concat (map tree_items leaves) = xs"
  proof -
    have "map tree_items leaves = chunks CAPACITY xs"
      by (simp add: leaves_def comp_def leaf_of_def Let_def)
    then show ?thesis by (simp add: concat_chunks TREE_BASE_def)
  qed
  ultimately show ?thesis
    using build_levels_wf [of 0 leaves] by (auto simp: from_iter_def leaves_def)
qed

lemma par_levels_eq: "\<forall>t \<in> set nodes. summable S (node_summary t) \<Longrightarrow> par_levels S h nodes = build_levels S h nodes"
proof (induction "length nodes" arbitrary: h nodes rule: less_induct)
  case less
  have sub: "\<forall>s \<in> set (map node_summary c). summable S s" if "c \<in> set (chunks CAPACITY nodes)" for c
    using set_chunks [OF that] less.prems by (auto simp: TREE_BASE_def)
  have up: "map (par_internal S (h + 1)) (chunks CAPACITY nodes) = build_level S (h + 1) nodes"
  proof -
    have "par_internal S (h + 1) c = internal_of S (h + 1) c" if "c \<in> set (chunks CAPACITY nodes)" for c
      using in_chunks [OF that] foldl_from_first [OF _ sub [OF that]] by (simp add: par_internal_def internal_of_def Let_def)
    then show ?thesis by (simp add: build_level_chunks)
  qed
  have next_sub: "\<forall>t \<in> set (build_level S (h + 1) nodes). summable S (node_summary t)"
    using summable_sum_of [OF sub] by (auto simp: build_level_chunks internal_of_def Let_def)
  show ?case
  proof (cases "length nodes > 1")
    case True
    have "length (build_level S (h + 1) nodes) < length nodes"
      using True by (simp add: build_level_chunks length_chunks_less TREE_BASE_def)
    from less.hyps [OF this next_sub] True show ?thesis
      by (subst par_levels.simps, subst build_levels.simps) (simp only: up if_True)
  next
    case False
    then show ?thesis by (subst par_levels.simps, subst build_levels.simps) simp
  qed
qed

lemma from_par_iter_eq: "from_par_iter S xs = from_iter S xs"
  using par_levels_eq [of "map (leaf_of S) (chunks CAPACITY xs)" 0] wf_children_summable [OF leaves_wf]
  by (simp add: from_par_iter_def from_iter_def)

lemma push_spec:
  "wf_tree S t \<Longrightarrow> \<exists>r. push S t x = Some r \<and> wf_tree S r \<and> tree_items r = tree_items t @ [x]"
  unfolding push_def using append_tree_spec [of t "Leaf (ssummary S x) [x] [ssummary S x]"]
  by (simp add: TREE_BASE_def)

lemma extend_spec:
  "wf_tree S t \<Longrightarrow> \<exists>r. extend S t xs = Some r \<and> wf_tree S r \<and> tree_items r = tree_items t @ xs"
  unfolding extend_def using append_tree_spec [of t "from_iter S xs"] from_iter_spec by simp

lemma tree_new_wf [simp]: "wf_tree S (tree_new S)" "tree_items (tree_new S) = []"
  by (simp_all add: tree_new_def sum_of_def)

lemma leftmost_leaf_spec:
  "wf_tree S t \<Longrightarrow> \<exists>s xs ss. leftmost_leaf t = Some (Leaf s xs ss) \<and> wf_tree S (Leaf s xs ss) \<and>
     (tree_items t \<noteq> [] \<longrightarrow> xs \<noteq> []) \<and> (\<exists>ys. tree_items t = xs @ ys)"
proof (induction t)
  case (Internal h s cs ts)
  then have "ts \<noteq> []" "hd ts \<in> set ts" "wf_tree S (hd ts)" "tree_items (hd ts) \<noteq> []"
    by (auto simp: wf_internal wf_children_def)
  moreover have "tree_items (Internal h s cs ts) = tree_items (hd ts) @ concat (map tree_items (tl ts))"
    using \<open>ts \<noteq> []\<close> by (cases ts) auto
  ultimately show ?case using Internal.IH [of "hd ts"] by fastforce
qed auto

lemma rightmost_leaf_spec:
  "wf_tree S t \<Longrightarrow> \<exists>s xs ss. rightmost_leaf t = Some (Leaf s xs ss) \<and> wf_tree S (Leaf s xs ss) \<and>
     (tree_items t \<noteq> [] \<longrightarrow> xs \<noteq> []) \<and> (\<exists>ys. tree_items t = ys @ xs)"
proof (induction t)
  case (Internal h s cs ts)
  then have "ts \<noteq> []" "last ts \<in> set ts" "wf_tree S (last ts)" "tree_items (last ts) \<noteq> []"
    by (auto simp: wf_internal wf_children_def)
  moreover have "tree_items (Internal h s cs ts) = concat (map tree_items (butlast ts)) @ tree_items (last ts)"
    using butlast_snoc_last [OF \<open>ts \<noteq> []\<close>] by simp
  ultimately show ?case using Internal.IH [of "last ts"] by fastforce
qed auto

lemma tree_first_spec: "wf_tree S t \<Longrightarrow> tree_first t = Some (head_opt (tree_items t))"
  using leftmost_leaf_spec [of t] by (fastforce simp: tree_first_def head_opt_def)

lemma tree_last_spec: "wf_tree S t \<Longrightarrow> tree_last t = Some (last_opt (tree_items t))"
  using rightmost_leaf_spec [of t] by (fastforce simp: tree_last_def last_opt_def)

lemma last_summary_spec:
  "wf_tree S t \<Longrightarrow> last_summary t = Some (map_option (ssummary S) (last_opt (tree_items t)))"
  using rightmost_leaf_spec [of t] by (fastforce simp: last_summary_def last_opt_def last_map)

lemma update_last_recursive_spec:
  assumes "wf_tree S t" "tree_items t \<noteq> []"
  shows "\<exists>t'. update_last_recursive S f t = Some (t', Some (node_summary t')) \<and> wf_tree S t' \<and>
    node_height t' = node_height t \<and> tree_items t' = butlast (tree_items t) @ [f (last (tree_items t))]"
  using assms
proof (induction t)
  case (Internal h s cs ts)
  then have wf: "wf_children S h ts" "ts \<noteq> []" "length ts \<le> CAPACITY" "cs = map node_summary ts"
    by (auto simp: wf_internal)
  then have l: "last ts \<in> set ts" "wf_tree S (last ts)" "tree_items (last ts) \<noteq> []" "node_height (last ts) + 1 = h"
    by (auto simp: wf_children_def)
  then obtain t' where t': "update_last_recursive S f (last ts) = Some (t', Some (node_summary t'))"
      "wf_tree S t'" "node_height t' = node_height (last ts)"
      "tree_items t' = butlast (tree_items (last ts)) @ [f (last (tree_items (last ts)))]"
    using Internal.IH by blast
  have "wf_children S h (butlast ts)" using wf(1) by (auto simp: wf_children_def dest: in_set_butlastD)
  with wf l t' butlast_snoc_last [OF wf(2), of tree_items] show ?case
    by (auto simp: Let_def wf_internal map_butlast butlast_append)
qed (auto simp: Let_def map_butlast)

lemma update_first_recursive_spec:
  assumes "wf_tree S t" "tree_items t \<noteq> []"
  shows "\<exists>t'. update_first_recursive S f t = Some (t', Some (node_summary t')) \<and> wf_tree S t' \<and>
    node_height t' = node_height t \<and> tree_items t' = f (hd (tree_items t)) # tl (tree_items t)"
  using assms
proof (induction t)
  case (Internal h s cs ts)
  then have wf: "wf_children S h ts" "ts \<noteq> []" "length ts \<le> CAPACITY" "cs = map node_summary ts"
    by (auto simp: wf_internal)
  then have l: "hd ts \<in> set ts" "wf_tree S (hd ts)" "tree_items (hd ts) \<noteq> []" "node_height (hd ts) + 1 = h"
    by (auto simp: wf_children_def)
  then obtain t' where t': "update_first_recursive S f (hd ts) = Some (t', Some (node_summary t'))"
      "wf_tree S t'" "node_height t' = node_height (hd ts)"
      "tree_items t' = f (hd (tree_items (hd ts))) # tl (tree_items (hd ts))"
    using Internal.IH by blast
  with wf l show ?case
    by (cases ts) (auto simp: Let_def wf_internal)
qed (auto simp: Let_def map_tl)

end

subsection \<open>Summaries without content\<close>

text \<open>\<open>NoSummary\<close>, the summary of trees that are only used as sequences.\<close>

datatype no_summary = NoSummary

definition no_summary_ops :: "('t, no_summary) item_ops" where
  "no_summary_ops = \<lparr>szero = NoSummary, sadd = (\<lambda>a b. a), ssummary = (\<lambda>x. NoSummary)\<rparr>"

lemma no_summary_eq: "(a :: no_summary) = b"
  by (cases a; cases b) simp

lemma lawful_no_summary: "lawful_summary no_summary_ops"
  by (simp add: lawful_summary_def no_summary_eq)

interpretation nos: summary_laws "no_summary_ops :: ('t, no_summary) item_ops"
  by unfold_locales (rule lawful_no_summary)

subsection \<open>The tree as a sequence\<close>

text \<open>C13 (append_concatenates): appending two well-formed trees never panics, keeps the B+ tree
  invariant (uniform height, at most twelve children, every cached summary equal to the sum of the
  summaries below it) and concatenates the item sequences, whichever of the two trees is higher.\<close>

theorem append_concatenates:
  assumes "lawful_summary S" "wf_tree S a" "wf_tree S b"
  shows "\<exists>r. append_tree S a b = Some r \<and> wf_tree S r \<and> tree_items r = tree_items a @ tree_items b"
  using assms by (intro summary_laws.append_tree_spec summary_laws.intro)

theorem append_concatenates_witness:
  "\<exists>r. append_tree no_summary_ops (from_iter no_summary_ops [1..<40::nat]) (from_iter no_summary_ops [7, 8]) = Some r \<and>
     wf_tree no_summary_ops r \<and>
     tree_items r = tree_items (from_iter no_summary_ops [1..<40]) @ tree_items (from_iter no_summary_ops [7, 8])"
  by (rule append_concatenates [OF lawful_no_summary]) (simp_all add: nos.from_iter_spec)

text \<open>C25 (from_iter_builds): bulk construction yields a well-formed tree with exactly the given items, and
  the parallel construction yields the same tree, node for node.\<close>

theorem from_iter_builds:
  assumes "lawful_summary S"
  shows "wf_tree S (from_iter S xs) \<and> tree_items (from_iter S xs) = xs \<and>
    from_par_iter S xs = from_iter S xs"
  using assms summary_laws.from_iter_spec [of S xs] summary_laws.from_par_iter_eq [of S xs]
  by (simp add: summary_laws_def)

theorem from_iter_builds_witness:
  "wf_tree no_summary_ops (from_iter no_summary_ops [1..<40::nat]) \<and>
   tree_items (from_iter no_summary_ops [1..<40::nat]) = [1..<40] \<and>
   from_par_iter no_summary_ops [1..<40::nat] = from_iter no_summary_ops [1..<40]"
  by (rule from_iter_builds [OF lawful_no_summary])

text \<open>Fact (push_extend_append_items): pushing an item and extending by a sequence never panic on a well-formed
  tree, keep it well formed and add exactly these items at the end.\<close>

theorem push_extend_append_items:
  assumes "lawful_summary S" "wf_tree S t"
  shows "(\<exists>r. push S t x = Some r \<and> wf_tree S r \<and> tree_items r = tree_items t @ [x]) \<and>
    (\<exists>r. extend S t xs = Some r \<and> wf_tree S r \<and> tree_items r = tree_items t @ xs)"
  using assms by (auto intro: summary_laws.push_spec summary_laws.extend_spec summary_laws.intro)

theorem push_extend_append_items_witness:
  "(\<exists>r. push no_summary_ops (tree_new no_summary_ops) (3::nat) = Some r \<and> wf_tree no_summary_ops r \<and>
      tree_items r = tree_items (tree_new no_summary_ops) @ [3]) \<and>
   (\<exists>r. extend no_summary_ops (tree_new no_summary_ops) [3::nat, 4] = Some r \<and> wf_tree no_summary_ops r \<and>
      tree_items r = tree_items (tree_new no_summary_ops) @ [3, 4])"
  by (rule push_extend_append_items [OF lawful_no_summary nos.tree_new_wf(1)])

text \<open>Fact (update_ends_items): updating the last (or first) item in place changes that item only, keeps every
  cached summary on the path to the root right and does not panic on a non-empty tree; on an empty
  tree it does nothing.\<close>

theorem update_ends_items:
  assumes "lawful_summary S" "wf_tree S t"
  shows "(\<exists>r. update_last S f t = Some r \<and> wf_tree S r \<and>
        tree_items r = (if tree_items t = [] then [] else butlast (tree_items t) @ [f (last (tree_items t))])) \<and>
    (\<exists>r. update_first S f t = Some r \<and> wf_tree S r \<and>
        tree_items r = (if tree_items t = [] then [] else f (hd (tree_items t)) # tl (tree_items t)))"
proof (cases "tree_items t = []")
  case True
  then obtain s ss where "t = Leaf s [] ss"
    using is_empty_iff [OF assms(2)] by (cases t) auto
  then show ?thesis using assms True by (simp add: update_last_def update_first_def)
next
  case False
  have sl: "summary_laws S" using assms(1) by (rule summary_laws.intro)
  show ?thesis
    using summary_laws.update_last_recursive_spec [OF sl assms(2) False]
      summary_laws.update_first_recursive_spec [OF sl assms(2) False] False
    by (force simp: update_last_def update_first_def)
qed

theorem update_ends_items_witness:
  "(\<exists>r. update_last no_summary_ops Suc (from_iter no_summary_ops [1..<20]) = Some r \<and> wf_tree no_summary_ops r \<and>
      tree_items r = (if tree_items (from_iter no_summary_ops [1..<20]) = [] then []
        else butlast (tree_items (from_iter no_summary_ops [1..<20])) @
          [Suc (last (tree_items (from_iter no_summary_ops [1..<20])))])) \<and>
   (\<exists>r. update_first no_summary_ops Suc (from_iter no_summary_ops [1..<20]) = Some r \<and> wf_tree no_summary_ops r \<and>
      tree_items r = (if tree_items (from_iter no_summary_ops [1..<20]) = [] then []
        else Suc (hd (tree_items (from_iter no_summary_ops [1..<20]))) #
          tl (tree_items (from_iter no_summary_ops [1..<20]))))"
  by (rule update_ends_items [OF lawful_no_summary]) (simp add: nos.from_iter_spec)

text \<open>Fact (cached_summary_is_sum): the summary stored at the root of a well-formed tree is the sum of the summaries
  of its items in order, and the accessors of both ends agree with the item sequence.\<close>

theorem cached_summary_is_sum:
  assumes "lawful_summary S" "wf_tree S t"
  shows "node_summary t = sum_of S (map (ssummary S) (tree_items t)) \<and>
    tree_first t = Some (head_opt (tree_items t)) \<and> tree_last t = Some (last_opt (tree_items t)) \<and>
    last_summary t = Some (map_option (ssummary S) (last_opt (tree_items t)))"
  using assms by (simp add: summary_laws.tree_summary_items summary_laws.tree_first_spec
      summary_laws.tree_last_spec summary_laws.last_summary_spec summary_laws_def)

theorem cached_summary_is_sum_witness:
  "let S = (no_summary_ops :: (nat, no_summary) item_ops); t = from_iter S [1..<20] in
   node_summary t = sum_of S (map (ssummary S) (tree_items t)) \<and>
   tree_first t = Some (head_opt (tree_items t)) \<and> tree_last t = Some (last_opt (tree_items t)) \<and>
   last_summary t = Some (map_option (ssummary S) (last_opt (tree_items t)))"
  unfolding Let_def
  by (rule cached_summary_is_sum [OF lawful_no_summary]) (simp add: nos.from_iter_spec)

end
