(* ===== verification/Sum_Seek.thy ===== *)
theory Sum_Seek
  imports Sum_Tree
begin

text \<open>
  Dimensions, seek targets and the allocation-free lookups \<open>find\<close>, \<open>find_exact\<close> and
  \<open>find_with_prev\<close> of \<open>crates/sum_tree/src/sum_tree.rs\<close>. A dimension is a measure that
  accumulates over summaries; a seek target is compared with accumulated positions. The theory
  states once, on lists, where a seek stops (\<open>seek_list\<close>) and shows that the descents through
  the tree, which look at the cached summaries of whole subtrees only, stop at the same place.
\<close>

subsection \<open>Dimensions, targets and biases\<close>

text \<open>The trait \<open>Dimension\<close>; its blanket implementation for a summary type; and triples.\<close>

record ('s, 'd) dim_ops =
  dzero :: 'd
  dadd :: "'d \<Rightarrow> 's \<Rightarrow> 'd"

definition with_added_summary :: "('s, 'd) dim_ops \<Rightarrow> 'd \<Rightarrow> 's \<Rightarrow> 'd" where
  "with_added_summary D d s = dadd D d s"

definition dim_from_summary :: "('s, 'd) dim_ops \<Rightarrow> 's \<Rightarrow> 'd" where
  "dim_from_summary D s = dadd D (dzero D) s"

definition summary_dim :: "('t, 's) item_ops \<Rightarrow> ('s, 's) dim_ops" where
  "summary_dim S = \<lparr>dzero = szero S, dadd = sadd S\<rparr>"

definition unit_dim :: "('s, unit) dim_ops" where
  "unit_dim = \<lparr>dzero = (), dadd = (\<lambda>d s. ())\<rparr>"

definition dimensions ::
  "('s, 'd1) dim_ops \<Rightarrow> ('s, 'd2) dim_ops \<Rightarrow> ('s, 'd3) dim_ops \<Rightarrow> ('s, 'd1 \<times> 'd2 \<times> 'd3) dim_ops" where
  "dimensions D1 D2 D3 =
     \<lparr>dzero = (dzero D1, dzero D2, dzero D3),
      dadd = (\<lambda>(d1, d2, d3) s. (dadd D1 d1 s, dadd D2 d2 s, dadd D3 d3 s))\<rparr>"

text \<open>The trait \<open>SeekTarget\<close> is a comparison with a position. A target of the first dimension
  compares with the first component; an ordered dimension is its own target.\<close>

type_synonym 'd target = "'d \<Rightarrow> ordering"

definition first_target :: "'d1 target \<Rightarrow> ('d1 \<times> 'd2 \<times> 'd3) target" where
  "first_target c = (\<lambda>(d1, d2, d3). c d1)"

definition ord_target :: "'d::linorder \<Rightarrow> 'd target" where
  "ord_target x = (\<lambda>d. cmp x d)"

datatype bias = Left | Right

fun bias_invert :: "bias \<Rightarrow> bias" where
  "bias_invert Left = Right"
| "bias_invert Right = Left"

text \<open>The two tests of the code: the target lies beyond a position, or at or before it.\<close>

definition beyond :: "'d target \<Rightarrow> bias \<Rightarrow> 'd \<Rightarrow> bool" where
  "beyond target bias d \<longleftrightarrow> target d = Greater \<or> (target d = Equal \<and> bias = Right)"

definition in_child :: "'d target \<Rightarrow> bias \<Rightarrow> 'd \<Rightarrow> bool" where
  "in_child target bias d \<longleftrightarrow> target d = Less \<or> (target d = Equal \<and> bias = Left)"

lemma in_child_iff: "in_child target bias d \<longleftrightarrow> \<not> beyond target bias d"
  by (cases "target d"; cases bias) (auto simp: in_child_def beyond_def)

definition extent :: "('s, 'd) dim_ops \<Rightarrow> ('t, 's) node \<Rightarrow> 'd" where
  "extent D t = dadd D (dzero D) (node_summary t)"

subsection \<open>Lookups\<close>

text \<open>
  \<open>find_iterate\<close>: \<open>position\<close> is passed in and out; the result is the item found with its end. The loop
  over the children of an internal node and the continuation into a child are mutually recursive.
\<close>

fun find_items ::
  "('s, 'd) dim_ops \<Rightarrow> 'd target \<Rightarrow> bool \<Rightarrow> bias \<Rightarrow> 'd \<Rightarrow> 't list \<Rightarrow> 's list \<Rightarrow> ('t \<times> 'd) option \<times> 'd" where
  "find_items D target exact bias pos (x # xs) (s # ss) =
     (let child_end = dadd D pos s;
          entry_found = (if exact then target child_end = Equal else in_child target bias child_end)
      in if entry_found then (Some (x, child_end), pos)
         else find_items D target exact bias child_end xs ss)"
| "find_items D target exact bias pos _ _ = (None, pos)"

fun find_iterate ::
  "('s, 'd) dim_ops \<Rightarrow> 'd target \<Rightarrow> bool \<Rightarrow> bias \<Rightarrow> 'd \<Rightarrow> ('t, 's) node \<Rightarrow> ('t \<times> 'd) option \<times> 'd"
and find_children ::
  "('s, 'd) dim_ops \<Rightarrow> 'd target \<Rightarrow> bool \<Rightarrow> bias \<Rightarrow> 'd \<Rightarrow> ('t, 's) node list \<Rightarrow> 's list
     \<Rightarrow> ('t \<times> 'd) option \<times> 'd" where
  "find_iterate D target exact bias pos (Internal h s cs ts) =
     find_children D target exact bias pos ts cs"
| "find_iterate D target exact bias pos (Leaf s xs ss) =
     find_items D target exact bias pos xs ss"
| "find_children D target exact bias pos (t # ts) (c # cs) =
     (let child_end = dadd D pos c
      in if in_child target bias child_end then find_iterate D target exact bias pos t
         else find_children D target exact bias child_end ts cs)"
| "find_children D target exact bias pos _ _ = (None, pos)"

definition find_gen ::
  "('s, 'd) dim_ops \<Rightarrow> 'd target \<Rightarrow> bool \<Rightarrow> bias \<Rightarrow> ('t, 's) node \<Rightarrow> 'd \<times> 'd \<times> 't option" where
  "find_gen D target exact bias t =
     (let tree_end = dadd D (dzero D) (node_summary t) in
      if beyond target bias tree_end then (tree_end, tree_end, None)
      else
        (case find_iterate D target exact bias (dzero D) t of
           (Some (item, end'), pos) \<Rightarrow> (pos, end', Some item)
         | (None, pos) \<Rightarrow> (pos, pos, None)))"

definition find_exact ::
  "('s, 'd) dim_ops \<Rightarrow> 'd target \<Rightarrow> bias \<Rightarrow> ('t, 's) node \<Rightarrow> 'd \<times> 'd \<times> 't option" where
  "find_exact D target bias t = find_gen D target True bias t"

definition find_in_tree ::
  "('s, 'd) dim_ops \<Rightarrow> 'd target \<Rightarrow> bias \<Rightarrow> ('t, 's) node \<Rightarrow> 'd \<times> 'd \<times> 't option" where
  "find_in_tree D target bias t = find_gen D target False bias t"

text \<open>\<open>find_with_prev\<close> also threads the item before the current position; \<open>child_tree.last()\<close> panics
  on a malformed child.\<close>

fun find_prev_items ::
  "('s, 'd) dim_ops \<Rightarrow> 'd target \<Rightarrow> bias \<Rightarrow> 't option \<Rightarrow> 'd \<Rightarrow> 't list \<Rightarrow> 's list
     \<Rightarrow> ('t option \<times> 't \<times> 'd) option \<times> 'd" where
  "find_prev_items D target bias prev pos (x # xs) (s # ss) =
     (let child_end = dadd D pos s
      in if in_child target bias child_end then (Some (prev, x, child_end), pos)
         else find_prev_items D target bias (Some x) child_end xs ss)"
| "find_prev_items D target bias prev pos _ _ = (None, pos)"

fun find_prev_iterate ::
  "('s, 'd) dim_ops \<Rightarrow> 'd target \<Rightarrow> bias \<Rightarrow> 't option \<Rightarrow> 'd \<Rightarrow> ('t, 's) node
     \<Rightarrow> (('t option \<times> 't \<times> 'd) option \<times> 'd) option"
and find_prev_children ::
  "('s, 'd) dim_ops \<Rightarrow> 'd target \<Rightarrow> bias \<Rightarrow> 't option \<Rightarrow> 'd \<Rightarrow> ('t, 's) node list \<Rightarrow> 's list
     \<Rightarrow> (('t option \<times> 't \<times> 'd) option \<times> 'd) option" where
  "find_prev_iterate D target bias prev pos (Internal h s cs ts) =
     find_prev_children D target bias prev pos ts cs"
| "find_prev_iterate D target bias prev pos (Leaf s xs ss) =
     Some (find_prev_items D target bias prev pos xs ss)"
| "find_prev_children D target bias prev pos (t # ts) (c # cs) =
     (let child_end = dadd D pos c
      in if in_child target bias child_end then find_prev_iterate D target bias prev pos t
         else
           (case tree_last t of
              None \<Rightarrow> None
            | Some prev' \<Rightarrow> find_prev_children D target bias prev' child_end ts cs))"
| "find_prev_children D target bias prev pos _ _ = Some (None, pos)"

definition find_with_prev ::
  "('s, 'd) dim_ops \<Rightarrow> 'd target \<Rightarrow> bias \<Rightarrow> ('t, 's) node \<Rightarrow> ('d \<times> 'd \<times> ('t option \<times> 't) option) option" where
  "find_with_prev D target bias t =
     (let tree_end = dadd D (dzero D) (node_summary t) in
      if beyond target bias tree_end then Some (tree_end, tree_end, None)
      else
        (case find_prev_iterate D target bias None (dzero D) t of
           None \<Rightarrow> None
         | Some (Some (prev, item, end'), pos) \<Rightarrow> Some (pos, end', Some (prev, item))
         | Some (None, pos) \<Rightarrow> Some (pos, pos, None)))"

subsection \<open>Where a seek stops\<close>

text \<open>
  The specification: scan the items from the left, adding each summary to the position, and stop in
  front of the first item whose end the target does not lie beyond. The result is the items
  passed over, the position reached, and the items that remain.
\<close>

fun seek_list ::
  "('t, 's) item_ops \<Rightarrow> ('s, 'd) dim_ops \<Rightarrow> ('d \<Rightarrow> bool) \<Rightarrow> 'd \<Rightarrow> 't list \<Rightarrow> 't list \<times> 'd \<times> 't list" where
  "seek_list S D sk pos [] = ([], pos, [])"
| "seek_list S D sk pos (x # xs) =
     (let e = dadd D pos (ssummary S x)
      in if sk e then (let (l, p, r) = seek_list S D sk e xs in (x # l, p, r))
         else ([], pos, x # xs))"

text \<open>The end positions of the items of a sequence, and the position after all of them.\<close>

fun ends :: "('t, 's) item_ops \<Rightarrow> ('s, 'd) dim_ops \<Rightarrow> 'd \<Rightarrow> 't list \<Rightarrow> 'd list" where
  "ends S D pos [] = []"
| "ends S D pos (x # xs) = dadd D pos (ssummary S x) # ends S D (dadd D pos (ssummary S x)) xs"

definition pos_after :: "('t, 's) item_ops \<Rightarrow> ('s, 'd) dim_ops \<Rightarrow> 'd \<Rightarrow> 't list \<Rightarrow> 'd" where
  "pos_after S D pos xs = foldl (dadd D) pos (map (ssummary S) xs)"

text \<open>
  The target is ordered with respect to the sequence: once it does not lie beyond an end, it does
  not lie beyond any later one. For accumulating dimensions this is monotonicity of the
  dimension; for keys it is the order of the items.
\<close>

definition target_sorted ::
  "('t, 's) item_ops \<Rightarrow> ('s, 'd) dim_ops \<Rightarrow> ('d \<Rightarrow> bool) \<Rightarrow> 'd \<Rightarrow> 't list \<Rightarrow> bool" where
  "target_sorted S D sk pos xs \<longleftrightarrow> sorted_wrt (\<lambda>a b. sk b \<longrightarrow> sk a) (ends S D pos xs)"

text \<open>The law of a dimension: adding a sum of summaries is adding them one after the other.\<close>

definition lawful_dim :: "('t, 's) item_ops \<Rightarrow> ('s, 'd) dim_ops \<Rightarrow> bool" where
  "lawful_dim S D \<longleftrightarrow>
     (\<forall>d a b. summable S a \<longrightarrow> summable S b \<longrightarrow> dadd D (dadd D d a) b = dadd D d (sadd S a b))"

lemma pos_after_simps [simp]:
  "pos_after S D pos [] = pos"
  "pos_after S D pos (x # xs) = pos_after S D (dadd D pos (ssummary S x)) xs"
  "pos_after S D pos (xs @ ys) = pos_after S D (pos_after S D pos xs) ys"
  by (simp_all add: pos_after_def)

lemma ends_append: "ends S D pos (xs @ ys) = ends S D pos xs @ ends S D (pos_after S D pos xs) ys"
  by (induction xs arbitrary: pos) auto

lemma pos_after_in_ends: "xs \<noteq> [] \<Longrightarrow> pos_after S D pos xs \<in> set (ends S D pos xs)"
proof (induction xs arbitrary: pos)
  case (Cons x xs)
  then show ?case by (cases "xs = []") auto
qed simp

lemma target_sorted_append:
  "target_sorted S D sk pos (xs @ ys) \<Longrightarrow>
     target_sorted S D sk pos xs \<and> target_sorted S D sk (pos_after S D pos xs) ys"
  by (simp add: target_sorted_def ends_append sorted_wrt_append)

lemma target_sorted_Cons:
  "target_sorted S D sk pos (x # xs) \<Longrightarrow> target_sorted S D sk (dadd D pos (ssummary S x)) xs"
  by (simp add: target_sorted_def)

lemma ends_ne: "ends S D pos xs = [] \<longleftrightarrow> xs = []"
  by (cases xs) auto

lemma last_ends: "xs \<noteq> [] \<Longrightarrow> last (ends S D pos xs) = pos_after S D pos xs"
proof (induction xs arbitrary: pos)
  case (Cons x xs)
  then show ?case by (cases "xs = []") (auto simp: ends_ne)
qed simp

lemma target_sorted_skip_all:
  assumes "target_sorted S D sk pos xs" "xs \<noteq> []" "sk (pos_after S D pos xs)"
  shows "\<forall>e \<in> set (ends S D pos xs). sk e"
proof
  fix e assume e: "e \<in> set (ends S D pos xs)"
  have split: "ends S D pos xs = butlast (ends S D pos xs) @ [pos_after S D pos xs]"
    using assms(2) last_ends [of xs S D pos] append_butlast_last_id [of "ends S D pos xs"]
    by (simp add: ends_ne)
  have "sorted_wrt (\<lambda>a b. sk b \<longrightarrow> sk a) (butlast (ends S D pos xs) @ [pos_after S D pos xs])"
    using assms(1) split by (simp add: target_sorted_def)
  moreover have "e \<in> set (butlast (ends S D pos xs) @ [pos_after S D pos xs])"
    using e split by metis
  ultimately show "sk e" using assms(3) by (auto simp: sorted_wrt_append)
qed

lemma seek_list_skip:
  "\<forall>e \<in> set (ends S D pos xs). sk e \<Longrightarrow>
   seek_list S D sk pos (xs @ ys) =
     (let (l, p, r) = seek_list S D sk (pos_after S D pos xs) ys in (xs @ l, p, r))"
  by (induction xs arbitrary: pos) (auto simp: Let_def split: prod.splits)

lemma seek_list_stop:
  assumes "xs \<noteq> []" "\<not> sk (pos_after S D pos xs)"
  shows "\<exists>l p x r. seek_list S D sk pos xs = (l, p, x # r) \<and>
    seek_list S D sk pos (xs @ ys) = (l, p, x # r @ ys)"
  using assms
proof (induction xs arbitrary: pos)
  case (Cons x xs)
  show ?case
  proof (cases "sk (dadd D pos (ssummary S x))")
    case True
    then have "xs \<noteq> []" using Cons.prems by auto
    then show ?thesis using Cons.IH [of "dadd D pos (ssummary S x)"] Cons.prems True by auto
  qed auto
qed simp

lemma seek_list_parts:
  "seek_list S D sk pos xs = (l, p, r) \<Longrightarrow> xs = l @ r \<and> p = pos_after S D pos l \<and>
     (r \<noteq> [] \<longrightarrow> \<not> sk (dadd D p (ssummary S (hd r))))"
  by (induction xs arbitrary: pos l p r) (auto simp: Let_def split: prod.splits if_splits)

text \<open>An empty remainder means that the target lies beyond every end.\<close>

lemma seek_list_all: "seek_list S D sk pos xs = (l, p, []) \<Longrightarrow> \<forall>e \<in> set (ends S D pos xs). sk e"
  by (induction xs arbitrary: pos l) (auto simp: Let_def split: prod.splits if_splits)

subsection \<open>The descents agree with the scan\<close>

text \<open>
  The interface between the tree and its dimensions: a lawful summary and a dimension that adds
  sums of summaries piecewise. Cursors, keyed trees and maps are clients of this locale.
\<close>

locale seek_laws = summary_laws S for S :: "('t, 's) item_ops" +
  fixes D :: "('s, 'd) dim_ops"
  assumes lawful_dimension: "lawful_dim S D"
begin

lemma dadd_dadd: "summable S a \<Longrightarrow> summable S b \<Longrightarrow> dadd D (dadd D d a) b = dadd D d (sadd S a b)"
  using lawful_dimension by (simp add: lawful_dim_def)

lemma dadd_sum_of: "ss \<noteq> [] \<Longrightarrow> \<forall>s \<in> set ss. summable S s \<Longrightarrow> dadd D d (sum_of S ss) = foldl (dadd D) d ss"
proof (induction ss arbitrary: d)
  case (Cons s ss)
  then show ?case by (cases "ss = []") (auto simp: sum_of_Cons summable_sum_of simp flip: dadd_dadd)
qed simp

lemma dadd_tree:
  "wf_tree S t \<Longrightarrow> tree_items t \<noteq> [] \<Longrightarrow> dadd D d (node_summary t) = pos_after S D d (tree_items t)"
  by (simp add: tree_summary_items dadd_sum_of pos_after_def)

lemma find_items_spec:
  "find_items D target False bias pos xs (map (ssummary S) xs) =
     (case seek_list S D (beyond target bias) pos xs of
        (l, p, []) \<Rightarrow> (None, p) | (l, p, x # r) \<Rightarrow> (Some (x, dadd D p (ssummary S x)), p))"
  by (induction xs arbitrary: pos) (auto simp: in_child_iff Let_def split: prod.splits list.splits)

text \<open>
  The descent: the lookups reach the leaf that holds the stopping place. Its items \<open>xs\<close> have the
  items \<open>pre\<close> before them, all of which the target lies beyond, and it does not lie beyond the end of the leaf.
\<close>

definition descends_to :: "'d target \<Rightarrow> bias \<Rightarrow> 'd \<Rightarrow> 't list \<Rightarrow> 't list \<Rightarrow> 't list \<Rightarrow> bool" where
  "descends_to target bias pos items pre xs \<longleftrightarrow>
     (\<exists>post. items = pre @ xs @ post) \<and> xs \<noteq> [] \<and> (\<forall>e \<in> set (ends S D pos pre). beyond target bias e) \<and>
     \<not> beyond target bias (pos_after S D pos (pre @ xs))"

definition leaf_results ::
  "'d target \<Rightarrow> bias \<Rightarrow> 't option \<Rightarrow> 'd \<Rightarrow> ('t, 's) node list \<Rightarrow> 't list \<Rightarrow> 't list \<Rightarrow> bool" where
  "leaf_results target bias prev pos ts pre xs \<longleftrightarrow>
     (\<forall>exact. find_children D target exact bias pos ts (map node_summary ts) =
        find_items D target exact bias (pos_after S D pos pre) xs (map (ssummary S) xs)) \<and>
     find_prev_children D target bias prev pos ts (map node_summary ts) =
       Some (find_prev_items D target bias (if pre = [] then prev else Some (last pre))
         (pos_after S D pos pre) xs (map (ssummary S) xs))"

lemma find_descent:
  assumes "wf_tree S t" "tree_items t \<noteq> []" "\<not> beyond target bias (pos_after S D pos (tree_items t))"
    and "target_sorted S D (beyond target bias) pos (tree_items t)"
  shows "\<exists>pre xs. descends_to target bias pos (tree_items t) pre xs \<and>
     (\<forall>exact. find_iterate D target exact bias pos t =
        find_items D target exact bias (pos_after S D pos pre) xs (map (ssummary S) xs)) \<and>
     find_prev_iterate D target bias prev pos t =
       Some (find_prev_items D target bias (if pre = [] then prev else Some (last pre))
         (pos_after S D pos pre) xs (map (ssummary S) xs))"
  using assms
proof (induction t arbitrary: pos prev)
  case (Leaf s xs ss)
  then show ?case by (intro exI [of _ "[]"] exI [of _ xs]) (simp add: descends_to_def)
next
  case (Internal h s cs ts)
  have "\<exists>pre xs. descends_to target bias pos (concat (map tree_items us)) pre xs \<and>
      leaf_results target bias prev pos us pre xs"
    if "wf_children S h us" "us \<noteq> []" "set us \<subseteq> set ts"
      "\<not> beyond target bias (pos_after S D pos (concat (map tree_items us)))"
      "target_sorted S D (beyond target bias) pos (concat (map tree_items us))" for us pos prev
    using that
  proof (induction us arbitrary: pos prev)
    case (Cons u us)
    have u: "wf_tree S u" "tree_items u \<noteq> []" "u \<in> set ts" using Cons.prems(1,3) by auto
    let ?e = "pos_after S D pos (tree_items u)"
    have sorted: "target_sorted S D (beyond target bias) pos (tree_items u)"
        "target_sorted S D (beyond target bias) ?e (concat (map tree_items us))"
      using Cons.prems(5) target_sorted_append by fastforce+
    show ?case
    proof (cases "beyond target bias ?e")
      case False
      from Internal.IH [OF u(3,1,2) False sorted(1), of prev] obtain pre xs where
        "descends_to target bias pos (tree_items u) pre xs"
        "\<And>exact. find_iterate D target exact bias pos u =
           find_items D target exact bias (pos_after S D pos pre) xs (map (ssummary S) xs)"
        "find_prev_iterate D target bias prev pos u =
           Some (find_prev_items D target bias (if pre = [] then prev else Some (last pre))
             (pos_after S D pos pre) xs (map (ssummary S) xs))"
        by blast
      then show ?thesis using False u
        by (intro exI [of _ pre] exI [of _ xs])
          (auto simp: descends_to_def leaf_results_def dadd_tree in_child_iff Let_def)
    next
      case True
      then have ne: "us \<noteq> []" using Cons.prems(4) by auto
      have skip: "\<forall>e \<in> set (ends S D pos (tree_items u)). beyond target bias e"
        by (rule target_sorted_skip_all [OF sorted(1) u(2) True])
      obtain pre xs where "descends_to target bias ?e (concat (map tree_items us)) pre xs"
          "leaf_results target bias (Some (last (tree_items u))) ?e us pre xs"
        using Cons.IH [of ?e "Some (last (tree_items u))"] Cons.prems sorted(2) ne by auto
      then show ?thesis using True u skip
        by (intro exI [of _ "tree_items u @ pre"] exI [of _ xs])
          (auto simp: descends_to_def leaf_results_def dadd_tree in_child_iff Let_def ends_append
            tree_last_spec last_opt_def)
    qed
  qed simp
  from this [of ts pos prev] Internal.prems show ?case by (simp add: wf_internal leaf_results_def)
qed

lemma descends_to_seek:
  assumes "descends_to target bias pos items pre xs"
  shows "\<exists>l p x r post. seek_list S D (beyond target bias) (pos_after S D pos pre) xs = (l, p, x # r) \<and>
    seek_list S D (beyond target bias) pos items = (pre @ l, p, x # r @ post)"
proof -
  obtain post where "items = pre @ xs @ post" using assms by (auto simp: descends_to_def)
  then show ?thesis
    using assms seek_list_skip [of S D pos pre "beyond target bias" "xs @ post"]
      seek_list_stop [of xs "beyond target bias" S D "pos_after S D pos pre" post]
    by (fastforce simp: descends_to_def)
qed

lemma stop_not_beyond:
  assumes "target_sorted S D sk pos xs" "seek_list S D sk pos xs = (l, p, x # r)"
  shows "\<not> sk (pos_after S D pos xs)"
proof
  assume "sk (pos_after S D pos xs)"
  moreover have "xs \<noteq> []" using assms(2) by auto
  ultimately have "\<forall>e \<in> set (ends S D pos xs). sk e"
    using target_sorted_skip_all [OF assms(1)] by simp
  from seek_list_skip [OF this, of "[]"] assms(2) show False by simp
qed

text \<open>Nothing remains: the tree is empty or the target lies beyond all of it.\<close>

lemma seek_none:
  assumes "wf_tree S t" "seek_list S D (beyond target bias) (dzero D) (tree_items t) = (l, p, [])"
  shows "snd (snd (find_gen D target exact bias t)) = None"
    and "map_option (\<lambda>(a, b, c). c) (find_with_prev D target bias t) = Some None"
proof -
  have "is_empty t \<or> beyond target bias (dadd D (dzero D) (node_summary t))"
  proof (cases "tree_items t = []")
    case True
    then show ?thesis using assms(1) is_empty_iff by blast
  next
    case False
    have "beyond target bias (pos_after S D (dzero D) (tree_items t))"
      using seek_list_all [OF assms(2)] pos_after_in_ends [OF False] by (rule bspec)
    then show ?thesis using assms(1) False by (simp add: dadd_tree)
  qed
  then show "snd (snd (find_gen D target exact bias t)) = None"
    "map_option (\<lambda>(a, b, c). c) (find_with_prev D target bias t) = Some None"
    using assms(1) by (cases t; auto simp: find_gen_def find_with_prev_def Let_def)+
qed

lemma find_some:
  assumes "wf_tree S t" "target_sorted S D (beyond target bias) (dzero D) (tree_items t)"
    and "seek_list S D (beyond target bias) (dzero D) (tree_items t) = (l, p, x # r)"
  shows "find_in_tree D target bias t = (p, dadd D p (ssummary S x), Some x)"
    and "find_with_prev D target bias t = Some (p, dadd D p (ssummary S x), Some (last_opt l, x))"
proof -
  have ne: "tree_items t \<noteq> []" using assms(3) by auto
  have nb: "\<not> beyond target bias (pos_after S D (dzero D) (tree_items t))"
    by (rule stop_not_beyond [OF assms(2,3)])
  from find_descent [OF assms(1) ne nb assms(2), of None] obtain pre xs where d:
    "descends_to target bias (dzero D) (tree_items t) pre xs"
    "\<And>exact. find_iterate D target exact bias (dzero D) t =
        find_items D target exact bias (pos_after S D (dzero D) pre) xs (map (ssummary S) xs)"
    "find_prev_iterate D target bias None (dzero D) t =
       Some (find_prev_items D target bias (if pre = [] then None else Some (last pre))
         (pos_after S D (dzero D) pre) xs (map (ssummary S) xs))"
    by blast
  obtain m r' where m: "seek_list S D (beyond target bias) (pos_after S D (dzero D) pre) xs = (m, p, x # r')" "l = pre @ m"
    using descends_to_seek [OF d(1)] assms(3) by auto
  show "find_in_tree D target bias t = (p, dadd D p (ssummary S x), Some x)"
    using d(2) m nb assms(1) ne by (simp add: find_in_tree_def find_gen_def find_items_spec dadd_tree Let_def)
  have "find_prev_items D target bias prev pos ys (map (ssummary S) ys) =
      (Some (if m = [] then prev else Some (last m), x, dadd D p (ssummary S x)), p)"
    if "seek_list S D (beyond target bias) pos ys = (m, p, x # r')" for prev pos ys m r'
    using that by (induction ys arbitrary: prev pos m) (auto simp: Let_def in_child_iff split: if_splits prod.splits)
  from this [OF m(1)] show "find_with_prev D target bias t = Some (p, dadd D p (ssummary S x), Some (last_opt l, x))"
    using d(3) nb assms(1) ne m(2) by (auto simp: find_with_prev_def dadd_tree Let_def last_opt_def)
qed

lemma find_items_exact:
  assumes "target_sorted S D (beyond target Left) pos xs" "target_sorted S D (beyond target Right) pos xs"
    and "seek_list S D (beyond target Left) pos xs = (l, p, r)"
  shows "map_option fst (fst (find_items D target True Left pos xs (map (ssummary S) xs))) =
    (if r \<noteq> [] \<and> target (dadd D p (ssummary S (hd r))) = Equal then Some (hd r) else None)"
  using assms
proof (induction xs arbitrary: pos l p r)
  case (Cons x xs)
  let ?e = "dadd D pos (ssummary S x)"
  consider "target ?e = Equal" | "target ?e = Greater" | "target ?e = Less" by (cases "target ?e") auto
  then show ?case
  proof cases
    case 2
    then show ?thesis
      using Cons.IH [of ?e] Cons.prems target_sorted_Cons [OF Cons.prems(1)] target_sorted_Cons [OF Cons.prems(2)]
      by (auto simp: beyond_def Let_def split: prod.splits)
  next
    case 3
    then have "\<forall>e \<in> set (ends S D ?e xs). target e = Less"
      using Cons.prems(2) by (auto simp: target_sorted_def beyond_def) (metis ordering.exhaust)
    then have "find_items D target True Left ?e xs (map (ssummary S) xs) = (None, pos_after S D ?e xs)"
      by (induction xs arbitrary: pos x) auto
    then show ?thesis using 3 Cons.prems by (auto simp: beyond_def)
  qed (use Cons.prems in \<open>auto simp: beyond_def\<close>)
qed simp


lemma find_exact_spec:
  assumes "wf_tree S t" "target_sorted S D (beyond target Left) (dzero D) (tree_items t)"
    and "target_sorted S D (beyond target Right) (dzero D) (tree_items t)"
    and "seek_list S D (beyond target Left) (dzero D) (tree_items t) = (l, p, r)"
  shows "snd (snd (find_exact D target Left t)) =
    (if r \<noteq> [] \<and> target (dadd D p (ssummary S (hd r))) = Equal then Some (hd r) else None)"
proof (cases r)
  case Nil
  then show ?thesis using seek_none(1) [OF assms(1)] assms(4) by (simp add: find_exact_def)
next
  case (Cons x r0)
  have ne: "tree_items t \<noteq> []" using assms(4) Cons by auto
  have nb: "\<not> beyond target Left (pos_after S D (dzero D) (tree_items t))"
    using stop_not_beyond [OF assms(2)] assms(4) Cons by simp
  from find_descent [OF assms(1) ne nb assms(2), of None] obtain pre xs where d:
    "descends_to target Left (dzero D) (tree_items t) pre xs"
    "\<And>exact. find_iterate D target exact Left (dzero D) t =
        find_items D target exact Left (pos_after S D (dzero D) pre) xs (map (ssummary S) xs)"
    by blast
  obtain m r' where m: "seek_list S D (beyond target Left) (pos_after S D (dzero D) pre) xs = (m, p, x # r')"
    using descends_to_seek [OF d(1)] assms(4) Cons by auto
  obtain post where "tree_items t = pre @ xs @ post" using d(1) by (auto simp: descends_to_def)
  then have "target_sorted S D (beyond target b) (pos_after S D (dzero D) pre) xs" for b
    using assms(2,3) target_sorted_append [of S D "beyond target b" "dzero D" pre "xs @ post"]
      target_sorted_append [of S D "beyond target b" _ xs post] by (cases b) auto
  from find_items_exact [OF this this m] show ?thesis
    using d(2) nb assms(1) ne Cons
    by (auto simp: find_exact_def find_gen_def dadd_tree Let_def split: prod.splits option.splits if_splits)
qed

end

end
