(* ===== verification/Sum_Cursor.thy ===== *)
theory Sum_Cursor
  imports Sum_Seek
begin

text \<open>
  The cursor of \<open>crates/sum_tree/src/cursor.rs\<close>: a stack of nodes with indices that walks the
  leaves of a tree, with an accumulated position. Modelled are construction, the accessors, seeking
  with its three aggregates (nothing, a slice of the tree, a summary), forward and backward search
  with a filter on summaries, and the iterator of a tree. The head of the model's stack is the
  last entry of the code's \<open>ArrayVec\<close>.
\<close>

record ('t, 's, 'd) stack_entry =
  entry_tree :: "('t, 's) node"
  entry_index :: nat
  entry_pos :: 'd

record ('t, 's, 'd) cursor =
  cur_tree :: "('t, 's) node"
  cur_stack :: "('t, 's, 'd) stack_entry list"
  cur_pos :: 'd
  did_seek :: bool
  at_end :: bool

definition cursor_new :: "('s, 'd) dim_ops \<Rightarrow> ('t, 's) node \<Rightarrow> ('t, 's, 'd) cursor" where
  "cursor_new D t =
     \<lparr>cur_tree = t, cur_stack = [], cur_pos = dzero D, did_seek = False, at_end = is_empty t\<rparr>"

definition cursor_reset :: "('s, 'd) dim_ops \<Rightarrow> ('t, 's, 'd) cursor \<Rightarrow> ('t, 's, 'd) cursor" where
  "cursor_reset D c =
     c\<lparr>did_seek := False, at_end := is_empty (cur_tree c), cur_stack := [], cur_pos := dzero D\<rparr>"

definition cursor_start :: "('t, 's, 'd) cursor \<Rightarrow> 'd" where
  "cursor_start c = cur_pos c"

subsection \<open>Accessors\<close>

text \<open>\<open>item\<close> and \<open>item_summary\<close> assert that the cursor was positioned, and that the top of the stack is a leaf.\<close>

definition cursor_item :: "('t, 's, 'd) cursor \<Rightarrow> 't option option" where
  "cursor_item c =
     (if \<not> did_seek c then None
      else
        (case cur_stack c of
           [] \<Rightarrow> Some None
         | e # _ \<Rightarrow>
             (case entry_tree e of
                Leaf s xs ss \<Rightarrow>
                  if entry_index e = length xs then Some None
                  else if entry_index e < length xs then Some (Some (xs ! entry_index e))
                  else None
              | Internal h s cs ts \<Rightarrow> None)))"

definition cursor_item_summary :: "('t, 's, 'd) cursor \<Rightarrow> 's option option" where
  "cursor_item_summary c =
     (if \<not> did_seek c then None
      else
        (case cur_stack c of
           [] \<Rightarrow> Some None
         | e # _ \<Rightarrow>
             (case entry_tree e of
                Leaf s xs ss \<Rightarrow>
                  if entry_index e = length ss then Some None
                  else if entry_index e < length ss then Some (Some (ss ! entry_index e))
                  else None
              | Internal h s cs ts \<Rightarrow> None)))"

definition cursor_end :: "('s, 'd) dim_ops \<Rightarrow> ('t, 's, 'd) cursor \<Rightarrow> 'd option" where
  "cursor_end D c =
     (case cursor_item_summary c of
        None \<Rightarrow> None
      | Some None \<Rightarrow> Some (cursor_start c)
      | Some (Some s) \<Rightarrow> Some (dadd D (cursor_start c) s))"

subsection \<open>Aggregates\<close>

text \<open>The trait \<open>SeekAggregate\<close> (its \<open>begin_leaf\<close> is empty in all implementations) and its three implementations.\<close>

record ('t, 's, 'a) aggregate_ops =
  agg_end_leaf :: "'a \<Rightarrow> 'a option"
  agg_push_item :: "'a \<Rightarrow> 't \<Rightarrow> 's \<Rightarrow> 'a option"
  agg_push_tree :: "'a \<Rightarrow> ('t, 's) node \<Rightarrow> 's \<Rightarrow> 'a option"

definition unit_aggregate :: "('t, 's, unit) aggregate_ops" where
  "unit_aggregate =
     \<lparr>agg_end_leaf = (\<lambda>a. Some a), agg_push_item = (\<lambda>a x s. Some a), agg_push_tree = (\<lambda>a t s. Some a)\<rparr>"

record ('t, 's) slice_aggregate =
  slice_tree :: "('t, 's) node"
  leaf_items :: "'t list"
  leaf_item_summaries :: "'s list"
  leaf_summary :: 's

definition slice_end_leaf ::
  "('t, 's) item_ops \<Rightarrow> ('t, 's) slice_aggregate \<Rightarrow> ('t, 's) slice_aggregate option" where
  "slice_end_leaf S a =
     map_option
       (\<lambda>t. \<lparr>slice_tree = t, leaf_items = [], leaf_item_summaries = [], leaf_summary = szero S\<rparr>)
       (append_tree S (slice_tree a) (Leaf (leaf_summary a) (leaf_items a) (leaf_item_summaries a)))"

definition slice_push_item ::
  "('t, 's) item_ops \<Rightarrow> ('t, 's) slice_aggregate \<Rightarrow> 't \<Rightarrow> 's \<Rightarrow> ('t, 's) slice_aggregate option" where
  "slice_push_item S a x s =
     (if length (leaf_items a) < CAPACITY \<and> length (leaf_item_summaries a) < CAPACITY then
        Some (a\<lparr>leaf_items := leaf_items a @ [x],
                leaf_item_summaries := leaf_item_summaries a @ [s],
                leaf_summary := sadd S (leaf_summary a) s\<rparr>)
      else None)"

definition slice_push_tree ::
  "('t, 's) item_ops \<Rightarrow> ('t, 's) slice_aggregate \<Rightarrow> ('t, 's) node \<Rightarrow> 's \<Rightarrow> ('t, 's) slice_aggregate option" where
  "slice_push_tree S a t s = map_option (\<lambda>t'. a\<lparr>slice_tree := t'\<rparr>) (append_tree S (slice_tree a) t)"

definition slice_ops :: "('t, 's) item_ops \<Rightarrow> ('t, 's, ('t, 's) slice_aggregate) aggregate_ops" where
  "slice_ops S =
     \<lparr>agg_end_leaf = slice_end_leaf S, agg_push_item = slice_push_item S, agg_push_tree = slice_push_tree S\<rparr>"

definition summary_aggregate :: "('s, 'o) dim_ops \<Rightarrow> ('t, 's, 'o) aggregate_ops" where
  "summary_aggregate D' =
     \<lparr>agg_end_leaf = (\<lambda>a. Some a), agg_push_item = (\<lambda>a x s. Some (dadd D' a s)),
      agg_push_tree = (\<lambda>a t s. Some (dadd D' a s))\<rparr>"

subsection \<open>Seeking\<close>

text \<open>
  The loop over the children of an internal node: the position, the index and the aggregate are
  updated for every child the target lies beyond; the first other child is returned.
\<close>

fun seek_children ::
  "('s, 'd) dim_ops \<Rightarrow> ('d \<Rightarrow> bool) \<Rightarrow> ('t, 's, 'a) aggregate_ops \<Rightarrow> 'd \<Rightarrow> nat \<Rightarrow> 'a
     \<Rightarrow> ('t, 's) node list \<Rightarrow> 's list \<Rightarrow> ('d \<times> nat \<times> 'a \<times> ('t, 's) node option) option" where
  "seek_children D sk A pos i a (t # ts) (c # cs) =
     (let child_end = dadd D pos c in
      if sk child_end then
        (case agg_push_tree A a t c of
           None \<Rightarrow> None
         | Some a' \<Rightarrow> seek_children D sk A child_end (i + 1) a' ts cs)
      else Some (pos, i, a, Some t))"
| "seek_children D sk A pos i a _ _ = Some (pos, i, a, None)"

text \<open>The loop over the items of a leaf; the flag says whether it stopped in front of an item.\<close>

fun seek_items ::
  "('s, 'd) dim_ops \<Rightarrow> ('d \<Rightarrow> bool) \<Rightarrow> ('t, 's, 'a) aggregate_ops \<Rightarrow> 'd \<Rightarrow> nat \<Rightarrow> 'a
     \<Rightarrow> 't list \<Rightarrow> 's list \<Rightarrow> ('d \<times> nat \<times> 'a \<times> bool) option" where
  "seek_items D sk A pos i a (x # xs) (s # ss) =
     (let child_end = dadd D pos s in
      if sk child_end then
        (case agg_push_item A a x s of
           None \<Rightarrow> None
         | Some a' \<Rightarrow> seek_items D sk A child_end (i + 1) a' xs ss)
      else Some (pos, i, a, True))"
| "seek_items D sk A pos i a _ _ = Some (pos, i, a, False)"

text \<open>A measure for the loop over the stack: what an entry still has to offer.\<close>

fun tree_weight :: "('t, 's) node \<Rightarrow> nat" where
  "tree_weight (Leaf s xs ss) = 2"
| "tree_weight (Internal h s cs ts) = 2 + sum_list (map tree_weight ts)"

fun entry_weight :: "nat \<Rightarrow> ('t, 's) node \<Rightarrow> nat" where
  "entry_weight i (Leaf s xs ss) = 1"
| "entry_weight i (Internal h s cs ts) = 1 + sum_list (map tree_weight (drop i ts))"

definition stack_weight :: "bool \<Rightarrow> ('t, 's, 'd) stack_entry list \<Rightarrow> nat" where
  "stack_weight ascending stack =
     (case stack of
        [] \<Rightarrow> 0
      | e # es \<Rightarrow>
          entry_weight (if ascending then entry_index e + 1 else entry_index e) (entry_tree e) +
          sum_list (map (\<lambda>e. entry_weight (entry_index e + 1) (entry_tree e)) es))"

lemma stack_weight_simps:
  "stack_weight True es = sum_list (map (\<lambda>e. entry_weight (entry_index e + 1) (entry_tree e)) es)"
  "stack_weight asc (e # es) =
     entry_weight (if asc then entry_index e + 1 else entry_index e) (entry_tree e) + stack_weight True es"
  by (cases es; simp add: stack_weight_def)+

lemma entry_weight_pos: "0 < entry_weight i t"
  by (cases t) auto

lemma entry_weight_0: "entry_weight 0 t < tree_weight t"
  by (cases t) auto

lemma seek_children_Some:
  "seek_children D sk A pos i a ts cs = Some (pos', j, a', Some t) \<Longrightarrow>
     i \<le> j \<and> j - i < length ts \<and> ts ! (j - i) = t"
proof (induction ts arbitrary: cs pos i a)
  case (Cons u ts)
  obtain c cs' where cs: "cs = c # cs'" using Cons.prems by (cases cs) auto
  show ?case
  proof (cases "sk (dadd D pos c)")
    case True
    then obtain a1 where "seek_children D sk A (dadd D pos c) (i + 1) a1 ts cs' = Some (pos', j, a', Some t)"
      using Cons.prems cs by (auto split: option.splits)
    then have "i + 1 \<le> j \<and> j - (i + 1) < length ts \<and> ts ! (j - (i + 1)) = t" by (rule Cons.IH)
    then show ?thesis by (auto simp: nth_Cons')
  next
    case False
    then show ?thesis using Cons.prems cs by auto
  qed
qed simp

lemma seek_children_weight:
  assumes "seek_children D sk A pos i a (drop i ts) cs = Some (pos', j, a', Some t)"
  shows "sum_list (map tree_weight (drop (Suc j) ts)) + entry_weight 0 t <
    sum_list (map tree_weight (drop i ts))"
proof -
  have *: "i \<le> j" "j - i < length (drop i ts)" "drop i ts ! (j - i) = t"
    using seek_children_Some [OF assms] by auto
  then have "drop i ts = take (j - i) (drop i ts) @ t # drop (Suc j) ts"
    using id_take_nth_drop [of "j - i" "drop i ts"] by simp
  then have "sum_list (map tree_weight (drop i ts)) =
      sum_list (map tree_weight (take (j - i) (drop i ts))) + (tree_weight t + sum_list (map tree_weight (drop (Suc j) ts)))"
    by (metis map_append sum_list.append list.simps(9) sum_list.Cons)
  then show ?thesis using entry_weight_0 [of t] by simp
qed

function seek_loop ::
  "('s, 'd) dim_ops \<Rightarrow> ('d \<Rightarrow> bool) \<Rightarrow> ('t, 's, 'a) aggregate_ops \<Rightarrow> bool
     \<Rightarrow> ('t, 's, 'd) stack_entry list \<Rightarrow> 'd \<Rightarrow> 'a \<Rightarrow> (('t, 's, 'd) stack_entry list \<times> 'd \<times> 'a) option" where
  "seek_loop D sk A ascending [] pos a = Some ([], pos, a)"
| "seek_loop D sk A ascending (e # es) pos a =
     (case entry_tree e of
        Internal h s cs ts \<Rightarrow>
          (let i = (if ascending then entry_index e + 1 else entry_index e) in
           if length ts < i \<or> length cs < i then None
           else
             (case seek_children D sk A pos i a (drop i ts) (drop i cs) of
                None \<Rightarrow> None
              | Some (pos', j, a', Some child) \<Rightarrow>
                  seek_loop D sk A False
                    (\<lparr>entry_tree = child, entry_index = 0, entry_pos = pos'\<rparr>
                     # e\<lparr>entry_index := j,
                        entry_pos := (if ascending \<or> j \<noteq> i then pos' else entry_pos e)\<rparr> # es)
                    pos' a'
              | Some (pos', j, a', None) \<Rightarrow> seek_loop D sk A True es pos' a'))
      | Leaf s xs ss \<Rightarrow>
          (let i = entry_index e in
           if length xs < i \<or> length ss < i then None
           else
             (case seek_items D sk A pos i a (drop i xs) (drop i ss) of
                None \<Rightarrow> None
              | Some (pos', j, a', stopped) \<Rightarrow>
                  (case agg_end_leaf A a' of
                     None \<Rightarrow> None
                   | Some a'' \<Rightarrow>
                       if stopped then Some (e\<lparr>entry_index := j\<rparr> # es, pos', a'')
                       else seek_loop D sk A True es pos' a''))))"
  by pat_completeness auto
termination
proof (relation "measure (\<lambda>(D, sk, A, ascending, stack, pos, a). stack_weight ascending stack)", goal_cases)
  case 1
  show ?case by simp
next
  case 2
  then show ?case using entry_weight_pos
    by (auto simp: stack_weight_simps add.commute dest: seek_children_weight)
next
  case 3
  then show ?case using entry_weight_pos
    by (auto simp: stack_weight_simps add.commute dest: seek_children_weight)
next
  case 4
  then show ?case using entry_weight_pos by (auto simp: stack_weight_simps)
qed

declare seek_loop.simps(2) [simp del]

definition seek_internal ::
  "('s, 'd) dim_ops \<Rightarrow> ('t, 's, 'a) aggregate_ops \<Rightarrow> 'd target \<Rightarrow> bias \<Rightarrow> ('t, 's, 'd) cursor \<Rightarrow> 'a
     \<Rightarrow> (bool \<times> ('t, 's, 'd) cursor \<times> 'a) option" where
  "seek_internal D A target bias c a =
     (if target (cur_pos c) = Less then None
      else
        let stack =
              (if did_seek c then cur_stack c
               else \<lparr>entry_tree = cur_tree c, entry_index = 0, entry_pos = dzero D\<rparr> # cur_stack c)
        in (case seek_loop D (beyond target bias) A False stack (cur_pos c) a of
              None \<Rightarrow> None
            | Some (stack', pos, a') \<Rightarrow>
                let c' = c\<lparr>did_seek := True, cur_stack := stack', cur_pos := pos, at_end := (stack' = [])\<rparr>
                in (case (if bias = Left then cursor_item_summary c' else Some None) of
                      None \<Rightarrow> None
                    | Some summary \<Rightarrow>
                        let end' = (case summary of None \<Rightarrow> pos | Some s \<Rightarrow> dadd D pos s)
                        in Some (target end' = Equal, c', a'))))"

definition cursor_seek_forward ::
  "('s, 'd) dim_ops \<Rightarrow> 'd target \<Rightarrow> bias \<Rightarrow> ('t, 's, 'd) cursor \<Rightarrow> (bool \<times> ('t, 's, 'd) cursor) option" where
  "cursor_seek_forward D target bias c =
     map_option (\<lambda>(found, c', a). (found, c')) (seek_internal D unit_aggregate target bias c ())"

definition cursor_seek ::
  "('s, 'd) dim_ops \<Rightarrow> 'd target \<Rightarrow> bias \<Rightarrow> ('t, 's, 'd) cursor \<Rightarrow> (bool \<times> ('t, 's, 'd) cursor) option" where
  "cursor_seek D target bias c =
     map_option (\<lambda>(found, c', a). (found, c'))
       (seek_internal D unit_aggregate target bias (cursor_reset D c) ())"

definition cursor_slice ::
  "('t, 's) item_ops \<Rightarrow> ('s, 'd) dim_ops \<Rightarrow> 'd target \<Rightarrow> bias \<Rightarrow> ('t, 's, 'd) cursor
     \<Rightarrow> (('t, 's) node \<times> ('t, 's, 'd) cursor) option" where
  "cursor_slice S D target bias c =
     (let a = \<lparr>slice_tree = tree_new S, leaf_items = [], leaf_item_summaries = [], leaf_summary = szero S\<rparr>
      in map_option (\<lambda>(found, c', a'). (slice_tree a', c')) (seek_internal D (slice_ops S) target bias c a))"

text \<open>The target \<open>End\<close> lies beyond every position.\<close>

definition end_target :: "'d target" where
  "end_target = (\<lambda>d. Greater)"

definition cursor_suffix ::
  "('t, 's) item_ops \<Rightarrow> ('s, 'd) dim_ops \<Rightarrow> ('t, 's, 'd) cursor
     \<Rightarrow> (('t, 's) node \<times> ('t, 's, 'd) cursor) option" where
  "cursor_suffix S D c = cursor_slice S D end_target Right c"

definition cursor_summary ::
  "('s, 'd) dim_ops \<Rightarrow> ('s, 'o) dim_ops \<Rightarrow> 'd target \<Rightarrow> bias \<Rightarrow> ('t, 's, 'd) cursor
     \<Rightarrow> ('o \<times> ('t, 's, 'd) cursor) option" where
  "cursor_summary D D' target bias c =
     map_option (\<lambda>(found, c', a'). (a', c'))
       (seek_internal D (summary_aggregate D') target bias c (dzero D'))"

subsection \<open>Where a cursor stands\<close>

text \<open>
  \<open>path root es u pre post\<close>: the stack entries \<open>es\<close>, from the deepest up, lead from the root to the subtree
  \<open>u\<close>; \<open>pre\<close> and \<open>post\<close> are the items of the tree before and after it. The position stored in an entry is
  that of the start of the child it points at.
\<close>

inductive path ::
  "('t, 's) item_ops \<Rightarrow> ('s, 'd) dim_ops \<Rightarrow> ('t, 's) node \<Rightarrow> ('t, 's, 'd) stack_entry list
     \<Rightarrow> ('t, 's) node \<Rightarrow> 't list \<Rightarrow> 't list \<Rightarrow> bool" for S D root where
  path_root: "path S D root [] root [] []"
| path_child: "path S D root es (Internal h s cs ts) pre post \<Longrightarrow> i < length ts \<Longrightarrow>
    entry_tree e = Internal h s cs ts \<Longrightarrow> entry_index e = i \<Longrightarrow>
    pre' = pre @ concat (map tree_items (take i ts)) \<Longrightarrow>
    entry_pos e = pos_after S D (dzero D) pre' \<Longrightarrow>
    post' = concat (map tree_items (drop (Suc i) ts)) @ post \<Longrightarrow>
    u = ts ! i \<Longrightarrow> path S D root (e # es) u pre' post'"

inductive_cases path_NilE: "path S D root [] u pre post"
inductive_cases path_ConsE: "path S D root (e # es) u pre post"

lemma nth_split_concat:
  "i < length ts \<Longrightarrow> concat (map f ts) = concat (map f (take i ts)) @ f (ts ! i) @ concat (map f (drop (Suc i) ts))"
  by (subst id_take_nth_drop [of i ts]) auto

lemma path_items: "path S D root es u pre post \<Longrightarrow> tree_items root = pre @ tree_items u @ post"
  by (induction rule: path.induct) (auto simp: nth_split_concat)

lemma path_wf: "path S D root es u pre post \<Longrightarrow> wf_tree S root \<Longrightarrow> wf_tree S u"
  by (induction rule: path.induct) (auto simp: wf_internal wf_children_def)

lemma path_nonempty:
  "path S D root es u pre post \<Longrightarrow> wf_tree S root \<Longrightarrow> es \<noteq> [] \<Longrightarrow> tree_items u \<noteq> []"
  by (erule path.cases) (auto dest: path_wf simp: wf_internal wf_children_def)

lemma path_height:
  "path S D root es u pre post \<Longrightarrow> wf_tree S root \<Longrightarrow> node_height root = node_height u + length es"
proof (induction rule: path.induct)
  case (path_child es h s cs ts pre post i e pre' post' u)
  then have "wf_tree S (Internal h s cs ts)" using path_wf by blast
  then have "node_height (ts ! i) + 1 = h" using path_child by (auto simp: wf_internal wf_children_def)
  then show ?case using path_child by simp
qed simp

text \<open>A stack in front of the items \<open>suf\<close>, with the items \<open>pre\<close> passed: at an item of a leaf, or empty at the end.\<close>

definition located ::
  "('t, 's) item_ops \<Rightarrow> ('s, 'd) dim_ops \<Rightarrow> ('t, 's) node \<Rightarrow> ('t, 's, 'd) stack_entry list
     \<Rightarrow> 't list \<Rightarrow> 't list \<Rightarrow> bool" where
  "located S D root stack pre suf \<longleftrightarrow>
     (case stack of
        [] \<Rightarrow> suf = [] \<and> pre = tree_items root
      | e # es \<Rightarrow>
          (\<exists>s xs ss pre0 post. entry_tree e = Leaf s xs ss \<and> path S D root es (Leaf s xs ss) pre0 post \<and>
             entry_index e < length xs \<and> pre = pre0 @ take (entry_index e) xs \<and>
             suf = drop (entry_index e) xs @ post))"

text \<open>The state of the seek loop: an entry from whose index the loop continues, or, when ascending, an entry
  whose child at the index is done.\<close>

definition seek_state ::
  "('t, 's) item_ops \<Rightarrow> ('s, 'd) dim_ops \<Rightarrow> ('t, 's) node \<Rightarrow> bool \<Rightarrow> ('t, 's, 'd) stack_entry list
     \<Rightarrow> 't list \<Rightarrow> 't list \<Rightarrow> bool" where
  "seek_state S D root ascending stack pre suf \<longleftrightarrow>
     (case stack of
        [] \<Rightarrow> suf = [] \<and> pre = tree_items root
      | e # es \<Rightarrow>
          if ascending then
            (\<exists>u pre0 post. path S D root (e # es) u pre0 post \<and> pre = pre0 @ tree_items u \<and> suf = post)
          else
            (\<exists>pre0 post. path S D root es (entry_tree e) pre0 post \<and>
               (case entry_tree e of
                  Leaf s xs ss \<Rightarrow>
                    entry_index e \<le> length xs \<and> pre = pre0 @ take (entry_index e) xs \<and>
                    suf = drop (entry_index e) xs @ post
                | Internal h s cs ts \<Rightarrow>
                    entry_index e = 0 \<and> pre = pre0 \<and> suf = tree_items (entry_tree e) @ post \<and>
                    entry_pos e = pos_after S D (dzero D) pre)))"

text \<open>
  The interface between the seek loop and what it collects: an aggregate can absorb a whole subtree
  and the items of a leaf without panicking, and what it absorbed is the concatenation.
\<close>

locale cursor_laws = summary_laws S for S :: "('t, 's) item_ops" +
  fixes D :: "('s, 'd) dim_ops"

sublocale seek_laws \<subseteq> cursor_laws S D ..

text \<open>
  A cursor needs the law of a dimension only where it skips a subtree: there the cached summary must lead to the
  position that the items lead to.
\<close>

definition exact_on :: "('t, 's) item_ops \<Rightarrow> ('s, 'd) dim_ops \<Rightarrow> ('d \<Rightarrow> bool) \<Rightarrow> 't set \<Rightarrow> bool" where
  "exact_on S D sk X \<longleftrightarrow>
     (\<forall>u d. wf_tree S u \<and> tree_items u \<noteq> [] \<and> set (tree_items u) \<subseteq> X \<and> sk (dadd D d (node_summary u)) \<longrightarrow>
        dadd D d (node_summary u) = pos_after S D d (tree_items u))"

lemma exact_onD:
  "exact_on S D sk X \<Longrightarrow> wf_tree S u \<Longrightarrow> tree_items u \<noteq> [] \<Longrightarrow> set (tree_items u) \<subseteq> X \<Longrightarrow> sk (dadd D d (node_summary u)) \<Longrightarrow>
    dadd D d (node_summary u) = pos_after S D d (tree_items u)"
  unfolding exact_on_def by blast

lemma exact_on_mono: "exact_on S D sk X \<Longrightarrow> Y \<subseteq> X \<Longrightarrow> exact_on S D sk Y"
  unfolding exact_on_def by blast

context seek_laws
begin

lemma exact: "exact_on S D sk X"
  unfolding exact_on_def using dadd_tree by blast

end

locale seek_aggregate = cursor_laws S D
  for S :: "('t, 's) item_ops" and D :: "('s, 'd) dim_ops" +
  fixes A :: "('t, 's, 'a) aggregate_ops"
    and inv :: "'a \<Rightarrow> bool"
    and absorbs :: "'a \<Rightarrow> 't list \<Rightarrow> 'a \<Rightarrow> bool"
  assumes absorbs_Nil: "inv a \<Longrightarrow> absorbs a [] a"
    and absorbs_append: "absorbs a xs b \<Longrightarrow> absorbs b ys c \<Longrightarrow> absorbs a (xs @ ys) c"
    and absorbs_tree: "inv a \<Longrightarrow> wf_tree S t \<Longrightarrow> tree_items t \<noteq> [] \<Longrightarrow>
      \<exists>b. agg_push_tree A a t (node_summary t) = Some b \<and> inv b \<and> absorbs a (tree_items t) b"
    and absorbs_leaf: "inv a \<Longrightarrow> length xs \<le> CAPACITY \<Longrightarrow>
      \<exists>b c. foldl (\<lambda>o' x. Option.bind o' (\<lambda>a. agg_push_item A a x (ssummary S x))) (Some a) xs = Some b \<and>
        agg_end_leaf A b = Some c \<and> inv c \<and> absorbs a xs c"
begin

lemma seek_children_spec:
  assumes "wf_children S h us" "inv a" "target_sorted S D sk pos (concat (map tree_items us) @ post)"
    and "exact_on S D sk (set (concat (map tree_items us)))"
  shows "\<exists>k pos' a'. k \<le> length us \<and> inv a' \<and> absorbs a (concat (map tree_items (take k us))) a' \<and>
    pos' = pos_after S D pos (concat (map tree_items (take k us))) \<and>
    (\<forall>e \<in> set (ends S D pos (concat (map tree_items (take k us)))). sk e) \<and>
    seek_children D sk A pos i a us (map node_summary us) =
      Some (pos', i + k, a', if k < length us then Some (us ! k) else None)"
  using assms
proof (induction us arbitrary: pos i a)
  case Nil
  then show ?case using absorbs_Nil by auto
next
  case (Cons u us)
  have u: "wf_tree S u" "tree_items u \<noteq> []" using Cons.prems by auto
  let ?e = "pos_after S D pos (tree_items u)"
  have sorted: "target_sorted S D sk pos (tree_items u)"
      "target_sorted S D sk ?e (concat (map tree_items us) @ post)"
    using Cons.prems(3) target_sorted_append [of S D sk pos "tree_items u"] by auto
  have ex: "exact_on S D sk (set (tree_items u))" "exact_on S D sk (set (concat (map tree_items us)))"
    using Cons.prems(4) by (auto elim!: exact_on_mono)
  show ?case
  proof (cases "sk (dadd D pos (node_summary u))")
    case sk: True
    have e: "dadd D pos (node_summary u) = ?e" using exact_onD [OF ex(1) u subset_refl sk] .
    have True: "sk ?e" using sk e by simp
    obtain b where b: "agg_push_tree A a u (node_summary u) = Some b" "inv b" "absorbs a (tree_items u) b"
      using absorbs_tree [OF Cons.prems(2) u] by blast
    from Cons.IH [OF _ b(2) sorted(2) ex(2), of "i + 1"] Cons.prems(1) obtain k pos' a' where k:
      "k \<le> length us" "inv a'" "absorbs b (concat (map tree_items (take k us))) a'"
      "pos' = pos_after S D ?e (concat (map tree_items (take k us)))"
      "\<forall>e \<in> set (ends S D ?e (concat (map tree_items (take k us)))). sk e"
      "seek_children D sk A ?e (i + 1) b us (map node_summary us) =
        Some (pos', i + 1 + k, a', if k < length us then Some (us ! k) else None)"
      by auto
    have "\<forall>e \<in> set (ends S D pos (tree_items u)). sk e"
      by (rule target_sorted_skip_all [OF sorted(1) u(2) True])
    then show ?thesis
      using k b True u absorbs_append [OF b(3) k(3)]
      by (intro exI [of _ "Suc k"] exI [of _ pos'] exI [of _ a']) (auto simp: e ends_append)
  next
    case False
    then show ?thesis
      using u Cons.prems(2) absorbs_Nil
      by (intro exI [of _ 0] exI [of _ pos] exI [of _ a]) auto
  qed
qed

lemma seek_items_spec:
  assumes "seek_list S D sk pos xs = (l, p, r)"
  shows "seek_items D sk A pos i a xs (map (ssummary S) xs) =
    map_option (\<lambda>a'. (p, i + length l, a', r \<noteq> []))
      (foldl (\<lambda>o' x. Option.bind o' (\<lambda>a. agg_push_item A a x (ssummary S x))) (Some a) l)"
  using assms
proof (induction xs arbitrary: pos i a l)
  case (Cons x xs)
  have none: "foldl (\<lambda>o' x. Option.bind o' (\<lambda>a. agg_push_item A a x (ssummary S x))) None ys = None" for ys
    by (induction ys) auto
  show ?case
    using Cons.prems Cons.IH [of "dadd D pos (ssummary S x)"]
    by (auto simp: Let_def none split: if_splits prod.splits option.splits)
qed auto


lemma seek_list_stopped:
  "seek_list S D sk pos xs = (l, p, x # r) \<Longrightarrow> seek_list S D sk pos (xs @ ys) = (l, p, x # r @ ys)"
  by (induction xs arbitrary: pos l) (auto simp: Let_def split: if_splits prod.splits)

lemma seek_state_pop:
  assumes "path S D root es u pre0 post"
  shows "seek_state S D root True es (pre0 @ tree_items u) post"
  using assms path_items [OF assms]
  by (cases es) (auto simp: seek_state_def elim: path_NilE)

lemma seek_state_child:
  assumes "path S D root es (Internal h s cs ts) pre0 post" "i < length ts"
    and "entry_tree e = Internal h s cs ts" "entry_index e = i"
    and "entry_pos e = pos_after S D (dzero D) (pre0 @ concat (map tree_items (take i ts)))"
    and "entry_tree f = ts ! i" "entry_index f = 0" "entry_pos f = entry_pos e"
  shows "seek_state S D root False (f # e # es)
    (pre0 @ concat (map tree_items (take i ts))) (concat (map tree_items (drop i ts)) @ post)"
proof -
  have "path S D root (e # es) (ts ! i) (pre0 @ concat (map tree_items (take i ts)))
      (concat (map tree_items (drop (Suc i) ts)) @ post)"
    using assms by (intro path_child) auto
  moreover have "concat (map tree_items (drop i ts)) = tree_items (ts ! i) @ concat (map tree_items (drop (Suc i) ts))"
    using assms(2) by (simp add: Cons_nth_drop_Suc [symmetric])
  ultimately show ?thesis
    using assms by (cases "ts ! i") (auto simp: seek_state_def)
qed

lemma seek_state_internal:
  assumes "seek_state S D root asc (e # es) pre suf" "entry_tree e = Internal h s cs ts"
    and "i = (if asc then entry_index e + 1 else entry_index e)"
  shows "\<exists>pre0 post. path S D root es (Internal h s cs ts) pre0 post \<and> i \<le> length ts \<and>
    pre = pre0 @ concat (map tree_items (take i ts)) \<and> suf = concat (map tree_items (drop i ts)) @ post \<and>
    (asc \<or> i = 0 \<and> entry_pos e = pos_after S D (dzero D) pre)"
  using assms
  by (auto simp: seek_state_def take_Suc_conv_app_nth elim!: path_ConsE split: if_splits)

definition seek_result where
  "seek_result root sk pre suf pos a res \<longleftrightarrow>
     (\<exists>stack' a' l p r. seek_list S D sk pos suf = (l, p, r) \<and> res = Some (stack', p, a') \<and> inv a' \<and>
        absorbs a l a' \<and> located S D root stack' (pre @ l) r)"

lemma seek_result_skip:
  assumes "seek_result root sk (pre @ ys) suf (pos_after S D pos ys) b res" "absorbs a ys b"
    and "\<forall>e \<in> set (ends S D pos ys). sk e"
  shows "seek_result root sk pre (ys @ suf) pos a res"
  using assms seek_list_skip [OF assms(3), of suf] absorbs_append [OF assms(2)]
  unfolding seek_result_def by fastforce

text \<open>One iteration of the loop that continues: it passes the items \<open>ys\<close>.\<close>

definition seek_step where
  "seek_step root sk asc stack pre suf pos a \<longleftrightarrow>
     (\<exists>asc' stack' ys suf' b. suf = ys @ suf' \<and> seek_state S D root asc' stack' (pre @ ys) suf' \<and> inv b \<and>
        absorbs a ys b \<and> (\<forall>e \<in> set (ends S D pos ys). sk e) \<and>
        stack_weight asc' stack' < stack_weight asc stack \<and>
        seek_loop D sk A asc stack pos a = seek_loop D sk A asc' stack' (pos_after S D pos ys) b)"

lemma seek_step_internal:
  assumes "wf_tree S root" "seek_state S D root asc (e # es) pre suf" "inv a"
    and "pos = pos_after S D (dzero D) pre" "target_sorted S D sk pos suf" "exact_on S D sk (set suf)"
    and Internal: "entry_tree e = Internal h s cs ts"
  shows "seek_step root sk asc (e # es) pre suf pos a"
proof -
  define i where "i = (if asc then entry_index e + 1 else entry_index e)"
  obtain pre0 post where st: "path S D root es (Internal h s cs ts) pre0 post" "i \<le> length ts"
      "pre = pre0 @ concat (map tree_items (take i ts))" "suf = concat (map tree_items (drop i ts)) @ post"
      "asc \<or> i = 0 \<and> entry_pos e = pos_after S D (dzero D) pre"
    using seek_state_internal [OF assms(2) Internal i_def] by blast
  have wf: "wf_children S h ts" "cs = map node_summary ts"
    using path_wf [OF st(1) assms(1)] by (auto simp: wf_internal)
  have "wf_children S h (drop i ts)" using wf(1) by (rule wf_children_drop)
  moreover have "exact_on S D sk (set (concat (map tree_items (drop i ts))))" using assms(6) st(4) by (auto elim!: exact_on_mono)
  ultimately obtain k pos' a' where k:
    "k \<le> length (drop i ts)" "inv a'" "absorbs a (concat (map tree_items (take k (drop i ts)))) a'"
    "pos' = pos_after S D pos (concat (map tree_items (take k (drop i ts))))"
    "\<forall>e \<in> set (ends S D pos (concat (map tree_items (take k (drop i ts))))). sk e"
    "seek_children D sk A pos i a (drop i ts) (drop i cs) =
      Some (pos', i + k, a', if k < length (drop i ts) then Some (drop i ts ! k) else None)"
    using seek_children_spec [of h "drop i ts" a sk pos post i] assms(3,5) st(4) by (auto simp: wf(2) drop_map)
  define ys where "ys = concat (map tree_items (take k (drop i ts)))"
  define suf' where "suf' = concat (map tree_items (drop (i + k) ts)) @ post"
  have "drop i ts = take k (drop i ts) @ drop (i + k) ts"
    by (metis append_take_drop_id drop_drop add.commute)
  then have "concat (map tree_items (drop i ts)) = ys @ concat (map tree_items (drop (i + k) ts))"
    unfolding ys_def by (metis concat_append map_append)
  then have suf: "suf = ys @ suf'" by (simp add: st(4) suf'_def)
  have pre: "pre @ ys = pre0 @ concat (map tree_items (take (i + k) ts))"
    by (simp add: st(3) ys_def take_add)
  have pos': "pos' = pos_after S D (dzero D) (pre @ ys)" using k(4) assms(4) by (simp add: ys_def)
  have in_range: "\<not> (length ts < i \<or> length cs < i)" using st(2) wf(2) by simp
  show ?thesis
  proof (cases "k < length (drop i ts)")
    case True
    define e' where "e' = e\<lparr>entry_index := i + k, entry_pos := pos'\<rparr>"
    define f where "f = \<lparr>entry_tree = ts ! (i + k), entry_index = 0, entry_pos = pos'\<rparr>"
    have "(if asc \<or> i + k \<noteq> i then pos' else entry_pos e) = pos'"
      using st(5) pos' assms(4) by (auto simp: ys_def)
    then have loop: "seek_loop D sk A asc (e # es) pos a = seek_loop D sk A False (f # e' # es) pos' a'"
      using k(6) True in_range Internal
      by (subst seek_loop.simps) (simp add: i_def [symmetric] Let_def e'_def f_def)
    have weight: "stack_weight False (f # e' # es) < stack_weight asc (e # es)"
      using seek_children_weight [of D sk A pos i a ts "drop i cs" pos' "i + k" a' "ts ! (i + k)"] k(6) True Internal
      by (auto simp: stack_weight_simps i_def [symmetric] e'_def f_def)
    have "seek_state S D root False (f # e' # es) (pre @ ys) suf'"
      unfolding pre suf'_def using True st(1) Internal pos'
      by (intro seek_state_child) (auto simp: e'_def f_def pre [symmetric])
    with loop weight suf k(2-5) show ?thesis unfolding seek_step_def
      by (intro exI [of _ False] exI [of _ "f # e' # es"] exI [of _ ys] exI [of _ suf'] exI [of _ a'])
        (simp add: ys_def)
  next
    case False
    then have "i + k = length ts" using k(1) st(2) by simp
    then have "pre @ ys = pre0 @ tree_items (Internal h s cs ts)" "suf' = post"
      by (simp_all add: pre suf'_def)
    then have "seek_state S D root True es (pre @ ys) suf'" using seek_state_pop [OF st(1)] by simp
    moreover have "stack_weight True es < stack_weight asc (e # es)"
      by (simp add: stack_weight_simps entry_weight_pos)
    moreover have "seek_loop D sk A asc (e # es) pos a = seek_loop D sk A True es pos' a'"
      using k(6) False in_range Internal by (subst seek_loop.simps) (simp add: i_def [symmetric] Let_def)
    ultimately show ?thesis using suf k(2-5) unfolding seek_step_def
      by (intro exI [of _ True] exI [of _ es] exI [of _ ys] exI [of _ suf'] exI [of _ a']) (simp add: ys_def)
  qed
qed

lemma seek_step_leaf:
  assumes "wf_tree S root" "seek_state S D root asc (e # es) pre suf" "inv a"
    and Leaf: "entry_tree e = Leaf s xs ss"
  shows "seek_step root sk asc (e # es) pre suf pos a \<or>
    seek_result root sk pre suf pos a (seek_loop D sk A asc (e # es) pos a)"
proof -
  define i where "i = entry_index e"
  obtain pre0 post where st: "path S D root es (Leaf s xs ss) pre0 post" "i \<le> length xs"
      "pre = pre0 @ take i xs" "suf = drop i xs @ post"
    using assms(2) Leaf by (auto simp: seek_state_def i_def split: if_splits elim!: path_ConsE)
  have wf: "ss = map (ssummary S) xs" "length xs \<le> CAPACITY"
    using path_wf [OF st(1) assms(1)] by auto
  obtain l p r where lpr: "seek_list S D sk pos (drop i xs) = (l, p, r)" using prod_cases3 by blast
  have parts: "drop i xs = l @ r" "p = pos_after S D pos l" using seek_list_parts [OF lpr] by auto
  have "length l \<le> CAPACITY" using wf(2) parts(1) by (metis length_append length_drop add_leD1 diff_le_self le_trans)
  then obtain b c where c: "foldl (\<lambda>o' x. Option.bind o' (\<lambda>a. agg_push_item A a x (ssummary S x))) (Some a) l = Some b"
      "agg_end_leaf A b = Some c" "inv c" "absorbs a l c"
    using absorbs_leaf [OF assms(3)] by blast
  have loop: "seek_loop D sk A asc (e # es) pos a =
      (if r \<noteq> [] then Some (e\<lparr>entry_index := i + length l\<rparr> # es, p, c) else seek_loop D sk A True es p c)"
    using seek_items_spec [OF lpr, of i a] st(2) c Leaf
    by (subst seek_loop.simps) (simp add: wf(1) i_def [symmetric] drop_map Let_def)
  show ?thesis
  proof (cases r)
    case Nil
    then have "l = drop i xs" "\<forall>e \<in> set (ends S D pos l). sk e" using parts seek_list_all lpr by fastforce+
    moreover have "seek_state S D root True es (pre @ l) post"
      using seek_state_pop [OF st(1)] st(3) \<open>l = drop i xs\<close> by simp
    moreover have "stack_weight True es < stack_weight asc (e # es)"
      by (simp add: stack_weight_simps entry_weight_pos)
    ultimately show ?thesis
      using loop Nil st(4) c parts(2) unfolding seek_step_def
      by (intro disjI1 exI [of _ True] exI [of _ es] exI [of _ l] exI [of _ post] exI [of _ c]) auto
  next
    case (Cons x r')
    have "i + length l < length xs" using parts(1) Cons st(2)
      by (metis add_less_cancel_left append_Nil2 length_append length_drop le_add_diff_inverse length_greater_0_conv list.discI less_add_same_cancel1)
    moreover have "take (i + length l) xs = take i xs @ l" using parts(1) by (simp add: take_add)
    moreover have "drop (i + length l) xs = r"
      using parts(1) drop_drop [of "length l" i xs] by (simp add: add.commute)
    ultimately have "located S D root (e\<lparr>entry_index := i + length l\<rparr> # es) (pre @ l) (r @ post)"
      using st Leaf by (auto simp: located_def)
    then show ?thesis
      using loop Cons c seek_list_stopped [OF lpr [unfolded Cons], of post] st(4)
      unfolding seek_result_def by auto
  qed
qed

lemma seek_loop_spec:
  assumes "wf_tree S root" "seek_state S D root asc stack pre suf" "inv a"
    and "pos = pos_after S D (dzero D) pre" "target_sorted S D sk pos suf" "exact_on S D sk (set suf)"
  shows "seek_result root sk pre suf pos a (seek_loop D sk A asc stack pos a)"
  using assms(2-)
proof (induction "stack_weight asc stack" arbitrary: asc stack pos a pre suf rule: less_induct)
  case less
  have "seek_step root sk asc stack pre suf pos a \<or>
      seek_result root sk pre suf pos a (seek_loop D sk A asc stack pos a)"
  proof (cases stack)
    case Nil
    then show ?thesis using less.prems absorbs_Nil
      by (auto simp: seek_result_def seek_state_def located_def)
  next
    case (Cons e es)
    then show ?thesis
      using seek_step_internal [OF assms(1) _ less.prems(2-5)] seek_step_leaf [OF assms(1) _ less.prems(2)] less.prems(1)
      by (cases "entry_tree e") auto
  qed
  then show ?case
  proof
    assume "seek_step root sk asc stack pre suf pos a"
    then obtain asc' stack' ys suf' b where st: "suf = ys @ suf'" "seek_state S D root asc' stack' (pre @ ys) suf'"
        "inv b" "absorbs a ys b" "\<forall>e \<in> set (ends S D pos ys). sk e"
        "stack_weight asc' stack' < stack_weight asc stack"
        "seek_loop D sk A asc stack pos a = seek_loop D sk A asc' stack' (pos_after S D pos ys) b"
      unfolding seek_step_def by blast
    have "seek_result root sk (pre @ ys) suf' (pos_after S D pos ys) b (seek_loop D sk A asc' stack' (pos_after S D pos ys) b)"
      using less.prems(3-5) st(1) target_sorted_append [of S D sk pos ys suf']
      by (intro less.hyps [OF st(6) st(2,3)]) (auto elim!: exact_on_mono)
    then show ?thesis using seek_result_skip st by simp
  qed
qed

text \<open>A target beyond every position passes everything, whatever the positions are.\<close>

lemma seek_all_children:
  assumes "wf_children S h us" "inv a"
  shows "\<exists>p b. seek_children D (\<lambda>d. True) A pos i a us (map node_summary us) = Some (p, i + length us, b, None) \<and>
    inv b \<and> absorbs a (concat (map tree_items us)) b"
  using assms
proof (induction us arbitrary: pos i a)
  case (Cons u us)
  obtain b where b: "agg_push_tree A a u (node_summary u) = Some b" "inv b" "absorbs a (tree_items u) b"
    using absorbs_tree [OF Cons.prems(2), of u] Cons.prems(1) by auto
  then show ?case using Cons.IH [OF _ b(2), of "dadd D pos (node_summary u)" "i + 1"] Cons.prems(1) absorbs_append [OF b(3)] by auto
qed (simp add: absorbs_Nil)

lemma seek_all_items: "seek_list S D (\<lambda>d. True) pos xs = (xs, pos_after S D pos xs, [])"
  by (induction xs arbitrary: pos) auto

lemma seek_all_ascending:
  assumes "path S D root es u pre post" "wf_tree S root" "inv a"
  shows "\<exists>p b. seek_loop D (\<lambda>d. True) A True es pos a = Some ([], p, b) \<and> inv b \<and> absorbs a post b"
  using assms
proof (induction es arbitrary: u pre post pos a)
  case Nil
  then show ?case using absorbs_Nil by (auto elim!: path_NilE)
next
  case (Cons e es)
  obtain h s cs ts pre0 post0 where e: "path S D root es (Internal h s cs ts) pre0 post0" "entry_index e < length ts"
    "entry_tree e = Internal h s cs ts" "post = concat (map tree_items (drop (Suc (entry_index e)) ts)) @ post0"
    using Cons.prems(1) by (auto elim!: path_ConsE)
  let ?us = "drop (Suc (entry_index e)) ts"
  have wf: "wf_children S h ts" "cs = map node_summary ts" using path_wf [OF e(1) Cons.prems(2)] by (auto simp: wf_internal)
  obtain p b where b: "seek_children D (\<lambda>d. True) A pos (Suc (entry_index e)) a ?us (map node_summary ?us) =
      Some (p, Suc (entry_index e) + length ?us, b, None)" "inv b" "absorbs a (concat (map tree_items ?us)) b"
    using seek_all_children [OF wf_children_drop [OF wf(1)] Cons.prems(3), where i = "Suc (entry_index e)" and pos = pos] by blast
  obtain p' b' where b': "seek_loop D (\<lambda>d. True) A True es p b = Some ([], p', b')" "inv b'" "absorbs b post0 b'"
    using Cons.IH [OF e(1) Cons.prems(2) b(2)] by blast
  have "seek_loop D (\<lambda>d. True) A True (e # es) pos a = seek_loop D (\<lambda>d. True) A True es p b"
    using b(1) e(2,3) wf(2) by (subst seek_loop.simps) (simp add: drop_map)
  then show ?case using b' absorbs_append [OF b(3)] e(4) by auto
qed

lemma seek_all:
  assumes "located S D root stack pre suf" "wf_tree S root" "inv a"
  shows "\<exists>p b. seek_loop D (\<lambda>d. True) A False stack pos a = Some ([], p, b) \<and> inv b \<and> absorbs a suf b"
proof (cases stack)
  case Nil
  then show ?thesis using assms absorbs_Nil by (auto simp: located_def)
next
  case (Cons e es)
  obtain s xs ss pre0 post where e: "entry_tree e = Leaf s xs ss" "path S D root es (Leaf s xs ss) pre0 post"
      "entry_index e < length xs" "suf = drop (entry_index e) xs @ post"
    using assms(1) Cons by (auto simp: located_def)
  have wf: "ss = map (ssummary S) xs" "length xs \<le> CAPACITY" using path_wf [OF e(2) assms(2)] by auto
  let ?l = "drop (entry_index e) xs"
  have "length ?l \<le> CAPACITY" using wf(2) by simp
  then obtain b c where c: "foldl (\<lambda>o' x. Option.bind o' (\<lambda>a. agg_push_item A a x (ssummary S x))) (Some a) ?l = Some b"
      "agg_end_leaf A b = Some c" "inv c" "absorbs a ?l c"
    using absorbs_leaf [OF assms(3)] by blast
  have "seek_loop D (\<lambda>d. True) A False (e # es) pos a = seek_loop D (\<lambda>d. True) A True es (pos_after S D pos ?l) c"
    using seek_items_spec [OF seek_all_items [of pos ?l], of "entry_index e" a] c e(1,3)
    by (subst seek_loop.simps) (simp add: wf(1) drop_map Let_def)
  then show ?thesis using seek_all_ascending [OF e(2) assms(2) c(3)] absorbs_append [OF c(4)] e(4) Cons by fastforce
qed

end

subsection \<open>The three aggregates\<close>

definition slice_inv :: "('t, 's) item_ops \<Rightarrow> ('t, 's) slice_aggregate \<Rightarrow> bool" where
  "slice_inv S a \<longleftrightarrow> wf_tree S (slice_tree a) \<and> leaf_items a = [] \<and> leaf_item_summaries a = [] \<and>
     leaf_summary a = szero S"

definition slice_absorbs :: "('t, 's) slice_aggregate \<Rightarrow> 't list \<Rightarrow> ('t, 's) slice_aggregate \<Rightarrow> bool" where
  "slice_absorbs a xs b \<longleftrightarrow> tree_items (slice_tree b) = tree_items (slice_tree a) @ xs"

context summary_laws
begin

lemma slice_push_items:
  assumes "length (leaf_items a) + length xs \<le> CAPACITY" "leaf_item_summaries a = map (ssummary S) (leaf_items a)"
    and "leaf_summary a = sum_of S (leaf_item_summaries a)"
  shows "foldl (\<lambda>o' x. Option.bind o' (\<lambda>a. agg_push_item (slice_ops S) a x (ssummary S x))) (Some a) xs =
    Some (a\<lparr>leaf_items := leaf_items a @ xs, leaf_item_summaries := map (ssummary S) (leaf_items a @ xs),
      leaf_summary := sum_of S (map (ssummary S) (leaf_items a @ xs))\<rparr>)"
  using assms
proof (induction xs arbitrary: a)
  case (Cons x xs)
  then show ?case
    by (simp add: slice_ops_def slice_push_item_def) (simp add: sum_of_def)
qed simp

lemma slice_end_leaf_spec:
  assumes "wf_tree S (slice_tree a)" "length (leaf_items a) \<le> CAPACITY"
    "leaf_item_summaries a = map (ssummary S) (leaf_items a)" "leaf_summary a = sum_of S (leaf_item_summaries a)"
  shows "\<exists>b. slice_end_leaf S a = Some b \<and> slice_inv S b \<and>
    tree_items (slice_tree b) = tree_items (slice_tree a) @ leaf_items a"
  using append_tree_spec [OF assms(1), of "Leaf (leaf_summary a) (leaf_items a) (leaf_item_summaries a)"] assms
  by (auto simp: slice_end_leaf_def slice_inv_def)

end

sublocale cursor_laws \<subseteq> unit_agg: seek_aggregate S D unit_aggregate "\<lambda>_. True" "\<lambda>_ _ _. True"
proof unfold_locales
  fix a :: unit and xs
  have "foldl (\<lambda>o' x. Option.bind o' (\<lambda>a. agg_push_item unit_aggregate a x (ssummary S x))) (Some a) xs = Some a"
    by (induction xs) (auto simp: unit_aggregate_def)
  then show "\<exists>b c. foldl (\<lambda>o' x. Option.bind o' (\<lambda>a. agg_push_item unit_aggregate a x (ssummary S x))) (Some a) xs = Some b \<and>
      agg_end_leaf unit_aggregate b = Some c \<and> True \<and> True"
    by (simp add: unit_aggregate_def)
qed (auto simp: unit_aggregate_def)

sublocale cursor_laws \<subseteq> slice_agg: seek_aggregate S D "slice_ops S" "slice_inv S" slice_absorbs
proof unfold_locales
  fix a t assume "slice_inv S a" "wf_tree S t"
  then show "\<exists>b. agg_push_tree (slice_ops S) a t (node_summary t) = Some b \<and> slice_inv S b \<and>
      slice_absorbs a (tree_items t) b"
    using append_tree_spec [of "slice_tree a" t]
    by (auto simp: slice_ops_def slice_push_tree_def slice_inv_def slice_absorbs_def)
next
  fix a :: "('t, 's) slice_aggregate" and xs :: "'t list" assume *: "slice_inv S a" "length xs \<le> CAPACITY"
  let ?b = "a\<lparr>leaf_items := leaf_items a @ xs, leaf_item_summaries := map (ssummary S) (leaf_items a @ xs),
      leaf_summary := sum_of S (map (ssummary S) (leaf_items a @ xs))\<rparr>"
  have "\<exists>c. slice_end_leaf S ?b = Some c \<and> slice_inv S c \<and> tree_items (slice_tree c) = tree_items (slice_tree a) @ xs"
    using slice_end_leaf_spec [of ?b] * by (simp add: slice_inv_def)
  then show "\<exists>b c. foldl (\<lambda>o' x. Option.bind o' (\<lambda>a. agg_push_item (slice_ops S) a x (ssummary S x))) (Some a) xs = Some b \<and>
      agg_end_leaf (slice_ops S) b = Some c \<and> slice_inv S c \<and> slice_absorbs a xs c"
    using slice_push_items [of a xs] * by (simp add: slice_inv_def slice_ops_def slice_absorbs_def sum_of_def)
qed (auto simp: slice_absorbs_def)

locale summary_seek = seek_laws S D
  for S :: "('t, 's) item_ops" and D :: "('s, 'd) dim_ops" +
  fixes D' :: "('s, 'o) dim_ops"
  assumes lawful_output: "lawful_dim S D'"

sublocale summary_seek \<subseteq> out: seek_laws S D'
  by unfold_locales (rule lawful_output)

sublocale summary_seek \<subseteq> sum_agg: seek_aggregate S D "summary_aggregate D'" "\<lambda>_. True"
  "\<lambda>a xs b. b = pos_after S D' a xs"
proof unfold_locales
  fix a xs
  have "foldl (\<lambda>o' x. Option.bind o' (\<lambda>a. agg_push_item (summary_aggregate D') a x (ssummary S x))) (Some a) xs =
      Some (pos_after S D' a xs)"
    by (induction xs arbitrary: a) (auto simp: summary_aggregate_def)
  then show "\<exists>b c. foldl (\<lambda>o' x. Option.bind o' (\<lambda>a. agg_push_item (summary_aggregate D') a x (ssummary S x))) (Some a) xs = Some b \<and>
      agg_end_leaf (summary_aggregate D') b = Some c \<and> True \<and> c = pos_after S D' a xs"
    by (simp add: summary_aggregate_def)
qed (auto simp: summary_aggregate_def out.dadd_tree)

subsection \<open>Positioned cursors\<close>

definition cursor_at ::
  "('t, 's) item_ops \<Rightarrow> ('s, 'd) dim_ops \<Rightarrow> ('t, 's, 'd) cursor \<Rightarrow> 't list \<Rightarrow> 't list \<Rightarrow> bool" where
  "cursor_at S D c pre suf \<longleftrightarrow>
     wf_tree S (cur_tree c) \<and> did_seek c \<and> located S D (cur_tree c) (cur_stack c) pre suf \<and>
     cur_pos c = pos_after S D (dzero D) pre \<and> (at_end c \<longleftrightarrow> suf = [])"

definition cursor_fresh :: "('t, 's) item_ops \<Rightarrow> ('s, 'd) dim_ops \<Rightarrow> ('t, 's, 'd) cursor \<Rightarrow> bool" where
  "cursor_fresh S D c \<longleftrightarrow>
     wf_tree S (cur_tree c) \<and> \<not> did_seek c \<and> cur_stack c = [] \<and> cur_pos c = dzero D \<and>
     at_end c = is_empty (cur_tree c)"

text \<open>In front of the items \<open>suf\<close>, whether or not the cursor was positioned before.\<close>

definition cursor_before ::
  "('t, 's) item_ops \<Rightarrow> ('s, 'd) dim_ops \<Rightarrow> ('t, 's, 'd) cursor \<Rightarrow> 't list \<Rightarrow> 't list \<Rightarrow> bool" where
  "cursor_before S D c pre suf \<longleftrightarrow>
     cursor_at S D c pre suf \<or> (cursor_fresh S D c \<and> pre = [] \<and> suf = tree_items (cur_tree c))"

lemma located_items: "located S D root stack pre suf \<Longrightarrow> tree_items root = pre @ suf"
  by (auto simp: located_def split: list.splits dest: path_items)

lemma located_stack: "located S D root stack pre suf \<Longrightarrow> stack = [] \<longleftrightarrow> suf = []"
  by (auto simp: located_def split: list.splits)

lemma located_seek_state: "located S D root stack pre suf \<Longrightarrow> seek_state S D root False stack pre suf"
  by (auto simp: located_def seek_state_def split: list.splits)

lemma seek_state_fresh:
  "seek_state S D t False [\<lparr>entry_tree = t, entry_index = 0, entry_pos = dzero D\<rparr>] [] (tree_items t)"
proof -
  have "path S D t [] t [] []" by (rule path_root)
  then show ?thesis by (cases t) (auto simp: seek_state_def)
qed

lemma cursor_before_new:
  "wf_tree S t \<Longrightarrow> cursor_before S D (cursor_new D t) [] (tree_items t)"
  by (simp add: cursor_before_def cursor_fresh_def cursor_new_def)

lemma cursor_item_located:
  assumes "wf_tree S (cur_tree c)" "did_seek c" "located S D (cur_tree c) (cur_stack c) pre suf"
  shows "cursor_item c = Some (head_opt suf)"
    and "cursor_item_summary c = Some (map_option (ssummary S) (head_opt suf))"
proof -
  have "cursor_item c = Some (head_opt suf) \<and> cursor_item_summary c = Some (map_option (ssummary S) (head_opt suf))"
  proof (cases "cur_stack c")
    case (Cons e es)
    then obtain s xs ss pre0 post where e: "entry_tree e = Leaf s xs ss" "entry_index e < length xs"
        "path S D (cur_tree c) es (Leaf s xs ss) pre0 post" "suf = drop (entry_index e) xs @ post"
      using assms(3) by (auto simp: located_def)
    have "ss = map (ssummary S) xs" using path_wf [OF e(3) assms(1)] by simp
    then show ?thesis using e assms(2) Cons
      by (auto simp: cursor_item_def cursor_item_summary_def head_opt_def hd_append hd_drop_conv_nth)
  qed (use assms in \<open>auto simp: cursor_item_def cursor_item_summary_def located_def head_opt_def\<close>)
  then show "cursor_item c = Some (head_opt suf)"
    "cursor_item_summary c = Some (map_option (ssummary S) (head_opt suf))" by auto
qed

lemma cursor_at_items: "cursor_at S D c pre suf \<Longrightarrow> tree_items (cur_tree c) = pre @ suf"
  unfolding cursor_at_def by (blast dest: located_items)

context seek_aggregate
begin

lemma seek_internal_spec:
  assumes "cursor_before S D c pre suf" "target (cur_pos c) \<noteq> Less" "inv a"
    and "target_sorted S D (beyond target bias) (cur_pos c) suf"
    and lpr: "seek_list S D (beyond target bias) (cur_pos c) suf = (l, p, r)" and ex: "exact_on S D (beyond target bias) (set suf)"
  shows "\<exists>c' a'. seek_internal D A target bias c a =
      Some (target (if bias = Left \<and> r \<noteq> [] then dadd D p (ssummary S (hd r)) else p) = Equal, c', a') \<and>
    cursor_at S D c' (pre @ l) r \<and> cur_tree c' = cur_tree c \<and> inv a' \<and> absorbs a l a'"
proof -
  define stack where "stack = (if did_seek c then cur_stack c
    else \<lparr>entry_tree = cur_tree c, entry_index = 0, entry_pos = dzero D\<rparr> # cur_stack c)"
  have wf: "wf_tree S (cur_tree c)" and pos: "cur_pos c = pos_after S D (dzero D) pre"
    using assms(1) by (auto simp: cursor_before_def cursor_at_def cursor_fresh_def)
  have "seek_state S D (cur_tree c) False stack pre suf"
    using assms(1) located_seek_state seek_state_fresh
    by (auto simp: cursor_before_def cursor_at_def cursor_fresh_def stack_def)
  from seek_loop_spec [OF wf this assms(3) pos assms(4) ex] lpr obtain stack' a' where loop:
    "seek_loop D (beyond target bias) A False stack (cur_pos c) a = Some (stack', p, a')"
    "inv a'" "absorbs a l a'" "located S D (cur_tree c) stack' (pre @ l) r"
    by (auto simp: seek_result_def)
  let ?c = "c\<lparr>did_seek := True, cur_stack := stack', cur_pos := p, at_end := (stack' = [])\<rparr>"
  have "p = pos_after S D (dzero D) (pre @ l)" using seek_list_parts [OF lpr] pos by simp
  then have at: "cursor_at S D ?c (pre @ l) r"
    using loop(4) wf located_stack [OF loop(4)] by (simp add: cursor_at_def)
  then have "cursor_item_summary ?c = Some (map_option (ssummary S) (head_opt r))"
    using cursor_item_located(2) [of S ?c D "pre @ l" r] by (simp add: cursor_at_def)
  then show ?thesis
    using loop at assms(2)
    by (auto simp: seek_internal_def stack_def [symmetric] head_opt_def Let_def)
qed

end


context cursor_laws
begin

lemma cursor_slice_exact:
  assumes "cursor_before S D c pre suf" "target (cur_pos c) \<noteq> Less"
    and "target_sorted S D (beyond target bias) (cur_pos c) suf"
    and "seek_list S D (beyond target bias) (cur_pos c) suf = (l, p, r)"
    and "exact_on S D (beyond target bias) (set suf)"
  shows "\<exists>t c'. cursor_slice S D target bias c = Some (t, c') \<and> wf_tree S t \<and> tree_items t = l \<and>
    cursor_at S D c' (pre @ l) r \<and> cur_tree c' = cur_tree c"
proof -
  let ?a = "\<lparr>slice_tree = tree_new S, leaf_items = [], leaf_item_summaries = [], leaf_summary = szero S\<rparr>"
  have "slice_inv S ?a" by (simp add: slice_inv_def)
  from slice_agg.seek_internal_spec [OF assms(1,2) this assms(3-5)]
  show ?thesis by (auto simp: cursor_slice_def slice_inv_def slice_absorbs_def)
qed

lemma cursor_suffix_at:
  assumes "cursor_at S D c pre suf"
  shows "\<exists>t c'. cursor_suffix S D c = Some (t, c') \<and> wf_tree S t \<and> tree_items t = suf"
proof -
  let ?a = "\<lparr>slice_tree = tree_new S, leaf_items = [], leaf_item_summaries = [], leaf_summary = szero S\<rparr>"
  have "slice_inv S ?a" by (simp add: slice_inv_def)
  moreover have "beyond (\<lambda>d :: 'd. Greater) Right = (\<lambda>d. True)" by (auto simp: beyond_def)
  moreover have "wf_tree S (cur_tree c)" "did_seek c" "located S D (cur_tree c) (cur_stack c) pre suf" using assms by (auto simp: cursor_at_def)
  ultimately show ?thesis
    using slice_agg.seek_all [of "cur_tree c" "cur_stack c" pre suf ?a "cur_pos c"]
    by (auto simp: cursor_suffix_def cursor_slice_def seek_internal_def end_target_def slice_inv_def slice_absorbs_def Let_def)
qed

end

context seek_laws
begin

lemmas cursor_slice_spec = cursor_slice_exact [OF _ _ _ _ exact]

lemma end_target_sorted: "target_sorted S D (beyond end_target bias) pos xs"
proof -
  have "sorted_wrt (\<lambda>a b. True) ys" for ys :: "'d list" by (induction ys) auto
  then show ?thesis by (simp add: target_sorted_def beyond_def end_target_def)
qed

lemma seek_end: "seek_list S D (beyond end_target bias) pos xs = (xs, pos_after S D pos xs, [])"
  by (induction xs arbitrary: pos) (auto simp: beyond_def end_target_def)

lemma cursor_suffix_spec:
  assumes "cursor_before S D c pre suf"
  shows "\<exists>t c'. cursor_suffix S D c = Some (t, c') \<and> wf_tree S t \<and> tree_items t = suf \<and>
    cursor_at S D c' (pre @ suf) [] \<and> cur_tree c' = cur_tree c"
  unfolding cursor_suffix_def
  by (rule cursor_slice_spec [OF assms _ end_target_sorted seek_end]) (simp add: end_target_def)

lemma cursor_seek_forward_spec:
  assumes "cursor_before S D c pre suf" "target (cur_pos c) \<noteq> Less"
    and "target_sorted S D (beyond target bias) (cur_pos c) suf"
    and "seek_list S D (beyond target bias) (cur_pos c) suf = (l, p, r)"
  shows "\<exists>c'. cursor_seek_forward D target bias c =
      Some (target (if bias = Left \<and> r \<noteq> [] then dadd D p (ssummary S (hd r)) else p) = Equal, c') \<and>
    cursor_at S D c' (pre @ l) r \<and> cur_tree c' = cur_tree c"
  using unit_agg.seek_internal_spec [OF assms(1,2) TrueI assms(3,4) exact, of "()"]
  by (auto simp: cursor_seek_forward_def)

lemma cursor_seek_spec:
  assumes "wf_tree S (cur_tree c)" "target (dzero D) \<noteq> Less"
    and "target_sorted S D (beyond target bias) (dzero D) (tree_items (cur_tree c))"
    and "seek_list S D (beyond target bias) (dzero D) (tree_items (cur_tree c)) = (l, p, r)"
  shows "\<exists>c'. cursor_seek D target bias c =
      Some (target (if bias = Left \<and> r \<noteq> [] then dadd D p (ssummary S (hd r)) else p) = Equal, c') \<and>
    cursor_at S D c' l r \<and> cur_tree c' = cur_tree c"
proof -
  have "cursor_before S D (cursor_reset D c) [] (tree_items (cur_tree c))"
    using assms(1) by (simp add: cursor_before_def cursor_fresh_def cursor_reset_def)
  from unit_agg.seek_internal_spec [OF this _ TrueI _ _ exact, of target bias l p r "()"] assms
  show ?thesis by (auto simp: cursor_seek_def cursor_reset_def)
qed

end

context summary_seek
begin

lemma cursor_summary_spec:
  assumes "cursor_before S D c pre suf" "target (cur_pos c) \<noteq> Less"
    and "target_sorted S D (beyond target bias) (cur_pos c) suf"
    and "seek_list S D (beyond target bias) (cur_pos c) suf = (l, p, r)"
  shows "\<exists>c'. cursor_summary D D' target bias c = Some (pos_after S D' (dzero D') l, c') \<and>
    cursor_at S D c' (pre @ l) r \<and> cur_tree c' = cur_tree c"
  using sum_agg.seek_internal_spec [OF assms(1,2) TrueI assms(3,4) exact, of "dzero D'"]
  by (auto simp: cursor_summary_def)

end

subsection \<open>Searching forward\<close>

text \<open>The inner loops of \<open>search_forward\<close>: skip summaries the filter rejects, adding them to the
  position of the entry and of the cursor.\<close>

fun skip_rejected ::
  "('s, 'd) dim_ops \<Rightarrow> ('s \<Rightarrow> bool) \<Rightarrow> nat \<Rightarrow> 'd \<Rightarrow> 'd \<Rightarrow> 's list \<Rightarrow> nat \<times> 'd \<times> 'd" where
  "skip_rejected D F i epos pos [] = (i, epos, pos)"
| "skip_rejected D F i epos pos (s # ss) =
     (if F s then (i, epos, pos) else skip_rejected D F (i + 1) (dadd D epos s) (dadd D pos s) ss)"

lemma skip_rejected_index: "skip_rejected D F i epos pos ss = (j, epos', pos') \<Longrightarrow> i \<le> j"
  by (induction ss arbitrary: i epos pos) (force split: if_splits)+

lemma weight_descend:
  assumes "i \<le> j" "j < length ts"
  shows "sum_list (map tree_weight (drop (Suc j) ts)) + entry_weight 0 (ts ! j) <
    sum_list (map tree_weight (drop i ts))"
proof -
  have "drop i ts = take (j - i) (drop i ts) @ drop j ts"
    using assms append_take_drop_id [of "j - i" "drop i ts"] by simp
  then have "sum_list (map tree_weight (drop i ts)) =
      sum_list (map tree_weight (take (j - i) (drop i ts))) + sum_list (map tree_weight (drop j ts))"
    by (metis map_append sum_list.append)
  moreover have "drop j ts = ts ! j # drop (Suc j) ts" using assms by (simp add: Cons_nth_drop_Suc)
  ultimately show ?thesis using entry_weight_0 [of "ts ! j"] by simp
qed

function search_loop ::
  "('s, 'd) dim_ops \<Rightarrow> ('s \<Rightarrow> bool) \<Rightarrow> bool \<Rightarrow> ('t, 's, 'd) stack_entry list \<Rightarrow> 'd
     \<Rightarrow> (('t, 's, 'd) stack_entry list \<times> 'd) option" where
  "search_loop D F descend [] pos = Some ([], pos)"
| "search_loop D F descend (e # es) pos =
     (case entry_tree e of
        Internal h s cs ts \<Rightarrow>
          (let i = (if descend then entry_index e else entry_index e + 1);
               ep = (if descend then entry_pos e else pos);
               (j, ep', pos') = skip_rejected D F i ep pos (drop i cs)
           in if j < length ts then
                search_loop D F True
                  (\<lparr>entry_tree = ts ! j, entry_index = 0, entry_pos = pos'\<rparr>
                   # e\<lparr>entry_index := j, entry_pos := ep'\<rparr> # es) pos'
              else search_loop D F False es pos')
      | Leaf s xs ss \<Rightarrow>
          (if \<not> descend \<and> length ss \<le> entry_index e then None
           else
             let i = (if descend then entry_index e else entry_index e + 1);
                 ep = (if descend then entry_pos e else dadd D (entry_pos e) (ss ! entry_index e));
                 p = (if descend then pos else dadd D pos (ss ! entry_index e));
                 (j, ep', pos') = skip_rejected D F i ep p (drop i ss)
             in if j < length ss then Some (e\<lparr>entry_index := j, entry_pos := ep'\<rparr> # es, pos')
                else search_loop D F False es pos'))"
  by pat_completeness auto
termination
proof (relation "measure (\<lambda>(D, F, descend, stack, pos). stack_weight (\<not> descend) stack)", goal_cases)
  case 1
  show ?case by simp
next
  case 2
  then show ?case
    by (auto simp: stack_weight_simps add.commute dest!: skip_rejected_index [OF sym] weight_descend)
next
  case 3
  then show ?case using entry_weight_pos by (auto simp: stack_weight_simps)
next
  case 4
  then show ?case using entry_weight_pos by (auto simp: stack_weight_simps)
qed

declare search_loop.simps(2) [simp del]

definition search_forward ::
  "('s, 'd) dim_ops \<Rightarrow> ('s \<Rightarrow> bool) \<Rightarrow> ('t, 's, 'd) cursor \<Rightarrow> ('t, 's, 'd) cursor option" where
  "search_forward D F c =
     (let push = (cur_stack c = [] \<and> \<not> at_end c);
          stack = (if push then [\<lparr>entry_tree = cur_tree c, entry_index = 0, entry_pos = dzero D\<rparr>] else cur_stack c);
          sought = (cur_stack c = [] \<or> did_seek c)
      in map_option
           (\<lambda>(stack', pos'). c\<lparr>cur_stack := stack', cur_pos := pos', did_seek := sought,
              at_end := (if stack' = [] then True else at_end c)\<rparr>)
           (search_loop D F push stack (cur_pos c)))"

definition cursor_next ::
  "('s, 'd) dim_ops \<Rightarrow> ('t, 's, 'd) cursor \<Rightarrow> ('t, 's, 'd) cursor option" where
  "cursor_next D c = search_forward D (\<lambda>s. True) c"


text \<open>A filter is sound for the tree if it accepts every node that has an accepted item below it.\<close>

definition filter_sound :: "('t, 's) item_ops \<Rightarrow> ('s \<Rightarrow> bool) \<Rightarrow> bool" where
  "filter_sound S F \<longleftrightarrow> (\<forall>t. wf_tree S t \<longrightarrow> (\<exists>x \<in> set (tree_items t). F (ssummary S x)) \<longrightarrow> F (node_summary t))"

text \<open>The subtrees that it rejects are skipped by their summaries.\<close>

definition skip_sound :: "('t, 's) item_ops \<Rightarrow> ('s, 'd) dim_ops \<Rightarrow> ('s \<Rightarrow> bool) \<Rightarrow> bool" where
  "skip_sound S D F \<longleftrightarrow> filter_sound S F \<and>
     (\<forall>u d. wf_tree S u \<and> tree_items u \<noteq> [] \<and> \<not> F (node_summary u) \<longrightarrow> dadd D d (node_summary u) = pos_after S D d (tree_items u))"

lemma skip_sound_True: "skip_sound S D (\<lambda>s. True)"
  by (simp add: skip_sound_def filter_sound_def)

context cursor_laws
begin

lemma skip_rejected_children:
  assumes "skip_sound S D F" "wf_children S h us"
  shows "\<exists>k \<le> length us. (\<forall>x \<in> set (concat (map tree_items (take k us))). \<not> F (ssummary S x)) \<and>
    skip_rejected D F i ep pos (map node_summary us) =
      (i + k, pos_after S D ep (concat (map tree_items (take k us))),
       pos_after S D pos (concat (map tree_items (take k us))))"
  using assms(2)
proof (induction us arbitrary: i ep pos)
  case (Cons u us)
  have u: "wf_tree S u" "tree_items u \<noteq> []" using Cons.prems by auto
  show ?case
  proof (cases "F (node_summary u)")
    case False
    obtain k where k: "k \<le> length us" "\<forall>x \<in> set (concat (map tree_items (take k us))). \<not> F (ssummary S x)"
      "skip_rejected D F (i + 1) (dadd D ep (node_summary u)) (dadd D pos (node_summary u)) (map node_summary us) =
       (i + 1 + k, pos_after S D (dadd D ep (node_summary u)) (concat (map tree_items (take k us))),
        pos_after S D (dadd D pos (node_summary u)) (concat (map tree_items (take k us))))"
      using Cons.IH [of "i + 1" "dadd D ep (node_summary u)" "dadd D pos (node_summary u)"] Cons.prems by auto
    have "\<forall>x \<in> set (tree_items u). \<not> F (ssummary S x)"
      using assms(1) u(1) False by (auto simp: skip_sound_def filter_sound_def)
    moreover have "dadd D d (node_summary u) = pos_after S D d (tree_items u)" for d
      using assms(1) u False unfolding skip_sound_def by blast
    ultimately show ?thesis using k False by (intro exI [of _ "Suc k"]) auto
  qed auto
qed simp

lemma skip_rejected_items:
  "skip_rejected D F i ep pos (map (ssummary S) xs) =
     (let l = takeWhile (\<lambda>x. \<not> F (ssummary S x)) xs
      in (i + length l, pos_after S D ep l, pos_after S D pos l))"
  by (induction xs arbitrary: i ep pos) (auto simp: Let_def)

definition search_result where
  "search_result root F pre suf res \<longleftrightarrow>
     (\<exists>stack'. res = Some (stack', pos_after S D (dzero D) (pre @ takeWhile (\<lambda>x. \<not> F (ssummary S x)) suf)) \<and>
        located S D root stack' (pre @ takeWhile (\<lambda>x. \<not> F (ssummary S x)) suf) (dropWhile (\<lambda>x. \<not> F (ssummary S x)) suf))"

lemma search_result_skip:
  assumes "search_result root F (pre @ ys) suf res" "\<forall>x \<in> set ys. \<not> F (ssummary S x)"
  shows "search_result root F pre (ys @ suf) res"
  using assms unfolding search_result_def by simp

definition search_step where
  "search_step root F descend stack pre suf pos \<longleftrightarrow>
     (\<exists>descend' stack' ys suf'. suf = ys @ suf' \<and> seek_state S D root (\<not> descend') stack' (pre @ ys) suf' \<and>
        (\<forall>x \<in> set ys. \<not> F (ssummary S x)) \<and> stack_weight (\<not> descend') stack' < stack_weight (\<not> descend) stack \<and>
        search_loop D F descend stack pos = search_loop D F descend' stack' (pos_after S D pos ys))"

lemma search_step_internal:
  assumes "wf_tree S root" "seek_state S D root (\<not> descend) (e # es) pre suf" "skip_sound S D F"
    and "pos = pos_after S D (dzero D) pre" and Internal: "entry_tree e = Internal h s cs ts"
  shows "search_step root F descend (e # es) pre suf pos"
proof -
  define i where "i = (if descend then entry_index e else entry_index e + 1)"
  have i': "i = (if \<not> descend then entry_index e + 1 else entry_index e)" by (simp add: i_def)
  obtain pre0 post where st: "path S D root es (Internal h s cs ts) pre0 post" "i \<le> length ts"
      "pre = pre0 @ concat (map tree_items (take i ts))" "suf = concat (map tree_items (drop i ts)) @ post"
      "\<not> descend \<or> i = 0 \<and> entry_pos e = pos_after S D (dzero D) pre"
    using seek_aggregate.seek_state_internal [OF unit_agg.seek_aggregate_axioms assms(2) Internal i'] by blast
  have wf: "wf_children S h ts" "cs = map node_summary ts"
    using path_wf [OF st(1) assms(1)] by (auto simp: wf_internal)
  have ep: "(if descend then entry_pos e else pos) = pos" using st(5) assms(4) by auto
  from skip_rejected_children [OF assms(3) wf_children_drop [OF wf(1)], of i i pos pos] obtain k where k:
    "k \<le> length (drop i ts)" "\<forall>x \<in> set (concat (map tree_items (take k (drop i ts)))). \<not> F (ssummary S x)"
    "skip_rejected D F i pos pos (drop i cs) =
      (i + k, pos_after S D pos (concat (map tree_items (take k (drop i ts)))),
       pos_after S D pos (concat (map tree_items (take k (drop i ts)))))"
    by (auto simp: wf(2) drop_map)
  define ys where "ys = concat (map tree_items (take k (drop i ts)))"
  define pos' where "pos' = pos_after S D pos ys"
  define suf' where "suf' = concat (map tree_items (drop (i + k) ts)) @ post"
  have "drop i ts = take k (drop i ts) @ drop (i + k) ts"
    by (metis append_take_drop_id drop_drop add.commute)
  then have "concat (map tree_items (drop i ts)) = ys @ concat (map tree_items (drop (i + k) ts))"
    unfolding ys_def by (metis concat_append map_append)
  then have suf: "suf = ys @ suf'" by (simp add: st(4) suf'_def)
  have pre: "pre @ ys = pre0 @ concat (map tree_items (take (i + k) ts))"
    by (simp add: st(3) ys_def take_add)
  have pos': "pos' = pos_after S D (dzero D) (pre @ ys)" using assms(4) by (simp add: pos'_def)
  have loop: "search_loop D F descend (e # es) pos =
     (if i + k < length ts then search_loop D F True
        (\<lparr>entry_tree = ts ! (i + k), entry_index = 0, entry_pos = pos'\<rparr> # e\<lparr>entry_index := i + k, entry_pos := pos'\<rparr> # es) pos'
      else search_loop D F False es pos')"
    using k(3) ep Internal
    by (subst search_loop.simps) (simp add: i_def [symmetric] Let_def ys_def [symmetric] pos'_def [symmetric])
  show ?thesis
  proof (cases "i + k < length ts")
    case True
    define e' where "e' = e\<lparr>entry_index := i + k, entry_pos := pos'\<rparr>"
    define f where "f = \<lparr>entry_tree = ts ! (i + k), entry_index = 0, entry_pos = pos'\<rparr>"
    have "stack_weight False (f # e' # es) < stack_weight (\<not> descend) (e # es)"
      using weight_descend [of i "i + k" ts] True Internal
      by (auto simp: stack_weight_simps i_def e'_def f_def)
    moreover have "seek_state S D root False (f # e' # es) (pre @ ys) suf'"
      unfolding pre suf'_def using True st(1) Internal pos'
      by (intro unit_agg.seek_state_child) (auto simp: e'_def f_def pre [symmetric])
    ultimately show ?thesis using loop True suf k(2) unfolding search_step_def
      by (intro exI [of _ True] exI [of _ "f # e' # es"] exI [of _ ys] exI [of _ suf'])
        (simp add: ys_def pos'_def e'_def f_def)
  next
    case False
    then have "i + k = length ts" using k(1) st(2) by simp
    then have "pre @ ys = pre0 @ tree_items (Internal h s cs ts)" "suf' = post" by (simp_all add: pre suf'_def)
    then have "seek_state S D root True es (pre @ ys) suf'" using unit_agg.seek_state_pop [OF st(1)] by simp
    moreover have "stack_weight True es < stack_weight (\<not> descend) (e # es)"
      by (simp add: stack_weight_simps entry_weight_pos)
    ultimately show ?thesis using loop False suf k(2) unfolding search_step_def
      by (intro exI [of _ False] exI [of _ es] exI [of _ ys] exI [of _ suf']) (simp add: ys_def pos'_def)
  qed
qed

lemma search_step_leaf:
  assumes "wf_tree S root" "seek_state S D root False (e # es) pre suf"
    and "pos = pos_after S D (dzero D) pre" and Leaf: "entry_tree e = Leaf s xs ss"
  shows "search_step root F True (e # es) pre suf pos \<or>
    search_result root F pre suf (search_loop D F True (e # es) pos)"
proof -
  define i where "i = entry_index e"
  obtain pre0 post where st: "path S D root es (Leaf s xs ss) pre0 post" "i \<le> length xs"
      "pre = pre0 @ take i xs" "suf = drop i xs @ post"
    using assms(2) Leaf by (auto simp: seek_state_def i_def)
  have ss: "ss = map (ssummary S) xs" using path_wf [OF st(1) assms(1)] by auto
  define l where "l = takeWhile (\<lambda>x. \<not> F (ssummary S x)) (drop i xs)"
  have loop: "search_loop D F True (e # es) pos =
     (if i + length l < length xs
      then Some (e\<lparr>entry_index := i + length l, entry_pos := pos_after S D (entry_pos e) l\<rparr> # es, pos_after S D pos l)
      else search_loop D F False es (pos_after S D pos l))"
    using Leaf by (subst search_loop.simps)
      (simp add: i_def [symmetric] ss drop_map skip_rejected_items Let_def l_def [symmetric])
  have lp: "\<forall>x \<in> set l. \<not> F (ssummary S x)" unfolding l_def by (auto dest: set_takeWhileD)
  show ?thesis
  proof (cases "i + length l < length xs")
    case False
    then have len: "length l = length (drop i xs)"
      using length_takeWhile_le [of "\<lambda>x. \<not> F (ssummary S x)" "drop i xs"] st(2) by (simp add: l_def)
    then have l: "l = drop i xs"
      unfolding l_def by (metis takeWhile_eq_all_conv takeWhile_dropWhile_id append_eq_conv_conj take_all order_refl)
    then have "seek_state S D root True es (pre @ l) post"
      using unit_agg.seek_state_pop [OF st(1)] st(3) by simp
    moreover have "stack_weight True es < stack_weight False (e # es)"
      by (simp add: stack_weight_simps entry_weight_pos)
    ultimately show ?thesis using loop False st(4) lp l unfolding search_step_def
      by (intro disjI1 exI [of _ False] exI [of _ es] exI [of _ l] exI [of _ post]) simp
  next
    case True
    define r where "r = drop (length l) (drop i xs)"
    have lr: "drop i xs = l @ r"
      unfolding r_def l_def by (metis append_eq_conv_conj takeWhile_dropWhile_id)
    have r: "r \<noteq> []" using True by (simp add: r_def)
    have "r = dropWhile (\<lambda>x. \<not> F (ssummary S x)) (drop i xs)"
      using lr takeWhile_dropWhile_id [of "\<lambda>x. \<not> F (ssummary S x)" "drop i xs"] l_def by (metis same_append_eq)
    then have "F (ssummary S (hd r))" using r hd_dropWhile by blast
    then have tw: "takeWhile (\<lambda>x. \<not> F (ssummary S x)) suf = l" "dropWhile (\<lambda>x. \<not> F (ssummary S x)) suf = r @ post"
      using lp r unfolding st(4) lr by (cases r; simp)+
    have "take (i + length l) xs = take i xs @ l" using lr by (simp add: take_add)
    moreover have "drop (i + length l) xs = r" by (simp add: r_def add.commute)
    ultimately have "located S D root (e\<lparr>entry_index := i + length l, entry_pos := pos_after S D (entry_pos e) l\<rparr> # es) (pre @ l) (r @ post)"
      using st Leaf True by (auto simp: located_def)
    then show ?thesis using loop True assms(3) unfolding search_result_def tw by auto
  qed
qed

lemma search_loop_spec:
  assumes "wf_tree S root" "skip_sound S D F" "seek_state S D root (\<not> descend) stack pre suf"
    and "pos = pos_after S D (dzero D) pre"
  shows "search_result root F pre suf (search_loop D F descend stack pos)"
  using assms(3-)
proof (induction "stack_weight (\<not> descend) stack" arbitrary: descend stack pos pre suf rule: less_induct)
  case less
  have "search_step root F descend stack pre suf pos \<or>
      search_result root F pre suf (search_loop D F descend stack pos)"
  proof (cases stack)
    case Nil
    then show ?thesis using less.prems by (auto simp: search_result_def seek_state_def located_def)
  next
    case (Cons e es)
    show ?thesis
    proof (cases "entry_tree e")
      case (Internal h s cs ts)
      then show ?thesis using search_step_internal [OF assms(1) _ assms(2) less.prems(2)] less.prems(1) Cons by auto
    next
      case (Leaf s xs ss)
      then have "descend"
        using less.prems(1) Cons by (cases descend) (auto simp: seek_state_def elim!: path_ConsE)
      then show ?thesis using search_step_leaf [OF assms(1) _ less.prems(2) Leaf] less.prems(1) Cons by auto
    qed
  qed
  then show ?case
  proof
    assume "search_step root F descend stack pre suf pos"
    then obtain descend' stack' ys suf' where st: "suf = ys @ suf'" "seek_state S D root (\<not> descend') stack' (pre @ ys) suf'"
        "\<forall>x \<in> set ys. \<not> F (ssummary S x)" "stack_weight (\<not> descend') stack' < stack_weight (\<not> descend) stack"
        "search_loop D F descend stack pos = search_loop D F descend' stack' (pos_after S D pos ys)"
      unfolding search_step_def by blast
    have "search_result root F (pre @ ys) suf' (search_loop D F descend' stack' (pos_after S D pos ys))"
      using less.prems(2) by (intro less.hyps [OF st(4) st(2)]) simp
    then show ?thesis using search_result_skip st by simp
  qed
qed

lemma search_loop_over_item:
  assumes "wf_tree S root" "located S D root (e # es) pre suf" "pos = pos_after S D (dzero D) pre"
  shows "\<exists>x suf' f. suf = x # suf' \<and> seek_state S D root False (f # es) (pre @ [x]) suf' \<and>
    search_loop D F False (e # es) pos = search_loop D F True (f # es) (pos_after S D pos [x])"
proof -
  obtain s xs ss pre0 post where e: "entry_tree e = Leaf s xs ss" "path S D root es (Leaf s xs ss) pre0 post"
      "entry_index e < length xs" "pre = pre0 @ take (entry_index e) xs" "suf = drop (entry_index e) xs @ post"
    using assms(2) by (auto simp: located_def)
  have ss: "ss = map (ssummary S) xs" using path_wf [OF e(2) assms(1)] by simp
  define f where "f = e\<lparr>entry_index := entry_index e + 1, entry_pos := dadd D (entry_pos e) (ss ! entry_index e)\<rparr>"
  have "search_loop D F False (e # es) pos = search_loop D F True (f # es) (dadd D pos (ss ! entry_index e))"
    using e(1,3) by (subst (1 2) search_loop.simps) (simp add: f_def ss Let_def split: prod.split)
  moreover have "seek_state S D root False (f # es) (pre @ [xs ! entry_index e]) (drop (Suc (entry_index e)) xs @ post)"
    using e by (auto simp: seek_state_def f_def take_Suc_conv_app_nth)
  moreover have "suf = xs ! entry_index e # drop (Suc (entry_index e)) xs @ post"
    using e(3,5) by (simp add: Cons_nth_drop_Suc [symmetric])
  ultimately show ?thesis using e(3) ss by (intro exI [of _ "xs ! entry_index e"] exI [of _ "drop (Suc (entry_index e)) xs @ post"] exI [of _ f]) simp
qed

lemma search_forward_exact:
  assumes "skip_sound S D F" "cursor_before S D c pre suf"
    and rest: "rest = (if did_seek c then tl suf else suf)" "passed = (if did_seek c then take 1 suf else [])"
  shows "\<exists>c'. search_forward D F c = Some c' \<and> cur_tree c' = cur_tree c \<and>
    cursor_at S D c' (pre @ passed @ takeWhile (\<lambda>x. \<not> F (ssummary S x)) rest) (dropWhile (\<lambda>x. \<not> F (ssummary S x)) rest)"
proof -
  have wf: "wf_tree S (cur_tree c)" and pos: "cur_pos c = pos_after S D (dzero D) pre"
    using assms(2) by (auto simp: cursor_before_def cursor_at_def cursor_fresh_def)
  let ?push = "cur_stack c = [] \<and> \<not> at_end c"
  define stack where "stack = (if ?push then [\<lparr>entry_tree = cur_tree c, entry_index = 0, entry_pos = dzero D\<rparr>] else cur_stack c)"
  have "search_result (cur_tree c) F (pre @ passed) rest (search_loop D F ?push stack (cur_pos c))"
  proof (cases "did_seek c")
    case True
    then have at: "located S D (cur_tree c) (cur_stack c) pre suf" "at_end c \<longleftrightarrow> suf = []"
      using assms(2) by (auto simp: cursor_before_def cursor_at_def cursor_fresh_def)
    show ?thesis
    proof (cases "cur_stack c")
      case Nil
      then show ?thesis using at rest pos located_stack [OF at(1)]
        by (auto simp: stack_def search_result_def located_def)
    next
      case (Cons e es)
      from search_loop_over_item [OF wf at(1) [unfolded Cons] pos, of F] obtain x suf' f where
        "suf = x # suf'" "seek_state S D (cur_tree c) False (f # es) (pre @ [x]) suf'"
        "search_loop D F False (e # es) (cur_pos c) = search_loop D F True (f # es) (pos_after S D (cur_pos c) [x])"
        by blast
      then show ?thesis
        using search_loop_spec [OF wf assms(1), of True "f # es" "pre @ [x]" suf'] True rest pos Cons
        by (simp add: stack_def)
    qed
  next
    case False
    then have fresh: "cur_stack c = []" "at_end c \<longleftrightarrow> tree_items (cur_tree c) = []" "pre = []" "suf = tree_items (cur_tree c)"
      using assms(2) wf is_empty_iff by (auto simp: cursor_before_def cursor_at_def cursor_fresh_def)
    show ?thesis
    proof (cases "at_end c")
      case True
      then show ?thesis using fresh rest False pos by (auto simp: stack_def search_result_def located_def)
    next
      case F: False
      then show ?thesis
        using search_loop_spec [OF wf assms(1), of True stack "[]" suf] seek_state_fresh [of S D "cur_tree c"] fresh rest False pos
        by (simp add: stack_def)
    qed
  qed
  then obtain stack' where loop:
    "search_loop D F ?push stack (cur_pos c) =
       Some (stack', pos_after S D (dzero D) ((pre @ passed) @ takeWhile (\<lambda>x. \<not> F (ssummary S x)) rest))"
    "located S D (cur_tree c) stack' ((pre @ passed) @ takeWhile (\<lambda>x. \<not> F (ssummary S x)) rest)
       (dropWhile (\<lambda>x. \<not> F (ssummary S x)) rest)"
    unfolding search_result_def by blast
  have "at_end c \<longrightarrow> suf = []"
    using assms(2) wf is_empty_iff by (auto simp: cursor_before_def cursor_at_def cursor_fresh_def)
  then have "at_end c \<longrightarrow> stack' = []" using located_stack [OF loop(2)] rest(1) by auto
  have "cur_stack c = [] \<or> did_seek c"
    using assms(2) by (auto simp: cursor_before_def cursor_at_def cursor_fresh_def)
  then show ?thesis
    using loop wf located_stack [OF loop(2)] \<open>at_end c \<longrightarrow> stack' = []\<close>
    by (auto simp: search_forward_def stack_def [symmetric] cursor_at_def Let_def)
qed

lemma cursor_next_spec:
  assumes "cursor_at S D c pre suf"
  shows "\<exists>c'. cursor_next D c = Some c' \<and> cur_tree c' = cur_tree c \<and> cursor_at S D c' (pre @ take 1 suf) (tl suf)"
  using search_forward_exact [OF skip_sound_True, of c pre suf] assms
  by (cases "tl suf") (auto simp: cursor_next_def cursor_before_def cursor_at_def)

lemma cursor_next_fresh:
  assumes "cursor_fresh S D c"
  shows "\<exists>c'. cursor_next D c = Some c' \<and> cur_tree c' = cur_tree c \<and> cursor_at S D c' [] (tree_items (cur_tree c))"
  using search_forward_exact [OF skip_sound_True, of c "[]" "tree_items (cur_tree c)"] assms
  by (cases "tree_items (cur_tree c)") (auto simp: cursor_next_def cursor_before_def cursor_fresh_def)

end

context seek_laws
begin

lemma filter_sound_True: "filter_sound S (\<lambda>s. True)"
  by (simp add: filter_sound_def)

lemma skip_sound: "filter_sound S F \<Longrightarrow> skip_sound S D F"
  using dadd_tree by (auto simp: skip_sound_def)

lemmas search_forward_spec = search_forward_exact [OF skip_sound]

end

end
