(* ===== verification/Keyed_Tree.thy ===== *)
theory Keyed_Tree
  imports Sum_Cursor "HOL-Library.Multiset"
begin

text \<open>
  Trees of items that carry a key (\<open>KeyedItem\<close> in \<open>crates/sum_tree/src/sum_tree.rs\<close>):
  \<open>insert_or_replace\<close>, \<open>remove\<close>, the batched \<open>edit\<close> and \<open>get\<close>. Their specification is the
  corresponding operation on a list of items in strictly increasing order of keys.
\<close>

subsection \<open>Operations\<close>

text \<open>\<open>Edit::Insert\<close> and \<open>Edit::Remove\<close>, with the key an edit refers to.\<close>

datatype ('t, 'k) edit = Insert 't | Remove 'k

fun edit_key :: "('t \<Rightarrow> 'k) \<Rightarrow> ('t, 'k) edit \<Rightarrow> 'k" where
  "edit_key key (Insert x) = key x"
| "edit_key key (Remove k) = k"

text \<open>
  \<open>cursor.item()\<close> compared with a key: the replaced item and the cursor, advanced past it if it matches.
\<close>

definition take_matching ::
  "('s, 'k) dim_ops \<Rightarrow> ('t \<Rightarrow> 'k) \<Rightarrow> 'k \<Rightarrow> ('t, 's, 'k) cursor \<Rightarrow> ('t option \<times> ('t, 's, 'k) cursor) option" where
  "take_matching D key k c =
     (case cursor_item c of
        None \<Rightarrow> None
      | Some None \<Rightarrow> Some (None, c)
      | Some (Some x) \<Rightarrow>
          if key x = k then map_option (\<lambda>c'. (Some x, c')) (cursor_next D c) else Some (None, c))"

definition insert_or_replace ::
  "('t, 's) item_ops \<Rightarrow> ('s, 'k::linorder) dim_ops \<Rightarrow> ('t \<Rightarrow> 'k) \<Rightarrow> ('t, 's) node \<Rightarrow> 't
     \<Rightarrow> (('t, 's) node \<times> 't option) option" where
  "insert_or_replace S D key t item =
     Option.bind (cursor_slice S D (ord_target (key item)) Left (cursor_new D t)) (\<lambda>(new_tree, c).
     Option.bind (take_matching D key (key item) c) (\<lambda>(replaced, c).
     Option.bind (push S new_tree item) (\<lambda>new_tree.
     Option.bind (cursor_suffix S D c) (\<lambda>(suffix, c).
     map_option (\<lambda>new_tree. (new_tree, replaced)) (append_tree S new_tree suffix)))))"

definition remove_key ::
  "('t, 's) item_ops \<Rightarrow> ('s, 'k::linorder) dim_ops \<Rightarrow> ('t \<Rightarrow> 'k) \<Rightarrow> ('t, 's) node \<Rightarrow> 'k
     \<Rightarrow> (('t, 's) node \<times> 't option) option" where
  "remove_key S D key t k =
     Option.bind (cursor_slice S D (ord_target k) Left (cursor_new D t)) (\<lambda>(new_tree, c).
     Option.bind (take_matching D key k c) (\<lambda>(removed, c).
     Option.bind (cursor_suffix S D c) (\<lambda>(suffix, c).
     map_option (\<lambda>new_tree. (new_tree, removed)) (append_tree S new_tree suffix))))"

text \<open>The loop of \<open>edit\<close> over the sorted edits: the cursor, the tree built so far, the buffered items
  and the removed items.\<close>

fun edit_loop ::
  "('t, 's) item_ops \<Rightarrow> ('s, 'k::linorder) dim_ops \<Rightarrow> ('t \<Rightarrow> 'k) \<Rightarrow> ('t, 'k) edit list
     \<Rightarrow> ('t, 's, 'k) cursor \<Rightarrow> ('t, 's) node \<Rightarrow> 't list \<Rightarrow> 't list
     \<Rightarrow> (('t, 's, 'k) cursor \<times> ('t, 's) node \<times> 't list \<times> 't list) option" where
  "edit_loop S D key [] c new_tree buffered removed = Some (c, new_tree, buffered, removed)"
| "edit_loop S D key (e # es) c new_tree buffered removed =
     (let new_key = edit_key key e in
      Option.bind (cursor_item c) (\<lambda>old_item.
      Option.bind
        (case old_item of
           Some x \<Rightarrow>
             if key x < new_key then
               Option.bind (Sum_Tree.extend S new_tree buffered) (\<lambda>new_tree.
               Option.bind (cursor_slice S D (ord_target new_key) Left c) (\<lambda>(slice, c).
               map_option (\<lambda>new_tree. (c, new_tree, [])) (append_tree S new_tree slice)))
             else Some (c, new_tree, buffered)
         | None \<Rightarrow> Some (c, new_tree, buffered)) (\<lambda>(c, new_tree, buffered).
      Option.bind (take_matching D key new_key c) (\<lambda>(old_item, c).
        let removed = (case old_item of Some x \<Rightarrow> removed @ [x] | None \<Rightarrow> removed);
            buffered = (case e of Insert x \<Rightarrow> buffered @ [x] | Remove k \<Rightarrow> buffered)
        in edit_loop S D key es c new_tree buffered removed))))"

text \<open>\<open>sort_unstable_by_key\<close> leaves the order of edits with equal keys open; the model sorts stably.\<close>

definition edit_tree ::
  "('t, 's) item_ops \<Rightarrow> ('s, 'k::linorder) dim_ops \<Rightarrow> ('t \<Rightarrow> 'k) \<Rightarrow> ('t, 's) node \<Rightarrow> ('t, 'k) edit list
     \<Rightarrow> (('t, 's) node \<times> 't list) option" where
  "edit_tree S D key t edits =
     (if edits = [] then Some (t, [])
      else
        Option.bind (cursor_seek D (ord_target (dzero D)) Left (cursor_new D t)) (\<lambda>(found, c).
        Option.bind (edit_loop S D key (sort_key (edit_key key) edits) c (tree_new S) [] [])
          (\<lambda>(c, new_tree, buffered, removed).
        Option.bind (Sum_Tree.extend S new_tree buffered) (\<lambda>new_tree.
        Option.bind (cursor_suffix S D c) (\<lambda>(suffix, c).
        map_option (\<lambda>new_tree. (new_tree, removed)) (append_tree S new_tree suffix))))))"

definition get_item :: "('s, 'k::linorder) dim_ops \<Rightarrow> ('t, 's) node \<Rightarrow> 'k \<Rightarrow> 't option" where
  "get_item D t k = snd (snd (find_exact D (ord_target k) Left t))"

subsection \<open>Keyed sequences\<close>

definition key_sorted :: "('t \<Rightarrow> 'k::linorder) \<Rightarrow> 't list \<Rightarrow> bool" where
  "key_sorted key xs \<longleftrightarrow> sorted_wrt (\<lambda>x y. key x < key y) xs"

definition upd_key :: "('t \<Rightarrow> 'k::linorder) \<Rightarrow> 't \<Rightarrow> 't list \<Rightarrow> 't list" where
  "upd_key key x xs =
     takeWhile (\<lambda>y. key y < key x) xs @ x # dropWhile (\<lambda>y. key y \<le> key x) xs"

definition del_key :: "('t \<Rightarrow> 'k::linorder) \<Rightarrow> 'k \<Rightarrow> 't list \<Rightarrow> 't list" where
  "del_key key k xs = takeWhile (\<lambda>y. key y < k) xs @ dropWhile (\<lambda>y. key y \<le> k) xs"

definition lookup_key :: "('t \<Rightarrow> 'k) \<Rightarrow> 't list \<Rightarrow> 'k \<Rightarrow> 't option" where
  "lookup_key key xs k = List.find (\<lambda>x. key x = k) xs"

fun apply_edit :: "('t \<Rightarrow> 'k::linorder) \<Rightarrow> 't list \<Rightarrow> ('t, 'k) edit \<Rightarrow> 't list" where
  "apply_edit key xs (Insert x) = upd_key key x xs"
| "apply_edit key xs (Remove k) = del_key key k xs"

text \<open>
  A whole batch, in the order of keys: what lies below the key of an edit is kept, the item with that key goes, and an
  insertion puts in its item. A key that occurs twice among the insertions is put in twice.
\<close>

fun edit_items :: "('t, 'k) edit \<Rightarrow> 't list" where
  "edit_items (Insert x) = [x]"
| "edit_items (Remove k) = []"

fun batch_edits :: "('t \<Rightarrow> 'k::linorder) \<Rightarrow> ('t, 'k) edit list \<Rightarrow> 't list \<Rightarrow> 't list" where
  "batch_edits key [] xs = xs"
| "batch_edits key (e # es) xs = takeWhile (\<lambda>y. key y < edit_key key e) xs @ edit_items e @
     batch_edits key es (dropWhile (\<lambda>y. key y \<le> edit_key key e) xs)"

lemma key_sorted_simps [simp]:
  "key_sorted key []"
  "key_sorted key (x # xs) \<longleftrightarrow> (\<forall>y \<in> set xs. key x < key y) \<and> key_sorted key xs"
  "key_sorted key (xs @ ys) \<longleftrightarrow> key_sorted key xs \<and> key_sorted key ys \<and> (\<forall>x \<in> set xs. \<forall>y \<in> set ys. key x < key y)"
  by (auto simp: key_sorted_def sorted_wrt_append)

text \<open>Splitting a sorted sequence at a key.\<close>

lemma key_split:
  assumes "key_sorted key xs"
  obtains l m r where "xs = l @ m @ r" "\<forall>x \<in> set l. key x < k" "m = [] \<or> (\<exists>x. m = [x] \<and> key x = k)"
    "\<forall>x \<in> set r. k < key x" "takeWhile (\<lambda>y. key y < k) xs = l" "dropWhile (\<lambda>y. key y \<le> k) xs = r"
    "dropWhile (\<lambda>y. key y < k) xs = m @ r"
  using assms
proof (induction xs arbitrary: thesis)
  case Nil
  then show ?case by simp
next
  case (Cons x xs)
  consider "key x < k" | "key x = k" | "k < key x" by (cases "key x" k rule: linorder_cases) auto
  then show ?case
  proof cases
    case 1
    show ?thesis
    proof (rule Cons.IH)
      show "key_sorted key xs" using Cons.prems by simp
      fix l m r
      assume "xs = l @ m @ r" "\<forall>x \<in> set l. key x < k" "m = [] \<or> (\<exists>x. m = [x] \<and> key x = k)"
        "\<forall>x \<in> set r. k < key x" "takeWhile (\<lambda>y. key y < k) xs = l" "dropWhile (\<lambda>y. key y \<le> k) xs = r"
        "dropWhile (\<lambda>y. key y < k) xs = m @ r"
      then show ?thesis using 1 by (intro Cons.prems(1) [of "x # l" m r]) auto
    qed
  next
    case 2
    then have "\<forall>y \<in> set xs. k < key y" using Cons.prems by simp
    moreover then have "dropWhile (\<lambda>y. key y \<le> k) xs = xs" by (cases xs) auto
    ultimately show ?thesis using 2 by (intro Cons.prems(1) [of "[]" "[x]" xs]) auto
  next
    case 3
    then have "\<forall>y \<in> set xs. k < key y" using Cons.prems by force
    then show ?thesis using 3 by (intro Cons.prems(1) [of "[]" "[]" "x # xs"]) auto
  qed
qed

lemma upd_key_sorted: "key_sorted key xs \<Longrightarrow> key_sorted key (upd_key key x xs)"
  by (rule key_split [of key xs "key x"]) (auto simp: upd_key_def)

lemma del_key_sorted: "key_sorted key xs \<Longrightarrow> key_sorted key (del_key key k xs)"
  by (rule key_split [of key xs k]) (auto simp: del_key_def)

lemma key_sorted_sorted: "key_sorted key xs \<Longrightarrow> sorted (map key xs)"
  by (induction xs) (auto intro: less_imp_le)

lemma edit_items_key: "x \<in> set (edit_items e) \<Longrightarrow> key x = edit_key key e"
  by (cases e) auto

lemma batch_skip:
  assumes "\<forall>x \<in> set p. \<forall>e \<in> set es. key x < edit_key key e"
  shows "batch_edits key es (p @ xs) = p @ batch_edits key es xs"
proof (cases es)
  case (Cons e es')
  then have "\<forall>x \<in> set p. key x < edit_key key e" "\<forall>x \<in> set p. key x \<le> edit_key key e" using assms by (auto intro: less_imp_le)
  then show ?thesis unfolding Cons by (simp add: takeWhile_append2 dropWhile_append2)
qed simp

lemma batch_foldl:
  assumes "key_sorted key xs" "sorted_wrt (<) (map (edit_key key) es)"
  shows "batch_edits key es xs = foldl (apply_edit key) xs es"
  using assms
proof (induction es arbitrary: xs)
  case (Cons e es)
  define k where "k = edit_key key e"
  obtain l m r where s: "xs = l @ m @ r" "\<forall>x \<in> set l. key x < k" "m = [] \<or> (\<exists>x. m = [x] \<and> key x = k)"
    "\<forall>x \<in> set r. k < key x" "takeWhile (\<lambda>y. key y < k) xs = l" "dropWhile (\<lambda>y. key y \<le> k) xs = r"
    "dropWhile (\<lambda>y. key y < k) xs = m @ r"
    by (rule key_split [OF Cons.prems(1)])
  have e: "apply_edit key xs e = (l @ edit_items e) @ r" using s(5,6) by (cases e) (auto simp: k_def upd_key_def del_key_def)
  have "\<forall>x \<in> set (l @ edit_items e). \<forall>e' \<in> set es. key x < edit_key key e'"
    using s(2) Cons.prems(2) edit_items_key [of _ e key] by (fastforce simp: k_def)
  note skip = batch_skip [OF this, of r]
  have "key_sorted key (apply_edit key xs e)"
    using Cons.prems(1) by (cases e) (simp_all add: upd_key_sorted del_key_sorted)
  then have "batch_edits key es (apply_edit key xs e) = foldl (apply_edit key) (apply_edit key xs e) es"
    using Cons.prems(2) by (intro Cons.IH) simp_all
  then show ?case unfolding e skip by (simp add: s(5,6) k_def [symmetric] e)
qed simp

text \<open>What a batch holds in the end, whatever keys it repeats.\<close>

lemma batch_mset:
  assumes "key_sorted key xs" "sorted (map (edit_key key) es)"
  shows "mset (batch_edits key es xs) =
    mset (concat (map edit_items es)) + mset (filter (\<lambda>x. key x \<notin> edit_key key ` set es) xs)"
    "sorted (map key (batch_edits key es xs))"
    "\<forall>x \<in> set (batch_edits key es xs). x \<in> set xs \<or> key x \<in> edit_key key ` set es"
proof -
  have "mset (batch_edits key es xs) =
      mset (concat (map edit_items es)) + mset (filter (\<lambda>x. key x \<notin> edit_key key ` set es) xs) \<and>
    sorted (map key (batch_edits key es xs)) \<and> (\<forall>x \<in> set (batch_edits key es xs). x \<in> set xs \<or> key x \<in> edit_key key ` set es)"
    using assms
  proof (induction es arbitrary: xs)
    case Nil
    then show ?case by (simp add: key_sorted_sorted)
  next
    case (Cons e es)
    define k where "k = edit_key key e"
    obtain l m r where s: "xs = l @ m @ r" "\<forall>x \<in> set l. key x < k" "m = [] \<or> (\<exists>x. m = [x] \<and> key x = k)"
      "\<forall>x \<in> set r. k < key x" "takeWhile (\<lambda>y. key y < k) xs = l" "dropWhile (\<lambda>y. key y \<le> k) xs = r"
      "dropWhile (\<lambda>y. key y < k) xs = m @ r"
      by (rule key_split [OF Cons.prems(1)])
    have later: "\<forall>e' \<in> set es. k \<le> edit_key key e'" using Cons.prems(2) by (simp add: k_def)
    have b: "batch_edits key (e # es) xs = l @ edit_items e @ batch_edits key es r" by (simp add: s(5,6) k_def [symmetric])
    have srt: "key_sorted key l" "key_sorted key r" using Cons.prems(1) by (simp_all add: s(1))
    note ih = Cons.IH [OF srt(2)]
    have ih': "mset (batch_edits key es r) = mset (concat (map edit_items es)) + mset (filter (\<lambda>x. key x \<notin> edit_key key ` set es) r)"
      "sorted (map key (batch_edits key es r))" "\<forall>x \<in> set (batch_edits key es r). x \<in> set r \<or> key x \<in> edit_key key ` set es"
      using ih Cons.prems(2) by simp_all
    have "filter (\<lambda>x. key x \<notin> edit_key key ` set (e # es)) l = l"
      using s(2) later by (fastforce simp: filter_id_conv k_def [symmetric])
    moreover have "filter (\<lambda>x. key x \<notin> edit_key key ` set (e # es)) m = []"
      using s(3) by (auto simp: k_def)
    moreover have "filter (\<lambda>x. key x \<notin> edit_key key ` set (e # es)) r = filter (\<lambda>x. key x \<notin> edit_key key ` set es) r"
      using s(4) by (intro filter_cong) (auto simp: k_def [symmetric])
    ultimately have "mset (batch_edits key (e # es) xs) =
        mset (concat (map edit_items (e # es))) + mset (filter (\<lambda>x. key x \<notin> edit_key key ` set (e # es)) xs)"
      unfolding b by (simp add: ih'(1) s(1) ac_simps)
    moreover have "k \<le> key x" if "x \<in> set (batch_edits key es r)" for x
      using ih'(3) that s(4) later by (fastforce intro: less_imp_le)
    then have bound: "\<forall>x \<in> set (batch_edits key es r). k \<le> key x" by blast
    have below: "\<forall>x \<in> set l. key x \<le> k" using s(2) by (auto intro: less_imp_le)
    have items: "\<forall>x \<in> set (edit_items e). key x = k" "sorted (map key (edit_items e))"
      using edit_items_key [of _ e key] by (auto simp: k_def) (cases e; simp)
    have "sorted (map key (batch_edits key (e # es) xs))"
      unfolding b map_append sorted_append using key_sorted_sorted [OF srt(1)] ih'(2) items bound below
      by (auto intro: order_trans)
    moreover have "\<forall>x \<in> set (batch_edits key (e # es) xs). x \<in> set xs \<or> key x \<in> edit_key key ` set (e # es)"
      unfolding b using ih'(3) s(1) edit_items_key [of _ e key] by auto
    ultimately show ?case by blast
  qed
  then show "mset (batch_edits key es xs) =
    mset (concat (map edit_items es)) + mset (filter (\<lambda>x. key x \<notin> edit_key key ` set es) xs)"
    "sorted (map key (batch_edits key es xs))"
    "\<forall>x \<in> set (batch_edits key es xs). x \<in> set xs \<or> key x \<in> edit_key key ` set es" by blast+
qed

lemma lookup_key_append:
  "lookup_key key (xs @ ys) k = (case lookup_key key xs k of None \<Rightarrow> lookup_key key ys k | Some x \<Rightarrow> Some x)"
  by (induction xs) (auto simp: lookup_key_def)

lemma lookup_key_None: "lookup_key key xs k = None \<longleftrightarrow> (\<forall>x \<in> set xs. key x \<noteq> k)"
  by (auto simp: lookup_key_def find_None_iff)

lemma lookup_key_Cons: "lookup_key key (x # xs) k = (if key x = k then Some x else lookup_key key xs k)"
  by (simp add: lookup_key_def)

lemma lookup_key_Nil: "lookup_key key [] k = None"
  by (simp add: lookup_key_def)

lemmas lookup_key_simps = lookup_key_append lookup_key_Cons lookup_key_Nil

lemma lookup_key_Some_iff:
  "key_sorted key xs \<Longrightarrow> lookup_key key xs k = Some x \<longleftrightarrow> x \<in> set xs \<and> key x = k"
  by (induction xs) (auto simp: lookup_key_simps)

lemma lookup_upd_key:
  assumes "key_sorted key xs"
  shows "lookup_key key (upd_key key x xs) k = (if k = key x then Some x else lookup_key key xs k)"
proof -
  obtain l m r where *: "xs = l @ m @ r" "\<forall>y \<in> set l. key y < key x" "m = [] \<or> (\<exists>y. m = [y] \<and> key y = key x)"
      "upd_key key x xs = l @ x # r"
    by (rule key_split [OF assms, of "key x"]) (auto simp: upd_key_def)
  then have "lookup_key key l (key x) = None" by (force simp: lookup_key_None)
  with *(3) show ?thesis unfolding *(4) unfolding *(1) by (auto simp: lookup_key_simps split: option.splits)
qed

lemma lookup_del_key:
  assumes "key_sorted key xs"
  shows "lookup_key key (del_key key k xs) k' = (if k' = k then None else lookup_key key xs k')"
proof -
  obtain l m r where *: "xs = l @ m @ r" "\<forall>y \<in> set l. key y < k" "m = [] \<or> (\<exists>y. m = [y] \<and> key y = k)"
      "\<forall>y \<in> set r. k < key y" "del_key key k xs = l @ r"
    by (rule key_split [OF assms, of k]) (auto simp: del_key_def)
  then have "lookup_key key l k = None" "lookup_key key r k = None" by (force simp: lookup_key_None)+
  with *(3) show ?thesis unfolding *(5) unfolding *(1) by (auto simp: lookup_key_simps split: option.splits)
qed

subsection \<open>Seeking by key\<close>

text \<open>
  The contract of a keyed item: its summary moves the key dimension to the item's key as long as keys
  do not decrease, and the zero of the dimension is the least key.
\<close>

locale keyed_laws = seek_laws S D for S :: "('t, 's) item_ops" and D :: "('s, 'k::linorder) dim_ops" +
  fixes key :: "'t \<Rightarrow> 'k"
  assumes key_step: "d \<le> key x \<Longrightarrow> dadd D d (ssummary S x) = key x"
    and dzero_least: "dzero D \<le> k"
begin

lemma ends_keys: "key_sorted key xs \<Longrightarrow> \<forall>x \<in> set xs. pos \<le> key x \<Longrightarrow> ends S D pos xs = map key xs"
proof (induction xs arbitrary: pos)
  case (Cons x xs)
  then show ?case using key_step [of pos x] by (auto intro: less_imp_le)
qed simp

lemma pos_after_keys: "key_sorted key xs \<Longrightarrow> pos_after S D (dzero D) xs = (if xs = [] then dzero D else key (last xs))"
  using ends_keys [of xs "dzero D"] last_ends [of xs S D "dzero D"] dzero_least by (auto simp: last_map)

lemma seek_keys:
  assumes "ends S D pos xs = map key xs"
  shows "seek_list S D sk pos xs =
    (takeWhile (\<lambda>x. sk (key x)) xs, pos_after S D pos (takeWhile (\<lambda>x. sk (key x)) xs), dropWhile (\<lambda>x. sk (key x)) xs)"
  using assms by (induction xs arbitrary: pos) auto

lemma beyond_key: "beyond (ord_target k) b d \<longleftrightarrow> (if b = Left then d < k else d \<le> k)"
  by (cases b) (auto simp: beyond_def ord_target_def)

lemma target_sorted_keys:
  assumes "key_sorted key xs" "ends S D pos xs = map key xs" "\<And>a b. a < b \<Longrightarrow> sk b \<Longrightarrow> sk a"
  shows "target_sorted S D sk pos xs"
  unfolding target_sorted_def assms(2) sorted_wrt_map
  by (rule sorted_wrt_mono_rel [OF _ assms(1) [unfolded key_sorted_def]]) (use assms(3) in blast)

lemma suffix_ends:
  assumes "key_sorted key (pre @ suf)" shows "ends S D (pos_after S D (dzero D) pre) suf = map key suf"
  using assms dzero_least
  by (intro ends_keys) (auto simp: pos_after_keys intro!: less_imp_le)

text \<open>Slicing a positioned cursor at a key.\<close>

lemma slice_key:
  assumes "cursor_before S D c pre suf" "key_sorted key (pre @ suf)" "cur_pos c \<le> k"
  shows "\<exists>t c'. cursor_slice S D (ord_target k) Left c = Some (t, c') \<and> wf_tree S t \<and>
    tree_items t = takeWhile (\<lambda>x. key x < k) suf \<and>
    cursor_at S D c' (pre @ takeWhile (\<lambda>x. key x < k) suf) (dropWhile (\<lambda>x. key x < k) suf) \<and> cur_tree c' = cur_tree c"
proof -
  have "cur_pos c = pos_after S D (dzero D) pre"
    using assms(1) by (auto simp: cursor_before_def cursor_at_def cursor_fresh_def)
  then have e: "ends S D (cur_pos c) suf = map key suf" using suffix_ends [OF assms(2)] by simp
  have "target_sorted S D (beyond (ord_target k) Left) (cur_pos c) suf"
    using assms(2) by (intro target_sorted_keys e) (auto simp: beyond_key)
  from cursor_slice_spec [OF assms(1) _ this seek_keys [OF e]] show ?thesis
    using assms(3) by (auto simp: ord_target_def beyond_key [unfolded ord_target_def])
qed

lemma take_matching_spec:
  assumes "cursor_at S D c pre (m @ r)" "m = [] \<or> (\<exists>x. m = [x] \<and> key x = k)" "\<forall>x \<in> set r. k < key x"
  shows "\<exists>c'. take_matching D key k c = Some (head_opt m, c') \<and> cursor_at S D c' (pre @ m) r \<and> cur_tree c' = cur_tree c"
proof -
  have item: "cursor_item c = Some (head_opt (m @ r))"
    using assms(1) by (intro cursor_item_located) (auto simp: cursor_at_def)
  show ?thesis
  proof (cases "m = []")
    case True
    then show ?thesis using item assms by (cases r) (auto simp: take_matching_def head_opt_def)
  next
    case False
    then show ?thesis using item assms cursor_next_spec [OF assms(1)] by (auto simp: take_matching_def head_opt_def)
  qed
qed

lemma lookup_split:
  assumes "\<forall>x \<in> set l. key x < k" "m = [] \<or> (\<exists>x. m = [x] \<and> key x = k)" "\<forall>x \<in> set r. k < key x"
  shows "lookup_key key (l @ m @ r) k = head_opt m"
proof -
  have "lookup_key key l k = None" "lookup_key key r k = None" using assms by (force simp: lookup_key_None)+
  then show ?thesis using assms(2) by (auto simp: lookup_key_simps head_opt_def)
qed

text \<open>The common first half of insertion and removal.\<close>

lemma slice_split:
  assumes "wf_tree S t" "key_sorted key (tree_items t)"
  obtains a c l m r where "cursor_slice S D (ord_target k) Left (cursor_new D t) = Some (a, c)"
    "wf_tree S a" "tree_items a = l" "cursor_at S D c l (m @ r)" "tree_items t = l @ m @ r" "\<forall>x \<in> set l. key x < k"
    "m = [] \<or> (\<exists>x. m = [x] \<and> key x = k)" "\<forall>x \<in> set r. k < key x"
    "takeWhile (\<lambda>y. key y < k) (tree_items t) = l" "dropWhile (\<lambda>y. key y \<le> k) (tree_items t) = r"
proof -
  obtain l m r where s: "tree_items t = l @ m @ r" "\<forall>x \<in> set l. key x < k" "m = [] \<or> (\<exists>x. m = [x] \<and> key x = k)"
    "\<forall>x \<in> set r. k < key x" "takeWhile (\<lambda>y. key y < k) (tree_items t) = l" "dropWhile (\<lambda>y. key y \<le> k) (tree_items t) = r"
    "dropWhile (\<lambda>y. key y < k) (tree_items t) = m @ r"
    by (rule key_split [OF assms(2)])
  have "cursor_before S D (cursor_new D t) [] (tree_items t)" by (rule cursor_before_new [OF assms(1)])
  from slice_key [OF this, of k] s assms(2) dzero_least obtain a c where
    "cursor_slice S D (ord_target k) Left (cursor_new D t) = Some (a, c)" "wf_tree S a" "tree_items a = l"
    "cursor_at S D c l (m @ r)" by (auto simp: cursor_new_def)
  then show thesis by (rule that) (use s in simp_all)
qed

lemma slice_and_match:
  assumes "wf_tree S t" "key_sorted key (tree_items t)"
  obtains a c' c'' l m r where "cursor_slice S D (ord_target k) Left (cursor_new D t) = Some (a, c')"
    "wf_tree S a" "tree_items a = l" "take_matching D key k c' = Some (lookup_key key (tree_items t) k, c'')"
    "cursor_at S D c'' (l @ m) r" "takeWhile (\<lambda>y. key y < k) (tree_items t) = l"
    "dropWhile (\<lambda>y. key y \<le> k) (tree_items t) = r"
proof -
  obtain a c l m r where s: "cursor_slice S D (ord_target k) Left (cursor_new D t) = Some (a, c)"
    "wf_tree S a" "tree_items a = l" "cursor_at S D c l (m @ r)" "tree_items t = l @ m @ r" "\<forall>x \<in> set l. key x < k"
    "m = [] \<or> (\<exists>x. m = [x] \<and> key x = k)" "\<forall>x \<in> set r. k < key x"
    "takeWhile (\<lambda>y. key y < k) (tree_items t) = l" "dropWhile (\<lambda>y. key y \<le> k) (tree_items t) = r"
    by (rule slice_split [OF assms])
  obtain c' where "take_matching D key k c = Some (head_opt m, c')" "cursor_at S D c' (l @ m) r"
    using take_matching_spec [OF s(4,7,8)] by blast
  then show thesis using lookup_split [OF s(6-8)] s(1-3,5,9,10) by (intro that [of a c l c' m r]) simp_all
qed

lemma insert_or_replace_spec:
  assumes "wf_tree S t" "key_sorted key (tree_items t)"
  shows "\<exists>t'. insert_or_replace S D key t x = Some (t', lookup_key key (tree_items t) (key x)) \<and>
    wf_tree S t' \<and> tree_items t' = upd_key key x (tree_items t)"
proof -
  obtain a c' c'' l m r where s: "cursor_slice S D (ord_target (key x)) Left (cursor_new D t) = Some (a, c')"
    "wf_tree S a" "tree_items a = l" "take_matching D key (key x) c' = Some (lookup_key key (tree_items t) (key x), c'')"
    "cursor_at S D c'' (l @ m) r" "takeWhile (\<lambda>y. key y < key x) (tree_items t) = l"
    "dropWhile (\<lambda>y. key y \<le> key x) (tree_items t) = r"
    by (rule slice_and_match [OF assms])
  obtain b where b: "push S a x = Some b" "wf_tree S b" "tree_items b = l @ [x]" using push_spec [OF s(2)] s(3) by auto
  obtain d c3 where d: "cursor_suffix S D c'' = Some (d, c3)" "wf_tree S d" "tree_items d = r"
    using cursor_suffix_spec [of c'' "l @ m" r] s(5) by (auto simp: cursor_before_def)
  show ?thesis using append_tree_spec [OF b(2) d(2)] s b d by (auto simp: insert_or_replace_def upd_key_def)
qed

lemma remove_key_spec:
  assumes "wf_tree S t" "key_sorted key (tree_items t)"
  shows "\<exists>t'. remove_key S D key t k = Some (t', lookup_key key (tree_items t) k) \<and>
    wf_tree S t' \<and> tree_items t' = del_key key k (tree_items t)"
proof -
  obtain a c' c'' l m r where s: "cursor_slice S D (ord_target k) Left (cursor_new D t) = Some (a, c')"
    "wf_tree S a" "tree_items a = l" "take_matching D key k c' = Some (lookup_key key (tree_items t) k, c'')"
    "cursor_at S D c'' (l @ m) r" "takeWhile (\<lambda>y. key y < k) (tree_items t) = l"
    "dropWhile (\<lambda>y. key y \<le> k) (tree_items t) = r"
    by (rule slice_and_match [OF assms])
  obtain d c3 where d: "cursor_suffix S D c'' = Some (d, c3)" "wf_tree S d" "tree_items d = r"
    using cursor_suffix_spec [of c'' "l @ m" r] s(5) by (auto simp: cursor_before_def)
  show ?thesis using append_tree_spec [OF s(2) d(2)] s d by (auto simp: remove_key_def del_key_def)
qed

lemma get_item_spec:
  assumes "wf_tree S t" "key_sorted key (tree_items t)"
  shows "get_item D t k = lookup_key key (tree_items t) k"
proof -
  have e: "ends S D (dzero D) (tree_items t) = map key (tree_items t)"
    using ends_keys [OF assms(2)] dzero_least by simp
  have sorted: "target_sorted S D (beyond (ord_target k) b) (dzero D) (tree_items t)" for b
    by (rule target_sorted_keys [OF assms(2) e]) (auto simp: beyond_key split: if_splits)
  obtain l m r where s: "tree_items t = l @ m @ r" "\<forall>x \<in> set l. key x < k" "m = [] \<or> (\<exists>x. m = [x] \<and> key x = k)"
    "\<forall>x \<in> set r. k < key x" "takeWhile (\<lambda>y. key y < k) (tree_items t) = l" "dropWhile (\<lambda>y. key y < k) (tree_items t) = m @ r"
    by (rule key_split [OF assms(2)])
  have "ends S D (pos_after S D (dzero D) l) (m @ r) = map key (m @ r)"
    by (rule suffix_ends) (use assms(2) s(1) in simp)
  then have hd: "m @ r \<noteq> [] \<Longrightarrow> dadd D (pos_after S D (dzero D) l) (ssummary S (hd (m @ r))) = key (hd (m @ r))"
    by (cases "m @ r") auto
  have "snd (snd (find_exact D (ord_target k) Left t)) =
      (if m @ r \<noteq> [] \<and> ord_target k (dadd D (pos_after S D (dzero D) l) (ssummary S (hd (m @ r)))) = Equal
       then Some (hd (m @ r)) else None)"
    by (rule find_exact_spec [OF assms(1) sorted sorted]) (simp add: seek_keys [OF e] beyond_key s(5,6))
  also have "\<dots> = head_opt m" using hd s(3,4) by (cases r) (auto simp: ord_target_def head_opt_def)
  finally show ?thesis using lookup_split [OF s(2-4)] s(1) by (simp add: get_item_def)
qed

lemma find_key_spec:
  assumes "wf_tree S t" "key_sorted key (tree_items t)"
  shows "snd (snd (find_in_tree D (ord_target k) Left t)) = head_opt (dropWhile (\<lambda>x. key x < k) (tree_items t))"
proof -
  have e: "ends S D (dzero D) (tree_items t) = map key (tree_items t)"
    using ends_keys [OF assms(2)] dzero_least by simp
  have sorted: "target_sorted S D (beyond (ord_target k) Left) (dzero D) (tree_items t)"
    by (rule target_sorted_keys [OF assms(2) e]) (auto simp: beyond_key)
  have seek: "seek_list S D (beyond (ord_target k) Left) (dzero D) (tree_items t) =
      (takeWhile (\<lambda>x. key x < k) (tree_items t), pos_after S D (dzero D) (takeWhile (\<lambda>x. key x < k) (tree_items t)),
       dropWhile (\<lambda>x. key x < k) (tree_items t))"
    by (simp add: seek_keys [OF e] beyond_key)
  show ?thesis
  proof (cases "dropWhile (\<lambda>x. key x < k) (tree_items t)")
    case Nil
    then show ?thesis using seek_none(1) [OF assms(1), of "ord_target k" Left _ _ False] seek
      by (simp add: find_in_tree_def head_opt_def)
  next
    case (Cons x r)
    from find_some(1) [OF assms(1) sorted seek [unfolded Cons]] show ?thesis using Cons by (simp add: head_opt_def)
  qed
qed

text \<open>The end of the current item tells whether it has the key that was sought.\<close>

lemma cursor_end_match:
  assumes "cursor_at S D c l (m @ r)" "key_sorted key (l @ m @ r)" "\<forall>x \<in> set l. key x < k"
    and "m = [] \<or> (\<exists>x. m = [x] \<and> key x = k)" "\<forall>x \<in> set r. k < key x" "dzero D \<noteq> k"
  shows "\<exists>e. cursor_end D c = Some e \<and> (e = k \<longleftrightarrow> m \<noteq> [])"
proof -
  have summary: "cursor_item_summary c = Some (map_option (ssummary S) (head_opt (m @ r)))"
    using assms(1) by (intro cursor_item_located) (auto simp: cursor_at_def)
  have pos: "cur_pos c = pos_after S D (dzero D) l" using assms(1) by (simp add: cursor_at_def)
  show ?thesis
  proof (cases "m @ r")
    case Nil
    then have "cursor_end D c = Some (pos_after S D (dzero D) l)"
      using summary pos by (simp add: cursor_end_def cursor_start_def head_opt_def)
    moreover have "pos_after S D (dzero D) l \<noteq> k" using pos_after_keys [of l] assms(2,3,6) by auto
    ultimately show ?thesis using Nil by simp
  next
    case (Cons x xs)
    have "ends S D (cur_pos c) (m @ r) = map key (m @ r)" using suffix_ends [OF assms(2)] pos by simp
    then have "dadd D (cur_pos c) (ssummary S x) = key x" using Cons by simp
    then have "cursor_end D c = Some (key x)"
      using summary Cons by (simp add: cursor_end_def cursor_start_def head_opt_def)
    moreover have "key x = k \<longleftrightarrow> m \<noteq> []" using Cons assms(4,5) by (cases m) auto
    ultimately show ?thesis by simp
  qed
qed

text \<open>Seeking a key from the start.\<close>

lemma seek_key:
  assumes "wf_tree S t" "key_sorted key (tree_items t)" "target (dzero D) \<noteq> Less"
    and "\<forall>a b. a < b \<longrightarrow> beyond target bias b \<longrightarrow> beyond target bias a"
    and "cur_tree c = t"
  shows "\<exists>found c'. cursor_seek D target bias c = Some (found, c') \<and> cur_tree c' = t \<and>
    cursor_at S D c' (takeWhile (\<lambda>x. beyond target bias (key x)) (tree_items t)) (dropWhile (\<lambda>x. beyond target bias (key x)) (tree_items t))"
proof -
  have e: "ends S D (dzero D) (tree_items t) = map key (tree_items t)"
    using ends_keys [OF assms(2)] dzero_least by simp
  have "target_sorted S D (beyond target bias) (dzero D) (tree_items t)"
    by (rule target_sorted_keys [OF assms(2) e]) (use assms(4) in blast)
  from cursor_seek_spec [of c target bias, unfolded assms(5), OF assms(1,3) this seek_keys [OF e]] show ?thesis by auto
qed

lemma slice_target:
  assumes "wf_tree S t" "key_sorted key (tree_items t)" "target (dzero D) \<noteq> Less"
    and "\<forall>a b. a < b \<longrightarrow> beyond target bias b \<longrightarrow> beyond target bias a"
  shows "\<exists>a c. cursor_slice S D target bias (cursor_new D t) = Some (a, c) \<and> cur_tree c = t \<and> wf_tree S a \<and>
    tree_items a = takeWhile (\<lambda>x. beyond target bias (key x)) (tree_items t)"
proof -
  have e: "ends S D (cur_pos (cursor_new D t)) (tree_items t) = map key (tree_items t)"
    using ends_keys [OF assms(2)] dzero_least by (simp add: cursor_new_def)
  have "target_sorted S D (beyond target bias) (cur_pos (cursor_new D t)) (tree_items t)"
    by (rule target_sorted_keys [OF assms(2) e]) (use assms(4) in blast)
  from cursor_slice_spec [OF cursor_before_new [OF assms(1)] _ this seek_keys [OF e]] show ?thesis
    using assms(3) by (auto simp: cursor_new_def)
qed

text \<open>One edit of the batch: what the two conditionals of the loop body do to the cursor and the tree.\<close>

lemma edit_advance:
  assumes "cursor_at S D c pre suf" "key_sorted key (pre @ suf)" "wf_tree S t"
  obtains t' buffered' c' where
    "(case head_opt suf of
        Some x \<Rightarrow>
          if key x < k then
            Option.bind (Sum_Tree.extend S t buffered) (\<lambda>t.
            Option.bind (cursor_slice S D (ord_target k) Left c) (\<lambda>(slice, c).
            map_option (\<lambda>t. (c, t, [])) (append_tree S t slice)))
          else Some (c, t, buffered)
      | None \<Rightarrow> Some (c, t, buffered)) = Some (c', t', buffered')"
    "wf_tree S t'" "tree_items t' @ buffered' = tree_items t @ buffered @ takeWhile (\<lambda>x. key x < k) suf"
    "cursor_at S D c' (pre @ takeWhile (\<lambda>x. key x < k) suf) (dropWhile (\<lambda>x. key x < k) suf)"
proof (cases "suf \<noteq> [] \<and> key (hd suf) < k")
  case False
  then have "takeWhile (\<lambda>x. key x < k) suf = []" "dropWhile (\<lambda>x. key x < k) suf = suf" by (cases suf; auto)+
  then show thesis using False assms by (intro that [of c t buffered]) (auto simp: head_opt_def)
next
  case True
  have pos: "cur_pos c = pos_after S D (dzero D) pre" using assms(1) by (simp add: cursor_at_def)
  have "cur_pos c \<le> k"
  proof (cases "pre = []")
    case True
    then show ?thesis using pos dzero_least by simp
  next
    case False
    then have "key (last pre) < key (hd suf)" "key (hd suf) < k" using True assms(2) by simp_all
    then have "key (last pre) \<le> k" by order
    then show ?thesis using pos pos_after_keys [of pre] assms(2) False by simp
  qed
  then obtain sl c' where sl: "cursor_slice S D (ord_target k) Left c = Some (sl, c')" "wf_tree S sl"
      "tree_items sl = takeWhile (\<lambda>x. key x < k) suf"
      "cursor_at S D c' (pre @ takeWhile (\<lambda>x. key x < k) suf) (dropWhile (\<lambda>x. key x < k) suf)"
    using slice_key [OF _ assms(2), of c k] assms(1) by (auto simp: cursor_before_def)
  obtain t1 where t1: "Sum_Tree.extend S t buffered = Some t1" "wf_tree S t1" "tree_items t1 = tree_items t @ buffered"
    using extend_spec [OF assms(3)] by blast
  show thesis using append_tree_spec [OF t1(2) sl(2)] True t1 sl
    by (auto simp: head_opt_def intro: that)
qed

lemma edit_loop_spec:
  assumes "cursor_at S D c pre suf" "key_sorted key (pre @ suf)" "wf_tree S t" "sorted (map (edit_key key) es)"
  shows "\<exists>c' t' buffered' pre' suf'.
    edit_loop S D key es c t buffered removed =
      Some (c', t', buffered', removed @ filter (\<lambda>x. key x \<in> edit_key key ` set es) suf) \<and>
    wf_tree S t' \<and> cursor_at S D c' pre' suf' \<and>
    tree_items t' @ buffered' @ suf' = tree_items t @ buffered @ batch_edits key es suf"
  using assms
proof (induction es arbitrary: c pre suf t buffered removed)
  case Nil
  then show ?case by auto
next
  case (Cons e es)
  define k where "k = edit_key key e"
  have "key_sorted key suf" using Cons.prems(2) by simp
  then obtain l m r where s: "suf = l @ m @ r" "\<forall>x \<in> set l. key x < k" "m = [] \<or> (\<exists>x. m = [x] \<and> key x = k)"
    "\<forall>x \<in> set r. k < key x" "takeWhile (\<lambda>y. key y < k) suf = l" "dropWhile (\<lambda>y. key y \<le> k) suf = r"
    "dropWhile (\<lambda>y. key y < k) suf = m @ r"
    by (rule key_split)
  obtain t1 buf1 c1 where a:
    "(case head_opt suf of
        Some x \<Rightarrow>
          if key x < k then
            Option.bind (Sum_Tree.extend S t buffered) (\<lambda>t.
            Option.bind (cursor_slice S D (ord_target k) Left c) (\<lambda>(slice, c).
            map_option (\<lambda>t. (c, t, [])) (append_tree S t slice)))
          else Some (c, t, buffered)
      | None \<Rightarrow> Some (c, t, buffered)) = Some (c1, t1, buf1)"
    "wf_tree S t1" "tree_items t1 @ buf1 = tree_items t @ buffered @ l" "cursor_at S D c1 (pre @ l) (m @ r)"
    by (rule edit_advance [OF Cons.prems(1-3), where k = k and buffered = buffered]) (simp add: s(5,7))
  obtain c2 where c2: "take_matching D key k c1 = Some (head_opt m, c2)" "cursor_at S D c2 (pre @ l @ m) r"
    using take_matching_spec [OF a(4) s(3,4)] by auto
  have later: "\<forall>e' \<in> set es. k \<le> edit_key key e'" using Cons.prems(4) by (simp add: k_def)
  have "key_sorted key ((pre @ l @ m) @ r)" using Cons.prems(2) s(1) by simp
  then obtain c' t' buf' pre' suf' where ih:
    "edit_loop S D key es c2 t1 (buf1 @ edit_items e) (removed @ m) =
      Some (c', t', buf', (removed @ m) @ filter (\<lambda>x. key x \<in> edit_key key ` set es) r)"
    "wf_tree S t'" "cursor_at S D c' pre' suf'"
    "tree_items t' @ buf' @ suf' = tree_items t1 @ (buf1 @ edit_items e) @ batch_edits key es r"
    using Cons.IH [OF c2(2) _ a(2), of "buf1 @ edit_items e" "removed @ m"] Cons.prems(4) by auto
  have result: "tree_items t1 @ (buf1 @ edit_items e) @ batch_edits key es r = tree_items t @ buffered @ batch_edits key (e # es) suf"
  proof -
    have "tree_items t1 @ (buf1 @ edit_items e) @ batch_edits key es r = (tree_items t1 @ buf1) @ edit_items e @ batch_edits key es r" by simp
    then show ?thesis unfolding a(3) by (simp add: s(5,6) k_def [symmetric])
  qed
  have "filter (\<lambda>x. key x \<in> edit_key key ` set (e # es)) suf = m @ filter (\<lambda>x. key x \<in> edit_key key ` set es) r"
  proof -
    have "filter (\<lambda>x. key x \<in> edit_key key ` set (e # es)) l = []"
      using s(2) later by (fastforce simp: k_def [symmetric] filter_empty_conv)
    moreover have "filter (\<lambda>x. key x \<in> edit_key key ` set (e # es)) r = filter (\<lambda>x. key x \<in> edit_key key ` set es) r"
      using s(4) by (intro filter_cong) (auto simp: k_def [symmetric])
    moreover have "filter (\<lambda>x. key x \<in> edit_key key ` set (e # es)) m = m" using s(3) by (auto simp: k_def)
    ultimately show ?thesis using s(1) by simp
  qed
  moreover have "edit_loop S D key (e # es) c t buffered removed = edit_loop S D key es c2 t1 (buf1 @ edit_items e) (removed @ m)"
  proof -
    have "cursor_item c = Some (head_opt suf)"
      using Cons.prems(1) by (intro cursor_item_located) (auto simp: cursor_at_def)
    then show ?thesis using a(1) c2(1) s(3)
      by (auto simp: Let_def k_def [symmetric] head_opt_def split: edit.splits)
  qed
  ultimately show ?case using ih result by auto
qed

text \<open>A batch of edits, whatever keys it repeats; the items removed or replaced are returned.\<close>

lemma edit_tree_batch:
  assumes "wf_tree S t" "key_sorted key (tree_items t)"
  shows "\<exists>t'. edit_tree S D key t edits =
      Some (t', filter (\<lambda>x. key x \<in> edit_key key ` set edits) (tree_items t)) \<and> wf_tree S t' \<and>
    tree_items t' = batch_edits key (sort_key (edit_key key) edits) (tree_items t)"
proof (cases "edits = []")
  case True
  then show ?thesis using assms(1) by (simp add: edit_tree_def)
next
  case False
  have e: "ends S D (dzero D) (tree_items t) = map key (tree_items t)"
    using ends_keys [OF assms(2)] dzero_least by simp
  have "target_sorted S D (beyond (ord_target (dzero D)) Left) (dzero D) (tree_items t)"
    by (rule target_sorted_keys [OF assms(2) e]) (auto simp: beyond_key)
  moreover have "\<not> k < dzero D" for k using dzero_least [of k] by simp
  then have "seek_list S D (beyond (ord_target (dzero D)) Left) (dzero D) (tree_items t) = ([], dzero D, tree_items t)"
    by (cases "tree_items t") (auto simp: seek_keys [OF e] beyond_key)
  ultimately obtain found c where c: "cursor_seek D (ord_target (dzero D)) Left (cursor_new D t) = Some (found, c)"
      "cursor_at S D c [] (tree_items t)"
    using cursor_seek_spec [of "cursor_new D t" "ord_target (dzero D)" Left "[]" "dzero D" "tree_items t"] assms(1)
    by (auto simp: cursor_new_def ord_target_def)
  have "sorted (map (edit_key key) (sort_key (edit_key key) edits))" by simp
  from edit_loop_spec [OF c(2) _ tree_new_wf(1) this, of "[]" "[]"] assms(2) obtain c' a buf pre suf where l:
    "edit_loop S D key (sort_key (edit_key key) edits) c (tree_new S) [] [] =
       Some (c', a, buf, filter (\<lambda>x. key x \<in> edit_key key ` set edits) (tree_items t))"
    "wf_tree S a" "cursor_at S D c' pre suf"
    "tree_items a @ buf @ suf = batch_edits key (sort_key (edit_key key) edits) (tree_items t)"
    by auto
  obtain b where b: "Sum_Tree.extend S a buf = Some b" "wf_tree S b" "tree_items b = tree_items a @ buf"
    using extend_spec [OF l(2)] by blast
  obtain d c3 where d: "cursor_suffix S D c' = Some (d, c3)" "wf_tree S d" "tree_items d = suf"
    using cursor_suffix_spec [of c' pre suf] l(3) by (auto simp: cursor_before_def)
  show ?thesis using append_tree_spec [OF b(2) d(2)] False c(1) l b d by (auto simp: edit_tree_def)
qed

text \<open>
  With distinct keys the tree becomes the result of applying the edits one after the other in the order of keys.
\<close>

lemma edit_tree_spec:
  assumes "wf_tree S t" "key_sorted key (tree_items t)" "distinct (map (edit_key key) edits)"
  shows "\<exists>t'. edit_tree S D key t edits =
      Some (t', filter (\<lambda>x. key x \<in> edit_key key ` set edits) (tree_items t)) \<and> wf_tree S t' \<and>
    tree_items t' = foldl (apply_edit key) (tree_items t) (sort_key (edit_key key) edits)"
proof -
  have "sorted_wrt (<) (map (edit_key key) (sort_key (edit_key key) edits))"
    using assms(3) by (simp add: strict_sorted_iff distinct_map)
  then show ?thesis using edit_tree_batch [OF assms(1,2), of edits] batch_foldl [OF assms(2)] by simp
qed

end

text \<open>What a key maps to after a batch of edits with distinct keys.\<close>

definition edit_lookup :: "('t \<Rightarrow> 'k) \<Rightarrow> 't list \<Rightarrow> ('t, 'k) edit list \<Rightarrow> 'k \<Rightarrow> 't option" where
  "edit_lookup key xs es k =
     (case List.find (\<lambda>e. edit_key key e = k) es of
        None \<Rightarrow> lookup_key key xs k | Some (Insert x) \<Rightarrow> Some x | Some (Remove k) \<Rightarrow> None)"

lemma apply_edit_sorted: "key_sorted key xs \<Longrightarrow> key_sorted key (apply_edit key xs e)"
  by (cases e) (simp_all add: upd_key_sorted del_key_sorted)

lemma foldl_edits_sorted: "key_sorted key xs \<Longrightarrow> key_sorted key (foldl (apply_edit key) xs es)"
  by (induction es arbitrary: xs) (simp_all add: apply_edit_sorted)

lemma lookup_apply_edit:
  "key_sorted key xs \<Longrightarrow> lookup_key key (apply_edit key xs e) k =
     (if k = edit_key key e then (case e of Insert x \<Rightarrow> Some x | Remove k \<Rightarrow> None) else lookup_key key xs k)"
  by (cases e) (simp_all add: lookup_upd_key lookup_del_key)

lemma lookup_edits:
  assumes "key_sorted key xs" "distinct (map (edit_key key) es)"
  shows "lookup_key key (foldl (apply_edit key) xs es) k = edit_lookup key xs es k"
  using assms
proof (induction es arbitrary: xs)
  case (Cons e es)
  have "lookup_key key (foldl (apply_edit key) xs (e # es)) k = edit_lookup key (apply_edit key xs e) es k"
    using Cons apply_edit_sorted [of key xs e] by simp
  moreover have "List.find (\<lambda>e'. edit_key key e' = edit_key key e) es = None"
    using Cons.prems(2) by (simp add: find_None_iff) (metis imageI)
  ultimately show ?case using Cons.prems(1)
    by (auto simp: edit_lookup_def lookup_apply_edit split: option.splits edit.splits)
qed (simp add: edit_lookup_def)

lemma find_edit_unique:
  assumes "distinct (map (edit_key key) es)" "e \<in> set es"
  shows "List.find (\<lambda>e'. edit_key key e' = edit_key key e) es = Some e"
  using assms by (induction es) auto

lemma edit_lookup_sort:
  assumes "distinct (map (edit_key key) es)"
  shows "edit_lookup key xs (sort_key (edit_key key) es) k = edit_lookup key xs es k"
proof (cases "\<exists>e \<in> set es. edit_key key e = k")
  case True
  then obtain e where e: "e \<in> set es" "edit_key key e = k" by blast
  have "distinct (map (edit_key key) (sort_key (edit_key key) es))" using assms by (simp add: distinct_map)
  from find_edit_unique [OF this, of e] find_edit_unique [OF assms e(1)] e show ?thesis by (simp add: edit_lookup_def)
next
  case False
  then have "List.find (\<lambda>e. edit_key key e = k) es = None"
    "List.find (\<lambda>e. edit_key key e = k) (sort_key (edit_key key) es) = None" by (auto simp: find_None_iff)
  then show ?thesis by (simp add: edit_lookup_def)
qed

end
