(* ===== verification/Cursor_Back.thy ===== *)
theory Cursor_Back
  imports Sum_Cursor
begin

text \<open>
  The rest of \<open>crates/sum_tree/src/cursor.rs\<close>: searching backward, the neighbours of the current
  item, the iterators of a tree and of a cursor, and the filter cursor.
\<close>

subsection \<open>Searching backward\<close>

text \<open>A measure for the loop: the children an entry still has in front of its index.\<close>

fun back_tree_weight :: "('t, 's) node \<Rightarrow> nat" where
  "back_tree_weight (Leaf s xs ss) = 2 + length ss"
| "back_tree_weight (Internal h s cs ts) = 2 + length cs + sum_list (map back_tree_weight ts)"

fun back_entry_weight :: "nat \<Rightarrow> ('t, 's) node \<Rightarrow> nat" where
  "back_entry_weight i (Leaf s xs ss) = 1 + i"
| "back_entry_weight i (Internal h s cs ts) = 1 + i + sum_list (map back_tree_weight (take i ts))"

definition back_weight :: "bool \<Rightarrow> ('t, 's, 'd) stack_entry list \<Rightarrow> nat" where
  "back_weight descending stack =
     (case stack of
        [] \<Rightarrow> 0
      | e # es \<Rightarrow>
          back_entry_weight (if descending then entry_index e + 1 else entry_index e) (entry_tree e) +
          sum_list (map (\<lambda>e. back_entry_weight (entry_index e) (entry_tree e)) es))"

lemma back_weight_simps:
  "back_weight False es = sum_list (map (\<lambda>e. back_entry_weight (entry_index e) (entry_tree e)) es)"
  "back_weight desc (e # es) =
     back_entry_weight (if desc then entry_index e + 1 else entry_index e) (entry_tree e) + back_weight False es"
  by (cases es; simp add: back_weight_def)+

lemma back_entry_weight_pos: "0 < back_entry_weight i t"
  by (cases t) auto

lemma back_entry_weight_mono: "back_entry_weight i t < back_entry_weight (Suc i) t"
proof (cases t)
  case (Internal h s cs ts)
  then show ?thesis by (cases "i < length ts") (auto simp: take_Suc_conv_app_nth)
qed simp

lemma sum_list_take_le: "sum_list (take n (xs :: nat list)) \<le> sum_list xs"
  by (metis append_take_drop_id le_add1 sum_list.append)

lemma back_entry_weight_child: "back_entry_weight (length (child_summaries t)) t < back_tree_weight t"
  by (cases t) (auto simp: take_map [symmetric] intro: le_less_trans [OF sum_list_take_le])

lemma back_weight_descend:
  assumes "i < length ts"
  shows "back_entry_weight (length (child_summaries (ts ! i))) (ts ! i) + back_entry_weight i (Internal h s cs ts)
    < back_entry_weight (Suc i) (Internal h s cs ts)"
  using back_entry_weight_child [of "ts ! i"] assms by (simp add: take_Suc_conv_app_nth)

text \<open>
  The loop of \<open>search_backward\<close>. It recomputes the position from that of the entry below; an index
  outside the summaries panics, and so does \<open>len - 1\<close> of a node without summaries, at the latest in the slice taken in
  the next round.
\<close>

function back_loop ::
  "('s, 'd) dim_ops \<Rightarrow> ('s \<Rightarrow> bool) \<Rightarrow> bool \<Rightarrow> ('t, 's, 'd) stack_entry list \<Rightarrow> 'd
     \<Rightarrow> (('t, 's, 'd) stack_entry list \<times> 'd) option" where
  "back_loop D F descending [] pos = Some ([], pos)"
| "back_loop D F descending (e # es) pos =
     (let base = (case es of [] \<Rightarrow> dzero D | below # _ \<Rightarrow> entry_pos below);
          cs = child_summaries (entry_tree e) in
      if \<not> descending \<and> entry_index e = 0 then back_loop D F False es base
      else
        let i = (if descending then entry_index e else entry_index e - 1) in
        if length cs \<le> i then None
        else
          let pos' = foldl (dadd D) base (take i cs);
              e' = e\<lparr>entry_index := i, entry_pos := pos'\<rparr> in
          (case entry_tree e of
             Internal h s cs' ts \<Rightarrow>
               if F (cs ! i) then
                 if i < length ts \<and> child_summaries (ts ! i) \<noteq> [] then
                   back_loop D F True
                     (\<lparr>entry_tree = ts ! i, entry_index = length (child_summaries (ts ! i)) - 1, entry_pos = dzero D\<rparr>
                      # e' # es) pos'
                 else None
               else back_loop D F False (e' # es) pos'
           | Leaf s xs ss \<Rightarrow>
               if F (cs ! i) then Some (e' # es, pos') else back_loop D F False (e' # es) pos'))"
  by pat_completeness auto
termination
proof (relation "measure (\<lambda>(D, F, descending, stack, pos). back_weight descending stack)", goal_cases)
  case 1
  show ?case by simp
next
  case 2
  then show ?case using back_entry_weight_pos by (auto simp: back_weight_simps)
next
  case (3 D F descending e es pos)
  then show ?case
    by (cases descending; cases "entry_index e")
      (auto simp: back_weight_simps simp del: back_entry_weight.simps intro!: back_weight_descend)
next
  case (4 D F descending e es pos)
  then show ?case using back_entry_weight_mono
    by (cases descending; cases "entry_index e") (auto simp: back_weight_simps simp del: back_entry_weight.simps)
next
  case (5 D F descending e es pos)
  then show ?case using back_entry_weight_mono
    by (cases descending; cases "entry_index e") (auto simp: back_weight_simps simp del: back_entry_weight.simps)
qed

declare back_loop.simps(2) [simp del]

definition search_backward ::
  "('s, 'd) dim_ops \<Rightarrow> ('s \<Rightarrow> bool) \<Rightarrow> ('t, 's, 'd) cursor \<Rightarrow> ('t, 's, 'd) cursor option" where
  "search_backward D F c =
     (let t = cur_tree c;
          from_end = (\<not> did_seek c \<or> at_end c);
          pos = (if from_end then dzero D else cur_pos c);
          stack =
            (if from_end \<and> \<not> is_empty t
             then \<lparr>entry_tree = t, entry_index = length (child_summaries t),
                   entry_pos = dim_from_summary D (node_summary t)\<rparr> # cur_stack c
             else cur_stack c)
      in map_option
           (\<lambda>(stack', pos'). c\<lparr>did_seek := True, at_end := (from_end \<and> is_empty t), cur_stack := stack', cur_pos := pos'\<rparr>)
           (back_loop D F False stack pos))"

definition cursor_prev ::
  "('s, 'd) dim_ops \<Rightarrow> ('t, 's, 'd) cursor \<Rightarrow> ('t, 's, 'd) cursor option" where
  "cursor_prev D c = search_backward D (\<lambda>s. True) c"

text \<open>The items below the first \<open>n\<close> children of a node, and below the others.\<close>

fun items_upto :: "nat \<Rightarrow> ('t, 's) node \<Rightarrow> 't list" where
  "items_upto n (Leaf s xs ss) = take n xs"
| "items_upto n (Internal h s cs ts) = concat (map tree_items (take n ts))"

fun items_from :: "nat \<Rightarrow> ('t, 's) node \<Rightarrow> 't list" where
  "items_from n (Leaf s xs ss) = drop n xs"
| "items_from n (Internal h s cs ts) = concat (map tree_items (drop n ts))"

fun child_items :: "('t, 's) node \<Rightarrow> nat \<Rightarrow> 't list" where
  "child_items (Leaf s xs ss) i = [xs ! i]"
| "child_items (Internal h s cs ts) i = tree_items (ts ! i)"

lemma items_all:
  "wf_tree S t \<Longrightarrow> items_upto (length (child_summaries t)) t = tree_items t"
  "wf_tree S t \<Longrightarrow> items_from (length (child_summaries t)) t = []"
  by (cases t; simp add: wf_internal)+

lemma items_0 [simp]: "items_upto 0 t = []" "items_from 0 t = tree_items t"
  by (cases t; simp)+

lemma items_Suc:
  assumes "wf_tree S t" "i < length (child_summaries t)"
  shows "items_upto (Suc i) t = items_upto i t @ child_items t i"
    and "items_from i t = child_items t i @ items_from (Suc i) t"
proof -
  have "items_upto (Suc i) t = items_upto i t @ child_items t i \<and>
      items_from i t = child_items t i @ items_from (Suc i) t"
  proof (cases t)
    case (Leaf s xs ss)
    then have "drop i xs = xs ! i # drop (Suc i) xs" using assms by (simp add: Cons_nth_drop_Suc)
    then show ?thesis using assms Leaf by (simp add: take_Suc_conv_app_nth)
  next
    case (Internal h s cs ts)
    then have "drop i ts = ts ! i # drop (Suc i) ts" using assms by (simp add: Cons_nth_drop_Suc wf_internal)
    then show ?thesis using assms Internal by (simp add: take_Suc_conv_app_nth wf_internal)
  qed
  then show "items_upto (Suc i) t = items_upto i t @ child_items t i"
    "items_from i t = child_items t i @ items_from (Suc i) t" by simp_all
qed

text \<open>The state of the loop: the children in front of the index (when descending, the one at the index too) are
  still to be searched.\<close>

definition back_state ::
  "('t, 's) item_ops \<Rightarrow> ('s, 'd) dim_ops \<Rightarrow> ('t, 's) node \<Rightarrow> bool \<Rightarrow> ('t, 's, 'd) stack_entry list
     \<Rightarrow> 't list \<Rightarrow> 't list \<Rightarrow> bool" where
  "back_state S D root descending stack pre suf \<longleftrightarrow>
     (case stack of
        [] \<Rightarrow> pre = [] \<and> suf = tree_items root
      | e # es \<Rightarrow>
          (\<exists>pre0 post n. path S D root es (entry_tree e) pre0 post \<and>
             n = (if descending then entry_index e + 1 else entry_index e) \<and>
             n \<le> length (child_summaries (entry_tree e)) \<and>
             pre = pre0 @ items_upto n (entry_tree e) \<and> suf = items_from n (entry_tree e) @ post))"

context seek_laws
begin

lemma pos_children:
  "wf_children S h ts \<Longrightarrow> foldl (dadd D) d (map node_summary ts) = pos_after S D d (concat (map tree_items ts))"
  by (induction ts arbitrary: d) (auto simp: dadd_tree)

lemma pos_upto:
  assumes "wf_tree S t"
  shows "foldl (dadd D) d (take i (child_summaries t)) = pos_after S D d (items_upto i t)"
  using assms
  by (cases t) (auto simp: wf_internal take_map pos_after_def intro!: pos_children [unfolded pos_after_def] wf_children_take)

lemma path_base:
  assumes "path S D root es u pre0 post"
  shows "(case es of [] \<Rightarrow> dzero D | below # _ \<Rightarrow> entry_pos below) = pos_after S D (dzero D) pre0"
  using assms by (cases rule: path.cases) auto

lemma back_state_pop:
  assumes "path S D root es u pre post" "wf_tree S root"
  shows "back_state S D root False es pre (tree_items u @ post)"
  using assms(1)
proof (cases rule: path.cases)
  case (path_child es' h s cs ts pre' post' i e)
  then have "cs = map node_summary ts" using path_wf [OF path_child(2) assms(2)] by (simp add: wf_internal)
  moreover have "drop i ts = ts ! i # drop (Suc i) ts" using path_child(3) by (simp add: Cons_nth_drop_Suc)
  ultimately show ?thesis using path_child by (auto simp: back_state_def)
qed (simp add: back_state_def)

definition back_result where
  "back_result root F pre suf res \<longleftrightarrow>
     (\<forall>x \<in> set pre. \<not> F (ssummary S x)) \<and> res = Some ([], dzero D) \<or>
     (\<exists>p x q stack'. pre = p @ x # q \<and> F (ssummary S x) \<and> (\<forall>y \<in> set q. \<not> F (ssummary S y)) \<and>
        res = Some (stack', pos_after S D (dzero D) p) \<and> located S D root stack' p (x # q @ suf))"

lemma back_result_skip:
  assumes "back_result root F pre (ys @ suf) res" "\<forall>y \<in> set ys. \<not> F (ssummary S y)"
  shows "back_result root F (pre @ ys) suf res"
  using assms(1) unfolding back_result_def
proof (elim disjE exE)
  fix p x q stack'
  assume "pre = p @ x # q \<and> F (ssummary S x) \<and> (\<forall>y \<in> set q. \<not> F (ssummary S y)) \<and>
    res = Some (stack', pos_after S D (dzero D) p) \<and> located S D root stack' p (x # q @ ys @ suf)"
  with assms(2) show "(\<forall>x \<in> set (pre @ ys). \<not> F (ssummary S x)) \<and> res = Some ([], dzero D) \<or>
     (\<exists>p x q stack'. pre @ ys = p @ x # q \<and> F (ssummary S x) \<and> (\<forall>y \<in> set q. \<not> F (ssummary S y)) \<and>
        res = Some (stack', pos_after S D (dzero D) p) \<and> located S D root stack' p (x # q @ suf))"
    by (intro disjI2 exI [of _ p] exI [of _ x] exI [of _ "q @ ys"] exI [of _ stack']) auto
qed (use assms(2) in auto)

lemma child_rejected:
  assumes "filter_sound S F" "wf_tree S t" "i < length (child_summaries t)" "\<not> F (child_summaries t ! i)"
  shows "\<forall>x \<in> set (child_items t i). \<not> F (ssummary S x)"
proof (cases t)
  case (Internal h s cs ts)
  then have "wf_tree S (ts ! i)" "cs ! i = node_summary (ts ! i)" using assms(2,3) by (auto simp: wf_internal wf_children_def)
  then show ?thesis using assms(1,4) Internal by (auto simp: filter_sound_def)
qed (use assms in auto)

text \<open>One round of the loop: it ends at an accepted item, or goes on with rejected items removed from the
  ones to search.\<close>

definition back_step where
  "back_step root F descending stack pre suf pos \<longleftrightarrow>
     (\<exists>descending' stack' pre' ys pos'. pre = pre' @ ys \<and> back_state S D root descending' stack' pre' (ys @ suf) \<and>
        (\<forall>x \<in> set ys. \<not> F (ssummary S x)) \<and> back_weight descending' stack' < back_weight descending stack \<and>
        (stack' = [] \<longrightarrow> pos' = dzero D) \<and>
        back_loop D F descending stack pos = back_loop D F descending' stack' pos')"

lemma back_loop_round:
  assumes "wf_tree S root" "filter_sound S F" "back_state S D root descending (e # es) pre suf"
  shows "back_step root F descending (e # es) pre suf pos \<or>
    back_result root F pre suf (back_loop D F descending (e # es) pos)"
proof -
  let ?t = "entry_tree e"
  obtain pre0 post n where st: "path S D root es ?t pre0 post" "n = (if descending then entry_index e + 1 else entry_index e)"
      "n \<le> length (child_summaries ?t)" "pre = pre0 @ items_upto n ?t" "suf = items_from n ?t @ post"
    using assms(3) by (auto simp: back_state_def)
  have wf: "wf_tree S ?t" by (rule path_wf [OF st(1) assms(1)])
  show ?thesis
  proof (cases n)
    case 0
    then have "\<not> descending" "entry_index e = 0" using st(2) by (auto split: if_splits)
    then have "back_loop D F descending (e # es) pos = back_loop D F False es (pos_after S D (dzero D) pre0)"
      by (subst back_loop.simps) (simp add: path_base [OF st(1)])
    moreover have "back_state S D root False es pre suf" using back_state_pop [OF st(1) assms(1)] st(4,5) 0 by simp
    moreover have "back_weight False es < back_weight descending (e # es)"
      by (simp add: back_weight_simps back_entry_weight_pos)
    moreover have "es = [] \<longrightarrow> pre0 = []" using st(1) by (auto elim: path_NilE)
    ultimately show ?thesis unfolding back_step_def
      by (intro disjI1 exI [of _ False] exI [of _ es] exI [of _ pre] exI [of _ "[]"] exI [of _ "pos_after S D (dzero D) pre0"]) simp
  next
    case (Suc i)
    then have i: "i = (if descending then entry_index e else entry_index e - 1)" "i < length (child_summaries ?t)"
        "descending \<or> entry_index e \<noteq> 0"
      using st(2,3) by (auto split: if_splits)
    define e' where "e' = e\<lparr>entry_index := i, entry_pos := pos_after S D (dzero D) (pre0 @ items_upto i ?t)\<rparr>"
    have split: "pre = (pre0 @ items_upto i ?t) @ child_items ?t i" "items_from i ?t = child_items ?t i @ items_from n ?t"
      using items_Suc [OF wf i(2)] Suc st(4) by simp_all
    have weight: "back_weight False (e' # es) < back_weight descending (e # es)"
      using back_entry_weight_mono [of i ?t] Suc st(2) by (cases descending) (auto simp: back_weight_simps e'_def)
    have loop: "back_loop D F descending (e # es) pos =
       (case ?t of
          Internal h s cs' ts \<Rightarrow>
            if F (child_summaries ?t ! i) then
              if i < length ts \<and> child_summaries (ts ! i) \<noteq> [] then
                back_loop D F True
                  (\<lparr>entry_tree = ts ! i, entry_index = length (child_summaries (ts ! i)) - 1, entry_pos = dzero D\<rparr> # e' # es)
                  (entry_pos e')
              else None
            else back_loop D F False (e' # es) (entry_pos e')
        | Leaf s xs ss \<Rightarrow>
            if F (child_summaries ?t ! i) then Some (e' # es, entry_pos e') else back_loop D F False (e' # es) (entry_pos e'))"
      using i by (subst back_loop.simps) (auto simp: Let_def path_base [OF st(1)] pos_upto [OF wf] e'_def split: node.split)
    show ?thesis
    proof (cases "F (child_summaries ?t ! i)")
      case False
      have "back_state S D root False (e' # es) (pre0 @ items_upto i ?t) (child_items ?t i @ suf)"
        using st(1,5) i(2) split by (auto simp: back_state_def e'_def)
      moreover have "back_loop D F descending (e # es) pos = back_loop D F False (e' # es) (entry_pos e')"
        using loop False by (cases ?t) auto
      ultimately show ?thesis unfolding back_step_def using split(1) weight child_rejected [OF assms(2) wf i(2) False]
        by (intro disjI1 exI [of _ False] exI [of _ "e' # es"] exI [of _ "pre0 @ items_upto i ?t"]
          exI [of _ "child_items ?t i"] exI [of _ "entry_pos e'"]) simp
    next
      case True
      show ?thesis
      proof (cases ?t)
        case (Leaf s xs ss)
        then have "located S D root (e' # es) (pre0 @ take i xs) (xs ! i # suf)"
          using st(1,5) i(2) split wf by (auto simp: located_def e'_def)
        then have "back_result root F pre suf (Some (e' # es, entry_pos e'))"
          unfolding back_result_def using True Leaf split(1) wf i(2)
          by (intro disjI2 exI [of _ "pre0 @ take i xs"] exI [of _ "xs ! i"] exI [of _ "[]"] exI [of _ "e' # es"])
            (simp add: e'_def)
        then show ?thesis using loop True Leaf by simp
      next
        case (Internal h s cs ts)
        let ?u = "ts ! i"
        let ?f = "\<lparr>entry_tree = ?u, entry_index = length (child_summaries ?u) - 1, entry_pos = dzero D\<rparr>"
        have len: "i < length ts" using i(2) wf Internal by (simp add: wf_internal)
        have u: "wf_tree S ?u" "tree_items ?u \<noteq> []" using wf len Internal by (auto simp: wf_internal wf_children_def)
        then have ne: "child_summaries ?u \<noteq> []" by (cases ?u) (auto simp: wf_internal)
        have "path S D root (e' # es) ?u (pre0 @ items_upto i ?t) (items_from n ?t @ post)"
          by (rule path_child [OF st(1) [unfolded Internal] len]) (simp_all add: e'_def Internal Suc)
        then have "back_state S D root True (?f # e' # es) pre suf"
          using st(5) split(1) u ne Internal items_all [OF u(1)]
          by (auto simp: back_state_def intro!: exI [of _ "pre0 @ items_upto i ?t"])
        moreover have "back_weight True (?f # e' # es) < back_weight descending (e # es)"
          using back_weight_descend [OF len, of h s cs] ne Suc st(2) Internal
          by (cases descending) (auto simp: back_weight_simps e'_def simp del: back_entry_weight.simps)
        ultimately show ?thesis unfolding back_step_def using loop True Internal len ne
          by (intro disjI1 exI [of _ True] exI [of _ "?f # e' # es"] exI [of _ pre] exI [of _ "[]"] exI [of _ "entry_pos e'"]) simp
      qed
    qed
  qed
qed

lemma back_loop_spec:
  assumes "wf_tree S root" "filter_sound S F" "back_state S D root descending stack pre suf" "stack = [] \<longrightarrow> pos = dzero D"
  shows "back_result root F pre suf (back_loop D F descending stack pos)"
  using assms(3-)
proof (induction "back_weight descending stack" arbitrary: descending stack pos pre suf rule: less_induct)
  case less
  show ?case
  proof (cases stack)
    case Nil
    then show ?thesis using less.prems by (simp add: back_result_def back_state_def)
  next
    case (Cons e es)
    from back_loop_round [OF assms(1,2) less.prems(1) [unfolded Cons], of pos] show ?thesis
    proof
      assume "back_step root F descending (e # es) pre suf pos"
      then obtain descending' stack' pre' ys pos' where r: "pre = pre' @ ys" "back_state S D root descending' stack' pre' (ys @ suf)"
        "\<forall>x \<in> set ys. \<not> F (ssummary S x)" "back_weight descending' stack' < back_weight descending (e # es)"
        "stack' = [] \<longrightarrow> pos' = dzero D" "back_loop D F descending (e # es) pos = back_loop D F descending' stack' pos'"
        unfolding back_step_def by blast
      have "back_result root F pre' (ys @ suf) (back_loop D F descending' stack' pos')"
        using r(4) Cons by (intro less.hyps r) simp
      from back_result_skip [OF this r(3)] show ?thesis using r(1,6) Cons by simp
    qed (simp add: Cons)
  qed
qed

end

text \<open>In front of the whole tree, after running off its start; the cursor then has no item.\<close>

definition cursor_front :: "('t, 's) item_ops \<Rightarrow> ('s, 'd) dim_ops \<Rightarrow> ('t, 's, 'd) cursor \<Rightarrow> bool" where
  "cursor_front S D c \<longleftrightarrow>
     wf_tree S (cur_tree c) \<and> did_seek c \<and> cur_stack c = [] \<and> cur_pos c = dzero D \<and>
     at_end c = is_empty (cur_tree c)"

text \<open>A cursor that has the items \<open>pre\<close> behind it; an unpositioned cursor has all of them.\<close>

definition cursor_behind ::
  "('t, 's) item_ops \<Rightarrow> ('s, 'd) dim_ops \<Rightarrow> ('t, 's, 'd) cursor \<Rightarrow> 't list \<Rightarrow> 't list \<Rightarrow> bool" where
  "cursor_behind S D c pre suf \<longleftrightarrow>
     cursor_at S D c pre suf \<or> (cursor_front S D c \<and> pre = [] \<and> suf = tree_items (cur_tree c)) \<or>
     (cursor_fresh S D c \<and> pre = tree_items (cur_tree c) \<and> suf = [])"

context seek_laws
begin

lemma back_state_end:
  assumes "wf_tree S t"
  shows "back_state S D t False [\<lparr>entry_tree = t, entry_index = length (child_summaries t), entry_pos = p\<rparr>] (tree_items t) []"
  using assms items_all path_root by (fastforce simp: back_state_def)

lemma back_state_located:
  assumes "located S D root stack pre suf" "wf_tree S root" "stack \<noteq> []"
  shows "back_state S D root False stack pre suf"
proof -
  obtain e es where Cons: "stack = e # es" using assms(3) by (cases stack) auto
  then obtain s xs ss pre0 post where "entry_tree e = Leaf s xs ss" "path S D root es (Leaf s xs ss) pre0 post"
      "entry_index e < length xs" "pre = pre0 @ take (entry_index e) xs" "suf = drop (entry_index e) xs @ post"
    using assms(1) by (auto simp: located_def)
  moreover have "ss = map (ssummary S) xs" using path_wf [OF calculation(2) assms(2)] by simp
  ultimately show ?thesis using Cons by (auto simp: back_state_def)
qed

lemma search_backward_spec:
  assumes "filter_sound S F" "cursor_behind S D c pre suf"
  shows "\<exists>c'. search_backward D F c = Some c' \<and> cur_tree c' = cur_tree c \<and>
    ((\<forall>x \<in> set pre. \<not> F (ssummary S x)) \<and> cursor_front S D c' \<or>
     (\<exists>p x q. pre = p @ x # q \<and> F (ssummary S x) \<and> (\<forall>y \<in> set q. \<not> F (ssummary S y)) \<and>
        cursor_at S D c' p (x # q @ suf)))"
proof -
  have wf: "wf_tree S (cur_tree c)"
    using assms(2) by (auto simp: cursor_behind_def cursor_at_def cursor_fresh_def cursor_front_def)
  define from_end where "from_end = (\<not> did_seek c \<or> at_end c)"
  define pos where "pos = (if from_end then dzero D else cur_pos c)"
  define stack where "stack = (if from_end \<and> \<not> is_empty (cur_tree c)
     then \<lparr>entry_tree = cur_tree c, entry_index = length (child_summaries (cur_tree c)),
           entry_pos = dim_from_summary D (node_summary (cur_tree c))\<rparr> # cur_stack c
     else cur_stack c)"
  have st: "back_state S D (cur_tree c) False stack pre suf \<and> (stack = [] \<longrightarrow> pos = dzero D)"
  proof (cases "is_empty (cur_tree c)")
    case True
    then have "tree_items (cur_tree c) = []" using is_empty_iff [OF wf] by simp
    then show ?thesis using assms(2) True cursor_at_items [of S D c pre suf] located_stack [of S D "cur_tree c" "cur_stack c" pre suf]
      by (auto simp: cursor_behind_def cursor_at_def cursor_front_def cursor_fresh_def stack_def pos_def from_end_def back_state_def)
  next
    case False
    have ends: "cur_stack c = [] \<and> pre = tree_items (cur_tree c) \<and> suf = []" if from_end
      using that assms(2) False located_stack [of S D "cur_tree c" "cur_stack c" pre suf] cursor_at_items [of S D c pre suf]
      by (auto simp: from_end_def cursor_behind_def cursor_at_def cursor_front_def cursor_fresh_def)
    show ?thesis
    proof (cases from_end)
      case True
      then show ?thesis using ends False back_state_end [OF wf] by (simp add: stack_def)
    next
      case F: False
      then show ?thesis using assms(2) False back_state_located [OF _ wf] located_stack [of S D "cur_tree c" "cur_stack c" pre suf]
        by (auto simp: from_end_def stack_def pos_def cursor_behind_def cursor_at_def cursor_front_def cursor_fresh_def back_state_def)
    qed
  qed
  have result: "search_backward D F c = map_option
      (\<lambda>(stack', pos'). c\<lparr>did_seek := True, at_end := (from_end \<and> is_empty (cur_tree c)), cur_stack := stack', cur_pos := pos'\<rparr>)
      (back_loop D F False stack pos)"
    by (simp add: search_backward_def Let_def stack_def pos_def from_end_def)
  have empty_end: "from_end" if "is_empty (cur_tree c)"
    using that assms(2) is_empty_iff [OF wf] cursor_at_items [of S D c pre suf]
    by (auto simp: from_end_def cursor_behind_def cursor_at_def cursor_front_def cursor_fresh_def)
  from back_loop_spec [OF wf assms(1) conjunct1 [OF st] conjunct2 [OF st]] show ?thesis
    unfolding back_result_def
  proof (elim disjE exE)
    assume "(\<forall>x \<in> set pre. \<not> F (ssummary S x)) \<and> back_loop D F False stack pos = Some ([], dzero D)"
    then show ?thesis using result wf empty_end by (auto simp: cursor_front_def)
  next
    fix p x q stack'
    assume a: "pre = p @ x # q \<and> F (ssummary S x) \<and> (\<forall>y \<in> set q. \<not> F (ssummary S y)) \<and>
      back_loop D F False stack pos = Some (stack', pos_after S D (dzero D) p) \<and>
      located S D (cur_tree c) stack' p (x # q @ suf)"
    then have "\<not> is_empty (cur_tree c)" using located_items is_empty_iff [OF wf] by fastforce
    with a show ?thesis using result wf
      by (intro exI [of _ "c\<lparr>did_seek := True, at_end := False, cur_stack := stack', cur_pos := pos_after S D (dzero D) p\<rparr>"])
        (auto simp: cursor_at_def)
  qed
qed

lemma cursor_prev_spec:
  assumes "cursor_behind S D c pre suf"
  shows "\<exists>c'. cursor_prev D c = Some c' \<and> cur_tree c' = cur_tree c \<and>
    (if pre = [] then cursor_front S D c' else cursor_at S D c' (butlast pre) (last pre # suf))"
proof -
  obtain c' where c': "cursor_prev D c = Some c'" "cur_tree c' = cur_tree c"
     "pre = [] \<and> cursor_front S D c' \<or> (\<exists>p x. pre = p @ [x] \<and> cursor_at S D c' p (x # suf))"
    using search_backward_spec [OF filter_sound_True assms] unfolding cursor_prev_def by auto
  then show ?thesis by (intro exI [of _ c']) auto
qed

lemma cursor_next_front:
  assumes "cursor_front S D c"
  shows "\<exists>c'. cursor_next D c = Some c' \<and> cur_tree c' = cur_tree c \<and> cursor_at S D c' [] (tree_items (cur_tree c))"
proof -
  have "cursor_fresh S D (c\<lparr>did_seek := False\<rparr>)" using assms by (simp add: cursor_front_def cursor_fresh_def)
  from cursor_next_fresh [OF this] show ?thesis using assms
    by (auto simp: cursor_front_def cursor_next_def search_forward_def Let_def split: if_splits)
qed

end

subsection \<open>Neighbours of the current item\<close>

text \<open>\<open>next_leaf\<close> and \<open>prev_leaf\<close> scan the entries below the top of the stack.\<close>

fun next_leaf :: "('t, 's, 'd) stack_entry list \<Rightarrow> ('t, 's) node option option" where
  "next_leaf [] = Some None"
| "next_leaf (e # es) =
     (case entry_tree e of
        Internal h s cs ts \<Rightarrow>
          if ts = [] then None
          else if entry_index e < length ts - 1 then map_option Some (leftmost_leaf (ts ! (entry_index e + 1)))
          else next_leaf es
      | Leaf s xs ss \<Rightarrow> None)"

fun prev_leaf :: "('t, 's, 'd) stack_entry list \<Rightarrow> ('t, 's) node option option" where
  "prev_leaf [] = Some None"
| "prev_leaf (e # es) =
     (if entry_index e \<noteq> 0 then
        (case entry_tree e of
           Internal h s cs ts \<Rightarrow>
             if entry_index e - 1 < length ts then map_option Some (rightmost_leaf (ts ! (entry_index e - 1))) else None
         | Leaf s xs ss \<Rightarrow> None)
      else prev_leaf es)"

definition cursor_next_item :: "('t, 's, 'd) cursor \<Rightarrow> 't option option" where
  "cursor_next_item c =
     (if \<not> did_seek c then None
      else
        (case cur_stack c of
           [] \<Rightarrow> if at_end c then Some None else tree_first (cur_tree c)
         | e # es \<Rightarrow>
             (case entry_tree e of
                Leaf s xs ss \<Rightarrow>
                  if xs = [] then None
                  else if entry_index e = length xs - 1 then
                    Option.bind (next_leaf es) (\<lambda>leaf.
                      (case leaf of
                         None \<Rightarrow> Some None
                       | Some (Leaf s xs ss) \<Rightarrow> map_option Some (head_opt xs)
                       | Some (Internal h s cs ts) \<Rightarrow> None))
                  else if entry_index e + 1 < length xs then Some (Some (xs ! (entry_index e + 1)))
                  else None
              | Internal h s cs ts \<Rightarrow> None)))"

definition cursor_prev_item :: "('t, 's, 'd) cursor \<Rightarrow> 't option option" where
  "cursor_prev_item c =
     (if \<not> did_seek c then None
      else
        (case cur_stack c of
           [] \<Rightarrow> if at_end c then tree_last (cur_tree c) else Some None
         | e # es \<Rightarrow>
             if entry_index e = 0 then
               Option.bind (prev_leaf es) (\<lambda>leaf.
                 (case leaf of
                    None \<Rightarrow> Some None
                  | Some (Leaf s xs ss) \<Rightarrow> map_option Some (last_opt xs)
                  | Some (Internal h s cs ts) \<Rightarrow> None))
             else
               (case entry_tree e of
                  Leaf s xs ss \<Rightarrow> if entry_index e - 1 < length xs then Some (Some (xs ! (entry_index e - 1))) else None
                | Internal h s cs ts \<Rightarrow> None)))"

lemma located_ConsE:
  assumes "located S D root (e # es) pre suf"
  obtains s xs ss pre0 post where "entry_tree e = Leaf s xs ss" "path S D root es (Leaf s xs ss) pre0 post"
    "entry_index e < length xs" "pre = pre0 @ take (entry_index e) xs" "suf = drop (entry_index e) xs @ post"
  using assms by (auto simp: located_def)

context seek_laws
begin

lemma next_leaf_spec:
  assumes "path S D root es u pre post" "wf_tree S root"
  shows "next_leaf es = Some None \<and> post = [] \<or>
    (\<exists>s xs ss. next_leaf es = Some (Some (Leaf s xs ss)) \<and> xs \<noteq> [] \<and> head_opt post = head_opt xs)"
  using assms
proof (induction rule: path.induct)
  case (path_child es h s cs ts pre post i e pre' post' u)
  have wf: "wf_children S h ts" using path_wf [OF path_child(1) path_child.prems] by (auto simp: wf_internal)
  show ?case
  proof (cases "i < length ts - 1")
    case True
    then have t: "wf_tree S (ts ! Suc i)" "tree_items (ts ! Suc i) \<noteq> []" using wf by (auto simp: wf_children_def)
    obtain s' xs ss ys where l: "leftmost_leaf (ts ! Suc i) = Some (Leaf s' xs ss)" "xs \<noteq> []" "tree_items (ts ! Suc i) = xs @ ys"
      using leftmost_leaf_spec [OF t(1)] t(2) by blast
    have "drop (Suc i) ts = ts ! Suc i # drop (Suc (Suc i)) ts" using True by (simp add: Cons_nth_drop_Suc)
    then have "head_opt post' = head_opt xs" using path_child l by (simp add: head_opt_def)
    then show ?thesis using path_child l True by auto
  next
    case False
    then show ?thesis using path_child by auto
  qed
qed simp

lemma prev_leaf_spec:
  assumes "path S D root es u pre post" "wf_tree S root"
  shows "prev_leaf es = Some None \<and> pre = [] \<or>
    (\<exists>s xs ss. prev_leaf es = Some (Some (Leaf s xs ss)) \<and> xs \<noteq> [] \<and> last_opt pre = last_opt xs)"
  using assms
proof (induction rule: path.induct)
  case (path_child es h s cs ts pre post i e pre' post' u)
  have wf: "wf_children S h ts" using path_wf [OF path_child(1) path_child.prems] by (auto simp: wf_internal)
  show ?case
  proof (cases i)
    case (Suc j)
    then have t: "wf_tree S (ts ! j)" "tree_items (ts ! j) \<noteq> []" "j < length ts" using wf path_child by (auto simp: wf_children_def)
    obtain s' xs ss ys where l: "rightmost_leaf (ts ! j) = Some (Leaf s' xs ss)" "xs \<noteq> []" "tree_items (ts ! j) = ys @ xs"
      using rightmost_leaf_spec [OF t(1)] t(2) by blast
    have "take i ts = take j ts @ [ts ! j]" using t(3) Suc by (simp add: take_Suc_conv_app_nth)
    then have "last_opt pre' = last_opt xs" using path_child l by (simp add: last_opt_def)
    then show ?thesis using path_child l t Suc by auto
  next
    case 0
    then show ?thesis using path_child by auto
  qed
qed simp

lemma cursor_next_item_spec:
  assumes "cursor_at S D c pre suf"
  shows "cursor_next_item c = Some (head_opt (tl suf))"
proof (cases "cur_stack c")
  case Nil
  then show ?thesis using assms by (auto simp: cursor_at_def cursor_next_item_def located_def head_opt_def)
next
  case (Cons e es)
  have c: "did_seek c" "wf_tree S (cur_tree c)" "located S D (cur_tree c) (e # es) pre suf"
    using assms Cons by (auto simp: cursor_at_def)
  obtain s xs ss pre0 post where e: "entry_tree e = Leaf s xs ss" "path S D (cur_tree c) es (Leaf s xs ss) pre0 post"
      "entry_index e < length xs" "suf = drop (entry_index e) xs @ post"
    by (rule located_ConsE [OF c(3)])
  have tl: "tl suf = drop (Suc (entry_index e)) xs @ post" using e(3,4) by (simp add: Cons_nth_drop_Suc [symmetric])
  show ?thesis
  proof (cases "entry_index e = length xs - 1")
    case True
    then show ?thesis using next_leaf_spec [OF e(2) c(2)] e tl c Cons by (auto simp: cursor_next_item_def head_opt_def)
  next
    case False
    then show ?thesis using e tl c Cons by (auto simp: cursor_next_item_def head_opt_def hd_append hd_drop_conv_nth)
  qed
qed

lemma cursor_prev_item_spec:
  assumes "cursor_at S D c pre suf"
  shows "cursor_prev_item c = Some (last_opt pre)"
proof (cases "cur_stack c")
  case Nil
  then show ?thesis using assms tree_last_spec by (auto simp: cursor_at_def cursor_prev_item_def located_def)
next
  case (Cons e es)
  have c: "did_seek c" "wf_tree S (cur_tree c)" "located S D (cur_tree c) (e # es) pre suf"
    using assms Cons by (auto simp: cursor_at_def)
  obtain s xs ss pre0 post where e: "entry_tree e = Leaf s xs ss" "path S D (cur_tree c) es (Leaf s xs ss) pre0 post"
      "entry_index e < length xs" "pre = pre0 @ take (entry_index e) xs"
    by (rule located_ConsE [OF c(3)])
  show ?thesis
  proof (cases "entry_index e")
    case 0
    then show ?thesis using prev_leaf_spec [OF e(2) c(2)] e c Cons by (auto simp: cursor_prev_item_def last_opt_def)
  next
    case (Suc j)
    then show ?thesis using e c Cons by (auto simp: cursor_prev_item_def last_opt_def take_Suc_conv_app_nth)
  qed
qed

end

subsection \<open>Iterators\<close>

text \<open>\<open>Iter::next\<close>: a stack without positions, restarted at the root when it is empty.\<close>

function iter_loop :: "bool \<Rightarrow> ('t, 's, unit) stack_entry list \<Rightarrow> 't option \<times> ('t, 's, unit) stack_entry list" where
  "iter_loop descend [] = (None, [])"
| "iter_loop descend (e # es) =
     (let i = (if descend then entry_index e else entry_index e + 1);
          e' = e\<lparr>entry_index := i\<rparr> in
      (case entry_tree e of
         Internal h s cs ts \<Rightarrow>
           if i < length ts then
             iter_loop True (\<lparr>entry_tree = ts ! i, entry_index = 0, entry_pos = ()\<rparr> # e' # es)
           else iter_loop False es
       | Leaf s xs ss \<Rightarrow> if i < length xs then (Some (xs ! i), e' # es) else iter_loop False es))"
  by pat_completeness auto
termination
proof (relation "measure (\<lambda>(descend, stack). stack_weight (\<not> descend) stack)", goal_cases)
  case (2 descend e es i e' h s cs ts)
  then show ?case using weight_descend [of i i ts] by (auto simp: stack_weight_simps)
qed (auto simp: stack_weight_simps entry_weight_pos)

declare iter_loop.simps(2) [simp del]

definition iter_next ::
  "('t, 's) node \<Rightarrow> ('t, 's, unit) stack_entry list \<Rightarrow> 't option \<times> ('t, 's, unit) stack_entry list" where
  "iter_next t stack =
     (if stack = [] then iter_loop True [\<lparr>entry_tree = t, entry_index = 0, entry_pos = ()\<rparr>]
      else iter_loop False stack)"

text \<open>What \<open>n\<close> calls yield, up to the first \<open>None\<close>.\<close>

fun iter_run :: "nat \<Rightarrow> ('t, 's) node \<Rightarrow> ('t, 's, unit) stack_entry list \<Rightarrow> 't list" where
  "iter_run 0 t stack = []"
| "iter_run (Suc n) t stack =
     (case iter_next t stack of (None, stack') \<Rightarrow> [] | (Some x, stack') \<Rightarrow> x # iter_run n t stack')"

text \<open>\<open>Iterator for Cursor\<close>, and the filter cursor with its iterator.\<close>

definition cursor_iter_next ::
  "('s, 'd) dim_ops \<Rightarrow> ('t, 's, 'd) cursor \<Rightarrow> ('t option \<times> ('t, 's, 'd) cursor) option" where
  "cursor_iter_next D c =
     Option.bind (if did_seek c then Some c else cursor_next D c) (\<lambda>c.
     Option.bind (cursor_item c) (\<lambda>item.
       (case item of
          Some x \<Rightarrow> map_option (\<lambda>c'. (Some x, c')) (cursor_next D c)
        | None \<Rightarrow> Some (None, c))))"

definition filter_cursor_new :: "('s, 'd) dim_ops \<Rightarrow> ('t, 's) node \<Rightarrow> ('t, 's, 'd) cursor" where
  "filter_cursor_new D t = cursor_new D t"

definition filter_cursor_next ::
  "('s, 'd) dim_ops \<Rightarrow> ('s \<Rightarrow> bool) \<Rightarrow> ('t, 's, 'd) cursor \<Rightarrow> ('t, 's, 'd) cursor option" where
  "filter_cursor_next D F c = search_forward D F c"

definition filter_cursor_prev ::
  "('s, 'd) dim_ops \<Rightarrow> ('s \<Rightarrow> bool) \<Rightarrow> ('t, 's, 'd) cursor \<Rightarrow> ('t, 's, 'd) cursor option" where
  "filter_cursor_prev D F c = search_backward D F c"

definition filter_iter_next ::
  "('s, 'd) dim_ops \<Rightarrow> ('s \<Rightarrow> bool) \<Rightarrow> ('t, 's, 'd) cursor \<Rightarrow> ('t option \<times> ('t, 's, 'd) cursor) option" where
  "filter_iter_next D F c =
     Option.bind (if did_seek c then Some c else filter_cursor_next D F c) (\<lambda>c.
     Option.bind (cursor_item c) (\<lambda>item.
       (case item of
          Some x \<Rightarrow> map_option (\<lambda>c'. (Some x, c')) (search_forward D F c)
        | None \<Rightarrow> Some (None, c))))"

fun filter_run :: "nat \<Rightarrow> ('s, 'd) dim_ops \<Rightarrow> ('s \<Rightarrow> bool) \<Rightarrow> ('t, 's, 'd) cursor \<Rightarrow> 't list option" where
  "filter_run 0 D F c = Some []"
| "filter_run (Suc n) D F c =
     (case filter_iter_next D F c of
        None \<Rightarrow> None
      | Some (None, c') \<Rightarrow> Some []
      | Some (Some x, c') \<Rightarrow> map_option ((#) x) (filter_run n D F c'))"

lemma cursor_iter_is_filter:
  fixes c :: "('t, 's, 'd) cursor" shows "cursor_iter_next D c = filter_iter_next D (\<lambda>s. True) c"
proof -
  have "(cursor_next D :: ('t, 's, 'd) cursor \<Rightarrow> _) = search_forward D (\<lambda>s. True)" by (rule ext) (simp add: cursor_next_def)
  then show ?thesis by (simp only: cursor_iter_next_def filter_iter_next_def filter_cursor_next_def)
qed

lemma unit_entry_pos: "(e :: ('t, 's, unit) stack_entry)\<lparr>entry_pos := p\<rparr> = e"
  by (cases e) simp

text \<open>The iterator takes the steps of a forward search that accepts everything.\<close>

lemma iter_loop_search:
  assumes "\<forall>e \<in> set stack. wf_tree S (entry_tree e)"
    and "search_loop unit_dim (\<lambda>s. True) descend stack pos = Some (stack', pos')"
  shows "iter_loop descend stack =
    (case stack' of [] \<Rightarrow> None | e # es \<Rightarrow> map_option (\<lambda>xs. xs ! entry_index e) (node_items (entry_tree e)), stack')"
  using assms
proof (induction "stack_weight (\<not> descend) stack" arbitrary: descend stack pos rule: less_induct)
  case less
  show ?case
  proof (cases stack)
    case Nil
    then show ?thesis using less.prems by auto
  next
    case (Cons e es)
    define i where "i = (if descend then entry_index e else entry_index e + 1)"
    have skip: "skip_rejected D (\<lambda>s. True) j ep p ss = (j, ep, p)" for D :: "('s, unit) dim_ops" and j ep p ss by (cases ss) auto
    have rest: "\<forall>e \<in> set es. wf_tree S (entry_tree e)" using less.prems Cons by simp
    have pop: "stack_weight True es < stack_weight (\<not> descend) stack"
      by (simp add: Cons stack_weight_simps entry_weight_pos)
    have wf: "wf_tree S (entry_tree e)" using less.prems Cons by simp
    show ?thesis
    proof (cases "entry_tree e")
      case (Internal h s cs ts)
      let ?child = "\<lparr>entry_tree = ts ! i, entry_index = 0, entry_pos = ()\<rparr> # e\<lparr>entry_index := i\<rparr> # es"
      have "search_loop unit_dim (\<lambda>s. True) descend stack pos =
          (if i < length ts then search_loop unit_dim (\<lambda>s. True) True ?child pos
           else search_loop unit_dim (\<lambda>s. True) False es pos)"
        using Internal by (subst (1) Cons, subst (1) search_loop.simps) (simp add: i_def skip Let_def unit_entry_pos)
      moreover have "iter_loop descend stack = (if i < length ts then iter_loop True ?child else iter_loop False es)"
        using Internal by (subst (1) Cons, subst (1) iter_loop.simps) (simp add: i_def Let_def)
      moreover have "i < length ts \<Longrightarrow> stack_weight False ?child < stack_weight (\<not> descend) stack"
        using weight_descend [of i i ts] Internal Cons by (auto simp: stack_weight_simps i_def)
      moreover have "i < length ts \<Longrightarrow> wf_tree S (ts ! i)" using wf Internal by (auto simp: wf_internal wf_children_def)
      ultimately show ?thesis using less.hyps [of True ?child pos] less.hyps [of False es pos] less.prems(2) pop rest wf
        by (cases "i < length ts") auto
    next
      case (Leaf s xs ss)
      have len: "length ss = length xs" using wf Leaf by simp
      have "search_loop unit_dim (\<lambda>s. True) descend stack pos =
          (if \<not> descend \<and> length ss \<le> entry_index e then None
           else if i < length ss then Some (e\<lparr>entry_index := i\<rparr> # es, pos) else search_loop unit_dim (\<lambda>s. True) False es pos)"
        using Leaf by (subst (1) Cons, subst (1) search_loop.simps) (simp add: i_def skip Let_def unit_entry_pos)
      moreover have "iter_loop descend stack =
          (if i < length xs then (Some (xs ! i), e\<lparr>entry_index := i\<rparr> # es) else iter_loop False es)"
        using Leaf by (subst (1) Cons, subst (1) iter_loop.simps) (simp add: i_def Let_def)
      ultimately show ?thesis using less.hyps [of False es pos] less.prems(2) pop rest len Leaf
        by (cases "i < length xs") (auto split: if_splits)
    qed
  qed
qed

lemma lawful_unit_dim: "lawful_dim S unit_dim"
  by (simp add: lawful_dim_def unit_dim_def)

context summary_laws
begin

sublocale unit_seek: seek_laws S unit_dim
  by unfold_locales (rule lawful_unit_dim)

lemma located_wf:
  assumes "located S D root stack pre suf" "wf_tree S root"
  shows "\<forall>e \<in> set stack. wf_tree S (entry_tree e)"
proof -
  have *: "path S D root es u pre post \<Longrightarrow> \<forall>e \<in> set es. wf_tree S (entry_tree e)" for es u pre post
    by (induction rule: path.induct) (use assms(2) in \<open>auto dest: path_wf\<close>)
  show ?thesis
  proof (cases stack)
    case (Cons e es)
    obtain s xs ss pre0 post where "entry_tree e = Leaf s xs ss" "path S D root es (Leaf s xs ss) pre0 post"
      using assms(1) Cons by (auto elim: located_ConsE)
    then show ?thesis using * path_wf assms(2) Cons by fastforce
  qed simp
qed

lemma iter_next_spec:
  assumes "wf_tree S t" "stack = [] \<and> suf = tree_items t \<or> (\<exists>pre x. located S unit_dim t stack pre (x # suf))"
  shows "\<exists>stack'. iter_next t stack = (head_opt suf, stack') \<and>
    (suf \<noteq> [] \<longrightarrow> (\<exists>pre. located S unit_dim t stack' pre suf))"
proof -
  define start where "start = (if stack = [] then [\<lparr>entry_tree = t, entry_index = 0, entry_pos = ()\<rparr>] else stack)"
  have wf: "\<forall>e \<in> set start. wf_tree S (entry_tree e)" using assms located_wf [of unit_dim t stack] by (auto simp: start_def)
  have "\<exists>stack' pos' pre. search_loop unit_dim (\<lambda>s. True) (stack = []) start () = Some (stack', pos') \<and>
      located S unit_dim t stack' pre suf"
  proof (cases stack)
    case Nil
    then have "suf = tree_items t" using assms(2) by (auto simp: located_def)
    then have "seek_state S unit_dim t False start [] suf"
      using seek_state_fresh [of S unit_dim t] Nil by (simp add: start_def unit_dim_def)
    then show ?thesis
      using unit_seek.search_loop_spec [OF assms(1) skip_sound_True, of True start "[]" suf "()"] Nil
      by (cases suf) (auto simp: unit_seek.search_result_def)
  next
    case (Cons e es)
    then obtain pre x where l: "located S unit_dim t (e # es) pre (x # suf)" using assms(2) by auto
    from unit_seek.search_loop_over_item [OF assms(1) l, of "()" "\<lambda>s. True"] obtain f where
      "seek_state S unit_dim t False (f # es) (pre @ [x]) suf"
      "search_loop unit_dim (\<lambda>s. True) False (e # es) () = search_loop unit_dim (\<lambda>s. True) True (f # es) ()"
      by auto
    then show ?thesis
      using unit_seek.search_loop_spec [OF assms(1) skip_sound_True, of True "f # es" "pre @ [x]" suf "()"] Cons
      by (cases suf) (auto simp: unit_seek.search_result_def start_def)
  qed
  then obtain stack' pos' pre where r: "search_loop unit_dim (\<lambda>s. True) (stack = []) start () = Some (stack', pos')"
      "located S unit_dim t stack' pre suf" by blast
  have "iter_next t stack = iter_loop (stack = []) start" by (simp add: iter_next_def start_def)
  with iter_loop_search [OF wf r(1)] r(2) show ?thesis
    by (cases stack') (auto simp: located_def head_opt_def hd_append hd_drop_conv_nth)
qed

lemma iter_run_spec:
  assumes "wf_tree S t" "stack = [] \<and> suf = tree_items t \<or> (\<exists>pre x. located S unit_dim t stack pre (x # suf))"
  shows "iter_run n t stack = take n suf"
  using assms(2)
proof (induction n arbitrary: stack suf)
  case (Suc n)
  obtain stack' where s: "iter_next t stack = (head_opt suf, stack')" "suf \<noteq> [] \<longrightarrow> (\<exists>pre. located S unit_dim t stack' pre suf)"
    using iter_next_spec [OF assms(1) Suc.prems] by blast
  show ?case
  proof (cases suf)
    case Nil
    then show ?thesis using s(1) by (simp add: head_opt_def)
  next
    case (Cons x suf')
    then have "iter_run n t stack' = take n suf'" using s(2) by (intro Suc.IH) auto
    then show ?thesis using s(1) Cons by (simp add: head_opt_def)
  qed
qed simp

end

context seek_laws
begin

lemma filter_run_at:
  assumes "filter_sound S F" "cursor_at S D c pre suf" "suf \<noteq> [] \<longrightarrow> F (ssummary S (hd suf))"
  shows "filter_run n D F c = Some (take n (filter (\<lambda>x. F (ssummary S x)) suf))"
  using assms(2,3)
proof (induction n arbitrary: c pre suf)
  case (Suc n)
  have seek: "did_seek c" and item: "cursor_item c = Some (head_opt suf)"
    using Suc.prems(1) cursor_item_located(1) by (auto simp: cursor_at_def)
  show ?case
  proof (cases suf)
    case Nil
    then show ?thesis using seek item by (simp add: filter_iter_next_def head_opt_def)
  next
    case (Cons x suf')
    let ?P = "\<lambda>x. \<not> F (ssummary S x)"
    have "cursor_before S D c pre suf" using Suc.prems(1) by (simp add: cursor_before_def)
    moreover have "suf' = (if did_seek c then tl suf else suf)" "[x] = (if did_seek c then take 1 suf else [])"
      using seek Cons by simp_all
    ultimately obtain c' where c': "search_forward D F c = Some c'"
        "cursor_at S D c' (pre @ [x] @ takeWhile ?P suf') (dropWhile ?P suf')"
      using search_forward_spec [OF assms(1)] by blast
    have "filter_run n D F c' = Some (take n (filter (\<lambda>x. F (ssummary S x)) (dropWhile ?P suf')))"
      using c'(2) hd_dropWhile [of ?P suf'] by (intro Suc.IH) auto
    moreover have "filter (\<lambda>x. F (ssummary S x)) (dropWhile ?P suf') = filter (\<lambda>x. F (ssummary S x)) suf'"
      by (induction suf') auto
    ultimately show ?thesis using seek item c'(1) Cons Suc.prems(2) by (simp add: filter_iter_next_def head_opt_def)
  qed
qed simp

lemma filter_iter_sought:
  assumes "\<not> did_seek c" "search_forward D F c = Some c'" "did_seek c'"
  shows "filter_run n D F c = filter_run n D F c'"
  using assms by (cases n) (simp_all add: filter_iter_next_def filter_cursor_next_def)

lemma filter_run_spec:
  assumes "filter_sound S F" "wf_tree S t"
  shows "filter_run n D F (filter_cursor_new D t) = Some (take n (filter (\<lambda>x. F (ssummary S x)) (tree_items t)))"
proof -
  let ?P = "\<lambda>x. \<not> F (ssummary S x)" and ?c = "cursor_new D t"
  have "tree_items t = (if did_seek ?c then tl (tree_items t) else tree_items t)"
    "[] = (if did_seek ?c then take 1 (tree_items t) else [])" by (simp_all add: cursor_new_def)
  from search_forward_spec [OF assms(1) cursor_before_new [OF assms(2)] this] obtain c' where
    c': "search_forward D F ?c = Some c'" and "cursor_at S D c' ([] @ [] @ takeWhile ?P (tree_items t)) (dropWhile ?P (tree_items t))"
    by blast
  then have at: "cursor_at S D c' (takeWhile ?P (tree_items t)) (dropWhile ?P (tree_items t))" by simp
  have "filter_run n D F c' = Some (take n (filter (\<lambda>x. F (ssummary S x)) (dropWhile ?P (tree_items t))))"
    using hd_dropWhile [of ?P "tree_items t"] by (intro filter_run_at [OF assms(1) at]) auto
  moreover have "filter (\<lambda>x. F (ssummary S x)) (dropWhile ?P xs) = filter (\<lambda>x. F (ssummary S x)) xs" for xs :: "'t list"
    by (induction xs) auto
  moreover have "filter_run n D F ?c = filter_run n D F c'"
    using at by (intro filter_iter_sought [OF _ c']) (auto simp: cursor_new_def cursor_at_def)
  ultimately show ?thesis by (simp add: filter_cursor_new_def)
qed

end

end
