(* ===== verification/Tree_Map.thy ===== *)
theory Tree_Map
  imports Keyed_Tree Cursor_Back "HOL-Library.Option_ord"
begin

text \<open>
  \<open>crates/sum_tree/src/tree_map.rs\<close>: the ordered map \<open>TreeMap\<close> and the set \<open>TreeSet\<close> over a tree whose
  summary is the last key. The abstract view of a map is a partial function; every operation is
  shown to refine the corresponding operation on it.
\<close>

subsection \<open>Entries and keys\<close>

record ('k, 'v) map_entry =
  entry_key :: 'k
  entry_value :: 'v

text \<open>\<open>MapKey\<close> and \<open>MapKeyRef\<close> are optional keys; adding a summary replaces the key.\<close>

type_synonym 'k map_key = "'k option"

definition map_entry_key :: "('k, 'v) map_entry \<Rightarrow> 'k map_key" where
  "map_entry_key e = Some (entry_key e)"

definition map_ops :: "(('k, 'v) map_entry, 'k map_key) item_ops" where
  "map_ops = \<lparr>szero = None, sadd = (\<lambda>a b. b), ssummary = map_entry_key\<rparr>"

definition map_key_dim :: "('k map_key, 'k map_key) dim_ops" where
  "map_key_dim = \<lparr>dzero = None, dadd = (\<lambda>d s. s)\<rparr>"

type_synonym ('k, 'v) tree_map = "(('k, 'v) map_entry, 'k map_key) node"

text \<open>\<open>MapSeekTargetAdaptor\<close>: a target on keys lies beyond the position in front of the map.\<close>

definition map_seek_target :: "('k \<Rightarrow> ordering) \<Rightarrow> 'k map_key target" where
  "map_seek_target cmp_cursor = (\<lambda>loc. case loc of Some k \<Rightarrow> cmp_cursor k | None \<Rightarrow> Greater)"

subsection \<open>Operations of \<open>TreeMap\<close>\<close>

definition map_default :: "('k, 'v) tree_map" where
  "map_default = tree_new map_ops"

definition from_ordered_entries :: "('k \<times> 'v) list \<Rightarrow> ('k, 'v) tree_map" where
  "from_ordered_entries entries = from_iter map_ops (map (\<lambda>(k, v). \<lparr>entry_key = k, entry_value = v\<rparr>) entries)"

definition map_is_empty :: "('k, 'v) tree_map \<Rightarrow> bool" where
  "map_is_empty m = is_empty m"

definition map_get :: "('k::linorder, 'v) tree_map \<Rightarrow> 'k \<Rightarrow> 'v option" where
  "map_get m k =
     (case snd (snd (find_in_tree map_key_dim (ord_target (Some k)) Left m)) of
        Some e \<Rightarrow> if Some k = map_entry_key e then Some (entry_value e) else None
      | None \<Rightarrow> None)"

definition contains_key :: "('k::linorder, 'v) tree_map \<Rightarrow> 'k \<Rightarrow> bool" where
  "contains_key m k \<longleftrightarrow> map_get m k \<noteq> None"

definition map_insert :: "('k::linorder, 'v) tree_map \<Rightarrow> 'k \<Rightarrow> 'v \<Rightarrow> ('k, 'v) tree_map option" where
  "map_insert m k v =
     map_option fst (insert_or_replace map_ops map_key_dim map_entry_key m \<lparr>entry_key = k, entry_value = v\<rparr>)"

definition map_insert_or_replace ::
  "('k::linorder, 'v) tree_map \<Rightarrow> 'k \<Rightarrow> 'v \<Rightarrow> (('k, 'v) tree_map \<times> 'v option) option" where
  "map_insert_or_replace m k v =
     map_option (\<lambda>(m', replaced). (m', map_option entry_value replaced))
       (insert_or_replace map_ops map_key_dim map_entry_key m \<lparr>entry_key = k, entry_value = v\<rparr>)"

definition map_extend :: "('k::linorder, 'v) tree_map \<Rightarrow> ('k \<times> 'v) list \<Rightarrow> ('k, 'v) tree_map option" where
  "map_extend m entries =
     map_option fst
       (edit_tree map_ops map_key_dim map_entry_key m
          (map (\<lambda>(k, v). Insert \<lparr>entry_key = k, entry_value = v\<rparr>) entries))"

definition map_clear :: "('k, 'v) tree_map \<Rightarrow> ('k, 'v) tree_map" where
  "map_clear m = map_default"

text \<open>\<open>cursor.item().unwrap()\<close> panics without an item.\<close>

definition map_remove :: "('k::linorder, 'v) tree_map \<Rightarrow> 'k \<Rightarrow> (('k, 'v) tree_map \<times> 'v option) option" where
  "map_remove m k =
     Option.bind (cursor_slice map_ops map_key_dim (ord_target (Some k)) Left (cursor_new map_key_dim m)) (\<lambda>(new_tree, c).
     Option.bind (cursor_end map_key_dim c) (\<lambda>end'.
     Option.bind
       (if cmp (Some k) end' = Equal then
          Option.bind (cursor_item c) (\<lambda>item.
          Option.bind item (\<lambda>e.
          map_option (\<lambda>c'. (Some (entry_value e), c')) (cursor_next map_key_dim c)))
        else Some (None, c)) (\<lambda>(removed, c).
     Option.bind (cursor_suffix map_ops map_key_dim c) (\<lambda>(suffix, c).
     map_option (\<lambda>new_tree. (new_tree, removed)) (append_tree map_ops new_tree suffix)))))"

definition remove_range ::
  "('k::linorder, 'v) tree_map \<Rightarrow> ('k \<Rightarrow> ordering) \<Rightarrow> ('k \<Rightarrow> ordering) \<Rightarrow> ('k, 'v) tree_map option" where
  "remove_range m start end' =
     Option.bind (cursor_slice map_ops map_key_dim (map_seek_target start) Left (cursor_new map_key_dim m)) (\<lambda>(new_tree, c).
     Option.bind (cursor_seek map_key_dim (map_seek_target end') Left c) (\<lambda>(found, c).
     Option.bind (cursor_suffix map_ops map_key_dim c) (\<lambda>(suffix, c).
     append_tree map_ops new_tree suffix)))"

definition entry_pair :: "('k, 'v) map_entry \<Rightarrow> 'k \<times> 'v" where
  "entry_pair e = (entry_key e, entry_value e)"

definition closest :: "('k::linorder, 'v) tree_map \<Rightarrow> 'k \<Rightarrow> ('k \<times> 'v) option option" where
  "closest m k =
     Option.bind (cursor_seek map_key_dim (ord_target (Some k)) Right (cursor_new map_key_dim m)) (\<lambda>(found, c).
     Option.bind (cursor_prev map_key_dim c) (\<lambda>c.
     map_option (map_option entry_pair) (cursor_item c)))"

text \<open>\<open>iter_from\<close> hands out the positioned cursor; \<open>n\<close> calls of its iterator are \<open>iter_from_run\<close>.\<close>

definition iter_from ::
  "('k::linorder, 'v) tree_map \<Rightarrow> 'k \<Rightarrow> (('k, 'v) map_entry, 'k map_key, 'k map_key) cursor option" where
  "iter_from m from =
     map_option snd (cursor_seek map_key_dim (ord_target (Some from)) Left (cursor_new map_key_dim m))"

fun iter_from_run ::
  "nat \<Rightarrow> (('k, 'v) map_entry, 'k map_key, 'k map_key) cursor \<Rightarrow> ('k \<times> 'v) list option" where
  "iter_from_run 0 c = Some []"
| "iter_from_run (Suc n) c =
     (case cursor_iter_next map_key_dim c of
        None \<Rightarrow> None
      | Some (None, c') \<Rightarrow> Some []
      | Some (Some e, c') \<Rightarrow> map_option ((#) (entry_pair e)) (iter_from_run n c'))"

definition map_update ::
  "('k::linorder, 'v) tree_map \<Rightarrow> 'k \<Rightarrow> ('v \<Rightarrow> 'v \<times> 'r) \<Rightarrow> (('k, 'v) tree_map \<times> 'r option) option" where
  "map_update m k f =
     Option.bind (cursor_slice map_ops map_key_dim (ord_target (Some k)) Left (cursor_new map_key_dim m)) (\<lambda>(new_tree, c).
     Option.bind (cursor_end map_key_dim c) (\<lambda>end'.
     Option.bind
       (if cmp (Some k) end' = Equal then
          Option.bind (cursor_item c) (\<lambda>item.
          Option.bind item (\<lambda>e.
            let (v, result) = f (entry_value e) in
            Option.bind (push map_ops new_tree (e\<lparr>entry_value := v\<rparr>)) (\<lambda>new_tree.
            map_option (\<lambda>c'. (Some result, new_tree, c')) (cursor_next map_key_dim c))))
        else Some (None, new_tree, c)) (\<lambda>(result, new_tree, c).
     Option.bind (cursor_suffix map_ops map_key_dim c) (\<lambda>(suffix, c).
     map_option (\<lambda>new_tree. (new_tree, result)) (append_tree map_ops new_tree suffix)))))"

text \<open>The loop of \<open>retain\<close>; the fuel bounds its rounds and is chosen as one more than the items of the tree.\<close>

fun retain_loop ::
  "nat \<Rightarrow> ('k \<Rightarrow> 'v \<Rightarrow> bool) \<Rightarrow> (('k, 'v) map_entry, 'k map_key, 'k map_key) cursor \<Rightarrow> ('k, 'v) tree_map
     \<Rightarrow> ('k, 'v) tree_map option" where
  "retain_loop 0 predicate c new_map = None"
| "retain_loop (Suc n) predicate c new_map =
     (case cursor_item c of
        None \<Rightarrow> None
      | Some None \<Rightarrow> Some new_map
      | Some (Some e) \<Rightarrow>
          Option.bind (if predicate (entry_key e) (entry_value e) then push map_ops new_map e else Some new_map) (\<lambda>new_map.
          Option.bind (cursor_next map_key_dim c) (\<lambda>c. retain_loop n predicate c new_map)))"

definition map_retain ::
  "('k \<Rightarrow> 'v \<Rightarrow> bool) \<Rightarrow> ('k, 'v) tree_map \<Rightarrow> ('k, 'v) tree_map option" where
  "map_retain predicate m =
     Option.bind (cursor_next map_key_dim (cursor_new map_key_dim m)) (\<lambda>c.
       retain_loop (length (tree_items m) + 1) predicate c (tree_new map_ops))"

text \<open>\<open>iter\<close> and \<open>values\<close>: what \<open>n\<close> calls yield.\<close>

definition map_iter_run :: "nat \<Rightarrow> ('k, 'v) tree_map \<Rightarrow> ('k \<times> 'v) list" where
  "map_iter_run n m = map entry_pair (iter_run n m [])"

definition map_values_run :: "nat \<Rightarrow> ('k, 'v) tree_map \<Rightarrow> 'v list" where
  "map_values_run n m = map entry_value (iter_run n m [])"

definition map_first :: "('k, 'v) tree_map \<Rightarrow> ('k \<times> 'v) option option" where
  "map_first m = map_option (map_option entry_pair) (tree_first m)"

definition map_last :: "('k, 'v) tree_map \<Rightarrow> ('k \<times> 'v) option option" where
  "map_last m = map_option (map_option entry_pair) (tree_last m)"

text \<open>\<open>other.iter()\<close> is drained: one call more than \<open>other\<close> has items.\<close>

definition insert_tree :: "('k::linorder, 'v) tree_map \<Rightarrow> ('k, 'v) tree_map \<Rightarrow> ('k, 'v) tree_map option" where
  "insert_tree m other =
     map_option fst
       (edit_tree map_ops map_key_dim map_entry_key m
          (map (\<lambda>(k, v). Insert \<lparr>entry_key = k, entry_value = v\<rparr>)
             (map_iter_run (length (tree_items other) + 1) other)))"

subsection \<open>Operations of \<open>TreeSet\<close>\<close>

type_synonym 'k tree_set = "('k, unit) tree_map"

definition set_from_ordered_entries :: "'k list \<Rightarrow> 'k tree_set" where
  "set_from_ordered_entries entries = from_ordered_entries (map (\<lambda>k. (k, ())) entries)"

definition set_is_empty :: "'k tree_set \<Rightarrow> bool" where
  "set_is_empty s = map_is_empty s"

definition set_insert :: "'k::linorder tree_set \<Rightarrow> 'k \<Rightarrow> 'k tree_set option" where
  "set_insert s k = map_insert s k ()"

definition set_remove :: "'k::linorder tree_set \<Rightarrow> 'k \<Rightarrow> ('k tree_set \<times> bool) option" where
  "set_remove s k = map_option (\<lambda>(s', removed). (s', removed \<noteq> None)) (map_remove s k)"

definition set_extend :: "'k::linorder tree_set \<Rightarrow> 'k list \<Rightarrow> 'k tree_set option" where
  "set_extend s ks = map_extend s (map (\<lambda>k. (k, ())) ks)"

definition set_contains :: "'k::linorder tree_set \<Rightarrow> 'k \<Rightarrow> bool" where
  "set_contains s k \<longleftrightarrow> map_get s k \<noteq> None"

definition set_iter_run :: "nat \<Rightarrow> 'k tree_set \<Rightarrow> 'k list" where
  "set_iter_run n s = map fst (map_iter_run n s)"

definition set_iter_from_run :: "nat \<Rightarrow> 'k::linorder tree_set \<Rightarrow> 'k \<Rightarrow> 'k list option" where
  "set_iter_from_run n s k = Option.bind (iter_from s k) (\<lambda>c. map_option (map fst) (iter_from_run n c))"

subsection \<open>The map as a partial function\<close>

lemma lawful_map_ops: "lawful_summary map_ops"
  by (simp add: lawful_summary_def map_ops_def)

lemma lawful_map_key_dim: "lawful_dim map_ops map_key_dim"
  by (simp add: lawful_dim_def map_ops_def map_key_dim_def)

interpretation tm: keyed_laws map_ops "map_key_dim :: ('k::linorder map_key, 'k map_key) dim_ops" map_entry_key
proof unfold_locales
  fix d :: "'k map_key" and x :: "('k, 'v) map_entry" and k :: "'k map_key"
  show "dadd map_key_dim d (ssummary map_ops x) = map_entry_key x" by (simp add: map_ops_def map_key_dim_def)
  show "dzero map_key_dim \<le> k" by (simp add: map_key_dim_def)
qed (rule lawful_map_ops lawful_map_key_dim)+

definition map_inv :: "('k::linorder, 'v) tree_map \<Rightarrow> bool" where
  "map_inv m \<longleftrightarrow> wf_tree map_ops m \<and> key_sorted map_entry_key (tree_items m)"

definition map_entries :: "('k, 'v) tree_map \<Rightarrow> ('k \<times> 'v) list" where
  "map_entries m = map entry_pair (tree_items m)"

definition map_abs :: "('k, 'v) tree_map \<Rightarrow> 'k \<Rightarrow> 'v option" where
  "map_abs m = map_of (map_entries m)"

lemma map_of_lookup: "map_of (map entry_pair xs) k = map_option entry_value (lookup_key map_entry_key xs (Some k))"
  by (induction xs) (auto simp: lookup_key_simps map_entry_key_def entry_pair_def)

lemma map_abs_lookup: "map_abs m k = map_option entry_value (lookup_key map_entry_key (tree_items m) (Some k))"
  by (simp add: map_abs_def map_entries_def map_of_lookup)

lemma map_keys_sorted:
  "key_sorted map_entry_key xs \<longleftrightarrow> sorted_wrt (<) (map fst (map entry_pair xs))"
  by (induction xs) (auto simp: map_entry_key_def entry_pair_def)

lemma map_inv_dest: "map_inv m \<Longrightarrow> wf_tree map_ops m" "map_inv m \<Longrightarrow> key_sorted map_entry_key (tree_items m)"
  by (simp_all add: map_inv_def)

lemma map_default_spec:
  "map_inv (map_default :: ('k::linorder, 'v) tree_map)" "map_abs (map_default :: ('k::linorder, 'v) tree_map) = Map.empty"
  by (simp_all add: map_inv_def map_default_def map_abs_def map_entries_def)

lemma map_get_spec:
  assumes "map_inv m" shows "map_get m k = map_abs m k"
proof -
  let ?xs = "tree_items m"
  obtain l mid r where s: "?xs = l @ mid @ r" "\<forall>x \<in> set l. map_entry_key x < Some k"
    "mid = [] \<or> (\<exists>x. mid = [x] \<and> map_entry_key x = Some k)" "\<forall>x \<in> set r. Some k < map_entry_key x"
    "dropWhile (\<lambda>y. map_entry_key y < Some k) ?xs = mid @ r"
    by (rule key_split [OF map_inv_dest(2) [OF assms], of "Some k"])
  have "map_abs m k = map_option entry_value (head_opt mid)"
    using tm.lookup_split [OF s(2-4)] s(1) by (simp add: map_abs_lookup)
  moreover have "snd (snd (find_in_tree map_key_dim (ord_target (Some k)) Left m)) = head_opt (mid @ r)"
    using tm.find_key_spec [OF map_inv_dest [OF assms], of "Some k"] s(5) by simp
  ultimately show ?thesis using s(3,4) by (cases r) (auto simp: map_get_def head_opt_def)
qed

lemma map_insert_or_replace_spec:
  assumes "map_inv m"
  shows "\<exists>m'. map_insert_or_replace m k v = Some (m', map_abs m k) \<and> map_insert m k v = Some m' \<and>
    map_inv m' \<and> map_abs m' = (map_abs m)(k \<mapsto> v)"
proof -
  let ?e = "\<lparr>entry_key = k, entry_value = v\<rparr>"
  have key: "map_entry_key ?e = Some k" by (simp add: map_entry_key_def)
  obtain m' where m': "insert_or_replace map_ops map_key_dim map_entry_key m ?e =
      Some (m', lookup_key map_entry_key (tree_items m) (Some k))" "wf_tree map_ops m'"
      "tree_items m' = upd_key map_entry_key ?e (tree_items m)"
    using tm.insert_or_replace_spec [OF map_inv_dest [OF assms], of ?e] key by auto
  have "map_inv m'" using m'(2,3) map_inv_dest(2) [OF assms] by (simp add: map_inv_def upd_key_sorted)
  moreover have "map_abs m' = (map_abs m)(k \<mapsto> v)"
    by (rule ext) (simp add: map_abs_lookup m'(3) lookup_upd_key [OF map_inv_dest(2) [OF assms]] key)
  ultimately show ?thesis using m'(1) by (simp add: map_insert_or_replace_def map_insert_def map_abs_lookup)
qed

text \<open>The branch of \<open>remove\<close> and \<open>update\<close> on the end of the cursor.\<close>

lemma map_slice:
  assumes "map_inv m"
  obtains a c e l mid r where
    "cursor_slice map_ops map_key_dim (ord_target (Some k)) Left (cursor_new map_key_dim m) = Some (a, c)"
    "wf_tree map_ops a" "tree_items a = l" "cursor_at map_ops map_key_dim c l (mid @ r)" "tree_items m = l @ mid @ r"
    "mid = [] \<or> (\<exists>x. mid = [x] \<and> entry_key x = k)" "cursor_end map_key_dim c = Some e" "e = Some k \<longleftrightarrow> mid \<noteq> []"
    "del_key map_entry_key (Some k) (tree_items m) = l @ r" "map_abs m k = map_option entry_value (head_opt mid)"
    "\<And>x. entry_key x = k \<Longrightarrow> upd_key map_entry_key x (tree_items m) = l @ x # r"
proof -
  obtain a c l mid r where s: "cursor_slice map_ops map_key_dim (ord_target (Some k)) Left (cursor_new map_key_dim m) = Some (a, c)"
    "wf_tree map_ops a" "tree_items a = l" "cursor_at map_ops map_key_dim c l (mid @ r)" "tree_items m = l @ mid @ r"
    "\<forall>x \<in> set l. map_entry_key x < Some k" "mid = [] \<or> (\<exists>x. mid = [x] \<and> map_entry_key x = Some k)"
    "\<forall>x \<in> set r. Some k < map_entry_key x" "takeWhile (\<lambda>y. map_entry_key y < Some k) (tree_items m) = l"
    "dropWhile (\<lambda>y. map_entry_key y \<le> Some k) (tree_items m) = r"
    by (rule tm.slice_split [OF map_inv_dest [OF assms]])
  have zero: "dzero map_key_dim \<noteq> Some k" by (simp add: map_key_dim_def)
  have sorted: "key_sorted map_entry_key (l @ mid @ r)" using map_inv_dest(2) [OF assms] s(5) by simp
  obtain e where e: "cursor_end map_key_dim c = Some e" "e = Some k \<longleftrightarrow> mid \<noteq> []"
    using tm.cursor_end_match [OF s(4) sorted s(6-8) zero] by blast
  have abs: "map_abs m k = map_option entry_value (head_opt mid)"
    using tm.lookup_split [OF s(6-8)] s(5) by (simp add: map_abs_lookup)
  show thesis
    by (rule that [OF s(1-5) _ e _ abs]) (use s(7,9,10) in \<open>auto simp: del_key_def upd_key_def map_entry_key_def\<close>)
qed

lemma map_remove_spec:
  assumes "map_inv m"
  shows "\<exists>m'. map_remove m k = Some (m', map_abs m k) \<and> map_inv m' \<and> map_abs m' = (map_abs m)(k := None)"
proof -
  obtain a c e l mid r where s:
    "cursor_slice map_ops map_key_dim (ord_target (Some k)) Left (cursor_new map_key_dim m) = Some (a, c)"
    "wf_tree map_ops a" "tree_items a = l" "cursor_at map_ops map_key_dim c l (mid @ r)" "tree_items m = l @ mid @ r"
    "mid = [] \<or> (\<exists>x. mid = [x] \<and> entry_key x = k)" "cursor_end map_key_dim c = Some e" "e = Some k \<longleftrightarrow> mid \<noteq> []"
    "del_key map_entry_key (Some k) (tree_items m) = l @ r" "map_abs m k = map_option entry_value (head_opt mid)"
    by (rule map_slice [OF assms])
  have item: "cursor_item c = Some (head_opt (mid @ r))"
    using s(4) by (intro cursor_item_located) (auto simp: cursor_at_def)
  obtain c' where branch: "(if cmp (Some k) e = Equal then
        Option.bind (cursor_item c) (\<lambda>item. Option.bind item (\<lambda>x.
          map_option (\<lambda>c'. (Some (entry_value x), c')) (cursor_next map_key_dim c)))
      else Some (None, c)) = Some (map_abs m k, c')" "cursor_at map_ops map_key_dim c' (l @ mid) r"
    using tm.cursor_next_spec [OF s(4)] s(4,6,8,10) item by (auto simp: head_opt_def)
  obtain d c3 where d: "cursor_suffix map_ops map_key_dim c' = Some (d, c3)" "wf_tree map_ops d" "tree_items d = r"
    using tm.cursor_suffix_spec [of c' "l @ mid" r] branch(2) by (auto simp: cursor_before_def)
  obtain m' where m': "append_tree map_ops a d = Some m'" "wf_tree map_ops m'" "tree_items m' = l @ r"
    using tm.append_tree_spec [OF s(2) d(2)] s(3) d(3) by auto
  have "map_inv m'" using m' s(9) del_key_sorted [OF map_inv_dest(2) [OF assms], of "Some k"] by (simp add: map_inv_def)
  moreover have "map_abs m' = (map_abs m)(k := None)"
    by (rule ext) (simp add: map_abs_lookup m'(3) s(9) [symmetric] lookup_del_key [OF map_inv_dest(2) [OF assms]])
  ultimately show ?thesis using s(1,7) branch(1) d(1) m'(1) by (simp add: map_remove_def)
qed

lemma map_update_spec:
  assumes "map_inv m"
  shows "\<exists>m'. map_update m k f = Some (m', map_option (\<lambda>v. snd (f v)) (map_abs m k)) \<and> map_inv m' \<and>
    map_abs m' = (map_abs m)(k := map_option (\<lambda>v. fst (f v)) (map_abs m k))"
proof -
  obtain a c e l mid r where s:
    "cursor_slice map_ops map_key_dim (ord_target (Some k)) Left (cursor_new map_key_dim m) = Some (a, c)"
    "wf_tree map_ops a" "tree_items a = l" "cursor_at map_ops map_key_dim c l (mid @ r)" "tree_items m = l @ mid @ r"
    "mid = [] \<or> (\<exists>x. mid = [x] \<and> entry_key x = k)" "cursor_end map_key_dim c = Some e" "e = Some k \<longleftrightarrow> mid \<noteq> []"
    "map_abs m k = map_option entry_value (head_opt mid)"
    "\<And>x. entry_key x = k \<Longrightarrow> upd_key map_entry_key x (tree_items m) = l @ x # r"
    by (rule map_slice [OF assms, of k]) (rule that)
  have item: "cursor_item c = Some (head_opt (mid @ r))"
    using s(4) by (intro cursor_item_located) (auto simp: cursor_at_def)
  have sorted: "key_sorted map_entry_key (tree_items m)" by (rule map_inv_dest(2) [OF assms])
  define upd where "upd = map (\<lambda>x. x\<lparr>entry_value := fst (f (entry_value x))\<rparr>) mid"
  obtain b where b: "wf_tree map_ops b" "tree_items b = l @ upd" "mid = [] \<Longrightarrow> b = a"
      "\<And>x. mid = [x] \<Longrightarrow> push map_ops a (x\<lparr>entry_value := fst (f (entry_value x))\<rparr>) = Some b"
  proof (cases "mid = []")
    case True
    then show thesis using s(2,3) by (intro that [of a]) (simp_all add: upd_def)
  next
    case False
    then obtain x where "mid = [x]" using s(6) by auto
    then show thesis using tm.push_spec [OF s(2), of "x\<lparr>entry_value := fst (f (entry_value x))\<rparr>"] s(3) that
      by (auto simp: upd_def)
  qed
  obtain c' where branch: "(if cmp (Some k) e = Equal then
        Option.bind (cursor_item c) (\<lambda>item. Option.bind item (\<lambda>x.
          let (v, result) = f (entry_value x) in
          Option.bind (push map_ops a (x\<lparr>entry_value := v\<rparr>)) (\<lambda>new_tree.
          map_option (\<lambda>c'. (Some result, new_tree, c')) (cursor_next map_key_dim c))))
      else Some (None, a, c)) = Some (map_option (\<lambda>v. snd (f v)) (map_abs m k), b, c')"
      "cursor_at map_ops map_key_dim c' (l @ mid) r"
    using tm.cursor_next_spec [OF s(4)] s(4,6,8,9) item b(3,4)
    by (cases "mid = []") (auto simp: head_opt_def case_prod_beta)
  obtain d c3 where d: "cursor_suffix map_ops map_key_dim c' = Some (d, c3)" "wf_tree map_ops d" "tree_items d = r"
    using tm.cursor_suffix_spec [of c' "l @ mid" r] branch(2) by (auto simp: cursor_before_def)
  obtain m' where m': "append_tree map_ops b d = Some m'" "wf_tree map_ops m'" "tree_items m' = l @ upd @ r"
    using tm.append_tree_spec [OF b(1) d(2)] b(2) d(3) by auto
  have items: "tree_items m' = (case mid of [] \<Rightarrow> tree_items m | x # xs \<Rightarrow>
      upd_key map_entry_key (x\<lparr>entry_value := fst (f (entry_value x))\<rparr>) (tree_items m))"
    using s(5,6,10) m'(3) by (auto simp: upd_def)
  have "map_inv m'" using m'(2) items sorted upd_key_sorted [OF sorted] by (auto simp: map_inv_def split: list.split)
  moreover have "map_abs m' = (map_abs m)(k := map_option (\<lambda>v. fst (f v)) (map_abs m k))"
  proof (cases "mid = []")
    case True
    then show ?thesis using items s(9) by (auto simp: map_abs_def map_entries_def head_opt_def)
  next
    case False
    then obtain x where "mid = [x]" "entry_key x = k" using s(6) by auto
    then show ?thesis using items s(9)
      by (intro ext) (auto simp: map_abs_lookup lookup_upd_key [OF sorted] head_opt_def map_entry_key_def)
  qed
  ultimately show ?thesis using s(1,7) branch(1) d(1) m'(1) by (simp add: map_update_def)
qed

text \<open>Batches: with distinct keys an extension is the union that prefers the new entries.\<close>

definition entry_edits :: "('k \<times> 'v) list \<Rightarrow> (('k, 'v) map_entry, 'k map_key) edit list" where
  "entry_edits entries = map (\<lambda>(k, v). Insert \<lparr>entry_key = k, entry_value = v\<rparr>) entries"

lemma entry_edits_keys: "map (edit_key map_entry_key) (entry_edits entries) = map Some (map fst entries)"
  by (induction entries) (auto simp: entry_edits_def map_entry_key_def)

lemma find_entry_edits:
  "List.find (\<lambda>e. edit_key map_entry_key e = Some k) (entry_edits entries) =
     map_option (\<lambda>v. Insert \<lparr>entry_key = k, entry_value = v\<rparr>) (map_of entries k)"
  by (induction entries) (auto simp: entry_edits_def map_entry_key_def)

lemma map_edits_spec:
  assumes "map_inv m" "distinct (map fst entries)"
  shows "\<exists>m' removed. edit_tree map_ops map_key_dim map_entry_key m (entry_edits entries) = Some (m', removed) \<and>
    map_inv m' \<and> map_abs m' = map_abs m ++ map_of entries"
proof -
  have d: "distinct (map (edit_key map_entry_key) (entry_edits entries))"
    using assms(2) by (auto simp: entry_edits_keys distinct_map inj_on_def)
  obtain m' removed where m': "edit_tree map_ops map_key_dim map_entry_key m (entry_edits entries) = Some (m', removed)"
      "wf_tree map_ops m'" "tree_items m' = foldl (apply_edit map_entry_key) (tree_items m)
        (sort_key (edit_key map_entry_key) (entry_edits entries))"
    using tm.edit_tree_spec [OF map_inv_dest [OF assms(1)] d] by blast
  have sd: "distinct (map (edit_key map_entry_key) (sort_key (edit_key map_entry_key) (entry_edits entries)))"
    using d by (simp add: distinct_map)
  have "lookup_key map_entry_key (tree_items m') k = edit_lookup map_entry_key (tree_items m) (entry_edits entries) k" for k
    by (simp only: m'(3) lookup_edits [OF map_inv_dest(2) [OF assms(1)] sd] edit_lookup_sort [OF d])
  then have "map_abs m' k = (map_abs m ++ map_of entries) k" for k
    by (simp add: map_abs_lookup edit_lookup_def find_entry_edits map_add_def split: option.split)
  then show ?thesis using m' foldl_edits_sorted [OF map_inv_dest(2) [OF assms(1)]] by (auto simp: map_inv_def)
qed

lemma map_extend_spec:
  assumes "map_inv m" "distinct (map fst entries)"
  shows "\<exists>m'. map_extend m entries = Some m' \<and> map_inv m' \<and> map_abs m' = map_abs m ++ map_of entries"
  using map_edits_spec [OF assms] by (auto simp: map_extend_def entry_edits_def)

lemma map_iter_run_spec: "map_inv m \<Longrightarrow> map_iter_run n m = take n (map_entries m)"
  using tm.iter_run_spec [of m "[]" "tree_items m" n]
  by (simp add: map_iter_run_def map_inv_def map_entries_def take_map)

lemma map_entries_sorted: "map_inv m \<Longrightarrow> sorted_wrt (<) (map fst (map_entries m))"
  by (simp only: map_inv_def map_keys_sorted map_entries_def)

lemma map_entries_distinct: "map_inv m \<Longrightarrow> distinct (map fst (map_entries m))"
  using map_entries_sorted strict_sorted_iff by blast

lemma insert_tree_spec:
  assumes "map_inv m" "map_inv other"
  shows "\<exists>m'. insert_tree m other = Some m' \<and> map_inv m' \<and> map_abs m' = map_abs m ++ map_abs other"
proof -
  have "map_iter_run (length (tree_items other) + 1) other = map_entries other"
    using map_iter_run_spec [OF assms(2)] by (simp add: map_entries_def)
  then show ?thesis
    using map_edits_spec [OF assms(1) map_entries_distinct [OF assms(2)]]
    by (auto simp: insert_tree_def entry_edits_def map_abs_def)
qed

subsection \<open>Ordered queries\<close>

lemma last_opt_map: "last_opt (map f xs) = map_option f (last_opt xs)"
  by (simp add: last_opt_def last_map)

lemma head_opt_map: "head_opt (map f xs) = map_option f (head_opt xs)"
  by (simp add: head_opt_def hd_map)

lemma entries_while:
  "takeWhile P (map_entries m) = map entry_pair (takeWhile (\<lambda>x. P (entry_pair x)) (tree_items m))"
  "dropWhile P (map_entries m) = map entry_pair (dropWhile (\<lambda>x. P (entry_pair x)) (tree_items m))"
  by (simp_all add: map_entries_def takeWhile_map dropWhile_map o_def)

lemma map_seek:
  assumes "map_inv m"
  shows "\<exists>found c. cursor_seek map_key_dim (ord_target (Some k)) b (cursor_new map_key_dim m) = Some (found, c) \<and>
    cursor_at map_ops map_key_dim c
      (takeWhile (\<lambda>x. if b = Left then entry_key x < k else entry_key x \<le> k) (tree_items m))
      (dropWhile (\<lambda>x. if b = Left then entry_key x < k else entry_key x \<le> k) (tree_items m))"
proof -
  have zero: "ord_target (Some k) (dzero map_key_dim) \<noteq> Less" by (simp add: ord_target_def map_key_dim_def)
  have mono: "\<forall>a d. a < d \<longrightarrow> beyond (ord_target (Some k)) b d \<longrightarrow> beyond (ord_target (Some k)) b a"
    by (auto simp: tm.beyond_key split: if_splits)
  show ?thesis
    using tm.seek_key [OF map_inv_dest [OF assms] zero mono, where c = "cursor_new map_key_dim m"]
    by (cases b) (auto simp: tm.beyond_key map_entry_key_def cursor_new_def)
qed

lemma closest_spec:
  assumes "map_inv m"
  shows "closest m k = Some (last_opt (takeWhile (\<lambda>(k', v). k' \<le> k) (map_entries m)))"
proof -
  let ?pre = "takeWhile (\<lambda>x. entry_key x \<le> k) (tree_items m)" and ?suf = "dropWhile (\<lambda>x. entry_key x \<le> k) (tree_items m)"
  obtain found c where c: "cursor_seek map_key_dim (ord_target (Some k)) Right (cursor_new map_key_dim m) = Some (found, c)"
      "cursor_at map_ops map_key_dim c ?pre ?suf"
    using map_seek [OF assms, of k Right] by auto
  then have "cursor_behind map_ops map_key_dim c ?pre ?suf" by (simp add: cursor_behind_def)
  from tm.cursor_prev_spec [OF this] obtain c' where c': "cursor_prev map_key_dim c = Some c'"
      "if ?pre = [] then cursor_front map_ops map_key_dim c'
       else cursor_at map_ops map_key_dim c' (butlast ?pre) (last ?pre # ?suf)" by blast
  have "cursor_item c' = Some (last_opt ?pre)"
  proof (cases "?pre = []")
    case True
    then have "cursor_front map_ops map_key_dim c'" using c'(2) by (simp only: if_True)
    then show ?thesis using True by (simp add: cursor_front_def cursor_item_def last_opt_def)
  next
    case False
    then have "cursor_at map_ops map_key_dim c' (butlast ?pre) (last ?pre # ?suf)" using c'(2) by (simp only: if_False)
    then have "cursor_item c' = Some (head_opt (last ?pre # ?suf))"
      by (intro cursor_item_located) (auto simp: cursor_at_def)
    then show ?thesis using False by (simp only: head_opt_def last_opt_def list.sel list.distinct if_False)
  qed
  then show ?thesis using c(1) c'(1)
    by (simp add: closest_def entries_while last_opt_map case_prod_beta entry_pair_def)
qed

lemma iter_from_run_at:
  fixes c :: "(('k::linorder, 'v) map_entry, 'k map_key, 'k map_key) cursor"
  assumes "cursor_at map_ops map_key_dim c pre suf"
  shows "iter_from_run n c = Some (take n (map entry_pair suf))"
  using assms
proof (induction n arbitrary: c pre suf)
  case (Suc n)
  have item: "cursor_item c = Some (head_opt suf)"
    using Suc.prems by (intro cursor_item_located) (auto simp: cursor_at_def)
  have seek: "did_seek c" using Suc.prems by (simp add: cursor_at_def)
  show ?case
  proof (cases suf)
    case Nil
    then show ?thesis using item seek by (simp add: cursor_iter_next_def head_opt_def)
  next
    case (Cons x suf')
    obtain c' where c': "cursor_next map_key_dim c = Some c'" "cursor_at map_ops map_key_dim c' (pre @ [x]) suf'"
      using tm.cursor_next_spec [OF Suc.prems] Cons by auto
    then show ?thesis using Suc.IH [OF c'(2)] item seek Cons by (simp add: cursor_iter_next_def head_opt_def)
  qed
qed simp

lemma iter_from_spec:
  assumes "map_inv m"
  shows "Option.bind (iter_from m k) (iter_from_run n) = Some (take n (dropWhile (\<lambda>(k', v). k' < k) (map_entries m)))"
proof -
  obtain found c where c: "cursor_seek map_key_dim (ord_target (Some k)) Left (cursor_new map_key_dim m) = Some (found, c)"
      "cursor_at map_ops map_key_dim c (takeWhile (\<lambda>x. entry_key x < k) (tree_items m)) (dropWhile (\<lambda>x. entry_key x < k) (tree_items m))"
    using map_seek [OF assms, of k Left] by auto
  show ?thesis using iter_from_run_at [OF c(2), of n] c(1)
    by (simp add: iter_from_def entries_while case_prod_beta entry_pair_def)
qed

lemma retain_loop_spec:
  fixes c :: "(('k::linorder, 'v) map_entry, 'k map_key, 'k map_key) cursor"
  assumes "cursor_at map_ops map_key_dim c pre suf" "wf_tree map_ops a" "length suf < n"
  shows "\<exists>m'. retain_loop n predicate c a = Some m' \<and> wf_tree map_ops m' \<and>
    tree_items m' = tree_items a @ filter (\<lambda>e. predicate (entry_key e) (entry_value e)) suf"
  using assms
proof (induction n arbitrary: c pre suf a)
  case (Suc n)
  have item: "cursor_item c = Some (head_opt suf)"
    using Suc.prems by (intro cursor_item_located) (auto simp: cursor_at_def)
  show ?case
  proof (cases suf)
    case Nil
    then show ?thesis using item Suc.prems by (simp add: head_opt_def)
  next
    case (Cons x suf')
    obtain c' where c': "cursor_next map_key_dim c = Some c'" "cursor_at map_ops map_key_dim c' (pre @ [x]) suf'"
      using tm.cursor_next_spec [OF Suc.prems(1)] Cons by auto
    obtain b where b: "(if predicate (entry_key x) (entry_value x) then push map_ops a x else Some a) = Some b"
        "wf_tree map_ops b" "tree_items b = tree_items a @ filter (\<lambda>e. predicate (entry_key e) (entry_value e)) [x]"
    proof (cases "predicate (entry_key x) (entry_value x)")
      case True
      obtain b where "push map_ops a x = Some b" "wf_tree map_ops b" "tree_items b = tree_items a @ [x]"
        using tm.push_spec [OF Suc.prems(2)] by blast
      then show thesis using True by (intro that [of b]) simp_all
    next
      case False
      then show thesis using Suc.prems(2) by (intro that [of a]) simp_all
    qed
    have "length suf' < n" using Suc.prems(3) Cons by simp
    then obtain m' where "retain_loop n predicate c' b = Some m'" "wf_tree map_ops m'"
        "tree_items m' = tree_items b @ filter (\<lambda>e. predicate (entry_key e) (entry_value e)) suf'"
      using Suc.IH [OF c'(2) b(2)] by blast
    moreover have "retain_loop (Suc n) predicate c a = retain_loop n predicate c' b"
      by (simp add: item Cons head_opt_def b(1) c'(1))
    ultimately show ?thesis using b(3) Cons by simp
  qed
qed simp

lemma key_sorted_filter: "key_sorted key xs \<Longrightarrow> key_sorted key (filter P xs)"
  by (induction xs) auto

lemma map_of_filter_sorted:
  assumes "distinct (map fst xs)"
  shows "map_of (filter (\<lambda>(k, v). P k v) xs) k = (case map_of xs k of Some v \<Rightarrow> if P k v then Some v else None | None \<Rightarrow> None)"
  using assms
proof (induction xs)
  case (Cons x xs)
  have "map_of (filter (\<lambda>(k, v). P k v) xs) k = None" if "map_of xs k = None"
    using that by (force simp: map_of_eq_None_iff)
  moreover have "fst x = k \<Longrightarrow> map_of xs k = None" using Cons.prems by (auto simp: map_of_eq_None_iff)
  ultimately show ?case using Cons by (cases x) auto
qed simp

lemma map_retain_spec:
  assumes "map_inv m"
  shows "\<exists>m'. map_retain predicate m = Some m' \<and> map_inv m' \<and>
    map_entries m' = filter (\<lambda>(k, v). predicate k v) (map_entries m)"
proof -
  have "cursor_fresh map_ops map_key_dim (cursor_new map_key_dim m)"
    using map_inv_dest(1) [OF assms] by (simp add: cursor_fresh_def cursor_new_def)
  from tm.cursor_next_fresh [OF this] obtain c where c: "cursor_next map_key_dim (cursor_new map_key_dim m) = Some c"
      "cursor_at map_ops map_key_dim c [] (tree_items m)" by (auto simp: cursor_new_def)
  obtain m' where m': "retain_loop (length (tree_items m) + 1) predicate c (tree_new map_ops) = Some m'" "wf_tree map_ops m'"
      "tree_items m' = filter (\<lambda>e. predicate (entry_key e) (entry_value e)) (tree_items m)"
    using retain_loop_spec [OF c(2) tm.tree_new_wf(1), of "length (tree_items m) + 1" predicate] by auto
  then show ?thesis using c(1) key_sorted_filter [OF map_inv_dest(2) [OF assms]]
    by (auto simp: map_retain_def map_inv_def map_entries_def filter_map o_def entry_pair_def case_prod_beta)
qed

lemma map_first_last_spec:
  assumes "map_inv m"
  shows "map_first m = Some (head_opt (map_entries m))" "map_last m = Some (last_opt (map_entries m))"
  using tm.tree_first_spec [OF map_inv_dest(1) [OF assms]] tm.tree_last_spec [OF map_inv_dest(1) [OF assms]]
  by (simp_all add: map_first_def map_last_def map_entries_def head_opt_map last_opt_map)

lemma from_ordered_entries_spec:
  assumes "sorted_wrt (<) (map fst entries)"
  shows "map_inv (from_ordered_entries entries)" "map_entries (from_ordered_entries entries) = entries"
proof -
  let ?es = "map (\<lambda>(k, v). \<lparr>entry_key = k, entry_value = v\<rparr>) entries"
  have pairs: "map entry_pair ?es = entries" by (induction entries) (auto simp: entry_pair_def)
  have "wf_tree map_ops (from_ordered_entries entries)" "tree_items (from_ordered_entries entries) = ?es"
    using tm.from_iter_spec [of ?es] by (simp_all add: from_ordered_entries_def)
  then show "map_inv (from_ordered_entries entries)" "map_entries (from_ordered_entries entries) = entries"
    using assms pairs by (simp_all only: map_inv_def map_keys_sorted map_entries_def)
qed

subsection \<open>Removing a range\<close>

text \<open>A target on keys is ordered if it does not lie beyond a key once it does not lie beyond a smaller one.\<close>

definition ordered_target :: "('k::linorder \<Rightarrow> ordering) \<Rightarrow> bool" where
  "ordered_target t \<longleftrightarrow> (\<forall>a b. a < b \<longrightarrow> t b = Greater \<longrightarrow> t a = Greater)"

lemma take_drop_filter:
  assumes "sorted_wrt (\<lambda>x y. (P y \<longrightarrow> P x) \<and> (Q y \<longrightarrow> Q x)) xs" "\<forall>x. P x \<longrightarrow> Q x"
  shows "takeWhile P xs @ dropWhile Q xs = filter (\<lambda>x. P x \<or> \<not> Q x) xs"
  using assms(1)
proof (induction xs)
  case (Cons x xs)
  consider "P x" "Q x" | "\<not> P x" "Q x" | "\<not> Q x" "\<not> P x" using assms(2) by blast
  then show ?case
  proof cases
    case 2
    then have "takeWhile P xs = []" using Cons.prems by (cases xs) auto
    then show ?thesis using Cons 2 by simp
  next
    case 3
    then have "filter (\<lambda>x. P x \<or> \<not> Q x) xs = xs" using Cons.prems assms(2) by (simp add: filter_id_conv)
    then show ?thesis using 3 by simp
  qed (use Cons in simp)
qed simp

lemma beyond_map_target: "beyond (map_seek_target t) Left d \<longleftrightarrow> (case d of None \<Rightarrow> True | Some k \<Rightarrow> t k = Greater)"
  by (auto simp: beyond_def map_seek_target_def split: option.split)

lemma ordered_target_beyond:
  "ordered_target t \<Longrightarrow> \<forall>a b. a < b \<longrightarrow> beyond (map_seek_target t) Left b \<longrightarrow> beyond (map_seek_target t) Left a"
  by (auto simp: beyond_map_target ordered_target_def split: option.splits)

lemma remove_range_spec:
  assumes "map_inv m" "ordered_target start" "ordered_target end'" "\<forall>k. start k = Greater \<longrightarrow> end' k = Greater"
  shows "\<exists>m'. remove_range m start end' = Some m' \<and> map_inv m' \<and>
    map_entries m' = filter (\<lambda>(k, v). start k = Greater \<or> end' k \<noteq> Greater) (map_entries m)"
proof -
  let ?P = "\<lambda>x. start (entry_key x) = Greater" and ?Q = "\<lambda>x. end' (entry_key x) = Greater"
  note inv = map_inv_dest [OF assms(1)]
  have zero: "map_seek_target t (dzero map_key_dim) \<noteq> Less" for t :: "'a \<Rightarrow> ordering"
    by (simp add: map_seek_target_def map_key_dim_def)
  obtain a c where a: "cursor_slice map_ops map_key_dim (map_seek_target start) Left (cursor_new map_key_dim m) = Some (a, c)"
      "cur_tree c = m" "wf_tree map_ops a" "tree_items a = takeWhile ?P (tree_items m)"
    using tm.slice_target [OF inv zero ordered_target_beyond [OF assms(2)]]
    by (auto simp: beyond_map_target map_entry_key_def)
  obtain found c' where c': "cursor_seek map_key_dim (map_seek_target end') Left c = Some (found, c')"
      "cursor_at map_ops map_key_dim c' (takeWhile ?Q (tree_items m)) (dropWhile ?Q (tree_items m))"
    using tm.seek_key [OF inv zero ordered_target_beyond [OF assms(3)] a(2)]
    by (auto simp: beyond_map_target map_entry_key_def)
  obtain d c3 where d: "cursor_suffix map_ops map_key_dim c' = Some (d, c3)" "wf_tree map_ops d" "tree_items d = dropWhile ?Q (tree_items m)"
    using tm.cursor_suffix_at [OF c'(2)] by blast
  obtain m' where m': "append_tree map_ops a d = Some m'" "wf_tree map_ops m'"
      "tree_items m' = takeWhile ?P (tree_items m) @ dropWhile ?Q (tree_items m)"
    using tm.append_tree_spec [OF a(3) d(2)] a(4) d(3) by auto
  have "sorted_wrt (\<lambda>x y. (?P y \<longrightarrow> ?P x) \<and> (?Q y \<longrightarrow> ?Q x)) (tree_items m)"
    by (rule sorted_wrt_mono_rel [OF _ inv(2) [unfolded key_sorted_def]])
      (use assms(2,3) in \<open>auto simp: ordered_target_def map_entry_key_def\<close>)
  from take_drop_filter [OF this] have items: "tree_items m' = filter (\<lambda>x. ?P x \<or> \<not> ?Q x) (tree_items m)"
    using assms(4) m'(3) by simp
  then show ?thesis using a(1) c'(1) d(1) m'(1,2) key_sorted_filter [OF inv(2)]
    by (auto simp: remove_range_def map_inv_def map_entries_def filter_map o_def entry_pair_def case_prod_beta)
qed

subsection \<open>The contract of an ordered map\<close>

text \<open>What clients of a map rely on: an abstraction to partial functions that lookups read and insertions and
  removals update, each returning the previous value.\<close>

datatype ('k, 'v) map_call = Call_Insert 'k 'v | Call_Remove 'k

fun run_calls ::
  "('m \<Rightarrow> 'k \<Rightarrow> 'v \<Rightarrow> ('m \<times> 'v option) option) \<Rightarrow> ('m \<Rightarrow> 'k \<Rightarrow> ('m \<times> 'v option) option) \<Rightarrow> ('k, 'v) map_call list
     \<Rightarrow> 'm \<Rightarrow> ('m \<times> 'v option list) option" where
  "run_calls ins rem [] m = Some (m, [])"
| "run_calls ins rem (Call_Insert k v # cs) m =
     Option.bind (ins m k v) (\<lambda>(m', old). map_option (\<lambda>(m'', olds). (m'', old # olds)) (run_calls ins rem cs m'))"
| "run_calls ins rem (Call_Remove k # cs) m =
     Option.bind (rem m k) (\<lambda>(m', old). map_option (\<lambda>(m'', olds). (m'', old # olds)) (run_calls ins rem cs m'))"

fun abs_calls :: "('k, 'v) map_call list \<Rightarrow> ('k \<Rightarrow> 'v option) \<Rightarrow> ('k \<Rightarrow> 'v option) \<times> 'v option list" where
  "abs_calls [] f = (f, [])"
| "abs_calls (Call_Insert k v # cs) f = (let (g, olds) = abs_calls cs (f(k \<mapsto> v)) in (g, f k # olds))"
| "abs_calls (Call_Remove k # cs) f = (let (g, olds) = abs_calls cs (f(k := None)) in (g, f k # olds))"

locale ordered_map =
  fixes inv :: "'m \<Rightarrow> bool" and abs :: "'m \<Rightarrow> 'k \<Rightarrow> 'v option"
    and get :: "'m \<Rightarrow> 'k \<Rightarrow> 'v option"
    and ins :: "'m \<Rightarrow> 'k \<Rightarrow> 'v \<Rightarrow> ('m \<times> 'v option) option"
    and rem :: "'m \<Rightarrow> 'k \<Rightarrow> ('m \<times> 'v option) option"
  assumes get_law: "inv m \<Longrightarrow> get m k = abs m k"
    and ins_law: "inv m \<Longrightarrow> \<exists>m'. ins m k v = Some (m', abs m k) \<and> inv m' \<and> abs m' = (abs m)(k \<mapsto> v)"
    and rem_law: "inv m \<Longrightarrow> \<exists>m'. rem m k = Some (m', abs m k) \<and> inv m' \<and> abs m' = (abs m)(k := None)"
begin

lemma run_calls_refines:
  "inv m \<Longrightarrow> \<exists>m'. run_calls ins rem cs m = Some (m', snd (abs_calls cs (abs m))) \<and> inv m' \<and>
     abs m' = fst (abs_calls cs (abs m))"
proof (induction cs arbitrary: m)
  case (Cons c cs)
  show ?case
  proof (cases c)
    case (Call_Insert k v)
    obtain m1 where "ins m k v = Some (m1, abs m k)" "inv m1" "abs m1 = (abs m)(k \<mapsto> v)"
      using ins_law [OF Cons.prems] by blast
    then show ?thesis using Cons.IH [of m1] Call_Insert by (auto simp: case_prod_beta Let_def simp del: fun_upd_apply)
  next
    case (Call_Remove k)
    obtain m1 where "rem m k = Some (m1, abs m k)" "inv m1" "abs m1 = (abs m)(k := None)"
      using rem_law [OF Cons.prems] by blast
    then show ?thesis using Cons.IH [of m1] Call_Remove by (auto simp: case_prod_beta Let_def simp del: fun_upd_apply)
  qed
qed simp

end

interpretation tree_map: ordered_map map_inv map_abs map_get map_insert_or_replace map_remove
proof unfold_locales
  fix m :: "('k::linorder, 'v) tree_map" and k :: 'k and v :: 'v
  assume m: "map_inv m"
  show "map_get m k = map_abs m k" by (rule map_get_spec [OF m])
  show "\<exists>m'. map_insert_or_replace m k v = Some (m', map_abs m k) \<and> map_inv m' \<and> map_abs m' = (map_abs m)(k \<mapsto> v)"
    using map_insert_or_replace_spec [OF m, of k v] by (elim exE conjE) (intro exI conjI)
  show "\<exists>m'. map_remove m k = Some (m', map_abs m k) \<and> map_inv m' \<and> map_abs m' = (map_abs m)(k := None)"
    by (rule map_remove_spec [OF m])
qed

subsection \<open>The set\<close>

definition set_abs :: "'k tree_set \<Rightarrow> 'k set" where
  "set_abs s = dom (map_abs s)"

lemma set_ops_spec:
  assumes "map_inv s"
  shows "set_contains s k \<longleftrightarrow> k \<in> set_abs s"
    and "\<exists>s'. set_insert s k = Some s' \<and> map_inv s' \<and> set_abs s' = insert k (set_abs s)"
    and "\<exists>s'. set_remove s k = Some (s', k \<in> set_abs s) \<and> map_inv s' \<and> set_abs s' = set_abs s - {k}"
  using map_get_spec [OF assms, of k] map_insert_or_replace_spec [OF assms, of k "()"] map_remove_spec [OF assms, of k]
  by (auto simp: set_contains_def set_abs_def set_insert_def set_remove_def)

lemma set_extend_spec:
  assumes "map_inv s" "distinct ks"
  shows "\<exists>s'. set_extend s ks = Some s' \<and> map_inv s' \<and> set_abs s' = set_abs s \<union> set ks"
proof -
  have "distinct (map fst (map (\<lambda>k. (k, ())) ks))" using assms(2) by (simp add: o_def)
  from map_extend_spec [OF assms(1) this] show ?thesis
    by (auto simp: set_extend_def set_abs_def dom_map_of_conv_image_fst image_image)
qed

lemma set_iter_spec:
  assumes "map_inv s"
  shows "set_iter_run n s = take n (map fst (map_entries s))"
    and "set_iter_from_run n s k = Some (take n (dropWhile (\<lambda>k'. k' < k) (map fst (map_entries s))))"
proof -
  show "set_iter_run n s = take n (map fst (map_entries s))"
    using map_iter_run_spec [OF assms] by (simp add: set_iter_run_def take_map)
  obtain c where "iter_from s k = Some c" "iter_from_run n c = Some (take n (dropWhile (\<lambda>(k', v). k' < k) (map_entries s)))"
    using iter_from_spec [OF assms, of k n] by (cases "iter_from s k") auto
  then show "set_iter_from_run n s k = Some (take n (dropWhile (\<lambda>k'. k' < k) (map fst (map_entries s))))"
    by (simp add: set_iter_from_run_def dropWhile_map take_map o_def case_prod_unfold)
qed

subsection \<open>Properties of the map and the set\<close>

text \<open>C21 (tree_map_history): starting from the empty \<open>TreeMap\<close>, no sequence of \<open>insert_or_replace\<close> and \<open>remove\<close>
  calls panics; every call returns the value the partial function had at its key, and afterwards
  \<open>get\<close> agrees with the partial function the calls describe. Keys stay strictly increasing in the tree.\<close>

theorem tree_map_history:
  "\<exists>m. run_calls map_insert_or_replace map_remove calls (map_default :: ('k::linorder, 'v) tree_map) =
       Some (m, snd (abs_calls calls Map.empty)) \<and>
     map_inv m \<and> (\<forall>k. map_get m k = fst (abs_calls calls Map.empty) k)"
proof -
  obtain m where m: "run_calls map_insert_or_replace map_remove calls (map_default :: ('k, 'v) tree_map) =
      Some (m, snd (abs_calls calls Map.empty))" "map_inv m" "map_abs m = fst (abs_calls calls Map.empty)"
    using tree_map.run_calls_refines [OF map_default_spec(1), of calls] by (auto simp: map_default_spec(2))
  then show ?thesis using tree_map.get_law [OF m(2)] by (intro exI [of _ m]) simp
qed

definition demo_map :: "(nat, nat) tree_map" where
  "demo_map = from_ordered_entries [(1, 10), (3, 30)]"

lemma demo_map_spec: "map_inv demo_map"
  by (simp add: demo_map_def from_ordered_entries_spec(1))

definition demo_set :: "nat tree_set" where
  "demo_set = set_from_ordered_entries [1, 3, 4]"

lemma demo_set_spec: "map_inv demo_set"
  by (simp add: demo_set_def set_from_ordered_entries_def from_ordered_entries_spec(1))

text \<open>C28 (tree_map_batches): \<open>extend\<close> with distinct keys and \<open>insert_tree\<close>, which apply one sorted batch of edits
  along a single walk of the tree, yield the union of the maps that prefers the new entries.\<close>

theorem tree_map_batches:
  assumes "map_inv m" "distinct (map fst entries)" "map_inv other"
  shows "\<exists>a b. map_extend m entries = Some a \<and> map_inv a \<and> (\<forall>k. map_get a k = (map_abs m ++ map_of entries) k) \<and>
     insert_tree m other = Some b \<and> map_inv b \<and> (\<forall>k. map_get b k = (map_abs m ++ map_abs other) k)"
proof -
  obtain a where a: "map_extend m entries = Some a" "map_inv a" "map_abs a = map_abs m ++ map_of entries"
    using map_extend_spec [OF assms(1,2)] by blast
  obtain b where b: "insert_tree m other = Some b" "map_inv b" "map_abs b = map_abs m ++ map_abs other"
    using insert_tree_spec [OF assms(1,3)] by blast
  show ?thesis using a b map_get_spec [OF a(2)] map_get_spec [OF b(2)] by (intro exI [of _ a] exI [of _ b]) simp
qed

theorem tree_map_batches_witness:
  "\<exists>a b. map_extend demo_map [(3, 31), (2, 20)] = Some a \<and> map_inv a \<and>
     (\<forall>k. map_get a k = (map_abs demo_map ++ map_of [(3, 31), (2, 20)]) k) \<and>
     insert_tree demo_map demo_map = Some b \<and> map_inv b \<and> (\<forall>k. map_get b k = (map_abs demo_map ++ map_abs demo_map) k)"
  by (rule tree_map_batches) (simp_all add: demo_map_spec)

lemma takeWhile_sorted_filter:
  "sorted_wrt (<) (map fst xs) \<Longrightarrow> takeWhile (\<lambda>(k', v). k' \<le> (k :: 'k::linorder)) xs = filter (\<lambda>(k', v). k' \<le> k) xs"
  by (induction xs) (force simp: empty_filter_conv)+

lemma last_sorted:
  "sorted_wrt (<) (map fst xs) \<Longrightarrow> last_opt xs = Some (k', v) \<Longrightarrow>
     (k', v) \<in> set xs \<and> (\<forall>(k'', w) \<in> set xs. k'' \<le> (k' :: 'k::linorder))"
  by (cases xs rule: rev_cases) (auto simp: sorted_wrt_append last_opt_def less_imp_le)

text \<open>C29 (tree_map_closest): \<open>closest\<close> returns the entry with the greatest key at or below the given key, and nothing
  exactly if no key is at or below it.\<close>

theorem tree_map_closest:
  assumes "map_inv m"
  shows "\<exists>r. closest m k = Some r \<and>
    (case r of
       None \<Rightarrow> \<forall>k'. map_get m k' \<noteq> None \<longrightarrow> k < k'
     | Some (k', v) \<Rightarrow> map_get m k' = Some v \<and> k' \<le> k \<and> (\<forall>k''. map_get m k'' \<noteq> None \<longrightarrow> k'' \<le> k \<longrightarrow> k'' \<le> k'))"
proof -
  let ?l = "filter (\<lambda>(k', v). k' \<le> k) (map_entries m)"
  note sorted = map_entries_sorted [OF assms]
  have r: "closest m k = Some (last_opt ?l)" using closest_spec [OF assms] takeWhile_sorted_filter [OF sorted] by simp
  have get: "map_get m k' = Some v \<longleftrightarrow> (k', v) \<in> set (map_entries m)" for k' v
    using map_get_spec [OF assms] map_entries_distinct [OF assms] by (simp add: map_abs_def)
  have l: "sorted_wrt (<) (map fst ?l)" using sorted by (simp add: sorted_wrt_map sorted_wrt_filter)
  show ?thesis
  proof (cases "last_opt ?l")
    case None
    then have "?l = []" by (simp add: last_opt_def split: if_splits)
    then show ?thesis using r get None by (fastforce simp: filter_empty_conv)
  next
    case (Some p)
    obtain k' v where p: "p = (k', v)" by (cases p)
    from last_sorted [OF l] Some p have "(k', v) \<in> set ?l \<and> (\<forall>(k'', w) \<in> set ?l. k'' \<le> k')" by blast
    then show ?thesis using r get Some p by fastforce
  qed
qed

theorem tree_map_closest_witness:
  "\<exists>r. closest demo_map 2 = Some r \<and>
    (case r of
       None \<Rightarrow> \<forall>k'. map_get demo_map k' \<noteq> None \<longrightarrow> 2 < k'
     | Some (k', v) \<Rightarrow> map_get demo_map k' = Some v \<and> k' \<le> 2 \<and>
         (\<forall>k''. map_get demo_map k'' \<noteq> None \<longrightarrow> k'' \<le> 2 \<longrightarrow> k'' \<le> k'))"
  by (rule tree_map_closest) (rule demo_map_spec)

text \<open>\<open>retain\<close> keeps exactly the entries that satisfy the predicate; \<open>remove_range\<close> keeps exactly
  those in front of the start or at and after the end, for ordered targets of which the end does not lie before
  the start. Neither panics, and the order of the entries is kept.\<close>

theorem tree_map_filters:
  assumes "map_inv m" "ordered_target start" "ordered_target end'" "\<forall>k. start k = Greater \<longrightarrow> end' k = Greater"
  shows "(\<exists>a. map_retain predicate m = Some a \<and> map_inv a \<and>
      map_entries a = filter (\<lambda>(k, v). predicate k v) (map_entries m)) \<and>
    (\<exists>b. remove_range m start end' = Some b \<and> map_inv b \<and>
      map_entries b = filter (\<lambda>(k, v). start k = Greater \<or> end' k \<noteq> Greater) (map_entries m))"
  using map_retain_spec [OF assms(1)] remove_range_spec [OF assms] by blast

lemma dropWhile_sorted_filter:
  "sorted_wrt (<) ks \<Longrightarrow> dropWhile (\<lambda>k'. k' < k) ks = filter (\<lambda>k'. (k :: 'k::linorder) \<le> k') ks"
proof (induction ks)
  case (Cons a ks)
  show ?case
  proof (cases "a < k")
    case False
    then have "filter (\<lambda>k'. k \<le> k') ks = ks" using Cons.prems by (force simp: filter_id_conv)
    then show ?thesis using False by (simp add: not_less)
  qed (use Cons in auto)
qed simp

text \<open>C30 (tree_set_refines): \<open>TreeSet\<close> behaves as a finite set: insertion adds, removal deletes and reports
  membership, \<open>contains\<close> tests it, and iteration from a key yields the members from that key on in increasing order.\<close>

theorem tree_set_refines:
  assumes "map_inv s"
  shows "(set_contains s k \<longleftrightarrow> k \<in> set_abs s) \<and>
    (\<exists>s'. set_insert s k = Some s' \<and> map_inv s' \<and> set_abs s' = insert k (set_abs s)) \<and>
    (\<exists>s'. set_remove s k = Some (s', k \<in> set_abs s) \<and> map_inv s' \<and> set_abs s' = set_abs s - {k}) \<and>
    set_iter_from_run (card (set_abs s)) s k = Some (sorted_list_of_set {k' \<in> set_abs s. k \<le> k'})"
proof -
  let ?ks = "map fst (map_entries s)"
  have sorted: "sorted_wrt (<) ?ks" by (rule map_entries_sorted [OF assms])
  have set: "set_abs s = set ?ks" by (simp add: set_abs_def map_abs_def dom_map_of_conv_image_fst)
  have drop: "dropWhile (\<lambda>k'. k' < k) ?ks = filter (\<lambda>k'. k \<le> k') ?ks"
    by (rule dropWhile_sorted_filter [OF sorted])
  have "sorted_list_of_set {k' \<in> set_abs s. k \<le> k'} = filter (\<lambda>k'. k \<le> k') ?ks"
  proof -
    have "{k' \<in> set_abs s. k \<le> k'} = set (filter (\<lambda>k'. k \<le> k') ?ks)" by (auto simp: set)
    moreover have "sorted (filter (\<lambda>k'. k \<le> k') ?ks)" "distinct (filter (\<lambda>k'. k \<le> k') ?ks)"
      using sorted by (simp_all only: sorted_wrt_filter strict_sorted_iff distinct_filter)
    ultimately show ?thesis by (simp only: sorted_list_of_set.idem_if_sorted_distinct)
  qed
  moreover have "card (set_abs s) = length ?ks" using sorted strict_sorted_iff set distinct_card by metis
  ultimately show ?thesis using set_ops_spec [OF assms] set_iter_spec(2) [OF assms, of "length ?ks" k] drop by simp
qed

theorem tree_set_refines_witness:
  "(set_contains demo_set 3 \<longleftrightarrow> 3 \<in> set_abs demo_set) \<and>
    (\<exists>s'. set_insert demo_set 3 = Some s' \<and> map_inv s' \<and> set_abs s' = insert 3 (set_abs demo_set)) \<and>
    (\<exists>s'. set_remove demo_set 3 = Some (s', 3 \<in> set_abs demo_set) \<and> map_inv s' \<and> set_abs s' = set_abs demo_set - {3}) \<and>
    set_iter_from_run (card (set_abs demo_set)) demo_set 3 = Some (sorted_list_of_set {k' \<in> set_abs demo_set. 3 \<le> k'})"
  by (rule tree_set_refines) (rule demo_set_spec)

lemma map_extend_batch:
  assumes "map_inv m"
  shows "\<exists>m'. map_extend m entries = Some m' \<and> wf_tree map_ops m' \<and> sorted (map fst (map_entries m')) \<and>
    mset (map_entries m') = mset entries + mset (filter (\<lambda>(k, v). k \<notin> fst ` set entries) (map_entries m))"
proof -
  let ?es = "entry_edits entries"
  let ?sorted = "sort_key (edit_key map_entry_key) ?es"
  obtain m' removed where m': "edit_tree map_ops map_key_dim map_entry_key m ?es = Some (m', removed)" "wf_tree map_ops m'"
    "tree_items m' = batch_edits map_entry_key ?sorted (tree_items m)"
    using tm.edit_tree_batch [OF map_inv_dest [OF assms], of ?es] by blast
  have keys: "edit_key map_entry_key ` set ?es = Some ` fst ` set entries"
    using arg_cong [OF entry_edits_keys [of entries], of set] by (simp add: image_image)
  have pairs: "map entry_pair (concat (map edit_items ?es)) = entries"
    by (induction entries) (auto simp: entry_edits_def entry_pair_def)
  note b = batch_mset [OF map_inv_dest(2) [OF assms], of ?sorted, simplified, folded m'(3)]
  have "mset (concat (map edit_items ?sorted)) = mset (concat (map edit_items ?es))"
    by (simp only: mset_concat sum_mset_sum_list [symmetric] mset_map mset_sort)
  then have "mset (map_entries m') = mset (map entry_pair (concat (map edit_items ?es))) +
      mset (map entry_pair (filter (\<lambda>x. map_entry_key x \<notin> Some ` fst ` set entries) (tree_items m)))"
    using b(1) by (simp add: map_entries_def keys)
  moreover have "map entry_pair (filter (\<lambda>x. map_entry_key x \<notin> Some ` fst ` set entries) (tree_items m)) =
      filter (\<lambda>(k, v). k \<notin> fst ` set entries) (map_entries m)"
    by (simp add: map_entries_def filter_map o_def entry_pair_def map_entry_key_def image_iff)
  moreover have "sorted (map Some (map fst (map_entries m')))"
    using b(2) by (simp add: map_entries_def o_def entry_pair_def map_entry_key_def [abs_def])
  then have "sorted (map fst (map_entries m'))" by (simp add: sorted_map)
  moreover have "map_extend m entries = Some m'" using m'(1) by (simp add: map_extend_def entry_edits_def)
  ultimately show ?thesis using m'(2) unfolding pairs by (intro exI [of _ m']) simp
qed

text \<open>C35 (extend_keeps_duplicates): \<open>extend\<close> puts every entry of its batch into the tree, also those that repeat a key, and drops
  the old entries of these keys. So the tree satisfies the invariant of a map afterwards exactly if no key was repeated.
  The statement holds in whatever order the unstable sort of the code leaves the entries of a key.\<close>

theorem extend_keeps_duplicates:
  assumes "map_inv m"
  shows "\<exists>m'. map_extend m entries = Some m' \<and> sorted (map fst (map_entries m')) \<and>
    mset (map_entries m') = mset entries + mset (filter (\<lambda>(k, v). k \<notin> fst ` set entries) (map_entries m)) \<and>
    (map_inv m' \<longleftrightarrow> distinct (map fst entries))"
proof -
  obtain m' where m': "map_extend m entries = Some m'" "sorted (map fst (map_entries m'))"
    "mset (map_entries m') = mset entries + mset (filter (\<lambda>(k, v). k \<notin> fst ` set entries) (map_entries m))"
    using map_extend_batch [OF assms] by blast
  have "distinct (map fst entries)" if "map_inv m'"
  proof -
    have "mset (map fst entries) \<subseteq># mset (map fst (map_entries m'))"
      using image_mset_subseteq_mono [of "mset entries" "mset (map_entries m')" fst] m'(3) by simp
    then show ?thesis using distinct_submset map_entries_distinct [OF that] by blast
  qed
  moreover have "map_inv m'" if "distinct (map fst entries)" using map_extend_spec [OF assms that] m'(1) by simp
  ultimately show ?thesis using m' by blast
qed

theorem extend_keeps_duplicates_witness:
  "\<exists>m'. map_extend demo_map [(7, 10), (3, 5), (7, 20)] = Some m' \<and>
    mset (map_entries m') = mset ([(7, 10), (3, 5), (7, 20)] @ filter (\<lambda>(k, v). k \<notin> {7, 3}) (map_entries demo_map)) \<and> \<not> map_inv m'"
proof -
  obtain m' where m': "map_extend demo_map [(7, 10), (3, 5), (7, 20)] = Some m'"
    "mset (map_entries m') = mset [(7, 10), (3, 5), (7, 20)] + mset (filter (\<lambda>(k, v). k \<notin> fst ` set [(7, 10), (3, 5), (7, 20 :: nat)]) (map_entries demo_map))"
    "map_inv m' \<longleftrightarrow> distinct (map fst [(7 :: nat, 10), (3, 5), (7, 20 :: nat)])"
    using extend_keeps_duplicates [OF demo_map_spec(1), of "[(7, 10), (3, 5), (7, 20)]"] by blast
  have "fst ` set [(7, 10), (3, 5), (7, 20 :: nat)] = {7, 3 :: nat}" by auto
  then have "mset (map_entries m') = mset ([(7, 10), (3, 5), (7, 20)] @ filter (\<lambda>(k, v). k \<notin> {7, 3}) (map_entries demo_map))"
    using m'(2) by (simp only: mset_append)
  moreover have "\<not> map_inv m'" unfolding m'(3) by simp
  ultimately show ?thesis using m'(1) by blast
qed

end
