(* ===== verification/Tree_Properties.thy ===== *)
theory Tree_Properties
  imports Tree_Map
begin

text \<open>
  The properties of lookups, cursors and iterators for any lawful summary and dimension, with the dictionaries of
  \<open>TreeMap\<close> as their instances.
\<close>

lemma seek_lawsI: "lawful_summary S \<Longrightarrow> lawful_dim S D \<Longrightarrow> seek_laws S D"
  by (simp add: seek_laws_def seek_laws_axioms_def summary_laws_def)

lemma summary_seekI: "lawful_summary S \<Longrightarrow> lawful_dim S D \<Longrightarrow> lawful_dim S D' \<Longrightarrow> summary_seek S D D'"
  by (simp add: summary_seek_def summary_seek_axioms_def seek_laws_def seek_laws_axioms_def summary_laws_def)

text \<open>C19 (find_agrees_with_scan): for a target ordered along the items, \<open>find\<close> and \<open>find_with_prev\<close>, which read only the cached
  summaries of the subtrees they skip, return the first item the target does not lie beyond, its start and end
  positions, and the item before it; they return no item exactly if the scan passes over all of them.\<close>

theorem find_agrees_with_scan:
  assumes "lawful_summary S" "lawful_dim S D" "wf_tree S t"
    and "target_sorted S D (beyond target bias) (dzero D) (tree_items t)"
  shows "case seek_list S D (beyond target bias) (dzero D) (tree_items t) of
      (l, p, []) \<Rightarrow> snd (snd (find_in_tree D target bias t)) = None \<and>
        (\<exists>a b. find_with_prev D target bias t = Some (a, b, None))
    | (l, p, x # r) \<Rightarrow> find_in_tree D target bias t = (p, dadd D p (ssummary S x), Some x) \<and>
        find_with_prev D target bias t = Some (p, dadd D p (ssummary S x), Some (last_opt l, x))"
proof -
  note laws = seek_lawsI [OF assms(1,2)]
  obtain l p r where lpr: "seek_list S D (beyond target bias) (dzero D) (tree_items t) = (l, p, r)"
    by (cases "seek_list S D (beyond target bias) (dzero D) (tree_items t)") auto
  show ?thesis
  proof (cases r)
    case Nil
    show ?thesis
      using seek_laws.seek_none [OF laws assms(3) lpr [unfolded Nil]] lpr Nil
      by (auto simp: find_in_tree_def)
  next
    case (Cons x r')
    show ?thesis using seek_laws.find_some [OF laws assms(3,4) lpr [unfolded Cons]] lpr Cons by simp
  qed
qed

lemma demo_items: "tree_items demo_map = [\<lparr>entry_key = 1, entry_value = 10\<rparr>, \<lparr>entry_key = 3, entry_value = 30\<rparr>]"
  by code_simp

lemma map_dadd: "dadd map_key_dim d (ssummary map_ops x) = map_entry_key x"
  by (simp add: map_ops_def map_key_dim_def)

lemma demo_wf: "wf_tree map_ops demo_map"
  by (rule map_inv_dest(1) [OF demo_map_spec])

lemma demo_target_sorted:
  "target_sorted map_ops map_key_dim (beyond (ord_target (Some k)) b) (dzero map_key_dim) (tree_items demo_map)"
proof (rule tm.target_sorted_keys [OF map_inv_dest(2) [OF demo_map_spec]])
  show "ends map_ops map_key_dim (dzero map_key_dim) (tree_items demo_map) = map map_entry_key (tree_items demo_map)"
    using tm.ends_keys [OF map_inv_dest(2) [OF demo_map_spec]] tm.dzero_least by blast
qed (auto simp: tm.beyond_key split: if_splits)

lemma demo_seek:
  "seek_list map_ops map_key_dim (beyond (ord_target (Some 2)) Left) (dzero map_key_dim) (tree_items demo_map) =
     ([\<lparr>entry_key = 1, entry_value = 10\<rparr>], Some 1, [\<lparr>entry_key = 3, entry_value = 30\<rparr>])"
  by code_simp

theorem find_agrees_with_scan_witness:
  "find_in_tree map_key_dim (ord_target (Some 2)) Left demo_map =
     (Some 1, Some 3, Some \<lparr>entry_key = 3, entry_value = 30\<rparr>)"
  using find_agrees_with_scan [OF lawful_map_ops lawful_map_key_dim demo_wf demo_target_sorted [of 2 Left]]
  by (simp add: demo_seek map_dadd map_entry_key_def)

text \<open>C20 (slice_suffix_partition): slicing a positioned or a fresh cursor up to an ordered target and then taking the suffix never
  panics and cuts the remaining items in two well-formed trees at the place where the scan stops; the cursor
  ends at the end of its tree.\<close>

theorem slice_suffix_partition:
  assumes "lawful_summary S" "lawful_dim S D" "cursor_before S D c pre suf" "target (cur_pos c) \<noteq> Less"
    and "target_sorted S D (beyond target bias) (cur_pos c) suf"
  shows "\<exists>a c' b c''. cursor_slice S D target bias c = Some (a, c') \<and> cursor_suffix S D c' = Some (b, c'') \<and>
    wf_tree S a \<and> wf_tree S b \<and> tree_items a @ tree_items b = suf \<and>
    tree_items a = fst (seek_list S D (beyond target bias) (cur_pos c) suf) \<and>
    cursor_at S D c'' (pre @ suf) []"
proof -
  note laws = seek_lawsI [OF assms(1,2)]
  obtain l p r where lpr: "seek_list S D (beyond target bias) (cur_pos c) suf = (l, p, r)"
    by (cases "seek_list S D (beyond target bias) (cur_pos c) suf") auto
  obtain a c' where a: "cursor_slice S D target bias c = Some (a, c')" "wf_tree S a" "tree_items a = l" "cursor_at S D c' (pre @ l) r"
    using seek_laws.cursor_slice_spec [OF laws assms(3-5) lpr] by blast
  then have "cursor_before S D c' (pre @ l) r" by (simp add: cursor_before_def)
  from seek_laws.cursor_suffix_spec [OF laws this] obtain b c'' where
    b: "cursor_suffix S D c' = Some (b, c'')" "wf_tree S b" "tree_items b = r" "cursor_at S D c'' ((pre @ l) @ r) []" by blast
  moreover have "suf = l @ r" using seek_list_parts [OF lpr] by simp
  ultimately show ?thesis using a lpr by auto
qed

theorem slice_suffix_partition_witness:
  "\<exists>a c' b c''. cursor_slice map_ops map_key_dim (ord_target (Some 2)) Left (cursor_new map_key_dim demo_map) = Some (a, c') \<and>
    cursor_suffix map_ops map_key_dim c' = Some (b, c'') \<and> wf_tree map_ops a \<and> wf_tree map_ops b \<and>
    tree_items a = [\<lparr>entry_key = 1, entry_value = 10\<rparr>] \<and> tree_items b = [\<lparr>entry_key = 3, entry_value = 30\<rparr>]"
proof -
  have pos: "cur_pos (cursor_new map_key_dim demo_map) = dzero map_key_dim" by (simp add: cursor_new_def)
  have "ord_target (Some 2) (cur_pos (cursor_new map_key_dim demo_map)) \<noteq> Less"
    by (simp only: pos) (simp add: ord_target_def map_key_dim_def)
  from slice_suffix_partition [OF lawful_map_ops lawful_map_key_dim cursor_before_new [OF demo_wf] this
      demo_target_sorted [of 2 Left, folded pos]]
  show ?thesis by (auto simp: pos demo_seek) (auto simp: demo_items)
qed

text \<open>C26 (prev_undoes_next): a cursor at an item, advanced and then moved back, stands at the same item with the same position;
  the neighbours the cursor reports are the ones it reaches.\<close>

theorem prev_undoes_next:
  assumes "lawful_summary S" "lawful_dim S D" "cursor_at S D c pre (x # suf)"
  shows "\<exists>c' c''. cursor_next D c = Some c' \<and> cursor_prev D c' = Some c'' \<and>
    cursor_item c' = Some (head_opt suf) \<and> cursor_next_item c = cursor_item c' \<and>
    cursor_prev_item c' = cursor_item c \<and> cursor_item c'' = cursor_item c \<and> cur_pos c'' = cur_pos c \<and>
    cursor_at S D c'' pre (x # suf)"
proof -
  note laws = seek_lawsI [OF assms(1,2)]
  have item: "cursor_at S D c pre suf \<Longrightarrow> cursor_item c = Some (head_opt suf)" for c pre suf
    by (intro cursor_item_located) (auto simp: cursor_at_def)
  obtain c' where c': "cursor_next D c = Some c'" "cursor_at S D c' (pre @ [x]) suf"
    using cursor_laws.cursor_next_spec [of S D c pre "x # suf"] assms(1,3) by (auto simp: cursor_laws_def summary_laws_def)
  then have "cursor_behind S D c' (pre @ [x]) suf" by (simp add: cursor_behind_def)
  from seek_laws.cursor_prev_spec [OF laws this] obtain c'' where
    c'': "cursor_prev D c' = Some c''" "cursor_at S D c'' pre (x # suf)" by auto
  have "cur_pos c'' = cur_pos c" using c''(2) assms(3) by (simp add: cursor_at_def)
  then show ?thesis
    using c' c'' item [OF c'(2)] item [OF c''(2)] item [OF assms(3)] seek_laws.cursor_next_item_spec [OF laws assms(3)]
      seek_laws.cursor_prev_item_spec [OF laws c'(2)]
    by (auto simp: head_opt_def last_opt_def)
qed

theorem prev_undoes_next_witness:
  "\<exists>c c' c''. cursor_next map_key_dim (cursor_new map_key_dim demo_map) = Some c \<and> cursor_next map_key_dim c = Some c' \<and>
     cursor_prev map_key_dim c' = Some c'' \<and> cursor_item c'' = cursor_item c \<and> cur_pos c'' = cur_pos c"
proof -
  have "cursor_fresh map_ops map_key_dim (cursor_new map_key_dim demo_map)"
    using demo_wf by (simp add: cursor_fresh_def cursor_new_def)
  from tm.cursor_next_fresh [OF this] obtain c where c: "cursor_next map_key_dim (cursor_new map_key_dim demo_map) = Some c"
      "cursor_at map_ops map_key_dim c [] (\<lparr>entry_key = 1, entry_value = 10\<rparr> # [\<lparr>entry_key = 3, entry_value = 30\<rparr>])"
    by (auto simp: cursor_new_def demo_items)
  from prev_undoes_next [OF lawful_map_ops lawful_map_key_dim c(2)] c(1) show ?thesis by blast
qed

text \<open>C27 (summary_of_prefix): \<open>Cursor::summary\<close> up to an ordered target is the sum, in any lawful output dimension, of the summaries
  of exactly the items the scan passes over, and leaves the cursor where a slice would.\<close>

theorem summary_of_prefix:
  assumes "lawful_summary S" "lawful_dim S D" "lawful_dim S D'" "cursor_before S D c pre suf" "target (cur_pos c) \<noteq> Less"
    and "target_sorted S D (beyond target bias) (cur_pos c) suf"
  shows "\<exists>c' l r. seek_list S D (beyond target bias) (cur_pos c) suf = (l, pos_after S D (cur_pos c) l, r) \<and> suf = l @ r \<and>
    cursor_summary D D' target bias c = Some (foldl (dadd D') (dzero D') (map (ssummary S) l), c') \<and>
    cursor_at S D c' (pre @ l) r"
proof -
  obtain l p r where lpr: "seek_list S D (beyond target bias) (cur_pos c) suf = (l, p, r)"
    by (cases "seek_list S D (beyond target bias) (cur_pos c) suf") auto
  from summary_seek.cursor_summary_spec [OF summary_seekI [OF assms(1-3)] assms(4-6) lpr] seek_list_parts [OF lpr] lpr
  show ?thesis by (auto simp: pos_after_def)
qed

theorem summary_of_prefix_witness:
  "\<exists>c'. cursor_summary map_key_dim map_key_dim (ord_target (Some 2)) Left (cursor_new map_key_dim demo_map) = Some (Some 1, c')"
proof -
  have pos: "cur_pos (cursor_new map_key_dim demo_map) = dzero map_key_dim" by (simp add: cursor_new_def)
  have "ord_target (Some 2) (cur_pos (cursor_new map_key_dim demo_map)) \<noteq> Less"
    by (simp only: pos) (simp add: ord_target_def map_key_dim_def)
  from summary_of_prefix [OF lawful_map_ops lawful_map_key_dim lawful_map_key_dim cursor_before_new [OF demo_wf] this
      demo_target_sorted [of 2 Left, folded pos]]
  show ?thesis by (auto simp: pos demo_seek map_dadd map_entry_key_def)
qed

text \<open>The iterator of a tree yields its items in order and then ends; a filter cursor whose filter accepts
  every node that has an accepted item below it yields exactly the accepted items, skipping rejected subtrees.\<close>

theorem iterators_enumerate:
  assumes "lawful_summary S" "lawful_dim S D" "wf_tree S t" "filter_sound S F"
  shows "iter_run n t [] = take n (tree_items t) \<and>
    filter_run n D F (filter_cursor_new D t) = Some (take n (filter (\<lambda>x. F (ssummary S x)) (tree_items t)))"
  using summary_laws.iter_run_spec [of S t "[]" "tree_items t" n] seek_laws.filter_run_spec [OF seek_lawsI [OF assms(1,2)] assms(4,3)]
    assms(1,3) by (simp add: summary_laws_def)

end
