(* ===== verification/Locator.thy ===== *)
theory Locator
  imports Keyed_Tree "HOL-Library.List_Lexorder"
begin

text \<open>
  \<open>crates/text/src/locator.rs\<close>: identifiers for positions in an ordered collection, sequences of
  64-bit numbers in lexicographic order. \<open>Locator::between\<close> computes a locator between two others.
\<close>

unbundle bit_operations_syntax

subsection \<open>Operations\<close>

type_synonym locator = "u64 list"

definition locator_min :: locator where
  "locator_min = [0]"

definition locator_max :: locator where
  "locator_max = [- 1]"

definition assign :: "locator \<Rightarrow> locator \<Rightarrow> locator" where
  "assign self other = map (\<lambda>i. other ! i) [0 ..< length other]"

definition saturating_sub :: "u64 \<Rightarrow> u64 \<Rightarrow> u64" where
  "saturating_sub a b = (if b \<le> a then a - b else 0)"

text \<open>The number pushed for a pair of components.\<close>

definition mid_component :: "u64 \<Rightarrow> u64 \<Rightarrow> u64" where
  "mid_component l r = l + drop_bit 48 (saturating_sub r l)"

text \<open>The loop over the two sequences, padded with zeros and with the greatest number. It has no bound of its own; it
  ends because past the end of both sequences the pair is \<open>(0, u64::MAX)\<close>.\<close>

definition head_or :: "'a \<Rightarrow> 'a list \<Rightarrow> 'a" where
  "head_or d xs = (case xs of [] \<Rightarrow> d | x # _ \<Rightarrow> x)"

lemma head_or_simps [simp]: "head_or d [] = d" "head_or d (x # xs) = x"
  by (simp_all add: head_or_def)

lemma mid_past_ends: "mid_component 0 (- 1) = 0xFFFF"
  by (simp add: mid_component_def saturating_sub_def) code_simp

function between_loop :: "u64 list \<Rightarrow> u64 list \<Rightarrow> u64 list" where
  "between_loop ls rs =
     (let l = head_or 0 ls; r = head_or (- 1) rs; mid = mid_component l r
      in if l < mid then [mid] else mid # between_loop (tl ls) (tl rs))"
  by pat_completeness auto
termination
proof (relation "measure (\<lambda>(ls, rs). length ls + length rs)", goal_cases)
  case (2 ls rs l r mid)
  then have "ls \<noteq> [] \<or> rs \<noteq> []" using mid_past_ends by auto
  then show ?case by (cases ls; cases rs) auto
qed simp

declare between_loop.simps [simp del]

definition between :: "locator \<Rightarrow> locator \<Rightarrow> locator" where
  "between lhs rhs = between_loop lhs rhs"

definition locator_len :: "locator \<Rightarrow> nat" where
  "locator_len l = length l"

definition locator_is_empty :: "locator \<Rightarrow> bool" where
  "locator_is_empty l \<longleftrightarrow> locator_len l = 0"

text \<open>\<open>Item\<close>, \<open>KeyedItem\<close> and \<open>ContextLessSummary\<close> for \<open>Locator\<close>.\<close>

definition locator_ops :: "(locator, locator) item_ops" where
  "locator_ops = \<lparr>szero = locator_min, sadd = assign, ssummary = (\<lambda>l. l)\<rparr>"

subsection \<open>Between\<close>

lemma assign_eq [simp]: "assign self other = other"
  by (simp add: assign_def map_nth)

interpretation locators: summary_laws locator_ops
  by unfold_locales (simp add: lawful_summary_def locator_ops_def)

lemma mid_bounds:
  assumes "l < r" shows "l \<le> mid_component l r" "mid_component l r < r"
proof -
  have le: "unat l \<le> unat r" and lt: "unat l < unat r" using assms by (simp_all add: word_less_nat_alt)
  have d: "unat (drop_bit 48 (r - l)) = (unat r - unat l) div 2 ^ 48"
    using assms by (simp add: drop_bit_eq_div unat_div_distrib unat_sub less_imp_le)
  have small: "(unat r - unat l) div 2 ^ 48 < unat r - unat l" using lt by simp
  have "unat r < 2 ^ 64" using unsigned_less [of r] by simp
  then have "unat l + unat (drop_bit 48 (r - l)) < 2 ^ 64" using small d lt by linarith
  then have "unat (mid_component l r) = unat l + (unat r - unat l) div 2 ^ 48"
    using assms d by (simp add: mid_component_def saturating_sub_def less_imp_le unat_add_lem [THEN iffD1])
  then show "l \<le> mid_component l r" "mid_component l r < r"
    using small by (simp_all add: word_le_nat_alt word_less_nat_alt)
qed

lemma mid_not_less: "r \<le> l \<Longrightarrow> mid_component l r = l"
  by (cases "r = l") (auto simp: mid_component_def saturating_sub_def)

lemma mid_ge: "l \<le> mid_component l r"
  using mid_bounds(1) [of l r] mid_not_less [of r l] by (cases "l < r") auto

text \<open>The result is above the left bound, ends in a nonzero component and has at most one component more than the
  longer of the bounds.\<close>

lemma between_loop_above: "ls < between_loop ls rs"
proof (induction ls rs rule: between_loop.induct)
  case (1 ls rs)
  define l where "l = head_or 0 ls"
  define mid where "mid = mid_component l (head_or (- 1) rs)"
  show ?case
  proof (cases "l < mid")
    case True
    then have "between_loop ls rs = [mid]" by (subst between_loop.simps) (simp add: l_def mid_def)
    then show ?thesis using True by (cases ls) (auto simp: l_def)
  next
    case False
    then have "mid = l" using mid_ge [of l] by (simp add: mid_def not_less order.eq_iff)
    with False have "between_loop ls rs = l # between_loop (tl ls) (tl rs)"
      by (subst between_loop.simps) (simp add: l_def [symmetric] mid_def [symmetric] Let_def)
    moreover have "tl ls < between_loop (tl ls) (tl rs)"
      using 1 [OF l_def refl mid_def] False by blast
    ultimately show ?thesis by (cases ls) (auto simp: l_def)
  qed
qed

lemma between_loop_last: "between_loop ls rs \<noteq> [] \<and> last (between_loop ls rs) \<noteq> 0"
proof (induction ls rs rule: between_loop.induct)
  case (1 ls rs)
  show ?case
  proof (cases "head_or 0 ls < mid_component (head_or 0 ls) (head_or (- 1) rs)")
    case True
    then show ?thesis by (subst (1 2) between_loop.simps) auto
  next
    case False
    then show ?thesis using 1 [OF refl refl refl False] by (subst (1 2) between_loop.simps) (simp add: Let_def)
  qed
qed

lemma between_loop_length: "length (between_loop ls rs) \<le> max (length ls) (length rs) + 1"
proof (induction ls rs rule: between_loop.induct)
  case (1 ls rs)
  show ?case
  proof (cases "head_or 0 ls < mid_component (head_or 0 ls) (head_or (- 1) rs)")
    case True
    then show ?thesis by (subst between_loop.simps) simp
  next
    case False
    then have "ls \<noteq> [] \<or> rs \<noteq> []" using mid_past_ends by auto
    then show ?thesis using 1 [OF refl refl refl False] False
      by (subst between_loop.simps) (cases ls; cases rs; simp add: Let_def)
  qed
qed

text \<open>It is below the right bound if that does not end in zero.\<close>

lemma between_loop_below:
  "ls < rs \<Longrightarrow> last rs \<noteq> 0 \<Longrightarrow> between_loop ls rs < rs"
proof (induction ls rs rule: between_loop.induct)
  case (1 ls rs)
  obtain r rs' where rs: "rs = r # rs'" using "1.prems"(1) by (cases rs) auto
  define l where "l = head_or 0 ls"
  have "l \<le> r" using "1.prems"(1) rs by (cases ls) (auto simp: l_def)
  show ?case
  proof (cases "l < r")
    case True
    then show ?thesis using mid_bounds [OF True] rs
      by (subst between_loop.simps) (auto simp: l_def [symmetric] Let_def)
  next
    case False
    then have lr: "l = r" using \<open>l \<le> r\<close> by simp
    have mid: "mid_component l r = l" using lr mid_not_less by simp
    have tl: "tl ls < rs'" "last rs' \<noteq> 0"
    proof -
      have "tl ls < rs' \<and> rs' \<noteq> []"
        using "1.prems" rs lr by (cases ls; cases rs') (auto simp: l_def)
      then show "tl ls < rs'" "last rs' \<noteq> 0" using "1.prems"(2) rs by auto
    qed
    have "between_loop (tl ls) rs' < rs'"
      using "1.IH" [OF refl refl refl] mid rs tl by (simp add: l_def [symmetric])
    then show ?thesis using mid rs lr
      by (subst between_loop.simps) (auto simp: l_def [symmetric] Let_def)
  qed
qed

subsection \<open>Properties\<close>

text \<open>C23 (between_strictly_between): \<open>Locator::between\<close> returns, for every pair of locators, a nonempty locator above the left bound
  with at most one component more than the longer bound and a nonzero last component; if the left bound is below the right one and the right one
  does not end in zero, it lies strictly between them. Its own results satisfy that condition, so it can be iterated.\<close>

theorem between_strictly_between:
  "between lhs rhs \<noteq> [] \<and> last (between lhs rhs) \<noteq> 0 \<and> lhs < between lhs rhs \<and>
   locator_len (between lhs rhs) \<le> max (locator_len lhs) (locator_len rhs) + 1 \<and>
   (lhs < rhs \<longrightarrow> last rhs \<noteq> 0 \<longrightarrow> between lhs rhs < rhs)"
  unfolding between_def locator_len_def
  using between_loop_last between_loop_above between_loop_length between_loop_below by blast

theorem between_strictly_between_witness:
  "locator_min < between locator_min locator_max \<and> between locator_min locator_max < locator_max"
proof -
  have "locator_min < locator_max" "last locator_max \<noteq> 0" by code_simp+
  then show ?thesis using between_strictly_between [of locator_min locator_max] by blast
qed

text \<open>Fact (sequential_append_depth): appending in sequence before the greatest locator keeps locators at one component as long as the last
  one is at least \<open>2^48\<close> below the maximum.\<close>

theorem sequential_append_depth:
  assumes "unat x + 2 ^ 48 < 2 ^ 64"
  shows "\<exists>y. between [x] locator_max = [y] \<and> x < y"
proof -
  have m: "unat (- 1 - x) = 2 ^ 64 - 1 - unat x"
    by (simp add: unat_sub [of x "- 1"] unsigned_minus_1_eq_mask mask_eq_exp_minus_1)
  then have "2 ^ 48 \<le> unat (- 1 - x)" using assms by simp
  then have "0 < unat (drop_bit 48 (- 1 - x))" by (simp add: drop_bit_eq_div unat_div_distrib div_greater_zero_iff)
  then have "mid_component x (- 1) \<noteq> x" by (auto simp: mid_component_def saturating_sub_def)
  then have "x < mid_component x (- 1)" using mid_ge [of x "- 1"] by simp
  then show ?thesis unfolding between_def locator_max_def by (subst between_loop.simps) simp
qed

theorem sequential_append_depth_witness: "\<exists>y. between [70000] locator_max = [y] \<and> 70000 < y"
  by (rule sequential_append_depth) simp

text \<open>Fact (between_above_zero_ended): if the right bound is the left bound followed by a zero, the result is not below the right bound.\<close>

theorem between_above_zero_ended: "[5] < [5, 0 :: u64] \<and> [5, 0] < between [5] [5, 0]"
  by code_simp

end
