(* ===== verification/Undo_Map.thy ===== *)
theory Undo_Map
  imports Clock Keyed_Tree Cursor_Back
begin

text \<open>
  \<open>crates/text/src/undo_map.rs\<close>: how often every edit was undone. The entries are kept in a keyed tree ordered by the edit
  and the undo operation; an edit counts as undone if the greatest of its counts is odd. The counts of
  a map depend only on the set of undo operations it received.
\<close>

subsection \<open>Keys and entries\<close>

datatype undo_map_key = UndoMapKey (key_edit_id: lamport) (key_undo_id: lamport)

text \<open>The derived order compares the edits first.\<close>

instantiation undo_map_key :: linorder
begin

definition less_undo_map_key :: "undo_map_key \<Rightarrow> undo_map_key \<Rightarrow> bool" where
  "less_undo_map_key a b \<longleftrightarrow>
     key_edit_id a < key_edit_id b \<or> (key_edit_id a = key_edit_id b \<and> key_undo_id a < key_undo_id b)"

definition less_eq_undo_map_key :: "undo_map_key \<Rightarrow> undo_map_key \<Rightarrow> bool" where
  "less_eq_undo_map_key a b \<longleftrightarrow> a = b \<or> a < b"

instance
proof
  fix x y z :: undo_map_key
  show "x < y \<longleftrightarrow> x \<le> y \<and> \<not> y \<le> x"
    by (auto simp: less_undo_map_key_def less_eq_undo_map_key_def)
  show "x \<le> x"
    by (simp add: less_eq_undo_map_key_def)
  show "x \<le> y \<Longrightarrow> y \<le> z \<Longrightarrow> x \<le> z"
    by (auto simp: less_undo_map_key_def less_eq_undo_map_key_def)
  show "x \<le> y \<Longrightarrow> y \<le> x \<Longrightarrow> x = y"
    by (auto simp: less_undo_map_key_def less_eq_undo_map_key_def)
  show "x \<le> y \<or> y \<le> x"
    by (cases x; cases y) (auto simp: less_undo_map_key_def less_eq_undo_map_key_def)
qed

end

record undo_map_entry =
  undo_key :: undo_map_key
  entry_undo_count :: u32

definition undo_ops :: "(undo_map_entry, undo_map_key) item_ops" where
  "undo_ops = \<lparr>szero = UndoMapKey lamport_MIN lamport_MIN, sadd = max, ssummary = undo_key\<rparr>"

definition undo_dim :: "(undo_map_key, undo_map_key) dim_ops" where
  "undo_dim = summary_dim undo_ops"

type_synonym undo_map = "(undo_map_entry, undo_map_key) node"

text \<open>\<open>UndoOperation\<close>: its counts are a hash map, here the list of its pairs in the order of iteration.\<close>

record undo_operation =
  undo_timestamp :: lamport
  undo_version :: global
  undo_counts :: "(lamport \<times> u32) list"

subsection \<open>Operations\<close>

definition undo_map_default :: undo_map where
  "undo_map_default = tree_new undo_ops"

definition undo_insert :: "undo_map \<Rightarrow> undo_operation \<Rightarrow> undo_map option" where
  "undo_insert m undo =
     (let edits = map (\<lambda>(edit_id, count).
            Insert \<lparr>undo_key = UndoMapKey edit_id (undo_timestamp undo), entry_undo_count = count\<rparr>) (undo_counts undo)
      in map_option fst (edit_tree undo_ops undo_dim undo_key m edits))"

text \<open>The loop \<open>for entry in cursor\<close> of \<open>undo_count\<close> and of \<open>was_undone\<close>, which in addition asks whether the
  undo was observed. The fuel is one more than the number of entries.\<close>

fun undo_loop ::
  "nat \<Rightarrow> (lamport \<Rightarrow> bool) \<Rightarrow> lamport \<Rightarrow> (undo_map_entry, undo_map_key, undo_map_key) cursor \<Rightarrow> u32 \<Rightarrow> u32 option" where
  "undo_loop 0 counted edit_id c undo_count = None"
| "undo_loop (Suc n) counted edit_id c undo_count =
     (case cursor_iter_next undo_dim c of
        None \<Rightarrow> None
      | Some (None, c') \<Rightarrow> Some undo_count
      | Some (Some entry, c') \<Rightarrow>
          if key_edit_id (undo_key entry) \<noteq> edit_id then Some undo_count
          else
            undo_loop n counted edit_id c'
              (if counted (key_undo_id (undo_key entry)) then max undo_count (entry_undo_count entry) else undo_count))"

definition undo_seek ::
  "undo_map \<Rightarrow> lamport \<Rightarrow> (undo_map_entry, undo_map_key, undo_map_key) cursor option" where
  "undo_seek m edit_id =
     map_option snd
       (cursor_seek undo_dim (ord_target (UndoMapKey edit_id lamport_MIN)) Left (cursor_new undo_dim m))"

definition was_undone :: "undo_map \<Rightarrow> lamport \<Rightarrow> global \<Rightarrow> bool option" where
  "was_undone m edit_id version =
     Option.bind (undo_seek m edit_id) (\<lambda>c.
       map_option (\<lambda>n. n mod 2 = 1) (undo_loop (length (tree_items m) + 1) (observed version) edit_id c 0))"

definition undo_count :: "undo_map \<Rightarrow> lamport \<Rightarrow> u32 option" where
  "undo_count m edit_id =
     Option.bind (undo_seek m edit_id) (\<lambda>c. undo_loop (length (tree_items m) + 1) (\<lambda>u. True) edit_id c 0)"

definition is_undone :: "undo_map \<Rightarrow> lamport \<Rightarrow> bool option" where
  "is_undone m edit_id = map_option (\<lambda>n. n mod 2 = 1) (undo_count m edit_id)"

subsection \<open>The entries of an undo map\<close>

lemma lamport_MIN_least: "lamport_MIN \<le> t"
  by (auto simp: lamport_MIN_def less_eq_lamport_def lamport_cmp_def then_with_def)

lemma undo_zero_least: "UndoMapKey lamport_MIN lamport_MIN \<le> k"
proof (cases k)
  case (UndoMapKey e u)
  then show ?thesis using lamport_MIN_least [of e] lamport_MIN_least [of u]
    by (auto simp: less_eq_undo_map_key_def less_undo_map_key_def order.order_iff_strict)
qed

interpretation undo: keyed_laws undo_ops undo_dim undo_key
proof unfold_locales
  show "lawful_summary undo_ops"
    by (simp add: lawful_summary_def undo_ops_def max.assoc max_absorb2 undo_zero_least)
  show "lawful_dim undo_ops undo_dim"
    by (simp add: lawful_dim_def undo_dim_def summary_dim_def undo_ops_def max.assoc)
  fix d k :: undo_map_key and x :: undo_map_entry
  show "d \<le> undo_key x \<Longrightarrow> dadd undo_dim d (ssummary undo_ops x) = undo_key x"
    by (simp add: undo_dim_def summary_dim_def undo_ops_def max_absorb2)
  show "dzero undo_dim \<le> k"
    by (simp add: undo_dim_def summary_dim_def undo_ops_def undo_zero_least)
qed

definition undo_inv :: "undo_map \<Rightarrow> bool" where
  "undo_inv m \<longleftrightarrow> wf_tree undo_ops m \<and> key_sorted undo_key (tree_items m)"

definition undo_abs :: "undo_map \<Rightarrow> lamport \<Rightarrow> lamport \<Rightarrow> u32 option" where
  "undo_abs m e u = map_option entry_undo_count (lookup_key undo_key (tree_items m) (UndoMapKey e u))"

lemma undo_invD: "undo_inv m \<Longrightarrow> wf_tree undo_ops m" "undo_inv m \<Longrightarrow> key_sorted undo_key (tree_items m)"
  by (simp_all add: undo_inv_def)

lemma undo_default_spec: "undo_inv undo_map_default" "undo_abs undo_map_default e u = None"
  by (simp_all add: undo_inv_def undo_map_default_def undo_abs_def lookup_key_simps)

definition undo_edits :: "undo_operation \<Rightarrow> (undo_map_entry, undo_map_key) edit list" where
  "undo_edits undo = map (\<lambda>(edit_id, count).
     Insert \<lparr>undo_key = UndoMapKey edit_id (undo_timestamp undo), entry_undo_count = count\<rparr>) (undo_counts undo)"

lemma undo_edits_keys: "map (edit_key undo_key) (undo_edits undo) = map (\<lambda>e. UndoMapKey e (undo_timestamp undo)) (map fst (undo_counts undo))"
  by (auto simp: undo_edits_def)

lemma find_undo_edits:
  "List.find (\<lambda>x. edit_key undo_key x = UndoMapKey e u) (undo_edits undo) =
     (if u = undo_timestamp undo
      then map_option (\<lambda>n. Insert \<lparr>undo_key = UndoMapKey e u, entry_undo_count = n\<rparr>) (map_of (undo_counts undo) e)
      else None)"
proof -
  have "List.find (\<lambda>x. edit_key undo_key x = UndoMapKey e u)
      (map (\<lambda>(edit_id, count). Insert \<lparr>undo_key = UndoMapKey edit_id t, entry_undo_count = count\<rparr>) cs) =
     (if u = t then map_option (\<lambda>n. Insert \<lparr>undo_key = UndoMapKey e u, entry_undo_count = n\<rparr>) (map_of cs e) else None)"
    for t cs by (induction cs) auto
  then show ?thesis by (simp add: undo_edits_def)
qed

lemma undo_insert_spec:
  assumes "undo_inv m" "distinct (map fst (undo_counts undo))"
  shows "\<exists>m'. undo_insert m undo = Some m' \<and> undo_inv m' \<and>
    (\<forall>e u. undo_abs m' e u = (if u = undo_timestamp undo \<and> map_of (undo_counts undo) e \<noteq> None
       then map_of (undo_counts undo) e else undo_abs m e u))"
proof -
  note inv = undo_invD [OF assms(1)]
  have d: "distinct (map (edit_key undo_key) (undo_edits undo))"
    unfolding undo_edits_keys using assms(2) by (simp add: distinct_map inj_on_def)
  obtain m' where m': "edit_tree undo_ops undo_dim undo_key m (undo_edits undo) =
       Some (m', filter (\<lambda>x. undo_key x \<in> edit_key undo_key ` set (undo_edits undo)) (tree_items m))"
      "wf_tree undo_ops m'" "tree_items m' = foldl (apply_edit undo_key) (tree_items m)
        (sort_key (edit_key undo_key) (undo_edits undo))"
    using undo.edit_tree_spec [OF inv d] by blast
  have sd: "distinct (map (edit_key undo_key) (sort_key (edit_key undo_key) (undo_edits undo)))"
    using d by (simp add: distinct_map)
  have lookup: "lookup_key undo_key (tree_items m') k = edit_lookup undo_key (tree_items m) (undo_edits undo) k" for k
    by (simp only: m'(3) lookup_edits [OF inv(2) sd] edit_lookup_sort [OF d])
  have "undo_abs m' e u = (if u = undo_timestamp undo \<and> map_of (undo_counts undo) e \<noteq> None
       then map_of (undo_counts undo) e else undo_abs m e u)" for e u
    unfolding undo_abs_def lookup edit_lookup_def find_undo_edits by (auto split: option.splits)
  moreover have "undo_inv m'" using m'(2,3) foldl_edits_sorted [OF inv(2)] by (simp add: undo_inv_def)
  ultimately show ?thesis using m'(1) by (auto simp: undo_insert_def undo_edits_def Let_def)
qed

subsection \<open>Counting\<close>

lemma edit_block:
  assumes "sorted_wrt (\<lambda>a b. f a \<le> (f b :: 'k::linorder)) xs"
  shows "takeWhile (\<lambda>x. f x = e) (dropWhile (\<lambda>x. f x < e) xs) = filter (\<lambda>x. f x = e) xs"
  using assms
proof (induction xs)
  case (Cons x xs)
  have none: "filter (\<lambda>x. f x = e) ys = []" if "\<forall>y \<in> set ys. d \<le> f y" "e < d" for d ys
    using that by (auto simp: filter_empty_conv)
  have later: "takeWhile (\<lambda>x. f x = e) ys = filter (\<lambda>x. f x = e) ys"
    if "sorted_wrt (\<lambda>a b. f a \<le> f b) ys" "\<forall>y \<in> set ys. e \<le> f y" for ys
    using that
  proof (induction ys)
    case (Cons y ys)
    then show ?case using none [of ys "f y"] by (cases "f y = e") auto
  qed simp
  consider "f x < e" | "f x = e" | "e < f x" by (rule linorder_cases)
  then show ?case
  proof cases
    case 2
    then show ?thesis using later [of xs] Cons.prems by auto
  next
    case 3
    then show ?thesis using none [of xs "f x"] Cons.prems by auto
  qed (use Cons in auto)
qed simp

lemma undo_loop_spec:
  assumes "cursor_at undo_ops undo_dim c pre suf" "length suf < n"
  shows "undo_loop n counted e c acc = Some (foldl max acc (map entry_undo_count
    (filter (\<lambda>x. counted (key_undo_id (undo_key x))) (takeWhile (\<lambda>x. key_edit_id (undo_key x) = e) suf))))"
  using assms
proof (induction n arbitrary: c pre suf acc)
  case (Suc n)
  have item: "cursor_item c = Some (head_opt suf)"
    using Suc.prems by (intro cursor_item_located) (auto simp: cursor_at_def)
  have seek: "did_seek c" using Suc.prems by (simp add: cursor_at_def)
  show ?case
  proof (cases suf)
    case Nil
    then show ?thesis using item seek by (simp add: cursor_iter_next_def head_opt_def)
  next
    case (Cons x suf')
    obtain c' where c': "cursor_next undo_dim c = Some c'" "cursor_at undo_ops undo_dim c' (pre @ [x]) suf'"
      using undo.cursor_next_spec [OF Suc.prems(1)] Cons by auto
    have "length suf' < n" using Suc.prems(2) Cons by simp
    from Suc.IH [OF c'(2) this] show ?thesis using item seek Cons c'(1)
      by (simp add: cursor_iter_next_def head_opt_def)
  qed
qed simp

lemma foldl_max_Max: "foldl max a xs = Max (insert (a :: u32) (set xs))"
proof (induction xs arbitrary: a)
  case (Cons x xs)
  have "foldl max a (x # xs) = Max (insert (max a x) (set xs))" using Cons by simp
  also have "\<dots> = Max (insert a (insert x (set xs)))" by (cases "set xs = {}") (simp_all add: max.assoc)
  finally show ?case by simp
qed simp

lemma undo_key_less: "undo_key x < UndoMapKey e lamport_MIN \<longleftrightarrow> key_edit_id (undo_key x) < e"
  using lamport_MIN_least [of "key_undo_id (undo_key x)"] by (auto simp: less_undo_map_key_def)

lemma undo_query:
  assumes "undo_inv m"
  shows "Option.bind (undo_seek m e) (\<lambda>c. undo_loop (length (tree_items m) + 1) counted e c 0) =
    Some (Max (insert 0 {n. \<exists>u. counted u \<and> undo_abs m e u = Some n}))"
proof -
  note inv = undo_invD [OF assms]
  let ?k = "UndoMapKey e lamport_MIN" and ?edit = "\<lambda>x. key_edit_id (undo_key x)"
  have "ord_target ?k (dzero undo_dim) \<noteq> Less" using undo.dzero_least [of ?k] by (simp add: ord_target_def)
  moreover have "\<forall>a b. a < b \<longrightarrow> beyond (ord_target ?k) Left b \<longrightarrow> beyond (ord_target ?k) Left a"
    by (auto simp: undo.beyond_key)
  ultimately obtain found c where c: "cursor_seek undo_dim (ord_target ?k) Left (cursor_new undo_dim m) = Some (found, c)"
      "cursor_at undo_ops undo_dim c (takeWhile (\<lambda>x. ?edit x < e) (tree_items m)) (dropWhile (\<lambda>x. ?edit x < e) (tree_items m))"
    using undo.seek_key [OF inv, of "ord_target ?k" Left "cursor_new undo_dim m"]
    by (auto simp: undo.beyond_key undo_key_less cursor_new_def)
  have len: "length (dropWhile (\<lambda>x. ?edit x < e) (tree_items m)) < length (tree_items m) + 1"
    by (simp add: length_dropWhile_le less_Suc_eq_le)
  have "sorted_wrt (\<lambda>a b. ?edit a \<le> ?edit b) (tree_items m)"
    by (rule sorted_wrt_mono_rel [OF _ inv(2) [unfolded key_sorted_def]]) (auto simp: less_undo_map_key_def)
  note block = edit_block [OF this, of e]
  have "{n. \<exists>u. counted u \<and> undo_abs m e u = Some n} =
      entry_undo_count ` {x \<in> set (tree_items m). ?edit x = e \<and> counted (key_undo_id (undo_key x))}"
    by (auto simp: undo_abs_def lookup_key_Some_iff [OF inv(2)] image_iff) (metis undo_map_key.exhaust_sel)
  also have "\<dots> = set (map entry_undo_count (filter (\<lambda>x. counted (key_undo_id (undo_key x))) (filter (\<lambda>x. ?edit x = e) (tree_items m))))"
    by auto
  finally show ?thesis
    using undo_loop_spec [OF c(2) len, of counted e 0] c(1) by (simp add: undo_seek_def block foldl_max_Max)
qed

subsection \<open>Properties\<close>

text \<open>Undo operations as replicas exchange them: counts with distinct edits, and a timestamp that identifies the operation.\<close>

definition consistent_undos :: "undo_operation list \<Rightarrow> bool" where
  "consistent_undos ops \<longleftrightarrow> (\<forall>a \<in> set ops. distinct (map fst (undo_counts a))) \<and>
     (\<forall>a \<in> set ops. \<forall>b \<in> set ops. undo_timestamp a = undo_timestamp b \<longrightarrow> a = b)"

fun undo_insert_all :: "undo_operation list \<Rightarrow> undo_map \<Rightarrow> undo_map option" where
  "undo_insert_all [] m = Some m"
| "undo_insert_all (op # ops) m = Option.bind (undo_insert m op) (undo_insert_all ops)"

lemma undo_insert_all_spec:
  assumes "undo_inv m" "\<forall>a \<in> set ops. distinct (map fst (undo_counts a))"
    and "\<forall>a \<in> set ops. \<forall>b \<in> set ops. undo_timestamp a = undo_timestamp b \<longrightarrow> a = b"
  shows "\<exists>m'. undo_insert_all ops m = Some m' \<and> undo_inv m' \<and>
    (\<forall>e u n. undo_abs m' e u = Some n \<longleftrightarrow>
       (\<exists>op \<in> set ops. undo_timestamp op = u \<and> map_of (undo_counts op) e = Some n) \<or>
       (undo_abs m e u = Some n \<and> (\<forall>op \<in> set ops. undo_timestamp op = u \<longrightarrow> map_of (undo_counts op) e = None)))"
  using assms
proof (induction ops arbitrary: m)
  case (Cons op ops)
  obtain m1 where m1: "undo_insert m op = Some m1" "undo_inv m1"
      "\<And>e u. undo_abs m1 e u = (if u = undo_timestamp op \<and> map_of (undo_counts op) e \<noteq> None
         then map_of (undo_counts op) e else undo_abs m e u)"
    using undo_insert_spec [OF Cons.prems(1), of op] Cons.prems(2) by auto
  obtain m' where m': "undo_insert_all ops m1 = Some m'" "undo_inv m'"
      "\<And>e u n. undo_abs m' e u = Some n \<longleftrightarrow>
       (\<exists>op \<in> set ops. undo_timestamp op = u \<and> map_of (undo_counts op) e = Some n) \<or>
       (undo_abs m1 e u = Some n \<and> (\<forall>op \<in> set ops. undo_timestamp op = u \<longrightarrow> map_of (undo_counts op) e = None))"
    using Cons.IH [OF m1(2)] Cons.prems(2,3) by auto
  have same: "\<And>a. a \<in> set ops \<Longrightarrow> undo_timestamp a = undo_timestamp op \<Longrightarrow> a = op" using Cons.prems(3) by auto
  have "undo_abs m' e u = Some n \<longleftrightarrow>
       (\<exists>op \<in> set (op # ops). undo_timestamp op = u \<and> map_of (undo_counts op) e = Some n) \<or>
       (undo_abs m e u = Some n \<and> (\<forall>op \<in> set (op # ops). undo_timestamp op = u \<longrightarrow> map_of (undo_counts op) e = None))" for e u n
  proof (cases "u = undo_timestamp op \<and> map_of (undo_counts op) e \<noteq> None")
    case True
    then obtain a where a: "map_of (undo_counts op) e = Some a" by auto
    show ?thesis
    proof (cases "op \<in> set ops")
      case op: True
      then show ?thesis unfolding m'(3) m1(3) using True a same by fastforce
    next
      case False
      then have "\<forall>b \<in> set ops. undo_timestamp b \<noteq> u" using same True by auto
      then show ?thesis unfolding m'(3) m1(3) using True a by auto
    qed
  next
    case False
    then show ?thesis unfolding m'(3) m1(3) by auto
  qed
  then show ?case using m1(1) m'(1,2) by auto
qed simp

text \<open>C22 (undo_counts_converge): replicas that received the same set of undo operations, in any order and with repetitions,
  agree on the undo count of every edit and on whether it is undone now or was undone at a version. The count is the greatest one that
  any of the operations gives the edit, and zero if there is none; at a version only the operations count that the version observed; and the edit is
  undone when the count is odd. An operation gives every edit one count, and two operations with the same timestamp are the same.\<close>

theorem undo_counts_converge:
  assumes "consistent_undos ops" "set ops' = set ops"
  shows "\<exists>m m'. undo_insert_all ops undo_map_default = Some m \<and> undo_insert_all ops' undo_map_default = Some m' \<and>
    undo_count m e = Some (Max (insert 0 {n. \<exists>op \<in> set ops. map_of (undo_counts op) e = Some n})) \<and>
    is_undone m e = Some (Max (insert 0 {n. \<exists>op \<in> set ops. map_of (undo_counts op) e = Some n}) mod 2 = 1) \<and>
    was_undone m e version =
      Some (Max (insert 0 {n. \<exists>op \<in> set ops. observed version (undo_timestamp op) \<and> map_of (undo_counts op) e = Some n}) mod 2 = 1) \<and>
    undo_count m' e = undo_count m e \<and> is_undone m' e = is_undone m e \<and>
    was_undone m' e version = was_undone m e version"
proof -
  obtain m where m: "undo_insert_all ops undo_map_default = Some m" "undo_inv m"
    "\<And>e u n. undo_abs m e u = Some n \<longleftrightarrow> (\<exists>op \<in> set ops. undo_timestamp op = u \<and> map_of (undo_counts op) e = Some n)"
    using undo_insert_all_spec [OF undo_default_spec(1), of ops] assms(1) by (auto simp: consistent_undos_def undo_default_spec)
  obtain m' where m': "undo_insert_all ops' undo_map_default = Some m'" "undo_inv m'"
    "\<And>e u n. undo_abs m' e u = Some n \<longleftrightarrow> (\<exists>op \<in> set ops. undo_timestamp op = u \<and> map_of (undo_counts op) e = Some n)"
    using undo_insert_all_spec [OF undo_default_spec(1), of ops'] assms by (auto simp: consistent_undos_def undo_default_spec)
  have query: "Option.bind (undo_seek m' e) (\<lambda>c. undo_loop (length (tree_items m') + 1) counted e c 0) =
      Option.bind (undo_seek m e) (\<lambda>c. undo_loop (length (tree_items m) + 1) counted e c 0)" for counted
    by (simp only: undo_query [OF m(2)] undo_query [OF m'(2)] m(3) m'(3))
  have "undo_count m e = Some (Max (insert 0 {n. \<exists>op \<in> set ops. map_of (undo_counts op) e = Some n}))"
  proof -
    have "{n. \<exists>u. True \<and> undo_abs m e u = Some n} = {n. \<exists>op \<in> set ops. map_of (undo_counts op) e = Some n}"
      using m(3) by auto
    then show ?thesis using undo_query [OF m(2), of e "\<lambda>u. True"] by (simp only: undo_count_def)
  qed
  moreover have count: "undo_count m' e = undo_count m e" using query [of "\<lambda>u. True"] by (simp add: undo_count_def)
  moreover have was: "was_undone a e version = map_option (\<lambda>n. n mod 2 = 1)
      (Option.bind (undo_seek a e) (\<lambda>c. undo_loop (length (tree_items a) + 1) (observed version) e c 0))" for a
    by (simp add: was_undone_def map_option_bind o_def del: undo_loop.simps)
  have "was_undone m' e version = was_undone m e version" by (simp only: was query)
  moreover have "was_undone m e version =
      Some (Max (insert 0 {n. \<exists>op \<in> set ops. observed version (undo_timestamp op) \<and> map_of (undo_counts op) e = Some n}) mod 2 = 1)"
  proof -
    have "{n. \<exists>u. observed version u \<and> undo_abs m e u = Some n} =
        {n. \<exists>op \<in> set ops. observed version (undo_timestamp op) \<and> map_of (undo_counts op) e = Some n}"
      using m(3) by auto
    then show ?thesis by (simp only: was undo_query [OF m(2)] option.map)
  qed
  ultimately show ?thesis using m(1) m'(1) by (simp add: is_undone_def)
qed

definition demo_undos :: "undo_operation list" where
  "demo_undos = [
     \<lparr>undo_timestamp = Lamport 5 0, undo_version = global_new, undo_counts = [(Lamport 1 0, 1), (Lamport 2 0, 1)]\<rparr>,
     \<lparr>undo_timestamp = Lamport 6 1, undo_version = global_new, undo_counts = [(Lamport 1 0, 2)]\<rparr>]"

theorem undo_counts_converge_witness:
  "\<exists>m m'. undo_insert_all demo_undos undo_map_default = Some m \<and>
    undo_insert_all (rev demo_undos) undo_map_default = Some m' \<and>
    undo_count m (Lamport 1 0) = Some (Max (insert 0 {n. \<exists>op \<in> set demo_undos. map_of (undo_counts op) (Lamport 1 0) = Some n})) \<and>
    is_undone m (Lamport 1 0) = Some (Max (insert 0 {n. \<exists>op \<in> set demo_undos. map_of (undo_counts op) (Lamport 1 0) = Some n}) mod 2 = 1) \<and>
    was_undone m (Lamport 1 0) (observe global_new (Lamport 5 0)) =
      Some (Max (insert 0 {n. \<exists>op \<in> set demo_undos. observed (observe global_new (Lamport 5 0)) (undo_timestamp op) \<and>
        map_of (undo_counts op) (Lamport 1 0) = Some n}) mod 2 = 1) \<and>
    undo_count m' (Lamport 1 0) = undo_count m (Lamport 1 0) \<and> is_undone m' (Lamport 1 0) = is_undone m (Lamport 1 0) \<and>
    was_undone m' (Lamport 1 0) (observe global_new (Lamport 5 0)) = was_undone m (Lamport 1 0) (observe global_new (Lamport 5 0))"
proof (rule undo_counts_converge)
  show "consistent_undos demo_undos" by (simp add: consistent_undos_def demo_undos_def)
qed simp

end
