(* ===== verification/Operation_Queue.thy ===== *)
theory Operation_Queue
  imports Clock Keyed_Tree Cursor_Back Undo_Map
begin

text \<open>
  \<open>crates/text/src/operation_queue.rs\<close>: operations that cannot be applied yet, in the order of their timestamps. The
  operations are of any type; \<open>ts\<close> is \<open>Operation::lamport_timestamp\<close>. Adding summaries panics when their keys do not increase, and
  moving a position panics when it would move back: these are \<open>operation_add\<close> and \<open>operation_key_add\<close>. The dictionaries of the sum tree
  hold total functions, so \<open>operation_ops\<close> and \<open>operation_key_dim\<close> are what the two return when they do not panic; that no addition
  panics for timestamps above the least one, which no clock issues, is part of the property of the queue.
\<close>

subsection \<open>Summaries\<close>

record operation_summary =
  summary_key :: lamport
  summary_len :: nat

text \<open>\<open>add_summary\<close> and \<open>+\<close> of \<open>OperationSummary\<close>, and \<open>add_summary\<close> of \<open>OperationKey\<close>, with their assertions\<close>

definition operation_add :: "operation_summary \<Rightarrow> operation_summary \<Rightarrow> operation_summary option" where
  "operation_add a b =
     (if summary_key a < summary_key b
      then Some \<lparr>summary_key = summary_key b, summary_len = summary_len a + summary_len b\<rparr> else None)"

definition operation_key_add :: "lamport \<Rightarrow> operation_summary \<Rightarrow> lamport option" where
  "operation_key_add d s = (if d \<le> summary_key s then Some (summary_key s) else None)"

definition operation_ops :: "('o \<Rightarrow> lamport) \<Rightarrow> ('o, operation_summary) item_ops" where
  "operation_ops ts =
     \<lparr>szero = \<lparr>summary_key = lamport_MIN, summary_len = 0\<rparr>,
      sadd = (\<lambda>a b. \<lparr>summary_key = summary_key b, summary_len = summary_len a + summary_len b\<rparr>),
      ssummary = (\<lambda>op. \<lparr>summary_key = ts op, summary_len = 1\<rparr>)\<rparr>"

definition operation_key_dim :: "(operation_summary, lamport) dim_ops" where
  "operation_key_dim = \<lparr>dzero = lamport_MIN, dadd = (\<lambda>d s. summary_key s)\<rparr>"

type_synonym 'o operation_queue = "('o, operation_summary) node"

subsection \<open>Operations\<close>

definition queue_new :: "('o \<Rightarrow> lamport) \<Rightarrow> 'o operation_queue" where
  "queue_new ts = tree_new (operation_ops ts)"

definition queue_len :: "'o operation_queue \<Rightarrow> nat" where
  "queue_len q = summary_len (node_summary q)"

definition queue_is_empty :: "'o operation_queue \<Rightarrow> bool" where
  "queue_is_empty q \<longleftrightarrow> queue_len q = 0"

text \<open>\<open>Vec::dedup_by_key\<close> keeps the first of consecutive elements with equal keys.\<close>

fun dedup_by_key :: "('a \<Rightarrow> 'k) \<Rightarrow> 'a list \<Rightarrow> 'a list" where
  "dedup_by_key key (x # y # ys) =
     (if key x = key y then dedup_by_key key (x # ys) else x # dedup_by_key key (y # ys))"
| "dedup_by_key key xs = xs"

definition queue_insert :: "('o \<Rightarrow> lamport) \<Rightarrow> 'o operation_queue \<Rightarrow> 'o list \<Rightarrow> 'o operation_queue option" where
  "queue_insert ts q ops =
     map_option fst
       (edit_tree (operation_ops ts) operation_key_dim ts q (map Insert (dedup_by_key ts (sort_key ts ops))))"

definition queue_drain :: "('o \<Rightarrow> lamport) \<Rightarrow> 'o operation_queue \<Rightarrow> 'o operation_queue \<times> 'o operation_queue" where
  "queue_drain ts q = (queue_new ts, q)"

definition queue_iter_run :: "nat \<Rightarrow> 'o operation_queue \<Rightarrow> 'o list" where
  "queue_iter_run n q = iter_run n q []"

subsection \<open>The queue as a sorted sequence\<close>

interpretation queue: keyed_laws "operation_ops ts" operation_key_dim ts
proof unfold_locales
  show "lawful_summary (operation_ops ts)" by (simp add: lawful_summary_def operation_ops_def)
  show "lawful_dim (operation_ops ts) operation_key_dim"
    by (simp add: lawful_dim_def operation_key_dim_def operation_ops_def)
  fix d k :: lamport and x
  show "dadd operation_key_dim d (ssummary (operation_ops ts) x) = ts x"
    by (simp add: operation_key_dim_def operation_ops_def)
  show "dzero operation_key_dim \<le> k" by (simp add: operation_key_dim_def lamport_MIN_least)
qed

definition queue_inv :: "('o \<Rightarrow> lamport) \<Rightarrow> 'o operation_queue \<Rightarrow> bool" where
  "queue_inv ts q \<longleftrightarrow> wf_tree (operation_ops ts) q \<and> key_sorted ts (tree_items q)"

lemma queue_invD: "queue_inv ts q \<Longrightarrow> wf_tree (operation_ops ts) q" "queue_inv ts q \<Longrightarrow> key_sorted ts (tree_items q)"
  by (simp_all add: queue_inv_def)

lemma queue_new_spec: "queue_inv ts (queue_new ts)" "tree_items (queue_new ts) = []"
  by (simp_all add: queue_inv_def queue_new_def)

lemma queue_len_spec: "queue_inv ts q \<Longrightarrow> queue_len q = length (tree_items q)"
proof -
  assume q: "queue_inv ts q"
  have "summary_len (foldl (sadd (operation_ops ts)) s (map (ssummary (operation_ops ts)) xs)) = summary_len s + length xs"
    for s xs by (induction xs arbitrary: s) (auto simp: operation_ops_def)
  then show ?thesis
    using queue.tree_summary_items [OF queue_invD(1) [OF q]] by (simp add: queue_len_def sum_of_def) (simp add: operation_ops_def)
qed

lemma dedup_keys: "key ` set (dedup_by_key key xs) = key ` set xs"
  by (induction key xs rule: dedup_by_key.induct) auto

lemma dedup_subset: "set (dedup_by_key key xs) \<subseteq> set xs"
  by (induction key xs rule: dedup_by_key.induct) auto

lemma dedup_sorted:
  "sorted (map key xs) \<Longrightarrow> sorted_wrt (<) (map (key :: 'a \<Rightarrow> 'k::linorder) (dedup_by_key key xs))"
proof (induction key xs rule: dedup_by_key.induct)
  case (1 key x y ys)
  have "\<forall>k \<in> key ` set (dedup_by_key key (y # ys)). key y \<le> k"
    unfolding dedup_keys using 1(3) by auto
  then show ?case using 1 by (auto intro: le_less_trans)
qed auto

lemma queue_insert_spec:
  assumes "queue_inv ts q" "inj_on ts (set (tree_items q) \<union> set ops)"
  shows "\<exists>q'. queue_insert ts q ops = Some q' \<and> queue_inv ts q' \<and> set (tree_items q') = set (tree_items q) \<union> set ops"
proof -
  note inv = queue_invD [OF assms(1)]
  define new where "new = dedup_by_key ts (sort_key ts ops)"
  have sorted: "sorted_wrt (<) (map ts new)" unfolding new_def by (rule dedup_sorted) simp
  have set: "set new = set ops"
  proof
    show "set new \<subseteq> set ops" using dedup_subset [of ts "sort_key ts ops"] by (simp add: new_def)
    have "inj_on ts (set ops)" using assms(2) by (rule inj_on_subset) simp
    then show "set ops \<subseteq> set new"
      using dedup_keys [of ts "sort_key ts ops"] \<open>set new \<subseteq> set ops\<close>
      by (metis inj_on_image_eq_iff new_def order_refl set_sort)
  qed
  have keys: "map (edit_key ts) (map Insert new) = map ts new" by simp
  have d: "distinct (map (edit_key ts) (map Insert new))" unfolding keys using sorted strict_sorted_iff by blast
  have sd: "distinct (map (edit_key ts) (sort_key (edit_key ts) (map Insert new)))" using d by (simp only: distinct_map set_sort distinct_sort)
  obtain q' where q': "edit_tree (operation_ops ts) operation_key_dim ts q (map Insert new) =
       Some (q', filter (\<lambda>x. ts x \<in> edit_key ts ` set (map Insert new)) (tree_items q))" "wf_tree (operation_ops ts) q'"
      "tree_items q' = foldl (apply_edit ts) (tree_items q) (sort_key (edit_key ts) (map Insert new))"
    using queue.edit_tree_spec [OF inv d] by blast
  have ks: "key_sorted ts (tree_items q')" using q'(3) foldl_edits_sorted [OF inv(2)] by simp
  have find: "List.find (\<lambda>e. edit_key ts e = k) (map Insert ys) = map_option Insert (List.find (\<lambda>x. ts x = k) ys)" for k ys
    by (induction ys) auto
  have lookup: "lookup_key ts (tree_items q') k =
      (case List.find (\<lambda>x. ts x = k) new of Some x \<Rightarrow> Some x | None \<Rightarrow> lookup_key ts (tree_items q) k)" for k
    unfolding q'(3) lookup_edits [OF inv(2) sd] edit_lookup_sort [OF d] by (auto simp: edit_lookup_def find split: option.splits)
  have "x \<in> set (tree_items q') \<longleftrightarrow> x \<in> set (tree_items q) \<union> set new" for x
  proof -
    have "x \<in> set (tree_items q') \<longleftrightarrow> lookup_key ts (tree_items q') (ts x) = Some x"
      using lookup_key_Some_iff [OF ks] by simp
    also have "\<dots> \<longleftrightarrow> x \<in> set (tree_items q) \<union> set new"
    proof (cases "List.find (\<lambda>y. ts y = ts x) new")
      case None
      then have "x \<notin> set new" by (auto simp: find_None_iff)
      then show ?thesis unfolding lookup None using lookup_key_Some_iff [OF inv(2)] by simp
    next
      case (Some y)
      then have "y \<in> set new" "ts y = ts x" by (auto simp: find_Some_iff)
      then have "x \<in> set (tree_items q) \<union> set new \<longleftrightarrow> x = y" using assms(2) set by (auto dest: inj_onD)
      then show ?thesis unfolding lookup Some by auto
    qed
    finally show ?thesis .
  qed
  then show ?thesis using q'(1,2) ks set by (auto simp: queue_insert_def new_def [symmetric] queue_inv_def)
qed

subsection \<open>Assertions\<close>

text \<open>
  The tree only ever adds up consecutive stretches of its items, and its cursors only move over them. On a sorted
  sequence of timestamps above the least one no such addition panics.
\<close>

definition adds_pass :: "('o \<Rightarrow> lamport) \<Rightarrow> 'o list \<Rightarrow> bool" where
  "adds_pass ts ops \<longleftrightarrow> (\<forall>us xs ys vs. ops = us @ xs @ ys @ vs \<and> ys \<noteq> [] \<longrightarrow>
     (let total = (\<lambda>zs. sum_of (operation_ops ts) (map (ssummary (operation_ops ts)) zs)) in
      operation_add (total xs) (total ys) = Some (total (xs @ ys)) \<and>
      operation_key_add (pos_after (operation_ops ts) operation_key_dim lamport_MIN us) (total (xs @ ys)) =
        Some (pos_after (operation_ops ts) operation_key_dim lamport_MIN (us @ xs @ ys))))"

lemma total_eq: "sum_of (operation_ops ts) (map (ssummary (operation_ops ts)) zs) =
    \<lparr>summary_key = (if zs = [] then lamport_MIN else ts (last zs)), summary_len = length zs\<rparr>"
  by (induction zs rule: rev_induct) (simp_all add: sum_of_def operation_ops_def)

lemma key_after_eq: "pos_after (operation_ops ts) operation_key_dim lamport_MIN us = (if us = [] then lamport_MIN else ts (last us))"
  by (induction us rule: rev_induct) (simp_all add: pos_after_def operation_key_dim_def operation_ops_def)

lemma sorted_adds_pass:
  assumes "sorted_wrt (<) (map ts ops)" "\<forall>op \<in> set ops. lamport_MIN < ts op"
  shows "adds_pass ts ops"
  unfolding adds_pass_def Let_def total_eq key_after_eq
proof (intro allI impI)
  fix us xs ys vs assume "ops = us @ xs @ ys @ vs \<and> ys \<noteq> []"
  then have s: "sorted_wrt (<) (map ts (us @ xs @ ys))" "\<forall>op \<in> set (us @ xs @ ys). lamport_MIN < ts op" and ys: "ys \<noteq> []"
    using assms by (auto simp: sorted_wrt_append)
  have "lamport_MIN < ts (last ys)" using s(2) ys by simp
  moreover have "ts (last xs) < ts (last ys)" if "xs \<noteq> []" using s(1) ys that by (simp add: sorted_wrt_append)
  moreover have "ts (last us) \<le> ts (last ys)" if "us \<noteq> []" using s(1) ys that by (simp add: sorted_wrt_append less_imp_le)
  ultimately show "operation_add \<lparr>summary_key = if xs = [] then lamport_MIN else ts (last xs), summary_len = length xs\<rparr>
      \<lparr>summary_key = if ys = [] then lamport_MIN else ts (last ys), summary_len = length ys\<rparr> =
      Some \<lparr>summary_key = if xs @ ys = [] then lamport_MIN else ts (last (xs @ ys)), summary_len = length (xs @ ys)\<rparr> \<and>
    operation_key_add (if us = [] then lamport_MIN else ts (last us))
      \<lparr>summary_key = if xs @ ys = [] then lamport_MIN else ts (last (xs @ ys)), summary_len = length (xs @ ys)\<rparr> =
      Some (if us @ xs @ ys = [] then lamport_MIN else ts (last (us @ xs @ ys)))"
    using ys by (auto simp: operation_add_def operation_key_add_def less_imp_le)
qed

subsection \<open>Properties\<close>

fun queue_insert_all :: "('o \<Rightarrow> lamport) \<Rightarrow> 'o list list \<Rightarrow> 'o operation_queue \<Rightarrow> 'o operation_queue option" where
  "queue_insert_all ts [] q = Some q"
| "queue_insert_all ts (ops # batches) q = Option.bind (queue_insert ts q ops) (queue_insert_all ts batches)"

lemma queue_insert_all_spec:
  assumes "queue_inv ts q" "inj_on ts (set (tree_items q) \<union> set (concat batches))"
  shows "\<exists>q'. queue_insert_all ts batches q = Some q' \<and> queue_inv ts q' \<and>
    set (tree_items q') = set (tree_items q) \<union> set (concat batches)"
  using assms
proof (induction batches arbitrary: q)
  case (Cons ops batches)
  have "inj_on ts (set (tree_items q) \<union> set ops)" using Cons.prems(2) by (rule inj_on_subset) auto
  from queue_insert_spec [OF Cons.prems(1) this] obtain q1 where
    q1: "queue_insert ts q ops = Some q1" "queue_inv ts q1" "set (tree_items q1) = set (tree_items q) \<union> set ops" by blast
  have "inj_on ts (set (tree_items q1) \<union> set (concat batches))"
    using Cons.prems(2) by (rule inj_on_subset) (auto simp: q1(3))
  from Cons.IH [OF q1(2) this] show ?case using q1 by auto
qed simp

text \<open>C31 (queue_orders_operations): however a set of operations with distinct timestamps above the least one is split into batches, and
  in whichever order and however often they arrive, the queue then holds each of them once, iterates over them in the order of their timestamps
  and reports their number; no addition of summaries of stretches of the queue, and no move of a cursor over it, fails its assertion; draining hands over that
  queue and leaves an empty one.\<close>

theorem queue_orders_operations:
  assumes "inj_on ts (set (concat batches))" "\<forall>op \<in> set (concat batches). lamport_MIN < ts op"
  shows "\<exists>q ops. queue_insert_all ts batches (queue_new ts) = Some q \<and>
    sorted_wrt (<) (map ts ops) \<and> set ops = set (concat batches) \<and> adds_pass ts ops \<and> tree_items q = ops \<and>
    queue_iter_run (queue_len q + 1) q = ops \<and> queue_len q = card (set (concat batches)) \<and>
    queue_is_empty (fst (queue_drain ts q)) \<and> snd (queue_drain ts q) = q"
proof -
  obtain q where q: "queue_insert_all ts batches (queue_new ts) = Some q" "queue_inv ts q"
      "set (tree_items q) = set (concat batches)"
    using queue_insert_all_spec [OF queue_new_spec(1), of ts batches] assms by (auto simp: queue_new_spec(2))
  have sorted: "sorted_wrt (<) (map ts (tree_items q))"
    using queue_invD(2) [OF q(2)] by (simp add: key_sorted_def sorted_wrt_map)
  have len: "queue_len q = length (tree_items q)" by (rule queue_len_spec [OF q(2)])
  have "distinct (tree_items q)" using sorted strict_sorted_iff distinct_map by metis
  then have "queue_len q = card (set (concat batches))" using len q(3) distinct_card by metis
  moreover have "queue_iter_run (queue_len q + 1) q = tree_items q"
    using queue.iter_run_spec [OF queue_invD(1) [OF q(2)], of "[]" "tree_items q"] len by (simp add: queue_iter_run_def)
  moreover have "queue_is_empty (queue_new ts)"
    by (simp add: queue_is_empty_def queue_len_spec [OF queue_new_spec(1)] queue_new_spec(2))
  moreover have "adds_pass ts (tree_items q)" using sorted_adds_pass [OF sorted] assms(2) q(3) by simp
  ultimately show ?thesis using q sorted
    by (intro exI [of _ q] exI [of _ "tree_items q"]) (simp add: queue_drain_def)
qed

theorem queue_orders_operations_witness:
  "\<exists>q ops. queue_insert_all id [[Lamport 4 1, Lamport 2 0], [Lamport 3 0, Lamport 2 0]] (queue_new id) = Some q \<and>
    sorted_wrt (<) (map id ops) \<and> set ops = set (concat [[Lamport 4 1, Lamport 2 0], [Lamport 3 0, Lamport 2 0]]) \<and>
    adds_pass id ops \<and> tree_items q = ops \<and> queue_iter_run (queue_len q + 1) q = ops \<and>
    queue_len q = card (set (concat [[Lamport 4 1, Lamport 2 0], [Lamport 3 0, Lamport 2 0]])) \<and>
    queue_is_empty (fst (queue_drain id q)) \<and> snd (queue_drain id q) = q"
  by (rule queue_orders_operations) (simp_all add: lamport_MIN_def lamport_less_iff)

end
