(* ===== verification/Patch.thy ===== *)
theory Patch
  imports Editor_Prelude
begin

text \<open>
  \<open>crates/text/src/patch.rs\<close> and \<open>Edit\<close> of \<open>crates/text/src/text.rs\<close>: a patch is a sequence of edits, each of which replaces a range of
  offsets in an old text by a range of offsets in a new one. Offsets are natural numbers (\<open>usize\<close> in the
  code, far below its bound); a subtraction that would underflow is a panic.
\<close>

subsection \<open>Edits\<close>

record patch_edit =
  old_start :: nat
  old_end :: nat
  new_start :: nat
  new_end :: nat

text \<open>\<open>Edit { old: a..b, new: c..d }\<close>\<close>

definition mk_edit :: "nat \<Rightarrow> nat \<Rightarrow> nat \<Rightarrow> nat \<Rightarrow> patch_edit" where
  "mk_edit a b c d = \<lparr>old_start = a, old_end = b, new_start = c, new_end = d\<rparr>"

lemma mk_edit_sel [simp]:
  "old_start (mk_edit a b c d) = a" "old_end (mk_edit a b c d) = b"
  "new_start (mk_edit a b c d) = c" "new_end (mk_edit a b c d) = d"
  "mk_edit a b c d = mk_edit a' b' c' d' \<longleftrightarrow> a = a' \<and> b = b' \<and> c = c' \<and> d = d'"
  by (simp_all add: mk_edit_def)

lemma mk_edit_update [simp]:
  "(mk_edit a b c d)\<lparr>old_start := v\<rparr> = mk_edit v b c d" "(mk_edit a b c d)\<lparr>old_end := v\<rparr> = mk_edit a v c d"
  "(mk_edit a b c d)\<lparr>new_start := v\<rparr> = mk_edit a b v d" "(mk_edit a b c d)\<lparr>new_end := v\<rparr> = mk_edit a b c v"
  by (simp_all add: mk_edit_def)

definition edit_is_empty :: "patch_edit \<Rightarrow> bool" where
  "edit_is_empty e \<longleftrightarrow> old_start e = old_end e \<and> new_start e = new_end e"

definition checked_sub :: "nat \<Rightarrow> nat \<Rightarrow> nat option" where
  "checked_sub a b = (if b \<le> a then Some (a - b) else None)"

definition old_len :: "patch_edit \<Rightarrow> nat option" where
  "old_len e = checked_sub (old_end e) (old_start e)"

definition new_len :: "patch_edit \<Rightarrow> nat option" where
  "new_len e = checked_sub (new_end e) (new_start e)"

subsection \<open>Patches\<close>

type_synonym patch = "patch_edit list"

definition patch_empty :: patch where
  "patch_empty = []"

text \<open>\<open>Patch::new\<close>; its checks are debug assertions.\<close>

definition patch_new :: "patch_edit list \<Rightarrow> patch" where
  "patch_new edits = edits"

definition patch_invert :: "patch \<Rightarrow> patch" where
  "patch_invert p = map (\<lambda>e. mk_edit (new_start e) (new_end e) (old_start e) (old_end e)) p"

definition patch_clear :: "patch \<Rightarrow> patch" where
  "patch_clear p = []"

definition patch_is_empty :: "patch \<Rightarrow> bool" where
  "patch_is_empty p \<longleftrightarrow> p = []"

definition push_maybe_empty :: "patch \<Rightarrow> patch_edit \<Rightarrow> patch" where
  "push_maybe_empty p e =
     (if p \<noteq> [] \<and> old_start e \<le> old_end (last p)
      then butlast p @ [(last p)\<lparr>old_end := old_end e, new_end := new_end e\<rparr>]
      else p @ [e])"

definition patch_push :: "patch \<Rightarrow> patch_edit \<Rightarrow> patch" where
  "patch_push p e = (if edit_is_empty e then p else push_maybe_empty p e)"

text \<open>\<open>Patch::retain_mut\<close>: the closure may change the edit it looks at.\<close>

definition patch_retain_mut :: "(patch_edit \<Rightarrow> patch_edit \<times> bool) \<Rightarrow> patch \<Rightarrow> patch" where
  "patch_retain_mut f p = map fst (filter snd (map f p))"

subsection \<open>Composition\<close>

text \<open>
  The loop of \<open>compose\<close>. The heads of \<open>ps\<close> and \<open>qs\<close> are the peeked edits, whose starts the loop moves; \<open>os\<close> and \<open>ns\<close>
  are \<open>old_start\<close> and \<open>new_start\<close>. The first function is the part common to all four kinds of edits it
  pushes: catch up by \<open>catchup\<close> and replace \<open>old\<close> characters by \<open>new\<close> ones.
\<close>

definition push_span :: "patch \<Rightarrow> nat \<Rightarrow> nat \<Rightarrow> nat \<Rightarrow> nat \<Rightarrow> patch" where
  "push_span composed os oe ns ne = patch_push composed (mk_edit os oe ns ne)"

text \<open>An old edit that ends before the new edit, or a new edit that ends before the old one, is pushed as a whole.\<close>

definition push_old :: "patch_edit \<Rightarrow> nat \<Rightarrow> nat \<Rightarrow> patch \<Rightarrow> (nat \<times> nat \<times> patch) option" where
  "push_old p os ns composed =
     Option.bind (checked_sub (old_start p) os) (\<lambda>catchup.
     Option.bind (old_len p) (\<lambda>ol.
     Option.bind (new_len p) (\<lambda>nl.
       let os = os + catchup; ns = ns + catchup
       in Some (os + ol, ns + nl, push_span composed os (os + ol) ns (ns + nl)))))"

definition push_new :: "patch_edit \<Rightarrow> nat \<Rightarrow> nat \<Rightarrow> patch \<Rightarrow> (nat \<times> nat \<times> patch) option" where
  "push_new q os ns composed =
     Option.bind (checked_sub (new_start q) ns) (\<lambda>catchup.
     Option.bind (old_len q) (\<lambda>ol.
     Option.bind (new_len q) (\<lambda>nl.
       let os = os + catchup; ns = ns + catchup
       in Some (os + ol, ns + nl, push_span composed os (os + ol) ns (ns + nl)))))"

text \<open>Two edits that touch: the part of the one that starts first is pushed, so that both start at the same place.\<close>

definition align_edits ::
  "patch_edit \<Rightarrow> patch_edit \<Rightarrow> nat \<Rightarrow> nat \<Rightarrow> patch \<Rightarrow> (patch_edit \<times> patch_edit \<times> nat \<times> nat \<times> patch) option" where
  "align_edits p q os ns composed =
     (if new_start p < old_start q then
        Option.bind (checked_sub (old_start p) os) (\<lambda>catchup.
        Option.bind (checked_sub (old_start q) (new_start p)) (\<lambda>overshoot.
          let os = os + catchup; ns = ns + catchup;
              oe = min (os + overshoot) (old_end p); ne = ns + overshoot
          in Some (p\<lparr>old_start := oe, new_start := new_start p + overshoot\<rparr>, q, oe, ne,
               push_span composed os oe ns ne)))
      else
        Option.bind (checked_sub (new_start q) ns) (\<lambda>catchup.
        Option.bind (checked_sub (new_start p) (old_start q)) (\<lambda>overshoot.
          let os = os + catchup; ns = ns + catchup;
              oe = os + overshoot; ne = min (ns + overshoot) (new_end q)
          in Some (p, q\<lparr>old_start := old_start q + overshoot, new_start := ne\<rparr>, oe, ne,
               push_span composed os oe ns ne))))"

text \<open>The edit that ends first is then used up; the result says which, with the rest of the other one.\<close>

definition merge_edits ::
  "patch_edit \<Rightarrow> patch_edit \<Rightarrow> nat \<Rightarrow> nat \<Rightarrow> patch
     \<Rightarrow> ((patch_edit + patch_edit) \<times> nat \<times> nat \<times> patch) option" where
  "merge_edits p q os ns composed =
     (if old_end q < new_end p then
        Option.bind (old_len p) (\<lambda>pol.
        Option.bind (old_len q) (\<lambda>qol.
        Option.bind (new_len q) (\<lambda>qnl.
          let oe = os + min pol qol; ne = ns + qnl
          in Some (Inl (p\<lparr>old_start := oe, new_start := old_end q\<rparr>), oe, ne, push_span composed os oe ns ne))))
      else
        Option.bind (old_len p) (\<lambda>pol.
        Option.bind (new_len p) (\<lambda>pnl.
        Option.bind (new_len q) (\<lambda>qnl.
          let oe = os + pol; ne = ns + min pnl qnl
          in Some (Inr (q\<lparr>old_start := new_end p, new_start := ne\<rparr>), oe, ne, push_span composed os oe ns ne)))))"

function compose_loop ::
  "patch_edit list \<Rightarrow> patch_edit list \<Rightarrow> nat \<Rightarrow> nat \<Rightarrow> patch \<Rightarrow> patch option" where
  "compose_loop ps qs os ns composed =
     (if ps \<noteq> [] \<and> (qs = [] \<or> new_end (hd ps) < old_start (hd qs)) then
        Option.bind (push_old (hd ps) os ns composed) (\<lambda>(os, ns, composed).
          compose_loop (tl ps) qs os ns composed)
      else if qs \<noteq> [] \<and> (ps = [] \<or> old_end (hd qs) < new_start (hd ps)) then
        Option.bind (push_new (hd qs) os ns composed) (\<lambda>(os, ns, composed).
          compose_loop ps (tl qs) os ns composed)
      else if ps \<noteq> [] \<and> qs \<noteq> [] then
        Option.bind (align_edits (hd ps) (hd qs) os ns composed) (\<lambda>(p, q, os, ns, composed).
        Option.bind (merge_edits p q os ns composed) (\<lambda>(rest, os, ns, composed).
          (case rest of
             Inl p' \<Rightarrow> compose_loop (p' # tl ps) (tl qs) os ns composed
           | Inr q' \<Rightarrow> compose_loop (tl ps) (q' # tl qs) os ns composed)))
      else Some composed)"
  by pat_completeness auto
termination
  by (relation "measure (\<lambda>(ps, qs, os, ns, composed). length ps + length qs)") (auto simp: neq_Nil_conv)

declare compose_loop.simps [simp del]

definition compose :: "patch \<Rightarrow> patch_edit list \<Rightarrow> patch option" where
  "compose p new_edits = compose_loop p new_edits 0 0 []"

subsection \<open>Positions\<close>

text \<open>\<open>binary_search_by\<close> on the starts of the edits: \<open>Inl ix\<close> is \<open>Ok(ix)\<close>, \<open>Inr ix\<close> is \<open>Err(ix)\<close>. The starts increase.\<close>

definition search_start :: "patch \<Rightarrow> nat \<Rightarrow> nat + nat" where
  "search_start p old =
     (let ix = length (takeWhile (\<lambda>e. old_start e < old) p)
      in if ix < length p \<and> old_start (p ! ix) = old then Inl ix else Inr ix)"

text \<open>The edit at or before a position, which both lookups select: \<open>None\<close> if there is none.\<close>

definition edit_at_or_before :: "patch \<Rightarrow> nat \<Rightarrow> patch_edit option" where
  "edit_at_or_before p old =
     (case search_start p old of
        Inl ix \<Rightarrow> if ix < length p then Some (p ! ix) else None
      | Inr ix \<Rightarrow> if ix = 0 then None else if ix - 1 < length p then Some (p ! (ix - 1)) else None)"

definition old_to_new :: "patch \<Rightarrow> nat \<Rightarrow> nat" where
  "old_to_new p old =
     (case edit_at_or_before p old of
        None \<Rightarrow> old
      | Some e \<Rightarrow> if old_end e \<le> old then new_end e + (old - old_end e) else new_start e)"

definition edit_for_old_position :: "patch \<Rightarrow> nat \<Rightarrow> patch_edit" where
  "edit_for_old_position p old =
     (case edit_at_or_before p old of
        None \<Rightarrow> mk_edit old old old old
      | Some e \<Rightarrow>
          if old_end e < old then
            let translated = new_end e + (old - old_end e) in mk_edit old old translated translated
          else e)"

subsection \<open>What a patch says about two texts\<close>

text \<open>
  \<open>transforms p o n A B\<close>: the edits \<open>p\<close> turn the text \<open>A\<close>, which starts at offset \<open>o\<close>, into the text \<open>B\<close>, which starts at
  offset \<open>n\<close>. What lies between the edits is kept.
\<close>

fun transforms :: "patch \<Rightarrow> nat \<Rightarrow> nat \<Rightarrow> 'a list \<Rightarrow> 'a list \<Rightarrow> bool" where
  "transforms [] o' n A B \<longleftrightarrow> A = B"
| "transforms (e # es) o' n A B \<longleftrightarrow>
     o' \<le> old_start e \<and> old_start e \<le> old_end e \<and> n \<le> new_start e \<and> new_start e \<le> new_end e \<and>
     old_end e - o' \<le> length A \<and> new_end e - n \<le> length B \<and> old_start e - o' = new_start e - n \<and>
     take (old_start e - o') A = take (new_start e - n) B \<and>
     transforms es (old_end e) (new_end e) (drop (old_end e - o') A) (drop (new_end e - n) B)"

lemma edit_eq_mk: "e = mk_edit (old_start e) (old_end e) (new_start e) (new_end e)"
  by (cases e) (simp add: mk_edit_def)

lemma take_take_drop: "i \<le> j \<Longrightarrow> xs = take i xs @ take (j - i) (drop i xs) @ drop j xs"
  by (metis append.assoc append_take_drop_id le_add_diff_inverse take_add)

text \<open>The first edit in terms of the pieces of the texts: a part kept, a part replaced, and the rest.\<close>

lemma transforms_Cons:
  "transforms (e # es) o' n A B \<longleftrightarrow>
     (\<exists>k x y A' B'. A = k @ x @ A' \<and> B = k @ y @ B' \<and>
        e = mk_edit (o' + length k) (o' + length k + length x) (n + length k) (n + length k + length y) \<and>
        transforms es (o' + length k + length x) (n + length k + length y) A' B')" (is "?l \<longleftrightarrow> ?r")
proof
  assume l: ?l
  let ?i = "old_start e - o'" and ?j = "old_end e - o'" and ?j' = "new_end e - n"
  have A: "A = take ?i A @ take (?j - ?i) (drop ?i A) @ drop ?j A" using l by (intro take_take_drop) auto
  have i: "new_start e - n = ?i" "take ?i A = take ?i B" using l by auto
  have "B = take ?i B @ take (?j' - ?i) (drop ?i B) @ drop ?j' B" using l by (intro take_take_drop) auto
  then have B: "B = take ?i A @ take (?j' - ?i) (drop ?i B) @ drop ?j' B" using i(2) by metis
  have "e = mk_edit (o' + ?i) (o' + ?i + (?j - ?i)) (n + ?i) (n + ?i + (?j' - ?i))"
    using l by (subst edit_eq_mk) auto
  moreover have "transforms es (o' + ?i + (?j - ?i)) (n + ?i + (?j' - ?i)) (drop ?j A) (drop ?j' B)" using l by auto
  moreover have "length (take ?i A) = ?i" "length (take (?j - ?i) (drop ?i A)) = ?j - ?i" "length (take (?j' - ?i) (drop ?i B)) = ?j' - ?i"
    using l by auto
  ultimately show ?r using A B by (metis (no_types, lifting))
qed (auto simp del: mk_edit_sel(5))

declare transforms.simps(2) [simp del]

lemma transforms_invert: "transforms (patch_invert p) n o' B A \<longleftrightarrow> transforms p o' n A B"
  by (induction p arbitrary: o' n A B) (auto simp: patch_invert_def transforms.simps(2))

lemma transforms_skip:
  assumes "transforms qs b n (u @ B) C" "qs = [] \<or> b + length u \<le> old_start (hd qs)"
  shows "\<exists>C'. C = u @ C' \<and> transforms qs (b + length u) (n + length u) B C'"
proof (cases qs)
  case Nil
  then show ?thesis using assms(1) by simp
next
  case (Cons e es)
  then obtain k x y B' C' where e: "u @ B = k @ x @ B'" "C = k @ y @ C'"
      "e = mk_edit (b + length k) (b + length k + length x) (n + length k) (n + length k + length y)"
      "transforms es (b + length k + length x) (n + length k + length y) B' C'"
    using assms(1) by (auto simp: transforms_Cons)
  then have "length u \<le> length k" using assms(2) Cons by simp
  then obtain k' where k': "k = u @ k'" "B = k' @ x @ B'"
    by (rule append_cut [OF e(1)])
  have "transforms (e # es) (b + length u) (n + length u) B (k' @ y @ C')"
    unfolding transforms_Cons using e(3,4) k'
    by (intro exI [of _ k'] exI [of _ x] exI [of _ y] exI [of _ B'] exI [of _ C']) (simp add: add.assoc)
  then show ?thesis using e(2) k'(1) Cons by simp
qed

lemma transforms_skip_old:
  assumes "transforms ps o' b A (u @ B)" "ps = [] \<or> b + length u \<le> new_start (hd ps)"
  shows "\<exists>A'. A = u @ A' \<and> transforms ps (o' + length u) (b + length u) A' B"
proof -
  have "transforms (patch_invert ps) b o' (u @ B) A" using assms(1) by (simp add: transforms_invert)
  moreover have "patch_invert ps = [] \<or> b + length u \<le> old_start (hd (patch_invert ps))"
    using assms(2) by (cases ps) (auto simp: patch_invert_def)
  ultimately show ?thesis using transforms_skip [of "patch_invert ps" b o' u B A] transforms_invert by blast
qed

text \<open>The same from the other end: what has been composed so far, as a sequence of kept and replaced parts.\<close>

inductive spans :: "patch \<Rightarrow> 'a list \<Rightarrow> 'a list \<Rightarrow> bool" where
  spans_Nil: "spans [] [] []"
| spans_keep: "spans es a c \<Longrightarrow> spans es (a @ k) (c @ k)"
| spans_edit: "spans es a c \<Longrightarrow>
    spans (es @ [mk_edit (length a) (length a + length x) (length c) (length c + length y)]) (a @ x) (c @ y)"

lemma spans_snocD:
  assumes "spans (es @ [l]) a c"
  obtains a0 x c0 y k where "a = a0 @ x @ k" "c = c0 @ y @ k" "spans es a0 c0"
    "l = mk_edit (length a0) (length a0 + length x) (length c0) (length c0 + length y)"
  using assms
proof (induction "es @ [l]" a c arbitrary: thesis rule: spans.induct)
  case (spans_keep a c k)
  show ?case
  proof (rule spans_keep.hyps(2))
    fix a0 x c0 y k'
    assume "a = a0 @ x @ k'" "c = c0 @ y @ k'" "spans es a0 c0"
      "l = mk_edit (length a0) (length a0 + length x) (length c0) (length c0 + length y)"
    then show thesis by (intro spans_keep.prems [of a0 x "k' @ k" c0 y]) simp_all
  qed
next
  case (spans_edit es' a c x y)
  then show ?case by (intro spans_edit.prems [of a x "[]" c y]) auto
qed simp

text \<open>\<open>push\<close> appends a replaced part, whether it starts a new edit, extends the last one or is empty.\<close>

lemma spans_push:
  assumes "spans es a c"
  shows "spans (push_span es (length a) (length a + length x) (length c) (length c + length y)) (a @ x) (c @ y)"
proof -
  let ?e = "mk_edit (length a) (length a + length x) (length c) (length c + length y)"
  show ?thesis
  proof (cases "x = [] \<and> y = []")
    case True
    then show ?thesis using assms by (simp add: push_span_def patch_push_def edit_is_empty_def)
  next
    case False
    then have push: "push_span es (length a) (length a + length x) (length c) (length c + length y) = push_maybe_empty es ?e"
      by (auto simp: push_span_def patch_push_def edit_is_empty_def)
    show ?thesis
    proof (cases "es \<noteq> [] \<and> length a \<le> old_end (last es)")
      case True
      then obtain es' l where es: "es = es' @ [l]" by (cases es rule: rev_cases) auto
      obtain a0 x0 c0 y0 k where l: "a = a0 @ x0 @ k" "c = c0 @ y0 @ k" "spans es' a0 c0"
          "l = mk_edit (length a0) (length a0 + length x0) (length c0) (length c0 + length y0)"
        by (rule spans_snocD [OF assms [unfolded es]])
      then have "k = []" using True es by simp
      then have "push_maybe_empty es ?e =
          es' @ [mk_edit (length a0) (length a0 + length (x0 @ x)) (length c0) (length c0 + length (y0 @ y))]"
        using True es l by (simp add: push_maybe_empty_def mk_edit_def)
      then show ?thesis using push spans_edit [OF l(3), of "x0 @ x" "y0 @ y"] l \<open>k = []\<close> by simp
    next
      case False
      then show ?thesis using push spans_edit [OF assms] by (auto simp: push_maybe_empty_def)
    qed
  qed
qed

lemma transforms_keep: "transforms es o' n A B \<Longrightarrow> transforms es o' n (A @ k) (B @ k)"
proof (induction es arbitrary: o' n A B)
  case (Cons e es)
  then obtain j x y A' B' where e: "A = j @ x @ A'" "B = j @ y @ B'"
      "e = mk_edit (o' + length j) (o' + length j + length x) (n + length j) (n + length j + length y)"
      "transforms es (o' + length j + length x) (n + length j + length y) A' B'"
    by (auto simp: transforms_Cons)
  from Cons.IH [OF e(4)] e(1-3) show ?case unfolding transforms_Cons
    by (intro exI [of _ j] exI [of _ x] exI [of _ y] exI [of _ "A' @ k"] exI [of _ "B' @ k"]) simp
qed simp

lemma transforms_snoc:
  "transforms es o' n A B \<Longrightarrow>
   transforms (es @ [mk_edit (o' + length A) (o' + length A + length x) (n + length B) (n + length B + length y)]) o' n (A @ x) (B @ y)"
proof (induction es arbitrary: o' n A B)
  case Nil
  then show ?case unfolding append_Nil transforms_Cons
    by (intro exI [of _ A] exI [of _ x] exI [of _ y] exI [of _ "[]"]) simp
next
  case (Cons e es)
  then obtain j u v A' B' where e: "A = j @ u @ A'" "B = j @ v @ B'"
      "e = mk_edit (o' + length j) (o' + length j + length u) (n + length j) (n + length j + length v)"
      "transforms es (o' + length j + length u) (n + length j + length v) A' B'"
    by (auto simp: transforms_Cons)
  from Cons.IH [OF e(4)] e(1-3) show ?case unfolding append_Cons transforms_Cons
    by (intro exI [of _ j] exI [of _ u] exI [of _ v] exI [of _ "A' @ x"] exI [of _ "B' @ y"]) (simp add: add.assoc)
qed

lemma spans_transforms: "spans es a c \<Longrightarrow> transforms es 0 0 a c"
proof (induction rule: spans.induct)
  case (spans_edit es a c x y)
  then show ?case using transforms_snoc [of es 0 0 a c x y] by simp
qed (auto intro: transforms_keep)

subsection \<open>The loop of composition\<close>

lemma checked_sub_simps [simp]: "checked_sub (a + b) a = Some b" "checked_sub (a + b + c) (a + b) = Some c"
  by (simp_all add: checked_sub_def)

lemma push_old_spec:
  assumes "spans composed a c" "A = k @ x @ A'" "C = k @ y @ C'"
    and "p = mk_edit (length a + length k) (length a + length k + length x) (b + length k) (b + length k + length y)"
  shows "\<exists>composed'. push_old p (length a) (length c) composed =
      Some (length (a @ k @ x), length (c @ k @ y), composed') \<and> spans composed' (a @ k @ x) (c @ k @ y)"
  using spans_push [OF spans_keep [OF assms(1), of k], of x y] assms(4)
  by (auto simp: push_old_def old_len_def new_len_def checked_sub_def Let_def add.assoc)

lemma push_new_spec:
  assumes "spans composed a c" "A = k @ x @ A'" "C = k @ y @ C'"
    and "q = mk_edit (b + length k) (b + length k + length x) (length c + length k) (length c + length k + length y)"
  shows "\<exists>composed'. push_new q (length a) (length c) composed =
      Some (length (a @ k @ x), length (c @ k @ y), composed') \<and> spans composed' (a @ k @ x) (c @ k @ y)"
  using spans_push [OF spans_keep [OF assms(1), of k], of x y] assms(4)
  by (auto simp: push_new_def old_len_def new_len_def checked_sub_def Let_def add.assoc)

text \<open>Two edits that start at the same place of the text between.\<close>

definition aligned ::
  "patch_edit \<Rightarrow> patch_edit \<Rightarrow> 'a list \<Rightarrow> 'a list \<Rightarrow> nat \<Rightarrow> 'a list \<Rightarrow> 'a list \<Rightarrow> 'a list \<Rightarrow> 'a list \<Rightarrow> bool" where
  "aligned p q a c b x y u v \<longleftrightarrow>
     p = mk_edit (length a) (length a + length x) b (b + length y) \<and>
     q = mk_edit b (b + length u) (length c) (length c + length v)"

lemma align_old_first:
  assumes "spans composed a c" "length k < length j" "length j \<le> length k + length y"
    and "k @ y @ B2 = j @ u @ B3"
    and "p = mk_edit (length a + length k) (length a + length k + length x) (b + length k) (b + length k + length y)"
    and "q = mk_edit (b + length j) (b + length j + length u) (length c + length j) (length c + length j + length v)"
  shows "\<exists>x1 x2 y' p' composed'. x = x1 @ x2 \<and> y' @ B2 = u @ B3 \<and> length j + length y' = length k + length y \<and>
    align_edits p q (length a) (length c) composed =
      Some (p', q, length (a @ k @ x1), length (c @ j), composed') \<and>
    aligned p' q (a @ k @ x1) (c @ j) (b + length j) x2 y' u v \<and> spans composed' (a @ k @ x1) (c @ j)"
proof -
  obtain j' where j': "j = k @ j'" "y @ B2 = j' @ u @ B3"
    by (rule append_cut [OF assms(4)]) (use assms(2) in auto)
  obtain y' where y': "y = j' @ y'" "u @ B3 = y' @ B2"
    by (rule append_cut [OF j'(2) [symmetric]]) (use assms(3) j'(1) in auto)
  define x1 where "x1 = take (length j') x"
  define x2 where "x2 = drop (length j') x"
  have x: "x = x1 @ x2" "length x1 = min (length j') (length x)" by (simp_all add: x1_def x2_def)
  have "spans (push_span composed (length (a @ k)) (length (a @ k) + length x1) (length (c @ k)) (length (c @ k) + length j'))
      (a @ k @ x1) (c @ j)"
    using spans_push [OF spans_keep [OF assms(1), of k], of x1 j'] j'(1) by simp
  moreover have "min (length a + length k + length j') (length a + length k + length x) = length a + length k + length x1"
    using x(2) by simp
  then have "align_edits p q (length a) (length c) composed =
      Some (mk_edit (length (a @ k @ x1)) (length (a @ k @ x1) + length x2) (b + length j) (b + length j + length y'), q,
        length (a @ k @ x1), length (c @ j),
        push_span composed (length (a @ k)) (length (a @ k) + length x1) (length (c @ k)) (length (c @ k) + length j'))"
    unfolding assms(5,6) align_edits_def using assms(2) j'(1) y'(1) x(1)
    by (simp add: checked_sub_def Let_def add.assoc)
  ultimately show ?thesis using x(1) y' j'(1) assms(6) unfolding aligned_def by fastforce
qed

lemma align_new_first:
  assumes "spans composed a c" "length j \<le> length k" "length k \<le> length j + length u"
    and "k @ y @ B2 = j @ u @ B3"
    and "p = mk_edit (length a + length k) (length a + length k + length x) (b + length k) (b + length k + length y)"
    and "q = mk_edit (b + length j) (b + length j + length u) (length c + length j) (length c + length j + length v)"
  shows "\<exists>v1 v2 u' q' composed'. v = v1 @ v2 \<and> y @ B2 = u' @ B3 \<and> length k + length u' = length j + length u \<and>
    align_edits p q (length a) (length c) composed =
      Some (p, q', length (a @ k), length (c @ j @ v1), composed') \<and>
    aligned p q' (a @ k) (c @ j @ v1) (b + length k) x y u' v2 \<and> spans composed' (a @ k) (c @ j @ v1)"
proof -
  obtain k' where k': "k = j @ k'" "k' @ y @ B2 = u @ B3"
    by (rule append_cut [OF assms(4) [symmetric]]) (use assms(2) in auto)
  obtain u' where u': "u = k' @ u'" "y @ B2 = u' @ B3"
    by (rule append_cut [OF k'(2)]) (use assms(3) k'(1) in auto)
  define v1 where "v1 = take (length k') v"
  define v2 where "v2 = drop (length k') v"
  have v: "v = v1 @ v2" "length v1 = min (length k') (length v)" by (simp_all add: v1_def v2_def)
  have "spans (push_span composed (length (a @ j)) (length (a @ j) + length k') (length (c @ j)) (length (c @ j) + length v1))
      (a @ k) (c @ j @ v1)"
    using spans_push [OF spans_keep [OF assms(1), of j], of k' v1] k'(1) by simp
  moreover have "min (length c + length j + length k') (length c + length j + length v) = length c + length j + length v1"
    using v(2) by simp
  then have "align_edits p q (length a) (length c) composed =
      Some (p, mk_edit (b + length k) (b + length k + length u') (length (c @ j @ v1)) (length (c @ j @ v1) + length v2),
        length (a @ k), length (c @ j @ v1),
        push_span composed (length (a @ j)) (length (a @ j) + length k') (length (c @ j)) (length (c @ j) + length v1))"
    unfolding assms(5,6) align_edits_def using assms(2) k'(1) u'(1) v(1)
    by (simp add: checked_sub_def Let_def add.assoc)
  ultimately show ?thesis using v(1) u' k'(1) assms(5) unfolding aligned_def by fastforce
qed

lemma merge_old_longer:
  assumes "spans composed a c" "aligned p q a c b x y u v" "length u < length y" "y @ B2 = u @ B3"
  shows "\<exists>x1 x2 y' composed'. x = x1 @ x2 \<and> B3 = y' @ B2 \<and> length y = length u + length y' \<and>
    merge_edits p q (length a) (length c) composed =
      Some (Inl (mk_edit (length (a @ x1)) (length (a @ x1) + length x2) (b + length u) (b + length u + length y')),
        length (a @ x1), length (c @ v), composed') \<and>
    spans composed' (a @ x1) (c @ v)"
proof -
  obtain y' where y': "y = u @ y'" "B3 = y' @ B2"
    by (rule append_cut [OF assms(4) [symmetric]]) (use assms(3) in auto)
  define x1 where "x1 = take (length u) x"
  define x2 where "x2 = drop (length u) x"
  have x: "x = x1 @ x2" "min (length x) (length u) = length x1" by (simp_all add: x1_def x2_def)
  have "spans (push_span composed (length a) (length a + length x1) (length c) (length c + length v)) (a @ x1) (c @ v)"
    by (rule spans_push [OF assms(1)])
  moreover have "merge_edits p q (length a) (length c) composed =
      Some (Inl (mk_edit (length (a @ x1)) (length (a @ x1) + length x2) (b + length u) (b + length u + length y')),
        length (a @ x1), length (c @ v), push_span composed (length a) (length a + length x1) (length c) (length c + length v))"
    using assms(2,3) x y'(1) by (simp add: merge_edits_def aligned_def old_len_def new_len_def Let_def)
  ultimately show ?thesis using x(1) y' by fastforce
qed

lemma merge_new_longer:
  assumes "spans composed a c" "aligned p q a c b x y u v" "length y \<le> length u" "y @ B2 = u @ B3"
  shows "\<exists>v1 v2 u' composed'. v = v1 @ v2 \<and> B2 = u' @ B3 \<and> length u = length y + length u' \<and>
    merge_edits p q (length a) (length c) composed =
      Some (Inr (mk_edit (b + length y) (b + length y + length u') (length (c @ v1)) (length (c @ v1) + length v2)),
        length (a @ x), length (c @ v1), composed') \<and>
    spans composed' (a @ x) (c @ v1)"
proof -
  obtain u' where u': "u = y @ u'" "B2 = u' @ B3" by (rule append_cut [OF assms(4,3)])
  define v1 where "v1 = take (length y) v"
  define v2 where "v2 = drop (length y) v"
  have v: "v = v1 @ v2" "min (length y) (length v) = length v1" by (simp_all add: v1_def v2_def)
  have "spans (push_span composed (length a) (length a + length x) (length c) (length c + length v1)) (a @ x) (c @ v1)"
    by (rule spans_push [OF assms(1)])
  moreover have "merge_edits p q (length a) (length c) composed =
      Some (Inr (mk_edit (b + length y) (b + length y + length u') (length (c @ v1)) (length (c @ v1) + length v2)),
        length (a @ x), length (c @ v1), push_span composed (length a) (length a + length x) (length c) (length c + length v1))"
    using assms(2,3) v u'(1) by (simp add: merge_edits_def aligned_def old_len_def new_len_def Let_def)
  ultimately show ?thesis using v(1) u' by fastforce
qed

text \<open>A round of the loop that meets two touching edits, once they are aligned.\<close>

definition loop_correct :: "patch \<Rightarrow> patch \<Rightarrow> 'a itself \<Rightarrow> bool" where
  "loop_correct ps qs T \<longleftrightarrow>
     (\<forall>(a :: 'a list) c b A B C composed. spans composed a c \<longrightarrow> transforms ps (length a) b A B \<longrightarrow>
        transforms qs b (length c) B C \<longrightarrow>
        (\<exists>r. compose_loop ps qs (length a) (length c) composed = Some r \<and> spans r (a @ A) (c @ C)))"

lemma loop_correctD:
  assumes "loop_correct ps qs TYPE('a)" "spans composed (a :: 'a list) c" "transforms ps (length a) b A B"
    and "transforms qs b (length c) B C"
  shows "\<exists>r. compose_loop ps qs (length a) (length c) composed = Some r \<and> spans r (a @ A) (c @ C)"
  using assms unfolding loop_correct_def by blast

lemma transforms_here:
  "transforms es (o' + length x) (n + length y) A B \<Longrightarrow>
   transforms (mk_edit o' (o' + length x) n (n + length y) # es) o' n (x @ A) (y @ B)"
  unfolding transforms_Cons by (intro exI [of _ "[]"] exI [of _ x] exI [of _ y] exI [of _ A] exI [of _ B]) simp

lemma merge_round:
  fixes a :: "'a list"
  assumes "spans composed a c" "aligned p q a c b x y u v" "y @ B2 = u @ B3"
    and "transforms ps (length a + length x) (b + length y) A2 B2" "transforms qs (b + length u) (length c + length v) B3 C2"
    and IH: "\<And>ps' qs'. length ps' + length qs' = Suc (length ps + length qs) \<Longrightarrow> loop_correct ps' qs' TYPE('a)"
  shows "\<exists>r. Option.bind (merge_edits p q (length a) (length c) composed) (\<lambda>(rest, os, ns, composed).
      (case rest of
         Inl p' \<Rightarrow> compose_loop (p' # ps) qs os ns composed
       | Inr q' \<Rightarrow> compose_loop ps (q' # qs) os ns composed)) = Some r \<and> spans r (a @ x @ A2) (c @ v @ C2)"
proof (cases "length u < length y")
  case True
  obtain x1 x2 y' composed' where m: "x = x1 @ x2" "B3 = y' @ B2" "length y = length u + length y'"
      "merge_edits p q (length a) (length c) composed =
        Some (Inl (mk_edit (length (a @ x1)) (length (a @ x1) + length x2) (b + length u) (b + length u + length y')),
          length (a @ x1), length (c @ v), composed')" "spans composed' (a @ x1) (c @ v)"
    using merge_old_longer [OF assms(1,2) True assms(3)] by blast
  let ?p = "mk_edit (length (a @ x1)) (length (a @ x1) + length x2) (b + length u) (b + length u + length y')"
  have "transforms (?p # ps) (length (a @ x1)) (b + length u) (x2 @ A2) (y' @ B2)"
    by (rule transforms_here) (use assms(4) m(1,3) in \<open>simp add: add.assoc\<close>)
  moreover have "transforms qs (b + length u) (length (c @ v)) (y' @ B2) C2" using assms(5) m(2) by simp
  moreover have "loop_correct (?p # ps) qs TYPE('a)" by (rule IH) simp
  ultimately obtain r where "compose_loop (?p # ps) qs (length (a @ x1)) (length (c @ v)) composed' = Some r"
      "spans r ((a @ x1) @ x2 @ A2) ((c @ v) @ C2)"
    using loop_correctD m(5) by blast
  then show ?thesis using m(1,4) by simp
next
  case False
  then have le: "length y \<le> length u" by simp
  obtain v1 v2 u' composed' where m: "v = v1 @ v2" "B2 = u' @ B3" "length u = length y + length u'"
      "merge_edits p q (length a) (length c) composed =
        Some (Inr (mk_edit (b + length y) (b + length y + length u') (length (c @ v1)) (length (c @ v1) + length v2)),
          length (a @ x), length (c @ v1), composed')" "spans composed' (a @ x) (c @ v1)"
    using merge_new_longer [OF assms(1,2) le assms(3)] by blast
  let ?q = "mk_edit (b + length y) (b + length y + length u') (length (c @ v1)) (length (c @ v1) + length v2)"
  have "transforms (?q # qs) (b + length y) (length (c @ v1)) (u' @ B3) (v2 @ C2)"
    by (rule transforms_here) (use assms(5) m(1,3) in \<open>simp add: add.assoc\<close>)
  moreover have "transforms ps (length (a @ x)) (b + length y) A2 (u' @ B3)" using assms(4) m(2) by simp
  moreover have "loop_correct ps (?q # qs) TYPE('a)" by (rule IH) simp
  ultimately obtain r where "compose_loop ps (?q # qs) (length (a @ x)) (length (c @ v1)) composed' = Some r"
      "spans r ((a @ x) @ A2) ((c @ v1) @ v2 @ C2)"
    using loop_correctD m(5) by blast
  then show ?thesis using m(1,4) by simp
qed

lemma compose_loop_touch:
  assumes "old_start q \<le> new_end p" "new_start p \<le> old_end q"
  shows "compose_loop (p # ps) (q # qs) os ns composed =
    Option.bind (align_edits p q os ns composed) (\<lambda>(p, q, os, ns, composed).
      Option.bind (merge_edits p q os ns composed) (\<lambda>(rest, os, ns, composed).
        (case rest of
           Inl p' \<Rightarrow> compose_loop (p' # ps) qs os ns composed
         | Inr q' \<Rightarrow> compose_loop ps (q' # qs) os ns composed)))"
  using assms by (subst compose_loop.simps) (simp only: list.sel if_False if_True list.simps not_less refl simp_thms leD)

lemma touch_round:
  fixes a :: "'a list"
  assumes "spans composed a c" "transforms (p # ps) (length a) b A B" "transforms (q # qs) b (length c) B C"
    and "old_start q \<le> new_end p" "new_start p \<le> old_end q"
    and IH: "\<And>ps' qs'. length ps' + length qs' = Suc (length ps + length qs) \<Longrightarrow> loop_correct ps' qs' TYPE('a)"
  shows "\<exists>r. Option.bind (align_edits p q (length a) (length c) composed) (\<lambda>(p, q, os, ns, composed).
      Option.bind (merge_edits p q os ns composed) (\<lambda>(rest, os, ns, composed).
        (case rest of
           Inl p' \<Rightarrow> compose_loop (p' # ps) qs os ns composed
         | Inr q' \<Rightarrow> compose_loop ps (q' # qs) os ns composed))) = Some r \<and> spans r (a @ A) (c @ C)"
proof -
  obtain k x y A2 B2 where p: "A = k @ x @ A2" "B = k @ y @ B2"
      "p = mk_edit (length a + length k) (length a + length k + length x) (b + length k) (b + length k + length y)"
      "transforms ps (length a + length k + length x) (b + length k + length y) A2 B2"
    using assms(2) by (auto simp: transforms_Cons)
  obtain j u v B3 C2 where q: "B = j @ u @ B3" "C = j @ v @ C2"
      "q = mk_edit (b + length j) (b + length j + length u) (length c + length j) (length c + length j + length v)"
      "transforms qs (b + length j + length u) (length c + length j + length v) B3 C2"
    using assms(3) by (auto simp: transforms_Cons)
  have B: "k @ y @ B2 = j @ u @ B3" using p(2) q(1) by simp
  show ?thesis
  proof (cases "length k < length j")
    case True
    have "length j \<le> length k + length y" using assms(4) p(3) q(3) by simp
    then obtain x1 x2 y' p' composed' where al: "x = x1 @ x2" "y' @ B2 = u @ B3" "length j + length y' = length k + length y"
        "align_edits p q (length a) (length c) composed = Some (p', q, length (a @ k @ x1), length (c @ j), composed')"
        "aligned p' q (a @ k @ x1) (c @ j) (b + length j) x2 y' u v" "spans composed' (a @ k @ x1) (c @ j)"
      using align_old_first [OF assms(1) True _ B p(3) q(3)] by blast
    have "transforms ps (length (a @ k @ x1) + length x2) (b + length j + length y') A2 B2"
      using p(4) al(1,3) by (simp add: add.assoc)
    moreover have "transforms qs (b + length j + length u) (length (c @ j) + length v) B3 C2" using q(4) by simp
    ultimately show ?thesis using merge_round [OF al(6,5,2) _ _ IH] al(1,4) p(1) q(2) by simp
  next
    case False
    then have le: "length j \<le> length k" by simp
    have "length k \<le> length j + length u" using assms(5) p(3) q(3) by simp
    then obtain v1 v2 u' q' composed' where al: "v = v1 @ v2" "y @ B2 = u' @ B3" "length k + length u' = length j + length u"
        "align_edits p q (length a) (length c) composed = Some (p, q', length (a @ k), length (c @ j @ v1), composed')"
        "aligned p q' (a @ k) (c @ j @ v1) (b + length k) x y u' v2" "spans composed' (a @ k) (c @ j @ v1)"
      using align_new_first [OF assms(1) le _ B p(3) q(3)] by blast
    have "transforms ps (length (a @ k) + length x) (b + length k + length y) A2 B2" using p(4) by simp
    moreover have "transforms qs (b + length k + length u') (length (c @ j @ v1) + length v2) B3 C2"
      using q(4) al(1,3) by (simp add: add.assoc)
    ultimately show ?thesis using merge_round [OF al(6,5,2) _ _ IH] al(1,4) p(1) q(2) by simp
  qed
qed

text \<open>The cases of one round of the loop.\<close>

lemma compose_cases:
  obtains (old) p ps' where "ps = p # ps'" "qs = [] \<or> new_end p < old_start (hd qs)"
    | (new) q qs' where "qs = q # qs'" "ps = [] \<or> old_end q < new_start (hd ps)" "\<not> (ps \<noteq> [] \<and> new_end (hd ps) < old_start q)"
    | (touch) p ps' q qs' where "ps = p # ps'" "qs = q # qs'" "old_start q \<le> new_end p" "new_start p \<le> old_end q"
    | (finished) "ps = []" "qs = []"
proof (cases ps; cases qs)
  fix p ps' q qs'
  assume *: "ps = p # ps'" "qs = q # qs'"
  show thesis
  proof (cases "new_end p < old_start q \<or> old_end q < new_start p")
    case True
    then show thesis using * old new by auto
  next
    case False
    then show thesis using touch [OF *] by simp
  qed
qed (use old new finished in auto)

lemma compose_loop_correct: "loop_correct ps qs TYPE('a)"
proof (induction "length ps + length qs" arbitrary: ps qs rule: less_induct)
  case less
  show ?case unfolding loop_correct_def
  proof (intro allI impI)
    fix a c A B C :: "'a list" and b composed
    assume sp: "spans composed a c" and P: "transforms ps (length a) b A B" and Q: "transforms qs b (length c) B C"
    show "\<exists>r. compose_loop ps qs (length a) (length c) composed = Some r \<and> spans r (a @ A) (c @ C)"
    proof -
      show ?thesis
      proof (cases rule: compose_cases [of ps qs, case_names old new touch finished])
        case (old p ps')
        obtain k x y A2 B2 where p: "A = k @ x @ A2" "B = (k @ y) @ B2"
            "p = mk_edit (length a + length k) (length a + length k + length x) (b + length k) (b + length k + length y)"
            "transforms ps' (length a + length k + length x) (b + length k + length y) A2 B2"
          using P old(1) by (auto simp: transforms_Cons)
        obtain C2 where C2: "C = (k @ y) @ C2" "transforms qs (b + length (k @ y)) (length c + length (k @ y)) B2 C2"
          using transforms_skip [OF Q [unfolded p(2)]] old(2) p(3) by fastforce
        obtain composed' where push: "push_old p (length a) (length c) composed = Some (length (a @ k @ x), length (c @ k @ y), composed')"
            "spans composed' (a @ k @ x) (c @ k @ y)"
          using push_old_spec [OF sp p(1) _ p(3), of C C2] C2(1) by auto
        have "loop_correct ps' qs TYPE('a)" using old(1) by (intro less) simp
        then obtain r where "compose_loop ps' qs (length (a @ k @ x)) (length (c @ k @ y)) composed' = Some r"
            "spans r ((a @ k @ x) @ A2) ((c @ k @ y) @ C2)"
          using loop_correctD [OF _ push(2), of ps' qs "b + length (k @ y)" A2 B2 C2] p(4) C2(2) by (auto simp: add.assoc)
        then show ?thesis using old push(1) p(1) C2(1) by (subst compose_loop.simps) simp
      next
        case (new q qs')
        obtain k x y B2 C2 where q: "B = (k @ x) @ B2" "C = k @ y @ C2"
            "q = mk_edit (b + length k) (b + length k + length x) (length c + length k) (length c + length k + length y)"
            "transforms qs' (b + length k + length x) (length c + length k + length y) B2 C2"
          using Q new(1) by (auto simp: transforms_Cons)
        obtain A2 where A2: "A = (k @ x) @ A2" "transforms ps (length a + length (k @ x)) (b + length (k @ x)) A2 B2"
          using transforms_skip_old [OF P [unfolded q(1)]] new(2) q(3) by fastforce
        obtain composed' where push: "push_new q (length a) (length c) composed = Some (length (a @ k @ x), length (c @ k @ y), composed')"
            "spans composed' (a @ k @ x) (c @ k @ y)"
          using push_new_spec [OF sp _ q(2,3), of A A2] A2(1) by auto
        have "loop_correct ps qs' TYPE('a)" using new(1) by (intro less) simp
        then obtain r where "compose_loop ps qs' (length (a @ k @ x)) (length (c @ k @ y)) composed' = Some r"
            "spans r ((a @ k @ x) @ A2) ((c @ k @ y) @ C2)"
          using loop_correctD [OF _ push(2), of ps qs' "b + length (k @ x)" A2 B2 C2] q(4) A2(2) by (auto simp: add.assoc)
        then show ?thesis using new push(1) q(2) A2(1) by (subst compose_loop.simps) auto
      next
        case (touch p ps' q qs')
        have "loop_correct ps1 qs1 TYPE('a)" if "length ps1 + length qs1 = Suc (length ps' + length qs')" for ps1 qs1
          using that touch(1,2) by (intro less) simp
        from touch_round [OF sp P [unfolded touch(1)] Q [unfolded touch(2)] touch(3,4) this] show ?thesis
          using compose_loop_touch [OF touch(3,4)] touch(1,2) by simp
      next
        case finished
        then show ?thesis using P Q spans_keep [OF sp, of C] by (subst compose_loop.simps) simp
      qed
    qed
  qed
qed

lemma compose_correct:
  assumes "transforms p 0 0 A B" "transforms q 0 0 B C"
  shows "\<exists>r. compose p q = Some r \<and> transforms r 0 0 A C"
  using loop_correctD [OF compose_loop_correct spans_Nil, of p 0 A B q C] assms spans_transforms
  by (fastforce simp: compose_def)

subsection \<open>The edit at a position\<close>

text \<open>What \<open>Patch::new\<close> asserts in debug builds: an edit starts strictly after the end of the one before it.\<close>

definition separated :: "patch \<Rightarrow> bool" where
  "separated p \<longleftrightarrow> sorted_wrt (\<lambda>a b. old_end a < old_start b \<and> new_end a < new_start b) p"

lemma separated_Cons:
  "separated (e # es) \<longleftrightarrow> (\<forall>x \<in> set es. old_end e < old_start x \<and> new_end e < new_start x) \<and> separated es"
  by (simp add: separated_def)

text \<open>The edit both lookups select is the last one that starts at or before the position.\<close>

definition last_started :: "patch \<Rightarrow> nat \<Rightarrow> patch_edit option" where
  "last_started p i = (case filter (\<lambda>e. old_start e \<le> i) p of [] \<Rightarrow> None | es \<Rightarrow> Some (last es))"

lemma last_started_Cons:
  "last_started (e # es) i =
     (if old_start e \<le> i then (case last_started es i of None \<Rightarrow> Some e | Some e' \<Rightarrow> Some e') else last_started es i)"
  by (auto simp: last_started_def split: list.splits)

lemma last_started_late: "\<forall>e \<in> set p. i < old_start e \<Longrightarrow> last_started p i = None"
  by (simp add: last_started_def filter_False not_le)

lemma last_started_in: "last_started p i = Some e \<Longrightarrow> e \<in> set p \<and> old_start e \<le> i"
proof (induction p)
  case (Cons a p)
  then show ?case by (cases "last_started p i") (auto simp: last_started_Cons split: if_splits)
qed (simp add: last_started_def)

lemma search_start_Cons:
  "search_start (e # es) i =
     (if old_start e < i then map_sum Suc Suc (search_start es i) else if old_start e = i then Inl 0 else Inr 0)"
  by (simp add: search_start_def Let_def)

lemma search_start_bound: "search_start p i = Inl ix \<Longrightarrow> ix < length p" "search_start p i = Inr ix \<Longrightarrow> ix \<le> length p"
  by (auto simp: search_start_def Let_def length_takeWhile_le split: if_splits)

lemma edit_at_or_before_Cons:
  "edit_at_or_before (e # es) i =
     (if old_start e < i then (case edit_at_or_before es i of None \<Rightarrow> Some e | Some e' \<Rightarrow> Some e')
      else if old_start e = i then Some e else None)"
  using search_start_bound [of es i]
  by (auto simp: edit_at_or_before_def search_start_Cons nth_Cons' split: sum.splits)

lemma edit_at_or_before_eq:
  assumes "separated p" "\<forall>e \<in> set p. old_start e \<le> old_end e"
  shows "edit_at_or_before p i = last_started p i"
  using assms
proof (induction p)
  case Nil
  then show ?case by (simp add: edit_at_or_before_def search_start_def last_started_def)
next
  case (Cons e es)
  have late: "last_started es i = None" if "i \<le> old_start e"
    using Cons.prems that by (intro last_started_late) (auto simp: separated_Cons)
  show ?case using Cons late
    by (cases "old_start e" i rule: linorder_cases)
      (simp_all add: edit_at_or_before_Cons last_started_Cons separated_Cons)
qed

lemma transforms_ordered: "transforms p o' n A B \<Longrightarrow> e \<in> set p \<Longrightarrow> old_start e \<le> old_end e"
  by (induction p arbitrary: o' n A B) (auto simp: transforms.simps(2))

lemma last_started_max:
  assumes "separated p" "\<forall>e \<in> set p. old_start e \<le> old_end e" "last_started p i = Some e" "x \<in> set p" "old_start x \<le> i"
  shows "x = e \<or> old_end x < old_start e"
  using assms
proof (induction p)
  case (Cons a p)
  show ?case
  proof (cases "last_started p i")
    case None
    then have "\<forall>y \<in> set p. \<not> old_start y \<le> i"
      by (auto simp: last_started_def filter_empty_conv split: list.splits)
    then show ?thesis using Cons.prems None by (auto simp: last_started_Cons split: if_splits)
  next
    case (Some e')
    then show ?thesis using Cons last_started_in [OF Some] by (auto simp: last_started_Cons separated_Cons split: if_splits)
  qed
qed (simp add: last_started_def)

text \<open>\<open>old_to_new\<close> relative to texts that start at \<open>o'\<close> and \<open>n\<close>.\<close>

definition moved_to :: "patch \<Rightarrow> nat \<Rightarrow> nat \<Rightarrow> nat \<Rightarrow> nat" where
  "moved_to p o' n i = (case last_started p i of None \<Rightarrow> n + (i - o') | Some e \<Rightarrow> new_end e + (i - old_end e))"

lemma moved_to_keeps:
  assumes "transforms p o' n A B" "separated p" "o' \<le> i" "i - o' < length A"
    and "\<forall>e \<in> set p. \<not> (old_start e \<le> i \<and> i < old_end e)"
  shows "n \<le> moved_to p o' n i \<and> moved_to p o' n i - n < length B \<and> B ! (moved_to p o' n i - n) = A ! (i - o')"
  using assms
proof (induction p arbitrary: o' n A B)
  case Nil
  then show ?case by (simp add: moved_to_def last_started_def)
next
  case (Cons e es)
  obtain k x y A' B' where e: "A = k @ x @ A'" "B = k @ y @ B'"
      "e = mk_edit (o' + length k) (o' + length k + length x) (n + length k) (n + length k + length y)"
      "transforms es (o' + length k + length x) (n + length k + length y) A' B'"
    using Cons.prems(1) by (auto simp: transforms_Cons)
  show ?case
  proof (cases "i < old_start e")
    case True
    have "last_started (e # es) i = None"
      using True Cons.prems(2) transforms_ordered [OF Cons.prems(1)]
      by (intro last_started_late) (auto simp: separated_Cons dest: less_trans le_less_trans)
    then show ?thesis using True Cons.prems(3) e(1-3) by (auto simp: moved_to_def nth_append)
  next
    case False
    then have i: "old_end e \<le> i" using Cons.prems(5) by auto
    then have m: "moved_to (e # es) o' n i = moved_to es (old_end e) (new_end e) i"
      using False by (simp add: moved_to_def last_started_Cons split: option.splits)
    have ih: "new_end e \<le> moved_to es (old_end e) (new_end e) i \<and> moved_to es (old_end e) (new_end e) i - new_end e < length B' \<and>
        B' ! (moved_to es (old_end e) (new_end e) i - new_end e) = A' ! (i - old_end e)"
      using Cons.prems i e by (intro Cons.IH) (auto simp: separated_Cons)
    have A: "A ! (i - o') = A' ! (i - old_end e)" using i e(1,3) by (auto simp: nth_append intro: arg_cong [of _ _ "(!) A'"])
    have B: "B ! (j - n) = B' ! (j - new_end e)" if "new_end e \<le> j" for j
      using that e(2,3) by (auto simp: nth_append intro: arg_cong [of _ _ "(!) B'"])
    show ?thesis using ih A B m e(2,3) by auto
  qed
qed

subsection \<open>Properties\<close>

text \<open>C12 (compose_transforms): if a patch turns text \<open>A\<close> into \<open>B\<close> and a sequence of edits turns \<open>B\<close> into \<open>C\<close>, then \<open>Patch::compose\<close> does
  not underflow, terminates, and returns a patch that turns \<open>A\<close> into \<open>C\<close>.\<close>

theorem compose_transforms:
  assumes "transforms p 0 0 A B" "transforms q 0 0 B C"
  shows "\<exists>r. compose p q = Some r \<and> transforms r 0 0 A C"
  using assms by (rule compose_correct)

theorem compose_transforms_witness:
  "\<exists>r. compose [mk_edit 1 3 1 2] [mk_edit 0 1 0 0, mk_edit 2 2 1 4] = Some r \<and>
    transforms r 0 0 ''abcd'' ''Xuvwd''"
  by (rule compose_transforms [of _ _ "''aXd''"]) code_simp+

text \<open>Fact (invert_transforms): inverting a patch turns the new text back into the old one, and inverting twice changes nothing.\<close>

theorem invert_transforms:
  "(transforms (patch_invert p) n o' B A \<longleftrightarrow> transforms p o' n A B) \<and> patch_invert (patch_invert p) = p"
  by (simp add: transforms_invert) (simp add: patch_invert_def edit_eq_mk [symmetric] map_idI)

text \<open>C34 (old_to_new_keeps_text): \<open>Patch::old_to_new\<close> maps the offset of every element outside the replaced ranges to an offset of the new text
  that holds the same element.\<close>

theorem old_to_new_keeps_text:
  assumes "transforms p 0 0 A B" "separated p" "i < length A" "\<forall>e \<in> set p. \<not> (old_start e \<le> i \<and> i < old_end e)"
  shows "old_to_new p i < length B \<and> B ! old_to_new p i = A ! i"
proof -
  have "old_to_new p i = moved_to p 0 0 i"
    using edit_at_or_before_eq [OF assms(2)] transforms_ordered [OF assms(1)] last_started_in [of p i] assms(4)
    by (auto simp: old_to_new_def moved_to_def split: option.splits)
  then show ?thesis using moved_to_keeps [OF assms(1,2), of i] assms(3,4) by simp
qed

theorem old_to_new_keeps_text_witness:
  "old_to_new [mk_edit 1 3 1 2, mk_edit 4 4 3 5] 3 < length ''aXdyz'' \<and>
    ''aXdyz'' ! old_to_new [mk_edit 1 3 1 2, mk_edit 4 4 3 5] 3 = ''abcd'' ! 3"
  by (rule old_to_new_keeps_text) code_simp+

text \<open>Fact (edit_for_old_position_touches): \<open>Patch::edit_for_old_position\<close> returns an edit that touches the position, inclusive on the right: an
  edit of the patch, or, when none touches it, an empty edit at the position and where \<open>old_to_new\<close> moves it.\<close>

theorem edit_for_old_position_touches:
  assumes "separated p" "\<forall>e \<in> set p. old_start e \<le> old_end e"
  shows "let r = edit_for_old_position p i in old_start r \<le> i \<and> i \<le> old_end r \<and>
    (r \<in> set p \<or> (\<forall>e \<in> set p. \<not> (old_start e \<le> i \<and> i \<le> old_end e)) \<and>
      r = mk_edit i i (old_to_new p i) (old_to_new p i))"
proof (cases "last_started p i")
  case None
  then have "\<forall>e \<in> set p. \<not> old_start e \<le> i"
    by (auto simp: last_started_def filter_empty_conv split: list.splits)
  then show ?thesis using edit_at_or_before_eq [OF assms] None
    by (simp add: edit_for_old_position_def old_to_new_def)
next
  case (Some e)
  have "\<not> (old_start x \<le> i \<and> i \<le> old_end x)" if "x \<in> set p" "old_end e < i" for x
    using last_started_max [OF assms Some that(1)] last_started_in [OF Some] that(2) by auto
  then show ?thesis using edit_at_or_before_eq [OF assms] Some last_started_in [OF Some]
    by (auto simp: edit_for_old_position_def old_to_new_def Let_def)
qed

theorem edit_for_old_position_touches_witness:
  "let p = [mk_edit 1 3 1 2, mk_edit 5 5 4 6]; r = edit_for_old_position p 4 in old_start r \<le> 4 \<and> 4 \<le> old_end r \<and>
    (r \<in> set p \<or> (\<forall>e \<in> set p. \<not> (old_start e \<le> 4 \<and> 4 \<le> old_end e)) \<and>
      r = mk_edit 4 4 (old_to_new p 4) (old_to_new p 4))"
  unfolding Let_def [of "[_, _]"] by (rule edit_for_old_position_touches) code_simp+

end
