(* ===== verification/Subscription.thy ===== *)
theory Subscription
  imports Patch
begin

text \<open>
  \<open>crates/text/src/subscription.rs\<close>: a topic keeps weak references to the patches of its subscribers; publishing
  edits composes them into every patch that is still alive. The patches live in a heap, a map from the
  addresses of the shared cells to their contents; a cell whose \<open>Subscription\<close> has been dropped is no longer in it.
\<close>

subsection \<open>State and operations\<close>

record pubsub =
  topic :: "nat list"
  cells :: "nat \<Rightarrow> patch option"
  unused :: nat

definition topic_default :: pubsub where
  "topic_default = \<lparr>topic = [], cells = (\<lambda>_. None), unused = 0\<rparr>"

text \<open>\<open>Topic::subscribe\<close> allocates a cell with the default patch and keeps a weak reference to it.\<close>

definition subscribe :: "pubsub \<Rightarrow> nat \<times> pubsub" where
  "subscribe s =
     (unused s, s\<lparr>topic := topic s @ [unused s], cells := (cells s)(unused s := Some patch_empty), unused := Suc (unused s)\<rparr>)"

text \<open>The closure handed to \<open>Vec::retain\<close> by \<open>publish\<close>, run on the references in order. \<open>None\<close> is a panic inside \<open>compose\<close>.\<close>

fun publish_loop :: "patch_edit list \<Rightarrow> nat list \<Rightarrow> (nat \<Rightarrow> patch option) \<Rightarrow> (nat list \<times> (nat \<Rightarrow> patch option)) option" where
  "publish_loop edits [] h = Some ([], h)"
| "publish_loop edits (r # rs) h =
     (case h r of
        Some patch \<Rightarrow>
          Option.bind (compose patch edits) (\<lambda>patch'.
          Option.bind (publish_loop edits rs (h(r := Some patch'))) (\<lambda>(kept, h'). Some (r # kept, h')))
      | None \<Rightarrow> publish_loop edits rs h)"

definition publish :: "pubsub \<Rightarrow> patch_edit list \<Rightarrow> pubsub option" where
  "publish s edits = Option.bind (publish_loop edits (topic s) (cells s)) (\<lambda>(kept, h). Some (s\<lparr>topic := kept, cells := h\<rparr>))"

text \<open>\<open>Topic::publish_mut\<close> differs from \<open>Topic::publish\<close> only in not taking the lock.\<close>

definition publish_mut :: "pubsub \<Rightarrow> patch_edit list \<Rightarrow> pubsub option" where
  "publish_mut s edits = publish s edits"

text \<open>\<open>Subscription::consume\<close> of the subscription that owns cell \<open>r\<close>; it takes the patch and leaves the default one.\<close>

definition consume :: "pubsub \<Rightarrow> nat \<Rightarrow> (patch \<times> pubsub) option" where
  "consume s r = map_option (\<lambda>patch. (patch, s\<lparr>cells := (cells s)(r := Some patch_empty)\<rparr>)) (cells s r)"

text \<open>A \<open>Subscription\<close> going out of scope frees its cell; the weak reference stays in the topic.\<close>

definition drop_subscription :: "pubsub \<Rightarrow> nat \<Rightarrow> pubsub" where
  "drop_subscription s r = s\<lparr>cells := (cells s)(r := None)\<rparr>"

subsection \<open>Histories\<close>

text \<open>
  \<open>history s T base\<close>: \<open>s\<close> is a topic after some calls, the buffer it belongs to now holds \<open>T\<close>, and \<open>base r\<close> is what it
  held when subscription \<open>r\<close> was made or last consumed.
\<close>

inductive history :: "pubsub \<Rightarrow> 'a list \<Rightarrow> (nat \<Rightarrow> 'a list) \<Rightarrow> bool" where
  history_start: "history topic_default T base"
| history_subscribe: "history s T base \<Longrightarrow> subscribe s = (r, s') \<Longrightarrow> history s' T (base(r := T))"
| history_publish: "history s T base \<Longrightarrow> transforms edits 0 0 T T' \<Longrightarrow> publish s edits = Some s' \<Longrightarrow> history s' T' base"
| history_consume: "history s T base \<Longrightarrow> consume s r = Some (patch, s') \<Longrightarrow> history s' T (base(r := T))"
| history_drop: "history s T base \<Longrightarrow> history (drop_subscription s r) T base"

text \<open>Every live patch leads from the text its subscriber has seen to the current one, and the topic knows every live cell once.\<close>

definition tracking :: "pubsub \<Rightarrow> 'a list \<Rightarrow> (nat \<Rightarrow> 'a list) \<Rightarrow> bool" where
  "tracking s T base \<longleftrightarrow>
     (\<forall>r patch. cells s r = Some patch \<longrightarrow> transforms patch 0 0 (base r) T \<and> r \<in> set (topic s)) \<and>
     distinct (topic s) \<and> (\<forall>r \<in> set (topic s). r < unused s)"

lemma trackingD: "tracking s T base \<Longrightarrow> cells s r = Some patch \<Longrightarrow> transforms patch 0 0 (base r) T \<and> r \<in> set (topic s)"
  by (simp add: tracking_def)

lemma publish_loop_spec:
  assumes "transforms edits 0 0 T T'" "distinct rs"
    and "\<forall>r \<in> set rs. \<forall>patch. h r = Some patch \<longrightarrow> transforms patch 0 0 (base r) T"
  shows "\<exists>h'. publish_loop edits rs h = Some (filter (\<lambda>r. h r \<noteq> None) rs, h') \<and>
    (\<forall>r. r \<notin> set rs \<longrightarrow> h' r = h r) \<and>
    (\<forall>r \<in> set rs. (h' r = None \<longleftrightarrow> h r = None) \<and> (\<forall>patch. h' r = Some patch \<longrightarrow> transforms patch 0 0 (base r) T'))"
  using assms(2,3)
proof (induction rs arbitrary: h)
  case (Cons r rs)
  show ?case
  proof (cases "h r")
    case None
    obtain h' where "publish_loop edits rs h = Some (filter (\<lambda>r. h r \<noteq> None) rs, h')"
        "\<forall>r. r \<notin> set rs \<longrightarrow> h' r = h r"
        "\<forall>r \<in> set rs. (h' r = None \<longleftrightarrow> h r = None) \<and> (\<forall>patch. h' r = Some patch \<longrightarrow> transforms patch 0 0 (base r) T')"
      using Cons.IH [of h] Cons.prems by auto
    then show ?thesis using None Cons.prems(1) by (intro exI [of _ h']) simp
  next
    case (Some patch)
    then have "transforms patch 0 0 (base r) T" using Cons.prems(2) by simp
    then obtain patch' where c: "compose patch edits = Some patch'" "transforms patch' 0 0 (base r) T'"
      using compose_correct assms(1) by blast
    let ?h = "h(r := Some patch')"
    have eq: "filter (\<lambda>x. ?h x \<noteq> None) rs = filter (\<lambda>x. h x \<noteq> None) rs"
      using Cons.prems(1) by (intro filter_cong) auto
    have prem: "distinct rs" "\<forall>x \<in> set rs. \<forall>patch. ?h x = Some patch \<longrightarrow> transforms patch 0 0 (base x) T"
      using Cons.prems by auto
    obtain h' where h': "publish_loop edits rs ?h = Some (filter (\<lambda>x. h x \<noteq> None) rs, h')"
        "\<forall>x. x \<notin> set rs \<longrightarrow> h' x = ?h x"
        "\<forall>x \<in> set rs. (h' x = None \<longleftrightarrow> ?h x = None) \<and> (\<forall>patch. h' x = Some patch \<longrightarrow> transforms patch 0 0 (base x) T')"
      using Cons.IH [OF prem] unfolding eq by blast
    then show ?thesis using Some c Cons.prems(1) by (intro exI [of _ h']) auto
  qed
qed simp

lemma publish_loop_cells:
  "publish_loop edits rs h = Some (kept, h') \<Longrightarrow> h r \<noteq> None \<Longrightarrow> h' r \<noteq> None"
proof (induction rs arbitrary: h kept)
  case (Cons a rs)
  show ?case
  proof (cases "h a")
    case None
    then show ?thesis using Cons by simp
  next
    case (Some patch)
    then obtain patch' kept' where "publish_loop edits rs (h(a := Some patch')) = Some (kept', h')"
      using Cons.prems(1) by (auto simp: bind_eq_Some_conv)
    then show ?thesis using Cons.IH Cons.prems(2) by (cases "a = r") auto
  qed
qed simp

lemma publish_keeps_cells: "publish s edits = Some s' \<Longrightarrow> cells s r \<noteq> None \<Longrightarrow> cells s' r \<noteq> None"
  by (auto simp: publish_def bind_eq_Some_conv dest: publish_loop_cells [where r = r])

lemma publish_tracking:
  assumes "tracking s T base" "transforms edits 0 0 T T'"
  shows "\<exists>s'. publish s edits = Some s' \<and> tracking s' T' base \<and> topic s' = filter (\<lambda>r. cells s r \<noteq> None) (topic s)"
proof -
  have "\<forall>r \<in> set (topic s). \<forall>patch. cells s r = Some patch \<longrightarrow> transforms patch 0 0 (base r) T" "distinct (topic s)"
    using assms(1) by (simp_all add: tracking_def)
  then obtain h' where h': "publish_loop edits (topic s) (cells s) = Some (filter (\<lambda>r. cells s r \<noteq> None) (topic s), h')"
      "\<forall>r. r \<notin> set (topic s) \<longrightarrow> h' r = cells s r"
      "\<forall>r \<in> set (topic s). (h' r = None \<longleftrightarrow> cells s r = None) \<and>
        (\<forall>patch. h' r = Some patch \<longrightarrow> transforms patch 0 0 (base r) T')"
    using publish_loop_spec [OF assms(2)] by blast
  have live: "r \<in> set (topic s) \<and> cells s r \<noteq> None \<and> transforms patch 0 0 (base r) T'" if "h' r = Some patch" for r patch
  proof (cases "r \<in> set (topic s)")
    case True
    then show ?thesis using h'(3) that by force
  next
    case False
    then have "cells s r = Some patch" using h'(2) that by simp
    then show ?thesis using trackingD [OF assms(1)] False by blast
  qed
  have "tracking (s\<lparr>topic := filter (\<lambda>r. cells s r \<noteq> None) (topic s), cells := h'\<rparr>) T' base"
    unfolding tracking_def using live assms(1) by (simp add: tracking_def del: not_None_eq)
  then show ?thesis using h'(1) by (simp add: publish_def)
qed

lemma history_tracking: "history s T base \<Longrightarrow> tracking s T base"
proof (induction rule: history.induct)
  case (history_start T base)
  then show ?case by (simp add: tracking_def topic_default_def)
next
  case (history_subscribe s T base r s')
  then show ?case by (auto simp: tracking_def subscribe_def patch_empty_def less_Suc_eq)
next
  case (history_publish s T base edits T' s')
  then show ?case using publish_tracking by fastforce
next
  case (history_consume s T base r patch s')
  then show ?case by (auto simp: tracking_def consume_def patch_empty_def)
next
  case (history_drop s T base r)
  then show ?case by (auto simp: tracking_def drop_subscription_def)
qed

subsection \<open>Properties\<close>

text \<open>C24 (subscribers_miss_nothing): after any history of subscribing, publishing, consuming and dropping, publishing
  edits of the current text does not panic and drops exactly the dead references, and a subscriber that then consumes gets one patch that
  turns the text it last saw into the current one.\<close>

theorem subscribers_miss_nothing:
  assumes "history s T base" "transforms edits 0 0 T T'"
  shows "\<exists>s'. publish s edits = Some s' \<and> topic s' = filter (\<lambda>r. cells s r \<noteq> None) (topic s) \<and>
    (\<forall>r. cells s r \<noteq> None \<longrightarrow> (\<exists>patch s''. consume s' r = Some (patch, s'') \<and> transforms patch 0 0 (base r) T'))"
proof -
  obtain s' where s': "publish s edits = Some s'" "tracking s' T' base" "topic s' = filter (\<lambda>r. cells s r \<noteq> None) (topic s)"
    using publish_tracking [OF history_tracking [OF assms(1)] assms(2)] by blast
  have "cells s' r \<noteq> None" if "cells s r \<noteq> None" for r
    using publish_keeps_cells [OF s'(1)] that by blast
  then show ?thesis using s' trackingD [OF s'(2)] by (fastforce simp: consume_def)
qed

theorem subscribers_miss_nothing_witness:
  "\<exists>s'. publish (snd (subscribe topic_default)) [mk_edit 1 1 1 3] = Some s' \<and>
    topic s' = filter (\<lambda>r. cells (snd (subscribe topic_default)) r \<noteq> None) (topic (snd (subscribe topic_default))) \<and>
    (\<forall>r. cells (snd (subscribe topic_default)) r \<noteq> None \<longrightarrow>
      (\<exists>patch s''. consume s' r = Some (patch, s'') \<and> transforms patch 0 0 (((\<lambda>_. ''ab'')(0 := ''ab'')) r) ''axyb''))"
proof (rule subscribers_miss_nothing)
  show "history (snd (subscribe topic_default)) ''ab'' ((\<lambda>_. ''ab'')(0 := ''ab''))"
    by (rule history_subscribe [OF history_start]) (simp add: subscribe_def topic_default_def)
  show "transforms [mk_edit 1 1 1 3] 0 0 ''ab'' ''axyb''" by code_simp
qed

end
