(* ===== verification/Network.thy ===== *)
theory Network
  imports Clock "HOL-Library.Multiset" "HOL-Library.Sublist"
begin

text \<open>
  \<open>crates/text/src/network.rs\<close>: the network between replicas that the convergence tests run on. It duplicates and
  reorders messages. The random generator is a parameter: \<open>rnd lo hi r\<close> stands for \<open>rng.random_range(lo..hi)\<close> in
  generator state \<open>r\<close>. The map of inboxes is a list of its entries in key order, the order in which \<open>BTreeMap\<close>
  iterates; \<open>None\<close> is a panic.
\<close>

subsection \<open>State\<close>

type_synonym 'r random = "nat \<Rightarrow> nat \<Rightarrow> 'r \<Rightarrow> nat \<times> 'r"

record ('m, 'r) network =
  inboxes :: "(replica_id \<times> 'm list) list"
  disconnected_peers :: "replica_id set"
  rng :: 'r

text \<open>What \<open>random_range\<close> documents: the result lies in the half-open range.\<close>

definition in_range :: "'r random \<Rightarrow> bool" where
  "in_range rnd \<longleftrightarrow> (\<forall>lo hi r. lo < hi \<longrightarrow> lo \<le> fst (rnd lo hi r) \<and> fst (rnd lo hi r) < hi)"

fun inbox_insert :: "replica_id \<Rightarrow> 'v \<Rightarrow> (replica_id \<times> 'v) list \<Rightarrow> (replica_id \<times> 'v) list" where
  "inbox_insert k v [] = [(k, v)]"
| "inbox_insert k v ((k', v') # xs) =
     (if k < k' then (k, v) # (k', v') # xs
      else if k = k' then (k, v) # xs
      else (k', v') # inbox_insert k v xs)"

subsection \<open>Peers\<close>

definition network_new :: "'r \<Rightarrow> ('m, 'r) network" where
  "network_new r = \<lparr>inboxes = [], disconnected_peers = {}, rng = r\<rparr>"

definition add_peer :: "('m, 'r) network \<Rightarrow> replica_id \<Rightarrow> ('m, 'r) network" where
  "add_peer n i = n\<lparr>inboxes := inbox_insert i [] (inboxes n)\<rparr>"

definition disconnect_peer :: "('m, 'r) network \<Rightarrow> replica_id \<Rightarrow> ('m, 'r) network option" where
  "disconnect_peer n i =
     (case map_of (inboxes n) i of
        None \<Rightarrow> None
      | Some _ \<Rightarrow> Some (n\<lparr>disconnected_peers := insert i (disconnected_peers n), inboxes := inbox_insert i [] (inboxes n)\<rparr>))"

definition replicate_peer :: "('m, 'r) network \<Rightarrow> replica_id \<Rightarrow> replica_id \<Rightarrow> ('m, 'r) network option" where
  "replicate_peer n old_id new_id =
     map_option (\<lambda>inbox. n\<lparr>inboxes := inbox_insert new_id inbox (inboxes n)\<rparr>) (map_of (inboxes n) old_id)"

definition reconnect_peer :: "('m, 'r) network \<Rightarrow> replica_id \<Rightarrow> replica_id \<Rightarrow> ('m, 'r) network option" where
  "reconnect_peer n i replicate_from =
     (if i \<in> disconnected_peers n
      then replicate_peer (n\<lparr>disconnected_peers := disconnected_peers n - {i}\<rparr>) replicate_from i
      else None)"

definition is_disconnected :: "('m, 'r) network \<Rightarrow> replica_id \<Rightarrow> bool" where
  "is_disconnected n i \<longleftrightarrow> i \<in> disconnected_peers n"

definition contains_disconnected_peers :: "('m, 'r) network \<Rightarrow> bool" where
  "contains_disconnected_peers n \<longleftrightarrow> disconnected_peers n \<noteq> {}"

definition is_idle :: "('m, 'r) network \<Rightarrow> bool" where
  "is_idle n \<longleftrightarrow> (\<forall>(_, inbox) \<in> set (inboxes n). inbox = [])"

subsection \<open>Messages\<close>

definition vec_insert :: "nat \<Rightarrow> 'a \<Rightarrow> 'a list \<Rightarrow> 'a list option" where
  "vec_insert i x xs = (if i \<le> length xs then Some (take i xs @ x # drop i xs) else None)"

text \<open>The three loops of \<open>broadcast\<close>, innermost first: the copies of one message, the messages, the inboxes.\<close>

fun insert_copies :: "'r random \<Rightarrow> nat \<Rightarrow> 'm \<Rightarrow> 'm list \<Rightarrow> 'r \<Rightarrow> ('m list \<times> 'r) option" where
  "insert_copies rnd 0 m inbox r = Some (inbox, r)"
| "insert_copies rnd (Suc c) m inbox r =
     (let (i, r') = rnd 0 (length inbox + 1) r
      in Option.bind (vec_insert i m inbox) (\<lambda>inbox'. insert_copies rnd c m inbox' r'))"

fun insert_messages :: "'r random \<Rightarrow> 'm list \<Rightarrow> 'm list \<Rightarrow> 'r \<Rightarrow> ('m list \<times> 'r) option" where
  "insert_messages rnd [] inbox r = Some (inbox, r)"
| "insert_messages rnd (m # ms) inbox r =
     (let (c, r') = rnd 1 4 r
      in Option.bind (insert_copies rnd c m inbox r') (\<lambda>(inbox', r''). insert_messages rnd ms inbox' r''))"

fun insert_into_inboxes ::
  "'r random \<Rightarrow> replica_id \<Rightarrow> replica_id set \<Rightarrow> 'm list \<Rightarrow> (replica_id \<times> 'm list) list \<Rightarrow> 'r
     \<Rightarrow> ((replica_id \<times> 'm list) list \<times> 'r) option" where
  "insert_into_inboxes rnd sender gone ms [] r = Some ([], r)"
| "insert_into_inboxes rnd sender gone ms ((i, inbox) # rest) r =
     Option.bind (if i \<noteq> sender \<and> i \<notin> gone then insert_messages rnd ms inbox r else Some (inbox, r)) (\<lambda>(inbox', r').
     Option.bind (insert_into_inboxes rnd sender gone ms rest r') (\<lambda>(rest', r'').
       Some ((i, inbox') # rest', r'')))"

definition broadcast :: "'r random \<Rightarrow> ('m, 'r) network \<Rightarrow> replica_id \<Rightarrow> 'm list \<Rightarrow> ('m, 'r) network option" where
  "broadcast rnd n sender ms =
     (if sender \<in> disconnected_peers n then Some n
      else Option.bind (insert_into_inboxes rnd sender (disconnected_peers n) ms (inboxes n) (rng n)) (\<lambda>(boxes, r).
        Some (n\<lparr>inboxes := boxes, rng := r\<rparr>)))"

definition has_unreceived :: "('m, 'r) network \<Rightarrow> replica_id \<Rightarrow> bool option" where
  "has_unreceived n i = map_option (\<lambda>inbox. inbox \<noteq> []) (map_of (inboxes n) i)"

definition receive :: "'r random \<Rightarrow> ('m, 'r) network \<Rightarrow> replica_id \<Rightarrow> ('m list \<times> ('m, 'r) network) option" where
  "receive rnd n i =
     Option.bind (map_of (inboxes n) i) (\<lambda>inbox.
       let (c, r) = rnd 0 (length inbox + 1) (rng n)
       in if c \<le> length inbox
          then Some (take c inbox, n\<lparr>inboxes := inbox_insert i (drop c inbox) (inboxes n), rng := r\<rparr>)
          else None)"

subsection \<open>Lemmas\<close>

lemma map_of_inbox_insert: "sorted_wrt (<) (map fst xs) \<Longrightarrow> map_of (inbox_insert k v xs) = (map_of xs)(k \<mapsto> v)"
  by (induction k v xs rule: inbox_insert.induct) (auto simp: fun_eq_iff)

lemma keys_inbox_insert: "set (map fst (inbox_insert k v xs)) = insert k (set (map fst xs))"
  by (induction k v xs rule: inbox_insert.induct) auto

lemma sorted_inbox_insert: "sorted_wrt (<) (map fst xs) \<Longrightarrow> sorted_wrt (<) (map fst (inbox_insert k v xs))"
proof (induction k v xs rule: inbox_insert.induct)
  case (2 k v k' v' xs)
  then show ?case using keys_inbox_insert [of k v xs] by (auto simp del: set_map)
qed simp

lemma in_rangeD: "in_range rnd \<Longrightarrow> rnd lo hi r = (x, r') \<Longrightarrow> lo < hi \<Longrightarrow> lo \<le> x \<and> x < hi"
  unfolding in_range_def by (metis fst_conv)

lemma subseq_insert: "subseq xs (take i xs @ x # drop i xs)"
  using list_emb_append_mono [of "(=)" "take i xs" "take i xs" "drop i xs" "x # drop i xs"] by (simp add: list_emb_Cons)

lemma insert_copies_spec:
  assumes "in_range rnd"
  shows "\<exists>box' r'. insert_copies rnd c m box r = Some (box', r') \<and> mset box' = mset box + replicate_mset c m \<and> subseq box box'"
proof (induction c arbitrary: box r)
  case (Suc c)
  obtain i r1 where i: "rnd 0 (length box + 1) r = (i, r1)" by (cases "rnd 0 (length box + 1) r")
  with in_rangeD [OF assms] have le: "i \<le> length box" by force
  let ?box = "take i box @ m # drop i box"
  obtain box' r' where "insert_copies rnd c m ?box r1 = Some (box', r')"
      "mset box' = mset ?box + replicate_mset c m" "subseq ?box box'"
    using Suc by blast
  moreover have "mset ?box = add_mset m (mset box)" using mset_append [of "take i box" "drop i box"] by simp
  moreover from calculation(3) have "subseq box box'" by (rule subseq_order.trans [OF subseq_insert])
  ultimately show ?case using i le by (simp add: vec_insert_def)
qed simp

text \<open>Between one and three copies of every message.\<close>

definition delivered :: "'m list \<Rightarrow> 'm list \<Rightarrow> 'm list \<Rightarrow> bool" where
  "delivered ms box box' \<longleftrightarrow>
     mset box + mset ms \<subseteq># mset box' \<and> mset box' \<subseteq># mset box + repeat_mset 3 (mset ms) \<and> subseq box box'"

lemma insert_messages_spec:
  assumes "in_range rnd"
  shows "\<exists>box' r'. insert_messages rnd ms box r = Some (box', r') \<and> delivered ms box box'"
proof (induction ms arbitrary: box r)
  case Nil
  then show ?case by (simp add: delivered_def)
next
  case (Cons m ms)
  obtain c r1 where c: "rnd 1 4 r = (c, r1)" by (cases "rnd 1 4 r")
  then have bounds: "1 \<le> c" "c < 4" using in_rangeD [OF assms c] by simp_all
  obtain box1 r2 where 1: "insert_copies rnd c m box r1 = Some (box1, r2)"
      "mset box1 = mset box + replicate_mset c m" "subseq box box1"
    using insert_copies_spec [OF assms, of c m box r1] by auto
  obtain box' r' where 2: "insert_messages rnd ms box1 r2 = Some (box', r')" "delivered ms box1 box'"
    using Cons by blast
  have "mset box + mset (m # ms) \<subseteq># mset box1 + mset ms"
    using bounds(1) 1(2) by (simp add: subseteq_mset_def)
  moreover have "mset box1 + repeat_mset 3 (mset ms) \<subseteq># mset box + repeat_mset 3 (mset (m # ms))"
    using bounds(2) 1(2) by (simp add: subseteq_mset_def)
  moreover have "mset box1 + mset ms \<subseteq># mset box'" "mset box' \<subseteq># mset box1 + repeat_mset 3 (mset ms)" "subseq box1 box'"
    using 2(2) by (simp_all add: delivered_def)
  ultimately have "delivered (m # ms) box box'"
    unfolding delivered_def using subset_mset.trans subseq_order.trans [OF 1(3)] by metis
  then show ?case using c 1(1) 2(1) by simp
qed

lemma insert_into_inboxes_spec:
  assumes "in_range rnd"
  shows "\<exists>boxes' r'. insert_into_inboxes rnd sender gone ms boxes r = Some (boxes', r') \<and>
    list_all2 (\<lambda>(i, box) (i', box'). i' = i \<and> (if i \<noteq> sender \<and> i \<notin> gone then delivered ms box box' else box' = box)) boxes boxes'"
proof (induction boxes arbitrary: r)
  case (Cons b boxes)
  obtain i box where b: "b = (i, box)" by (cases b)
  obtain box' r1 where 1: "(if i \<noteq> sender \<and> i \<notin> gone then insert_messages rnd ms box r else Some (box, r)) = Some (box', r1)"
      "if i \<noteq> sender \<and> i \<notin> gone then delivered ms box box' else box' = box"
    using insert_messages_spec [OF assms, of ms box r] by (cases "i \<noteq> sender \<and> i \<notin> gone") auto
  with Cons [of r1] b show ?case by (auto split del: if_split)
qed simp

lemma map_of_list_all2:
  "list_all2 (\<lambda>(i, x) (i', y). i' = i \<and> P i x y) xs ys \<Longrightarrow>
    (case map_of xs k of None \<Rightarrow> map_of ys k = None | Some x \<Rightarrow> \<exists>y. map_of ys k = Some y \<and> P k x y)"
  by (induction rule: list_all2_induct) (auto split: option.splits)

subsection \<open>Properties\<close>

text \<open>Fact (broadcast_delivers): a broadcast never panics and keeps the set of peers; every connected peer other than the sender
  gets each message between one and three times and keeps what it had queued in order; all other inboxes stay as
  they are, and a disconnected sender reaches nobody.\<close>

theorem broadcast_delivers:
  assumes "in_range rnd"
  shows "\<exists>n'. broadcast rnd n sender ms = Some n' \<and> disconnected_peers n' = disconnected_peers n \<and>
    (case map_of (inboxes n) i of
       None \<Rightarrow> map_of (inboxes n') i = None
     | Some box \<Rightarrow> \<exists>box'. map_of (inboxes n') i = Some box' \<and>
         (if i \<noteq> sender \<and> i \<notin> disconnected_peers n \<and> sender \<notin> disconnected_peers n
          then mset box + mset ms \<subseteq># mset box' \<and> mset box' \<subseteq># mset box + repeat_mset 3 (mset ms) \<and> subseq box box'
          else box' = box))"
proof (cases "sender \<in> disconnected_peers n")
  case True
  then show ?thesis by (auto simp: broadcast_def split: option.splits)
next
  case False
  obtain boxes' r' where b: "insert_into_inboxes rnd sender (disconnected_peers n) ms (inboxes n) (rng n) = Some (boxes', r')"
      "list_all2 (\<lambda>(i, box) (i', box'). i' = i \<and>
        (if i \<noteq> sender \<and> i \<notin> disconnected_peers n then delivered ms box box' else box' = box)) (inboxes n) boxes'"
    using insert_into_inboxes_spec [OF assms] by blast
  show ?thesis using map_of_list_all2 [OF b(2), of i] b(1) False
    by (auto simp: broadcast_def delivered_def split: option.splits)
qed

definition counting_rng :: "nat random" where
  "counting_rng lo hi r = (lo + r mod (hi - lo), Suc r)"

theorem broadcast_delivers_witness:
  "\<exists>n'. broadcast counting_rng (add_peer (add_peer (network_new 3) 8) 9) 8 [True, False] = Some n' \<and> disconnected_peers n' = {} \<and>
    (\<exists>box'. map_of (inboxes n') 9 = Some box' \<and> mset [True, False] \<subseteq># mset box')"
proof -
  have "in_range counting_rng" 
    unfolding in_range_def counting_rng_def
    by (metis add.commute diff_add_inverse fst_conv le_add1 less_diff_conv mod_less_divisor zero_less_diff)
  from broadcast_delivers [OF this, of "add_peer (add_peer (network_new 3) 8) 9" 8 "[True, False]" 9]
  show ?thesis by (auto simp: add_peer_def network_new_def)
qed

end
