(* ===== verification/Bitmap.thy ===== *)
theory Bitmap
  imports Editor_Prelude
begin

text \<open>
  Bitmaps as \<open>crates/rope/src/chunk.rs\<close> uses them: the bit operations of Rust's unsigned integers, the masks of
  \<open>saturating_shl_mask\<close> and \<open>saturating_shr_mask\<close>, and what they compute when a bitmap is read as the list
  of its marks, lowest bit first.
\<close>

unbundle bit_operations_syntax

subsection \<open>Operations of the standard library\<close>

definition count_ones :: "'a::len word \<Rightarrow> nat" where
  "count_ones w = length (filter (bit w) [0..<LENGTH('a)])"

definition trailing_zeros :: "'a::len word \<Rightarrow> nat" where
  "trailing_zeros w = length (takeWhile (\<lambda>i. \<not> bit w i) [0..<LENGTH('a)])"

definition leading_zeros :: "'a::len word \<Rightarrow> nat" where
  "leading_zeros w = length (takeWhile (\<lambda>i. \<not> bit w i) (rev [0..<LENGTH('a)]))"

text \<open>\<open>push_bit\<close> and \<open>drop_bit\<close> are \<open>unbounded_shl\<close> and \<open>unbounded_shr\<close>: shifting by the width or more gives zero.\<close>

definition saturating_shl_mask :: "nat \<Rightarrow> 'a::len word" where
  "saturating_shl_mask n = push_bit n 1 - 1"

definition saturating_shr_mask :: "nat \<Rightarrow> 'a::len word" where
  "saturating_shr_mask n = NOT (drop_bit n (- 1))"

lemma unat_drop_bit: "unat (drop_bit n (w :: 'a::len word)) = unat w div 2 ^ n"
proof -
  have "take_bit LENGTH('a) (unat w) = unat w" by (rule take_bit_nat_eq_self) (rule unsigned_less)
  then show ?thesis by (simp only: unsigned_drop_bit_eq drop_bit_eq_div [of _ "_ :: nat"])
qed

lemma unat_drop_bit_less: "0 < w \<Longrightarrow> 0 < n \<Longrightarrow> unat (drop_bit n w) < unat w"
  using one_less_power [of "2 :: nat" n] unfolding unat_drop_bit by (intro div_less_dividend) (simp_all add: word_less_nat_alt)

subsection \<open>Bitmaps as lists of marks\<close>

definition of_bits :: "bool list \<Rightarrow> 'a::len word" where
  "of_bits m = horner_sum of_bool 2 m"

definition count_true :: "bool list \<Rightarrow> nat" where
  "count_true m = length (filter id m)"

lemma count_true_simps [simp]:
  "count_true [] = 0" "count_true (b # m) = of_bool b + count_true m"
  "count_true (m @ m') = count_true m + count_true m'"
  by (simp_all add: count_true_def)

lemma count_true_map: "count_true (map p xs) = length (filter p xs)"
  by (induction xs) auto

lemma count_true_le: "count_true m \<le> length m"
  by (simp add: count_true_def)

lemma bit_of_bits [bit_simps]: "bit (of_bits m :: 'a::len word) i \<longleftrightarrow> i < LENGTH('a) \<and> i < length m \<and> m ! i"
  by (auto simp: of_bits_def bit_simps)

lemma of_bits_Nil [simp]: "of_bits [] = 0"
  by (simp add: of_bits_def)

lemma of_bits_eq_0_iff: "length m \<le> LENGTH('a) \<Longrightarrow> (of_bits m :: 'a::len word) = 0 \<longleftrightarrow> True \<notin> set m"
  by (auto simp: bit_eq_iff bit_simps in_set_conv_nth)

lemma shl_mask_eq: "saturating_shl_mask n = (mask n :: 'a::len word)"
  by (simp add: saturating_shl_mask_def mask_eq_exp_minus_1 push_bit_eq_mult)

lemma of_bits_and_mask: "of_bits m AND mask n = of_bits (take n m)"
  by (rule bit_word_eqI) (auto simp: bit_simps)

lemma drop_bit_of_bits: "length m \<le> LENGTH('a) \<Longrightarrow> drop_bit n (of_bits m :: 'a::len word) = of_bits (drop n m)"
  by (rule bit_word_eqI) (auto simp: bit_simps)

lemma of_bits_append: "of_bits a OR push_bit (length a) (of_bits b) = (of_bits (a @ b) :: 'a::len word)"
  by (rule bit_word_eqI) (auto simp: bit_simps nth_append)

lemma of_bits_or: "length a = length b \<Longrightarrow> of_bits a OR of_bits b = of_bits (map2 (\<or>) a b)"
  by (rule bit_word_eqI) (auto simp: bit_simps)

lemma push_bit_of_bits: "push_bit n (of_bits m) = of_bits (replicate n False @ m)"
  by (rule bit_word_eqI) (auto simp: bit_simps nth_append)

lemma of_bits_pad: "of_bits (m @ replicate n False) = of_bits m"
  by (rule bit_word_eqI) (auto simp: bit_simps nth_append)

lemma filter_nth_upt: "map ((!) m) [0..<length m] = m"
  by (rule map_nth)

lemma bit_of_bits_upt:
  assumes "length m \<le> LENGTH('a)"
  shows "map (bit (of_bits m :: 'a::len word)) [0..<LENGTH('a)] = m @ replicate (LENGTH('a) - length m) False"
  using assms by (intro nth_equalityI) (auto simp: bit_of_bits nth_append)

lemma count_ones_of_bits:
  assumes "length m \<le> LENGTH('a)"
  shows "count_ones (of_bits m :: 'a::len word) = count_true m"
proof -
  have "count_ones (of_bits m :: 'a word) = count_true (map (bit (of_bits m :: 'a word)) [0..<LENGTH('a)])"
    by (simp add: count_ones_def count_true_map)
  then show ?thesis using assms by (simp add: bit_of_bits_upt count_true_def)
qed

lemma takeWhile_Not_replicate: "takeWhile Not (xs @ replicate n False) = (if True \<in> set xs then takeWhile Not xs else xs @ replicate n False)"
  by (induction xs) auto

lemma length_takeWhile_Not: "True \<in> set xs \<Longrightarrow> length (takeWhile Not xs) < length xs"
  by (induction xs) auto

lemma length_takeWhile_map: "length (takeWhile (\<lambda>x. \<not> f x) xs) = length (takeWhile Not (map f xs))"
  by (induction xs) auto

lemma trailing_zeros_of_bits:
  assumes "length m \<le> LENGTH('a)"
  shows "trailing_zeros (of_bits m :: 'a::len word) = (if True \<in> set m then length (takeWhile Not m) else LENGTH('a))"
  using assms by (simp add: trailing_zeros_def length_takeWhile_map [of "bit _"] bit_of_bits_upt takeWhile_Not_replicate)

lemma leading_zeros_of_bits:
  assumes "length m \<le> LENGTH('a)"
  shows "leading_zeros (of_bits m :: 'a::len word) = LENGTH('a) - length m + length (takeWhile Not (rev m))"
proof -
  have "rev (map (bit (of_bits m :: 'a word)) [0..<LENGTH('a)]) = replicate (LENGTH('a) - length m) False @ rev m"
    using assms by (simp add: bit_of_bits_upt)
  moreover have "takeWhile Not (replicate k False @ xs) = replicate k False @ takeWhile Not xs" for k xs
    by (induction k) auto
  ultimately show ?thesis
    by (simp add: leading_zeros_def length_takeWhile_map [of "bit _"] rev_map)
qed

text \<open>The mask of the top \<open>k\<close> bits leaves the marks from \<open>LENGTH('a) - k\<close> on.\<close>

lemma count_ones_shr_mask:
  assumes "length m \<le> LENGTH('a)" "k \<le> LENGTH('a)"
  shows "count_ones (of_bits m AND saturating_shr_mask k :: 'a::len word) = count_true (drop (LENGTH('a) - k) m)"
proof -
  have "of_bits m AND saturating_shr_mask k = (of_bits (replicate (min (LENGTH('a) - k) (length m)) False @ drop (LENGTH('a) - k) m) :: 'a word)"
    by (rule bit_word_eqI) (auto simp: saturating_shr_mask_def bit_simps nth_append)
  then show ?thesis using assms by (simp add: count_ones_of_bits count_true_def)
qed

subsection \<open>The n-th mark\<close>

text \<open>The position of the \<open>n\<close>-th mark, counted from one; what \<open>nth_set_bit\<close> computes.\<close>

fun nth_mark :: "bool list \<Rightarrow> nat \<Rightarrow> nat" where
  "nth_mark [] n = 0"
| "nth_mark (b # m) n = (if b \<and> n = 1 then 0 else Suc (nth_mark m (n - of_bool b)))"

lemma nth_mark_props:
  assumes "0 < n" "n \<le> count_true m"
  shows "nth_mark m n < length m \<and> m ! nth_mark m n \<and> count_true (take (nth_mark m n) m) = n - 1"
  using assms
proof (induction m n rule: nth_mark.induct)
  case (2 b m n)
  show ?case
  proof (cases "b \<and> n = 1")
    case False
    then have "0 < n - of_bool b" "n - of_bool b \<le> count_true m" using 2 by (auto split: if_splits)
    then show ?thesis using 2 False by (auto split: if_splits)
  qed simp
qed simp

lemma count_true_take_Suc: "i < length m \<Longrightarrow> count_true (take (Suc i) m) = count_true (take i m) + of_bool (m ! i)"
  by (simp add: take_Suc_conv_app_nth)

lemma count_true_take_mono: "i \<le> j \<Longrightarrow> count_true (take i m) \<le> count_true (take j m)"
  by (metis count_true_simps(3) le_add1 le_add_diff_inverse take_add)

lemma nth_mark_unique:
  assumes "0 < n" "i < length m" "m ! i" "count_true (take i m) = n - 1"
  shows "nth_mark m n = i"
proof -
  have "n \<le> count_true m" using assms count_true_take_Suc [of i m] count_true_take_mono [of "Suc i" "length m" m] by simp
  then have nm: "nth_mark m n < length m" "m ! nth_mark m n" "count_true (take (nth_mark m n) m) = n - 1"
    using nth_mark_props [OF assms(1)] by auto
  have False if "i < nth_mark m n"
    using count_true_take_mono [of "Suc i" "nth_mark m n" m] that nm assms count_true_take_Suc [of i m] by simp
  moreover have False if "nth_mark m n < i"
    using count_true_take_mono [of "Suc (nth_mark m n)" i m] that nm assms count_true_take_Suc [of "nth_mark m n" m] by simp
  ultimately show ?thesis by (metis linorder_neqE_nat)
qed

end
