(* ===== verification/Nth_Set_Bit.thy ===== *)
theory Nth_Set_Bit
  imports Bitmap
begin

text \<open>
  \<open>nth_set_bit\<close> and \<open>nth_set_bit_u64\<close> of \<open>crates/rope/src/chunk.rs\<close>: a branch-free search for the \<open>n\<close>-th set bit that
  counts bits in parallel in ever wider lanes of a word, and the proof that it finds the \<open>n\<close>-th mark.
\<close>

type_synonym u128 = "128 word"

subsection \<open>The code\<close>

text \<open>One selection: \<open>s -= (t.wrapping_sub(n) & 256) >> sh; n -= t & (t.wrapping_sub(n) >> 8)\<close>.\<close>

definition select_step :: "u64 \<Rightarrow> nat \<Rightarrow> u64 \<times> u64 \<Rightarrow> u64 \<times> u64" where
  "select_step t sh = (\<lambda>(s, n). (s - drop_bit sh ((t - n) AND 256), n - (t AND drop_bit 8 (t - n))))"

definition nth_set_bit_u64 :: "u64 \<Rightarrow> u64 \<Rightarrow> u64" where
  "nth_set_bit_u64 v0 n0 =
     (let v = word_reverse v0;
          a = v - (drop_bit 1 v AND (- 1 div 3));
          b = (a AND (- 1 div 5)) + (drop_bit 2 a AND (- 1 div 5));
          c = (b + drop_bit 4 b) AND (- 1 div 0x11);
          d = (c + drop_bit 8 c) AND (- 1 div 0x101);
          (s, n) = select_step (drop_bit 32 d + drop_bit 48 d) 3 (64, n0);
          (s, n) = select_step (drop_bit (unat (s - 16)) d AND 0xff) 4 (s, n);
          (s, n) = select_step (drop_bit (unat (s - 8)) c AND 0xf) 5 (s, n);
          (s, n) = select_step (drop_bit (unat (s - 4)) b AND 0x7) 6 (s, n);
          (s, n) = select_step (drop_bit (unat (s - 2)) a AND 0x3) 7 (s, n);
          (s, n) = select_step (drop_bit (unat (s - 1)) v AND 0x1) 8 (s, n)
      in 65 - s - 1)"

definition nth_set_bit :: "u128 \<Rightarrow> nat \<Rightarrow> nat" where
  "nth_set_bit v n =
     (let low = ucast v :: u64;
          high = ucast (drop_bit 64 v) :: u64;
          low_count = count_ones low
      in if n > low_count then 64 + unat (nth_set_bit_u64 high (of_nat (n - low_count)))
         else unat (nth_set_bit_u64 low (of_nat n)))"

subsection \<open>Lanes\<close>

text \<open>Adding numbers digit by digit when no digit overflows.\<close>

lemma digits_mod_add:
  fixes X Y B :: nat
  assumes "\<And>k. X div B ^ k mod B + Y div B ^ k mod B < B"
  shows "X mod B ^ k + Y mod B ^ k < B ^ k"
proof (induction k)
  case (Suc k)
  have split: "Z mod B ^ Suc k = B ^ k * (Z div B ^ k mod B) + Z mod B ^ k" for Z
    using mod_mult2_eq [of Z "B ^ k" B] by (simp add: mult.commute)
  have "X mod B ^ Suc k + Y mod B ^ Suc k = B ^ k * (X div B ^ k mod B + Y div B ^ k mod B) + (X mod B ^ k + Y mod B ^ k)"
    by (simp only: split distrib_left add_ac)
  also have "\<dots> < B ^ k * (X div B ^ k mod B + Y div B ^ k mod B) + B ^ k" using Suc by simp
  also have "\<dots> = B ^ k * Suc (X div B ^ k mod B + Y div B ^ k mod B)" by simp
  also have "\<dots> \<le> B ^ k * B" using assms [of k] by (intro mult_left_mono) auto
  finally show ?case by (simp add: mult.commute)
qed simp

lemma digits_add:
  fixes X Y B :: nat
  assumes "\<And>k. X div B ^ k mod B + Y div B ^ k mod B < B"
  shows "(X + Y) div B ^ k mod B = X div B ^ k mod B + Y div B ^ k mod B"
proof -
  have "(X + Y) div B ^ k = X div B ^ k + Y div B ^ k"
    using digits_mod_add [OF assms, of k] by (subst div_add1_eq) simp
  then have "(X + Y) div B ^ k mod B = (X div B ^ k mod B + Y div B ^ k mod B) mod B" by (simp add: mod_add_eq)
  then show ?thesis using assms [of k] by simp
qed

definition lane :: "nat \<Rightarrow> u64 \<Rightarrow> nat \<Rightarrow> nat" where
  "lane w x i = unat (take_bit w (drop_bit i x))"

lemma unat_u64: "unat (x :: u64) < 2 ^ 64"
  using unsigned_less [of x, where 'a = nat] by simp

lemma of_nat_unat_u64: "of_nat (unat x) = (x :: u64)"
  by simp

lemma lane_nat: "lane w x i = unat x div 2 ^ i mod 2 ^ w"
  unfolding lane_def unsigned_take_bit_eq unsigned_drop_bit_eq
  using unat_u64 [of x] by (simp only: take_bit_eq_mod [of _ "_ :: nat"] drop_bit_eq_div [of _ "_ :: nat"] mod_less len_num0 len_bit0) simp

lemma lane_add:
  assumes "w dvd 64" "\<And>k. w dvd k \<Longrightarrow> lane w x k + lane w y k < 2 ^ w" "w dvd i"
  shows "lane w (x + y) i = lane w x i + lane w y i"
proof -
  have lane: "lane w z (w * k) = unat z div (2 ^ w) ^ k mod 2 ^ w" for z k
    by (simp add: lane_nat power_mult)
  have small: "unat x div (2 ^ w) ^ k mod 2 ^ w + unat y div (2 ^ w) ^ k mod 2 ^ w < 2 ^ w" for k
    using assms(2) [of "w * k"] by (simp add: lane)
  obtain n where n: "64 = w * n" using assms(1) by blast
  have "unat z mod (2 ^ w) ^ n = unat z" for z :: u64
    using unat_u64 [of z] by (simp flip: power_mult n)
  then have "unat (x + y) = unat x + unat y"
    using digits_mod_add [OF small, of n] by (intro unat_add_lem [THEN iffD1]) (simp flip: power_mult n)
  then show ?thesis using digits_add [OF small] assms(3) lane by (auto elim!: dvdE)
qed

text \<open>The number of set bits in a range.\<close>

definition cnt :: "u64 \<Rightarrow> nat \<Rightarrow> nat \<Rightarrow> nat" where
  "cnt v i h = length (filter (bit v) [i..<i + h])"

lemma cnt_add: "cnt v i (h + h') = cnt v i h + cnt v (i + h) h'"
proof -
  have "[i..<i + (h + h')] = [i..<i + h] @ [i + h..<i + h + h']"
    by (metis add.assoc le_add1 upt_add_eq_append)
  then show ?thesis by (simp add: cnt_def)
qed

lemma cnt_le: "cnt v i h \<le> h"
  unfolding cnt_def by (rule order.trans [OF length_filter_le]) simp

text \<open>\<open>x\<close> holds in its lanes of width \<open>h\<close> the numbers of set bits of \<open>v\<close>.\<close>

definition counts :: "u64 \<Rightarrow> nat \<Rightarrow> u64 \<Rightarrow> bool" where
  "counts v h x \<longleftrightarrow> (\<forall>k. h dvd k \<longrightarrow> lane h x k = cnt v k h)"

definition striped :: "nat \<Rightarrow> u64 \<Rightarrow> bool" where
  "striped h m \<longleftrightarrow> (\<forall>j < 64. bit m j \<longleftrightarrow> j mod (2 * h) < h)"

lemma counts_1: "counts v 1 v"
proof -
  have "lane 1 v k = of_bool (bit v k)" for k
    by (simp add: lane_def take_bit_Suc bit_iff_odd_drop_bit mod2_eq_if)
  then show ?thesis by (simp add: counts_def cnt_def)
qed

lemma striped_lane:
  assumes "striped h m" "2 * h dvd k"
  shows "take_bit (2 * h) (drop_bit k (x AND m)) = take_bit h (drop_bit k x)"
proof (rule bit_word_eqI)
  fix j assume "j < LENGTH(64)"
  have "(k + j) mod (2 * h) = j mod (2 * h)" using assms(2) by (auto elim!: dvdE)
  then show "bit (take_bit (2 * h) (drop_bit k (x AND m))) j \<longleftrightarrow> bit (take_bit h (drop_bit k x)) j"
    using assms(1) bit_imp_le_length [of x "k + j"] by (auto simp: bit_simps striped_def)
qed

lemma counts_masked_add:
  assumes "counts v h x" "striped h m" "2 * h dvd 64" "2 * h < 2 ^ (2 * h)"
  shows "counts v (2 * h) ((x AND m) + (drop_bit h x AND m))"
  unfolding counts_def
proof (intro allI impI)
  have l1: "lane (2 * h) (x AND m) k = cnt v k h" and l2: "lane (2 * h) (drop_bit h x AND m) k = cnt v (k + h) h"
    if "2 * h dvd k" for k
  proof -
    have "h dvd k" using that by auto
    then show "lane (2 * h) (x AND m) k = cnt v k h" "lane (2 * h) (drop_bit h x AND m) k = cnt v (k + h) h"
      using assms(1) striped_lane [OF assms(2) that]
      by (simp_all only: lane_def counts_def drop_bit_drop_bit add.commute [of h] dvd_add_right_iff dvd_refl dvd_add)
  qed
  fix k assume k: "2 * h dvd k"
  have "lane (2 * h) ((x AND m) + (drop_bit h x AND m)) k = lane (2 * h) (x AND m) k + lane (2 * h) (drop_bit h x AND m) k"
  proof (rule lane_add [OF assms(3) _ k])
    fix k assume k: "2 * h dvd k"
    show "lane (2 * h) (x AND m) k + lane (2 * h) (drop_bit h x AND m) k < 2 ^ (2 * h)"
      unfolding l1 [OF k] l2 [OF k] using cnt_le [of v k h] cnt_le [of v "k + h" h] assms(4) by linarith
  qed
  then show "lane (2 * h) ((x AND m) + (drop_bit h x AND m)) k = cnt v k (2 * h)"
    using l1 [OF k] l2 [OF k] cnt_add [of v k h h] by (simp add: mult_2)
qed

lemma counts_add_masked:
  assumes "counts v h x" "striped h m" "h dvd 64" "2 * h < 2 ^ h"
  shows "counts v (2 * h) ((x + drop_bit h x) AND m)"
  unfolding counts_def
proof (intro allI impI)
  have l: "lane h x k = cnt v k h" "lane h (drop_bit h x) k = cnt v (k + h) h" if "h dvd k" for k
    using assms(1) that by (simp_all add: lane_def counts_def add.commute)
  fix k assume k: "2 * h dvd k"
  then have hk: "h dvd k" by auto
  have "lane h (x + drop_bit h x) k = lane h x k + lane h (drop_bit h x) k"
  proof (rule lane_add [OF assms(3) _ hk])
    fix k assume k: "h dvd k"
    show "lane h x k + lane h (drop_bit h x) k < 2 ^ h"
      unfolding l [OF k] using cnt_le [of v k h] cnt_le [of v "k + h" h] assms(4) by linarith
  qed
  then show "lane (2 * h) ((x + drop_bit h x) AND m) k = cnt v k (2 * h)"
    using l [OF hk] cnt_add [of v k h h] striped_lane [OF assms(2) k] by (simp add: lane_def mult_2)
qed

lemma striped_consts:
  "striped 1 (- 1 div 3)" "striped 2 (- 1 div 5)" "striped 4 (- 1 div 0x11)" "striped 8 (- 1 div 0x101)"
proof -
  have *: "striped h m" if "\<forall>j \<in> set [0..<64]. bit m j \<longleftrightarrow> j mod (2 * h) < h" for h m
    using that by (simp add: striped_def)
  show "striped 1 (- 1 div 3)" "striped 2 (- 1 div 5)" "striped 4 (- 1 div 0x11)" "striped 8 (- 1 div 0x101)"
    by (rule *, code_simp)+
qed

text \<open>The first lane is computed with a subtraction.\<close>

lemma pairs_eq: "v - (drop_bit 1 v AND m) = (v AND m) + (drop_bit 1 v AND m)" if "striped 1 m" for v m :: u64
proof -
  have "v = (v AND m) + (v AND NOT m)"
    by (simp add: disjunctive_add_eq_or bit_eq_iff bit_simps) blast
  moreover have "v AND NOT m = push_bit 1 (drop_bit 1 v AND m)"
  proof (rule bit_word_eqI)
    fix j assume j: "j < LENGTH(64)"
    show "bit (v AND NOT m) j \<longleftrightarrow> bit (push_bit 1 (drop_bit 1 v AND m)) j"
    proof (cases j)
      case 0
      then show ?thesis using that by (simp only: bit_push_bit_iff bit_and_iff bit_not_iff striped_def) simp
    next
      case (Suc i)
      then have "bit m j \<longleftrightarrow> j mod 2 < 1" "bit m i \<longleftrightarrow> i mod 2 < 1" using that j by (simp_all add: striped_def)
      moreover have "bit (push_bit 1 (drop_bit 1 v AND m)) j \<longleftrightarrow> bit v j \<and> bit m i"
        using Suc j by (simp only: bit_push_bit_iff bit_and_iff bit_drop_bit_eq) simp
      ultimately show ?thesis using Suc j by (auto simp: bit_and_iff bit_not_iff mod_Suc)
    qed
  qed
  ultimately have "v = (v AND m) + ((drop_bit 1 v AND m) + (drop_bit 1 v AND m))" by (simp add: push_bit_eq_mult mult_2_right)
  then have "v - (drop_bit 1 v AND m) = (v AND m) + ((drop_bit 1 v AND m) + (drop_bit 1 v AND m)) - (drop_bit 1 v AND m)"
    by (rule arg_cong)
  then show ?thesis by (simp only: add.assoc [symmetric] add_diff_cancel_right')
qed

subsection \<open>Selection\<close>

lemma bit_nat_bound:
  assumes "bit (t :: nat) j" "t < 2 ^ k"
  shows "j < k"
proof (rule ccontr)
  assume "\<not> j < k"
  then have "(2 :: nat) ^ k \<le> 2 ^ j" by simp
  with assms(2) have "t div 2 ^ j = 0" by (simp only: less_le_trans div_less)
  with assms(1) show False by (simp add: bit_iff_odd)
qed

lemma bit_two_parts:
  assumes "(r :: nat) < 2 ^ k"
  shows "bit (r + 2 ^ k * q) j \<longleftrightarrow> (if j < k then bit r j else bit q (j - k))"
proof (cases "j < k")
  case True
  have eq: "2 ^ k * q = 2 ^ j * (2 ^ (k - j) * q)"
    using True power_add [of "2 :: nat" j "k - j"] by (simp add: mult.assoc [symmetric])
  have "(r + 2 ^ k * q) div 2 ^ j = 2 ^ (k - j) * q + r div 2 ^ j"
    unfolding eq by (rule div_mult_self2) simp
  then show ?thesis using True by (simp add: bit_iff_odd)
next
  case False
  then have "(2 :: nat) ^ j = 2 ^ k * 2 ^ (j - k)" by (simp flip: power_add)
  then have "(r + 2 ^ k * q) div 2 ^ j = ((r + 2 ^ k * q) div 2 ^ k) div 2 ^ (j - k)"
    by (simp only: div_mult2_eq)
  then show ?thesis using False assms by (simp add: bit_iff_odd div_mult_self2)
qed

lemma bit_of_nat_u64: "bit (of_nat X :: u64) j \<longleftrightarrow> j < 64 \<and> bit X j"
  by (simp add: bit_of_nat_iff)

lemma and_256: "(w :: u64) AND 256 = (if bit w 8 then 256 else 0)"
proof (rule bit_word_eqI)
  fix j assume "j < LENGTH(64)"
  have "bit (256 :: u64) j \<longleftrightarrow> j = 8" using bit_exp_iff [of 8 j, where 'a = u64] \<open>j < LENGTH(64)\<close> by auto
  then show "bit (w AND 256) j \<longleftrightarrow> bit (if bit w 8 then 256 else 0 :: u64) j" by (auto simp: bit_and_iff)
qed

text \<open>
  A selection compares \<open>t\<close> with \<open>n\<close> in bit 8 of the difference. The count of the first selection carries
  another lane, \<open>l\<close>, above bit 16, which does not disturb it. The bits of the difference from bit 8 on:
\<close>

lemma select_difference:
  assumes "t < 256" "n < 256" "l < 256" "8 \<le> j"
  defines "D \<equiv> of_nat (t + 2 ^ 16 * l) - of_nat n :: u64"
  shows "bit D j \<longleftrightarrow> j < 64 \<and>
    (if t < n then j < 16 \<or> l = 0 \<or> bit (l - 1) (j - 16) else 16 \<le> j \<and> bit l (j - 16))"
proof (cases "t < n")
  case False
  then have "n \<le> t + 2 ^ 16 * l" by simp
  then have "D = of_nat (t + 2 ^ 16 * l - n)" by (simp only: D_def of_nat_diff)
  also have "t + 2 ^ 16 * l - n = (t - n) + 2 ^ 16 * l" using False by simp
  finally have "bit D j \<longleftrightarrow> j < 64 \<and> bit ((t - n) + 2 ^ 16 * l) j" by (simp only: bit_of_nat_u64)
  moreover have "bit ((t - n) + 2 ^ 16 * l) j \<longleftrightarrow> (if j < 16 then bit (t - n) j else bit l (j - 16))"
    using assms(1) by (intro bit_two_parts) simp
  moreover have "\<not> bit (t - n) j" using bit_nat_bound [of "t - n" j 8] assms(1,4) by fastforce
  ultimately show ?thesis using False by auto
next
  case True
  define k where "k = n - t - 1"
  have k: "k < 256" "n = t + k + 1" using True assms(2) by (auto simp: k_def)
  show ?thesis
  proof (cases "l = 0")
    case l0: True
    have "D = NOT (of_nat k)" using l0 k(2) by (simp add: D_def not_eq_complement)
    then have "bit D j \<longleftrightarrow> j < 64 \<and> \<not> bit k j" by (auto simp: bit_not_iff bit_of_nat_u64)
    then show ?thesis using True l0 bit_nat_bound [of k j 8] k(1) assms(4) by auto
  next
    case False
    have le: "n \<le> t + 2 ^ 16 * l" using False assms(2) by (cases l) auto
    then have "D = of_nat (t + 2 ^ 16 * l - n)" by (simp only: D_def of_nat_diff)
    also have "t + 2 ^ 16 * l - n = ((255 - k) + 2 ^ 8 * 255) + 2 ^ 16 * (l - 1)"
      using False k by (cases l) auto
    finally have "bit D j \<longleftrightarrow> j < 64 \<and> bit (((255 - k) + 2 ^ 8 * 255) + 2 ^ 16 * (l - 1)) j"
      by (simp only: bit_of_nat_u64)
    moreover have "bit (((255 - k) + 2 ^ 8 * 255) + 2 ^ 16 * (l - 1)) j \<longleftrightarrow>
        (if j < 16 then bit ((255 - k) + 2 ^ 8 * 255) j else bit (l - 1) (j - 16))"
      by (intro bit_two_parts) simp
    moreover have "bit ((255 - k) + 2 ^ 8 * 255) j \<longleftrightarrow> bit (255 :: nat) (j - 8)"
      using bit_two_parts [of "255 - k" 8 255 j] assms(4) by simp
    moreover have "bit (255 :: nat) (j - 8) \<longleftrightarrow> j - 8 < 8"
      using bit_mask_iff [of 8 "j - 8", where 'a = nat] by (simp add: mask_eq_exp_minus_1)
    ultimately show ?thesis using True False assms(4) by auto
  qed
qed

lemma select_step_spec:
  assumes "t < 256" "n < 256" "l < 256"
  shows "select_step (of_nat (t + 2 ^ 16 * l)) sh (s, of_nat n) =
    (if t < n then (s - drop_bit sh 256, of_nat (n - t)) else (s, of_nat n))"
proof -
  let ?T = "of_nat (t + 2 ^ 16 * l) :: u64"
  have 256: "(?T - of_nat n) AND 256 = (if t < n then 256 else 0)"
    using select_difference [OF assms, of 8] by (simp only: and_256) simp
  have "?T AND drop_bit 8 (?T - of_nat n) = (if t < n then of_nat t else 0)"
  proof (rule bit_word_eqI)
    fix j assume "j < LENGTH(64)"
    have T: "bit ?T j \<longleftrightarrow> j < 64 \<and> (if j < 16 then bit t j else bit l (j - 16))"
      using bit_two_parts [of t 16 l j] assms(1) by (simp only: bit_of_nat_u64) simp
    have "bit t j \<Longrightarrow> j < 8" "bit l (j - 16) \<Longrightarrow> j - 16 < 8" "bit (l - 1) (8 + j - 16) \<Longrightarrow> 8 + j - 16 < 8" "bit l (8 + j - 16) \<Longrightarrow> 8 + j - 16 < 8"
      using bit_nat_bound [of t j 8] bit_nat_bound [of l "j - 16" 8] bit_nat_bound [of "l - 1" "8 + j - 16" 8]
        bit_nat_bound [of l "8 + j - 16" 8] assms(1,3) by simp_all
    moreover have "bit (?T AND drop_bit 8 (?T - of_nat n)) j \<longleftrightarrow> bit ?T j \<and> bit (?T - of_nat n) (8 + j)"
      by (simp only: bit_and_iff bit_drop_bit_eq comp_def)
    moreover have "bit (if t < n then of_nat t else 0 :: u64) j \<longleftrightarrow> j < 64 \<and> t < n \<and> bit t j"
      by (simp add: bit_of_nat_u64)
    ultimately show "bit (?T AND drop_bit 8 (?T - of_nat n)) j \<longleftrightarrow> bit (if t < n then of_nat t else 0 :: u64) j"
      unfolding T select_difference [OF assms, of "8 + j", OF le_add1] by auto
  qed
  then show ?thesis using 256 unfolding select_step_def by (simp only: case_prod_conv) (simp add: of_nat_diff)
qed

text \<open>The \<open>n0\<close>-th set bit from the top is the \<open>n\<close>-th one among the \<open>h\<close> bits below \<open>s\<close>.\<close>

definition selected :: "u64 \<Rightarrow> nat \<Rightarrow> nat \<Rightarrow> nat \<Rightarrow> nat \<Rightarrow> bool" where
  "selected r n0 h s n \<longleftrightarrow>
     h \<le> s \<and> s \<le> 64 \<and> h dvd s \<and> 0 < n \<and> n \<le> cnt r (s - h) h \<and> cnt r s (64 - s) + n = n0"

lemma selected_halve:
  assumes "selected r n0 (2 * h) s n"
  shows "if cnt r (s - h) h < n then selected r n0 h (s - h) (n - cnt r (s - h) h) else selected r n0 h s n"
proof -
  have s: "2 * h \<le> s" "s \<le> 64" "h dvd s" "h dvd s - h" "n \<le> cnt r (s - 2 * h) (2 * h)"
    using assms by (auto simp: selected_def)
  have "cnt r (s - 2 * h) (h + h) = cnt r (s - 2 * h) h + cnt r (s - 2 * h + h) h" by (rule cnt_add)
  moreover have "s - 2 * h + h = s - h" "s - h - h = s - 2 * h" using s(1) by simp_all
  ultimately have n: "n \<le> cnt r (s - h - h) h + cnt r (s - h) h" using s(5) by (simp add: mult_2)
  have "cnt r (s - h) (h + (64 - s)) = cnt r (s - h) h + cnt r (s - h + h) (64 - s)" by (rule cnt_add)
  moreover have "h + (64 - s) = 64 - (s - h)" "s - h + h = s" using s(1,2) by simp_all
  ultimately have "cnt r (s - h) (64 - (s - h)) = cnt r (s - h) h + cnt r s (64 - s)" by simp
  moreover have "cnt r s (64 - s) + n = n0" "0 < n" using assms by (simp_all add: selected_def)
  ultimately show ?thesis using s n unfolding selected_def by (cases "cnt r (s - h) h < n") (simp, linarith, simp)
qed

lemma select_round:
  assumes "selected r n0 (2 * h) s n" "l < 256" "drop_bit sh 256 = (of_nat h :: u64)"
    and "T = of_nat (cnt r (s - h) h + 2 ^ 16 * l)"
  shows "\<exists>s' n'. select_step T sh (of_nat s, of_nat n) = (of_nat s', of_nat n') \<and> selected r n0 h s' n'"
proof -
  let ?t = "cnt r (s - h) h"
  have b: "2 * h \<le> s" "s \<le> 64" "n \<le> cnt r (s - 2 * h) (2 * h)" using assms(1) by (auto simp: selected_def)
  have "?t \<le> h" by (rule cnt_le)
  then have small: "?t < 256" "n < 256" using b cnt_le [of r "s - 2 * h" "2 * h"] by simp_all
  have "select_step T sh (of_nat s, of_nat n) =
      (if ?t < n then (of_nat s - of_nat h, of_nat (n - ?t)) else (of_nat s, of_nat n))"
    unfolding assms(4) by (subst select_step_spec [OF small assms(2)]) (simp only: assms(3))
  also have "\<dots> = (if ?t < n then (of_nat (s - h), of_nat (n - ?t)) else (of_nat s, of_nat n))"
    using b by (simp add: of_nat_diff)
  finally show ?thesis using selected_halve [OF assms(1)] by (cases "?t < n") (simp_all del: of_nat_diff, blast+)
qed

lemma lane_and_mask:
  assumes "counts r h x" "h dvd k" "q \<le> h" "h < 2 ^ q"
  shows "drop_bit k x AND mask q = of_nat (cnt r k h + 2 ^ 16 * 0)"
proof -
  have "unat (take_bit q (drop_bit k x)) = lane h x k mod 2 ^ q"
    using assms(3) lane_nat [of q x k] lane_nat [of h x k] by (simp add: lane_def [symmetric] mod_mod_cancel le_imp_power_dvd)
  also have "\<dots> = cnt r k h" using assms cnt_le [of r k h] by (simp add: counts_def)
  finally have "take_bit q (drop_bit k x) = of_nat (cnt r k h)" by (metis of_nat_unat_u64)
  then show ?thesis by (simp add: take_bit_eq_mask)
qed

lemma top_lanes:
  assumes "counts r 16 d"
  shows "drop_bit 32 d + drop_bit 48 d = of_nat (cnt r 32 32 + 2 ^ 16 * cnt r 48 16)"
proof -
  have l: "unat d div 2 ^ 48 mod 2 ^ 16 = cnt r 48 16" "unat d div 2 ^ 32 mod 2 ^ 16 = cnt r 32 16"
    using assms [unfolded counts_def lane_nat, THEN spec, of 48] assms [unfolded counts_def lane_nat, THEN spec, of 32] by simp_all
  have "unat d div 2 ^ 48 < 2 ^ 16" using unat_u64 [of d] by (simp add: less_mult_imp_div_less)
  then have 48: "unat d div 2 ^ 48 = cnt r 48 16" using l(1) by simp
  have "unat d div 2 ^ 32 = 2 ^ 16 * (unat d div 2 ^ 32 div 2 ^ 16) + unat d div 2 ^ 32 mod 2 ^ 16" by simp
  also have "unat d div 2 ^ 32 div 2 ^ 16 = unat d div 2 ^ 48" by (simp add: div_mult2_eq [symmetric])
  finally have 32: "unat d div 2 ^ 32 = 2 ^ 16 * cnt r 48 16 + cnt r 32 16" using 48 l(2) by simp
  have "drop_bit k d = of_nat (unat d div 2 ^ k)" for k
  proof -
    have "take_bit 64 (drop_bit k d) = drop_bit k d" by (rule take_bit_word_eq_self) simp
    then have "unat (drop_bit k d) = unat d div 2 ^ k mod 2 ^ 64" using lane_nat [of 64 d k] by (simp add: lane_def)
    also have "\<dots> = unat d div 2 ^ k" using unat_u64 [of d] by (intro mod_less) (rule le_less_trans [OF div_le_dividend])
    finally show ?thesis by (metis of_nat_unat_u64)
  qed
  then have "drop_bit 32 d + drop_bit 48 d = of_nat (2 ^ 16 * cnt r 48 16 + cnt r 32 16 + cnt r 48 16)"
    by (simp only: 32 48 of_nat_add)
  also have "2 ^ 16 * cnt r 48 16 + cnt r 32 16 + cnt r 48 16 = cnt r 32 32 + 2 ^ 16 * cnt r 48 16"
    using cnt_add [of r 32 16 16] by simp
  finally show ?thesis .
qed

lemma selected_last: "selected r n0 1 s n \<Longrightarrow> 0 < s \<and> s \<le> 64 \<and> bit r (s - 1) \<and> cnt r s (64 - s) = n0 - 1"
  by (auto simp: selected_def cnt_def split: if_splits)

lemma bit_shift_amount: "s \<le> 64 \<Longrightarrow> h \<le> s \<Longrightarrow> unat (of_nat s - of_nat h :: u64) = s - h"
  by (simp add: unat_of_nat flip: of_nat_diff)

lemma nth_set_bit_u64_selects:
  assumes "0 < n" "n \<le> cnt (word_reverse v) 0 64"
  shows "\<exists>s k. selected (word_reverse v) n 1 s k \<and> nth_set_bit_u64 v (of_nat n) = of_nat (64 - s)"
proof -
  define r where "r = word_reverse v"
  define a where "a = r - (drop_bit 1 r AND (- 1 div 3))"
  define b where "b = (a AND (- 1 div 5)) + (drop_bit 2 a AND (- 1 div 5))"
  define c where "c = (b + drop_bit 4 b) AND (- 1 div 0x11)"
  define d where "d = (c + drop_bit 8 c) AND (- 1 div 0x101)"
  have "counts r (2 * 1) a" unfolding a_def pairs_eq [OF striped_consts(1)]
    by (rule counts_masked_add [OF counts_1 striped_consts(1)]) simp_all
  then have a: "counts r 2 a" by simp
  have "counts r (2 * 2) b" unfolding b_def by (rule counts_masked_add [OF a striped_consts(2)]) simp_all
  then have b: "counts r 4 b" by simp
  have "counts r (2 * 4) c" unfolding c_def by (rule counts_add_masked [OF b striped_consts(3)]) simp_all
  then have c: "counts r 8 c" by simp
  have "counts r (2 * 8) d" unfolding d_def by (rule counts_add_masked [OF c striped_consts(4)]) simp_all
  then have d: "counts r 16 d" by simp
  have sh: "drop_bit 3 256 = (of_nat 32 :: u64)" "drop_bit 4 256 = (of_nat 16 :: u64)" "drop_bit 5 256 = (of_nat 8 :: u64)"
    "drop_bit 6 256 = (of_nat 4 :: u64)" "drop_bit 7 256 = (of_nat 2 :: u64)" "drop_bit 8 256 = (of_nat 1 :: u64)"
    by simp_all
  have masks: "0xff = (mask 8 :: u64)" "0xf = (mask 4 :: u64)" "0x7 = (mask 3 :: u64)" "0x3 = (mask 2 :: u64)" "0x1 = (mask 1 :: u64)"
    by (simp_all add: mask_eq_exp_minus_1)
  have "selected r n (2 * 32) 64 n" using assms by (simp add: selected_def cnt_def r_def)
  moreover have "cnt r 48 16 < 256" using cnt_le [of r 48 16] by simp
  ultimately obtain s1 n1 where 1: "select_step (drop_bit 32 d + drop_bit 48 d) 3 (of_nat 64, of_nat n) = (of_nat s1, of_nat n1)"
      "selected r n 32 s1 n1"
    using select_round [OF _ _ sh(1), of r n 64 n "cnt r 48 16"] top_lanes [OF d] by auto
  have round: "\<exists>s' n'. select_step (drop_bit (unat (of_nat s - of_nat h :: u64)) x AND mask q) k (of_nat s, of_nat m) = (of_nat s', of_nat n') \<and>
      selected r n h s' n'"
    if "selected r n (2 * h) s m" "drop_bit k 256 = (of_nat h :: u64)" "counts r h x" "q \<le> h" "h < 2 ^ q" for s h x q k m
  proof (rule select_round [OF that(1) _ that(2)])
    have s: "h \<le> s" "s \<le> 64" "h dvd s - h" using that(1) by (auto simp: selected_def)
    show "drop_bit (unat (of_nat s - of_nat h :: u64)) x AND mask q = of_nat (cnt r (s - h) h + 2 ^ 16 * 0)"
      using lane_and_mask [OF that(3) s(3) that(4,5)] s by (simp only: bit_shift_amount)
  qed simp
  obtain s2 n2 where 2: "select_step (drop_bit (unat (of_nat s1 - of_nat 16 :: u64)) d AND mask 8) 4 (of_nat s1, of_nat n1) = (of_nat s2, of_nat n2)"
      "selected r n 16 s2 n2"
    using round [OF _ sh(2) d, of s1 n1 8] 1(2) by auto
  obtain s3 n3 where 3: "select_step (drop_bit (unat (of_nat s2 - of_nat 8 :: u64)) c AND mask 4) 5 (of_nat s2, of_nat n2) = (of_nat s3, of_nat n3)"
      "selected r n 8 s3 n3"
    using round [OF _ sh(3) c, of s2 n2 4] 2(2) by auto
  obtain s4 n4 where 4: "select_step (drop_bit (unat (of_nat s3 - of_nat 4 :: u64)) b AND mask 3) 6 (of_nat s3, of_nat n3) = (of_nat s4, of_nat n4)"
      "selected r n 4 s4 n4"
    using round [OF _ sh(4) b, of s3 n3 3] 3(2) by auto
  obtain s5 n5 where 5: "select_step (drop_bit (unat (of_nat s4 - of_nat 2 :: u64)) a AND mask 2) 7 (of_nat s4, of_nat n4) = (of_nat s5, of_nat n5)"
      "selected r n 2 s5 n5"
    using round [OF _ sh(5) a, of s4 n4 2] 4(2) by auto
  obtain s6 n6 where 6: "select_step (drop_bit (unat (of_nat s5 - of_nat 1 :: u64)) r AND mask 1) 8 (of_nat s5, of_nat n5) = (of_nat s6, of_nat n6)"
      "selected r n 1 s6 n6"
    using round [OF _ sh(6) counts_1, of s5 n5 1] 5(2) by auto
  note steps = 1(1) [unfolded of_nat_numeral] 2(1) [unfolded masks [symmetric] of_nat_numeral] 3(1) [unfolded masks [symmetric] of_nat_numeral]
    4(1) [unfolded masks [symmetric] of_nat_numeral] 5(1) [unfolded masks [symmetric] of_nat_numeral]
    6(1) [unfolded masks [symmetric] of_nat_1]
  have "nth_set_bit_u64 v (of_nat n) = 65 - of_nat s6 - 1"
    unfolding nth_set_bit_u64_def Let_def r_def [symmetric] a_def [symmetric] b_def [symmetric] c_def [symmetric] d_def [symmetric]
    by (simp only: steps case_prod_conv)
  also have "\<dots> = of_nat (64 - s6)" using selected_last [OF 6(2)] by (simp add: of_nat_diff)
  finally show ?thesis using 6(2) unfolding r_def by blast
qed

subsection \<open>Correctness\<close>

lemma cnt_reverse: "s \<le> 64 \<Longrightarrow> cnt (word_reverse v) s (64 - s) = cnt v 0 (64 - s)"
proof -
  assume s: "s \<le> 64"
  have "map (bit (word_reverse v)) [s..<64] = map (bit v) (rev [0..<64 - s])"
    using s by (intro nth_equalityI) (auto simp: rev_nth bit_word_reverse_iff)
  then have "count_true (map (bit (word_reverse v)) [s..<64]) = count_true (rev (map (bit v) [0..<64 - s]))"
    by (simp add: rev_map)
  also have "\<dots> = count_true (map (bit v) [0..<64 - s])" by (simp only: count_true_def rev_filter [symmetric] length_rev)
  finally show ?thesis using s by (simp add: cnt_def count_true_map)
qed

lemma nth_set_bit_u64_correct:
  assumes "0 < n" "n \<le> count_ones v"
  shows "unat (nth_set_bit_u64 v (of_nat n)) = nth_mark (map (bit v) [0..<64]) n"
proof -
  have "n \<le> cnt (word_reverse v) 0 64"
    using assms(2) cnt_reverse [of 0 v] by (simp add: cnt_def count_ones_def)
  then obtain s k where s: "selected (word_reverse v) n 1 s k" "nth_set_bit_u64 v (of_nat n) = of_nat (64 - s)"
    using nth_set_bit_u64_selects [OF assms(1)] by blast
  note last = selected_last [OF s(1)]
  have "bit v (64 - s)" using last by (auto simp: bit_word_reverse_iff)
  moreover have "count_true (take (64 - s) (map (bit v) [0..<64])) = n - 1"
  proof -
    have "count_true (take (64 - s) (map (bit v) [0..<64])) = cnt v 0 (64 - s)" by (simp add: take_map count_true_map cnt_def)
    then show ?thesis using last cnt_reverse [of s v] by simp
  qed
  ultimately have "nth_mark (map (bit v) [0..<64]) n = 64 - s"
    using last assms(1) by (intro nth_mark_unique) simp_all
  then show ?thesis using s(2) by (simp add: unat_of_nat)
qed

lemma nth_mark_append:
  "0 < n \<Longrightarrow> nth_mark (a @ b) n = (if n \<le> count_true a then nth_mark a n else length a + nth_mark b (n - count_true a))"
proof (induction a arbitrary: n)
  case (Cons x a)
  then show ?case by (cases "x \<and> n = 1") (auto split: if_splits)
qed simp

lemma nth_mark_bound: "0 < n \<Longrightarrow> n \<le> count_true m \<Longrightarrow> nth_mark (m @ replicate k False) n = nth_mark m n"
  by (simp add: nth_mark_append)

lemma nth_set_bit_correct:
  assumes "0 < n" "n \<le> count_true m" "length m \<le> 128"
  shows "nth_set_bit (of_bits m) n = nth_mark m n"
proof -
  let ?v = "of_bits m :: u128"
  define low where "low = map (bit (ucast ?v :: u64)) [0..<64]"
  define high where "high = map (bit (ucast (drop_bit 64 ?v) :: u64)) [0..<64]"
  have "low @ high = map (bit ?v) [0..<128]"
    unfolding low_def high_def by (intro nth_equalityI) (auto simp: nth_append bit_simps)
  then have bits: "low @ high = m @ replicate (128 - length m) False"
    using bit_of_bits_upt [of m, where 'a = 128] assms(3) by simp
  have counts: "count_ones (ucast ?v :: u64) = count_true low" "count_ones (ucast (drop_bit 64 ?v) :: u64) = count_true high"
    by (simp_all add: count_ones_def low_def high_def count_true_map)
  have "count_true low + count_true high = count_true m" using arg_cong [OF bits, of count_true] by (simp add: count_true_def)
  then have "nth_set_bit ?v n = nth_mark (low @ high) n"
    using assms nth_set_bit_u64_correct [of n "ucast ?v"] nth_set_bit_u64_correct [of "n - count_true low" "ucast (drop_bit 64 ?v)"]
    by (auto simp: nth_set_bit_def Let_def counts nth_mark_append low_def [symmetric] high_def [symmetric]) (simp add: low_def)
  then show ?thesis using bits nth_mark_bound assms by simp
qed

text \<open>C36 (nth_set_bit_finds): the branch-free search returns the position of the \<open>n\<close>-th set bit: that bit is set, and \<open>n - 1\<close> of the bits below it are.\<close>

theorem nth_set_bit_finds:
  assumes "0 < n" "n \<le> count_ones v"
  shows "bit v (nth_set_bit v n) \<and> count_ones (v AND saturating_shl_mask (nth_set_bit v n)) = n - 1"
proof -
  define m where "m = map (bit v) [0..<128]"
  have m: "length m = 128" "of_bits m = v" by (auto simp: m_def intro: bit_word_eqI simp: bit_simps)
  have n: "n \<le> count_true m" using assms(2) by (simp add: m_def count_ones_def count_true_map)
  have "nth_set_bit v n = nth_mark m n" using nth_set_bit_correct [OF assms(1) n] m by simp
  moreover have "v AND saturating_shl_mask i = of_bits (take i m)" for i
    using of_bits_and_mask [of m i, where 'a = 128] m(2) by (simp add: shl_mask_eq)
  moreover note nth_mark_props [OF assms(1) n]
  moreover have "bit v (nth_mark m n) \<longleftrightarrow> m ! nth_mark m n" if "nth_mark m n < 128" using that by (simp add: m_def)
  ultimately show ?thesis using m(1) count_ones_of_bits [of "take (nth_mark m n) m", where 'a = 128] by simp
qed

theorem nth_set_bit_finds_witness:
  "bit (0x8000000000000000000000000000A004 :: u128) (nth_set_bit 0x8000000000000000000000000000A004 4) \<and>
   count_ones ((0x8000000000000000000000000000A004 :: u128) AND saturating_shl_mask (nth_set_bit 0x8000000000000000000000000000A004 4)) = 4 - 1"
  by (rule nth_set_bit_finds) code_simp+

end
