(* ===== verification/Rope_Point.thy ===== *)
theory Rope_Point
  imports Editor_Prelude
begin

text \<open>
  \<open>crates/rope/src/point.rs\<close>, \<open>point_utf16.rs\<close>, \<open>offset_utf16.rs\<close> and \<open>unclipped.rs\<close>: positions in a text as a row and a
  column, counted in bytes or in UTF-16 code units. Rows, columns and offsets are natural numbers: the
  \<open>u32\<close> and \<open>usize\<close> of the code do not overflow for texts below four gigabytes. The order is the lexicographic one
  of the 32-bit build; that the packed comparison of the 64-bit build agrees with it is a theorem.
\<close>

unbundle bit_operations_syntax

subsection \<open>Points\<close>

datatype point = Point (row: nat) (column: nat)

definition point_zero :: point where
  "point_zero = Point 0 0"

definition row_range :: "nat \<Rightarrow> nat \<Rightarrow> point \<times> point" where
  "row_range a b = (Point a 0, Point b 0)"

definition point_is_zero :: "point \<Rightarrow> bool" where
  "point_is_zero p \<longleftrightarrow> row p = 0 \<and> column p = 0"

definition point_add :: "point \<Rightarrow> point \<Rightarrow> point" where
  "point_add p q = (if row q = 0 then Point (row p) (column p + column q) else Point (row p + row q) (column q))"

definition point_sub :: "point \<Rightarrow> point \<Rightarrow> point" where
  "point_sub p q = (if row p = row q then Point 0 (column p - column q) else Point (row p - row q) (column p))"

instantiation point :: linorder
begin

definition less_point :: "point \<Rightarrow> point \<Rightarrow> bool" where
  "less_point p q \<longleftrightarrow> row p < row q \<or> row p = row q \<and> column p < column q"

definition less_eq_point :: "point \<Rightarrow> point \<Rightarrow> bool" where
  "less_eq_point p q \<longleftrightarrow> row p < row q \<or> row p = row q \<and> column p \<le> column q"

instance
  by standard (auto simp: less_point_def less_eq_point_def intro: point.expand)

end

text \<open>\<open>Ord for Point\<close> on 32-bit and on 64-bit targets.\<close>

definition point_cmp :: "point \<Rightarrow> point \<Rightarrow> ordering" where
  "point_cmp p q = (case cmp (row p) (row q) of Equal \<Rightarrow> cmp (column p) (column q) | c \<Rightarrow> c)"

definition point_key :: "point \<Rightarrow> u64" where
  "point_key p = push_bit 32 (ucast (of_nat (row p) :: u32)) OR ucast (of_nat (column p) :: u32)"

definition point_cmp_packed :: "point \<Rightarrow> point \<Rightarrow> ordering" where
  "point_cmp_packed p q = cmp (point_key p) (point_key q)"

definition point_saturating_sub :: "point \<Rightarrow> point \<Rightarrow> point" where
  "point_saturating_sub p q = (if p < q then point_zero else point_sub p q)"

subsection \<open>Points in UTF-16 code units\<close>

datatype point_utf16 = PointUtf16 (row_utf16: nat) (column_utf16: nat)

definition point_utf16_zero :: point_utf16 where
  "point_utf16_zero = PointUtf16 0 0"

definition point_utf16_is_zero :: "point_utf16 \<Rightarrow> bool" where
  "point_utf16_is_zero p \<longleftrightarrow> row_utf16 p = 0 \<and> column_utf16 p = 0"

definition point_utf16_add :: "point_utf16 \<Rightarrow> point_utf16 \<Rightarrow> point_utf16" where
  "point_utf16_add p q =
     (if row_utf16 q = 0 then PointUtf16 (row_utf16 p) (column_utf16 p + column_utf16 q)
      else PointUtf16 (row_utf16 p + row_utf16 q) (column_utf16 q))"

definition point_utf16_sub :: "point_utf16 \<Rightarrow> point_utf16 \<Rightarrow> point_utf16" where
  "point_utf16_sub p q =
     (if row_utf16 p = row_utf16 q then PointUtf16 0 (column_utf16 p - column_utf16 q)
      else PointUtf16 (row_utf16 p - row_utf16 q) (column_utf16 p))"

instantiation point_utf16 :: linorder
begin

definition less_point_utf16 :: "point_utf16 \<Rightarrow> point_utf16 \<Rightarrow> bool" where
  "less_point_utf16 p q \<longleftrightarrow> row_utf16 p < row_utf16 q \<or> row_utf16 p = row_utf16 q \<and> column_utf16 p < column_utf16 q"

definition less_eq_point_utf16 :: "point_utf16 \<Rightarrow> point_utf16 \<Rightarrow> bool" where
  "less_eq_point_utf16 p q \<longleftrightarrow> row_utf16 p < row_utf16 q \<or> row_utf16 p = row_utf16 q \<and> column_utf16 p \<le> column_utf16 q"

instance
  by standard (auto simp: less_point_utf16_def less_eq_point_utf16_def intro: point_utf16.expand)

end

definition point_utf16_saturating_sub :: "point_utf16 \<Rightarrow> point_utf16 \<Rightarrow> point_utf16" where
  "point_utf16_saturating_sub p q = (if p < q then point_utf16_zero else point_utf16_sub p q)"

text \<open>\<open>OffsetUtf16\<close> and \<open>Unclipped\<close> are transparent wrappers; their arithmetic is that of what they wrap.\<close>

type_synonym offset_utf16 = nat
type_synonym 'a unclipped = 'a

subsection \<open>Laws\<close>

lemma point_add_assoc: "point_add (point_add p q) r = point_add p (point_add q r)"
  by (simp add: point_add_def)

lemma point_add_zero [simp]: "point_add point_zero p = p" "point_add p point_zero = p"
  by (cases p; simp add: point_add_def point_zero_def)+

lemma point_add_sub [simp]: "point_sub (point_add p q) p = q"
  by (auto simp: point_add_def point_sub_def intro: point.expand)

lemma point_sub_add: "p \<le> q \<Longrightarrow> point_add p (point_sub q p) = q"
  by (auto simp: point_add_def point_sub_def less_eq_point_def intro: point.expand)

lemma point_add_mono_iff: "point_add p q \<le> point_add p r \<longleftrightarrow> q \<le> r"
  by (auto simp: point_add_def less_eq_point_def)

lemma point_le_add: "p \<le> point_add p q"
  by (simp add: point_add_def less_eq_point_def)

lemma point_utf16_add_assoc: "point_utf16_add (point_utf16_add p q) r = point_utf16_add p (point_utf16_add q r)"
  by (simp add: point_utf16_add_def)

lemma point_utf16_add_zero [simp]: "point_utf16_add point_utf16_zero p = p" "point_utf16_add p point_utf16_zero = p"
  by (cases p; simp add: point_utf16_add_def point_utf16_zero_def)+

lemma point_utf16_add_sub [simp]: "point_utf16_sub (point_utf16_add p q) p = q"
  by (auto simp: point_utf16_add_def point_utf16_sub_def intro: point_utf16.expand)

lemma point_utf16_sub_add: "p \<le> q \<Longrightarrow> point_utf16_add p (point_utf16_sub q p) = q"
  by (auto simp: point_utf16_add_def point_utf16_sub_def less_eq_point_utf16_def intro: point_utf16.expand)

lemma point_cmp_eq: "point_cmp p q = cmp p q"
  by (cases p; cases q) (auto simp: point_cmp_def cmp_def less_point_def)

lemma unat_point_key:
  assumes "row p < 2 ^ 32" "column p < 2 ^ 32"
  shows "unat (point_key p) = row p * 2 ^ 32 + column p"
proof -
  have r: "unat (ucast (of_nat (row p) :: u32) :: u64) = row p" and c: "unat (ucast (of_nat (column p) :: u32) :: u64) = column p"
    using assms by (simp_all add: unsigned_ucast_eq unat_of_nat take_bit_nat_eq_self_iff)
  have "point_key p = push_bit 32 (ucast (of_nat (row p) :: u32)) + ucast (of_nat (column p) :: u32)"
    unfolding point_key_def by (rule disjunctive_add_eq_or [symmetric]) (auto simp: bit_eq_iff bit_simps)
  also have "\<dots> = of_nat (row p * 2 ^ 32 + column p)"
  proof -
    have "ucast (of_nat (row p) :: u32) = (of_nat (row p) :: u64)" "ucast (of_nat (column p) :: u32) = (of_nat (column p) :: u64)"
      using r c by (metis of_nat_unat ucast_id)+
    then show ?thesis by (simp add: push_bit_eq_mult)
  qed
  finally have "point_key p = of_nat (row p * 2 ^ 32 + column p)" .
  moreover have "row p * 2 ^ 32 + column p < 2 ^ 64" using assms by auto
  ultimately show ?thesis by (simp only: unat_of_nat) simp
qed

text \<open>Fact (packed_comparison_agrees): for rows and columns below \<open>2^32\<close> the packed 64-bit comparison of points is the lexicographic one.\<close>

theorem packed_comparison_agrees:
  assumes "row p < 2 ^ 32" "column p < 2 ^ 32" "row q < 2 ^ 32" "column q < 2 ^ 32"
  shows "point_cmp_packed p q = point_cmp p q"
proof -
  have "point_key p < point_key q \<longleftrightarrow> p < q"
    using assms unat_point_key [of p] unat_point_key [of q] by (auto simp: word_less_nat_alt less_point_def)
  moreover have "point_key p = point_key q \<longleftrightarrow> p = q"
  proof
    assume "point_key p = point_key q"
    then have "row p * 2 ^ 32 + column p = row q * 2 ^ 32 + column q" using assms unat_point_key by metis
    then have "(row p * 2 ^ 32 + column p) div 2 ^ 32 = (row q * 2 ^ 32 + column q) div 2 ^ 32"
      "(row p * 2 ^ 32 + column p) mod 2 ^ 32 = (row q * 2 ^ 32 + column q) mod 2 ^ 32" by simp_all
    then show "p = q" using assms by (intro point.expand) simp
  qed simp
  ultimately show ?thesis by (simp add: point_cmp_packed_def point_cmp_eq cmp_def)
qed

theorem packed_comparison_agrees_witness:
  "point_cmp_packed (Point 3 4294967295) (Point 4 0) = point_cmp (Point 3 4294967295) (Point 4 0)"
  by (rule packed_comparison_agrees) simp_all

end
