(* ===== verification/Utf8_Text.thy ===== *)
theory Utf8_Text
  imports Bitmap Rope_Point
begin

text \<open>
  Texts as the rope stores them: byte sequences in UTF-8. The structure of UTF-8 that the code relies on (a first
  byte, recognised by \<open>util::is_utf8_char_boundary\<close>, that fixes the number of continuation bytes), the
  division into lines, and the marks that the bitmaps of a chunk record.
\<close>

type_synonym str = "u8 list"

subsection \<open>Characters\<close>

definition is_utf8_char_boundary :: "u8 \<Rightarrow> bool" where
  "is_utf8_char_boundary b \<longleftrightarrow> - 0x40 \<le> sint b"

text \<open>The length of the encoding that starts with a byte, in UTF-8 and in UTF-16.\<close>

definition char_len :: "u8 \<Rightarrow> nat" where
  "char_len b = (if b < 128 then 1 else if b < 224 then 2 else if b < 240 then 3 else 4)"

definition char_len_utf16 :: "u8 \<Rightarrow> nat" where
  "char_len_utf16 b = (if 240 \<le> b then 2 else 1)"

definition char_ok :: "str \<Rightarrow> bool" where
  "char_ok c \<longleftrightarrow> c \<noteq> [] \<and> is_utf8_char_boundary (hd c) \<and> length c = char_len (hd c) \<and>
     (\<forall>b \<in> set (tl c). \<not> is_utf8_char_boundary b)"

text \<open>\<open>str::chars\<close>: the encodings of the characters in order; on other byte sequences the last one may be cut short.\<close>

function chars_of :: "str \<Rightarrow> str list" where
  "chars_of [] = []"
| "chars_of (b # bs) = (b # take (char_len b - 1) bs) # chars_of (drop (char_len b - 1) bs)"
  by pat_completeness auto
termination by (relation "measure length") auto

definition utf8_ok :: "str \<Rightarrow> bool" where
  "utf8_ok t \<longleftrightarrow> (\<forall>c \<in> set (chars_of t). char_ok c)"

text \<open>\<open>str::is_char_boundary\<close>.\<close>

definition str_is_char_boundary :: "str \<Rightarrow> nat \<Rightarrow> bool" where
  "str_is_char_boundary t i \<longleftrightarrow> i = 0 \<or> i = length t \<or> i < length t \<and> is_utf8_char_boundary (t ! i)"

lemma all_u8: "(\<And>n. n \<in> set [0..<256] \<Longrightarrow> P (of_nat n)) \<Longrightarrow> P (b :: u8)"
proof -
  assume P: "\<And>n. n \<in> set [0..<256] \<Longrightarrow> P (of_nat n)"
  have "unat b < 256" using unsigned_less [of b, where 'a = nat] by simp
  then have "P (of_nat (unat b))" by (intro P) simp
  then show ?thesis by simp
qed

lemma boundary_iff: "is_utf8_char_boundary b \<longleftrightarrow> b < 128 \<or> 192 \<le> b"
proof (rule all_u8)
  fix n assume "n \<in> set [0..<256]"
  moreover have "\<forall>n \<in> set [0..<256]. is_utf8_char_boundary (of_nat n) \<longleftrightarrow> of_nat n < (128 :: u8) \<or> 192 \<le> (of_nat n :: u8)"
    by code_simp
  ultimately show "is_utf8_char_boundary (of_nat n) \<longleftrightarrow> of_nat n < (128 :: u8) \<or> 192 \<le> (of_nat n :: u8)" by blast
qed

lemma char_len_pos [simp]: "0 < char_len b"
  by (simp add: char_len_def)

lemma char_len_ge_240: "240 \<le> b \<Longrightarrow> char_len b = 4"
  using word_le_less_eq by (auto simp: char_len_def word_less_nat_alt word_le_nat_alt)

lemma chars_of_cons: "char_ok c \<Longrightarrow> chars_of (c @ t) = c # chars_of t"
  by (cases c) (auto simp: char_ok_def)

lemma concat_chars_of: "concat (chars_of t) = t"
  by (induction t rule: chars_of.induct) auto

lemma utf8_ok_Nil [simp]: "utf8_ok []"
  by (simp add: utf8_ok_def)

lemma utf8_ok_char: "char_ok c \<Longrightarrow> utf8_ok (c @ t) \<longleftrightarrow> utf8_ok t"
  by (simp add: utf8_ok_def chars_of_cons)

lemma utf8_cases:
  assumes "utf8_ok t"
  obtains "t = []" | c t' where "t = c @ t'" "char_ok c" "utf8_ok t'"
proof (cases t)
  case (Cons b bs)
  let ?c = "b # take (char_len b - 1) bs" and ?t = "drop (char_len b - 1) bs"
  have "char_ok ?c" "utf8_ok ?t" using assms Cons by (simp_all add: utf8_ok_def)
  then show thesis using that(2) [of ?c ?t] Cons by simp
qed (use that in blast)

lemma utf8_induct [consumes 1, case_names Nil char]:
  assumes "utf8_ok t" "P []" "\<And>c t. char_ok c \<Longrightarrow> utf8_ok t \<Longrightarrow> P t \<Longrightarrow> P (c @ t)"
  shows "P t"
  using assms(1)
proof (induction "length t" arbitrary: t rule: less_induct)
  case less
  show ?case
    using less.prems
  proof (cases rule: utf8_cases)
    case 1
    then show ?thesis using assms(2) by simp
  next
    case (2 c t')
    have "P t'" using 2 by (intro less.hyps) (auto simp: char_ok_def)
    then show ?thesis using assms(3) 2 by simp
  qed
qed

lemma utf8_append: "utf8_ok a \<Longrightarrow> utf8_ok (a @ b) \<longleftrightarrow> utf8_ok b"
  by (induction a rule: utf8_induct) (simp_all add: utf8_ok_char)

lemma utf8_char_single: "char_ok c \<Longrightarrow> utf8_ok c"
  using utf8_ok_char [of c "[]"] by simp

lemma utf8_hd: "utf8_ok t \<Longrightarrow> t \<noteq> [] \<Longrightarrow> is_utf8_char_boundary (hd t)"
  by (cases rule: utf8_cases [of t]) (auto simp: char_ok_def)

text \<open>Cutting a text at a boundary leaves two texts.\<close>

lemma utf8_cut:
  assumes "utf8_ok t" "str_is_char_boundary t i"
  shows "utf8_ok (take i t) \<and> utf8_ok (drop i t)"
  using assms
proof (induction t arbitrary: i rule: utf8_induct)
  case (char c t)
  show ?case
  proof (cases "i < length c")
    case True
    have "\<not> is_utf8_char_boundary (c ! j)" if "j < length c" "0 < j" for j
      using char.hyps(1) that by (cases c; cases j) (auto simp: char_ok_def)
    then have "i = 0" using char.prems True by (auto simp: str_is_char_boundary_def nth_append)
    then show ?thesis using char.hyps(1,2) by (simp add: utf8_ok_char)
  next
    case False
    then have "str_is_char_boundary t (i - length c)" using char.prems by (auto simp: str_is_char_boundary_def nth_append)
    then have "utf8_ok (take (i - length c) t)" "utf8_ok (drop (i - length c) t)" using char.IH by simp_all
    then show ?thesis using False char.hyps(1) by (simp add: utf8_ok_char)
  qed
qed simp

subsection \<open>Counts\<close>

definition char_marks :: "str \<Rightarrow> bool list" where
  "char_marks t = map is_utf8_char_boundary t"

text \<open>A mark for every UTF-16 code unit: at the start of each character, and at the byte after the start of those that need two.\<close>

definition utf16_marks :: "str \<Rightarrow> bool list" where
  "utf16_marks t = map2 (\<or>) (char_marks t) (take (length t) (False # map (\<lambda>b. 240 \<le> b) t))"

definition newline_marks :: "str \<Rightarrow> bool list" where
  "newline_marks t = map (\<lambda>b. b = 10) t"

definition tab_marks :: "str \<Rightarrow> bool list" where
  "tab_marks t = map (\<lambda>b. b = 9) t"

lemma length_marks [simp]:
  "length (char_marks t) = length t" "length (utf16_marks t) = length t"
  "length (newline_marks t) = length t" "length (tab_marks t) = length t"
  by (simp_all add: char_marks_def utf16_marks_def newline_marks_def tab_marks_def)

lemma marks_append:
  "char_marks (a @ b) = char_marks a @ char_marks b"
  "newline_marks (a @ b) = newline_marks a @ newline_marks b"
  "tab_marks (a @ b) = tab_marks a @ tab_marks b"
  by (simp_all add: char_marks_def newline_marks_def tab_marks_def)

lemma marks_take_drop:
  "char_marks (take n t) = take n (char_marks t)" "char_marks (drop n t) = drop n (char_marks t)"
  "newline_marks (take n t) = take n (newline_marks t)" "newline_marks (drop n t) = drop n (newline_marks t)"
  "tab_marks (take n t) = take n (tab_marks t)" "tab_marks (drop n t) = drop n (tab_marks t)"
  by (simp_all add: char_marks_def newline_marks_def tab_marks_def take_map drop_map)

lemma nth_utf16_marks:
  "i < length t \<Longrightarrow> utf16_marks t ! i \<longleftrightarrow> is_utf8_char_boundary (t ! i) \<or> 0 < i \<and> 240 \<le> t ! (i - 1)"
  by (cases i) (auto simp: utf16_marks_def char_marks_def)

text \<open>A character never ends in the first byte of a four-byte encoding.\<close>

lemma utf8_last: "utf8_ok t \<Longrightarrow> t \<noteq> [] \<Longrightarrow> \<not> 240 \<le> last t"
proof (induction t rule: utf8_induct)
  case (char c t)
  have "\<not> 240 \<le> last c"
  proof (cases "tl c")
    case Nil
    then have "length c = 1" using char.hyps(1) by (cases c) (auto simp: char_ok_def)
    then show ?thesis using Nil char.hyps(1) char_len_ge_240 [of "hd c"] by (cases c) (auto simp: char_ok_def)
  next
    case (Cons b bs)
    then have "last c \<in> set (tl c)" by (cases c) (auto simp: last_tl)
    then have "\<not> is_utf8_char_boundary (last c)" using char.hyps(1) by (simp add: char_ok_def)
    then show ?thesis by (auto simp: boundary_iff word_less_nat_alt word_le_nat_alt)
  qed
  then show ?case using char by (cases "t = []") auto
qed simp

lemma utf16_marks_append:
  assumes "utf8_ok a"
  shows "utf16_marks (a @ b) = utf16_marks a @ utf16_marks b"
proof (rule nth_equalityI)
  fix i assume "i < length (utf16_marks (a @ b))"
  then have i: "i < length (a @ b)" by simp
  have "\<not> 240 \<le> (a @ b) ! (i - 1)" if "i = length a" "0 < i"
    using utf8_last [OF assms] that by (cases a rule: rev_cases) (auto simp: nth_append)
  then show "utf16_marks (a @ b) ! i = (utf16_marks a @ utf16_marks b) ! i"
    using i by (cases i "length a" rule: linorder_cases) (auto simp: nth_utf16_marks nth_append)
qed simp

lemma utf16_marks_take: "utf16_marks (take n t) = take n (utf16_marks t)"
  by (rule nth_equalityI) (auto simp: nth_utf16_marks)

lemma utf16_marks_drop:
  assumes "utf8_ok t" "str_is_char_boundary t n"
  shows "utf16_marks (drop n t) = drop n (utf16_marks t)"
proof (cases "n \<le> length t")
  case True
  have "utf8_ok (take n t)" using utf8_cut [OF assms] by simp
  from utf16_marks_append [OF this, of "drop n t"] True show ?thesis by simp
qed (simp add: utf16_marks_def)

definition char_count :: "str \<Rightarrow> nat" where
  "char_count t = count_true (char_marks t)"

definition utf16_count :: "str \<Rightarrow> nat" where
  "utf16_count t = count_true (utf16_marks t)"

lemma counts_append:
  "char_count (a @ b) = char_count a + char_count b"
  "utf8_ok a \<Longrightarrow> utf16_count (a @ b) = utf16_count a + utf16_count b"
  by (simp_all add: char_count_def utf16_count_def marks_append utf16_marks_append)

lemma counts_Nil [simp]: "char_count [] = 0" "utf16_count [] = 0"
  by (simp_all add: char_count_def utf16_count_def char_marks_def utf16_marks_def)

lemma count_char:
  assumes "char_ok c"
  shows "char_count c = 1" "utf16_count c = char_len_utf16 (hd c)"
proof -
  obtain b bs where c: "c = b # bs" "is_utf8_char_boundary b" "length bs = char_len b - 1" "\<forall>x \<in> set bs. \<not> is_utf8_char_boundary x"
    using assms by (cases c) (auto simp: char_ok_def)
  show "char_count c = 1" using c by (simp add: char_count_def char_marks_def count_true_map)
  have high: "\<not> 240 \<le> x" if "x \<in> set bs" for x using c(4) that by (auto simp: boundary_iff word_less_nat_alt word_le_nat_alt)
  have "utf16_marks c = True # (if 240 \<le> b then [True, False, False] else replicate (length bs) False)"
  proof (rule nth_equalityI)
    show len: "length (utf16_marks c) = length (True # (if 240 \<le> b then [True, False, False] else replicate (length bs) False))"
      using c char_len_ge_240 [of b] by auto
    fix i assume "i < length (utf16_marks c)"
    then show "utf16_marks c ! i = (True # (if 240 \<le> b then [True, False, False] else replicate (length bs) False)) ! i"
      using c high [of "bs ! (i - 2)"] char_len_ge_240 [of b] by (auto simp: nth_utf16_marks nth_Cons' less_Suc_eq_0_disj numeral_eq_Suc)
  qed
  then show "utf16_count c = char_len_utf16 (hd c)" using c(1) by (auto simp: utf16_count_def char_len_utf16_def count_true_def)
qed

subsection \<open>Lines\<close>

text \<open>The lines of a text, without the newlines: \<open>str::split('\n')\<close>. There is always one.\<close>

fun lines_of :: "str \<Rightarrow> str list" where
  "lines_of [] = [[]]"
| "lines_of (b # bs) = (if b = 10 then [] # lines_of bs else (b # hd (lines_of bs)) # tl (lines_of bs))"

lemma lines_of_ne [simp]: "lines_of t \<noteq> []"
  by (cases t) auto

lemma lines_of_append:
  "lines_of (a @ b) = butlast (lines_of a) @ (last (lines_of a) @ hd (lines_of b)) # tl (lines_of b)"
proof (induction a)
  case (Cons x a)
  obtain l ls where "lines_of a = l # ls" by (cases "lines_of a") simp_all
  with Cons show ?case by (cases "ls = []") (auto simp: butlast_append)
qed simp

lemma length_lines_of: "length (lines_of t) = Suc (count_true (newline_marks t))"
  by (induction t) (auto simp: newline_marks_def)

lemma lines_of_no_newline: "10 \<notin> set t \<Longrightarrow> lines_of t = [t]"
  by (induction t) auto

lemma last_line: "last (lines_of t) = rev (takeWhile (\<lambda>b. b \<noteq> 10) (rev t))"
proof (induction t rule: rev_induct)
  case (snoc b t)
  then show ?case by (auto simp: lines_of_append)
qed simp

lemma first_line: "hd (lines_of t) = takeWhile (\<lambda>b. b \<noteq> 10) t"
  by (induction t) auto

text \<open>The point after the last byte, the position at an offset, and \<open>Point::parse_str\<close>.\<close>

definition point_of :: "str \<Rightarrow> point" where
  "point_of t = Point (length (lines_of t) - 1) (length (last (lines_of t)))"

definition parse_str :: "str \<Rightarrow> point" where
  "parse_str t = foldl (\<lambda>_ (i, l). Point i (length l)) point_zero (List.enumerate 0 (lines_of t))"

lemma parse_str_eq: "parse_str t = point_of t"
proof -
  obtain ls l where "lines_of t = ls @ [l]" by (cases "lines_of t" rule: rev_cases) simp_all
  then show ?thesis by (simp add: parse_str_def point_of_def enumerate_append_eq)
qed

lemma last_line_append:
  "last (lines_of (a @ b)) = (if count_true (newline_marks b) = 0 then last (lines_of a) @ last (lines_of b) else last (lines_of b))"
proof -
  obtain l ls where b: "lines_of b = l # ls" by (cases "lines_of b") simp_all
  then have "count_true (newline_marks b) = length ls" using length_lines_of [of b] by simp
  then show ?thesis using b by (simp add: lines_of_append)
qed

lemma point_of_append: "point_of (a @ b) = point_add (point_of a) (point_of b)"
  by (simp add: point_of_def point_add_def length_lines_of marks_append last_line_append)

lemma point_of_Nil [simp]: "point_of [] = point_zero"
  by (simp add: point_of_def point_zero_def)

text \<open>A newline is a character of its own, so the lines of a text are texts.\<close>

lemma char_newline: "char_ok c \<Longrightarrow> c = [10] \<or> 10 \<notin> set c"
proof -
  assume c: "char_ok c"
  have "is_utf8_char_boundary 10" "char_len 10 = 1" by (simp_all add: boundary_iff char_len_def)
  then show ?thesis using c by (cases c) (auto simp: char_ok_def)
qed

lemma lines_of_char: "char_ok c \<Longrightarrow> lines_of (c @ t) = (if c = [10] then [] # lines_of t else (c @ hd (lines_of t)) # tl (lines_of t))"
  using char_newline [of c] lines_of_no_newline [of c] by (auto simp: lines_of_append)

lemma utf8_lines: "utf8_ok t \<Longrightarrow> \<forall>l \<in> set (lines_of t). utf8_ok l"
proof (induction t rule: utf8_induct)
  case (char c t)
  then have "utf8_ok (hd (lines_of t))" "\<forall>l \<in> set (tl (lines_of t)). utf8_ok l"
    using list.set_sel [OF lines_of_ne [of t]] by auto
  then show ?case using char by (simp add: lines_of_char utf8_ok_char)
qed simp

definition point_utf16_of :: "str \<Rightarrow> point_utf16" where
  "point_utf16_of t = PointUtf16 (length (lines_of t) - 1) (utf16_count (last (lines_of t)))"

lemma point_utf16_of_append:
  assumes "utf8_ok a"
  shows "point_utf16_of (a @ b) = point_utf16_add (point_utf16_of a) (point_utf16_of b)"
proof -
  have "utf8_ok (last (lines_of a))" using utf8_lines [OF assms] by simp
  then show ?thesis
    by (simp add: point_utf16_of_def point_utf16_add_def length_lines_of marks_append last_line_append counts_append)
qed

lemma point_utf16_of_Nil [simp]: "point_utf16_of [] = point_utf16_zero"
  by (simp add: point_utf16_of_def point_utf16_zero_def)

lemma char_ok_newline: "char_ok [10]"
  by (simp add: char_ok_def boundary_iff char_len_def)

lemma utf8_newline_cut: "utf8_ok (a @ 10 # b) \<Longrightarrow> utf8_ok a \<and> utf8_ok b"
proof -
  assume ok: "utf8_ok (a @ 10 # b)"
  have "str_is_char_boundary (a @ 10 # b) (length a)" by (simp add: str_is_char_boundary_def boundary_iff)
  from utf8_cut [OF ok this] have "utf8_ok a" "utf8_ok ([10] @ b)" by simp_all
  then show ?thesis using utf8_ok_char [OF char_ok_newline] by blast
qed

text \<open>A text is what ends in its last newline, followed by its last line.\<close>

lemma last_line_split:
  obtains p where "t = p @ last (lines_of t)" "p = [] \<or> last p = 10" "10 \<notin> set (last (lines_of t))"
proof -
  let ?q = "rev (dropWhile (\<lambda>b. b \<noteq> 10) (rev t))"
  have "rev (rev t) = ?q @ last (lines_of t)" unfolding last_line by (simp flip: rev_append)
  moreover have "?q = [] \<or> last ?q = 10"
    using hd_dropWhile [of "\<lambda>b. b \<noteq> 10" "rev t"] by (auto simp: last_rev)
  moreover have "10 \<notin> set (last (lines_of t))" using set_takeWhileD [of 10 "\<lambda>b. b \<noteq> 10" "rev t"] by (auto simp: last_line)
  ultimately show thesis using that [of ?q] by simp
qed

lemma last_line_utf8:
  assumes "utf8_ok t" "t = p @ last (lines_of t)" "p = [] \<or> last p = 10"
  shows "utf8_ok p"
proof (cases "p = []")
  case False
  then have "t = butlast p @ 10 # last (lines_of t)" using assms(2,3) by (metis append.assoc append_Cons append_Nil append_butlast_last_id)
  then have "utf8_ok (butlast p)" using utf8_newline_cut assms(1) by metis
  moreover have "p = butlast p @ [10]" using False assms(3) by (metis append_butlast_last_id)
  ultimately show ?thesis using utf8_append utf8_char_single [OF char_ok_newline] by metis
qed simp

end
