(* ===== verification/Text_Summary.thy ===== *)
theory Text_Summary
  imports Utf8_Text Sum_Tree
begin

text \<open>
  \<open>TextSummary\<close> of \<open>crates/rope/src/rope.rs\<close>: the measures of a text that the rope caches in its tree, how they are
  computed from a string and how they are added.
\<close>

subsection \<open>The code\<close>

record text_summary =
  text_len :: nat
  text_chars :: nat
  text_len_utf16 :: offset_utf16
  text_lines :: point
  first_line_chars :: nat
  last_line_chars :: nat
  last_line_len_utf16 :: nat
  longest_row :: nat
  longest_row_chars :: nat

definition summary_default :: text_summary where
  "summary_default =
     \<lparr>text_len = 0, text_chars = 0, text_len_utf16 = 0, text_lines = point_zero, first_line_chars = 0,
      last_line_chars = 0, last_line_len_utf16 = 0, longest_row = 0, longest_row_chars = 0\<rparr>"

definition lines_utf16 :: "text_summary \<Rightarrow> point_utf16" where
  "lines_utf16 s = PointUtf16 (row (text_lines s)) (last_line_len_utf16 s)"

definition summary_newline :: text_summary where
  "summary_newline =
     \<lparr>text_len = 1, text_chars = 1, text_len_utf16 = 1, text_lines = Point 1 0, first_line_chars = 0,
      last_line_chars = 0, last_line_len_utf16 = 0, longest_row = 0, longest_row_chars = 0\<rparr>"

definition add_newline :: "text_summary \<Rightarrow> text_summary" where
  "add_newline s =
     s\<lparr>text_len := text_len s + 1, text_len_utf16 := text_len_utf16 s + (text_len_utf16 s + 1),
       last_line_chars := 0, last_line_len_utf16 := 0, text_lines := point_add (text_lines s) (Point 1 0)\<rparr>"

text \<open>\<open>AddAssign\<close>: the longest row first, from the values before the addition.\<close>

definition summary_add :: "text_summary \<Rightarrow> text_summary \<Rightarrow> text_summary" where
  "summary_add s t =
     (let joined = last_line_chars s + first_line_chars t;
          (lr, lc) = (if joined > longest_row_chars s then (row (text_lines s), joined)
                      else (longest_row s, longest_row_chars s));
          (lr, lc) = (if longest_row_chars t > lc then (row (text_lines s) + longest_row t, longest_row_chars t)
                      else (lr, lc))
      in \<lparr>text_len = text_len s + text_len t, text_chars = text_chars s + text_chars t,
          text_len_utf16 = text_len_utf16 s + text_len_utf16 t,
          text_lines = point_add (text_lines s) (text_lines t),
          first_line_chars =
            (if row (text_lines s) = 0 then first_line_chars s + first_line_chars t else first_line_chars s),
          last_line_chars =
            (if row (text_lines t) = 0 then last_line_chars s + first_line_chars t else last_line_chars t),
          last_line_len_utf16 =
            (if row (text_lines t) = 0 then last_line_len_utf16 s + last_line_len_utf16 t else last_line_len_utf16 t),
          longest_row = lr, longest_row_chars = lc\<rparr>)"

text \<open>\<open>From<&str>\<close>: one pass over the characters. The length is that of the whole string.\<close>

definition summary_char :: "text_summary \<Rightarrow> str \<Rightarrow> text_summary" where
  "summary_char s c =
     (let s = s\<lparr>text_chars := text_chars s + 1, text_len_utf16 := text_len_utf16 s + char_len_utf16 (hd c)\<rparr>;
          s = (if c = [10]
               then s\<lparr>text_lines := point_add (text_lines s) (Point 1 0), last_line_len_utf16 := 0, last_line_chars := 0\<rparr>
               else s\<lparr>text_lines := Point (row (text_lines s)) (column (text_lines s) + length c),
                      last_line_len_utf16 := last_line_len_utf16 s + char_len_utf16 (hd c),
                      last_line_chars := last_line_chars s + 1\<rparr>);
          s = (if row (text_lines s) = 0 then s\<lparr>first_line_chars := last_line_chars s\<rparr> else s)
      in if last_line_chars s > longest_row_chars s
         then s\<lparr>longest_row := row (text_lines s), longest_row_chars := last_line_chars s\<rparr>
         else s)"

definition summary_from_str :: "str \<Rightarrow> text_summary" where
  "summary_from_str t = (foldl summary_char summary_default (chars_of t))\<lparr>text_len := length t\<rparr>"

subsection \<open>What the measures mean\<close>

text \<open>The first longest line, by number of characters; a text without characters has row 0.\<close>

fun longest :: "nat \<Rightarrow> nat \<times> nat \<Rightarrow> nat list \<Rightarrow> nat \<times> nat" where
  "longest r best [] = best"
| "longest r best (n # ns) = longest (Suc r) (if n > snd best then (r, n) else best) ns"

definition summary_of :: "str \<Rightarrow> text_summary" where
  "summary_of t =
     \<lparr>text_len = length t, text_chars = char_count t, text_len_utf16 = utf16_count t, text_lines = point_of t,
      first_line_chars = char_count (hd (lines_of t)), last_line_chars = char_count (last (lines_of t)),
      last_line_len_utf16 = utf16_count (last (lines_of t)),
      longest_row = fst (longest 0 (0, 0) (map char_count (lines_of t))),
      longest_row_chars = snd (longest 0 (0, 0) (map char_count (lines_of t)))\<rparr>"

lemma longest_append: "longest r best (ns @ ms) = longest (r + length ns) (longest r best ns) ms"
  by (induction ns arbitrary: r best) auto

lemma longest_ge: "snd best \<le> snd (longest r best ns)"
proof (induction ns arbitrary: r best)
  case (Cons n ns)
  show ?case using Cons [of "(r, n)" "Suc r"] Cons [of best "Suc r"] by auto
qed simp

lemma longest_best:
  "k \<le> snd best \<Longrightarrow> longest r best ns =
     (if snd (longest r (i, k) ns) > snd best then longest r (i, k) ns else best)"
proof (induction ns arbitrary: r best i k)
  case (Cons n ns)
  show ?case
  proof (cases "n > snd best")
    case True
    then have "n > k" using Cons.prems by simp
    then show ?thesis using True longest_ge [of "(r, n)" "Suc r" ns] by auto
  next
    case False
    show ?thesis
    proof (cases "n > k")
      case True
      then show ?thesis using False Cons.IH [of n best "Suc r" r] by simp
    next
      case nk: False
      then show ?thesis using False Cons.IH [OF Cons.prems, of "Suc r" i] by simp
    qed
  qed
qed simp

lemma longest_keeps: "snd (longest r best ns) = snd best \<Longrightarrow> longest r best ns = best"
proof (induction ns arbitrary: r best)
  case (Cons n ns)
  then show ?case using longest_ge [of "(r, n)" "Suc r" ns] by (auto split: if_splits)
qed simp

lemma longest_shift: "longest (r + d) (i + d, k) ns = map_prod (\<lambda>x. x + d) id (longest r (i, k) ns)"
proof (induction ns arbitrary: r i k)
  case (Cons n ns)
  show ?case using Cons.IH [of "Suc r" r n] Cons.IH [of "Suc r" i k] by auto
qed simp

text \<open>Where two texts meet, the last line of the one and the first line of the other become one line.\<close>

lemma longest_join:
  "longest 0 (0, 0) (ns @ (x + y) # ms) =
     (let (r, m) = longest 0 (0, 0) (ns @ [x]); (r, m) = (if x + y > m then (length ns, x + y) else (r, m));
          (r', m') = longest 0 (0, 0) (y # ms)
      in if m' > m then (length ns + r', m') else (r, m))"
proof -
  let ?d = "length ns"
  obtain r m where M: "longest 0 (0, 0) ns = (r, m)" by (cases "longest 0 (0, 0) ns")
  define B where "B = (if x + y > m then (?d, x + y) else (r, m))"
  have B: "(let (r, m) = longest 0 (0, 0) (ns @ [x]) in if x + y > m then (?d, x + y) else (r, m)) = B"
    using M by (auto simp: longest_append B_def)
  have y: "y \<le> snd B" by (auto simp: B_def)
  obtain r' m' where b: "longest 0 (0, 0) (y # ms) = (r', m')" by (cases "longest 0 (0, 0) (y # ms)")
  have "longest 0 (0, 0) (ns @ (x + y) # ms) = longest (Suc ?d) B ms"
    using M by (simp add: longest_append B_def)
  also have "\<dots> = (if m' > snd B then (?d + r', m') else B)"
  proof (cases "y = 0")
    case True
    have "longest (Suc ?d) B ms = (if snd (longest (Suc ?d) (?d, 0) ms) > snd B then longest (Suc ?d) (?d, 0) ms else B)"
      by (rule longest_best) simp
    moreover have "longest (Suc ?d) (?d, 0) ms = (?d + r', m')"
      using longest_shift [of "Suc 0" ?d 0 0 ms] b True by (simp add: add.commute)
    ultimately show ?thesis by simp
  next
    case False
    have "longest (Suc ?d) B ms = (if snd (longest (Suc ?d) (?d, y) ms) > snd B then longest (Suc ?d) (?d, y) ms else B)"
      using y by (rule longest_best)
    moreover have "longest (Suc ?d) (?d, y) ms = (?d + r', m')"
      using longest_shift [of "Suc 0" ?d 0 y ms] b False by (simp add: add.commute)
    ultimately show ?thesis by simp
  qed
  finally have eq: "longest 0 (0, 0) (ns @ (x + y) # ms) = (if m' > snd B then (?d + r', m') else B)" .
  obtain r1 m1 where M1: "longest 0 (0, 0) (ns @ [x]) = (r1, m1)" by (cases "longest 0 (0, 0) (ns @ [x])")
  then have B1: "(if x + y > m1 then (?d, x + y) else (r1, m1)) = B" using B by simp
  obtain rB mB where "B = (rB, mB)" by (cases B)
  then show ?thesis unfolding eq b M1 Let_def case_prod_conv B1 by simp
qed

lemma lines_last: "lines_of t = butlast (lines_of t) @ [last (lines_of t)]"
  by simp

lemma row_point_of: "row (point_of t) = length (butlast (lines_of t))"
  by (simp add: point_of_def)

lemma row_zero_lines: "row (point_of t) = 0 \<Longrightarrow> lines_of t = [last (lines_of t)]"
  by (cases "lines_of t" rule: rev_cases) (simp_all add: row_point_of)

lemma summary_of_sel:
  "text_len (summary_of t) = length t" "text_chars (summary_of t) = char_count t" "text_len_utf16 (summary_of t) = utf16_count t"
  "text_lines (summary_of t) = point_of t" "first_line_chars (summary_of t) = char_count (hd (lines_of t))"
  "last_line_chars (summary_of t) = char_count (last (lines_of t))"
  "last_line_len_utf16 (summary_of t) = utf16_count (last (lines_of t))"
  by (simp_all add: summary_of_def)

lemma summary_add_sel:
  "text_len (summary_add s t) = text_len s + text_len t"
  "text_chars (summary_add s t) = text_chars s + text_chars t"
  "text_len_utf16 (summary_add s t) = text_len_utf16 s + text_len_utf16 t"
  "text_lines (summary_add s t) = point_add (text_lines s) (text_lines t)"
  "first_line_chars (summary_add s t) =
     (if row (text_lines s) = 0 then first_line_chars s + first_line_chars t else first_line_chars s)"
  "last_line_chars (summary_add s t) =
     (if row (text_lines t) = 0 then last_line_chars s + first_line_chars t else last_line_chars t)"
  "last_line_len_utf16 (summary_add s t) =
     (if row (text_lines t) = 0 then last_line_len_utf16 s + last_line_len_utf16 t else last_line_len_utf16 t)"
  by (simp_all add: summary_add_def Let_def split: prod.split)

lemma summary_add_longest:
  "(longest_row (summary_add s t), longest_row_chars (summary_add s t)) =
     (let joined = last_line_chars s + first_line_chars t;
          (lr, lc) = (if joined > longest_row_chars s then (row (text_lines s), joined) else (longest_row s, longest_row_chars s))
      in if longest_row_chars t > lc then (row (text_lines s) + longest_row t, longest_row_chars t) else (lr, lc))"
  by (simp add: summary_add_def Let_def split: prod.split)

text \<open>Adding summaries is concatenating texts.\<close>

lemma summary_of_append:
  assumes "utf8_ok a"
  shows "summary_of (a @ b) = summary_add (summary_of a) (summary_of b)"
proof -
  let ?ns = "map char_count (butlast (lines_of a))" and ?x = "char_count (last (lines_of a))"
  let ?y = "char_count (hd (lines_of b))" and ?ms = "map char_count (tl (lines_of b))"
  have la: "map char_count (lines_of a) = ?ns @ [?x]" by (subst lines_last) (simp only: map_append list.map)
  have lb: "map char_count (lines_of b) = ?y # ?ms" by (cases "lines_of b") simp_all
  have "map char_count (lines_of (a @ b)) = ?ns @ (?x + ?y) # ?ms" by (simp add: lines_of_append counts_append)
  then have long: "longest 0 (0, 0) (map char_count (lines_of (a @ b))) =
      (let (r, m) = longest 0 (0, 0) (map char_count (lines_of a));
           (r, m) = (if ?x + ?y > m then (length ?ns, ?x + ?y) else (r, m));
           (r', m') = longest 0 (0, 0) (map char_count (lines_of b))
       in if m' > m then (length ?ns + r', m') else (r, m))"
    by (simp only: longest_join la lb)
  have first: "char_count (hd (lines_of (a @ b))) = (if row (point_of a) = 0 then ?x + ?y else char_count (hd (lines_of a)))"
    by (cases "lines_of a") (auto simp: lines_of_append row_point_of counts_append)
  have last: "char_count (last (lines_of (a @ b))) = (if row (point_of b) = 0 then ?x + ?y else char_count (last (lines_of b)))"
    by (cases "lines_of b") (auto simp: lines_of_append row_point_of counts_append)
  have last16: "utf16_count (last (lines_of (a @ b))) =
      (if row (point_of b) = 0 then utf16_count (last (lines_of a)) + utf16_count (last (lines_of b)) else utf16_count (last (lines_of b)))"
    using utf8_lines [OF assms] by (simp add: last_line_append row_point_of length_lines_of counts_append)
  have ra: "row (point_of a) = length ?ns" by (simp add: row_point_of)
  have fa: "row (point_of a) = 0 \<Longrightarrow> char_count (hd (lines_of a)) = ?x" using row_zero_lines [of a] by (metis list.sel(1))
  obtain r m where A: "longest 0 (0, 0) (map char_count (lines_of a)) = (r, m)" by (cases "longest 0 (0, 0) (map char_count (lines_of a))")
  obtain r' m' where B: "longest 0 (0, 0) (map char_count (lines_of b)) = (r', m')" by (cases "longest 0 (0, 0) (map char_count (lines_of b))")
  have pair: "(longest_row (summary_of t), longest_row_chars (summary_of t)) = longest 0 (0, 0) (map char_count (lines_of t))" for t
    by (simp add: summary_of_def)
  have "(longest_row (summary_of (a @ b)), longest_row_chars (summary_of (a @ b))) =
      (longest_row (summary_add (summary_of a) (summary_of b)), longest_row_chars (summary_add (summary_of a) (summary_of b)))"
    unfolding pair long summary_add_longest using pair [of a] pair [of b] ra
    by (simp only: A B prod.inject Let_def case_prod_conv) (simp add: summary_of_sel)
  then have row: "longest_row (summary_of (a @ b)) = longest_row (summary_add (summary_of a) (summary_of b))"
    and chars: "longest_row_chars (summary_of (a @ b)) = longest_row_chars (summary_add (summary_of a) (summary_of b))" by (simp_all only: prod.inject)
  show ?thesis
  proof (rule text_summary.equality)
    show "text_len (summary_of (a @ b)) = text_len (summary_add (summary_of a) (summary_of b))"
      by (simp add: summary_of_sel summary_add_sel)
    show "text_chars (summary_of (a @ b)) = text_chars (summary_add (summary_of a) (summary_of b))"
      by (simp add: summary_of_sel summary_add_sel counts_append)
    show "text_len_utf16 (summary_of (a @ b)) = text_len_utf16 (summary_add (summary_of a) (summary_of b))"
      by (simp add: summary_of_sel summary_add_sel counts_append assms)
    show "text_lines (summary_of (a @ b)) = text_lines (summary_add (summary_of a) (summary_of b))"
      by (simp add: summary_of_sel summary_add_sel point_of_append)
    show "first_line_chars (summary_of (a @ b)) = first_line_chars (summary_add (summary_of a) (summary_of b))"
      using fa by (simp add: summary_of_sel summary_add_sel first)
    show "last_line_chars (summary_of (a @ b)) = last_line_chars (summary_add (summary_of a) (summary_of b))"
      by (simp add: summary_of_sel summary_add_sel last)
    show "last_line_len_utf16 (summary_of (a @ b)) = last_line_len_utf16 (summary_add (summary_of a) (summary_of b))"
      by (simp add: summary_of_sel summary_add_sel last16)
  qed (use row chars in simp_all)
qed

subsection \<open>Addition is lawful\<close>

text \<open>
  Addition is not associative on arbitrary values of the record, but it is on those that describe texts: the
  longest row is at least as long as the first one, and a text of one row has it as first, last and longest row.
\<close>

definition consistent :: "text_summary \<Rightarrow> bool" where
  "consistent s \<longleftrightarrow> first_line_chars s \<le> longest_row_chars s \<and>
     (longest_row_chars s = first_line_chars s \<longrightarrow> longest_row s = 0) \<and>
     (row (text_lines s) = 0 \<longrightarrow> longest_row_chars s = first_line_chars s \<and> last_line_chars s = first_line_chars s)"

lemma consistent_default [simp]: "consistent summary_default"
  by (simp add: consistent_def summary_default_def)

lemma row_point_add [simp]: "row (point_add p q) = row p + row q"
  by (simp add: point_add_def)

lemma summary_add_longest_sel:
  "longest_row_chars (summary_add s t) = max (max (longest_row_chars s) (last_line_chars s + first_line_chars t)) (longest_row_chars t)"
  "longest_row (summary_add s t) =
     (if longest_row_chars t > max (longest_row_chars s) (last_line_chars s + first_line_chars t) then row (text_lines s) + longest_row t
      else if last_line_chars s + first_line_chars t > longest_row_chars s then row (text_lines s) else longest_row s)"
  by (auto simp: summary_add_def Let_def)

lemma consistent_add: "consistent s \<Longrightarrow> consistent t \<Longrightarrow> consistent (summary_add s t)"
  unfolding consistent_def summary_add_sel summary_add_longest_sel by (auto simp: max_def split: if_splits)

lemma summary_add_default: "consistent s \<Longrightarrow> summary_add summary_default s = s"
  by (rule text_summary.equality)
    (auto simp: summary_add_sel summary_add_longest_sel consistent_def summary_default_def point_zero_def point_add_def max_def point.expand)

text \<open>The longest row of three texts, when the middle one has one row (of \<open>b\<close> characters) and when it has more.\<close>

lemma longest_row_assoc_one:
  fixes a b c cl la R r ur :: nat
  shows "(if max (max (max a (la + b)) b) (la + b + c) < cl then R + ur
      else if max (max a (la + b)) b < la + b + c then R
      else if max a (la + b) < b then R else if a < la + b then R else r) =
    (if max a (la + (b + c)) < max (max b (b + c)) cl then R + (if max b (b + c) < cl then ur else if b < b + c then 0 else 0)
      else if a < la + (b + c) then R else r)"
  by (auto simp: max_def)

lemma longest_row_assoc_more:
  fixes a c cl la R r ur tf tl tz tr tlr :: nat
  shows "(if cl > max (max (max a (la + tf)) tl) (tz + c) then R + tr + ur
      else if tz + c > max (max a (la + tf)) tl then R + tr
      else if tl > max a (la + tf) then R + tlr else if la + tf > a then R else r) =
    (if max (max tl (tz + c)) cl > max a (la + tf)
      then R + (if cl > max tl (tz + c) then tr + ur else if tz + c > tl then tr else tlr)
      else if la + tf > a then R else r)"
  by (auto simp: max_def)

lemma summary_add_assoc:
  assumes "consistent t"
  shows "summary_add (summary_add s t) u = summary_add s (summary_add t u)"
proof (rule text_summary.equality)
  show "longest_row_chars (summary_add (summary_add s t) u) = longest_row_chars (summary_add s (summary_add t u))"
    using assms by (auto simp: summary_add_sel summary_add_longest_sel consistent_def max_def)
  show "longest_row (summary_add (summary_add s t) u) = longest_row (summary_add s (summary_add t u))"
  proof (cases "row (text_lines t) = 0")
    case True
    then have t: "longest_row_chars t = first_line_chars t" "last_line_chars t = first_line_chars t" "longest_row t = 0"
      using assms by (simp_all add: consistent_def)
    show ?thesis
      by (simp only: summary_add_sel summary_add_longest_sel True t row_point_add if_True add_0_right add_0_left refl simp_thms longest_row_assoc_one)
  next
    case False
    show ?thesis
      by (simp only: summary_add_sel summary_add_longest_sel row_point_add False if_False longest_row_assoc_more add_is_0 simp_thms)
  qed
qed (simp_all add: summary_add_sel point_add_assoc)

lemma consistent_rows:
  assumes "ns \<noteq> []" "first_line_chars s = hd ns" "last_line_chars s = last ns" "row (text_lines s) = length ns - 1"
    and "(longest_row s, longest_row_chars s) = longest 0 (0, 0) ns"
  shows "consistent s"
proof -
  obtain n ms where ns: "ns = n # ms" using assms(1) by (cases ns) auto
  define M where "M = longest (Suc 0) (0, n) ms"
  have eq: "(longest_row s, longest_row_chars s) = M" using ns assms(5) by (cases "n = 0") (simp_all add: M_def)
  have "n \<le> snd M" using longest_ge [of "(0, n)" "Suc 0"] by (simp add: M_def)
  moreover have "snd M = n \<Longrightarrow> fst M = 0" using longest_keeps [of "Suc 0" "(0, n)" ms] by (simp add: M_def)
  moreover have "ms = [] \<Longrightarrow> snd M = n" by (simp add: M_def)
  ultimately show ?thesis using assms(2-4) ns eq [symmetric] by (auto simp: consistent_def)
qed

lemma consistent_of: "consistent (summary_of t)"
  by (rule consistent_rows [of "map char_count (lines_of t)"]) (simp_all add: summary_of_def hd_map last_map row_point_of)

subsection \<open>The pass over a string\<close>

lemma summary_of_char:
  assumes "char_ok c"
  shows "summary_of c = (if c = [10] then summary_newline
    else \<lparr>text_len = length c, text_chars = 1, text_len_utf16 = char_len_utf16 (hd c), text_lines = Point 0 (length c),
      first_line_chars = 1, last_line_chars = 1, last_line_len_utf16 = char_len_utf16 (hd c), longest_row = 0, longest_row_chars = 1\<rparr>)"
proof (cases "c = [10]")
  case True
  then show ?thesis using count_char [OF assms] by (simp add: summary_of_def summary_newline_def point_of_def char_len_utf16_def)
next
  case False
  then have "lines_of c = [c]" using char_newline [OF assms] by (auto intro: lines_of_no_newline)
  then show ?thesis using False count_char [OF assms] by (simp add: summary_of_def point_of_def)
qed

lemma summary_char_add:
  assumes "char_ok c" "consistent s" "last_line_chars s \<le> longest_row_chars s"
  shows "summary_char s c = (summary_add s (summary_of c))\<lparr>text_len := text_len s\<rparr>"
proof (cases "c = [10]")
  case True
  then show ?thesis using assms
    by (intro text_summary.equality)
      (auto simp: summary_char_def Let_def summary_of_char summary_newline_def summary_add_sel summary_add_longest_sel
        point_add_def char_len_utf16_def)
next
  case False
  then show ?thesis using assms
    by (intro text_summary.equality)
      (auto simp: summary_char_def Let_def summary_of_char summary_add_sel summary_add_longest_sel point_add_def consistent_def)
qed

lemma longest_mem: "n \<in> set ns \<Longrightarrow> n \<le> snd (longest r best ns)"
proof (induction ns arbitrary: r best)
  case (Cons m ns)
  show ?case
  proof (cases "n = m")
    case True
    then show ?thesis using longest_ge [of "(r, n)" "Suc r" ns] longest_ge [of best "Suc r" ns] by auto
  next
    case False
    then show ?thesis using Cons by simp
  qed
qed simp

lemma last_le_longest: "last_line_chars (summary_of t) \<le> longest_row_chars (summary_of t)"
  by (auto simp: summary_of_def intro!: longest_mem)

lemma summary_fold:
  assumes "\<forall>c \<in> set cs. char_ok c"
  shows "foldl summary_char summary_default cs = (summary_of (concat cs))\<lparr>text_len := 0\<rparr>"
  using assms
proof (induction cs rule: rev_induct)
  case Nil
  then show ?case by (simp add: summary_of_def summary_default_def)
next
  case (snoc c cs)
  let ?s = "(summary_of (concat cs))\<lparr>text_len := 0\<rparr>"
  have ok: "char_ok c" "utf8_ok (concat cs)"
  proof -
    show "char_ok c" using snoc by simp
    have "utf8_ok (concat cs')" if "\<forall>c \<in> set cs'. char_ok c" for cs' using that by (induction cs') (auto simp: utf8_ok_char)
    then show "utf8_ok (concat cs)" using snoc by simp
  qed
  have "consistent ?s" using consistent_of [of "concat cs"] by (simp add: consistent_def)
  moreover have "last_line_chars ?s \<le> longest_row_chars ?s" using last_le_longest [of "concat cs"] by simp
  ultimately have "summary_char ?s c = (summary_add ?s (summary_of c))\<lparr>text_len := 0\<rparr>"
    using summary_char_add [OF ok(1)] by simp
  also have "\<dots> = (summary_add (summary_of (concat cs)) (summary_of c))\<lparr>text_len := 0\<rparr>"
    by (rule text_summary.equality) (simp_all add: summary_add_sel summary_add_longest_sel)
  finally show ?case using snoc by (simp add: summary_of_append [OF ok(2)])
qed

lemma summary_from_str_eq: "utf8_ok t \<Longrightarrow> summary_from_str t = summary_of t"
  unfolding summary_from_str_def utf8_ok_def using summary_fold [of "chars_of t"]
  by (simp add: concat_chars_of) (simp add: summary_of_def)

subsection \<open>Properties\<close>

text \<open>C40 (summary_concatenates): adding the summaries of two strings gives the summary of their concatenation: every measure, the longest
  row included, is additive across the join.\<close>

theorem summary_concatenates:
  assumes "utf8_ok a" "utf8_ok b"
  shows "summary_from_str (a @ b) = summary_add (summary_from_str a) (summary_from_str b)"
  using assms by (simp add: summary_from_str_eq utf8_append summary_of_append)

theorem summary_concatenates_witness:
  "summary_from_str ([104, 10, 195, 169] @ [108, 10, 240, 159, 166, 128]) =
    summary_add (summary_from_str [104, 10, 195, 169]) (summary_from_str [108, 10, 240, 159, 166, 128])"
  by (rule summary_concatenates) code_simp+

text \<open>Fact (add_newline_doubles_utf16): \<open>TextSummary::add_newline\<close> is not the addition of a newline: it doubles the length in UTF-16 code units
  before adding one, and leaves the number of characters as it is.\<close>

theorem add_newline_doubles_utf16:
  "text_len_utf16 (add_newline s) = 2 * text_len_utf16 s + 1 \<and> text_chars (add_newline s) = text_chars s \<and>
   text_len_utf16 (summary_add s summary_newline) = text_len_utf16 s + 1 \<and>
   text_chars (summary_add s summary_newline) = text_chars s + 1"
  by (simp add: add_newline_def summary_add_sel summary_newline_def)

end
