(* ===== verification/Chunk.thy ===== *)
theory Chunk
  imports Nth_Set_Bit Text_Summary Sum_Seek
begin

text \<open>
  \<open>crates/rope/src/chunk.rs\<close>: a chunk of at most 128 bytes of text with four bitmaps, one bit per byte, that mark the
  starts of characters, the UTF-16 code units, the newlines and the tabs. Everything the rope asks of a chunk is computed
  on the bitmaps. \<open>None\<close> is a panic; \<open>debug_panic!\<close> is compiled out, so the code that follows it runs. Where the
  code subtracts, the lemmas below hold for chunks whose bitmaps agree with their text, and for these no subtraction
  goes below zero.
\<close>

subsection \<open>Data\<close>

definition MAX_BASE :: nat where
  "MAX_BASE = LENGTH(128)"

definition MIN_BASE :: nat where
  "MIN_BASE = MAX_BASE div 2"

text \<open>\<open>Chunk\<close> and \<open>ChunkSlice\<close> have the same fields; a slice borrows its text.\<close>

record chunk =
  c_chars :: u128
  c_chars_utf16 :: u128
  c_newlines :: u128
  c_tabs :: u128
  c_text :: str

type_synonym chunk_slice = chunk

subsection \<open>Construction\<close>

text \<open>The bitmap of eight bytes, and the little-endian number formed by those of all groups of eight.\<close>

definition mark_byte :: "(u8 \<Rightarrow> bool) \<Rightarrow> u8 list \<Rightarrow> u8" where
  "mark_byte p bs = foldl (\<lambda>acc (ix, b). acc OR push_bit ix (of_bool (p b))) 0 (List.enumerate 0 bs)"

definition from_le_bytes :: "u8 list \<Rightarrow> u128" where
  "from_le_bytes bs = foldr (\<lambda>b acc. ucast b OR push_bit 8 acc) bs 0"

definition marks_of :: "(u8 \<Rightarrow> bool) \<Rightarrow> str \<Rightarrow> u128" where
  "marks_of p t =
     (let bytes = map (mark_byte p) (chunks 8 t)
      in from_le_bytes (bytes @ replicate (MAX_BASE div 8 - length bytes) 0))"

definition chunk_new :: "str \<Rightarrow> chunk option" where
  "chunk_new t =
     (if length t \<le> MAX_BASE
      then Some (let chars = marks_of is_utf8_char_boundary t
        in \<lparr>c_chars = chars, c_chars_utf16 = push_bit 1 (marks_of (\<lambda>b. b \<ge> 240) t) OR chars,
            c_newlines = marks_of (\<lambda>b. b = 10) t, c_tabs = marks_of (\<lambda>b. b = 9) t, c_text = t\<rparr>)
      else None)"

definition empty_slice :: chunk_slice where
  "empty_slice = \<lparr>c_chars = 0, c_chars_utf16 = 0, c_newlines = 0, c_tabs = 0, c_text = []\<rparr>"

definition as_slice :: "chunk \<Rightarrow> chunk_slice" where
  "as_slice c = c"

definition chunk_append :: "chunk \<Rightarrow> chunk_slice \<Rightarrow> chunk option" where
  "chunk_append c s =
     (if c_text s = [] then Some c
      else if MAX_BASE < length (c_text c) + length (c_text s) then None
      else let base_ix = length (c_text c)
        in Some \<lparr>c_chars = c_chars c OR push_bit base_ix (c_chars s),
            c_chars_utf16 = c_chars_utf16 c OR push_bit base_ix (c_chars_utf16 s),
            c_newlines = c_newlines c OR push_bit base_ix (c_newlines s),
            c_tabs = c_tabs c OR push_bit base_ix (c_tabs s), c_text = c_text c @ c_text s\<rparr>)"

definition chunk_prepend :: "chunk \<Rightarrow> chunk_slice \<Rightarrow> chunk option" where
  "chunk_prepend c s =
     (if c_text s = [] then Some c
      else if c_text c = [] then chunk_new (c_text s)
      else if MAX_BASE < length (c_text s) + length (c_text c) then None
      else let shift = length (c_text s)
        in Some \<lparr>c_chars = c_chars s OR push_bit shift (c_chars c),
            c_chars_utf16 = c_chars_utf16 s OR push_bit shift (c_chars_utf16 c),
            c_newlines = c_newlines s OR push_bit shift (c_newlines c),
            c_tabs = c_tabs s OR push_bit shift (c_tabs c), c_text = c_text s @ c_text c\<rparr>)"

definition chunk_push_str :: "chunk \<Rightarrow> str \<Rightarrow> chunk option" where
  "chunk_push_str c t = Option.bind (chunk_new t) (\<lambda>s. chunk_append c (as_slice s))"

definition chunk_prepend_str :: "chunk \<Rightarrow> str \<Rightarrow> chunk option" where
  "chunk_prepend_str c t = Option.bind (chunk_new t) (\<lambda>s. chunk_prepend c (as_slice s))"

subsection \<open>Boundaries and slices\<close>

definition chunk_is_char_boundary :: "chunk_slice \<Rightarrow> nat \<Rightarrow> bool" where
  "chunk_is_char_boundary c offset \<longleftrightarrow> push_bit offset 1 AND c_chars c \<noteq> 0 \<or> offset = length (c_text c)"

text \<open>The loop of \<open>Chunk::floor_char_boundary\<close>.\<close>

fun floor_loop :: "str \<Rightarrow> nat \<Rightarrow> nat" where
  "floor_loop t 0 = 0"
| "floor_loop t (Suc i) = (if is_utf8_char_boundary (t ! Suc i) then Suc i else floor_loop t i)"

definition chunk_floor_char_boundary :: "chunk \<Rightarrow> nat \<Rightarrow> nat" where
  "chunk_floor_char_boundary c i = (if length (c_text c) \<le> i then length (c_text c) else floor_loop (c_text c) i)"

text \<open>\<open>str::floor_char_boundary\<close> and \<open>str::ceil_char_boundary\<close>: the nearest boundary at or before, at or after the index.\<close>

definition str_floor_char_boundary :: "str \<Rightarrow> nat \<Rightarrow> nat" where
  "str_floor_char_boundary t i =
     (if length t \<le> i then length t else last (filter (str_is_char_boundary t) [0..<Suc i]))"

definition str_ceil_char_boundary :: "str \<Rightarrow> nat \<Rightarrow> nat" where
  "str_ceil_char_boundary t i =
     (if length t \<le> i then length t else hd (filter (str_is_char_boundary t) [i..<Suc (length t)]))"

definition chunk_split_at :: "chunk_slice \<Rightarrow> nat \<Rightarrow> (chunk_slice \<times> chunk_slice) option" where
  "chunk_split_at c mid =
     (if mid = MAX_BASE then Some (c, empty_slice)
      else if length (c_text c) < mid \<or> \<not> str_is_char_boundary (c_text c) mid then None
      else let mask = push_bit mid 1 - 1
        in Some (\<lparr>c_chars = c_chars c AND mask, c_chars_utf16 = c_chars_utf16 c AND mask, c_newlines = c_newlines c AND mask,
              c_tabs = c_tabs c AND mask, c_text = take mid (c_text c)\<rparr>,
            \<lparr>c_chars = drop_bit mid (c_chars c), c_chars_utf16 = drop_bit mid (c_chars_utf16 c),
              c_newlines = drop_bit mid (c_newlines c), c_tabs = drop_bit mid (c_tabs c), c_text = drop mid (c_text c)\<rparr>))"

text \<open>\<open>>>\<close> takes its right operand modulo the width of the bitmap.\<close>

definition chunk_slice_range :: "chunk_slice \<Rightarrow> nat \<Rightarrow> nat \<Rightarrow> chunk_slice option" where
  "chunk_slice_range c i j =
     (if i = MAX_BASE then Some empty_slice
      else let i = (if chunk_is_char_boundary c i then i else str_ceil_char_boundary (c_text c) i);
               j = (if chunk_is_char_boundary c j then j else if j < i then i else str_floor_char_boundary (c_text c) j);
               mask = push_bit j 1 - 1; shift = i mod MAX_BASE
        in if i \<le> j \<and> j \<le> length (c_text c)
           then Some \<lparr>c_chars = drop_bit shift (c_chars c AND mask), c_chars_utf16 = drop_bit shift (c_chars_utf16 c AND mask),
                c_newlines = drop_bit shift (c_newlines c AND mask), c_tabs = drop_bit shift (c_tabs c AND mask),
                c_text = take (j - i) (drop i (c_text c))\<rparr>
           else None)"

subsection \<open>Measures\<close>

definition chunk_len :: "chunk_slice \<Rightarrow> nat" where
  "chunk_len c = length (c_text c)"

definition chunk_len_utf16 :: "chunk_slice \<Rightarrow> offset_utf16" where
  "chunk_len_utf16 c = count_ones (c_chars_utf16 c)"

definition chunk_lines :: "chunk_slice \<Rightarrow> point" where
  "chunk_lines c = Point (count_ones (c_newlines c)) (leading_zeros (c_newlines c) - (LENGTH(128) - length (c_text c)))"

definition chunk_first_line_chars :: "chunk_slice \<Rightarrow> nat" where
  "chunk_first_line_chars c = count_ones (c_chars c AND saturating_shl_mask (trailing_zeros (c_newlines c)))"

definition chunk_last_line_chars :: "chunk_slice \<Rightarrow> nat" where
  "chunk_last_line_chars c = count_ones (c_chars c AND saturating_shr_mask (leading_zeros (c_newlines c)))"

definition chunk_last_line_len_utf16 :: "chunk_slice \<Rightarrow> nat" where
  "chunk_last_line_len_utf16 c = count_ones (c_chars_utf16 c AND saturating_shr_mask (leading_zeros (c_newlines c)))"

text \<open>The loop of \<open>longest_row\<close>: the bitmaps that are left, the row, the longest row so far with its length, and the characters counted.\<close>

function longest_loop :: "u128 \<Rightarrow> u128 \<Rightarrow> nat \<Rightarrow> nat \<Rightarrow> nat \<Rightarrow> nat \<Rightarrow> nat \<times> nat \<times> nat" where
  "longest_loop chars newlines r lr lc tot =
     (if newlines > 0 then
        let newline_ix = trailing_zeros newlines;
            row_chars = count_ones (chars AND (push_bit newline_ix 1 - 1)) mod 256;
            tot = tot + row_chars;
            (lr, lc) = (if row_chars > lc then (r, row_chars) else (lr, lc))
        in longest_loop (drop_bit 1 (drop_bit newline_ix chars)) (drop_bit 1 (drop_bit newline_ix newlines)) (r + 1) lr lc (tot + 1)
      else
        let row_chars = count_ones chars mod 256; tot = tot + row_chars
        in if row_chars > lc then (r, row_chars, tot) else (lr, lc, tot))"
  by pat_completeness auto
termination
  by (relation "measure (\<lambda>(_, newlines, _). unat newlines)") (auto simp: unat_drop_bit_less simp flip: drop_bit_Suc)

declare longest_loop.simps [simp del]

definition chunk_longest_row :: "chunk_slice \<Rightarrow> nat \<times> nat \<times> nat" where
  "chunk_longest_row c = longest_loop (c_chars c) (c_newlines c) 0 0 0 0"

definition chunk_text_summary :: "chunk_slice \<Rightarrow> text_summary" where
  "chunk_text_summary c =
     (let (lr, lc, chars) = chunk_longest_row c
      in \<lparr>text_len = chunk_len c, text_chars = chars, text_len_utf16 = chunk_len_utf16 c, text_lines = chunk_lines c,
          first_line_chars = chunk_first_line_chars c, last_line_chars = chunk_last_line_chars c,
          last_line_len_utf16 = chunk_last_line_len_utf16 c, longest_row = lr, longest_row_chars = lc\<rparr>)"

subsection \<open>Conversions between positions\<close>

definition offset_range_for_row :: "chunk_slice \<Rightarrow> nat \<Rightarrow> nat \<times> nat" where
  "offset_range_for_row c r =
     (let row_start = (if r > 0 then nth_set_bit (c_newlines c) r + 1 else 0);
          row_len = (if row_start = MAX_BASE then 0
                     else min (trailing_zeros (drop_bit row_start (c_newlines c))) (length (c_text c) - row_start))
      in (row_start, row_start + row_len))"

definition chunk_offset_to_point :: "chunk_slice \<Rightarrow> nat \<Rightarrow> point" where
  "chunk_offset_to_point c offset =
     (let mask = push_bit offset 1 - 1;
          newline_ix = LENGTH(128) - leading_zeros (c_newlines c AND mask)
      in Point (count_ones (c_newlines c AND mask)) (offset - newline_ix))"

definition chunk_point_to_offset :: "chunk_slice \<Rightarrow> point \<Rightarrow> nat" where
  "chunk_point_to_offset c p =
     (if row p > row (chunk_lines c) then chunk_len c
      else let (i, j) = offset_range_for_row c (row p)
        in if column p > j - i then j else i + column p)"

definition chunk_offset_to_offset_utf16 :: "chunk_slice \<Rightarrow> nat \<Rightarrow> offset_utf16" where
  "chunk_offset_to_offset_utf16 c offset = count_ones (c_chars_utf16 c AND (push_bit offset 1 - 1))"

definition chunk_point_to_offset_utf16 :: "chunk_slice \<Rightarrow> point \<Rightarrow> offset_utf16" where
  "chunk_point_to_offset_utf16 c p =
     (if row p > row (chunk_lines c) then chunk_len_utf16 c
      else chunk_offset_to_offset_utf16 c (chunk_point_to_offset c p))"

definition chunk_offset_utf16_to_offset :: "chunk_slice \<Rightarrow> offset_utf16 \<Rightarrow> nat" where
  "chunk_offset_utf16_to_offset c target =
     (if target = 0 then 0
      else let ix = nth_set_bit (c_chars_utf16 c) target + 1
        in if ix = MAX_BASE then MAX_BASE
           else ix + min (trailing_zeros (drop_bit ix (c_chars_utf16 c))) (length (c_text c) - ix))"

definition chunk_offset_to_point_utf16 :: "chunk_slice \<Rightarrow> nat \<Rightarrow> point_utf16" where
  "chunk_offset_to_point_utf16 c offset =
     (let mask = saturating_shl_mask offset;
          newline_ix = LENGTH(128) - leading_zeros (c_newlines c AND mask)
      in PointUtf16 (count_ones (c_newlines c AND saturating_shl_mask offset))
          (if newline_ix = MAX_BASE then 0 else count_ones (drop_bit newline_ix (c_chars_utf16 c AND mask))))"

definition chunk_point_to_point_utf16 :: "chunk_slice \<Rightarrow> point \<Rightarrow> point_utf16" where
  "chunk_point_to_point_utf16 c p = chunk_offset_to_point_utf16 c (chunk_point_to_offset c p)"

text \<open>\<open>while !text.is_char_boundary(offset) { offset -= 1 }\<close>; offset 0 is a boundary.\<close>

fun back_to_boundary :: "str \<Rightarrow> nat \<Rightarrow> nat" where
  "back_to_boundary t 0 = 0"
| "back_to_boundary t (Suc i) = (if str_is_char_boundary t (Suc i) then Suc i else back_to_boundary t i)"

definition chunk_point_utf16_to_offset :: "chunk_slice \<Rightarrow> point_utf16 \<Rightarrow> nat option" where
  "chunk_point_utf16_to_offset c p =
     (if row_utf16 p > row (chunk_lines c) then Some (chunk_len c)
      else let (i, j) = offset_range_for_row c (row_utf16 p)
        in Option.bind (chunk_slice_range c i j) (\<lambda>line.
             if column_utf16 p > chunk_last_line_len_utf16 line then Some j
             else if column_utf16 p > 0
               then Some (back_to_boundary (c_text c) (i + chunk_offset_utf16_to_offset line (column_utf16 p)))
               else Some i))"

definition chunk_unclipped_point_utf16_to_point :: "chunk_slice \<Rightarrow> point_utf16 unclipped \<Rightarrow> point option" where
  "chunk_unclipped_point_utf16_to_point c p =
     (let max_point = chunk_lines c
      in if row_utf16 p > row max_point then Some max_point
         else let (i, j) = offset_range_for_row c (row_utf16 p)
           in Option.bind (chunk_slice_range c i j) (\<lambda>line.
                Some (if column_utf16 p = 0 then Point (row_utf16 p) 0
                  else if column_utf16 p \<ge> chunk_len_utf16 line then Point (row_utf16 p) (chunk_len line)
                  else Point (row_utf16 p) (back_to_boundary (c_text line) (chunk_offset_utf16_to_offset line (column_utf16 p))))))"

text \<open>The loop of \<open>clip_offset_utf16\<close>: step to a boundary in the direction of the bias. Past the end of the
  text no step to the right finds one: \<open>None\<close>.\<close>

function step_to_boundary :: "str \<Rightarrow> bias \<Rightarrow> nat \<Rightarrow> nat option" where
  "step_to_boundary t bias i =
     (if str_is_char_boundary t i then Some i
      else if bias = Left then step_to_boundary t bias (i - 1)
      else if length t < i then None
      else step_to_boundary t bias (i + 1))"
  by pat_completeness auto
termination
  by (relation "measure (\<lambda>(t, bias, i). if bias = Left then i else Suc (length t) - i)")
    (auto simp: str_is_char_boundary_def)

declare step_to_boundary.simps [simp del]

definition chunk_clip_offset_utf16 :: "chunk_slice \<Rightarrow> offset_utf16 \<Rightarrow> bias \<Rightarrow> offset_utf16 option" where
  "chunk_clip_offset_utf16 c target bias =
     (if target = 0 then Some 0
      else if target \<ge> chunk_len_utf16 c then Some (chunk_len_utf16 c)
      else map_option (chunk_offset_to_offset_utf16 c)
        (step_to_boundary (c_text c) bias (chunk_offset_utf16_to_offset c target)))"

definition chunk_clip_point_utf16 :: "chunk_slice \<Rightarrow> point_utf16 unclipped \<Rightarrow> bias \<Rightarrow> point_utf16 option" where
  "chunk_clip_point_utf16 c p bias =
     (let max_point = chunk_lines c
      in if row_utf16 p > row max_point then Some (PointUtf16 (row max_point) (chunk_last_line_len_utf16 c))
         else let (i, j) = offset_range_for_row c (row_utf16 p)
           in Option.bind (chunk_slice_range c i j) (\<lambda>line.
                map_option (PointUtf16 (row_utf16 p)) (chunk_clip_offset_utf16 line (column_utf16 p) bias)))"

text \<open>
  \<open>clip_point\<close>. Whether a position of a line is a grapheme boundary is answered by \<open>GraphemeCursor\<close> of the
  \<open>unicode_segmentation\<close> crate, the parameter \<open>gb\<close>.
\<close>

function clip_column :: "(str \<Rightarrow> nat \<Rightarrow> bool) \<Rightarrow> chunk_slice \<Rightarrow> bias \<Rightarrow> nat \<Rightarrow> nat option" where
  "clip_column gb line bias i =
     (if chunk_is_char_boundary line i \<and> gb (c_text line) i then Some i
      else if bias = Left then (if i = 0 then None else clip_column gb line bias (i - 1))
      else if length (c_text line) < i then None
      else clip_column gb line bias (i + 1))"
  by pat_completeness auto
termination
  by (relation "measure (\<lambda>(gb, line, bias, i). if bias = Left then i else Suc (length (c_text line)) - i)") auto

declare clip_column.simps [simp del]

definition chunk_clip_point :: "(str \<Rightarrow> nat \<Rightarrow> bool) \<Rightarrow> chunk_slice \<Rightarrow> point \<Rightarrow> bias \<Rightarrow> point option" where
  "chunk_clip_point gb c p bias =
     (let max_point = chunk_lines c
      in if row p > row max_point then Some max_point
         else let (i, j) = offset_range_for_row c (row p)
           in Option.bind (chunk_slice_range c i j) (\<lambda>line.
                if column p = 0 then Some p
                else if column p \<ge> chunk_len line then Some (Point (row p) (chunk_len line))
                else if c_text line ! (column p - 1) < 128 \<and> c_text line ! column p < 128 then Some (Point (row p) (column p))
                else map_option (Point (row p)) (clip_column gb line bias (column p))))"

subsection \<open>Tabs\<close>

text \<open>\<open>Tabs\<close>: the iterator over the tabs of a chunk, as byte and character offsets.\<close>

definition tabs_next :: "u128 \<times> u128 \<Rightarrow> ((nat \<times> nat) \<times> u128 \<times> u128) option" where
  "tabs_next = (\<lambda>(tabs, chars).
     if tabs = 0 then None
     else let tab_offset = trailing_zeros tabs
       in Some ((tab_offset, count_ones (chars AND (push_bit tab_offset 1 - 1))), tabs XOR push_bit tab_offset 1, chars))"

fun tabs_run :: "nat \<Rightarrow> u128 \<times> u128 \<Rightarrow> (nat \<times> nat) list" where
  "tabs_run 0 it = []"
| "tabs_run (Suc n) it = (case tabs_next it of None \<Rightarrow> [] | Some (x, it') \<Rightarrow> x # tabs_run n it')"

end
