(* ===== verification/Chunk_Spec.thy ===== *)
theory Chunk_Spec
  imports Chunk
begin

text \<open>
  What the operations of a chunk compute, in terms of its text: the bitmaps mark what they should, and every answer
  read off them is the one that a scan of the text gives.
\<close>

subsection \<open>Chunks that agree with their text\<close>

definition chunk_of :: "str \<Rightarrow> chunk" where
  "chunk_of t = \<lparr>c_chars = of_bits (char_marks t), c_chars_utf16 = of_bits (utf16_marks t), c_newlines = of_bits (newline_marks t),
     c_tabs = of_bits (tab_marks t), c_text = t\<rparr>"

definition chunk_ok :: "chunk \<Rightarrow> bool" where
  "chunk_ok c \<longleftrightarrow> utf8_ok (c_text c) \<and> length (c_text c) \<le> MAX_BASE \<and> c = chunk_of (c_text c)"

lemma chunk_of_sel [simp]:
  "c_chars (chunk_of t) = of_bits (char_marks t)" "c_chars_utf16 (chunk_of t) = of_bits (utf16_marks t)"
  "c_newlines (chunk_of t) = of_bits (newline_marks t)" "c_tabs (chunk_of t) = of_bits (tab_marks t)" "c_text (chunk_of t) = t"
  by (simp_all add: chunk_of_def)

lemma chunk_ok_of: "chunk_ok (chunk_of t) \<longleftrightarrow> utf8_ok t \<and> length t \<le> MAX_BASE"
  by (simp add: chunk_ok_def)

lemma chunk_okE:
  assumes "chunk_ok c"
  obtains t where "c = chunk_of t" "utf8_ok t" "length t \<le> MAX_BASE"
  using assms by (auto simp: chunk_ok_def)

lemma chunk_of_Nil: "chunk_of [] = empty_slice"
  by (simp add: chunk_of_def empty_slice_def char_marks_def utf16_marks_def newline_marks_def tab_marks_def)

lemma MAX_BASE_eq [simp]: "MAX_BASE = 128" "MIN_BASE = 64"
  by (simp_all add: MAX_BASE_def MIN_BASE_def)

subsection \<open>Construction\<close>

lemma mark_byte_eq: "length bs \<le> 8 \<Longrightarrow> mark_byte p bs = of_bits (map p bs)"
proof -
  have "foldl (\<lambda>acc (ix, b). acc OR push_bit ix (of_bool (p b))) (of_bits (map p cs)) (List.enumerate (length cs) bs) =
      (of_bits (map p (cs @ bs)) :: u8)" for cs
  proof (induction bs arbitrary: cs)
    case (Cons b bs)
    have "(of_bits (map p cs) :: u8) OR push_bit (length cs) (of_bool (p b)) = of_bits (map p (cs @ [b]))"
      using of_bits_append [of "map p cs" "[p b]", where 'a = 8] by (simp add: of_bits_def)
    then show ?case using Cons.IH [of "cs @ [b]"] by simp
  qed simp
  from this [of "[]"] show ?thesis by (simp add: mark_byte_def)
qed

lemma from_le_bytes_zeros: "from_le_bytes (bs @ replicate n 0) = from_le_bytes bs"
proof -
  have "foldr (\<lambda>b acc. (ucast (b :: u8) :: u128) OR push_bit 8 acc) (replicate n 0) 0 = 0" by (induction n) simp_all
  then show ?thesis by (simp add: from_le_bytes_def)
qed

lemma marks_of_eq: "marks_of p t = of_bits (map p t)"
proof -
  have "from_le_bytes (map (mark_byte p) (chunks 8 t)) = of_bits (map p t)"
  proof (induction "length t" arbitrary: t rule: less_induct)
    case less
    show ?case
    proof (cases "t = []")
      case True
      then show ?thesis by (simp add: chunks.simps from_le_bytes_def)
    next
      case False
      let ?c = "take 8 t" and ?r = "drop 8 t"
      have ch: "chunks 8 t = ?c # chunks 8 ?r" using False by (subst chunks.simps) simp
      have IH: "from_le_bytes (map (mark_byte p) (chunks 8 ?r)) = of_bits (map p ?r)" using False by (intro less) simp
      have "from_le_bytes (map (mark_byte p) (chunks 8 t)) = ucast (of_bits (map p ?c) :: u8) OR push_bit 8 (of_bits (map p ?r))"
        using IH mark_byte_eq [of ?c p] by (simp add: ch from_le_bytes_def)
      also have "ucast (of_bits (map p ?c) :: u8) = (of_bits (map p ?c) :: u128)"
        by (rule bit_word_eqI) (auto simp: bit_simps)
      also have "of_bits (map p ?c) OR push_bit 8 (of_bits (map p ?r)) = (of_bits (map p t) :: u128)"
      proof (cases "length t \<le> 8")
        case True
        then show ?thesis by simp
      next
        case False
        then have "length (map p ?c) = 8" by simp
        then show ?thesis using of_bits_append [of "map p ?c" "map p ?r", where 'a = 128]
          by (metis append_take_drop_id map_append)
      qed
      finally show ?thesis .
    qed
  qed
  then show ?thesis by (simp add: marks_of_def Let_def from_le_bytes_zeros)
qed

lemma chunk_new_eq:
  assumes "utf8_ok t" "length t \<le> 128"
  shows "chunk_new t = Some (chunk_of t)"
proof -
  have "push_bit 1 (of_bits (map (\<lambda>b. 240 \<le> b) t)) = (of_bits (False # map (\<lambda>b. 240 \<le> b) t) :: u128)"
    using push_bit_of_bits [of 1 "map (\<lambda>b. 240 \<le> b) t", where 'a = 128] by (simp only: replicate_Suc replicate_0 One_nat_def append.simps)
  moreover have "of_bits (False # map (\<lambda>b. 240 \<le> b) t) OR of_bits (char_marks t) = (of_bits (utf16_marks t) :: u128)"
  proof (rule bit_word_eqI)
    fix i assume "i < LENGTH(128)"
    show "bit (of_bits (False # map (\<lambda>b. 240 \<le> b) t) OR of_bits (char_marks t) :: u128) i \<longleftrightarrow> bit (of_bits (utf16_marks t) :: u128) i"
    proof (cases "i = length t")
      case True
      then show ?thesis using utf8_last [OF assms(1)] \<open>i < LENGTH(128)\<close>
        by (cases "t = []") (simp_all add: bit_of_bits bit_or_iff last_conv_nth nth_Cons')
    next
      case False
      then show ?thesis using \<open>i < LENGTH(128)\<close>
        by (auto simp: bit_of_bits bit_or_iff nth_Cons' nth_utf16_marks char_marks_def)
    qed
  qed
  ultimately have "push_bit 1 (of_bits (map (\<lambda>b. 240 \<le> b) t)) OR of_bits (char_marks t) = (of_bits (utf16_marks t) :: u128)" by simp
  then show ?thesis using assms
    by (simp add: chunk_new_def marks_of_eq chunk_of_def Let_def char_marks_def newline_marks_def tab_marks_def)
qed

lemma chunk_append_eq:
  assumes "utf8_ok a" "length a + length b \<le> 128"
  shows "chunk_append (chunk_of a) (chunk_of b) = Some (chunk_of (a @ b))"
proof (cases "b = []")
  case False
  have "of_bits (char_marks a) OR push_bit (length a) (of_bits (char_marks b)) = (of_bits (char_marks (a @ b)) :: u128)"
    "of_bits (utf16_marks a) OR push_bit (length a) (of_bits (utf16_marks b)) = (of_bits (utf16_marks (a @ b)) :: u128)"
    "of_bits (newline_marks a) OR push_bit (length a) (of_bits (newline_marks b)) = (of_bits (newline_marks (a @ b)) :: u128)"
    "of_bits (tab_marks a) OR push_bit (length a) (of_bits (tab_marks b)) = (of_bits (tab_marks (a @ b)) :: u128)"
    using of_bits_append [of "char_marks a" "char_marks b", where 'a = 128] of_bits_append [of "utf16_marks a" "utf16_marks b", where 'a = 128]
      of_bits_append [of "newline_marks a" "newline_marks b", where 'a = 128] of_bits_append [of "tab_marks a" "tab_marks b", where 'a = 128]
    by (simp_all add: marks_append utf16_marks_append assms(1))
  then show ?thesis using False assms(2) by (simp add: chunk_append_def Let_def chunk_of_def)
qed (simp add: chunk_append_def)

lemma chunk_prepend_eq:
  assumes "utf8_ok a" "utf8_ok b" "length a + length b \<le> 128"
  shows "chunk_prepend (chunk_of b) (chunk_of a) = Some (chunk_of (a @ b))"
proof (cases "a = [] \<or> b = []")
  case True
  then show ?thesis using assms by (auto simp: chunk_prepend_def chunk_new_eq)
next
  case False
  have "chunk_prepend (chunk_of b) (chunk_of a) = chunk_append (chunk_of a) (chunk_of b)"
    using False assms(3) by (simp add: chunk_prepend_def chunk_append_def Let_def)
  then show ?thesis using chunk_append_eq assms by simp
qed

lemma chunk_push_str_eq:
  assumes "utf8_ok a" "utf8_ok b" "length a + length b \<le> 128"
  shows "chunk_push_str (chunk_of a) b = Some (chunk_of (a @ b))" "chunk_prepend_str (chunk_of b) a = Some (chunk_of (a @ b))"
  using assms chunk_append_eq chunk_prepend_eq
  by (simp_all add: chunk_push_str_def chunk_prepend_str_def chunk_new_eq as_slice_def)

subsection \<open>Boundaries and slices\<close>

lemma chunk_is_char_boundary_eq:
  assumes "utf8_ok t" "length t \<le> 128"
  shows "chunk_is_char_boundary (chunk_of t) i \<longleftrightarrow> str_is_char_boundary t i"
proof -
  have "push_bit i 1 AND c_chars (chunk_of t) \<noteq> 0 \<longleftrightarrow> bit (of_bits (char_marks t) :: u128) i"
    by (simp add: bit_iff_and_push_bit_not_eq_0 and.commute)
  also have "\<dots> \<longleftrightarrow> i < length t \<and> is_utf8_char_boundary (t ! i)" using assms(2) by (auto simp: bit_of_bits char_marks_def)
  finally have "push_bit i 1 AND c_chars (chunk_of t) \<noteq> 0 \<longleftrightarrow> i < length t \<and> is_utf8_char_boundary (t ! i)" .
  moreover have "t \<noteq> [] \<Longrightarrow> is_utf8_char_boundary (t ! 0)" using utf8_hd [OF assms(1)] by (simp add: hd_conv_nth)
  ultimately show ?thesis by (auto simp: chunk_is_char_boundary_def str_is_char_boundary_def)
qed

lemma mask_eq: "push_bit j 1 - 1 = (mask j :: u128)"
  using shl_mask_eq [of j, where 'a = 128] by (simp add: saturating_shl_mask_def)

lemma chunk_split_at_eq:
  assumes "utf8_ok t" "length t \<le> 128" "str_is_char_boundary t i"
  shows "chunk_split_at (chunk_of t) i = Some (chunk_of (take i t), chunk_of (drop i t))"
proof (cases "i = 128")
  case True
  then show ?thesis using assms(2) by (simp add: chunk_split_at_def chunk_of_Nil)
next
  case False
  have i: "i \<le> length t" using assms(3) by (auto simp: str_is_char_boundary_def)
  show ?thesis using False i assms utf16_marks_drop [OF assms(1,3)]
    unfolding chunk_split_at_def Let_def mask_eq
    by (simp add: chunk_of_def of_bits_and_mask drop_bit_of_bits utf16_marks_take flip: marks_take_drop)
qed

lemma chunk_slice_range_eq:
  assumes "utf8_ok t" "length t \<le> 128" "str_is_char_boundary t i" "str_is_char_boundary t j" "i \<le> j"
  shows "chunk_slice_range (chunk_of t) i j = Some (chunk_of (take (j - i) (drop i t)))"
proof (cases "i = 128")
  case True
  then show ?thesis using assms(2) by (simp add: chunk_slice_range_def chunk_of_Nil)
next
  case False
  have j: "j \<le> length t" using assms(4) by (auto simp: str_is_char_boundary_def)
  have "drop i (take j (utf16_marks t)) = utf16_marks (take (j - i) (drop i t))"
    using utf16_marks_drop [OF assms(1,3)] utf16_marks_take [of "j - i" "drop i t"] assms(5) by (simp add: take_drop)
  moreover have "drop i (take j m) = take (j - i) (drop i m)" for m :: "bool list" using assms(5) by (simp add: take_drop)
  ultimately show ?thesis using False j assms
    unfolding chunk_slice_range_def Let_def mask_eq
    by (simp add: chunk_is_char_boundary_eq of_bits_and_mask drop_bit_of_bits) (simp add: chunk_of_def flip: marks_take_drop)
qed

subsection \<open>Rows of a bitmap\<close>

text \<open>The marks \<open>cm\<close> cut at the newlines \<open>nm\<close>, without the marks of the newlines themselves.\<close>

fun split_marks :: "bool list \<Rightarrow> bool list \<Rightarrow> bool list list" where
  "split_marks [] cm = [cm]"
| "split_marks (n # nm) cm =
     (let rest = split_marks nm (tl cm) in if n then [] # rest else (take 1 cm @ hd rest) # tl rest)"

lemma split_marks_ne [simp]: "split_marks nm cm \<noteq> []"
  by (cases nm) (simp_all add: Let_def)

lemma split_marks_step:
  "True \<in> set nm \<Longrightarrow> split_marks nm cm =
     take (length (takeWhile Not nm)) cm #
     split_marks (drop (Suc (length (takeWhile Not nm))) nm) (drop (Suc (length (takeWhile Not nm))) cm)"
proof (induction nm arbitrary: cm)
  case (Cons n nm)
  show ?case
  proof (cases n)
    case True
    then show ?thesis by (simp add: Let_def drop_Suc)
  next
    case False
    then show ?thesis using Cons by (cases cm) (simp_all add: Let_def)
  qed
qed simp

lemma split_marks_none: "True \<notin> set nm \<Longrightarrow> length cm = length nm \<Longrightarrow> split_marks nm cm = [cm]"
proof (induction nm arbitrary: cm)
  case (Cons n nm)
  then show ?case by (cases cm) (simp_all add: Let_def)
qed simp

lemma length_split_marks: "length (split_marks nm cm) = Suc (count_true nm)"
  by (induction nm cm rule: split_marks.induct) (auto simp: Let_def)

lemma longest_loop_eq:
  assumes "length cm = length nm" "length nm \<le> 128"
  shows "longest_loop (of_bits cm) (of_bits nm) r lr lc tot =
    (let rows = map count_true (split_marks nm cm); (lr', lc') = longest r (lr, lc) rows
     in (lr', lc', tot + sum_list rows + count_true nm))"
  using assms
proof (induction "length nm" arbitrary: cm nm r lr lc tot rule: less_induct)
  case less
  have pos: "(0 :: u128) < of_bits nm \<longleftrightarrow> True \<in> set nm"
    using of_bits_eq_0_iff [of nm, where 'a = 128] less.prems(2) by (simp add: word_neq_0_conv [symmetric])
  have small: "count_true m mod 256 = count_true m" if "length m \<le> 128" for m using count_true_le [of m] that by simp
  show ?case
  proof (cases "True \<in> set nm")
    case True
    define k where "k = length (takeWhile Not nm)"
    have k: "k < length nm" using True by (simp add: k_def length_takeWhile_Not)
    have nk: "nm ! k" using nth_length_takeWhile [of Not nm] k by (simp add: k_def)
    let ?nm = "drop (Suc k) nm" and ?cm = "drop (Suc k) cm"
    have tz: "trailing_zeros (of_bits nm :: u128) = k" using True less.prems(2) by (simp add: trailing_zeros_of_bits k_def)
    have row: "count_ones (of_bits cm AND (push_bit k 1 - 1) :: u128) mod 256 = count_true (take k cm)"
      unfolding mask_eq of_bits_and_mask using less.prems small [of "take k cm"] by (simp add: count_ones_of_bits)
    have rest: "drop_bit 1 (drop_bit k (of_bits m :: u128)) = of_bits (drop (Suc k) m)" if "length m \<le> 128" for m
      using that by (subst drop_bit_drop_bit) (simp add: drop_bit_of_bits)
    have "count_true nm = Suc (count_true ?nm)"
    proof -
      have "count_true nm = count_true (take k nm @ nm ! k # ?nm)" using id_take_nth_drop [OF k] by (rule arg_cong)
      moreover have "count_true (take k nm) = 0"
        using set_takeWhileD [of _ Not nm] by (auto simp: k_def count_true_def takeWhile_eq_take [symmetric] filter_empty_conv)
      ultimately show ?thesis using nk by (simp only: count_true_simps) simp
    qed
    moreover have IH: "longest_loop (of_bits ?cm) (of_bits ?nm) (r + 1) lr' lc' tot' =
      (let rows = map count_true (split_marks ?nm ?cm); (lr'', lc'') = longest (r + 1) (lr', lc') rows
       in (lr'', lc'', tot' + sum_list rows + count_true ?nm))" for lr' lc' tot'
      using less.prems k by (intro less.hyps) simp_all
    moreover have "longest_loop (of_bits cm) (of_bits nm) r lr lc tot =
      (let (lr', lc') = (if count_true (take k cm) > lc then (r, count_true (take k cm)) else (lr, lc))
       in longest_loop (of_bits ?cm) (of_bits ?nm) (r + 1) lr' lc' (tot + count_true (take k cm) + 1))"
      using less.prems by (subst longest_loop.simps) (simp only: pos True if_True Let_def tz row rest)
    ultimately show ?thesis
      using split_marks_step [OF True, of cm, folded k_def] by (simp add: Let_def split: prod.splits)
  next
    case False
    then have "split_marks nm cm = [cm]" using less.prems(1) by (rule split_marks_none)
    moreover have "count_true nm = 0" using False by (auto simp: count_true_def filter_empty_conv)
    ultimately show ?thesis using False less.prems small [of cm]
      by (subst longest_loop.simps) (simp add: pos count_ones_of_bits Let_def)
  qed
qed

text \<open>The first and the last row, as the masks select them.\<close>

lemma first_row_mask:
  assumes "length cm = length nm" "length nm \<le> 128"
  shows "count_ones (of_bits cm AND saturating_shl_mask (trailing_zeros (of_bits nm :: u128)) :: u128) = count_true (hd (split_marks nm cm))"
proof (cases "True \<in> set nm")
  case True
  then show ?thesis using assms split_marks_step [OF True, of cm]
    by (simp add: shl_mask_eq of_bits_and_mask trailing_zeros_of_bits count_ones_of_bits)
next
  case False
  then show ?thesis using assms split_marks_none [OF False assms(1)]
    by (simp add: shl_mask_eq of_bits_and_mask trailing_zeros_of_bits count_ones_of_bits)
qed

lemma last_split_marks:
  "length cm = length nm \<Longrightarrow> last (split_marks nm cm) = drop (length nm - length (takeWhile Not (rev nm))) cm"
proof (induction nm arbitrary: cm)
  case (Cons n nm)
  then obtain c cm' where cm: "cm = c # cm'" "length cm' = length nm" by (cases cm) auto
  have le: "length (takeWhile Not (rev nm)) \<le> length nm" using length_takeWhile_le [of Not "rev nm"] by simp
  show ?case
  proof (cases "True \<in> set nm")
    case True
    then have "takeWhile Not (rev nm @ [n]) = takeWhile Not (rev nm)" by (intro takeWhile_append1) auto
    moreover have "length (takeWhile Not (rev nm)) < length nm" using length_takeWhile_Not [of "rev nm"] True by simp
    moreover have "tl (split_marks nm cm') \<noteq> []"
    proof -
      have "0 < count_true nm" using True by (auto simp: count_true_def filter_empty_conv)
      then show ?thesis using length_split_marks [of nm cm'] by (cases "split_marks nm cm'") auto
    qed
    ultimately show ?thesis using Cons.IH [OF cm(2)] cm
      by (auto simp: Let_def Suc_diff_le last_tl)
  next
    case False
    then have "takeWhile Not (rev nm @ [n]) = rev nm @ (if n then [] else [n])"
      by (subst takeWhile_append2) auto
    then show ?thesis using split_marks_none [OF False cm(2)] cm by (auto simp: Let_def)
  qed
qed simp

lemma last_row_mask:
  assumes "length cm = length nm" "length nm \<le> 128"
  shows "count_ones (of_bits cm AND saturating_shr_mask (leading_zeros (of_bits nm :: u128)) :: u128) = count_true (last (split_marks nm cm))"
proof -
  let ?k = "length (takeWhile Not (rev nm))"
  have k: "?k \<le> length nm" using length_takeWhile_le [of Not "rev nm"] by simp
  have lz: "leading_zeros (of_bits nm :: u128) = 128 - length nm + ?k" using assms(2) by (simp add: leading_zeros_of_bits)
  have "128 - (128 - length nm + ?k) = length nm - ?k" using k assms(2) by simp
  then show ?thesis using count_ones_shr_mask [of cm "128 - length nm + ?k", where 'a = 128] k assms lz last_split_marks [OF assms(1)] by simp
qed

subsection \<open>The summary of a chunk\<close>

text \<open>The summary of any chunk is consistent, whether its bitmaps agree with its text or not.\<close>

lemma word_of_bits: "(w :: u128) = of_bits (map (bit w) [0..<128])"
  by (rule bit_word_eqI) (simp add: bit_of_bits)

lemma consistent_chunk: "consistent (chunk_text_summary c)"
proof -
  define nm where "nm = map (bit (c_newlines c)) [0..<128]"
  define cm where "cm = map (bit (c_chars c)) [0..<128]"
  have w: "c_newlines c = of_bits nm" "c_chars c = of_bits cm" unfolding nm_def cm_def by (rule word_of_bits)+
  have len: "length cm = length nm" "length nm \<le> 128" by (simp_all add: nm_def cm_def)
  have "(longest_row (chunk_text_summary c), longest_row_chars (chunk_text_summary c)) = longest 0 (0, 0) (map count_true (split_marks nm cm))"
    using longest_loop_eq [OF len, of 0 0 0 0] by (simp add: chunk_text_summary_def chunk_longest_row_def w Let_def split: prod.splits)
  then show ?thesis
    using first_row_mask [OF len] last_row_mask [OF len] length_split_marks [of nm cm] len
    by (intro consistent_rows [of "map count_true (split_marks nm cm)"])
      (simp_all add: chunk_text_summary_def chunk_first_line_chars_def chunk_last_line_chars_def chunk_lines_def w
        count_ones_of_bits hd_map last_map split: prod.splits)
qed

lemma split_marks_lines: "split_marks (newline_marks t) (char_marks t) = map char_marks (lines_of t)"
proof (induction t)
  case (Cons b t)
  then show ?case by (cases "lines_of t") (simp_all add: newline_marks_def char_marks_def Let_def)
qed (simp add: newline_marks_def char_marks_def)

lemma last_row_utf16:
  assumes "utf8_ok t"
  shows "last (split_marks (newline_marks t) (utf16_marks t)) = utf16_marks (last (lines_of t))"
proof -
  obtain p where p: "t = p @ last (lines_of t)" "p = [] \<or> last p = 10" "10 \<notin> set (last (lines_of t))" by (rule last_line_split)
  define l where "l = last (lines_of t)"
  have t: "t = p @ l" "10 \<notin> set l" using p by (simp_all add: l_def)
  have "takeWhile Not (rev (newline_marks t)) = rev (newline_marks l)"
  proof (cases p rule: rev_cases)
    case Nil
    then show ?thesis using t by (auto simp: newline_marks_def intro!: takeWhile_eq_all_conv [THEN iffD2])
  next
    case (snoc q b)
    then have "rev (newline_marks t) = rev (newline_marks l) @ True # rev (newline_marks q)" using t p(2) by (simp add: newline_marks_def)
    then show ?thesis using t(2) by (subst \<open>rev (newline_marks t) = _\<close>, subst takeWhile_append2) (auto simp: newline_marks_def)
  qed
  moreover have "length t - length l = length p" using t(1) by simp
  moreover have "utf16_marks t = utf16_marks p @ utf16_marks l"
    using utf16_marks_append [OF last_line_utf8 [OF assms p(1,2)], of l] t(1) by simp
  moreover have "length t = length p + length l" using t(1) by simp
  ultimately show ?thesis by (subst last_split_marks) (simp_all add: l_def [symmetric])
qed

lemma char_count_lines: "sum_list (map char_count (lines_of t)) + count_true (newline_marks t) = char_count t"
proof (induction t)
  case (Cons b t)
  then show ?case by (cases "lines_of t") (auto simp: newline_marks_def char_count_def char_marks_def boundary_iff)
qed (simp add: newline_marks_def)

lemma chunk_lines_eq:
  assumes "length t \<le> 128"
  shows "chunk_lines (chunk_of t) = point_of t"
proof -
  have "length (takeWhile Not (rev (newline_marks t))) = length (last (lines_of t))"
    by (simp only: last_line newline_marks_def rev_map length_rev length_takeWhile_map [symmetric])
  then show ?thesis using assms
    by (simp add: chunk_lines_def point_of_def count_ones_of_bits leading_zeros_of_bits length_lines_of)
qed

lemma chunk_text_summary_eq:
  assumes "utf8_ok t" "length t \<le> 128"
  shows "chunk_text_summary (chunk_of t) = summary_of t"
proof -
  have rows: "map count_true (split_marks (newline_marks t) (char_marks t)) = map char_count (lines_of t)"
    by (simp add: split_marks_lines char_count_def)
  have "count_true (hd (split_marks (newline_marks t) (char_marks t))) = char_count (hd (lines_of t))"
    "count_true (last (split_marks (newline_marks t) (char_marks t))) = char_count (last (lines_of t))"
    by (simp_all add: split_marks_lines char_count_def hd_map last_map)
  then have first: "chunk_first_line_chars (chunk_of t) = char_count (hd (lines_of t))"
    and last: "chunk_last_line_chars (chunk_of t) = char_count (last (lines_of t))"
    using assms(2) by (simp_all add: chunk_first_line_chars_def chunk_last_line_chars_def first_row_mask last_row_mask)
  have last16: "chunk_last_line_len_utf16 (chunk_of t) = utf16_count (last (lines_of t))"
    using assms last_row_utf16 [OF assms(1)] by (simp add: chunk_last_line_len_utf16_def last_row_mask utf16_count_def)
  have long: "chunk_longest_row (chunk_of t) =
      (fst (longest 0 (0, 0) (map char_count (lines_of t))), snd (longest 0 (0, 0) (map char_count (lines_of t))), char_count t)"
    using longest_loop_eq [of "char_marks t" "newline_marks t" 0 0 0 0] assms(2) char_count_lines [of t]
    by (simp add: chunk_longest_row_def rows Let_def split: prod.splits)
  show ?thesis using assms
    by (simp add: chunk_text_summary_def summary_of_def long first last last16 chunk_len_def chunk_len_utf16_def chunk_lines_eq
        count_ones_of_bits utf16_count_def)
qed

end
