(* ===== verification/Chunk_Positions.thy ===== *)
theory Chunk_Positions
  imports Chunk_Spec
begin

text \<open>
  The conversions between byte offsets, UTF-16 offsets and points of a chunk: each answer computed on the bitmaps is
  that of a scan of the text, and converting there and back is the identity.
\<close>

subsection \<open>Rows\<close>

text \<open>Where a row lies in the text: what is before it ends in the newline before it, what is after it starts with the next one.\<close>

lemma row_split:
  assumes "r < length (lines_of t)"
  obtains p q where "t = p @ lines_of t ! r @ q" "count_true (newline_marks p) = r" "p = [] \<or> last p = 10" "q = [] \<or> hd q = 10"
  using assms
proof (induction t arbitrary: r thesis)
  case Nil
  then show ?case by (intro Nil.prems(1) [of "[]" "[]"]) (simp_all add: newline_marks_def)
next
  case (Cons b t)
  obtain l ls where t: "lines_of t = l # ls" by (cases "lines_of t") simp_all
  show ?case
  proof (cases "b = 10")
    case True
    show ?thesis
    proof (cases r)
      case 0
      then show ?thesis using True by (intro Cons.prems(1) [of "[]" "b # t"]) (simp_all add: newline_marks_def)
    next
      case (Suc r')
      obtain p q where "t = p @ lines_of t ! r' @ q" "count_true (newline_marks p) = r'" "p = [] \<or> last p = 10" "q = [] \<or> hd q = 10"
        using Cons.IH [of r'] Cons.prems(2) True Suc by auto
      then show ?thesis using True Suc by (intro Cons.prems(1) [of "b # p" q]) (auto simp: newline_marks_def)
    qed
  next
    case False
    obtain p q where pq: "t = p @ lines_of t ! r @ q" "count_true (newline_marks p) = r" "p = [] \<or> last p = 10" "q = [] \<or> hd q = 10"
      using Cons.IH [of r] Cons.prems(2) False t by auto
    show ?thesis
    proof (cases r)
      case 0
      have "p = []"
      proof (rule ccontr)
        assume "p \<noteq> []"
        then have "10 \<in> set p" using pq(3) last_in_set [of p] by auto
        then show False using pq(2) 0 by (auto simp: newline_marks_def count_true_map filter_empty_conv)
      qed
      then show ?thesis using pq 0 False t by (intro Cons.prems(1) [of "[]" q]) (simp_all add: newline_marks_def)
    next
      case (Suc r')
      then have "p \<noteq> []" using pq(2) by (auto simp: newline_marks_def)
      then show ?thesis using pq Suc False t by (intro Cons.prems(1) [of "b # p" q]) (simp_all add: newline_marks_def)
    qed
  qed
qed

lemma no_newline_in_line: "l \<in> set (lines_of t) \<Longrightarrow> 10 \<notin> set l"
proof (induction t arbitrary: l)
  case (Cons b t)
  obtain l' ls where "lines_of t = l' # ls" by (cases "lines_of t") simp_all
  then show ?case using Cons by (auto split: if_splits)
qed simp

lemma newline_marks_line: "10 \<notin> set l \<Longrightarrow> newline_marks l = replicate (length l) False"
  by (induction l) (auto simp: newline_marks_def)

lemma offset_range_eq:
  assumes "length t \<le> 128" "t = p @ l @ q" "count_true (newline_marks p) = r" "p = [] \<or> last p = 10" "q = [] \<or> hd q = 10" "10 \<notin> set l"
  shows "offset_range_for_row (chunk_of t) r = (length p, length p + length l)"
proof -
  have start: "(if r > 0 then nth_set_bit (c_newlines (chunk_of t)) r + 1 else 0) = length p"
  proof (cases p rule: rev_cases)
    case Nil
    then show ?thesis using assms(3) by (simp add: newline_marks_def)
  next
    case (snoc p' b)
    then have b: "b = 10" using assms(4) by simp
    then have r: "r = Suc (count_true (newline_marks p'))" using assms(3) snoc by (simp add: newline_marks_def)
    have nm: "newline_marks t = newline_marks p' @ True # newline_marks (l @ q)" using assms(2) snoc b by (simp add: newline_marks_def)
    have "r \<le> count_true (newline_marks t)" using r nm by simp
    then have "nth_set_bit (of_bits (newline_marks t)) r = nth_mark (newline_marks t) r"
      using assms(1) r by (intro nth_set_bit_correct) simp_all
    also have "\<dots> = length p'" by (rule nth_mark_unique) (simp_all add: r nm nth_append)
    finally show ?thesis using r snoc by simp
  qed
  have "min (trailing_zeros (drop_bit (length p) (of_bits (newline_marks t)) :: u128)) (length t - length p) = length l"
    if "length p \<noteq> 128"
  proof -
    have "drop (length p) (newline_marks t) = newline_marks l @ newline_marks q" using assms(2) by (simp add: newline_marks_def)
    then have "drop_bit (length p) (of_bits (newline_marks t) :: u128) = of_bits (newline_marks l @ newline_marks q)"
      using assms(1) by (simp add: drop_bit_of_bits)
    moreover have "length l + length q \<le> 128" using assms(1,2) by simp
    moreover have "takeWhile Not (replicate n False @ xs) = replicate n False @ takeWhile Not xs" for n xs by (induction n) auto
    moreover have "newline_marks q = (if q = [] then [] else True # newline_marks (tl q))"
      using assms(5) by (cases q) (simp_all add: newline_marks_def)
    ultimately show ?thesis using assms(2)
      by (simp add: trailing_zeros_of_bits newline_marks_line [OF assms(6)] split: if_splits)
  qed
  moreover have "length l = 0" if "length p = 128" using that assms(1,2) by simp
  ultimately show ?thesis using start by (auto simp: offset_range_for_row_def Let_def)
qed

text \<open>The row of a position.\<close>

lemma prefix_row:
  assumes "i \<le> length t"
  obtains p l q where "t = p @ l @ q" "count_true (newline_marks p) = row (point_of (take i t))" "p = [] \<or> last p = 10"
    "q = [] \<or> hd q = 10" "10 \<notin> set l" "l \<in> set (lines_of t)" "length p \<le> i" "i \<le> length p + length l"
    "last (lines_of (take i t)) = take (i - length p) l"
proof -
  define r where "r = count_true (newline_marks (take i t))"
  have rows: "r \<le> count_true (newline_marks t)"
    using count_true_take_mono [of i "length t" "newline_marks t"] assms by (simp add: marks_take_drop r_def)
  then have r: "r < length (lines_of t)" by (simp add: length_lines_of)
  define l where "l = lines_of t ! r"
  have l: "10 \<notin> set l" "l \<in> set (lines_of t)" using no_newline_in_line [of l t] r by (simp_all add: l_def)
  obtain p q where pq: "t = p @ l @ q" "count_true (newline_marks p) = r" "p = [] \<or> last p = 10" "q = [] \<or> hd q = 10"
    using row_split [OF r] unfolding l_def by blast
  have lo: "length p \<le> i"
  proof (rule ccontr)
    assume "\<not> length p \<le> i"
    then obtain p' where p: "p = p' @ [10]" "i \<le> length p'" using pq(3) by (cases p rule: rev_cases) auto
    then have "take i t = take i p'" using pq(1) by simp
    then have "r \<le> count_true (newline_marks p')"
      using count_true_take_mono [of i "length p'" "newline_marks p'"] p(2) by (simp add: marks_take_drop r_def)
    then show False using pq(2) p(1) by (simp add: newline_marks_def)
  qed
  have hi: "i \<le> length p + length l"
  proof (rule ccontr)
    assume n: "\<not> i \<le> length p + length l"
    then obtain q' where q: "q = 10 # q'" using pq(1,4) assms by (cases q) auto
    have "take i t = p @ l @ take (i - (length p + length l)) q" using pq(1) n by simp
    then have "count_true (newline_marks p) < r"
      using q n by (cases "i - (length p + length l)") (simp_all add: newline_marks_def r_def)
    then show False using pq(2) by simp
  qed
  have tk: "take i t = p @ take (i - length p) l" using pq(1) lo hi by simp
  have "lines_of (take (i - length p) l) = [take (i - length p) l]" using l(1) by (intro lines_of_no_newline) (auto dest: in_set_takeD)
  moreover have "last (lines_of p) = []"
  proof (cases p rule: rev_cases)
    case (snoc p' b)
    then show ?thesis using pq(3) by (simp add: lines_of_append)
  qed simp
  ultimately have "last (lines_of (take i t)) = take (i - length p) l" unfolding tk by (simp add: lines_of_append)
  moreover have "row (point_of (take i t)) = r" by (simp add: point_of_def length_lines_of r_def)
  ultimately show thesis using that [OF pq(1)] pq l lo hi by simp
qed

subsection \<open>Offsets and points\<close>

lemma chunk_offset_to_point_eq:
  assumes "length t \<le> 128" "i \<le> length t"
  shows "chunk_offset_to_point (chunk_of t) i = point_of (take i t)"
proof -
  let ?k = "length (takeWhile Not (rev (newline_marks (take i t))))"
  have k: "?k = length (last (lines_of (take i t)))"
    by (simp only: last_line newline_marks_def rev_map length_rev length_takeWhile_map [symmetric])
  have le: "?k \<le> i" using length_takeWhile_le [of Not "rev (newline_marks (take i t))"] assms(2) by simp
  have "c_newlines (chunk_of t) AND (push_bit i 1 - 1) = of_bits (newline_marks (take i t))"
    unfolding mask_eq by (simp add: of_bits_and_mask marks_take_drop)
  moreover have "leading_zeros (of_bits (newline_marks (take i t)) :: u128) = 128 - i + ?k"
    using assms by (simp add: leading_zeros_of_bits)
  ultimately show ?thesis using assms le k
    by (simp add: chunk_offset_to_point_def Let_def point_of_def count_ones_of_bits length_lines_of)
qed

lemma row_le_rows: "i \<le> length t \<Longrightarrow> row (point_of (take i t)) \<le> row (point_of t)"
  using count_true_take_mono [of i "length t" "newline_marks t"] by (simp add: point_of_def length_lines_of marks_take_drop)

lemma chunk_point_to_offset_eq:
  assumes "length t \<le> 128" "i \<le> length t"
  shows "chunk_point_to_offset (chunk_of t) (point_of (take i t)) = i"
proof -
  obtain p l q where t: "t = p @ l @ q" "count_true (newline_marks p) = row (point_of (take i t))" "p = [] \<or> last p = 10"
    "q = [] \<or> hd q = 10" "10 \<notin> set l" "l \<in> set (lines_of t)" "length p \<le> i" "i \<le> length p + length l"
    "last (lines_of (take i t)) = take (i - length p) l"
    by (rule prefix_row [OF assms(2)])
  have "offset_range_for_row (chunk_of t) (row (point_of (take i t))) = (length p, length p + length l)"
    by (rule offset_range_eq [OF assms(1) t(1-5)])
  moreover have "column (point_of (take i t)) = i - length p" using t(8,9) by (simp add: point_of_def)
  moreover have "row (point_of (take i t)) \<le> row (chunk_lines (chunk_of t))"
    using row_le_rows [OF assms(2)] by (simp add: chunk_lines_eq [OF assms(1)])
  ultimately show ?thesis using t(7,8) by (auto simp: chunk_point_to_offset_def)
qed

subsection \<open>UTF-16\<close>

lemma chunk_offset_to_offset_utf16_eq:
  "length t \<le> 128 \<Longrightarrow> chunk_offset_to_offset_utf16 (chunk_of t) i = utf16_count (take i t)"
  unfolding chunk_offset_to_offset_utf16_def mask_eq
  by (simp add: of_bits_and_mask count_ones_of_bits utf16_count_def utf16_marks_take)

text \<open>From the \<open>n\<close>-th mark on to the next one, or to the end.\<close>

lemma next_mark:
  assumes "i \<le> length m" "i = length m \<or> m ! i" "n = count_true (take i m)" "0 < n" "length m \<le> 128"
  defines "ix \<equiv> nth_mark m n + 1"
  shows "ix \<le> i" "ix < 128 \<Longrightarrow> ix + min (trailing_zeros (drop_bit ix (of_bits m) :: u128)) (length m - ix) = i"
proof -
  have "n \<le> count_true m" using assms(1,3) count_true_take_mono [of i "length m" m] by simp
  from nth_mark_props [OF assms(4) this] have nm: "nth_mark m n < length m" "m ! nth_mark m n" "count_true (take (nth_mark m n) m) = n - 1"
    by simp_all
  have cnt: "count_true (take ix m) = n" using nm assms(4) count_true_take_Suc [of "nth_mark m n" m] by (simp add: ix_def)
  show le: "ix \<le> i"
  proof (rule ccontr)
    assume "\<not> ix \<le> i"
    then have "count_true (take i m) \<le> count_true (take (nth_mark m n) m)" by (intro count_true_take_mono) (simp add: ix_def)
    then show False using nm(3) assms(3,4) by simp
  qed
  define a where "a = take (i - ix) (drop ix m)"
  have D: "drop ix m = a @ drop i m" unfolding a_def using le by (metis append_take_drop_id drop_drop le_add_diff_inverse2)
  have a: "length a = i - ix" using assms(1) by (simp add: a_def)
  have none: "True \<notin> set a"
  proof -
    have "take i m = take ix m @ a" unfolding a_def using le by (metis le_add_diff_inverse take_add)
    then have "count_true a = 0" using cnt assms(3) by (metis add_cancel_right_right count_true_simps(3))
    then show ?thesis by (auto simp: count_true_def filter_empty_conv)
  qed
  have "min (if True \<in> set (drop ix m) then length (takeWhile Not (drop ix m)) else 128) (length m - ix) = i - ix"
  proof (cases "drop i m")
    case Nil
    then show ?thesis using D none a assms(1,5) le by simp
  next
    case (Cons b r)
    then have "b" using assms(1,2) nth_via_drop [OF Cons] by auto
    moreover have "takeWhile Not (a @ True # r) = a" using none by (induction a) auto
    ultimately show ?thesis unfolding D Cons using a assms(1) by simp
  qed
  then show "ix < 128 \<Longrightarrow> ix + min (trailing_zeros (drop_bit ix (of_bits m) :: u128)) (length m - ix) = i"
    using le assms(5) by (simp add: drop_bit_of_bits trailing_zeros_of_bits split: if_splits)
qed

lemma boundary_mark: "str_is_char_boundary t i \<Longrightarrow> i \<le> length t"
  by (auto simp: str_is_char_boundary_def)

lemma utf16_count_pos:
  assumes "utf8_ok t" "0 < i" "i \<le> length t"
  shows "0 < utf16_count (take i t)"
proof -
  have "t \<noteq> []" using assms by auto
  then have "is_utf8_char_boundary (take i t ! 0)" using utf8_hd [OF assms(1)] assms(2) by (simp add: hd_conv_nth)
  then have "True \<in> set (utf16_marks (take i t))" using assms nth_utf16_marks [of 0 "take i t"] by (auto simp: in_set_conv_nth intro!: exI [of _ 0])
  then show ?thesis by (auto simp: utf16_count_def count_true_def filter_empty_conv)
qed

lemma chunk_offset_utf16_to_offset_eq:
  assumes "utf8_ok t" "length t \<le> 128" "str_is_char_boundary t i"
  shows "chunk_offset_utf16_to_offset (chunk_of t) (utf16_count (take i t)) = i"
proof (cases "i = 0")
  case False
  let ?n = "utf16_count (take i t)" and ?m = "utf16_marks t"
  have n: "0 < ?n" "?n = count_true (take i ?m)" "?n \<le> count_true ?m"
    using utf16_count_pos [OF assms(1)] False boundary_mark [OF assms(3)] count_true_take_mono [of i "length t" ?m]
    by (simp_all add: utf16_count_def utf16_marks_take)
  have i: "i \<le> length ?m" "i = length ?m \<or> ?m ! i"
    using assms(3) False by (auto simp: str_is_char_boundary_def nth_utf16_marks)
  have "nth_set_bit (of_bits ?m) ?n = nth_mark ?m ?n" using n assms(2) by (intro nth_set_bit_correct) simp_all
  moreover note next_mark [OF i n(2,1)]
  ultimately show ?thesis using n(1) assms(2) i(1)
    by (cases "nth_mark ?m ?n + 1 = 128") (simp_all add: chunk_offset_utf16_to_offset_def Let_def)
qed (simp add: chunk_offset_utf16_to_offset_def)

lemma chunk_offset_to_point_utf16_eq:
  assumes "utf8_ok t" "length t \<le> 128" "str_is_char_boundary t i"
  shows "chunk_offset_to_point_utf16 (chunk_of t) i = point_utf16_of (take i t)"
proof -
  let ?u = "take i t"
  let ?k = "length (takeWhile Not (rev (newline_marks ?u)))"
  have i: "i \<le> length t" by (rule boundary_mark [OF assms(3)])
  have ok: "utf8_ok ?u" using utf8_cut [OF assms(1,3)] by simp
  have le: "?k \<le> i" using length_takeWhile_le [of Not "rev (newline_marks ?u)"] i by simp
  have nl: "c_newlines (chunk_of t) AND saturating_shl_mask i = of_bits (newline_marks ?u)"
    by (simp add: shl_mask_eq of_bits_and_mask marks_take_drop)
  have "leading_zeros (of_bits (newline_marks ?u) :: u128) = 128 - i + ?k" using assms(2) i by (simp add: leading_zeros_of_bits)
  then have ix: "LENGTH(128) - leading_zeros (of_bits (newline_marks ?u) :: u128) = i - ?k" using assms(2) i le by simp
  have "utf16_marks (last (lines_of ?u)) = drop (i - ?k) (utf16_marks ?u)"
    using last_row_utf16 [OF ok] i by (simp add: last_split_marks)
  then have cu: "count_ones (drop_bit (i - ?k) (c_chars_utf16 (chunk_of t) AND saturating_shl_mask i)) = utf16_count (last (lines_of ?u))"
    using assms(2) by (simp add: shl_mask_eq of_bits_and_mask drop_bit_of_bits count_ones_of_bits utf16_count_def utf16_marks_take)
  have "utf16_count (last (lines_of ?u)) = 0" if "i - ?k = 128"
  proof -
    have "?k = 0" using that i assms(2) le by linarith
    moreover have "?k = length (last (lines_of ?u))" by (simp only: last_line newline_marks_def rev_map length_rev length_takeWhile_map [symmetric])
    ultimately show ?thesis by simp
  qed
  then show ?thesis unfolding chunk_offset_to_point_utf16_def Let_def nl ix cu
    using assms(2) i by (cases "i - ?k = 128") (simp_all add: point_utf16_of_def count_ones_of_bits length_lines_of)
qed

lemma back_to_boundary_id: "str_is_char_boundary t i \<Longrightarrow> back_to_boundary t i = i"
  by (cases i) simp_all

text \<open>The bounds of a row are boundaries, and a boundary of the text within the row is one of the line.\<close>

lemma row_boundaries:
  assumes "utf8_ok t" "t = p @ l @ q" "p = [] \<or> last p = 10" "q = [] \<or> hd q = 10"
  shows "utf8_ok p" "utf8_ok l" "str_is_char_boundary t (length p)" "str_is_char_boundary t (length p + length l)"
proof -
  show p: "utf8_ok p"
  proof (cases p rule: rev_cases)
    case (snoc p' b)
    then have "utf8_ok p'" using assms(1-3) utf8_newline_cut [of p' "l @ q"] by simp
    then show ?thesis using snoc assms(3) utf8_append utf8_char_single [OF char_ok_newline] by simp
  qed simp
  then have lq: "utf8_ok (l @ q)" using assms(1,2) utf8_append by blast
  then show "utf8_ok l" using utf8_newline_cut [of l "tl q"] assms(4) by (cases q) auto
  have "is_utf8_char_boundary ((l @ q) ! 0)" if "l @ q \<noteq> []" using utf8_hd [OF lq that] that by (simp add: hd_conv_nth)
  then show "str_is_char_boundary t (length p)" using assms(2) by (auto simp: str_is_char_boundary_def nth_append)
  show "str_is_char_boundary t (length p + length l)"
    using assms(2,4) by (cases q) (auto simp: str_is_char_boundary_def nth_append boundary_iff)
qed

lemma line_boundary:
  assumes "t = p @ l @ q" "str_is_char_boundary t i" "length p \<le> i" "i \<le> length p + length l"
  shows "str_is_char_boundary l (i - length p)"
  using assms by (auto simp: str_is_char_boundary_def nth_append split: if_splits)

lemma chunk_point_utf16_to_offset_eq:
  assumes "utf8_ok t" "length t \<le> 128" "str_is_char_boundary t i"
  shows "chunk_point_utf16_to_offset (chunk_of t) (point_utf16_of (take i t)) = Some i"
proof -
  have i: "i \<le> length t" by (rule boundary_mark [OF assms(3)])
  obtain p l q where t: "t = p @ l @ q" "count_true (newline_marks p) = row (point_of (take i t))" "p = [] \<or> last p = 10"
    "q = [] \<or> hd q = 10" "10 \<notin> set l" "l \<in> set (lines_of t)" "length p \<le> i" "i \<le> length p + length l"
    "last (lines_of (take i t)) = take (i - length p) l"
    by (rule prefix_row [OF i])
  note rb = row_boundaries [OF assms(1) t(1,3,4)]
  have b: "str_is_char_boundary l (i - length p)" by (rule line_boundary [OF t(1) assms(3) t(7,8)])
  have len: "length l \<le> 128" using assms(2) t(1) by simp
  have range: "offset_range_for_row (chunk_of t) (row (point_of (take i t))) = (length p, length p + length l)"
    by (rule offset_range_eq [OF assms(2) t(1-5)])
  have slice: "chunk_slice_range (chunk_of t) (length p) (length p + length l) = Some (chunk_of l)"
    using chunk_slice_range_eq [OF assms(1,2) rb(3,4)] t(1) by simp
  have col: "column_utf16 (point_utf16_of (take i t)) = utf16_count (take (i - length p) l)"
    and r: "row_utf16 (point_utf16_of (take i t)) = row (point_of (take i t))"
    using t(9) by (simp_all add: point_utf16_of_def point_of_def)
  let ?n = "utf16_count (take (i - length p) l)"
  have "?n \<le> utf16_count l"
    using count_true_take_mono [of "i - length p" "length l" "utf16_marks l"] t(8) by (simp add: utf16_count_def utf16_marks_take)
  moreover have "chunk_last_line_len_utf16 (chunk_of l) = utf16_count l"
    using chunk_text_summary_eq [OF rb(2) len] lines_of_no_newline [OF t(5)]
    by (simp add: chunk_text_summary_def summary_of_def split: prod.splits)
  ultimately have le: "\<not> ?n > chunk_last_line_len_utf16 (chunk_of l)" by simp
  have "chunk_offset_utf16_to_offset (chunk_of l) ?n = i - length p"
    by (rule chunk_offset_utf16_to_offset_eq [OF rb(2) len b])
  then have bk: "back_to_boundary t (length p + chunk_offset_utf16_to_offset (chunk_of l) ?n) = i"
    using t(7) back_to_boundary_id [OF assms(3)] by simp
  have zero: "i = length p" if "\<not> 0 < ?n" using utf16_count_pos [OF rb(2), of "i - length p"] t(7,8) that by fastforce
  have "\<not> row (point_of (take i t)) > row (chunk_lines (chunk_of t))"
    using row_le_rows [OF i] by (simp add: chunk_lines_eq [OF assms(2)])
  then have "chunk_point_utf16_to_offset (chunk_of t) (point_utf16_of (take i t)) = (if 0 < ?n then Some i else Some (length p))"
    unfolding chunk_point_utf16_to_offset_def r range Let_def case_prod_conv slice col
    by (simp only: if_False bind.bind_lunit chunk_of_sel le bk)
  then show ?thesis using zero by (cases "0 < ?n") (simp_all only: if_True if_False simp_thms)
qed

subsection \<open>Properties\<close>

text \<open>C37 (chunk_summary_is_scan): the summary that a chunk computes from its bitmaps with masks and bit counts is the one that a pass over the
  characters of its text computes.\<close>

theorem chunk_summary_is_scan:
  assumes "utf8_ok t" "length t \<le> MAX_BASE"
  shows "map_option chunk_text_summary (chunk_new t) = Some (summary_from_str t)"
  using assms by (simp add: chunk_new_eq chunk_text_summary_eq summary_from_str_eq)

theorem chunk_summary_is_scan_witness:
  "map_option chunk_text_summary (chunk_new [104, 105, 10, 240, 159, 166, 128, 195, 169, 9]) =
    Some (summary_from_str [104, 105, 10, 240, 159, 166, 128, 195, 169, 9])"
  by (rule chunk_summary_is_scan) code_simp+

text \<open>C38 (chunk_positions_roundtrip): in a chunk, converting the offset of a character boundary to a point, a UTF-16 offset or a UTF-16 point and back
  returns the offset.\<close>

theorem chunk_positions_roundtrip:
  assumes "utf8_ok t" "length t \<le> MAX_BASE" "str_is_char_boundary t i"
  shows "\<exists>c. chunk_new t = Some c \<and> chunk_point_to_offset c (chunk_offset_to_point c i) = i \<and>
    chunk_offset_utf16_to_offset c (chunk_offset_to_offset_utf16 c i) = i \<and>
    chunk_point_utf16_to_offset c (chunk_offset_to_point_utf16 c i) = Some i"
proof -
  have i: "i \<le> length t" "length t \<le> 128" using boundary_mark [OF assms(3)] assms(2) by simp_all
  show ?thesis
    using chunk_new_eq [OF assms(1) i(2)] chunk_point_to_offset_eq [OF i(2,1)] chunk_offset_utf16_to_offset_eq [OF assms(1) i(2) assms(3)]
      chunk_point_utf16_to_offset_eq [OF assms(1) i(2) assms(3)]
    by (simp add: chunk_offset_to_point_eq [OF i(2,1)] chunk_offset_to_offset_utf16_eq [OF i(2)] chunk_offset_to_point_utf16_eq [OF assms(1) i(2) assms(3)])
qed

theorem chunk_positions_roundtrip_witness:
  "\<exists>c. chunk_new [104, 10, 240, 159, 166, 128, 195, 169] = Some c \<and> chunk_point_to_offset c (chunk_offset_to_point c 6) = 6 \<and>
    chunk_offset_utf16_to_offset c (chunk_offset_to_offset_utf16 c 6) = 6 \<and>
    chunk_point_utf16_to_offset c (chunk_offset_to_point_utf16 c 6) = Some 6"
  by (rule chunk_positions_roundtrip) code_simp+

text \<open>C39 (chunk_editing): appending, prepending, splitting and slicing chunks shift and mask the bitmaps into those of the resulting
  texts. The range of the slice may end in front of the end of the chunk.\<close>

theorem chunk_editing:
  assumes "utf8_ok a" "utf8_ok b" "utf8_ok d" "length a + length b + length d \<le> MAX_BASE"
  shows "\<exists>ca cb cd cab c. chunk_new a = Some ca \<and> chunk_new b = Some cb \<and> chunk_new d = Some cd \<and>
    chunk_new (a @ b) = Some cab \<and> chunk_new (a @ b @ d) = Some c \<and>
    chunk_append ca (as_slice cb) = Some cab \<and> chunk_prepend cb (as_slice ca) = Some cab \<and> chunk_append cab (as_slice cd) = Some c \<and>
    chunk_split_at (as_slice cab) (length a) = Some (ca, cb) \<and>
    chunk_slice_range (as_slice c) (length a) (length a + length b) = Some cb"
proof -
  have len: "length a + length b \<le> 128" "length (a @ b) \<le> 128" "length d \<le> 128" "length (a @ b @ d) \<le> 128" using assms(4) by simp_all
  have ok: "utf8_ok (a @ b)" "utf8_ok (a @ b @ d)" using assms(1-3) by (simp_all add: utf8_append)
  have b: "is_utf8_char_boundary (b ! 0)" if "b \<noteq> []" using utf8_hd [OF assms(2) that] that by (simp add: hd_conv_nth)
  have d: "is_utf8_char_boundary (d ! 0)" if "d \<noteq> []" using utf8_hd [OF assms(3) that] that by (simp add: hd_conv_nth)
  have "str_is_char_boundary (a @ b) (length a)" using b by (auto simp: str_is_char_boundary_def nth_append)
  moreover have "str_is_char_boundary (a @ b @ d) (length a)" "str_is_char_boundary (a @ b @ d) (length a + length b)"
    using b d by (cases b; auto simp: str_is_char_boundary_def nth_append)+
  ultimately show ?thesis using assms(1-3) len ok chunk_split_at_eq [OF ok(1) len(2)] chunk_slice_range_eq [OF ok(2) len(4)]
    by (simp add: chunk_new_eq chunk_append_eq chunk_prepend_eq as_slice_def)
qed

theorem chunk_editing_witness:
  "\<exists>ca cb cd cab c. chunk_new [104, 195, 169] = Some ca \<and> chunk_new [10, 240, 159, 166, 128] = Some cb \<and> chunk_new [10, 9] = Some cd \<and>
    chunk_new ([104, 195, 169] @ [10, 240, 159, 166, 128]) = Some cab \<and>
    chunk_new ([104, 195, 169] @ [10, 240, 159, 166, 128] @ [10, 9]) = Some c \<and>
    chunk_append ca (as_slice cb) = Some cab \<and> chunk_prepend cb (as_slice ca) = Some cab \<and> chunk_append cab (as_slice cd) = Some c \<and>
    chunk_split_at (as_slice cab) (length [104, 195, 169 :: u8]) = Some (ca, cb) \<and>
    chunk_slice_range (as_slice c) (length [104, 195, 169 :: u8]) (length [104, 195, 169 :: u8] + length [10, 240, 159, 166, 128 :: u8]) = Some cb"
  by (rule chunk_editing) code_simp+

end
