(* ===== verification/Rope.thy ===== *)
theory Rope
  imports Chunk_Positions Cursor_Back "HOL-Library.Monad_Syntax"
begin

text \<open>
  \<open>crates/rope/src/rope.rs\<close>: the text of a buffer as a sum tree of chunks. This theory holds the operations: the
  dimensions in which a rope is measured, the editing operations (\<open>push\<close>, \<open>append\<close>, \<open>push_front\<close>, \<open>replace\<close>), the
  cursor with its \<open>slice\<close> and \<open>summary\<close>, and the conversions between positions. \<open>None\<close> is a panic or, where a loop steps
  to a boundary that does not exist, an endless loop. The closure that \<open>update_last\<close> runs reads the last chunk and writes
  the part of the text that is left, so it is run on the last chunk of the tree first and its result is stored by
  \<open>update_last\<close>.
\<close>

subsection \<open>Summaries and dimensions\<close>

text \<open>\<open>Item for Chunk\<close>; \<open>ChunkSummary\<close> is a \<open>TextSummary\<close> in a wrapper.\<close>

definition chunk_ops :: "(chunk, text_summary) item_ops" where
  "chunk_ops = \<lparr>szero = summary_default, sadd = summary_add, ssummary = (\<lambda>c. chunk_text_summary (as_slice c))\<rparr>"

type_synonym rope = "(chunk, text_summary) node"

definition text_dim :: "(text_summary, text_summary) dim_ops" where
  "text_dim = \<lparr>dzero = summary_default, dadd = summary_add\<rparr>"

definition len_dim :: "(text_summary, nat) dim_ops" where
  "len_dim = \<lparr>dzero = 0, dadd = (\<lambda>d s. d + text_len s)\<rparr>"

definition utf16_dim :: "(text_summary, offset_utf16) dim_ops" where
  "utf16_dim = \<lparr>dzero = 0, dadd = (\<lambda>d s. d + text_len_utf16 s)\<rparr>"

definition point_dim :: "(text_summary, point) dim_ops" where
  "point_dim = \<lparr>dzero = point_zero, dadd = (\<lambda>d s. point_add d (text_lines s))\<rparr>"

definition point_utf16_dim :: "(text_summary, point_utf16) dim_ops" where
  "point_utf16_dim = \<lparr>dzero = point_utf16_zero, dadd = (\<lambda>d s. point_utf16_add d (lines_utf16 s))\<rparr>"

definition pair_dim :: "(text_summary, 'a) dim_ops \<Rightarrow> (text_summary, 'b) dim_ops \<Rightarrow> (text_summary, 'a \<times> 'b \<times> unit) dim_ops" where
  "pair_dim A B = dimensions A B unit_dim"

subsection \<open>Access\<close>

definition rope_new :: rope where
  "rope_new = tree_new chunk_ops"

definition rope_summary :: "rope \<Rightarrow> text_summary" where
  "rope_summary r = node_summary r"

definition rope_len :: "rope \<Rightarrow> nat" where
  "rope_len r = extent len_dim r"

definition rope_is_empty :: "rope \<Rightarrow> bool" where
  "rope_is_empty r \<longleftrightarrow> rope_len r = 0"

definition max_point :: "rope \<Rightarrow> point" where
  "max_point r = extent point_dim r"

definition max_point_utf16 :: "rope \<Rightarrow> point_utf16" where
  "max_point_utf16 r = extent point_utf16_dim r"

definition rope_is_char_boundary :: "rope \<Rightarrow> nat \<Rightarrow> bool" where
  "rope_is_char_boundary r offset =
     (if is_empty r then offset = 0
      else let (start, _, item) = find_in_tree len_dim (ord_target offset) Left r
        in case item of None \<Rightarrow> False | Some c \<Rightarrow> chunk_is_char_boundary c (offset - start))"

text \<open>\<open>assert_char_boundary\<close>: with \<open>PANIC\<close> a position that is not a boundary is a panic.\<close>

definition rope_assert_char_boundary :: "bool \<Rightarrow> rope \<Rightarrow> nat \<Rightarrow> bool option" where
  "rope_assert_char_boundary panics r offset =
     (if is_empty r \<and> offset = 0 then Some True
      else let (start, _, item) = find_in_tree len_dim (ord_target offset) Left r;
               ok = (case item of None \<Rightarrow> False | Some c \<Rightarrow> chunk_is_char_boundary c (offset - start))
        in if ok then Some True else if panics then None else Some False)"

definition rope_floor_char_boundary :: "rope \<Rightarrow> nat \<Rightarrow> nat" where
  "rope_floor_char_boundary r i =
     (if rope_len r \<le> i then rope_len r
      else let (start, _, item) = find_in_tree len_dim (ord_target i) Left r
        in case item of None \<Rightarrow> rope_len r | Some c \<Rightarrow> start + str_floor_char_boundary (c_text c) (i - start))"

definition rope_ceil_char_boundary :: "rope \<Rightarrow> nat \<Rightarrow> nat" where
  "rope_ceil_char_boundary r i =
     (if rope_len r < i then rope_len r
      else let (start, _, item) = find_in_tree len_dim (ord_target i) Left r
        in case item of None \<Rightarrow> rope_len r | Some c \<Rightarrow> start + str_ceil_char_boundary (c_text c) (i - start))"

definition rope_clip_offset :: "rope \<Rightarrow> nat \<Rightarrow> bias \<Rightarrow> nat" where
  "rope_clip_offset r i bias = (case bias of Left \<Rightarrow> rope_floor_char_boundary r i | Right \<Rightarrow> rope_ceil_char_boundary r i)"

subsection \<open>Pushing text\<close>

text \<open>\<open>str::split_at\<close>.\<close>

definition str_split_at :: "str \<Rightarrow> nat \<Rightarrow> (str \<times> str) option" where
  "str_split_at t i = (if str_is_char_boundary t i then Some (take i t, drop i t) else None)"

text \<open>The closure of \<open>push\<close>: the updated last chunk and the text that is left.\<close>

definition push_into_last :: "chunk \<Rightarrow> str \<Rightarrow> (chunk \<times> str) option" where
  "push_into_last c t = do {
     split_ix \<leftarrow> (if length (c_text c) + length t \<le> MAX_BASE then Some (length t)
                  else step_to_boundary t Right (min (MIN_BASE - length (c_text c)) (length t)));
     (suffix, remainder) \<leftarrow> str_split_at t split_ix;
     c' \<leftarrow> chunk_push_str c suffix;
     Some (c', remainder)
   }"

text \<open>The loop that cuts a text into pieces of at most \<open>MAX_BASE\<close> bytes. Were a piece empty, the loop would not end.\<close>

lemma back_to_boundary_le: "back_to_boundary t i \<le> i"
  by (induction i) auto

function split_pieces :: "str \<Rightarrow> str list option" where
  "split_pieces t =
     (if t = [] then Some []
      else let split_ix = back_to_boundary t (min MAX_BASE (length t))
        in if split_ix = 0 then None
           else map_option ((#) (take split_ix t)) (split_pieces (drop split_ix t)))"
  by pat_completeness auto
termination by (relation "measure length") auto

declare split_pieces.simps [simp del]

definition NUM_CHUNKS :: nat where
  "NUM_CHUNKS = 4"

definition PARALLEL_THRESHOLD :: nat where
  "PARALLEL_THRESHOLD = 84 * (2 * TREE_BASE)"

text \<open>\<open>map(Chunk::new)\<close>.\<close>

fun new_chunks :: "str list \<Rightarrow> chunk list option" where
  "new_chunks [] = Some []"
| "new_chunks (t # ts) = do { c \<leftarrow> chunk_new t; cs \<leftarrow> new_chunks ts; Some (c # cs) }"

definition push_large :: "rope \<Rightarrow> str \<Rightarrow> rope option" where
  "push_large r t = do {
     pieces \<leftarrow> split_pieces t;
     cs \<leftarrow> new_chunks pieces;
     if length pieces \<ge> PARALLEL_THRESHOLD then par_extend chunk_ops r cs else Sum_Tree.extend chunk_ops r cs
   }"

definition rope_push :: "rope \<Rightarrow> str \<Rightarrow> rope option" where
  "rope_push r t = do {
     last \<leftarrow> tree_last r;
     (r, t) \<leftarrow> (case last of
        None \<Rightarrow> Some (r, t)
      | Some c \<Rightarrow> do {
          (c', rest) \<leftarrow> push_into_last c t;
          r' \<leftarrow> update_last chunk_ops (\<lambda>_. c') r;
          Some (r', rest)
        });
     if t = [] then Some r
     else if length t > NUM_CHUNKS * MAX_BASE - NUM_CHUNKS * 4 then push_large r t
     else do {
       pieces \<leftarrow> split_pieces t;
       if length pieces \<le> NUM_CHUNKS then do { cs \<leftarrow> new_chunks pieces; Sum_Tree.extend chunk_ops r cs } else None
     }
   }"

definition rope_from_str :: "str \<Rightarrow> rope option" where
  "rope_from_str t = rope_push rope_new t"

fun rope_push_all :: "rope \<Rightarrow> str list \<Rightarrow> rope option" where
  "rope_push_all r [] = Some r"
| "rope_push_all r (t # ts) = do { r' \<leftarrow> rope_push r t; rope_push_all r' ts }"

definition rope_from_iter :: "str list \<Rightarrow> rope option" where
  "rope_from_iter ts = rope_push_all rope_new ts"

subsection \<open>Pushing a slice of a chunk\<close>

text \<open>\<open>while !chunk.is_char_boundary(split_ix) { split_ix += 1 }\<close>.\<close>

function chunk_step_right :: "chunk_slice \<Rightarrow> nat \<Rightarrow> nat option" where
  "chunk_step_right c i =
     (if chunk_is_char_boundary c i then Some i
      else if MAX_BASE \<le> i then None
      else chunk_step_right c (i + 1))"
  by pat_completeness auto
termination by (relation "measure (\<lambda>(c, i). MAX_BASE - i)") auto

declare chunk_step_right.simps [simp del]

definition append_to_last :: "chunk \<Rightarrow> chunk_slice \<Rightarrow> (chunk \<times> chunk_slice) option" where
  "append_to_last c s = do {
     split_ix \<leftarrow> (if length (c_text c) + chunk_len s \<le> MAX_BASE then Some (chunk_len s)
                  else chunk_step_right s (min (MIN_BASE - length (c_text c)) (chunk_len s)));
     (suffix, remainder) \<leftarrow> chunk_split_at s split_ix;
     c' \<leftarrow> chunk_append c suffix;
     Some (c', remainder)
   }"

text \<open>\<open>Into<Chunk> for ChunkSlice\<close>.\<close>

definition slice_into_chunk :: "chunk_slice \<Rightarrow> chunk option" where
  "slice_into_chunk s = (if length (c_text s) \<le> MAX_BASE then Some s else None)"

definition push_chunk :: "rope \<Rightarrow> chunk_slice \<Rightarrow> rope option" where
  "push_chunk r s = do {
     last \<leftarrow> tree_last r;
     (r, s) \<leftarrow> (case last of
        None \<Rightarrow> Some (r, s)
      | Some c \<Rightarrow> do {
          (c', rest) \<leftarrow> append_to_last c s;
          r' \<leftarrow> update_last chunk_ops (\<lambda>_. c') r;
          Some (r', rest)
        });
     if c_text s \<noteq> [] then do { c \<leftarrow> slice_into_chunk s; push chunk_ops r c } else Some r
   }"

subsection \<open>Appending and prepending\<close>

definition rope_append :: "rope \<Rightarrow> rope \<Rightarrow> rope option" where
  "rope_append r other = do {
     first \<leftarrow> tree_first other;
     last \<leftarrow> tree_last r;
     case first of
       Some c \<Rightarrow>
         if (case last of None \<Rightarrow> False | Some l \<Rightarrow> length (c_text l) < MIN_BASE) \<or> length (c_text c) < MIN_BASE
         then do {
           r' \<leftarrow> push_chunk r (as_slice c);
           cur1 \<leftarrow> cursor_next unit_dim (cursor_new unit_dim other);
           cur2 \<leftarrow> cursor_next unit_dim cur1;
           (rest, _) \<leftarrow> cursor_suffix chunk_ops unit_dim cur2;
           append_tree chunk_ops r' rest
         }
         else append_tree chunk_ops r other
     | None \<Rightarrow> append_tree chunk_ops r other
   }"

definition push_front :: "rope \<Rightarrow> str \<Rightarrow> rope option" where
  "push_front r t =
     (if t = [] then Some r
      else if rope_is_empty r then rope_push r t
      else do {
        first \<leftarrow> tree_first r;
        case first of
          Some c \<Rightarrow>
            if length (c_text c) + length t \<le> MAX_BASE
            then do { c' \<leftarrow> chunk_prepend_str c t; update_first chunk_ops (\<lambda>_. c') r }
            else do { r' \<leftarrow> rope_from_str t; rope_append r' r }
        | None \<Rightarrow> do { r' \<leftarrow> rope_from_str t; rope_append r' r }
      })"

subsection \<open>Cursors\<close>

record rope_cursor =
  rc_rope :: rope
  rc_chunks :: "(chunk, text_summary, nat) cursor"
  rc_offset :: nat

definition rope_cursor_new :: "rope \<Rightarrow> nat \<Rightarrow> rope_cursor option" where
  "rope_cursor_new r offset = do {
     (_, cs) \<leftarrow> cursor_seek len_dim (ord_target offset) Right (cursor_new len_dim r);
     Some \<lparr>rc_rope = r, rc_chunks = cs, rc_offset = offset\<rparr>
   }"

definition rope_cursor_seek_forward :: "rope_cursor \<Rightarrow> nat \<Rightarrow> rope_cursor option" where
  "rope_cursor_seek_forward cur end_offset =
     (if end_offset < rc_offset cur \<or> rope_len (rc_rope cur) < end_offset then None
      else do {
        (_, cs) \<leftarrow> cursor_seek_forward len_dim (ord_target end_offset) Right (rc_chunks cur);
        Some (cur\<lparr>rc_chunks := cs, rc_offset := end_offset\<rparr>)
      })"

definition rope_cursor_slice :: "rope_cursor \<Rightarrow> nat \<Rightarrow> (rope \<times> rope_cursor) option" where
  "rope_cursor_slice cur end_offset =
     (if end_offset < rc_offset cur \<or> rope_len (rc_rope cur) < end_offset then None
      else do {
        item \<leftarrow> cursor_item (rc_chunks cur);
        chunks_end \<leftarrow> cursor_end len_dim (rc_chunks cur);
        let chunks_start = cursor_start (rc_chunks cur);
        slice \<leftarrow> (case item of
            None \<Rightarrow> Some rope_new
          | Some c \<Rightarrow> do {
              s \<leftarrow> chunk_slice_range (as_slice c) (rc_offset cur - chunks_start) (min end_offset chunks_end - chunks_start);
              push_chunk rope_new s
            });
        (slice, cs) \<leftarrow> (if end_offset > chunks_end
          then do {
            cs \<leftarrow> cursor_next len_dim (rc_chunks cur);
            (mid, cs) \<leftarrow> cursor_slice chunk_ops len_dim (ord_target end_offset) Right cs;
            slice \<leftarrow> rope_append slice mid;
            end_item \<leftarrow> cursor_item cs;
            slice \<leftarrow> (case end_item of
                None \<Rightarrow> Some slice
              | Some c \<Rightarrow> do {
                  s \<leftarrow> chunk_slice_range (as_slice c) 0 (end_offset - cursor_start cs);
                  push_chunk slice s
                });
            Some (slice, cs)
          }
          else Some (slice, rc_chunks cur));
        Some (slice, cur\<lparr>rc_chunks := cs, rc_offset := end_offset\<rparr>)
      })"

definition rope_cursor_suffix :: "rope_cursor \<Rightarrow> rope option" where
  "rope_cursor_suffix cur = map_option fst (rope_cursor_slice cur (extent len_dim (rc_rope cur)))"

text \<open>The trait \<open>TextDimension\<close> and its implementations.\<close>

record 'd text_dimension =
  td_dim :: "(text_summary, 'd) dim_ops"
  td_from_text_summary :: "text_summary \<Rightarrow> 'd"
  td_from_chunk :: "chunk_slice \<Rightarrow> 'd"
  td_add_assign :: "'d \<Rightarrow> 'd \<Rightarrow> 'd"

definition td_summary :: "text_summary text_dimension" where
  "td_summary = \<lparr>td_dim = text_dim, td_from_text_summary = id, td_from_chunk = chunk_text_summary, td_add_assign = summary_add\<rparr>"

definition td_len :: "nat text_dimension" where
  "td_len = \<lparr>td_dim = len_dim, td_from_text_summary = text_len, td_from_chunk = chunk_len, td_add_assign = (+)\<rparr>"

definition td_utf16 :: "offset_utf16 text_dimension" where
  "td_utf16 = \<lparr>td_dim = utf16_dim, td_from_text_summary = text_len_utf16, td_from_chunk = chunk_len_utf16, td_add_assign = (+)\<rparr>"

definition td_point :: "point text_dimension" where
  "td_point = \<lparr>td_dim = point_dim, td_from_text_summary = text_lines, td_from_chunk = chunk_lines, td_add_assign = point_add\<rparr>"

definition td_point_utf16 :: "point_utf16 text_dimension" where
  "td_point_utf16 = \<lparr>td_dim = point_utf16_dim, td_from_text_summary = lines_utf16,
     td_from_chunk = (\<lambda>c. PointUtf16 (row (chunk_lines c)) (chunk_last_line_len_utf16 c)), td_add_assign = point_utf16_add\<rparr>"

definition td_pair :: "'a text_dimension \<Rightarrow> 'b text_dimension \<Rightarrow> ('a \<times> 'b \<times> unit) text_dimension" where
  "td_pair A B = \<lparr>td_dim = pair_dim (td_dim A) (td_dim B),
     td_from_text_summary = (\<lambda>s. (td_from_text_summary A s, td_from_text_summary B s, ())),
     td_from_chunk = (\<lambda>c. (td_from_chunk A c, td_from_chunk B c, ())),
     td_add_assign = (\<lambda>(a, b, _) (a', b', _). (td_add_assign A a a', td_add_assign B b b', ()))\<rparr>"

definition rope_cursor_summary :: "'d text_dimension \<Rightarrow> rope_cursor \<Rightarrow> nat \<Rightarrow> ('d \<times> rope_cursor) option" where
  "rope_cursor_summary TD cur end_offset =
     (if end_offset < rc_offset cur \<or> rope_len (rc_rope cur) < end_offset then None
      else do {
        item \<leftarrow> cursor_item (rc_chunks cur);
        chunks_end \<leftarrow> cursor_end len_dim (rc_chunks cur);
        let chunks_start = cursor_start (rc_chunks cur);
        summary \<leftarrow> (case item of
            None \<Rightarrow> Some (dzero (td_dim TD))
          | Some c \<Rightarrow> do {
              s \<leftarrow> chunk_slice_range (as_slice c) (rc_offset cur - chunks_start) (min end_offset chunks_end - chunks_start);
              Some (td_add_assign TD (dzero (td_dim TD)) (td_from_chunk TD s))
            });
        (summary, cs) \<leftarrow> (if end_offset > chunks_end
          then do {
            cs \<leftarrow> cursor_next len_dim (rc_chunks cur);
            (mid, cs) \<leftarrow> cursor_summary len_dim (td_dim TD) (ord_target end_offset) Right cs;
            let summary = td_add_assign TD summary mid;
            end_item \<leftarrow> cursor_item cs;
            summary \<leftarrow> (case end_item of
                None \<Rightarrow> Some summary
              | Some c \<Rightarrow> do {
                  s \<leftarrow> chunk_slice_range (as_slice c) 0 (end_offset - cursor_start cs);
                  Some (td_add_assign TD summary (td_from_chunk TD s))
                });
            Some (summary, cs)
          }
          else Some (summary, rc_chunks cur));
        Some (summary, cur\<lparr>rc_chunks := cs, rc_offset := end_offset\<rparr>)
      })"

subsection \<open>Replacing and slicing\<close>

definition rope_replace :: "rope \<Rightarrow> nat \<Rightarrow> nat \<Rightarrow> str \<Rightarrow> rope option" where
  "rope_replace r i j t = do {
     cur \<leftarrow> rope_cursor_new r 0;
     (before, cur) \<leftarrow> rope_cursor_slice cur i;
     new_rope \<leftarrow> rope_append rope_new before;
     cur \<leftarrow> rope_cursor_seek_forward cur j;
     new_rope \<leftarrow> rope_push new_rope t;
     after \<leftarrow> rope_cursor_suffix cur;
     rope_append new_rope after
   }"

definition rope_slice :: "rope \<Rightarrow> nat \<Rightarrow> nat \<Rightarrow> rope option" where
  "rope_slice r i j = do {
     cur \<leftarrow> rope_cursor_new r 0;
     cur \<leftarrow> rope_cursor_seek_forward cur i;
     (s, _) \<leftarrow> rope_cursor_slice cur j;
     Some s
   }"

subsection \<open>Conversions between positions\<close>

definition rope_offset_to_offset_utf16 :: "rope \<Rightarrow> nat \<Rightarrow> offset_utf16" where
  "rope_offset_to_offset_utf16 r offset =
     (if offset \<ge> text_len (rope_summary r) then text_len_utf16 (rope_summary r)
      else let ((start, start_utf16, _), _, item) = find_in_tree (pair_dim len_dim utf16_dim) (first_target (ord_target offset)) Left r
        in start_utf16 + (case item of None \<Rightarrow> 0 | Some c \<Rightarrow> chunk_offset_to_offset_utf16 (as_slice c) (offset - start)))"

definition rope_offset_utf16_to_offset :: "rope \<Rightarrow> offset_utf16 \<Rightarrow> nat" where
  "rope_offset_utf16_to_offset r offset =
     (if offset \<ge> text_len_utf16 (rope_summary r) then text_len (rope_summary r)
      else let ((start_utf16, start, _), _, item) = find_in_tree (pair_dim utf16_dim len_dim) (first_target (ord_target offset)) Left r
        in start + (case item of None \<Rightarrow> 0 | Some c \<Rightarrow> chunk_offset_utf16_to_offset (as_slice c) (offset - start_utf16)))"

definition rope_offset_to_point :: "rope \<Rightarrow> nat \<Rightarrow> point" where
  "rope_offset_to_point r offset =
     (if offset \<ge> text_len (rope_summary r) then text_lines (rope_summary r)
      else let ((start, start_point, _), _, item) = find_in_tree (pair_dim len_dim point_dim) (first_target (ord_target offset)) Left r
        in point_add start_point (case item of None \<Rightarrow> point_zero | Some c \<Rightarrow> chunk_offset_to_point (as_slice c) (offset - start)))"

definition rope_offset_to_point_utf16 :: "rope \<Rightarrow> nat \<Rightarrow> point_utf16" where
  "rope_offset_to_point_utf16 r offset =
     (if offset \<ge> text_len (rope_summary r) then lines_utf16 (rope_summary r)
      else let ((start, start_point, _), _, item) = find_in_tree (pair_dim len_dim point_utf16_dim) (first_target (ord_target offset)) Left r
        in point_utf16_add start_point
             (case item of None \<Rightarrow> point_utf16_zero | Some c \<Rightarrow> chunk_offset_to_point_utf16 (as_slice c) (offset - start)))"

definition rope_point_to_point_utf16 :: "rope \<Rightarrow> point \<Rightarrow> point_utf16" where
  "rope_point_to_point_utf16 r p =
     (if p \<ge> text_lines (rope_summary r) then lines_utf16 (rope_summary r)
      else let ((start, start_utf16, _), _, item) = find_in_tree (pair_dim point_dim point_utf16_dim) (first_target (ord_target p)) Left r
        in point_utf16_add start_utf16
             (case item of None \<Rightarrow> point_utf16_zero | Some c \<Rightarrow> chunk_point_to_point_utf16 (as_slice c) (point_sub p start)))"

definition rope_point_utf16_to_point :: "rope \<Rightarrow> point_utf16 \<Rightarrow> point option" where
  "rope_point_utf16_to_point r p =
     (if p \<ge> lines_utf16 (rope_summary r) then Some (text_lines (rope_summary r))
      else do {
        let D = pair_dim point_utf16_dim point_dim;
        (_, cur) \<leftarrow> cursor_seek D (first_target (ord_target p)) Left (cursor_new D r);
        item \<leftarrow> cursor_item cur;
        let (start_utf16, start, _) = cursor_start cur;
        case item of
          None \<Rightarrow> Some start
        | Some c \<Rightarrow> do {
            offset \<leftarrow> chunk_point_utf16_to_offset (as_slice c) (point_utf16_sub p start_utf16);
            Some (point_add start (chunk_offset_to_point (as_slice c) offset))
          }
      })"

definition rope_point_to_offset :: "rope \<Rightarrow> point \<Rightarrow> nat" where
  "rope_point_to_offset r p =
     (if p \<ge> text_lines (rope_summary r) then text_len (rope_summary r)
      else let ((start_point, start, _), _, item) = find_in_tree (pair_dim point_dim len_dim) (first_target (ord_target p)) Left r
        in start + (case item of None \<Rightarrow> 0 | Some c \<Rightarrow> chunk_point_to_offset (as_slice c) (point_sub p start_point)))"

definition rope_point_to_offset_utf16 :: "rope \<Rightarrow> point \<Rightarrow> offset_utf16 option" where
  "rope_point_to_offset_utf16 r p =
     (if p \<ge> text_lines (rope_summary r) then Some (text_len_utf16 (rope_summary r))
      else do {
        let D = pair_dim point_dim utf16_dim;
        (_, cur) \<leftarrow> cursor_seek D (first_target (ord_target p)) Left (cursor_new D r);
        item \<leftarrow> cursor_item cur;
        let (start_point, start, _) = cursor_start cur;
        Some (start + (case item of None \<Rightarrow> 0 | Some c \<Rightarrow> chunk_point_to_offset_utf16 (as_slice c) (point_sub p start_point)))
      })"

text \<open>\<open>point_utf16_to_offset\<close>, \<open>unclipped_point_utf16_to_offset\<close>: the flag \<open>clip\<close> only silences \<open>debug_panic!\<close>.\<close>

definition rope_point_utf16_to_offset :: "rope \<Rightarrow> point_utf16 \<Rightarrow> nat option" where
  "rope_point_utf16_to_offset r p =
     (if p \<ge> lines_utf16 (rope_summary r) then Some (text_len (rope_summary r))
      else let ((start_utf16, start, _), _, item) = find_in_tree (pair_dim point_utf16_dim len_dim) (first_target (ord_target p)) Left r
        in case item of
             None \<Rightarrow> Some start
           | Some c \<Rightarrow> map_option ((+) start) (chunk_point_utf16_to_offset (as_slice c) (point_utf16_sub p start_utf16)))"

definition rope_point_utf16_to_offset_utf16 :: "rope \<Rightarrow> point_utf16 \<Rightarrow> offset_utf16 option" where
  "rope_point_utf16_to_offset_utf16 r p =
     (if p \<ge> lines_utf16 (rope_summary r) then Some (text_len_utf16 (rope_summary r))
      else do {
        let D = pair_dim point_utf16_dim utf16_dim;
        (_, cur) \<leftarrow> cursor_seek D (first_target (ord_target p)) Left (cursor_new D r);
        item \<leftarrow> cursor_item cur;
        let (start_utf16, start, _) = cursor_start cur;
        case item of
          None \<Rightarrow> Some start
        | Some c \<Rightarrow> do {
            offset \<leftarrow> chunk_point_utf16_to_offset (as_slice c) (point_utf16_sub p start_utf16);
            Some (start + chunk_offset_to_offset_utf16 (as_slice c) offset)
          }
      })"

definition rope_unclipped_point_utf16_to_point :: "rope \<Rightarrow> point_utf16 unclipped \<Rightarrow> point option" where
  "rope_unclipped_point_utf16_to_point r p =
     (if p \<ge> lines_utf16 (rope_summary r) then Some (text_lines (rope_summary r))
      else let ((start_utf16, start, _), _, item) = find_in_tree (pair_dim point_utf16_dim point_dim) (first_target (ord_target p)) Left r
        in case item of
             None \<Rightarrow> Some start
           | Some c \<Rightarrow> map_option (point_add start) (chunk_unclipped_point_utf16_to_point (as_slice c) (point_utf16_sub p start_utf16)))"

definition rope_clip_offset_utf16 :: "rope \<Rightarrow> offset_utf16 \<Rightarrow> bias \<Rightarrow> offset_utf16 option" where
  "rope_clip_offset_utf16 r offset bias =
     (let (start, _, item) = find_in_tree utf16_dim (ord_target offset) Right r
      in case item of
           Some c \<Rightarrow> map_option ((+) start) (chunk_clip_offset_utf16 (as_slice c) (offset - start) bias)
         | None \<Rightarrow> Some (text_len_utf16 (rope_summary r)))"

definition rope_clip_point :: "(str \<Rightarrow> nat \<Rightarrow> bool) \<Rightarrow> rope \<Rightarrow> point \<Rightarrow> bias \<Rightarrow> point option" where
  "rope_clip_point gb r p bias =
     (let (start, _, item) = find_in_tree point_dim (ord_target p) Right r
      in case item of
           Some c \<Rightarrow> map_option (point_add start) (chunk_clip_point gb (as_slice c) (point_sub p start) bias)
         | None \<Rightarrow> Some (text_lines (rope_summary r)))"

definition rope_clip_point_utf16 :: "rope \<Rightarrow> point_utf16 unclipped \<Rightarrow> bias \<Rightarrow> point_utf16 option" where
  "rope_clip_point_utf16 r p bias =
     (let (start, _, item) = find_in_tree point_utf16_dim (ord_target p) Right r
      in case item of
           Some c \<Rightarrow> map_option (point_utf16_add start) (chunk_clip_point_utf16 (as_slice c) (point_utf16_sub p start) bias)
         | None \<Rightarrow> Some (lines_utf16 (rope_summary r)))"

definition rope_line_len :: "(str \<Rightarrow> nat \<Rightarrow> bool) \<Rightarrow> rope \<Rightarrow> nat \<Rightarrow> nat option" where
  "rope_line_len gb r rw = map_option column (rope_clip_point gb r (Point rw (2 ^ 32 - 1)) Left)"

definition rope_slice_rows :: "rope \<Rightarrow> nat \<Rightarrow> nat \<Rightarrow> rope option" where
  "rope_slice_rows r i j = rope_slice r (rope_point_to_offset r (Point i 0)) (rope_point_to_offset r (Point j 0))"

end
