(* ===== verification/Rope_Laws.thy ===== *)
theory Rope_Laws
  imports Rope
begin

text \<open>
  The summaries of chunks obey the laws of the sum tree, and the dimensions of a rope measure its text: the interface
  \<open>text_measure\<close> between the tree of chunks and the text it stands for, with one interpretation per dimension of \<open>rope.rs\<close>.
\<close>

subsection \<open>Summaries of chunks\<close>

lemma chunk_ops_sel [simp]:
  "szero chunk_ops = summary_default" "sadd chunk_ops = summary_add" "ssummary chunk_ops c = chunk_text_summary c"
  by (simp_all add: chunk_ops_def as_slice_def)

lemma summable_consistent: "summable chunk_ops s \<Longrightarrow> consistent s"
  by (induction rule: summable.induct) (simp_all add: consistent_chunk consistent_add)

lemma lawful_chunk_ops: "lawful_summary chunk_ops"
  by (auto simp: lawful_summary_def summable_consistent summary_add_assoc summary_add_default)

interpretation chunk_tree: summary_laws chunk_ops
  by unfold_locales (rule lawful_chunk_ops)

subsection \<open>Texts of chunks\<close>

definition texts :: "chunk list \<Rightarrow> str" where
  "texts cs = concat (map c_text cs)"

definition chunks_ok :: "chunk list \<Rightarrow> bool" where
  "chunks_ok cs \<longleftrightarrow> (\<forall>c \<in> set cs. chunk_ok c \<and> c_text c \<noteq> [])"

lemma texts_simps [simp]: "texts [] = []" "texts (c # cs) = c_text c @ texts cs" "texts (as @ bs) = texts as @ texts bs"
  by (simp_all add: texts_def)

lemma chunks_ok_simps [simp]:
  "chunks_ok []" "chunks_ok (c # cs) \<longleftrightarrow> chunk_ok c \<and> c_text c \<noteq> [] \<and> chunks_ok cs" "chunks_ok (as @ bs) \<longleftrightarrow> chunks_ok as \<and> chunks_ok bs"
  by (auto simp: chunks_ok_def)

lemma texts_utf8: "chunks_ok cs \<Longrightarrow> utf8_ok (texts cs)"
  by (induction cs) (auto simp: utf8_append chunk_ok_def)

lemma texts_Nil_iff: "chunks_ok cs \<Longrightarrow> texts cs = [] \<longleftrightarrow> cs = []"
  by (cases cs) auto

lemma chunk_summary: "chunk_ok c \<Longrightarrow> chunk_text_summary c = summary_of (c_text c)"
  by (metis MAX_BASE_eq(1) chunk_ok_def chunk_text_summary_eq)

subsection \<open>Measures of text\<close>

lemma seek_list_skipped: "seek_list S D sk pos xs = (l, p, r) \<Longrightarrow> \<forall>e \<in> set (ends S D pos l). sk e"
  by (induction xs arbitrary: pos l p r) (auto simp: Let_def split: prod.splits if_splits)

text \<open>A dimension \<open>D\<close> and what it measures of the text: what lies at or before a position is given by the text up to it.\<close>

locale text_measure =
  fixes D :: "(text_summary, 'd) dim_ops" and m :: "str \<Rightarrow> 'd"
  assumes measure_zero: "dzero D = m []"
    and measure_add: "utf8_ok a \<Longrightarrow> utf8_ok b \<Longrightarrow> dadd D (m a) (summary_of b) = m (a @ b)"
    and measure_lawful: "lawful_dim chunk_ops D"

sublocale text_measure \<subseteq> seek_laws chunk_ops D
  by unfold_locales (rule measure_lawful)

context text_measure
begin

lemma measure_texts: "utf8_ok a \<Longrightarrow> chunks_ok cs \<Longrightarrow> pos_after chunk_ops D (m a) cs = m (a @ texts cs)"
proof (induction cs arbitrary: a)
  case (Cons c cs)
  then have "utf8_ok (a @ c_text c)" by (simp add: utf8_append chunk_ok_def)
  then show ?case using Cons by (simp add: chunk_summary measure_add chunk_ok_def)
qed simp

lemma measure_before: "chunks_ok cs \<Longrightarrow> pos_after chunk_ops D (dzero D) cs = m (texts cs)"
  using measure_texts [of "[]"] by (simp add: measure_zero)

lemma measure_extent:
  assumes "wf_tree chunk_ops r" "chunks_ok (tree_items r)"
  shows "dadd D (dzero D) (node_summary r) = m (texts (tree_items r))"
proof (cases "tree_items r = []")
  case True
  then have "node_summary r = summary_default"
    using assms(1) by (cases r) (auto simp: sum_of_def dest: wf_internal_items simp del: wf_tree.simps(2) tree_items.simps(2))
  moreover have "summary_default = summary_of []"
    by (simp add: summary_of_def summary_default_def point_zero_def)
  ultimately show ?thesis using True measure_add [of "[]" "[]"] by (simp add: measure_zero)
next
  case False
  then show ?thesis using assms dadd_tree [of r] by (simp add: measure_before)
qed

text \<open>The ends of the chunks are the measures of the prefixes of the text.\<close>

lemma measure_ends:
  assumes "chunks_ok cs" "utf8_ok a"
  shows "ends chunk_ops D (m a) cs = map (\<lambda>i. m (a @ texts (take (Suc i) cs))) [0..<length cs]"
  using assms
proof (induction cs arbitrary: a)
  case (Cons c cs)
  then have "utf8_ok (a @ c_text c)" by (simp add: utf8_append chunk_ok_def)
  then show ?case using Cons
    by (simp add: chunk_summary measure_add chunk_ok_def map_upt_Suc del: upt_Suc)
qed simp

text \<open>A scan whose test stops at the length \<open>n\<close> of the text passed over.\<close>

definition stops_at :: "('d \<Rightarrow> bool) \<Rightarrow> str \<Rightarrow> chunk list \<Rightarrow> nat \<Rightarrow> bool" where
  "stops_at sk a cs n \<longleftrightarrow>
     (\<forall>xs ys. cs = xs @ ys \<longrightarrow> xs \<noteq> [] \<longrightarrow> (sk (m (a @ texts xs)) \<longleftrightarrow> length a + length (texts xs) < n))"

lemma stops_at_sorted:
  assumes "chunks_ok cs" "utf8_ok a" "stops_at sk a cs n"
  shows "target_sorted chunk_ops D sk (m a) cs"
proof -
  have sk: "sk (m (a @ texts (take (Suc i) cs))) \<longleftrightarrow> length a + length (texts (take (Suc i) cs)) < n" if "i < length cs" for i
    using assms(3) append_take_drop_id [of "Suc i" cs, symmetric] that unfolding stops_at_def by (metis list.size(3) not_less_zero take_eq_Nil nat.distinct(1))
  have "length (texts (take (Suc i) cs)) \<le> length (texts (take (Suc j) cs))" if "i < j" for i j
  proof -
    have "take (Suc j) cs = take (Suc i) cs @ drop (Suc i) (take (Suc j) cs)"
      using that append_take_drop_id [of "Suc i" "take (Suc j) cs"] by simp
    then show ?thesis by (metis texts_simps(3) length_append le_add1)
  qed
  then show ?thesis using sk
    by (fastforce simp: target_sorted_def measure_ends [OF assms(1,2)] sorted_wrt_iff_nth_less)
qed

lemma stops_at_seek:
  assumes "chunks_ok cs" "utf8_ok a" "stops_at sk a cs n"
  obtains xs ys where "seek_list chunk_ops D sk (m a) cs = (xs, m (a @ texts xs), ys)" "cs = xs @ ys"
    "xs = [] \<or> length a + length (texts xs) < n" "ys \<noteq> [] \<longrightarrow> n \<le> length a + length (texts xs) + length (c_text (hd ys))"
proof -
  obtain xs p ys where s: "seek_list chunk_ops D sk (m a) cs = (xs, p, ys)" by (metis prod_cases3)
  from seek_list_parts [OF this] have parts: "cs = xs @ ys" "p = pos_after chunk_ops D (m a) xs"
    "ys \<noteq> [] \<longrightarrow> \<not> sk (dadd D p (ssummary chunk_ops (hd ys)))" by auto
  have ok: "chunks_ok xs" "chunks_ok ys" using assms(1) parts(1) by auto
  have p: "p = m (a @ texts xs)" using parts(2) measure_texts [OF assms(2) ok(1)] by simp
  have u: "utf8_ok (a @ texts xs)" using assms(2) texts_utf8 [OF ok(1)] by (simp add: utf8_append)
  have end': "n \<le> length a + length (texts xs) + length (c_text (hd ys))" if ne: "ys \<noteq> []"
  proof -
    obtain c ys' where ys: "ys = c # ys'" using ne by (cases ys) auto
    have "dadd D p (ssummary chunk_ops c) = m (a @ texts (xs @ [c]))"
      using ok(2) ys measure_add [OF u, of "c_text c"] p by (simp add: chunk_summary chunk_ok_def)
    moreover have "sk (m (a @ texts (xs @ [c]))) \<longleftrightarrow> length a + length (texts (xs @ [c])) < n"
      using assms(3) parts(1) ys unfolding stops_at_def by (metis append.assoc append_Cons append_Nil snoc_eq_iff_butlast)
    ultimately show ?thesis using parts(3) ys by simp
  qed
  have "length a + length (texts xs) < n" if "xs \<noteq> []"
  proof -
    have "sk (m (a @ texts xs))"
      using seek_list_skipped [OF s] that pos_after_in_ends [OF that, of chunk_ops D "m a"] parts(2) p by auto
    then show ?thesis using assms(3) parts(1) that by (simp add: stops_at_def)
  qed
  then show ?thesis using that [of xs ys] s p parts(1) end' by blast
qed

end

text \<open>An ordered measure that grows with every character.\<close>

locale ordered_measure = text_measure D m for D :: "(text_summary, 'd :: linorder) dim_ops" and m +
  assumes measure_grows: "utf8_ok a \<Longrightarrow> utf8_ok b \<Longrightarrow> b \<noteq> [] \<Longrightarrow> m a < m (a @ b)"
begin

text \<open>Along the prefixes of a text the order of the measures is the order of the lengths.\<close>

lemma measure_less_iff:
  assumes "utf8_ok a" "utf8_ok c" "a @ b = c @ d"
  shows "m a < m c \<longleftrightarrow> length a < length c" "m a = m c \<longleftrightarrow> length a = length c"
proof -
  have *: "m a < m c" if "length a < length c" "utf8_ok a" "utf8_ok c" "a @ b = c @ d" for a b c d
  proof -
    from that(1,4) obtain e where "c = a @ e" "e \<noteq> []" by (auto simp: append_eq_append_conv2)
    then show ?thesis using measure_grows [of a e] that(2,3) by (simp add: utf8_append)
  qed
  consider "length a < length c" | "length c < length a" | "a = c" using assms(3) by (metis append_eq_append_conv nat_neq_iff)
  then have "(m a < m c \<longleftrightarrow> length a < length c) \<and> (m a = m c \<longleftrightarrow> length a = length c)"
    by cases (use * [OF _ assms] * [OF _ assms(2,1) assms(3) [symmetric]] in force)+
  then show "m a < m c \<longleftrightarrow> length a < length c" "m a = m c \<longleftrightarrow> length a = length c" by auto
qed

end

subsection \<open>The dimensions of a rope\<close>

lemma lawful_dims:
  "lawful_dim chunk_ops text_dim" "lawful_dim chunk_ops len_dim" "lawful_dim chunk_ops utf16_dim"
  "lawful_dim chunk_ops point_dim" "lawful_dim chunk_ops point_utf16_dim"
  by (auto simp: lawful_dim_def text_dim_def len_dim_def utf16_dim_def point_dim_def point_utf16_dim_def summary_add_sel
      lines_utf16_def point_add_assoc summary_add_assoc summable_consistent point_add_def point_utf16_add_def)

lemma lawful_pair_dim: "lawful_dim S A \<Longrightarrow> lawful_dim S B \<Longrightarrow> lawful_dim S (dimensions A B unit_dim)"
  by (auto simp: lawful_dim_def dimensions_def unit_dim_def)

interpretation by_summary: text_measure text_dim summary_of
proof
  show "dzero text_dim = summary_of []"
    by (simp add: text_dim_def summary_of_def summary_default_def point_zero_def)
qed (simp_all add: lawful_dims, simp add: text_dim_def summary_of_append)

interpretation by_len: ordered_measure len_dim length
  by unfold_locales (simp_all add: lawful_dims, simp_all add: len_dim_def summary_of_def)

interpretation by_utf16: ordered_measure utf16_dim utf16_count
proof unfold_locales
  fix a b :: str assume "utf8_ok a" "utf8_ok b" "b \<noteq> []"
  then show "utf16_count a < utf16_count (a @ b)" using utf16_count_pos [of b "length b"] by (simp add: counts_append)
qed (simp_all add: lawful_dims, simp_all add: utf16_dim_def summary_of_def counts_append)

lemma point_of_grows: "b \<noteq> [] \<Longrightarrow> point_of a < point_of (a @ b)"
proof -
  assume "b \<noteq> []"
  then have "0 < row (point_of b) \<or> 0 < column (point_of b)"
    by (cases "10 \<in> set b") (auto simp: point_of_def lines_of_no_newline length_lines_of newline_marks_def count_true_def filter_empty_conv)
  then show ?thesis by (auto simp: point_of_append point_add_def less_point_def)
qed

interpretation by_point: ordered_measure point_dim point_of
  by unfold_locales (simp_all add: lawful_dims point_of_grows, simp_all add: point_dim_def summary_of_def point_of_append)

lemma lines_utf16_of: "lines_utf16 (summary_of t) = point_utf16_of t"
  by (simp add: lines_utf16_def summary_of_def point_utf16_of_def point_of_def)

interpretation by_point_utf16: ordered_measure point_utf16_dim point_utf16_of
proof unfold_locales
  fix a b :: str assume ok: "utf8_ok a" "utf8_ok b" "b \<noteq> []"
  have "0 < row_utf16 (point_utf16_of b) \<or> 0 < column_utf16 (point_utf16_of b)"
  proof (cases "10 \<in> set b")
    case True
    then show ?thesis by (auto simp: point_utf16_of_def length_lines_of newline_marks_def count_true_def filter_empty_conv)
  next
    case False
    then show ?thesis using utf16_count_pos [OF ok(2), of "length b"] ok(3) by (simp add: point_utf16_of_def lines_of_no_newline)
  qed
  then show "point_utf16_of a < point_utf16_of (a @ b)"
    using ok by (auto simp: point_utf16_of_append point_utf16_add_def less_point_utf16_def)
qed (simp_all add: lawful_dims, simp_all add: point_utf16_dim_def lines_utf16_of point_utf16_of_append)

text \<open>Two dimensions at once.\<close>

lemma pair_measure:
  assumes "text_measure A m" "text_measure B m'"
  shows "text_measure (pair_dim A B) (\<lambda>t. (m t, m' t, ()))"
proof -
  have a: "dzero A = m []" "lawful_dim chunk_ops A" "\<And>a b. utf8_ok a \<Longrightarrow> utf8_ok b \<Longrightarrow> dadd A (m a) (summary_of b) = m (a @ b)"
    using assms(1) by (auto simp: text_measure_def)
  have b: "dzero B = m' []" "lawful_dim chunk_ops B" "\<And>a b. utf8_ok a \<Longrightarrow> utf8_ok b \<Longrightarrow> dadd B (m' a) (summary_of b) = m' (a @ b)"
    using assms(2) by (auto simp: text_measure_def)
  show ?thesis
    using lawful_pair_dim [OF a(2) b(2)] a b by unfold_locales (auto simp: pair_dim_def dimensions_def unit_dim_def)
qed

end
