(* ===== verification/Rope_Edit.thy ===== *)
theory Rope_Edit
  imports Rope_Laws
begin

text \<open>
  The editing operations of a rope are the operations on its text. The invariant is the one that \<open>check_invariants\<close> tests:
  a well-formed tree of non-empty chunks that agree with their text, all of which but the last are at least half full,
  up to the three bytes that a character may stick out.
\<close>

subsection \<open>The invariant\<close>

definition big :: "chunk \<Rightarrow> bool" where
  "big c \<longleftrightarrow> MIN_BASE \<le> length (c_text c) + 3"

definition filled :: "chunk list \<Rightarrow> bool" where
  "filled cs \<longleftrightarrow> (\<forall>c \<in> set (butlast cs). big c)"

definition rope_ok :: "rope \<Rightarrow> bool" where
  "rope_ok r \<longleftrightarrow> wf_tree chunk_ops r \<and> chunks_ok (tree_items r) \<and> filled (tree_items r)"

definition rope_text :: "rope \<Rightarrow> str" where
  "rope_text r = texts (tree_items r)"

lemma filled_simps [simp]: "filled []" "filled [c]"
  by (simp_all add: filled_def)

lemma filled_append: "ys \<noteq> [] \<Longrightarrow> filled (xs @ ys) \<longleftrightarrow> (\<forall>c \<in> set xs. big c) \<and> filled ys"
  by (auto simp: filled_def butlast_append)

lemma filled_all: "\<forall>c \<in> set cs. big c \<Longrightarrow> filled cs"
  by (auto simp: filled_def dest: in_set_butlastD)

lemma rope_text_utf8: "rope_ok r \<Longrightarrow> utf8_ok (rope_text r)"
  by (simp add: rope_ok_def rope_text_def texts_utf8)

lemma rope_new_ok [simp]: "rope_ok rope_new" "rope_text rope_new = []" "tree_items rope_new = []"
  by (simp_all add: rope_ok_def rope_text_def rope_new_def)

lemma rope_len_eq: "rope_ok r \<Longrightarrow> rope_len r = length (rope_text r)"
  by (simp add: rope_len_def extent_def rope_ok_def rope_text_def by_len.measure_extent)

lemma rope_summary_eq: "rope_ok r \<Longrightarrow> rope_summary r = summary_of (rope_text r)"
  using by_summary.measure_extent [of r] wf_tree_summable [of chunk_ops r]
  by (simp add: rope_ok_def rope_text_def rope_summary_def text_dim_def summary_add_default summable_consistent)

subsection \<open>Cutting texts\<close>

text \<open>A character has at most four bytes, so a boundary is at most three bytes away.\<close>

lemma char_len_le: "char_ok c \<Longrightarrow> 0 < length c \<and> length c \<le> 4"
  by (auto simp: char_ok_def char_len_def)

lemma boundary_shift: "utf8_ok t \<Longrightarrow> str_is_char_boundary t i \<Longrightarrow> str_is_char_boundary (c @ t) (length c + i)"
  using utf8_hd [of t] by (cases "i = 0") (auto simp: str_is_char_boundary_def nth_append hd_conv_nth)

lemma boundary_after: "utf8_ok t \<Longrightarrow> str_is_char_boundary (c @ t) (length c)"
  using utf8_hd [of t] by (cases t) (auto simp: str_is_char_boundary_def nth_append)

lemma boundary_near:
  assumes "utf8_ok t" "i \<le> length t"
  shows "\<exists>j \<le> i + 3. i \<le> j \<and> str_is_char_boundary t j" "\<exists>j \<le> i. i \<le> j + 3 \<and> str_is_char_boundary t j"
proof -
  have "(\<exists>j \<le> i + 3. i \<le> j \<and> str_is_char_boundary t j) \<and> (\<exists>j \<le> i. i \<le> j + 3 \<and> str_is_char_boundary t j)"
    using assms
  proof (induction t arbitrary: i rule: utf8_induct)
    case (char c t)
    have c: "0 < length c" "length c \<le> 4" using char_len_le [OF char.hyps(1)] by auto
    have zero: "str_is_char_boundary (c @ t) 0" by (simp add: str_is_char_boundary_def)
    show ?case
    proof (cases "i < length c")
      case True
      then show ?thesis using c zero boundary_after [OF char.hyps(2), of c]
        by (cases "i = 0") (fastforce intro: exI [of _ "length c"])+
    next
      case False
      then obtain k where k: "i = length c + k" by (metis le_Suc_ex not_less)
      then have "k \<le> length t" using char.prems by simp
      from char.IH [OF this] obtain j j' where "j \<le> k + 3" "k \<le> j" "str_is_char_boundary t j" "j' \<le> k" "k \<le> j' + 3" "str_is_char_boundary t j'"
        by blast
      then show ?thesis using k boundary_shift [OF char.hyps(2)]
        by (intro conjI exI [of _ "length c + j"] exI [of _ "length c + j'"]) auto
    qed
  qed (simp add: str_is_char_boundary_def)
  then show "\<exists>j \<le> i + 3. i \<le> j \<and> str_is_char_boundary t j" "\<exists>j \<le> i. i \<le> j + 3 \<and> str_is_char_boundary t j" by auto
qed

lemma step_right:
  assumes "str_is_char_boundary t j" "i \<le> j"
  shows "\<exists>k. step_to_boundary t Right i = Some k \<and> i \<le> k \<and> k \<le> j \<and> str_is_char_boundary t k"
  using assms(2)
proof (induction i rule: inc_induct)
  case base
  then show ?case using assms(1) by (simp add: step_to_boundary.simps)
next
  case (step i)
  have "j \<le> length t" using assms(1) by (rule boundary_mark)
  then show ?case using step by (subst step_to_boundary.simps) (fastforce simp: Suc_le_eq)
qed

lemma back_to_boundary_spec:
  assumes "str_is_char_boundary t j" "j \<le> i"
  shows "j \<le> back_to_boundary t i \<and> back_to_boundary t i \<le> i \<and> str_is_char_boundary t (back_to_boundary t i)"
  using assms(2)
proof (induction i)
  case (Suc i)
  then show ?case using assms(1) by (cases "j = Suc i") auto
qed (use assms in auto)

lemma split_pieces_spec:
  assumes "utf8_ok t"
  shows "\<exists>ps. split_pieces t = Some ps \<and> concat ps = t \<and> (\<forall>p \<in> set ps. utf8_ok p \<and> p \<noteq> [] \<and> length p \<le> 128) \<and>
    (\<forall>p \<in> set (butlast ps). 125 \<le> length p)"
  using assms
proof (induction t rule: split_pieces.induct)
  case (1 t)
  show ?case
  proof (cases "t = []")
    case False
    define ix where "ix = back_to_boundary t (min 128 (length t))"
    obtain j where j: "j \<le> min 128 (length t)" "min 128 (length t) \<le> j + 3" "str_is_char_boundary t j"
      using boundary_near(2) [OF 1(2), of "min 128 (length t)"] by auto
    have full: "str_is_char_boundary t (length t)" by (simp add: str_is_char_boundary_def)
    have bb: "j \<le> ix" "ix \<le> min 128 (length t)" "str_is_char_boundary t ix"
      using back_to_boundary_spec [OF j(3,1)] by (auto simp: ix_def)
    have "length t \<le> ix" if "length t \<le> 128"
      using back_to_boundary_spec [OF full, of "min 128 (length t)"] that by (auto simp: ix_def)
    then have ix: "ix \<le> 128" "ix \<le> length t" "str_is_char_boundary t ix" "min 128 (length t) \<le> ix + 3" "length t \<le> 128 \<Longrightarrow> ix = length t"
      using bb j(2) by simp_all
    have pos: "0 < ix" using ix False by (cases "length t \<le> 128") auto
    have cut: "utf8_ok (take ix t)" "utf8_ok (drop ix t)" using utf8_cut [OF 1(2) ix(3)] by auto
    obtain ps where ps: "split_pieces (drop ix t) = Some ps" "concat ps = drop ix t"
        "\<forall>p \<in> set ps. utf8_ok p \<and> p \<noteq> [] \<and> length p \<le> 128" "\<forall>p \<in> set (butlast ps). 125 \<le> length p"
      using 1(1) [OF False] ix_def pos cut(2) by auto
    have "125 \<le> length (take ix t)" if "ps \<noteq> []"
    proof -
      have "drop ix t \<noteq> []" using ps(2,3) that by (cases ps) auto
      then have "128 < length t" using ix by (cases "length t \<le> 128") auto
      then show ?thesis using ix by simp
    qed
    moreover have "split_pieces t = Some (take ix t # ps)"
      using False ps(1) pos by (subst split_pieces.simps) (simp add: ix_def Let_def)
    moreover have "take ix t \<noteq> []" "length (take ix t) \<le> 128" using pos False ix by simp_all
    moreover have "concat (take ix t # ps) = t" using ps(2) by simp
    ultimately show ?thesis using ps(3,4) cut(1) by (intro exI [of _ "take ix t # ps"]) simp
  qed (simp add: split_pieces.simps)
qed

lemma new_chunks_eq: "\<forall>p \<in> set ps. utf8_ok p \<and> length p \<le> 128 \<Longrightarrow> new_chunks ps = Some (map chunk_of ps)"
  by (induction ps) (auto simp: chunk_new_eq)

text \<open>Four chunks are enough for the texts that \<open>push\<close> does not hand to \<open>push_large\<close>.\<close>

lemma few_pieces:
  assumes "length (concat ps) \<le> 496" "\<forall>p \<in> set ps. p \<noteq> []" "\<forall>p \<in> set (butlast ps). 125 \<le> length p"
  shows "length ps \<le> 4"
proof (cases ps rule: rev_cases)
  case (snoc qs q)
  have "\<forall>p \<in> set qs. 125 \<le> length p \<Longrightarrow> 125 * length qs \<le> length (concat qs)" by (induction qs) auto
  then have "125 * length qs < length (concat ps)" using assms(2,3) snoc by (cases q) auto
  then show ?thesis using assms(1) snoc by simp
qed simp

subsection \<open>Filling the last chunk\<close>

text \<open>The index at which \<open>push\<close> and \<open>push_chunk\<close> split what does not fit into the last chunk.\<close>

definition splits :: "str \<Rightarrow> str \<Rightarrow> nat \<Rightarrow> bool" where
  "splits l t ix \<longleftrightarrow> str_is_char_boundary t ix \<and>
     (if length l + length t \<le> 128 then ix = length t
      else min (64 - length l) (length t) \<le> ix \<and> ix \<le> min (64 - length l) (length t) + 3 \<and> (64 \<le> length l \<longrightarrow> ix = 0))"

lemma splits_bounds:
  assumes "splits l t ix" "length l \<le> 128"
  shows "ix \<le> length t" "length l + ix \<le> 128" "ix < length t \<Longrightarrow> 64 \<le> length l + ix"
    "ix < length t \<Longrightarrow> 61 \<le> length t \<Longrightarrow> 61 \<le> length t - ix"
proof -
  have ix: "ix \<le> length t" using assms(1) boundary_mark by (auto simp: splits_def)
  show "ix \<le> length t" by (rule ix)
  show "length l + ix \<le> 128" "ix < length t \<Longrightarrow> 64 \<le> length l + ix"
    "ix < length t \<Longrightarrow> 61 \<le> length t \<Longrightarrow> 61 \<le> length t - ix"
    using assms ix by (auto simp: splits_def split: if_splits)
qed

lemma split_near:
  assumes "utf8_ok t" "length l \<le> 128"
  obtains j where "min (64 - length l) (length t) \<le> j" "j \<le> min (64 - length l) (length t) + 3" "64 \<le> length l \<longrightarrow> j = 0" "str_is_char_boundary t j"
proof (cases "64 \<le> length l")
  case True
  then show ?thesis by (intro that [of 0]) (simp_all add: str_is_char_boundary_def)
next
  case False
  then show ?thesis using boundary_near(1) [OF assms(1), of "min (64 - length l) (length t)"] that by auto
qed

lemma split_str:
  assumes "utf8_ok t" "length l \<le> 128"
  obtains ix where "splits l t ix"
    "(if length l + length t \<le> MAX_BASE then Some (length t)
      else step_to_boundary t Right (min (MIN_BASE - length l) (length t))) = Some ix"
proof (cases "length l + length t \<le> 128")
  case True
  then show ?thesis by (intro that [of "length t"]) (simp_all add: splits_def str_is_char_boundary_def)
next
  case False
  obtain j where "min (64 - length l) (length t) \<le> j" "j \<le> min (64 - length l) (length t) + 3" "64 \<le> length l \<longrightarrow> j = 0" "str_is_char_boundary t j"
    by (rule split_near [OF assms])
  with step_right [of t j "min (64 - length l) (length t)"] obtain k where
    "step_to_boundary t Right (min (64 - length l) (length t)) = Some k" "min (64 - length l) (length t) \<le> k" "k \<le> j" "str_is_char_boundary t k"
    by blast
  then show ?thesis using False \<open>j \<le> _\<close> \<open>64 \<le> length l \<longrightarrow> j = 0\<close> by (intro that [of k]) (auto simp: splits_def)
qed

lemma chunk_step_right_eq:
  assumes "utf8_ok t" "length t \<le> 128" "str_is_char_boundary t j" "i \<le> j"
  shows "\<exists>k. chunk_step_right (chunk_of t) i = Some k \<and> i \<le> k \<and> k \<le> j \<and> str_is_char_boundary t k"
  using assms(4)
proof (induction i rule: inc_induct)
  case base
  then show ?case using assms by (simp add: chunk_step_right.simps chunk_is_char_boundary_eq)
next
  case (step i)
  have "j \<le> length t" using assms(3) by (rule boundary_mark)
  then show ?case using step assms(1,2)
    by (subst chunk_step_right.simps) (fastforce simp: chunk_is_char_boundary_eq Suc_le_eq)
qed

lemma split_chunk:
  assumes "utf8_ok t" "length t \<le> 128" "length l \<le> 128"
  obtains ix where "splits l t ix"
    "(if length l + chunk_len (chunk_of t) \<le> MAX_BASE then Some (chunk_len (chunk_of t))
      else chunk_step_right (chunk_of t) (min (MIN_BASE - length l) (chunk_len (chunk_of t)))) = Some ix"
proof (cases "length l + length t \<le> 128")
  case True
  then show ?thesis by (intro that [of "length t"]) (simp_all add: splits_def str_is_char_boundary_def chunk_len_def)
next
  case False
  obtain j where "min (64 - length l) (length t) \<le> j" "j \<le> min (64 - length l) (length t) + 3" "64 \<le> length l \<longrightarrow> j = 0" "str_is_char_boundary t j"
    by (rule split_near [OF assms(1,3)])
  with chunk_step_right_eq [OF assms(1,2), of j "min (64 - length l) (length t)"] obtain k where
    "chunk_step_right (chunk_of t) (min (64 - length l) (length t)) = Some k" "min (64 - length l) (length t) \<le> k" "k \<le> j" "str_is_char_boundary t k"
    by blast
  then show ?thesis using False \<open>j \<le> _\<close> \<open>64 \<le> length l \<longrightarrow> j = 0\<close> by (intro that [of k]) (auto simp: splits_def chunk_len_def)
qed

lemma push_into_last_eq:
  assumes "utf8_ok l" "length l \<le> 128" "utf8_ok t"
  obtains ix where "splits l t ix" "push_into_last (chunk_of l) t = Some (chunk_of (l @ take ix t), drop ix t)"
proof -
  obtain ix where ix: "splits l t ix" "(if length l + length t \<le> MAX_BASE then Some (length t)
      else step_to_boundary t Right (min (MIN_BASE - length l) (length t))) = Some ix"
    by (rule split_str [OF assms(3,2)])
  have b: "str_is_char_boundary t ix" using ix(1) by (simp add: splits_def)
  have "chunk_push_str (chunk_of l) (take ix t) = Some (chunk_of (l @ take ix t))"
    using assms(1) utf8_cut [OF assms(3) b] splits_bounds(1,2) [OF ix(1) assms(2)] by (intro chunk_push_str_eq) auto
  then have "push_into_last (chunk_of l) t = Some (chunk_of (l @ take ix t), drop ix t)"
    unfolding push_into_last_def chunk_of_sel ix(2) using b by (simp add: str_split_at_def)
  then show ?thesis using ix(1) that by blast
qed

lemma append_to_last_eq:
  assumes "utf8_ok l" "length l \<le> 128" "utf8_ok t" "length t \<le> 128"
  obtains ix where "splits l t ix" "append_to_last (chunk_of l) (chunk_of t) = Some (chunk_of (l @ take ix t), chunk_of (drop ix t))"
proof -
  obtain ix where ix: "splits l t ix" "(if length l + chunk_len (chunk_of t) \<le> MAX_BASE then Some (chunk_len (chunk_of t))
      else chunk_step_right (chunk_of t) (min (MIN_BASE - length l) (chunk_len (chunk_of t)))) = Some ix"
    by (rule split_chunk [OF assms(3,4,2)])
  have b: "str_is_char_boundary t ix" using ix(1) by (simp add: splits_def)
  have "chunk_append (chunk_of l) (chunk_of (take ix t)) = Some (chunk_of (l @ take ix t))"
    using assms(1) utf8_cut [OF assms(3) b] splits_bounds(1,2) [OF ix(1) assms(2)] by (intro chunk_append_eq) auto
  then have "append_to_last (chunk_of l) (chunk_of t) = Some (chunk_of (l @ take ix t), chunk_of (drop ix t))"
    unfolding append_to_last_def chunk_of_sel ix(2) using chunk_split_at_eq [OF assms(3,4) b] by simp
  then show ?thesis using ix(1) that by blast
qed

text \<open>The last chunk of a rope, and the rope with another one in its place.\<close>

lemma rope_last_cases:
  assumes "rope_ok r"
  obtains "tree_items r = []" "tree_last r = Some None"
  | cs l where "tree_items r = cs @ [chunk_of l]" "tree_last r = Some (Some (chunk_of l))" "utf8_ok l" "l \<noteq> []" "length l \<le> 128"
    "\<And>c'. \<exists>r'. update_last chunk_ops (\<lambda>_. c') r = Some r' \<and> wf_tree chunk_ops r' \<and> tree_items r' = cs @ [c']"
proof (cases "tree_items r" rule: rev_cases)
  case Nil
  then show ?thesis using assms chunk_tree.tree_last_spec [of r] by (intro that(1)) (auto simp: rope_ok_def last_opt_def)
next
  case (snoc cs c)
  then have c: "chunk_ok c" "c_text c \<noteq> []" "wf_tree chunk_ops r" using assms by (auto simp: rope_ok_def)
  obtain l where l: "c = chunk_of l" "utf8_ok l" "length l \<le> MAX_BASE" by (rule chunk_okE [OF c(1)])
  have "\<exists>r'. update_last chunk_ops (\<lambda>_. c') r = Some r' \<and> wf_tree chunk_ops r' \<and> tree_items r' = cs @ [c']" for c'
    using chunk_tree.update_last_recursive_spec [OF c(3), of "\<lambda>_. c'"] snoc by (auto simp: update_last_def)
  then show ?thesis using l snoc c chunk_tree.tree_last_spec [of r] by (intro that(2) [of cs l]) (auto simp: last_opt_def)
qed

subsection \<open>Pushing\<close>

lemma big_chunk_of: "big (chunk_of t) \<longleftrightarrow> 61 \<le> length t"
  by (auto simp: big_def)

lemma splits_last_ok:
  assumes "splits l t ix" "utf8_ok l" "l \<noteq> []" "length l \<le> 128" "utf8_ok t"
  shows "chunks_ok [chunk_of (l @ take ix t)]" "utf8_ok (drop ix t)" "l @ take ix t @ drop ix t = l @ t"
    "drop ix t \<noteq> [] \<Longrightarrow> big (chunk_of (l @ take ix t))"
proof -
  have "str_is_char_boundary t ix" using assms(1) by (simp add: splits_def)
  from utf8_cut [OF assms(5) this] splits_bounds [OF assms(1,4)]
  show "chunks_ok [chunk_of (l @ take ix t)]" "utf8_ok (drop ix t)" "drop ix t \<noteq> [] \<Longrightarrow> big (chunk_of (l @ take ix t))"
    using assms(2,3) by (auto simp: chunk_ok_of big_chunk_of utf8_append)
qed simp

lemma rope_with_last:
  assumes "rope_ok r" "tree_items r = cs @ [c]" "wf_tree chunk_ops r'" "tree_items r' = cs @ [c']" "chunks_ok [c']"
  shows "rope_ok r'" "rope_text r' = texts cs @ c_text c'" "big c' \<Longrightarrow> \<forall>x \<in> set (tree_items r'). big x"
  using assms by (auto simp: rope_ok_def rope_text_def filled_append)

lemma push_step:
  assumes "rope_ok r" "utf8_ok t"
  obtains r1 rest where
    "tree_last r \<bind> (\<lambda>last. case last of None \<Rightarrow> Some (r, t)
       | Some c \<Rightarrow> push_into_last c t \<bind> (\<lambda>(c', rest). update_last chunk_ops (\<lambda>_. c') r \<bind> (\<lambda>r'. Some (r', rest)))) = Some (r1, rest)"
    "rope_ok r1" "utf8_ok rest" "rope_text r1 @ rest = rope_text r @ t" "rest \<noteq> [] \<longrightarrow> (\<forall>c \<in> set (tree_items r1). big c)"
  using assms(1)
proof (cases rule: rope_last_cases)
  case 1
  then show ?thesis using assms by (intro that [of r t]) simp_all
next
  case (2 cs l)
  obtain ix where ix: "splits l t ix" "push_into_last (chunk_of l) t = Some (chunk_of (l @ take ix t), drop ix t)"
    by (rule push_into_last_eq [OF 2(3,5) assms(2)])
  note ok = splits_last_ok [OF ix(1) 2(3-5) assms(2)]
  obtain r' where r': "update_last chunk_ops (\<lambda>_. chunk_of (l @ take ix t)) r = Some r'" "wf_tree chunk_ops r'"
      "tree_items r' = cs @ [chunk_of (l @ take ix t)]" using 2(6) by blast
  note rl = rope_with_last [OF assms(1) 2(1) r'(2,3) ok(1)]
  show ?thesis using 2 ix(2) r'(1) rl ok by (intro that [of r' "drop ix t"]) (auto simp: rope_text_def)
qed

lemma filled_pieces:
  assumes "\<forall>c \<in> set cs. big c" "\<forall>p \<in> set (butlast ps). 125 \<le> length p"
  shows "filled (cs @ map chunk_of ps)"
proof (cases "ps = []")
  case True
  then show ?thesis using assms(1) by (simp add: filled_all)
next
  case False
  have "filled (map chunk_of ps)" using assms(2) by (fastforce simp: filled_def big_chunk_of simp flip: map_butlast)
  then show ?thesis using assms(1) False by (simp add: filled_append)
qed

lemma extend_pieces:
  assumes "rope_ok r" "\<forall>c \<in> set (tree_items r). big c" "\<forall>p \<in> set ps. utf8_ok p \<and> p \<noteq> [] \<and> length p \<le> 128"
    "\<forall>p \<in> set (butlast ps). 125 \<le> length p"
  shows "\<exists>r'. Sum_Tree.extend chunk_ops r (map chunk_of ps) = Some r' \<and> par_extend chunk_ops r (map chunk_of ps) = Some r' \<and>
    rope_ok r' \<and> rope_text r' = rope_text r @ concat ps"
proof -
  obtain r' where r': "Sum_Tree.extend chunk_ops r (map chunk_of ps) = Some r'" "wf_tree chunk_ops r'"
      "tree_items r' = tree_items r @ map chunk_of ps"
    using chunk_tree.extend_spec [of r "map chunk_of ps"] assms(1) by (auto simp: rope_ok_def)
  have "texts (map chunk_of ps) = concat ps" by (simp add: texts_def comp_def)
  moreover have "chunks_ok (map chunk_of ps)" using assms(3) by (auto simp: chunks_ok_def chunk_ok_of)
  ultimately show ?thesis using r' assms(1) filled_pieces [OF assms(2,4)]
    by (auto simp: par_extend_def Sum_Tree.extend_def chunk_tree.from_par_iter_eq rope_ok_def rope_text_def)
qed

lemma push_large_spec:
  assumes "rope_ok r" "\<forall>c \<in> set (tree_items r). big c" "utf8_ok t"
  shows "\<exists>r'. push_large r t = Some r' \<and> rope_ok r' \<and> rope_text r' = rope_text r @ t"
proof -
  obtain ps where ps: "split_pieces t = Some ps" "concat ps = t" "\<forall>p \<in> set ps. utf8_ok p \<and> p \<noteq> [] \<and> length p \<le> 128"
      "\<forall>p \<in> set (butlast ps). 125 \<le> length p" using split_pieces_spec [OF assms(3)] by blast
  then show ?thesis using extend_pieces [OF assms(1,2) ps(3,4)] new_chunks_eq [of ps] by (auto simp: push_large_def)
qed

lemma rope_push_spec:
  assumes "rope_ok r" "utf8_ok t"
  shows "\<exists>r'. rope_push r t = Some r' \<and> rope_ok r' \<and> rope_text r' = rope_text r @ t"
proof -
  obtain r1 rest where step:
    "tree_last r \<bind> (\<lambda>last. case last of None \<Rightarrow> Some (r, t)
       | Some c \<Rightarrow> push_into_last c t \<bind> (\<lambda>(c', rest). update_last chunk_ops (\<lambda>_. c') r \<bind> (\<lambda>r'. Some (r', rest)))) = Some (r1, rest)"
    and r1: "rope_ok r1" "utf8_ok rest" "rope_text r1 @ rest = rope_text r @ t" "rest \<noteq> [] \<longrightarrow> (\<forall>c \<in> set (tree_items r1). big c)"
    by (rule push_step [OF assms])
  have push: "rope_push r t = (if rest = [] then Some r1
     else if length rest > NUM_CHUNKS * MAX_BASE - NUM_CHUNKS * 4 then push_large r1 rest
     else do { pieces \<leftarrow> split_pieces rest;
       if length pieces \<le> NUM_CHUNKS then do { cs \<leftarrow> new_chunks pieces; Sum_Tree.extend chunk_ops r1 cs } else None })"
    unfolding rope_push_def by (subst Option.bind_assoc [symmetric], subst step) simp
  show ?thesis
  proof (cases "rest = [] \<or> length rest > 496")
    case True
    then show ?thesis using r1 push push_large_spec [OF r1(1) _ r1(2)] by (auto simp: NUM_CHUNKS_def)
  next
    case False
    obtain ps where ps: "split_pieces rest = Some ps" "concat ps = rest" "\<forall>p \<in> set ps. utf8_ok p \<and> p \<noteq> [] \<and> length p \<le> 128"
        "\<forall>p \<in> set (butlast ps). 125 \<le> length p" using split_pieces_spec [OF r1(2)] by blast
    then have "length ps \<le> 4" using False by (intro few_pieces) auto
    then show ?thesis using extend_pieces [OF r1(1) _ ps(3,4)] new_chunks_eq [of ps] ps False r1 push
      by (auto simp: NUM_CHUNKS_def)
  qed
qed

lemma push_chunk_last:
  "tree_last r = Some (Some c) \<Longrightarrow> append_to_last c s = Some (c', rest) \<Longrightarrow> update_last chunk_ops (\<lambda>_. c') r = Some r' \<Longrightarrow>
    push_chunk r s = (if c_text rest \<noteq> [] then slice_into_chunk rest \<bind> push chunk_ops r' else Some r')"
  by (simp add: push_chunk_def)

lemma push_chunk_spec:
  assumes "rope_ok r" "chunk_ok s"
  shows "\<exists>r'. push_chunk r s = Some r' \<and> rope_ok r' \<and> rope_text r' = rope_text r @ c_text s \<and>
    (big s \<longrightarrow> (\<forall>c \<in> set (tree_items r'). big c))"
proof -
  obtain t where t: "s = chunk_of t" "utf8_ok t" "length t \<le> 128" using assms(2) by (auto simp: chunk_ok_def)
  have push: "\<exists>r2. push chunk_ops r1 c = Some r2 \<and> rope_ok r2 \<and> tree_items r2 = tree_items r1 @ [c]"
    if "rope_ok r1" "\<forall>c \<in> set (tree_items r1). big c" "chunks_ok [c]" for r1 c
    using chunk_tree.push_spec [of r1 c] that by (auto simp: rope_ok_def filled_append)
  show ?thesis using assms(1)
  proof (cases rule: rope_last_cases)
    case 1
    then show ?thesis
      using push [OF assms(1), of s] t assms by (cases "t = []") (auto simp: push_chunk_def slice_into_chunk_def rope_text_def big_def)
  next
    case (2 cs l)
    obtain ix where ix: "splits l t ix" "append_to_last (chunk_of l) s = Some (chunk_of (l @ take ix t), chunk_of (drop ix t))"
      unfolding t(1) by (rule append_to_last_eq [OF 2(3,5) t(2,3)])
    note ok = splits_last_ok [OF ix(1) 2(3-5) t(2)]
    obtain r' where r': "update_last chunk_ops (\<lambda>_. chunk_of (l @ take ix t)) r = Some r'" "wf_tree chunk_ops r'"
        "tree_items r' = cs @ [chunk_of (l @ take ix t)]" using 2(6) by blast
    note rl = rope_with_last [OF assms(1) 2(1) r'(2,3) ok(1)]
    note pc = push_chunk_last [OF 2(2) ix(2) r'(1)]
    have tx: "rope_text r' @ drop ix t = rope_text r @ t" using rl(2) 2(1) by (simp add: rope_text_def)
    show ?thesis
    proof (cases "drop ix t = []")
      case True
      then have "big s \<longrightarrow> big (chunk_of (l @ take ix t))" using t(1) by (auto simp: big_chunk_of)
      then have all: "big s \<longrightarrow> (\<forall>c \<in> set (tree_items r'). big c)" using rl(3) by blast
      have "push_chunk r s = Some r'" using pc True by simp
      moreover have "rope_text r' = rope_text r @ c_text s" using tx True t(1) by simp
      ultimately show ?thesis using rl(1) all by blast
    next
      case False
      then have "chunks_ok [chunk_of (drop ix t)]" using ok(2) t(3) by (simp add: chunk_ok_of)
      then obtain r2 where r2: "push chunk_ops r' (chunk_of (drop ix t)) = Some r2" "rope_ok r2" "tree_items r2 = tree_items r' @ [chunk_of (drop ix t)]"
        using push [OF rl(1) rl(3)] ok(4) False by blast
      have "big s \<longrightarrow> big (chunk_of (drop ix t))"
        using splits_bounds(1,4) [OF ix(1) 2(5)] False t(1) by (simp add: big_chunk_of)
      then have all: "big s \<longrightarrow> (\<forall>c \<in> set (tree_items r2). big c)" using rl(3) [OF ok(4) [OF False]] r2(3) by simp
      have "length (drop ix t) \<le> 128" using t(3) by simp
      then have "push_chunk r s = Some r2" using False pc r2(1) by (simp add: slice_into_chunk_def)
      moreover have "rope_text r2 = rope_text r @ c_text s" using tx r2(3) t(1) by (simp add: rope_text_def)
      ultimately show ?thesis using r2(2) all by blast
    qed
  qed
qed

lemma append_filled:
  assumes "rope_ok r" "rope_ok r2" "tree_items r2 \<noteq> [] \<longrightarrow> (\<forall>c \<in> set (tree_items r). big c)"
  shows "\<exists>r'. append_tree chunk_ops r r2 = Some r' \<and> rope_ok r' \<and> rope_text r' = rope_text r @ rope_text r2"
proof -
  obtain r' where "append_tree chunk_ops r r2 = Some r'" "wf_tree chunk_ops r'" "tree_items r' = tree_items r @ tree_items r2"
    using chunk_tree.append_tree_spec [of r r2] assms by (auto simp: rope_ok_def)
  then show ?thesis using assms by (cases "tree_items r2 = []") (auto simp: rope_ok_def rope_text_def filled_append)
qed

text \<open>The cursor that \<open>append\<close> moves past the first chunk.\<close>

lemma rest_after_first:
  assumes "wf_tree chunk_ops r" "tree_items r = c # cs"
  shows "\<exists>t. do { cur1 \<leftarrow> cursor_next unit_dim (cursor_new unit_dim r); cur2 \<leftarrow> cursor_next unit_dim cur1;
      (rest, _) \<leftarrow> cursor_suffix chunk_ops unit_dim cur2; Some rest } = Some t \<and> wf_tree chunk_ops t \<and> tree_items t = cs"
proof -
  have "cursor_fresh chunk_ops unit_dim (cursor_new unit_dim r)" using assms(1) by (simp add: cursor_fresh_def cursor_new_def)
  from chunk_tree.unit_seek.cursor_next_fresh [OF this] obtain c1 where c1: "cursor_next unit_dim (cursor_new unit_dim r) = Some c1"
    "cursor_at chunk_ops unit_dim c1 [] (c # cs)" using assms(2) by (auto simp: cursor_new_def)
  from chunk_tree.unit_seek.cursor_next_spec [OF c1(2)] obtain c2 where c2: "cursor_next unit_dim c1 = Some c2"
    "cursor_at chunk_ops unit_dim c2 [c] cs" by auto
  from chunk_tree.unit_seek.cursor_suffix_at [OF c2(2)] show ?thesis using c1(1) c2(1) by auto
qed

lemma rope_append_spec:
  assumes "rope_ok r" "rope_ok r2"
  shows "\<exists>r'. rope_append r r2 = Some r' \<and> rope_ok r' \<and> rope_text r' = rope_text r @ rope_text r2"
proof (cases "tree_items r2")
  case Nil
  then have "tree_first r2 = Some None" using chunk_tree.tree_first_spec [of r2] assms by (simp add: rope_ok_def head_opt_def)
  then show ?thesis using append_filled [OF assms] Nil chunk_tree.tree_last_spec [of r] assms(1) by (simp add: rope_append_def rope_ok_def)
next
  case (Cons c cs)
  have first: "tree_first r2 = Some (Some c)" using chunk_tree.tree_first_spec [of r2] assms Cons by (simp add: rope_ok_def head_opt_def)
  have last: "tree_last r = Some (last_opt (tree_items r))" using chunk_tree.tree_last_spec [of r] assms by (simp add: rope_ok_def)
  have c: "chunk_ok c" "cs \<noteq> [] \<Longrightarrow> big c" "chunks_ok cs" "filled cs"
    using assms(2) Cons filled_append [of cs "[c]"] by (cases "cs = []"; auto simp: rope_ok_def)+
  let ?small = "(case last_opt (tree_items r) of None \<Rightarrow> False | Some l \<Rightarrow> length (c_text l) < MIN_BASE) \<or> length (c_text c) < MIN_BASE"
  show ?thesis
  proof (cases ?small)
    case True
    obtain r' where r': "push_chunk r c = Some r'" "rope_ok r'" "rope_text r' = rope_text r @ c_text c" "big c \<longrightarrow> (\<forall>c \<in> set (tree_items r'). big c)"
      using push_chunk_spec [OF assms(1) c(1)] by blast
    obtain t where t: "do { cur1 \<leftarrow> cursor_next unit_dim (cursor_new unit_dim r2); cur2 \<leftarrow> cursor_next unit_dim cur1;
        (rest, _) \<leftarrow> cursor_suffix chunk_ops unit_dim cur2; Some rest } = Some t" "wf_tree chunk_ops t" "tree_items t = cs"
      using rest_after_first [of r2 c cs] assms(2) Cons by (auto simp: rope_ok_def)
    have "rope_append r r2 = append_tree chunk_ops r' t"
      using first last True r'(1) t(1) by (auto simp: rope_append_def as_slice_def bind_eq_Some_conv)
    moreover have "rope_ok t" "rope_text t = texts cs" using t c by (auto simp: rope_ok_def rope_text_def)
    ultimately show ?thesis using append_filled [OF r'(2), of t] r'(3,4) c(2) t(3) Cons by (auto simp: rope_text_def)
  next
    case False
    then have "big x" if "x \<in> set (tree_items r)" for x
      using that assms(1) by (cases "tree_items r" rule: rev_cases) (auto simp: rope_ok_def filled_append last_opt_def big_def)
    then show ?thesis using append_filled [OF assms] first last False by (simp add: rope_append_def)
  qed
qed

lemma rope_is_empty_eq: "rope_ok r \<Longrightarrow> rope_is_empty r \<longleftrightarrow> tree_items r = []"
  by (simp add: rope_is_empty_def rope_len_eq rope_text_def texts_Nil_iff rope_ok_def)

lemma push_front_spec:
  assumes "rope_ok r" "utf8_ok t"
  shows "\<exists>r'. push_front r t = Some r' \<and> rope_ok r' \<and> rope_text r' = t @ rope_text r"
proof (cases "t = [] \<or> tree_items r = []")
  case True
  then show ?thesis using rope_push_spec [OF assms] assms rope_is_empty_eq [OF assms(1)]
    by (auto simp: push_front_def rope_text_def)
next
  case False
  then obtain c cs where items: "tree_items r = c # cs" by (cases "tree_items r") auto
  have first: "tree_first r = Some (Some c)" using chunk_tree.tree_first_spec [of r] assms items by (simp add: rope_ok_def head_opt_def)
  obtain l where l: "c = chunk_of l" "utf8_ok l" "length l \<le> 128" "l \<noteq> []" using assms(1) items by (auto simp: rope_ok_def chunk_ok_def)
  show ?thesis
  proof (cases "length l + length t \<le> 128")
    case True
    have "chunk_prepend_str c t = Some (chunk_of (t @ l))" using l assms(2) True by (auto intro: chunk_push_str_eq(2))
    moreover obtain r' where r': "update_first chunk_ops (\<lambda>_. chunk_of (t @ l)) r = Some r'" "wf_tree chunk_ops r'" "tree_items r' = chunk_of (t @ l) # cs"
      using chunk_tree.update_first_recursive_spec [of r "\<lambda>_. chunk_of (t @ l)"] assms(1) items by (auto simp: update_first_def rope_ok_def)
    ultimately have "push_front r t = Some r'"
      using False first True l(1) rope_is_empty_eq [OF assms(1)] by (simp add: push_front_def)
    moreover have "rope_ok r'"
      using r' assms items l True by (cases "cs = []") (auto simp: rope_ok_def chunk_ok_of utf8_append filled_def big_def)
    ultimately show ?thesis using r'(3) items l(1) by (simp add: rope_text_def)
  next
    case F: False
    obtain r' where r': "rope_from_str t = Some r'" "rope_ok r'" "rope_text r' = t"
      using rope_push_spec [OF rope_new_ok(1) assms(2)] by (auto simp: rope_from_str_def)
    then show ?thesis using rope_append_spec [OF r'(2) assms(1)] False F first l(1) rope_is_empty_eq [OF assms(1)]
      by (auto simp: push_front_def)
  qed
qed

end
