(* ===== verification/Rope_Cursor.thy ===== *)
theory Rope_Cursor
  imports Rope_Edit
begin

text \<open>
  The cursor of a rope cuts and summarises ranges of its text, and \<open>replace\<close> and \<open>slice\<close>, which are built on it, are
  the operations on texts.
\<close>

subsection \<open>Where a cursor stands\<close>

definition rope_at :: "rope \<Rightarrow> rope_cursor \<Rightarrow> nat \<Rightarrow> chunk list \<Rightarrow> chunk list \<Rightarrow> bool" where
  "rope_at r cur n pre suf \<longleftrightarrow> rc_rope cur = r \<and> rc_offset cur = n \<and> cur_tree (rc_chunks cur) = r \<and>
     cursor_at chunk_ops len_dim (rc_chunks cur) pre suf \<and> length (texts pre) \<le> n \<and> n \<le> length (texts (pre @ take 1 suf))"

lemma filled_infix: "filled (xs @ ys @ zs) \<Longrightarrow> filled ys"
  by (cases "ys = []"; cases "zs = []") (auto simp: filled_append filled_def butlast_append dest: in_set_butlastD)

text \<open>A seek by offset with \<open>Bias::Right\<close> stops at the chunk in which the offset lies.\<close>

lemma seek_right:
  assumes "chunks_ok cs" "utf8_ok a" "e \<le> length a + length (texts cs)" "length a \<le> e"
  obtains xs ys where "target_sorted chunk_ops len_dim (beyond (ord_target e) Right) (length a) cs"
    "seek_list chunk_ops len_dim (beyond (ord_target e) Right) (length a) cs = (xs, length a + length (texts xs), ys)"
    "cs = xs @ ys" "length a + length (texts xs) \<le> e" "e \<le> length a + length (texts (xs @ take 1 ys))"
proof -
  have "beyond (ord_target e) Right d \<longleftrightarrow> d < Suc e" for d by (auto simp: beyond_def ord_target_def cmp_def)
  then have stops: "by_len.stops_at (beyond (ord_target e) Right) a cs (Suc e)" by (simp add: by_len.stops_at_def)
  obtain xs ys where s: "seek_list chunk_ops len_dim (beyond (ord_target e) Right) (length a) cs = (xs, length (a @ texts xs), ys)"
    "cs = xs @ ys" "xs = [] \<or> length a + length (texts xs) < Suc e" "ys \<noteq> [] \<longrightarrow> Suc e \<le> length a + length (texts xs) + length (c_text (hd ys))"
    by (rule by_len.stops_at_seek [OF assms(1,2) stops])
  show ?thesis
  proof (rule that [OF by_len.stops_at_sorted [OF assms(1,2) stops]])
    show "seek_list chunk_ops len_dim (beyond (ord_target e) Right) (length a) cs = (xs, length a + length (texts xs), ys)"
      using s(1) by simp
    show "cs = xs @ ys" by (rule s(2))
    show "length a + length (texts xs) \<le> e" using s(3) assms(4) by auto
    show "e \<le> length a + length (texts (xs @ take 1 ys))" using s(2,4) assms(3) by (cases ys) auto
  qed
qed

lemma ord_target_not_less: "a \<le> e \<Longrightarrow> ord_target e a \<noteq> Less"
  by (simp add: ord_target_def cmp_def leD)

lemma rope_atD:
  assumes "rope_ok r" "rope_at r cur n pre suf"
  shows "tree_items r = pre @ suf" "chunks_ok pre" "chunks_ok suf" "filled suf" "cursor_start (rc_chunks cur) = length (texts pre)"
    "cursor_item (rc_chunks cur) = Some (head_opt suf)" "cursor_end len_dim (rc_chunks cur) = Some (length (texts (pre @ take 1 suf)))"
    "rope_text r = texts pre @ texts suf"
proof -
  have at: "cursor_at chunk_ops len_dim (rc_chunks cur) pre suf" "cur_tree (rc_chunks cur) = r" using assms(2) by (auto simp: rope_at_def)
  show items: "tree_items r = pre @ suf" using cursor_at_items [OF at(1)] at(2) by simp
  then show ok: "chunks_ok pre" "chunks_ok suf" and "filled suf" "rope_text r = texts pre @ texts suf"
    using assms(1) filled_infix [of pre suf "[]"] by (auto simp: rope_ok_def rope_text_def)
  show start: "cursor_start (rc_chunks cur) = length (texts pre)"
    using at(1) by_len.measure_before [OF ok(1)] by (simp add: cursor_start_def cursor_at_def)
  have loc: "wf_tree chunk_ops (cur_tree (rc_chunks cur))" "did_seek (rc_chunks cur)"
    "located chunk_ops len_dim (cur_tree (rc_chunks cur)) (cur_stack (rc_chunks cur)) pre suf"
    using at(1) unfolding cursor_at_def by blast+
  show "cursor_item (rc_chunks cur) = Some (head_opt suf)" by (rule cursor_item_located(1) [OF loc])
  have "cursor_item_summary (rc_chunks cur) = Some (map_option (ssummary chunk_ops) (head_opt suf))"
    by (rule cursor_item_located(2) [OF loc])
  then show "cursor_end len_dim (rc_chunks cur) = Some (length (texts (pre @ take 1 suf)))"
    using start ok(2) by (cases suf) (auto simp: cursor_end_def head_opt_def len_dim_def chunk_summary summary_of_def)
qed

text \<open>A new cursor, and a cursor moved forward.\<close>

lemma rope_cursor_new_spec:
  assumes "rope_ok r" "n \<le> length (rope_text r)"
  shows "\<exists>cur pre suf. rope_cursor_new r n = Some cur \<and> rope_at r cur n pre suf"
proof -
  have ok: "chunks_ok (tree_items r)" "wf_tree chunk_ops r" using assms(1) by (auto simp: rope_ok_def)
  obtain xs ys where s: "target_sorted chunk_ops len_dim (beyond (ord_target n) Right) (length []) (tree_items r)"
    "seek_list chunk_ops len_dim (beyond (ord_target n) Right) (length []) (tree_items r) = (xs, length [] + length (texts xs), ys)"
    "tree_items r = xs @ ys" "length [] + length (texts xs) \<le> n" "n \<le> length [] + length (texts (xs @ take 1 ys))"
    by (rule seek_right [OF ok(1), of "[]" n]) (use assms(2) in \<open>auto simp: rope_text_def\<close>)
  have new: "dzero len_dim = 0" "cur_tree (cursor_new len_dim r) = r" by (simp_all add: len_dim_def cursor_new_def)
  from by_len.cursor_seek_spec [of "cursor_new len_dim r" "ord_target n" Right xs "length (texts xs)" ys] obtain b c' where
    c': "cursor_seek len_dim (ord_target n) Right (cursor_new len_dim r) = Some (b, c')" "cursor_at chunk_ops len_dim c' xs ys" "cur_tree c' = r"
    using ok(2) s(1,2) ord_target_not_less [of 0 n] unfolding new by auto
  have "rope_at r \<lparr>rc_rope = r, rc_chunks = c', rc_offset = n\<rparr> n xs ys" using c'(2,3) s(4,5) by (simp add: rope_at_def)
  moreover have "rope_cursor_new r n = Some \<lparr>rc_rope = r, rc_chunks = c', rc_offset = n\<rparr>" using c'(1) by (simp add: rope_cursor_new_def)
  ultimately show ?thesis by blast
qed

lemma rope_cursor_seek_forward_spec:
  assumes "rope_ok r" "rope_at r cur n pre suf" "n \<le> e" "e \<le> length (rope_text r)"
  shows "\<exists>cur' pre' suf'. rope_cursor_seek_forward cur e = Some cur' \<and> rope_at r cur' e pre' suf'"
proof -
  note d = rope_atD [OF assms(1,2)]
  have at: "cursor_at chunk_ops len_dim (rc_chunks cur) pre suf" "cur_tree (rc_chunks cur) = r" "length (texts pre) \<le> e"
    "rc_rope cur = r" "rc_offset cur = n" using assms(2,3) by (auto simp: rope_at_def)
  have pos: "cur_pos (rc_chunks cur) = length (texts pre)" using d(5) by (simp add: cursor_start_def)
  obtain xs ys where s: "target_sorted chunk_ops len_dim (beyond (ord_target e) Right) (length (texts pre)) suf"
    "seek_list chunk_ops len_dim (beyond (ord_target e) Right) (length (texts pre)) suf = (xs, length (texts pre) + length (texts xs), ys)"
    "suf = xs @ ys" "length (texts pre) + length (texts xs) \<le> e" "e \<le> length (texts pre) + length (texts (xs @ take 1 ys))"
    by (rule seek_right [OF d(3) texts_utf8 [OF d(2)], of e]) (use assms(4) d(8) at(3) in auto)
  from by_len.cursor_seek_forward_spec [of "rc_chunks cur" pre suf "ord_target e" Right xs _ ys] obtain b c' where
    "cursor_seek_forward len_dim (ord_target e) Right (rc_chunks cur) = Some (b, c')" "cursor_at chunk_ops len_dim c' (pre @ xs) ys" "cur_tree c' = r"
    using at ord_target_not_less [OF at(3)] s(1,2) pos by (auto simp: cursor_before_def)
  then have "rope_at r (cur\<lparr>rc_chunks := c', rc_offset := e\<rparr>) e (pre @ xs) ys"
    "rope_cursor_seek_forward cur e = Some (cur\<lparr>rc_chunks := c', rc_offset := e\<rparr>)"
    using at(4,5) s(4,5) assms(3,4) rope_len_eq [OF assms(1)] by (simp_all add: rope_cursor_seek_forward_def rope_at_def)
  then show ?thesis by blast
qed

subsection \<open>Ranges of a text\<close>

definition text_range :: "str \<Rightarrow> nat \<Rightarrow> nat \<Rightarrow> str" where
  "text_range t i j = take (j - i) (drop i t)"

lemma range_simps [simp]: "text_range t i i = []" "text_range t 0 j = take j t"
  by (simp_all add: text_range_def)

lemma range_split: "i \<le> k \<Longrightarrow> k \<le> j \<Longrightarrow> text_range t i j = text_range t i k @ text_range t k j"
proof -
  assume "i \<le> k" "k \<le> j"
  then have "take (j - i) (drop i t) = take (k - i) (drop i t) @ take (j - k) (drop (k - i) (drop i t))"
    using take_add [of "k - i" "j - k" "drop i t"] by simp
  then show ?thesis using \<open>i \<le> k\<close> by (simp add: text_range_def)
qed

lemma length_range_le: "length (text_range t i j) \<le> length t"
  by (simp add: text_range_def)

lemma range_middle: "text_range (a @ b @ c) (length a) (length a + length b) = b"
  by (simp add: text_range_def)

lemma range_utf8:
  assumes "utf8_ok t" "str_is_char_boundary t i" "str_is_char_boundary t j" "i \<le> j"
  shows "utf8_ok (text_range t i j)"
proof -
  have "text_range t i j = drop i (take j t)" using assms(4) by (simp add: text_range_def drop_take)
  moreover have "str_is_char_boundary (take j t) i"
    using assms boundary_mark [OF assms(3)] by (auto simp: str_is_char_boundary_def)
  ultimately show ?thesis using utf8_cut assms(1,3) by metis
qed

lemma chunk_piece:
  assumes "chunk_ok c" "t = p @ c_text c @ q" "str_is_char_boundary t i" "str_is_char_boundary t j"
    "length p \<le> i" "i \<le> j" "j \<le> length p + length (c_text c)"
  shows "\<exists>s. chunk_slice_range (as_slice c) (i - length p) (j - length p) = Some s \<and> chunk_ok s \<and> c_text s = text_range t i j"
proof -
  obtain u where u: "c = chunk_of u" "utf8_ok u" "length u \<le> 128" using assms(1) by (auto simp: chunk_ok_def)
  have b: "str_is_char_boundary u (i - length p)" "str_is_char_boundary u (j - length p)"
    using line_boundary [of t p u q i] line_boundary [of t p u q j] assms u by auto
  let ?v = "take (j - length p - (i - length p)) (drop (i - length p) u)"
  have v: "?v = text_range u (i - length p) (j - length p)" "?v = text_range t i j" using assms u(1) by (simp_all add: text_range_def)
  have "chunk_slice_range (as_slice c) (i - length p) (j - length p) = Some (chunk_of ?v)"
    unfolding u(1) as_slice_def using assms(6) by (intro chunk_slice_range_eq u(2,3) b) simp
  moreover have "chunk_ok (chunk_of ?v)" using range_utf8 [OF u(2) b] assms(6) u(3) v(1) length_range_le [of u "i - length p" "j - length p"]
    by (simp add: chunk_ok_of)
  ultimately show ?thesis using v(2) by auto
qed

subsection \<open>Passing the chunk a cursor stands at\<close>

lemma cursor_advance:
  assumes "rope_ok r" "rope_at r cur n pre (c # cs)" "length (texts (pre @ [c])) < e" "e \<le> length (rope_text r)"
  obtains c1 l p rr where "cursor_next len_dim (rc_chunks cur) = Some c1" "cs = l @ rr"
    "cursor_before chunk_ops len_dim c1 (pre @ [c]) cs" "cur_tree c1 = r" "ord_target e (cur_pos c1) \<noteq> Less"
    "target_sorted chunk_ops len_dim (beyond (ord_target e) Right) (cur_pos c1) cs"
    "seek_list chunk_ops len_dim (beyond (ord_target e) Right) (cur_pos c1) cs = (l, p, rr)"
    "length (texts ((pre @ [c]) @ l)) \<le> e" "e \<le> length (texts (((pre @ [c]) @ l) @ take 1 rr))"
proof -
  note d = rope_atD [OF assms(1,2)]
  have "cursor_at chunk_ops len_dim (rc_chunks cur) pre (c # cs)" "cur_tree (rc_chunks cur) = r" using assms(2) by (auto simp: rope_at_def)
  from by_len.cursor_next_spec [OF this(1)] this(2) obtain c1 where
    c1: "cursor_next len_dim (rc_chunks cur) = Some c1" "cur_tree c1 = r" "cursor_at chunk_ops len_dim c1 (pre @ [c]) cs" by auto
  have ok: "chunks_ok (pre @ [c])" "chunks_ok cs" using d(2,3) by auto
  have pos: "cur_pos c1 = length (texts (pre @ [c]))" using c1(3) by_len.measure_before [OF ok(1)] by (simp add: cursor_at_def)
  have le: "length (texts (pre @ [c])) \<le> e" "e \<le> length (texts (pre @ [c])) + length (texts cs)" using assms(3,4) d(8) by simp_all
  obtain l rr where s: "target_sorted chunk_ops len_dim (beyond (ord_target e) Right) (length (texts (pre @ [c]))) cs"
    "seek_list chunk_ops len_dim (beyond (ord_target e) Right) (length (texts (pre @ [c]))) cs = (l, length (texts (pre @ [c])) + length (texts l), rr)"
    "cs = l @ rr" "length (texts (pre @ [c])) + length (texts l) \<le> e" "e \<le> length (texts (pre @ [c])) + length (texts (l @ take 1 rr))"
    by (rule seek_right [OF ok(2) texts_utf8 [OF ok(1)] le(2,1)])
  have "cursor_before chunk_ops len_dim c1 (pre @ [c]) cs" using c1(3) by (simp add: cursor_before_def)
  moreover have "ord_target e (cur_pos c1) \<noteq> Less" unfolding pos by (rule ord_target_not_less [OF le(1)])
  moreover have "length (texts ((pre @ [c]) @ l)) \<le> e" "e \<le> length (texts (((pre @ [c]) @ l) @ take 1 rr))" using s(4,5) by simp_all
  ultimately show ?thesis using that [OF c1(1) s(3) _ c1(2)] s(1,2) unfolding pos by blast
qed

text \<open>The two outcomes of a step to \<open>e\<close>: the range ends in the chunk of the cursor, or it takes the rest of this chunk, whole
  chunks, and the beginning of another.\<close>

lemma range_pieces:
  assumes "rope_ok r" "rope_at r cur n pre (c # cs)" "str_is_char_boundary (rope_text r) n" "str_is_char_boundary (rope_text r) e" "n \<le> e"
  shows "\<exists>s. chunk_slice_range (as_slice c) (n - length (texts pre)) (min e (length (texts (pre @ [c]))) - length (texts pre)) = Some s \<and>
    chunk_ok s \<and> c_text s = text_range (rope_text r) n (min e (length (texts (pre @ [c]))))"
proof -
  note d = rope_atD [OF assms(1,2)]
  have c: "chunk_ok c" "rope_text r = texts pre @ c_text c @ texts cs" "utf8_ok (texts cs)" using d(3,8) texts_utf8 by auto
  have "str_is_char_boundary (rope_text r) (length (texts (pre @ [c])))"
    using boundary_after [OF c(3), of "texts (pre @ [c])"] c(2) by simp
  then have "str_is_char_boundary (rope_text r) (min e (length (texts (pre @ [c]))))" using assms(4) by (simp add: min_def)
  then show ?thesis using assms(2,5) by (intro chunk_piece [OF c(1,2) assms(3)]) (auto simp: rope_at_def)
qed

lemma range_whole_chunks:
  assumes "t = texts pre @ texts l @ texts rr" "n \<le> length (texts pre)"
  shows "text_range t n (length (texts (pre @ l))) = text_range t n (length (texts pre)) @ texts l"
  using range_middle [of "texts pre" "texts l" "texts rr"] range_split [of n "length (texts pre)" "length (texts (pre @ l))" t] assms by simp

lemma last_piece:
  assumes "rope_ok r" "rope_at r cur e pre (c # cs)" "str_is_char_boundary (rope_text r) e"
  shows "\<exists>s. chunk_slice_range (as_slice c) 0 (e - length (texts pre)) = Some s \<and> chunk_ok s \<and>
    c_text s = text_range (rope_text r) (length (texts pre)) e"
proof -
  note d = rope_atD [OF assms(1,2)]
  have c: "chunk_ok c" "rope_text r = texts pre @ c_text c @ texts cs" "utf8_ok (c_text c @ texts cs)"
    using d(3,8) texts_utf8 [of "c # cs"] by auto
  have "str_is_char_boundary (rope_text r) (length (texts pre))" using boundary_after [OF c(3), of "texts pre"] c(2) by simp
  from chunk_piece [OF c(1,2) this assms(3) order_refl] assms(2) show ?thesis by (simp add: rope_at_def)
qed

lemma cursor_moved:
  assumes "rope_at r cur n pre suf" "cursor_at chunk_ops len_dim c2 pre' rr" "cur_tree c2 = r"
    "length (texts pre') \<le> e" "e \<le> length (texts (pre' @ take 1 rr))"
  shows "rope_at r (cur\<lparr>rc_chunks := c2, rc_offset := e\<rparr>) e pre' rr"
  using assms by (simp add: rope_at_def)

lemma cursor_guard:
  assumes "rope_ok r" "rope_at r cur n pre suf" "n \<le> e" "str_is_char_boundary (rope_text r) e"
  shows "\<not> (e < rc_offset cur \<or> rope_len (rc_rope cur) < e)"
  using boundary_mark [OF assms(4)] assms(2,3) rope_len_eq [OF assms(1)] by (auto simp: rope_at_def)

text \<open>At the end of the rope there is nothing left to take.\<close>

lemma cursor_at_end:
  assumes "rope_ok r" "rope_at r cur n pre []" "n \<le> e" "str_is_char_boundary (rope_text r) e"
  shows "e = n" "n = length (texts pre)"
  using boundary_mark [OF assms(4)] assms(2,3) rope_atD(8) [OF assms(1,2)] by (auto simp: rope_at_def)

text \<open>The cursor keeps its chunk when the range ends in it.\<close>

lemma cursor_stays:
  assumes "rope_at r cur n pre suf" "n \<le> e" "e \<le> length (texts (pre @ take 1 suf))"
  shows "rope_at r (cur\<lparr>rc_chunks := rc_chunks cur, rc_offset := e\<rparr>) e pre suf"
  using assms by (simp add: rope_at_def)

subsection \<open>Slices\<close>

definition slice_result :: "rope \<Rightarrow> nat \<Rightarrow> nat \<Rightarrow> (rope \<times> rope_cursor) option \<Rightarrow> bool" where
  "slice_result r n e x \<longleftrightarrow>
     (\<exists>s cur pre suf. x = Some (s, cur) \<and> rope_ok s \<and> rope_text s = text_range (rope_text r) n e \<and> rope_at r cur e pre suf)"

lemma slice_beyond:
  assumes "rope_ok r" "rope_at r cur n pre (c # cs)" "str_is_char_boundary (rope_text r) n" "str_is_char_boundary (rope_text r) e"
    "n \<le> e" "length (texts (pre @ [c])) < e"
  shows "slice_result r n e (rope_cursor_slice cur e)"
proof -
  note d = rope_atD [OF assms(1,2)]
  let ?E = "length (texts (pre @ [c]))"
  obtain s where s: "chunk_slice_range (as_slice c) (n - length (texts pre)) (?E - length (texts pre)) = Some s" "chunk_ok s"
      "c_text s = text_range (rope_text r) n ?E" using range_pieces [OF assms(1-5)] assms(6) by (auto simp: min_absorb2)
  obtain r1 where r1: "push_chunk rope_new s = Some r1" "rope_ok r1" "rope_text r1 = text_range (rope_text r) n ?E"
    using push_chunk_spec [OF rope_new_ok(1) s(2)] s(3) by auto
  obtain c1 l p rr where adv: "cursor_next len_dim (rc_chunks cur) = Some c1" "cs = l @ rr"
    "cursor_before chunk_ops len_dim c1 (pre @ [c]) cs" "cur_tree c1 = r" "ord_target e (cur_pos c1) \<noteq> Less"
    "target_sorted chunk_ops len_dim (beyond (ord_target e) Right) (cur_pos c1) cs"
    "seek_list chunk_ops len_dim (beyond (ord_target e) Right) (cur_pos c1) cs = (l, p, rr)"
    "length (texts ((pre @ [c]) @ l)) \<le> e" "e \<le> length (texts (((pre @ [c]) @ l) @ take 1 rr))"
    by (rule cursor_advance [OF assms(1,2,6) boundary_mark [OF assms(4)]])
  obtain mid c2 where mid: "cursor_slice chunk_ops len_dim (ord_target e) Right c1 = Some (mid, c2)" "wf_tree chunk_ops mid"
      "tree_items mid = l" "cursor_at chunk_ops len_dim c2 ((pre @ [c]) @ l) rr" "cur_tree c2 = r"
    using by_len.cursor_slice_spec [OF adv(3,5,6,7)] adv(4) by auto
  have "rope_ok mid" using mid(2,3) d(3,4) adv(2) filled_infix [of "[c]" l rr] by (simp add: rope_ok_def)
  from rope_append_spec [OF r1(2) this] obtain r2 where r2: "rope_append r1 mid = Some r2" "rope_ok r2"
      "rope_text r2 = text_range (rope_text r) n ?E @ texts l" using r1(3) mid(3) by (auto simp: rope_text_def)
  define cur2 where "cur2 = cur\<lparr>rc_chunks := c2, rc_offset := e\<rparr>"
  have at2: "rope_at r cur2 e ((pre @ [c]) @ l) rr" unfolding cur2_def by (rule cursor_moved [OF assms(2) mid(4,5) adv(8,9)])
  note d2 = rope_atD [OF assms(1) at2]
  let ?S = "length (texts ((pre @ [c]) @ l))"
  have nE: "n \<le> ?E" using assms(2) by (simp add: rope_at_def)
  have tx: "rope_text r2 = text_range (rope_text r) n ?S"
    using range_whole_chunks [of "rope_text r" "pre @ [c]" l rr n] r2(3) d2(8) nE by simp
  have *: "rope_cursor_slice cur e = (case head_opt rr of None \<Rightarrow> Some (r2, cur2)
      | Some c \<Rightarrow> chunk_slice_range (as_slice c) 0 (e - ?S) \<bind> (\<lambda>s. push_chunk r2 s) \<bind> (\<lambda>s. Some (s, cur2)))"
    using cursor_guard [OF assms(1,2,5,4)] d(5-7) d2(5,6) s(1) r1(1) assms(2,6) adv(1) mid(1) r2(1)
    by (simp add: rope_cursor_slice_def cur2_def head_opt_def rope_at_def min_absorb2 split: option.split)
  show ?thesis
  proof (cases rr)
    case Nil
    then have "?S = e" using adv(8,9) by simp
    then show ?thesis using * Nil r2(2) tx at2 by (auto simp: head_opt_def slice_result_def)
  next
    case (Cons c' rs)
    obtain s' where s': "chunk_slice_range (as_slice c') 0 (e - ?S) = Some s'" "chunk_ok s'" "c_text s' = text_range (rope_text r) ?S e"
      using last_piece [OF assms(1) at2 [unfolded Cons] assms(4)] by blast
    obtain r3 where r3: "push_chunk r2 s' = Some r3" "rope_ok r3" "rope_text r3 = rope_text r2 @ c_text s'"
      using push_chunk_spec [OF r2(2) s'(2)] by blast
    have "rope_text r3 = text_range (rope_text r) n e" using range_split [of n ?S e "rope_text r"] r3(3) s'(3) tx nE adv(8) by simp
    moreover have "rope_cursor_slice cur e = Some (r3, cur2)" using * Cons s'(1) r3(1) by (simp add: head_opt_def)
    ultimately show ?thesis using r3(2) at2 unfolding slice_result_def by blast
  qed
qed

lemma rope_cursor_slice_spec:
  assumes "rope_ok r" "rope_at r cur n pre suf" "str_is_char_boundary (rope_text r) n" "str_is_char_boundary (rope_text r) e" "n \<le> e"
  shows "slice_result r n e (rope_cursor_slice cur e)"
proof (cases suf)
  case Nil
  note n = cursor_at_end [OF assms(1) assms(2) [unfolded Nil] assms(5,4)]
  have "rope_cursor_slice cur e = Some (rope_new, cur\<lparr>rc_chunks := rc_chunks cur, rc_offset := e\<rparr>)"
    using cursor_guard [OF assms(1,2,5,4)] rope_atD(5-7) [OF assms(1,2)] Nil n by (simp add: rope_cursor_slice_def head_opt_def)
  moreover have "rope_at r (cur\<lparr>rc_chunks := rc_chunks cur, rc_offset := e\<rparr>) e pre suf"
    using n Nil by (intro cursor_stays [OF assms(2)]) simp_all
  ultimately show ?thesis using n unfolding slice_result_def by fastforce
next
  case (Cons c cs)
  note at = assms(2) [unfolded Cons]
  show ?thesis
  proof (cases "length (texts (pre @ [c])) < e")
    case True
    then show ?thesis using slice_beyond [OF assms(1) at assms(3,4,5)] by simp
  next
    case False
    obtain s where s: "chunk_slice_range (as_slice c) (n - length (texts pre)) (e - length (texts pre)) = Some s" "chunk_ok s"
        "c_text s = text_range (rope_text r) n e" using range_pieces [OF assms(1) at assms(3-5)] False by (auto simp: min_absorb1)
    obtain r1 where r1: "push_chunk rope_new s = Some r1" "rope_ok r1" "rope_text r1 = text_range (rope_text r) n e"
      using push_chunk_spec [OF rope_new_ok(1) s(2)] s(3) by auto
    have "rope_cursor_slice cur e = Some (r1, cur\<lparr>rc_chunks := rc_chunks cur, rc_offset := e\<rparr>)"
      using cursor_guard [OF assms(1,2,5,4)] rope_atD(5-7) [OF assms(1) at] s(1) r1(1) assms(2) False
      by (simp add: rope_cursor_slice_def head_opt_def rope_at_def min_absorb1)
    then show ?thesis using r1 cursor_stays [OF at assms(5)] False unfolding slice_result_def by fastforce
  qed
qed

subsection \<open>Summaries of ranges\<close>

text \<open>The contract of the trait \<open>TextDimension\<close>: it measures the text, and it can be read off a chunk and added up.\<close>

locale text_dimension_laws =
  fixes TD :: "'d text_dimension" and m :: "str \<Rightarrow> 'd"
  assumes dimension_measure: "text_measure (td_dim TD) m"
    and from_chunk: "chunk_ok c \<Longrightarrow> td_from_chunk TD c = m (c_text c)"
    and from_summary: "utf8_ok t \<Longrightarrow> td_from_text_summary TD (summary_of t) = m t"
    and add_assign: "utf8_ok a \<Longrightarrow> utf8_ok b \<Longrightarrow> td_add_assign TD (m a) (m b) = m (a @ b)"
begin

definition summary_result :: "rope \<Rightarrow> nat \<Rightarrow> nat \<Rightarrow> ('d \<times> rope_cursor) option \<Rightarrow> bool" where
  "summary_result r n e x \<longleftrightarrow> (\<exists>cur pre suf. x = Some (m (text_range (rope_text r) n e), cur) \<and> rope_at r cur e pre suf)"

lemma zero: "dzero (td_dim TD) = m []"
  using dimension_measure by (simp add: text_measure_def)

lemma add_chunk: "utf8_ok a \<Longrightarrow> chunk_ok s \<Longrightarrow> td_add_assign TD (m a) (td_from_chunk TD s) = m (a @ c_text s)"
  by (simp add: from_chunk add_assign chunk_ok_def)

lemma first_chunk: "chunk_ok s \<Longrightarrow> td_add_assign TD (m []) (td_from_chunk TD s) = m (c_text s)"
  using add_chunk [of "[]" s] by simp

lemma sum_spec: "summary_seek chunk_ops len_dim (td_dim TD)"
proof
  show "lawful_dim chunk_ops (td_dim TD)" using dimension_measure by (simp add: text_measure_def)
qed

lemma summary_beyond:
  assumes "rope_ok r" "rope_at r cur n pre (c # cs)" "str_is_char_boundary (rope_text r) n" "str_is_char_boundary (rope_text r) e"
    "n \<le> e" "length (texts (pre @ [c])) < e"
  shows "summary_result r n e (rope_cursor_summary TD cur e)"
proof -
  note d = rope_atD [OF assms(1,2)]
  let ?E = "length (texts (pre @ [c]))"
  obtain s where s: "chunk_slice_range (as_slice c) (n - length (texts pre)) (?E - length (texts pre)) = Some s" "chunk_ok s"
      "c_text s = text_range (rope_text r) n ?E" using range_pieces [OF assms(1-5)] assms(6) by (auto simp: min_absorb2)
  obtain c1 l p rr where adv: "cursor_next len_dim (rc_chunks cur) = Some c1" "cs = l @ rr"
    "cursor_before chunk_ops len_dim c1 (pre @ [c]) cs" "cur_tree c1 = r" "ord_target e (cur_pos c1) \<noteq> Less"
    "target_sorted chunk_ops len_dim (beyond (ord_target e) Right) (cur_pos c1) cs"
    "seek_list chunk_ops len_dim (beyond (ord_target e) Right) (cur_pos c1) cs = (l, p, rr)"
    "length (texts ((pre @ [c]) @ l)) \<le> e" "e \<le> length (texts (((pre @ [c]) @ l) @ take 1 rr))"
    by (rule cursor_advance [OF assms(1,2,6) boundary_mark [OF assms(4)]])
  have l: "chunks_ok l" using d(3) adv(2) by simp
  obtain c2 where mid: "cursor_summary len_dim (td_dim TD) (ord_target e) Right c1 = Some (m (texts l), c2)"
      "cursor_at chunk_ops len_dim c2 ((pre @ [c]) @ l) rr" "cur_tree c2 = r"
    using summary_seek.cursor_summary_spec [OF sum_spec adv(3,5,6,7)] adv(4)
      text_measure.measure_before [OF dimension_measure l] by auto
  define cur2 where "cur2 = cur\<lparr>rc_chunks := c2, rc_offset := e\<rparr>"
  have at2: "rope_at r cur2 e ((pre @ [c]) @ l) rr" unfolding cur2_def by (rule cursor_moved [OF assms(2) mid(2,3) adv(8,9)])
  note d2 = rope_atD [OF assms(1) at2]
  let ?S = "length (texts ((pre @ [c]) @ l))"
  have nE: "n \<le> ?E" using assms(2) by (simp add: rope_at_def)
  have tx: "text_range (rope_text r) n ?S = c_text s @ texts l"
    using range_whole_chunks [of "rope_text r" "pre @ [c]" l rr n] s(3) d2(8) nE by simp
  have u: "utf8_ok (c_text s)" "utf8_ok (texts l)" using s(2) texts_utf8 [OF l] by (auto simp: chunk_ok_def)
  have *: "rope_cursor_summary TD cur e = (case head_opt rr of None \<Rightarrow> Some (m (text_range (rope_text r) n ?S), cur2)
      | Some c \<Rightarrow> chunk_slice_range (as_slice c) 0 (e - ?S) \<bind>
          (\<lambda>s'. Some (td_add_assign TD (m (text_range (rope_text r) n ?S)) (td_from_chunk TD s'), cur2)))"
    using cursor_guard [OF assms(1,2,5,4)] d(5-7) d2(5,6) s(1) assms(2,6) adv(1) mid(1) first_chunk [OF s(2)] add_assign [OF u] tx zero
    by (simp add: rope_cursor_summary_def cur2_def head_opt_def rope_at_def min_absorb2 split: option.split)
  show ?thesis
  proof (cases rr)
    case Nil
    then have "?S = e" using adv(8,9) by simp
    then show ?thesis using * Nil at2 by (auto simp: head_opt_def summary_result_def)
  next
    case (Cons c' rs)
    obtain s' where s': "chunk_slice_range (as_slice c') 0 (e - ?S) = Some s'" "chunk_ok s'" "c_text s' = text_range (rope_text r) ?S e"
      using last_piece [OF assms(1) at2 [unfolded Cons] assms(4)] by blast
    have "text_range (rope_text r) n e = text_range (rope_text r) n ?S @ c_text s'"
      using range_split [of n ?S e "rope_text r"] s'(3) nE adv(8) by simp
    moreover have "utf8_ok (text_range (rope_text r) n ?S)" unfolding tx using u by (simp add: utf8_append)
    ultimately have "rope_cursor_summary TD cur e = Some (m (text_range (rope_text r) n e), cur2)"
      using * Cons s'(1,2) by (simp add: head_opt_def add_chunk)
    then show ?thesis using at2 unfolding summary_result_def by blast
  qed
qed

lemma rope_cursor_summary_spec:
  assumes "rope_ok r" "rope_at r cur n pre suf" "str_is_char_boundary (rope_text r) n" "str_is_char_boundary (rope_text r) e" "n \<le> e"
  shows "summary_result r n e (rope_cursor_summary TD cur e)"
proof (cases suf)
  case Nil
  note n = cursor_at_end [OF assms(1) assms(2) [unfolded Nil] assms(5,4)]
  have "rope_cursor_summary TD cur e = Some (m [], cur\<lparr>rc_chunks := rc_chunks cur, rc_offset := e\<rparr>)"
    using cursor_guard [OF assms(1,2,5,4)] rope_atD(5-7) [OF assms(1,2)] Nil n by (simp add: rope_cursor_summary_def head_opt_def zero)
  moreover have "rope_at r (cur\<lparr>rc_chunks := rc_chunks cur, rc_offset := e\<rparr>) e pre suf"
    using n Nil by (intro cursor_stays [OF assms(2)]) simp_all
  ultimately show ?thesis using n unfolding summary_result_def by fastforce
next
  case (Cons c cs)
  note at = assms(2) [unfolded Cons]
  show ?thesis
  proof (cases "length (texts (pre @ [c])) < e")
    case True
    then show ?thesis using summary_beyond [OF assms(1) at assms(3,4,5)] by simp
  next
    case False
    obtain s where s: "chunk_slice_range (as_slice c) (n - length (texts pre)) (e - length (texts pre)) = Some s" "chunk_ok s"
        "c_text s = text_range (rope_text r) n e" using range_pieces [OF assms(1) at assms(3-5)] False by (auto simp: min_absorb1)
    have "rope_cursor_summary TD cur e = Some (m (c_text s), cur\<lparr>rc_chunks := rc_chunks cur, rc_offset := e\<rparr>)"
      using cursor_guard [OF assms(1,2,5,4)] rope_atD(5-7) [OF assms(1) at] s(1) first_chunk [OF s(2)] assms(2) False
      by (simp add: rope_cursor_summary_def head_opt_def rope_at_def min_absorb1 zero)
    then show ?thesis using s(3) cursor_stays [OF at assms(5)] False unfolding summary_result_def by fastforce
  qed
qed

end

lemma chunk_ok_measures:
  assumes "chunk_ok c"
  shows "chunk_text_summary c = summary_of (c_text c)" "chunk_len c = length (c_text c)" "chunk_len_utf16 c = utf16_count (c_text c)"
    "chunk_lines c = point_of (c_text c)" "PointUtf16 (row (chunk_lines c)) (chunk_last_line_len_utf16 c) = point_utf16_of (c_text c)"
proof -
  have s: "chunk_text_summary c = summary_of (c_text c)" by (rule chunk_summary [OF assms])
  show "chunk_text_summary c = summary_of (c_text c)" by (rule s)
  have f: "text_len (chunk_text_summary c) = chunk_len c" "text_len_utf16 (chunk_text_summary c) = chunk_len_utf16 c"
    "text_lines (chunk_text_summary c) = chunk_lines c" "last_line_len_utf16 (chunk_text_summary c) = chunk_last_line_len_utf16 c"
    by (simp_all add: chunk_text_summary_def split: prod.split)
  show "chunk_len c = length (c_text c)" "chunk_len_utf16 c = utf16_count (c_text c)" "chunk_lines c = point_of (c_text c)"
    "PointUtf16 (row (chunk_lines c)) (chunk_last_line_len_utf16 c) = point_utf16_of (c_text c)"
    by (simp_all add: f [symmetric] s) (simp_all add: summary_of_def point_utf16_of_def point_of_def)
qed

lemma summary_of_dims:
  "text_len (summary_of t) = length t" "text_len_utf16 (summary_of t) = utf16_count t" "text_lines (summary_of t) = point_of t"
  by (simp_all add: summary_of_def)

interpretation summary_td: text_dimension_laws td_summary summary_of
  by (rule text_dimension_laws.intro)
    (simp_all add: td_summary_def chunk_ok_measures by_summary.text_measure_axioms summary_of_append)

interpretation len_td: text_dimension_laws td_len length
  by (rule text_dimension_laws.intro) (simp_all add: td_len_def chunk_ok_measures by_len.text_measure_axioms summary_of_dims)

interpretation utf16_td: text_dimension_laws td_utf16 utf16_count
  by (rule text_dimension_laws.intro)
    (simp_all add: td_utf16_def chunk_ok_measures by_utf16.text_measure_axioms summary_of_dims counts_append)

interpretation point_td: text_dimension_laws td_point point_of
  by (rule text_dimension_laws.intro)
    (simp_all add: td_point_def chunk_ok_measures by_point.text_measure_axioms summary_of_dims point_of_append)

interpretation point_utf16_td: text_dimension_laws td_point_utf16 point_utf16_of
  by (rule text_dimension_laws.intro)
    (simp_all add: td_point_utf16_def chunk_ok_measures(5) by_point_utf16.text_measure_axioms lines_utf16_of point_utf16_of_append)

text \<open>Dimensions in pairs.\<close>

lemma pair_td:
  assumes "text_dimension_laws A m" "text_dimension_laws B m'"
  shows "text_dimension_laws (td_pair A B) (\<lambda>t. (m t, m' t, ()))"
  using assms by (auto simp: text_dimension_laws_def td_pair_def pair_measure)

subsection \<open>Replacing and slicing\<close>

lemma str_boundaries [simp]: "str_is_char_boundary t 0" "str_is_char_boundary t (length t)"
  by (simp_all add: str_is_char_boundary_def)

lemma rope_slice_spec:
  assumes "rope_ok r" "str_is_char_boundary (rope_text r) i" "str_is_char_boundary (rope_text r) j" "i \<le> j"
  shows "\<exists>s. rope_slice r i j = Some s \<and> rope_ok s \<and> rope_text s = text_range (rope_text r) i j"
proof -
  have le: "i \<le> length (rope_text r)" using boundary_mark [OF assms(2)] .
  obtain c0 p0 s0 where c0: "rope_cursor_new r 0 = Some c0" "rope_at r c0 0 p0 s0"
    using rope_cursor_new_spec [OF assms(1), of 0] by auto
  obtain c1 p1 s1 where c1: "rope_cursor_seek_forward c0 i = Some c1" "rope_at r c1 i p1 s1"
    using rope_cursor_seek_forward_spec [OF assms(1) c0(2) _ le] by auto
  from rope_cursor_slice_spec [OF assms(1) c1(2) assms(2-4)] show ?thesis
    using c0(1) c1(1) by (auto simp: rope_slice_def slice_result_def)
qed

lemma rope_replace_spec:
  assumes "rope_ok r" "utf8_ok t" "str_is_char_boundary (rope_text r) i" "str_is_char_boundary (rope_text r) j" "i \<le> j"
  shows "\<exists>r'. rope_replace r i j t = Some r' \<and> rope_ok r' \<and> rope_text r' = take i (rope_text r) @ t @ drop j (rope_text r)"
proof -
  let ?T = "rope_text r"
  have le: "j \<le> length ?T" using boundary_mark [OF assms(4)] .
  obtain c0 p0 s0 where c0: "rope_cursor_new r 0 = Some c0" "rope_at r c0 0 p0 s0"
    using rope_cursor_new_spec [OF assms(1), of 0] by auto
  obtain before c1 p1 s1 where c1: "rope_cursor_slice c0 i = Some (before, c1)" "rope_ok before" "rope_text before = take i ?T" "rope_at r c1 i p1 s1"
    using rope_cursor_slice_spec [OF assms(1) c0(2) _ assms(3)] by (auto simp: slice_result_def)
  obtain n1 where n1: "rope_append rope_new before = Some n1" "rope_ok n1" "rope_text n1 = take i ?T"
    using rope_append_spec [OF rope_new_ok(1) c1(2)] c1(3) by auto
  obtain c2 p2 s2 where c2: "rope_cursor_seek_forward c1 j = Some c2" "rope_at r c2 j p2 s2"
    using rope_cursor_seek_forward_spec [OF assms(1) c1(4) assms(5) le] by blast
  obtain n2 where n2: "rope_push n1 t = Some n2" "rope_ok n2" "rope_text n2 = take i ?T @ t"
    using rope_push_spec [OF n1(2) assms(2)] n1(3) by auto
  have "extent len_dim (rc_rope c2) = length ?T" using c2(2) rope_len_eq [OF assms(1)] by (simp add: rope_at_def rope_len_def)
  then obtain after where after: "rope_cursor_suffix c2 = Some after" "rope_ok after" "rope_text after = drop j ?T"
    using rope_cursor_slice_spec [OF assms(1) c2(2) assms(4) str_boundaries(2) le]
    by (auto simp: slice_result_def rope_cursor_suffix_def text_range_def)
  show ?thesis using rope_append_spec [OF n2(2) after(2)] c0(1) c1(1) n1(1) c2(1) n2(1,3) after(1,3) by (simp add: rope_replace_def)
qed

end
