(* ===== verification/Rope_Positions.thy ===== *)
theory Rope_Positions
  imports Rope_Cursor
begin

text \<open>
  The conversions between offsets, points, UTF-16 offsets and UTF-16 points of a rope. A boundary of the text at offset
  \<open>i\<close> is the measure of the first \<open>i\<close> bytes in each of the four dimensions, and every conversion maps one of these
  measures to another.
\<close>

subsection \<open>The chunk of a boundary\<close>

context text_measure
begin

text \<open>A search that passes the chunks whose ends lie before \<open>i\<close>.\<close>

lemma find_before:
  assumes "rope_ok r" "tree_items r \<noteq> []" "i \<le> length (rope_text r)" "target (m []) \<noteq> Less"
    and "\<forall>xs ys. tree_items r = xs @ ys \<longrightarrow> (beyond target Left (m (texts xs)) \<longleftrightarrow> length (texts xs) < i)"
  shows "\<exists>pre c suf e b cur. tree_items r = pre @ c # suf \<and> length (texts pre) \<le> i \<and> i \<le> length (texts (pre @ [c])) \<and>
    find_in_tree D target Left r = (m (texts pre), e, Some c) \<and>
    cursor_seek D target Left (cursor_new D r) = Some (b, cur) \<and> cursor_item cur = Some (Some c) \<and> cursor_start cur = m (texts pre)"
proof -
  have ok: "chunks_ok (tree_items r)" and wf: "wf_tree chunk_ops r" using assms(1) by (auto simp: rope_ok_def)
  have stops: "stops_at (beyond target Left) [] (tree_items r) i" using assms(5) by (simp add: stops_at_def)
  obtain xs ys where s: "seek_list chunk_ops D (beyond target Left) (m []) (tree_items r) = (xs, m ([] @ texts xs), ys)"
    "tree_items r = xs @ ys" "xs = [] \<or> length ([] :: str) + length (texts xs) < i"
    "ys \<noteq> [] \<longrightarrow> i \<le> length ([] :: str) + length (texts xs) + length (c_text (hd ys))"
    by (rule stops_at_seek [OF ok utf8_ok_Nil stops])
  have "ys \<noteq> []" using s(2,3) assms(2,3) by (auto simp: rope_text_def)
  then obtain c suf where ys: "ys = c # suf" by (cases ys) auto
  have sorted: "target_sorted chunk_ops D (beyond target Left) (dzero D) (tree_items r)"
    using stops_at_sorted [OF ok utf8_ok_Nil stops] by (simp add: measure_zero)
  have seek: "seek_list chunk_ops D (beyond target Left) (dzero D) (tree_items r) = (xs, m (texts xs), c # suf)"
    using s(1) ys by (simp add: measure_zero)
  note find = find_some(1) [OF wf sorted seek]
  have new: "cur_tree (cursor_new D r) = r" by (simp add: cursor_new_def)
  have "target (dzero D) \<noteq> Less" using assms(4) by (simp add: measure_zero)
  from cursor_seek_spec [of "cursor_new D r", unfolded new, OF wf this sorted seek] obtain b cur where
    cur: "cursor_seek D target Left (cursor_new D r) = Some (b, cur)" "cursor_at chunk_ops D cur xs (c # suf)" by blast
  have loc: "wf_tree chunk_ops (cur_tree cur)" "did_seek cur"
    "located chunk_ops D (cur_tree cur) (cur_stack cur) xs (c # suf)"
    using cur(2) unfolding cursor_at_def by blast+
  have "cursor_item cur = Some (Some c)" using cursor_item_located(1) [OF loc] by (simp add: head_opt_def)
  moreover have "cursor_start cur = m (texts xs)"
    using cur(2) measure_before [of xs] ok s(2) by (simp add: cursor_at_def cursor_start_def)
  moreover have "length (texts xs) \<le> i" "i \<le> length (texts (xs @ [c]))" using s(3,4) ys by auto
  ultimately show ?thesis using find cur(1) s(2) ys by blast
qed

end

definition chunk_at :: "rope \<Rightarrow> nat \<Rightarrow> str \<Rightarrow> chunk \<Rightarrow> str \<Rightarrow> nat \<Rightarrow> bool" where
  "chunk_at r i p c u k \<longleftrightarrow> c = chunk_of u \<and> utf8_ok p \<and> utf8_ok u \<and> length u \<le> 128 \<and> str_is_char_boundary u k \<and>
     i = length p + k \<and> k \<le> length u \<and> take i (rope_text r) = p @ take k u \<and> utf8_ok (take k u)"

lemma chunk_atI:
  assumes "rope_ok r" "tree_items r = pre @ c # suf" "length (texts pre) \<le> i" "i \<le> length (texts (pre @ [c]))"
    "str_is_char_boundary (rope_text r) i"
  obtains u where "chunk_at r i (texts pre) c u (i - length (texts pre))"
proof -
  have ok: "chunk_ok c" "chunks_ok pre" using assms(1,2) by (auto simp: rope_ok_def)
  obtain u where u: "c = chunk_of u" "utf8_ok u" "length u \<le> MAX_BASE" by (rule chunk_okE [OF ok(1)])
  have t: "rope_text r = texts pre @ u @ texts suf" using assms(2) u(1) by (simp add: rope_text_def)
  have b: "str_is_char_boundary u (i - length (texts pre))"
    using line_boundary [OF t assms(5)] assms(3,4) u(1) by simp
  then show ?thesis using that [of u] u t assms(3,4) texts_utf8 [OF ok(2)] utf8_cut [OF u(2) b] by (simp add: chunk_at_def)
qed

lemma find_pair:
  assumes "ordered_measure A m" "text_measure B m'" "rope_ok r" "str_is_char_boundary (rope_text r) i" "i < length (rope_text r)"
  defines "D \<equiv> pair_dim A B" and "target \<equiv> first_target (ord_target (m (take i (rope_text r))))"
  obtains p c u k e b cur where "chunk_at r i p c u k" "find_in_tree D target Left r = ((m p, m' p, ()), e, Some c)"
    "cursor_seek D target Left (cursor_new D r) = Some (b, cur)" "cursor_item cur = Some (Some c)" "cursor_start cur = (m p, m' p, ())"
proof -
  let ?T = "rope_text r"
  have pm: "text_measure D (\<lambda>t. (m t, m' t, ()))"
    unfolding D_def by (rule pair_measure [OF ordered_measure.axioms(1) [OF assms(1)] assms(2)])
  have t: "utf8_ok (take i ?T)" "i = length (take i ?T)"
    using utf8_cut [OF rope_text_utf8 [OF assms(3)] assms(4)] assms(5) by simp_all
  have before: "beyond target Left (m (texts xs), m' (texts xs), ()) \<longleftrightarrow> length (texts xs) < i" if "tree_items r = xs @ ys" for xs ys
  proof -
    have u: "utf8_ok (texts xs)" using assms(3) that texts_utf8 [of xs] by (simp add: rope_ok_def)
    have eq: "texts xs @ texts ys = take i ?T @ drop i ?T"
      unfolding append_take_drop_id using that by (simp add: rope_text_def)
    have "m (texts xs) < m (take i ?T) \<longleftrightarrow> length (texts xs) < i"
      using ordered_measure.measure_less_iff(1) [OF assms(1) u t(1) eq] unfolding t(2) [symmetric] .
    then show ?thesis by (simp add: target_def beyond_def first_target_def ord_target_def)
  qed
  have "target (m [], m' [], ()) \<noteq> Less"
    using ordered_measure.measure_less_iff(1) [OF assms(1) t(1) utf8_ok_Nil, of "drop i ?T" ?T]
    by (simp add: target_def first_target_def ord_target_def)
  moreover have "tree_items r \<noteq> []" "i \<le> length ?T" using assms(5) by (auto simp: rope_text_def)
  ultimately obtain pre c suf e b cur where f:
    "tree_items r = pre @ c # suf" "length (texts pre) \<le> i" "i \<le> length (texts (pre @ [c]))"
    "find_in_tree D target Left r = ((m (texts pre), m' (texts pre), ()), e, Some c)"
    "cursor_seek D target Left (cursor_new D r) = Some (b, cur)" "cursor_item cur = Some (Some c)"
    "cursor_start cur = (m (texts pre), m' (texts pre), ())"
    using text_measure.find_before [OF pm assms(3), of i target] before by fast
  obtain u where "chunk_at r i (texts pre) c u (i - length (texts pre))" by (rule chunk_atI [OF assms(3) f(1-3) assms(4)])
  then show ?thesis using that f(4-7) by blast
qed

text \<open>The row of a boundary in a chunk, as the conversions from UTF-16 points find it.\<close>

lemma utf16_row:
  assumes "utf8_ok t" "length t \<le> 128" "str_is_char_boundary t i"
  obtains p l where "utf8_ok l" "length l \<le> 128" "str_is_char_boundary l (i - length (p :: str))" "length p \<le> i" "i \<le> length p + length l"
    "offset_range_for_row (chunk_of t) (row (point_of (take i t))) = (length p, length p + length l)"
    "chunk_slice_range (chunk_of t) (length p) (length p + length l) = Some (chunk_of l)"
    "point_utf16_of (take i t) = PointUtf16 (row (point_of (take i t))) (utf16_count (take (i - length p) l))"
    "point_of (take i t) = Point (row (point_of (take i t))) (i - length p)"
    "row (point_of (take i t)) \<le> row (chunk_lines (chunk_of t))"
proof -
  have i: "i \<le> length t" by (rule boundary_mark [OF assms(3)])
  obtain p l q where t: "t = p @ l @ q" "count_true (newline_marks p) = row (point_of (take i t))" "p = [] \<or> last p = 10"
    "q = [] \<or> hd q = 10" "10 \<notin> set l" "l \<in> set (lines_of t)" "length p \<le> i" "i \<le> length p + length l"
    "last (lines_of (take i t)) = take (i - length p) l"
    by (rule prefix_row [OF i])
  note rb = row_boundaries [OF assms(1) t(1,3,4)]
  show ?thesis
  proof (rule that [of l p])
    show "utf8_ok l" by (rule rb(2))
    show "length l \<le> 128" using assms(2) t(1) by simp
    show "str_is_char_boundary l (i - length p)" by (rule line_boundary [OF t(1) assms(3) t(7,8)])
    show "length p \<le> i" "i \<le> length p + length l" by (rule t(7,8))+
    show "offset_range_for_row (chunk_of t) (row (point_of (take i t))) = (length p, length p + length l)"
      by (rule offset_range_eq [OF assms(2) t(1-5)])
    show "chunk_slice_range (chunk_of t) (length p) (length p + length l) = Some (chunk_of l)"
      using chunk_slice_range_eq [OF assms(1,2) rb(3,4)] t(1) by simp
    show "point_utf16_of (take i t) = PointUtf16 (row (point_of (take i t))) (utf16_count (take (i - length p) l))"
      "point_of (take i t) = Point (row (point_of (take i t))) (i - length p)"
      using t(8,9) by (simp_all add: point_utf16_of_def point_of_def)
    show "row (point_of (take i t)) \<le> row (chunk_lines (chunk_of t))"
      using row_le_rows [OF i] by (simp add: chunk_lines_eq [OF assms(2)])
  qed
qed

lemma utf16_count_less:
  assumes "utf8_ok l" "str_is_char_boundary l k" "k < length l"
  shows "utf16_count (take k l) < utf16_count l"
  using by_utf16.measure_less_iff(1) [of "take k l" l "drop k l" "[]"] utf8_cut [OF assms(1,2)] assms by simp

lemma chunk_unclipped_eq:
  assumes "utf8_ok t" "length t \<le> 128" "str_is_char_boundary t i"
  shows "chunk_unclipped_point_utf16_to_point (chunk_of t) (point_utf16_of (take i t)) = Some (point_of (take i t))"
proof -
  obtain l and p :: str where r: "utf8_ok l" "length l \<le> 128" "str_is_char_boundary l (i - length p)" "length p \<le> i" "i \<le> length p + length l"
    "offset_range_for_row (chunk_of t) (row (point_of (take i t))) = (length p, length p + length l)"
    "chunk_slice_range (chunk_of t) (length p) (length p + length l) = Some (chunk_of l)"
    "point_utf16_of (take i t) = PointUtf16 (row (point_of (take i t))) (utf16_count (take (i - length p) l))"
    "point_of (take i t) = Point (row (point_of (take i t))) (i - length p)"
    "row (point_of (take i t)) \<le> row (chunk_lines (chunk_of t))"
    by (rule utf16_row [OF assms])
  let ?r = "row (point_of (take i t))" and ?n = "utf16_count (take (i - length p) l)"
  have len: "chunk_len_utf16 (chunk_of l) = utf16_count l" "chunk_len (chunk_of l) = length l"
    using chunk_ok_measures [of "chunk_of l"] r(1,2) by (simp_all add: chunk_ok_of)
  have bk: "back_to_boundary l (chunk_offset_utf16_to_offset (chunk_of l) ?n) = i - length p"
    using chunk_offset_utf16_to_offset_eq [OF r(1-3)] back_to_boundary_id [OF r(3)] by simp
  have "i = length p" if "?n = 0" using utf16_count_pos [OF r(1), of "i - length p"] r(4,5) that by fastforce
  moreover have "i - length p = length l" if "utf16_count l \<le> ?n" using utf16_count_less [OF r(1,3)] r(5) that by fastforce
  moreover have "chunk_unclipped_point_utf16_to_point (chunk_of t) (PointUtf16 ?r ?n) =
      Some (if ?n = 0 then Point ?r 0 else if utf16_count l \<le> ?n then Point ?r (length l) else Point ?r (i - length p))"
    using r(10) unfolding chunk_unclipped_point_utf16_to_point_def point_utf16.sel r(6) Let_def case_prod_conv r(7)
    by (simp add: len bk)
  ultimately have "chunk_unclipped_point_utf16_to_point (chunk_of t) (PointUtf16 ?r ?n) = Some (Point ?r (i - length p))"
    by (cases "?n = 0"; cases "utf16_count l \<le> ?n") auto
  then show ?thesis unfolding r(8) [symmetric] r(9) [symmetric] .
qed

lemma chunk_at_measures:
  assumes "chunk_at r i p c u k"
  defines "t \<equiv> take i (rope_text r)"
  shows "i - length p = k" "length p + k = i"
    "utf16_count t - utf16_count p = utf16_count (take k u)" "utf16_count p + utf16_count (take k u) = utf16_count t"
    "point_sub (point_of t) (point_of p) = point_of (take k u)" "point_add (point_of p) (point_of (take k u)) = point_of t"
    "point_utf16_sub (point_utf16_of t) (point_utf16_of p) = point_utf16_of (take k u)"
    "point_utf16_add (point_utf16_of p) (point_utf16_of (take k u)) = point_utf16_of t"
proof -
  have c: "t = p @ take k u" "utf8_ok p" "i = length p + k" using assms by (auto simp: chunk_at_def)
  show "i - length p = k" "length p + k = i" using c(3) by simp_all
  show "utf16_count t - utf16_count p = utf16_count (take k u)" "utf16_count p + utf16_count (take k u) = utf16_count t"
    "point_sub (point_of t) (point_of p) = point_of (take k u)" "point_add (point_of p) (point_of (take k u)) = point_of t"
    "point_utf16_sub (point_utf16_of t) (point_utf16_of p) = point_utf16_of (take k u)"
    "point_utf16_add (point_utf16_of p) (point_utf16_of (take k u)) = point_utf16_of t"
    unfolding c(1) using c(2) by (simp_all add: counts_append point_of_append point_utf16_of_append)
qed

lemma chunk_at_conversions:
  assumes "chunk_at r i p c u k"
  shows "chunk_offset_to_offset_utf16 (as_slice c) k = utf16_count (take k u)"
    "chunk_offset_utf16_to_offset (as_slice c) (utf16_count (take k u)) = k"
    "chunk_offset_to_point (as_slice c) k = point_of (take k u)"
    "chunk_point_to_offset (as_slice c) (point_of (take k u)) = k"
    "chunk_offset_to_point_utf16 (as_slice c) k = point_utf16_of (take k u)"
    "chunk_point_utf16_to_offset (as_slice c) (point_utf16_of (take k u)) = Some k"
    "chunk_point_to_point_utf16 (as_slice c) (point_of (take k u)) = point_utf16_of (take k u)"
    "chunk_point_to_offset_utf16 (as_slice c) (point_of (take k u)) = utf16_count (take k u)"
    "chunk_unclipped_point_utf16_to_point (as_slice c) (point_utf16_of (take k u)) = Some (point_of (take k u))"
  using assms row_le_rows [of k u]
  by (simp_all add: chunk_at_def as_slice_def chunk_offset_to_offset_utf16_eq chunk_offset_utf16_to_offset_eq chunk_offset_to_point_eq
      chunk_point_to_offset_eq chunk_offset_to_point_utf16_eq chunk_point_utf16_to_offset_eq chunk_point_to_point_utf16_def
      chunk_point_to_offset_utf16_def chunk_lines_eq chunk_unclipped_eq)

lemma before_end:
  assumes "rope_ok r" "str_is_char_boundary (rope_text r) i" "i < length (rope_text r)"
  defines "t \<equiv> take i (rope_text r)"
  shows "\<not> text_len (rope_summary r) \<le> i" "\<not> text_len_utf16 (rope_summary r) \<le> utf16_count t"
    "\<not> text_lines (rope_summary r) \<le> point_of t" "\<not> lines_utf16 (rope_summary r) \<le> point_utf16_of t"
proof -
  have ok: "utf8_ok t" "utf8_ok (rope_text r)" "t @ drop i (rope_text r) = rope_text r @ []" "length t < length (rope_text r)"
    using utf8_cut [OF rope_text_utf8 [OF assms(1)] assms(2)] rope_text_utf8 [OF assms(1)] assms(3) by (simp_all add: t_def)
  show "\<not> text_len (rope_summary r) \<le> i" "\<not> text_len_utf16 (rope_summary r) \<le> utf16_count t"
    "\<not> text_lines (rope_summary r) \<le> point_of t" "\<not> lines_utf16 (rope_summary r) \<le> point_utf16_of t"
    using by_utf16.measure_less_iff(1) [OF ok(1-3)] by_point.measure_less_iff(1) [OF ok(1-3)] by_point_utf16.measure_less_iff(1) [OF ok(1-3)]
      ok(4) assms(3) rope_summary_eq [OF assms(1)] by (simp_all add: summary_of_dims lines_utf16_of not_le)
qed

lemma at_end_measures:
  assumes "rope_ok r" "i = length (rope_text r)"
  shows "text_len (rope_summary r) = i" "text_len_utf16 (rope_summary r) = utf16_count (take i (rope_text r))"
    "text_lines (rope_summary r) = point_of (take i (rope_text r))" "lines_utf16 (rope_summary r) = point_utf16_of (take i (rope_text r))"
  using assms rope_summary_eq [OF assms(1)] by (simp_all add: summary_of_dims lines_utf16_of)

text \<open>What the conversions share: a boundary at the end is answered from the summary, one before the end from its chunk.\<close>

definition pair_result where
  "pair_result A B m m' r i \<longleftrightarrow>
     (\<exists>p c u k e b cur. chunk_at r i p c u k \<and>
        find_in_tree (pair_dim A B) (first_target (ord_target (m (take i (rope_text r))))) Left r = ((m p, m' p, ()), e, Some c) \<and>
        cursor_seek (pair_dim A B) (first_target (ord_target (m (take i (rope_text r))))) Left (cursor_new (pair_dim A B) r) = Some (b, cur) \<and>
        cursor_item cur = Some (Some c) \<and> cursor_start cur = (m p, m' p, ()))"

lemma boundary_cases:
  assumes "rope_ok r" "str_is_char_boundary (rope_text r) i" "ordered_measure A m" "text_measure B m'"
  obtains "i = length (rope_text r)" | "i < length (rope_text r)" "pair_result A B m m' r i"
proof (cases "i = length (rope_text r)")
  case False
  then have "i < length (rope_text r)" using boundary_mark [OF assms(2)] by simp
  from find_pair [OF assms(3,4,1,2) this] this show ?thesis using that(2) unfolding pair_result_def by metis
qed (use that in simp)

subsection \<open>The conversions\<close>

lemmas conversion_simps = pair_result_def chunk_at_measures chunk_at_conversions

lemma rope_offset_to_point_eq:
  assumes "rope_ok r" "str_is_char_boundary (rope_text r) i"
  shows "rope_offset_to_point r i = (point_of (take i (rope_text r)))"
  using assms by_len.ordered_measure_axioms by_point.text_measure_axioms
proof (cases rule: boundary_cases)
  case 2
  then show ?thesis using before_end [OF assms 2(1)] assms(2) by (auto simp: rope_offset_to_point_def conversion_simps min_absorb2)
qed (simp add: rope_offset_to_point_def at_end_measures [OF assms(1)])

lemma rope_offset_to_point_utf16_eq:
  assumes "rope_ok r" "str_is_char_boundary (rope_text r) i"
  shows "rope_offset_to_point_utf16 r i = (point_utf16_of (take i (rope_text r)))"
  using assms by_len.ordered_measure_axioms by_point_utf16.text_measure_axioms
proof (cases rule: boundary_cases)
  case 2
  then show ?thesis using before_end [OF assms 2(1)] assms(2) by (auto simp: rope_offset_to_point_utf16_def conversion_simps min_absorb2)
qed (simp add: rope_offset_to_point_utf16_def at_end_measures [OF assms(1)])

lemma rope_offset_to_offset_utf16_eq:
  assumes "rope_ok r" "str_is_char_boundary (rope_text r) i"
  shows "rope_offset_to_offset_utf16 r i = (utf16_count (take i (rope_text r)))"
  using assms by_len.ordered_measure_axioms by_utf16.text_measure_axioms
proof (cases rule: boundary_cases)
  case 2
  then show ?thesis using before_end [OF assms 2(1)] assms(2) by (auto simp: rope_offset_to_offset_utf16_def conversion_simps min_absorb2)
qed (simp add: rope_offset_to_offset_utf16_def at_end_measures [OF assms(1)])

lemma rope_offset_utf16_to_offset_eq:
  assumes "rope_ok r" "str_is_char_boundary (rope_text r) i"
  shows "rope_offset_utf16_to_offset r (utf16_count (take i (rope_text r))) = i"
  using assms by_utf16.ordered_measure_axioms by_len.text_measure_axioms
proof (cases rule: boundary_cases)
  case 2
  then show ?thesis using before_end [OF assms 2(1)] assms(2) by (auto simp: rope_offset_utf16_to_offset_def conversion_simps min_absorb2)
qed (simp add: rope_offset_utf16_to_offset_def at_end_measures [OF assms(1)])

lemma rope_point_to_offset_eq:
  assumes "rope_ok r" "str_is_char_boundary (rope_text r) i"
  shows "rope_point_to_offset r (point_of (take i (rope_text r))) = i"
  using assms by_point.ordered_measure_axioms by_len.text_measure_axioms
proof (cases rule: boundary_cases)
  case 2
  then show ?thesis using before_end [OF assms 2(1)] assms(2) by (auto simp: rope_point_to_offset_def conversion_simps min_absorb2)
qed (simp add: rope_point_to_offset_def at_end_measures [OF assms(1)])

lemma rope_point_to_point_utf16_eq:
  assumes "rope_ok r" "str_is_char_boundary (rope_text r) i"
  shows "rope_point_to_point_utf16 r (point_of (take i (rope_text r))) = (point_utf16_of (take i (rope_text r)))"
  using assms by_point.ordered_measure_axioms by_point_utf16.text_measure_axioms
proof (cases rule: boundary_cases)
  case 2
  then show ?thesis using before_end [OF assms 2(1)] assms(2) by (auto simp: rope_point_to_point_utf16_def conversion_simps min_absorb2)
qed (simp add: rope_point_to_point_utf16_def at_end_measures [OF assms(1)])

lemma rope_point_to_offset_utf16_eq:
  assumes "rope_ok r" "str_is_char_boundary (rope_text r) i"
  shows "rope_point_to_offset_utf16 r (point_of (take i (rope_text r))) = Some (utf16_count (take i (rope_text r)))"
  using assms by_point.ordered_measure_axioms by_utf16.text_measure_axioms
proof (cases rule: boundary_cases)
  case 2
  then show ?thesis using before_end [OF assms 2(1)] assms(2) by (auto simp: rope_point_to_offset_utf16_def conversion_simps min_absorb2)
qed (simp add: rope_point_to_offset_utf16_def at_end_measures [OF assms(1)])

lemma rope_point_utf16_to_offset_eq:
  assumes "rope_ok r" "str_is_char_boundary (rope_text r) i"
  shows "rope_point_utf16_to_offset r (point_utf16_of (take i (rope_text r))) = Some i"
  using assms by_point_utf16.ordered_measure_axioms by_len.text_measure_axioms
proof (cases rule: boundary_cases)
  case 2
  then show ?thesis using before_end [OF assms 2(1)] assms(2) by (auto simp: rope_point_utf16_to_offset_def conversion_simps min_absorb2)
qed (simp add: rope_point_utf16_to_offset_def at_end_measures [OF assms(1)])

lemma rope_point_utf16_to_offset_utf16_eq:
  assumes "rope_ok r" "str_is_char_boundary (rope_text r) i"
  shows "rope_point_utf16_to_offset_utf16 r (point_utf16_of (take i (rope_text r))) = Some (utf16_count (take i (rope_text r)))"
  using assms by_point_utf16.ordered_measure_axioms by_utf16.text_measure_axioms
proof (cases rule: boundary_cases)
  case 2
  then show ?thesis using before_end [OF assms 2(1)] assms(2) by (auto simp: rope_point_utf16_to_offset_utf16_def conversion_simps min_absorb2)
qed (simp add: rope_point_utf16_to_offset_utf16_def at_end_measures [OF assms(1)])

lemma rope_point_utf16_to_point_eq:
  assumes "rope_ok r" "str_is_char_boundary (rope_text r) i"
  shows "rope_point_utf16_to_point r (point_utf16_of (take i (rope_text r))) = Some (point_of (take i (rope_text r)))"
  using assms by_point_utf16.ordered_measure_axioms by_point.text_measure_axioms
proof (cases rule: boundary_cases)
  case 2
  then show ?thesis using before_end [OF assms 2(1)] assms(2) by (auto simp: rope_point_utf16_to_point_def conversion_simps min_absorb2)
qed (simp add: rope_point_utf16_to_point_def at_end_measures [OF assms(1)])

lemma rope_unclipped_point_utf16_to_point_eq:
  assumes "rope_ok r" "str_is_char_boundary (rope_text r) i"
  shows "rope_unclipped_point_utf16_to_point r (point_utf16_of (take i (rope_text r))) = Some (point_of (take i (rope_text r)))"
  using assms by_point_utf16.ordered_measure_axioms by_point.text_measure_axioms
proof (cases rule: boundary_cases)
  case 2
  then show ?thesis using before_end [OF assms 2(1)] assms(2) by (auto simp: rope_unclipped_point_utf16_to_point_def conversion_simps min_absorb2)
qed (simp add: rope_unclipped_point_utf16_to_point_def at_end_measures [OF assms(1)])

subsection \<open>Boundaries\<close>

lemma boundary_chunk_iff:
  assumes "utf8_ok u" "utf8_ok q" "k \<le> length u" "u \<noteq> []"
  shows "str_is_char_boundary (p @ u @ q) (length p + k) \<longleftrightarrow> str_is_char_boundary u k"
proof (cases "k = 0 \<or> k = length u")
  case True
  have "utf8_ok (u @ q)" using assms(1,2) by (simp add: utf8_append)
  then have "str_is_char_boundary (p @ u @ q) (length p)" "str_is_char_boundary (p @ u @ q) (length p + length u)"
    using boundary_after [of "u @ q" p] boundary_after [OF assms(2), of "p @ u"] by simp_all
  then show ?thesis using True by auto
next
  case False
  then show ?thesis using assms(3) by (auto simp: str_is_char_boundary_def nth_append)
qed

text \<open>The chunk that a search by offset finds, for any offset of the text.\<close>

lemma find_by_len:
  assumes "rope_ok r" "tree_items r \<noteq> []" "i \<le> length (rope_text r)"
  obtains p u q e where "find_in_tree len_dim (ord_target i) Left r = (length p, e, Some (chunk_of u))" "rope_text r = p @ u @ q"
    "utf8_ok u" "utf8_ok q" "length u \<le> 128" "u \<noteq> []" "length p \<le> i" "i \<le> length p + length u"
proof -
  have before: "\<forall>xs ys. tree_items r = xs @ ys \<longrightarrow> (beyond (ord_target i) Left (length (texts xs)) \<longleftrightarrow> length (texts xs) < i)"
    by (simp add: beyond_def ord_target_def)
  obtain pre c suf e where f: "tree_items r = pre @ c # suf" "length (texts pre) \<le> i" "i \<le> length (texts (pre @ [c]))"
    "find_in_tree len_dim (ord_target i) Left r = (length (texts pre), e, Some c)"
    using by_len.find_before [OF assms _ before] ord_target_not_less [of 0 i] by auto
  have ok: "chunk_ok c" "c_text c \<noteq> []" "chunks_ok suf" using assms(1) f(1) by (auto simp: rope_ok_def)
  obtain u where u: "c = chunk_of u" "utf8_ok u" "length u \<le> MAX_BASE" by (rule chunk_okE [OF ok(1)])
  show ?thesis using that [of "texts pre" e u "texts suf"] f u ok texts_utf8 [OF ok(3)] by (simp add: rope_text_def)
qed

lemma rope_is_char_boundary_eq:
  assumes "rope_ok r"
  shows "rope_is_char_boundary r i \<longleftrightarrow> str_is_char_boundary (rope_text r) i"
proof -
  have wf: "wf_tree chunk_ops r" "is_empty r \<longleftrightarrow> tree_items r = []" using assms is_empty_iff by (auto simp: rope_ok_def)
  consider "tree_items r = []" | "tree_items r \<noteq> []" "length (rope_text r) < i" | "tree_items r \<noteq> []" "i \<le> length (rope_text r)" by linarith
  then show ?thesis
  proof cases
    case 1
    then show ?thesis using wf by (simp add: rope_is_char_boundary_def rope_text_def str_is_char_boundary_def)
  next
    case 2
    have "beyond (ord_target i) Left (rope_len r)" using 2 rope_len_eq [OF assms] by (simp add: beyond_def ord_target_def)
    then have "find_in_tree len_dim (ord_target i) Left r = (rope_len r, rope_len r, None)"
      by (simp add: find_in_tree_def find_gen_def rope_len_def extent_def Let_def)
    then show ?thesis using 2 wf by (auto simp: rope_is_char_boundary_def str_is_char_boundary_def)
  next
    case 3
    obtain p u q e where f: "find_in_tree len_dim (ord_target i) Left r = (length p, e, Some (chunk_of u))" "rope_text r = p @ u @ q"
      "utf8_ok u" "utf8_ok q" "length u \<le> 128" "u \<noteq> []" "length p \<le> i" "i \<le> length p + length u"
      by (rule find_by_len [OF assms 3])
    then show ?thesis using boundary_chunk_iff [OF f(3,4) _ f(6), of "i - length p" p] 3 wf
      by (simp add: rope_is_char_boundary_def chunk_is_char_boundary_eq)
  qed
qed

text \<open>The nearest boundaries.\<close>

lemma str_floor_eq:
  assumes "str_is_char_boundary t m" "m \<le> i" "\<forall>j. m < j \<longrightarrow> j \<le> i \<longrightarrow> \<not> str_is_char_boundary t j" "i \<le> length t"
  shows "str_floor_char_boundary t i = m"
proof (cases "i = length t")
  case True
  then have "m = length t" using assms(2,3) str_boundaries(2) [of t] by (metis le_neq_implies_less order_refl)
  then show ?thesis using True by (simp add: str_floor_char_boundary_def)
next
  case False
  have split: "[0..<Suc i] = [0..<m] @ m # [Suc m..<Suc i]" using assms(2) by (metis le_SucI less_eq_nat.simps(1) less_Suc_eq_le upt_add_eq_append upt_conv_Cons le_add_diff_inverse)
  have "filter (str_is_char_boundary t) [0..<Suc i] = filter (str_is_char_boundary t) [0..<m] @ [m]"
    unfolding split using assms(1,3) by (simp add: filter_empty_conv del: upt_Suc)
  then show ?thesis using False assms(4) by (simp add: str_floor_char_boundary_def del: upt_Suc)
qed

lemma str_ceil_eq:
  assumes "str_is_char_boundary t m" "i \<le> m" "\<forall>j. i \<le> j \<longrightarrow> j < m \<longrightarrow> \<not> str_is_char_boundary t j"
  shows "str_ceil_char_boundary t i = m"
proof (cases "i = length t")
  case True
  then show ?thesis using assms boundary_mark [OF assms(1)] by (simp add: str_ceil_char_boundary_def)
next
  case False
  have m: "m \<le> length t" by (rule boundary_mark [OF assms(1)])
  then have split: "[i..<Suc (length t)] = [i..<m] @ m # [Suc m..<Suc (length t)]"
    using assms(2) by (metis le_SucI less_Suc_eq_le upt_add_eq_append upt_conv_Cons le_add_diff_inverse)
  have "filter (str_is_char_boundary t) [i..<Suc (length t)] = m # filter (str_is_char_boundary t) [Suc m..<Suc (length t)]"
    unfolding split using assms(1,3) by (simp add: filter_empty_conv del: upt_Suc)
  then show ?thesis using False m assms(2) by (simp add: str_ceil_char_boundary_def del: upt_Suc)
qed

lemma nearest_boundaries:
  assumes "i \<le> length t"
  shows "\<exists>m \<le> i. str_is_char_boundary t m \<and> (\<forall>j. m < j \<longrightarrow> j \<le> i \<longrightarrow> \<not> str_is_char_boundary t j)"
    "\<exists>m \<ge> i. str_is_char_boundary t m \<and> (\<forall>j. i \<le> j \<longrightarrow> j < m \<longrightarrow> \<not> str_is_char_boundary t j)"
proof -
  let ?P = "\<lambda>m. m \<le> i \<and> str_is_char_boundary t m"
  have "?P 0" by simp
  then obtain m where "?P m" "\<forall>j. ?P j \<longrightarrow> j \<le> m" using GreatestI_nat [of ?P 0 i] Greatest_le_nat [of ?P _ i] by blast
  then show "\<exists>m \<le> i. str_is_char_boundary t m \<and> (\<forall>j. m < j \<longrightarrow> j \<le> i \<longrightarrow> \<not> str_is_char_boundary t j)" by (meson leD)
  let ?Q = "\<lambda>m. i \<le> m \<and> str_is_char_boundary t m"
  have "?Q (length t)" using assms by simp
  then have "?Q (LEAST m. ?Q m)" by (rule LeastI)
  then show "\<exists>m \<ge> i. str_is_char_boundary t m \<and> (\<forall>j. i \<le> j \<longrightarrow> j < m \<longrightarrow> \<not> str_is_char_boundary t j)"
    using not_less_Least by blast
qed

lemma rope_floor_eq:
  assumes "rope_ok r"
  shows "rope_floor_char_boundary r i = str_floor_char_boundary (rope_text r) i"
proof (cases "length (rope_text r) \<le> i")
  case True
  then show ?thesis by (simp add: rope_floor_char_boundary_def str_floor_char_boundary_def rope_len_eq [OF assms])
next
  case False
  then have ne: "tree_items r \<noteq> []" "i \<le> length (rope_text r)" by (auto simp: rope_text_def)
  obtain p u q e where f: "find_in_tree len_dim (ord_target i) Left r = (length p, e, Some (chunk_of u))" "rope_text r = p @ u @ q"
    "utf8_ok u" "utf8_ok q" "length u \<le> 128" "u \<noteq> []" "length p \<le> i" "i \<le> length p + length u"
    by (rule find_by_len [OF assms ne])
  have k: "i - length p \<le> length u" using f(8) by simp
  obtain m where m: "m \<le> i - length p" "str_is_char_boundary u m" "\<forall>j. m < j \<longrightarrow> j \<le> i - length p \<longrightarrow> \<not> str_is_char_boundary u j"
    using nearest_boundaries(1) [OF k] by blast
  note iff = boundary_chunk_iff [OF f(3,4) _ f(6), of _ p]
  have "str_floor_char_boundary (rope_text r) i = length p + m"
  proof (rule str_floor_eq)
    show "str_is_char_boundary (rope_text r) (length p + m)" using iff [of m] m(1,2) f(2,8) by simp
    show "\<forall>j. length p + m < j \<longrightarrow> j \<le> i \<longrightarrow> \<not> str_is_char_boundary (rope_text r) j"
    proof (intro allI impI)
      fix j assume j: "length p + m < j" "j \<le> i"
      then have "\<not> str_is_char_boundary u (j - length p)" using m(3) by simp
      then show "\<not> str_is_char_boundary (rope_text r) j" using iff [of "j - length p"] j f(2,8) by simp
    qed
  qed (use m(1) f(7) ne(2) in auto)
  moreover have "str_floor_char_boundary u (i - length p) = m" by (rule str_floor_eq [OF m(2,1,3)]) (use f(8) in simp)
  ultimately show ?thesis using False f(1) by (simp add: rope_floor_char_boundary_def rope_len_eq [OF assms])
qed

lemma rope_ceil_eq:
  assumes "rope_ok r"
  shows "rope_ceil_char_boundary r i = str_ceil_char_boundary (rope_text r) i"
proof (cases "length (rope_text r) < i \<or> tree_items r = []")
  case True
  then show ?thesis
  proof
    assume "length (rope_text r) < i"
    then show ?thesis by (simp add: rope_ceil_char_boundary_def str_ceil_char_boundary_def rope_len_eq [OF assms])
  next
    assume "tree_items r = []"
    moreover have "chunks_ok (tree_items r)" "wf_tree chunk_ops r" using assms by (auto simp: rope_ok_def)
    moreover have "snd (snd (find_in_tree len_dim (ord_target i) Left r)) = None"
      using by_len.seek_none(1) [of r "ord_target i" Left "[]" "dzero len_dim" False] calculation by (simp add: find_in_tree_def)
    ultimately show ?thesis
      by (auto simp: rope_ceil_char_boundary_def str_ceil_char_boundary_def rope_len_eq [OF assms] rope_text_def split: prod.splits)
  qed
next
  case False
  then have ne: "tree_items r \<noteq> []" "i \<le> length (rope_text r)" by auto
  obtain p u q e where f: "find_in_tree len_dim (ord_target i) Left r = (length p, e, Some (chunk_of u))" "rope_text r = p @ u @ q"
    "utf8_ok u" "utf8_ok q" "length u \<le> 128" "u \<noteq> []" "length p \<le> i" "i \<le> length p + length u"
    by (rule find_by_len [OF assms ne])
  have k: "i - length p \<le> length u" using f(8) by simp
  obtain m where m: "i - length p \<le> m" "str_is_char_boundary u m" "\<forall>j. i - length p \<le> j \<longrightarrow> j < m \<longrightarrow> \<not> str_is_char_boundary u j"
    using nearest_boundaries(2) [OF k] by blast
  have mu: "m \<le> length u" by (rule boundary_mark [OF m(2)])
  note iff = boundary_chunk_iff [OF f(3,4) _ f(6), of _ p]
  have "str_ceil_char_boundary (rope_text r) i = length p + m"
  proof (rule str_ceil_eq)
    show "str_is_char_boundary (rope_text r) (length p + m)" using iff [of m] m(2) mu f(2) by simp
    show "\<forall>j. i \<le> j \<longrightarrow> j < length p + m \<longrightarrow> \<not> str_is_char_boundary (rope_text r) j"
    proof (intro allI impI)
      fix j assume j: "i \<le> j" "j < length p + m"
      then have "\<not> str_is_char_boundary u (j - length p)" using m(3) f(7) by simp
      then show "\<not> str_is_char_boundary (rope_text r) j" using iff [of "j - length p"] j f(2,7) mu by simp
    qed
  qed (use m(1) f(7) in auto)
  moreover have "str_ceil_char_boundary u (i - length p) = m" by (rule str_ceil_eq [OF m(2,1,3)])
  ultimately show ?thesis using False f(1) by (simp add: rope_ceil_char_boundary_def rope_len_eq [OF assms])
qed

end
