(* ===== verification/Rope_Properties.thy ===== *)
theory Rope_Properties
  imports Rope_Positions
begin

text \<open>
  The properties of the rope: whatever sequence of edits built it, it holds the text that the same edits of a string
  give, no edit panics or loops, and its summaries, positions and boundaries are those of that text.
\<close>

subsection \<open>Ropes and the texts they were built from\<close>

inductive rope_built :: "rope \<Rightarrow> str \<Rightarrow> bool" where
  built_new: "rope_built rope_new []"
| built_push: "rope_built r t \<Longrightarrow> utf8_ok s \<Longrightarrow> rope_push r s = Some r' \<Longrightarrow> rope_built r' (t @ s)"
| built_push_front: "rope_built r t \<Longrightarrow> utf8_ok s \<Longrightarrow> push_front r s = Some r' \<Longrightarrow> rope_built r' (s @ t)"
| built_append: "rope_built r t \<Longrightarrow> rope_built r2 t2 \<Longrightarrow> rope_append r r2 = Some r' \<Longrightarrow> rope_built r' (t @ t2)"
| built_replace: "rope_built r t \<Longrightarrow> utf8_ok s \<Longrightarrow> str_is_char_boundary t i \<Longrightarrow> str_is_char_boundary t j \<Longrightarrow> i \<le> j \<Longrightarrow>
    rope_replace r i j s = Some r' \<Longrightarrow> rope_built r' (take i t @ s @ drop j t)"
| built_slice: "rope_built r t \<Longrightarrow> str_is_char_boundary t i \<Longrightarrow> str_is_char_boundary t j \<Longrightarrow> i \<le> j \<Longrightarrow>
    rope_slice r i j = Some r' \<Longrightarrow> rope_built r' (take (j - i) (drop i t))"

lemma built_ok: "rope_built r t \<Longrightarrow> rope_ok r \<and> rope_text r = t"
proof (induction rule: rope_built.induct)
  case (built_push r t s r')
  then show ?case using rope_push_spec [of r s] by auto
next
  case (built_push_front r t s r')
  then show ?case using push_front_spec [of r s] by auto
next
  case (built_append r t r2 t2 r')
  then show ?case using rope_append_spec [of r r2] by auto
next
  case (built_replace r t s i j r')
  then show ?case using rope_replace_spec [of r s i j] by auto
next
  case (built_slice r t i j r')
  then show ?case using rope_slice_spec [of r i j] by (auto simp: text_range_def)
qed simp

lemma rope_from_str_built:
  assumes "utf8_ok t"
  shows "rope_built (the (rope_from_str t)) t"
proof -
  obtain r where "rope_push rope_new t = Some r" using rope_push_spec [OF rope_new_ok(1) assms] by blast
  then show ?thesis using built_push [OF built_new assms] by (simp add: rope_from_str_def)
qed

text \<open>A text with characters of one to four bytes and two newlines, and the rope made from it.\<close>

definition greeting :: str where
  "greeting = [104, 195, 169, 10, 226, 130, 172, 10, 240, 159, 166, 128]"

lemma greeting_utf8: "utf8_ok greeting"
  unfolding greeting_def by code_simp

lemmas greeting_built = rope_from_str_built [OF greeting_utf8]

subsection \<open>Properties\<close>

text \<open>C14 (rope_holds_text): a rope built by any sequence of pushes, appends, replacements and slices is a well-formed tree of chunks whose
  concatenation is the text that these edits give; each chunk is the one \<open>Chunk::new\<close> makes of its text, every chunk but
  the last is half full up to three bytes, and the cached summary is that of the whole text.\<close>

theorem rope_holds_text:
  assumes "rope_built r t"
  shows "wf_tree chunk_ops r \<and> concat (map c_text (tree_items r)) = t \<and> rope_summary r = summary_from_str t \<and> rope_len r = length t \<and>
    list_all (\<lambda>c. chunk_new (c_text c) = Some c \<and> c_text c \<noteq> []) (tree_items r) \<and>
    list_all (\<lambda>c. MIN_BASE \<le> length (c_text c) + 3) (butlast (tree_items r))"
proof -
  have ok: "rope_ok r" "rope_text r = t" using built_ok [OF assms] by auto
  have "chunk_new (c_text c) = Some c" if "chunk_ok c" for c using that by (simp add: chunk_ok_def chunk_new_eq)
  then show ?thesis using ok rope_summary_eq [OF ok(1)] rope_len_eq [OF ok(1)] summary_from_str_eq [of t] rope_text_utf8 [OF ok(1)]
    by (auto simp: rope_ok_def rope_text_def texts_def chunks_ok_def filled_def big_def list_all_iff)
qed

theorem rope_holds_text_witness:
  "let r = the (rope_from_str greeting) in
    wf_tree chunk_ops r \<and> concat (map c_text (tree_items r)) = greeting \<and> rope_summary r = summary_from_str greeting \<and>
    rope_len r = length greeting \<and> list_all (\<lambda>c. chunk_new (c_text c) = Some c \<and> c_text c \<noteq> []) (tree_items r) \<and>
    list_all (\<lambda>c. MIN_BASE \<le> length (c_text c) + 3) (butlast (tree_items r))"
  unfolding Let_def by (rule rope_holds_text [OF greeting_built])

text \<open>C15 (rope_editing): on a rope built by edits every further edit returns: no loop runs forever, no chunk overflows, the array of four
  new chunks in \<open>push\<close> is large enough, and no assertion fails. The result is again a rope built by edits.\<close>

theorem rope_editing:
  assumes "rope_built r t" "rope_built r2 t2" "utf8_ok s" "str_is_char_boundary t i" "str_is_char_boundary t j" "i \<le> j"
  shows "(\<exists>r'. rope_push r s = Some r' \<and> rope_built r' (t @ s)) \<and> (\<exists>r'. push_front r s = Some r' \<and> rope_built r' (s @ t)) \<and>
    (\<exists>r'. rope_append r r2 = Some r' \<and> rope_built r' (t @ t2)) \<and>
    (\<exists>r'. rope_replace r i j s = Some r' \<and> rope_built r' (take i t @ s @ drop j t)) \<and>
    (\<exists>r'. rope_slice r i j = Some r' \<and> rope_built r' (take (j - i) (drop i t)))"
proof -
  have ok: "rope_ok r" "rope_text r = t" "rope_ok r2" using built_ok assms(1,2) by auto
  have b: "str_is_char_boundary (rope_text r) i" "str_is_char_boundary (rope_text r) j" using assms(4,5) ok(2) by auto
  obtain r_push r_front r_append r_replace r_slice where "rope_push r s = Some r_push" "push_front r s = Some r_front"
    "rope_append r r2 = Some r_append" "rope_replace r i j s = Some r_replace" "rope_slice r i j = Some r_slice"
    using rope_push_spec [OF ok(1) assms(3)] push_front_spec [OF ok(1) assms(3)] rope_append_spec [OF ok(1,3)]
      rope_replace_spec [OF ok(1) assms(3) b assms(6)] rope_slice_spec [OF ok(1) b assms(6)] by blast
  then show ?thesis
    using built_push [OF assms(1,3)] built_push_front [OF assms(1,3)] built_append [OF assms(1,2)]
      built_replace [OF assms(1,3-6)] built_slice [OF assms(1,4-6)] by blast
qed

theorem rope_editing_witness:
  "let r = the (rope_from_str greeting); r2 = the (rope_from_str greeting) in
    (\<exists>r'. rope_push r [195, 169] = Some r' \<and> rope_built r' (greeting @ [195, 169])) \<and>
    (\<exists>r'. push_front r [195, 169] = Some r' \<and> rope_built r' ([195, 169] @ greeting)) \<and>
    (\<exists>r'. rope_append r r2 = Some r' \<and> rope_built r' (greeting @ greeting)) \<and>
    (\<exists>r'. rope_replace r 3 7 [195, 169] = Some r' \<and> rope_built r' (take 3 greeting @ [195, 169] @ drop 7 greeting)) \<and>
    (\<exists>r'. rope_slice r 3 7 = Some r' \<and> rope_built r' (take (7 - 3) (drop 3 greeting)))"
  unfolding Let_def by (rule rope_editing [OF greeting_built greeting_built]) (unfold greeting_def, code_simp+)

text \<open>C16 (rope_positions): at every character boundary of the text the eleven conversions of the rope between offsets, points, UTF-16 offsets and
  UTF-16 points return the measures of the text before the boundary, so that they invert each other.\<close>

theorem rope_positions:
  assumes "rope_built r t" "str_is_char_boundary t i"
  shows "let p = parse_str (take i t); s = summary_from_str (take i t); o16 = text_len_utf16 s; p16 = lines_utf16 s in
    rope_offset_to_point r i = p \<and> rope_offset_to_offset_utf16 r i = o16 \<and> rope_offset_to_point_utf16 r i = p16 \<and>
    rope_point_to_offset r p = i \<and> rope_point_to_offset_utf16 r p = Some o16 \<and> rope_point_to_point_utf16 r p = p16 \<and>
    rope_offset_utf16_to_offset r o16 = i \<and> rope_point_utf16_to_offset r p16 = Some i \<and>
    rope_point_utf16_to_offset_utf16 r p16 = Some o16 \<and> rope_point_utf16_to_point r p16 = Some p \<and>
    rope_unclipped_point_utf16_to_point r p16 = Some p"
proof -
  have ok: "rope_ok r" "rope_text r = t" using built_ok [OF assms(1)] by auto
  have "utf8_ok (take i t)" using utf8_cut [OF _ assms(2)] rope_text_utf8 [OF ok(1)] ok(2) by simp
  then have m: "parse_str (take i t) = point_of (take i t)" "text_len_utf16 (summary_from_str (take i t)) = utf16_count (take i t)"
    "lines_utf16 (summary_from_str (take i t)) = point_utf16_of (take i t)"
    by (simp_all add: parse_str_eq summary_from_str_eq summary_of_dims lines_utf16_of)
  have b: "str_is_char_boundary (rope_text r) i" using assms(2) ok(2) by simp
  show ?thesis
    using rope_offset_to_point_eq [OF ok(1) b] rope_offset_to_offset_utf16_eq [OF ok(1) b] rope_offset_to_point_utf16_eq [OF ok(1) b]
      rope_point_to_offset_eq [OF ok(1) b] rope_point_to_offset_utf16_eq [OF ok(1) b] rope_point_to_point_utf16_eq [OF ok(1) b]
      rope_offset_utf16_to_offset_eq [OF ok(1) b] rope_point_utf16_to_offset_eq [OF ok(1) b] rope_point_utf16_to_offset_utf16_eq [OF ok(1) b]
      rope_point_utf16_to_point_eq [OF ok(1) b] rope_unclipped_point_utf16_to_point_eq [OF ok(1) b]
    unfolding m Let_def ok(2) by blast
qed

theorem rope_positions_witness:
  "let r = the (rope_from_str greeting); p = parse_str (take 7 greeting); s = summary_from_str (take 7 greeting); o16 = text_len_utf16 s; p16 = lines_utf16 s in
    rope_offset_to_point r 7 = p \<and> rope_offset_to_offset_utf16 r 7 = o16 \<and> rope_offset_to_point_utf16 r 7 = p16 \<and>
    rope_point_to_offset r p = 7 \<and> rope_point_to_offset_utf16 r p = Some o16 \<and> rope_point_to_point_utf16 r p = p16 \<and>
    rope_offset_utf16_to_offset r o16 = 7 \<and> rope_point_utf16_to_offset r p16 = Some 7 \<and>
    rope_point_utf16_to_offset_utf16 r p16 = Some o16 \<and> rope_point_utf16_to_point r p16 = Some p \<and>
    rope_unclipped_point_utf16_to_point r p16 = Some p"
  using rope_positions [OF greeting_built, of 7] unfolding Let_def
  by (simp add: greeting_def str_is_char_boundary_def is_utf8_char_boundary_def)

text \<open>C17 (rope_ranges): a cursor placed at a boundary of the rope summarises the text up to a later boundary as a pass over that text does,
  and cuts out a rope that holds this text.\<close>

theorem rope_ranges:
  assumes "rope_built r t" "str_is_char_boundary t i" "str_is_char_boundary t j" "i \<le> j"
  shows "let u = take (j - i) (drop i t); c = rope_cursor_new r i in
    map_option fst (c \<bind> (\<lambda>c. rope_cursor_summary td_summary c j)) = Some (summary_from_str u) \<and>
    map_option fst (c \<bind> (\<lambda>c. rope_cursor_summary td_len c j)) = Some (length u) \<and>
    map_option fst (c \<bind> (\<lambda>c. rope_cursor_summary td_point c j)) = Some (parse_str u) \<and>
    map_option (concat \<circ> map c_text \<circ> tree_items \<circ> fst) (c \<bind> (\<lambda>c. rope_cursor_slice c j)) = Some u"
proof -
  have ok: "rope_ok r" "rope_text r = t" using built_ok [OF assms(1)] by auto
  have b: "str_is_char_boundary (rope_text r) i" "str_is_char_boundary (rope_text r) j" using assms(2,3) ok(2) by auto
  obtain c pre suf where c: "rope_cursor_new r i = Some c" "rope_at r c i pre suf"
    using rope_cursor_new_spec [OF ok(1) boundary_mark [OF b(1)]] by blast
  have u: "text_range t i j = take (j - i) (drop i t)" by (simp add: text_range_def)
  have "utf8_ok (take (j - i) (drop i t))" using range_utf8 [OF _ assms(2-4)] rope_text_utf8 [OF ok(1)] ok(2) u by simp
  then have m: "summary_from_str (take (j - i) (drop i t)) = summary_of (text_range t i j)"
    "parse_str (take (j - i) (drop i t)) = point_of (text_range t i j)"
    "length (take (j - i) (drop i t)) = length (text_range t i j)" unfolding u by (simp_all add: summary_from_str_eq parse_str_eq)
  obtain x cx where "rope_cursor_slice c j = Some (x, cx)" "rope_text x = text_range t i j"
    using rope_cursor_slice_spec [OF ok(1) c(2) b assms(4)] ok(2) by (auto simp: slice_result_def)
  moreover obtain c1 c2 c3 where "rope_cursor_summary td_summary c j = Some (summary_of (text_range t i j), c1)"
    "rope_cursor_summary td_len c j = Some (length (text_range t i j), c2)"
    "rope_cursor_summary td_point c j = Some (point_of (text_range t i j), c3)"
    using summary_td.rope_cursor_summary_spec [OF ok(1) c(2) b assms(4)] len_td.rope_cursor_summary_spec [OF ok(1) c(2) b assms(4)]
      point_td.rope_cursor_summary_spec [OF ok(1) c(2) b assms(4)] ok(2)
    by (auto simp: summary_td.summary_result_def len_td.summary_result_def point_td.summary_result_def)
  ultimately show ?thesis unfolding Let_def m c(1) by (simp add: rope_text_def texts_def u)
qed

theorem rope_ranges_witness:
  "let u = take (8 - 1) (drop 1 greeting); c = rope_cursor_new (the (rope_from_str greeting)) 1 in
    map_option fst (c \<bind> (\<lambda>c. rope_cursor_summary td_summary c 8)) = Some (summary_from_str u) \<and>
    map_option fst (c \<bind> (\<lambda>c. rope_cursor_summary td_len c 8)) = Some (length u) \<and>
    map_option fst (c \<bind> (\<lambda>c. rope_cursor_summary td_point c 8)) = Some (parse_str u) \<and>
    map_option (concat \<circ> map c_text \<circ> tree_items \<circ> fst) (c \<bind> (\<lambda>c. rope_cursor_slice c 8)) = Some u"
  by (rule rope_ranges [OF greeting_built]) (unfold greeting_def, code_simp+)

text \<open>C18 (rope_boundaries): the character boundaries of the rope are those of its text, for every offset, and clipping an offset to the left
  or to the right finds the nearest one.\<close>

theorem rope_boundaries:
  assumes "rope_built r t"
  shows "rope_is_char_boundary r i = str_is_char_boundary t i \<and>
    rope_clip_offset r i Left = str_floor_char_boundary t i \<and> rope_clip_offset r i Right = str_ceil_char_boundary t i"
  using built_ok [OF assms] rope_is_char_boundary_eq [of r i] rope_floor_eq [of r i] rope_ceil_eq [of r i]
  by (auto simp: rope_clip_offset_def)

theorem rope_boundaries_witness:
  "let r = the (rope_from_str greeting) in rope_is_char_boundary r 5 = str_is_char_boundary greeting 5 \<and>
    rope_clip_offset r 5 Left = str_floor_char_boundary greeting 5 \<and> rope_clip_offset r 5 Right = str_ceil_char_boundary greeting 5"
  unfolding Let_def by (rule rope_boundaries [OF greeting_built])

end
