(* ===== verification/Text_Operation.thy ===== *)
theory Text_Operation
  imports Undo_Map Utf8_Text
begin

text \<open>
  The operations of \<open>crates/text/src/text.rs\<close> that replicas exchange: \<open>EditOperation\<close>, \<open>UndoOperation\<close> (in
  \<open>Undo_Map\<close>) and \<open>Operation\<close>. A \<open>FullOffset\<close> counts the visible and the deleted bytes in front of a position.
\<close>

type_synonym full_offset = nat

record edit_operation =
  edit_timestamp :: lamport
  edit_version :: global
  edit_ranges :: "(full_offset \<times> full_offset) list"
  edit_new_text :: "str list"

datatype operation = Edit edit_operation | Undo undo_operation

text \<open>\<open>Operation::timestamp\<close> and \<open>lamport_timestamp\<close>\<close>

fun operation_timestamp :: "operation \<Rightarrow> lamport" where
  "operation_timestamp (Edit e) = edit_timestamp e"
| "operation_timestamp (Undo u) = undo_timestamp u"

definition operation_replica_id :: "operation \<Rightarrow> replica_id" where
  "operation_replica_id op = replica_id (operation_timestamp op)"

fun as_edit :: "operation \<Rightarrow> edit_operation option" where
  "as_edit (Edit e) = Some e"
| "as_edit (Undo u) = None"

fun is_edit :: "operation \<Rightarrow> bool" where
  "is_edit (Edit e) = True"
| "is_edit (Undo u) = False"

text \<open>The version an operation was made at, as \<open>can_apply_op\<close> reads it.\<close>

fun operation_version :: "operation \<Rightarrow> global" where
  "operation_version (Edit e) = edit_version e"
| "operation_version (Undo u) = undo_version u"

end
