(* ===== verification/Fragment.thy ===== *)
theory Fragment
  imports Text_Operation Locator Tree_Map Rope "HOL-Library.Monad_Syntax"
begin

text \<open>
  The fragments of a buffer (\<open>crates/text/src/text.rs\<close>): runs of bytes of one insertion, visible or deleted, in the order
  of the document. Their summaries, the dimensions that measure them, the fragments indexed by insertion
  (\<open>InsertionFragment\<close>), the slices of insertions that an edit touched (\<open>InsertionSlice\<close>), and the two builders that an
  edit fills. Offsets into an insertion and lengths are natural numbers (\<open>u32\<close> in the code).
\<close>

subsection \<open>Fragments and their summaries\<close>

record fragment =
  frag_id :: locator
  frag_timestamp :: lamport
  frag_offset :: nat
  frag_len :: nat
  frag_visible :: bool
  frag_deletions :: "lamport list"
  frag_max_undos :: global

record fragment_text_summary =
  ft_visible :: nat
  ft_deleted :: nat

record fragment_summary =
  fs_text :: fragment_text_summary
  fs_max_id :: locator
  fs_max_version :: global
  fs_min_insertion_version :: global
  fs_max_insertion_version :: global

definition fragment_text_summary_default :: fragment_text_summary where
  "fragment_text_summary_default = \<lparr>ft_visible = 0, ft_deleted = 0\<rparr>"

definition text_summary_plus :: "fragment_text_summary \<Rightarrow> fragment_text_summary \<Rightarrow> fragment_text_summary" where
  "text_summary_plus a b = \<lparr>ft_visible = ft_visible a + ft_visible b, ft_deleted = ft_deleted a + ft_deleted b\<rparr>"

definition fragment_summary_default :: fragment_summary where
  "fragment_summary_default =
     \<lparr>fs_text = fragment_text_summary_default, fs_max_id = locator_min, fs_max_version = global_new,
      fs_min_insertion_version = global_new, fs_max_insertion_version = global_new\<rparr>"

definition fragment_summary_add :: "fragment_summary \<Rightarrow> fragment_summary \<Rightarrow> fragment_summary" where
  "fragment_summary_add a b =
     \<lparr>fs_text = text_summary_plus (fs_text a) (fs_text b), fs_max_id = assign (fs_max_id a) (fs_max_id b),
      fs_max_version = join (fs_max_version a) (fs_max_version b),
      fs_min_insertion_version = meet (fs_min_insertion_version a) (fs_min_insertion_version b),
      fs_max_insertion_version = join (fs_max_insertion_version a) (fs_max_insertion_version b)\<rparr>"

definition fragment_item_summary :: "fragment \<Rightarrow> fragment_summary" where
  "fragment_item_summary f =
     (let max_version = join (foldl observe (observe global_new (frag_timestamp f)) (frag_deletions f)) (frag_max_undos f);
          insertion_version = observe global_new (frag_timestamp f)
      in \<lparr>fs_text =
            (if frag_visible f then \<lparr>ft_visible = frag_len f, ft_deleted = 0\<rparr> else \<lparr>ft_visible = 0, ft_deleted = frag_len f\<rparr>),
          fs_max_id = frag_id f, fs_max_version = max_version,
          fs_min_insertion_version = insertion_version, fs_max_insertion_version = insertion_version\<rparr>)"

definition fragment_ops :: "(fragment, fragment_summary) item_ops" where
  "fragment_ops =
     \<lparr>szero = fragment_summary_default, sadd = fragment_summary_add, ssummary = fragment_item_summary\<rparr>"

type_synonym fragment_tree = "(fragment, fragment_summary) node"

subsection \<open>Visibility\<close>

text \<open>The queries of the undo map are fallible in the model; \<open>all_undone\<close> is \<open>Iterator::all\<close>, which stops at the first failure.\<close>

fun all_undone :: "(lamport \<Rightarrow> bool option) \<Rightarrow> lamport list \<Rightarrow> bool option" where
  "all_undone P [] = Some True"
| "all_undone P (d # ds) = do { b \<leftarrow> P d; if b then all_undone P ds else Some False }"

definition is_visible :: "fragment \<Rightarrow> undo_map \<Rightarrow> bool option" where
  "is_visible f undos = do {
     undone \<leftarrow> is_undone undos (frag_timestamp f);
     if undone then Some False else all_undone (is_undone undos) (frag_deletions f)
   }"

definition was_visible :: "fragment \<Rightarrow> global \<Rightarrow> undo_map \<Rightarrow> bool option" where
  "was_visible f version undos =
     (if \<not> observed version (frag_timestamp f) then Some False
      else do {
        undone \<leftarrow> was_undone undos (frag_timestamp f) version;
        if undone then Some False
        else all_undone (\<lambda>d. if observed version d then was_undone undos d version else Some True) (frag_deletions f)
      })"

subsection \<open>Dimensions\<close>

text \<open>The visible bytes, both kinds of bytes, the full offset, and the id of the last fragment.\<close>

definition visible_dim :: "(fragment_summary, nat) dim_ops" where
  "visible_dim = \<lparr>dzero = 0, dadd = (\<lambda>d s. d + ft_visible (fs_text s))\<rparr>"

definition fragment_text_dim :: "(fragment_summary, fragment_text_summary) dim_ops" where
  "fragment_text_dim = \<lparr>dzero = fragment_text_summary_default, dadd = (\<lambda>d s. text_summary_plus d (fs_text s))\<rparr>"

definition full_offset_dim :: "(fragment_summary, full_offset) dim_ops" where
  "full_offset_dim = \<lparr>dzero = 0, dadd = (\<lambda>d s. d + (ft_visible (fs_text s) + ft_deleted (fs_text s)))\<rparr>"

definition fragment_id_dim :: "(fragment_summary, locator option) dim_ops" where
  "fragment_id_dim = \<lparr>dzero = None, dadd = (\<lambda>d s. Some (fs_max_id s))\<rparr>"

text \<open>\<open>SeekTarget\<close> of an offset among visible bytes in both kinds of bytes.\<close>

definition visible_target :: "nat \<Rightarrow> fragment_text_summary target" where
  "visible_target n = (\<lambda>loc. cmp n (ft_visible loc))"

text \<open>
  \<open>VersionedFullOffset\<close> counts the bytes of the fragments that a version observed; a subtree that mixes observed and
  other insertions has no such count.
\<close>

datatype versioned_full_offset = Offset full_offset | Invalid

fun versioned_offset :: "versioned_full_offset \<Rightarrow> full_offset option" where
  "versioned_offset (Offset n) = Some n"
| "versioned_offset Invalid = None"

definition versioned_dim :: "global \<Rightarrow> (fragment_summary, versioned_full_offset) dim_ops" where
  "versioned_dim version =
     \<lparr>dzero = Offset 0,
      dadd = (\<lambda>d s. case d of
          Offset n \<Rightarrow>
            if observed_all version (fs_max_insertion_version s) then
              Offset (n + (ft_visible (fs_text s) + ft_deleted (fs_text s)))
            else if observed_any version (fs_min_insertion_version s) then Invalid
            else Offset n
        | Invalid \<Rightarrow> Invalid)\<rparr>"

text \<open>The comparison panics for an invalid target; the targets of the code are offsets.\<close>

definition versioned_target :: "full_offset \<Rightarrow> versioned_full_offset target" where
  "versioned_target n = (\<lambda>loc. case loc of Offset m \<Rightarrow> cmp n m | Invalid \<Rightarrow> Less)"

subsection \<open>Fragments by insertion\<close>

datatype insertion_fragment_key = InsertionFragmentKey (ik_timestamp: lamport) (ik_split_offset: nat)

instantiation insertion_fragment_key :: linorder
begin

definition less_insertion_fragment_key :: "insertion_fragment_key \<Rightarrow> insertion_fragment_key \<Rightarrow> bool" where
  "less_insertion_fragment_key a b \<longleftrightarrow>
     ik_timestamp a < ik_timestamp b \<or> (ik_timestamp a = ik_timestamp b \<and> ik_split_offset a < ik_split_offset b)"

definition less_eq_insertion_fragment_key :: "insertion_fragment_key \<Rightarrow> insertion_fragment_key \<Rightarrow> bool" where
  "less_eq_insertion_fragment_key a b \<longleftrightarrow> a = b \<or> a < b"

instance
proof
  fix x y z :: insertion_fragment_key
  show "x < y \<longleftrightarrow> x \<le> y \<and> \<not> y \<le> x"
    by (auto simp: less_insertion_fragment_key_def less_eq_insertion_fragment_key_def)
  show "x \<le> x"
    by (simp add: less_eq_insertion_fragment_key_def)
  show "x \<le> y \<Longrightarrow> y \<le> z \<Longrightarrow> x \<le> z"
    by (auto simp: less_insertion_fragment_key_def less_eq_insertion_fragment_key_def)
  show "x \<le> y \<Longrightarrow> y \<le> x \<Longrightarrow> x = y"
    by (auto simp: less_insertion_fragment_key_def less_eq_insertion_fragment_key_def)
  show "x \<le> y \<or> y \<le> x"
    by (cases x; cases y) (auto simp: less_insertion_fragment_key_def less_eq_insertion_fragment_key_def)
qed

end

record insertion_fragment =
  if_timestamp :: lamport
  if_split_offset :: nat
  if_fragment_id :: locator

definition insertion_key :: "insertion_fragment \<Rightarrow> insertion_fragment_key" where
  "insertion_key x = InsertionFragmentKey (if_timestamp x) (if_split_offset x)"

definition insertion_ops :: "(insertion_fragment, insertion_fragment_key) item_ops" where
  "insertion_ops =
     \<lparr>szero = InsertionFragmentKey lamport_MIN 0, sadd = (\<lambda>a b. b), ssummary = insertion_key\<rparr>"

definition insertion_dim :: "(insertion_fragment_key, insertion_fragment_key) dim_ops" where
  "insertion_dim = summary_dim insertion_ops"

type_synonym insertion_tree = "(insertion_fragment, insertion_fragment_key) node"
type_synonym insertion_edit = "(insertion_fragment, insertion_fragment_key) edit"

definition insertion_fragment_new :: "fragment \<Rightarrow> insertion_fragment" where
  "insertion_fragment_new f =
     \<lparr>if_timestamp = frag_timestamp f, if_split_offset = frag_offset f, if_fragment_id = frag_id f\<rparr>"

definition insert_new :: "fragment \<Rightarrow> insertion_edit" where
  "insert_new f = Insert (insertion_fragment_new f)"

subsection \<open>Slices of insertions by edit\<close>

text \<open>\<open>InsertionSlice\<close>; the code inlines the two timestamps to save space.\<close>

datatype insertion_slice =
  InsertionSlice (is_edit_id: lamport) (is_insertion_id: lamport) (is_start: nat) (is_end: nat)

definition slice_cmp :: "insertion_slice \<Rightarrow> insertion_slice \<Rightarrow> ordering" where
  "slice_cmp a b =
     then_with (cmp (is_edit_id a) (is_edit_id b))
       (then_with (cmp (is_insertion_id a) (is_insertion_id b))
         (then_with (cmp (is_start a) (is_start b)) (cmp (is_end a) (is_end b))))"

lemma slice_cmp_less:
  "slice_cmp a b = Less \<longleftrightarrow>
     is_edit_id a < is_edit_id b \<or> is_edit_id a = is_edit_id b \<and>
      (is_insertion_id a < is_insertion_id b \<or> is_insertion_id a = is_insertion_id b \<and>
        (is_start a < is_start b \<or> is_start a = is_start b \<and> is_end a < is_end b))"
  by (auto simp: slice_cmp_def then_with_def)

instantiation insertion_slice :: linorder
begin

definition less_insertion_slice :: "insertion_slice \<Rightarrow> insertion_slice \<Rightarrow> bool" where
  "less_insertion_slice a b \<longleftrightarrow> slice_cmp a b = Less"

definition less_eq_insertion_slice :: "insertion_slice \<Rightarrow> insertion_slice \<Rightarrow> bool" where
  "less_eq_insertion_slice a b \<longleftrightarrow> a = b \<or> a < b"

instance
proof
  fix x y z :: insertion_slice
  show "x < y \<longleftrightarrow> x \<le> y \<and> \<not> y \<le> x"
    by (auto simp: less_insertion_slice_def less_eq_insertion_slice_def slice_cmp_less)
  show "x \<le> x"
    by (simp add: less_eq_insertion_slice_def)
  show "x \<le> y \<Longrightarrow> y \<le> z \<Longrightarrow> x \<le> z"
    unfolding less_insertion_slice_def less_eq_insertion_slice_def slice_cmp_less by (elim disjE conjE) auto
  show "x \<le> y \<Longrightarrow> y \<le> x \<Longrightarrow> x = y"
    by (auto simp: less_insertion_slice_def less_eq_insertion_slice_def slice_cmp_less)
  show "x \<le> y \<or> y \<le> x"
    by (cases x; cases y) (auto simp: less_insertion_slice_def less_eq_insertion_slice_def slice_cmp_less)
qed

end

definition slice_from_fragment :: "lamport \<Rightarrow> fragment \<Rightarrow> insertion_slice" where
  "slice_from_fragment edit_id f =
     InsertionSlice edit_id (frag_timestamp f) (frag_offset f) (frag_offset f + frag_len f)"

subsection \<open>The builders\<close>

datatype fragment_chunk = Tree fragment_tree | Loose "fragment list"

record fragment_builder =
  fb_chunks :: "fragment_chunk list"
  fb_summary :: fragment_summary

definition fragment_builder_new :: "fragment_tree \<Rightarrow> fragment_builder" where
  "fragment_builder_new init =
     \<lparr>fb_chunks = (if is_empty init then [] else [Tree init]), fb_summary = node_summary init\<rparr>"

definition fragment_builder_append :: "fragment_builder \<Rightarrow> fragment_tree \<Rightarrow> fragment_builder" where
  "fragment_builder_append b items =
     (if is_empty items then b
      else b\<lparr>fb_summary := fragment_summary_add (fb_summary b) (node_summary items), fb_chunks := fb_chunks b @ [Tree items]\<rparr>)"

definition fragment_builder_push :: "fragment_builder \<Rightarrow> fragment \<Rightarrow> fragment_builder" where
  "fragment_builder_push b f =
     b\<lparr>fb_summary := fragment_summary_add (fb_summary b) (fragment_item_summary f),
       fb_chunks :=
         (case last_opt (fb_chunks b) of
            Some (Loose fs) \<Rightarrow> butlast (fb_chunks b) @ [Loose (fs @ [f])]
          | _ \<Rightarrow> fb_chunks b @ [Loose [f]])\<rparr>"

fun builder_loop :: "fragment_tree \<Rightarrow> fragment_chunk list \<Rightarrow> fragment_tree option" where
  "builder_loop tree [] = Some tree"
| "builder_loop tree (Tree subtree # cs) = do {
     tree \<leftarrow> append_tree fragment_ops tree subtree;
     builder_loop tree cs
   }"
| "builder_loop tree (Loose fs # cs) = do {
     tree \<leftarrow> append_tree fragment_ops tree
       (if length fs > 1024 then from_par_iter fragment_ops fs else from_iter fragment_ops fs);
     builder_loop tree cs
   }"

definition to_sum_tree :: "fragment_builder \<Rightarrow> fragment_tree option" where
  "to_sum_tree b = builder_loop (tree_new fragment_ops) (fb_chunks b)"

record rope_builder =
  rb_old_visible :: rope_cursor
  rb_old_deleted :: rope_cursor
  rb_new_visible :: rope
  rb_new_deleted :: rope

definition rope_builder_new :: "rope_cursor \<Rightarrow> rope_cursor \<Rightarrow> rope_builder" where
  "rope_builder_new v d =
     \<lparr>rb_old_visible = v, rb_old_deleted = d, rb_new_visible = rope_new, rb_new_deleted = rope_new\<rparr>"

definition rope_builder_push :: "rope_builder \<Rightarrow> nat \<Rightarrow> bool \<Rightarrow> bool \<Rightarrow> rope_builder option" where
  "rope_builder_push b n was vis = do {
     (t, b) \<leftarrow> (if was
       then do {
         (t, v) \<leftarrow> rope_cursor_slice (rb_old_visible b) (rc_offset (rb_old_visible b) + n);
         Some (t, b\<lparr>rb_old_visible := v\<rparr>)
       }
       else do {
         (t, d) \<leftarrow> rope_cursor_slice (rb_old_deleted b) (rc_offset (rb_old_deleted b) + n);
         Some (t, b\<lparr>rb_old_deleted := d\<rparr>)
       });
     if vis
     then do { r \<leftarrow> rope_append (rb_new_visible b) t; Some (b\<lparr>rb_new_visible := r\<rparr>) }
     else do { r \<leftarrow> rope_append (rb_new_deleted b) t; Some (b\<lparr>rb_new_deleted := r\<rparr>) }
   }"

definition rope_builder_append :: "rope_builder \<Rightarrow> fragment_text_summary \<Rightarrow> rope_builder option" where
  "rope_builder_append b len = do {
     b \<leftarrow> rope_builder_push b (ft_visible len) True True;
     rope_builder_push b (ft_deleted len) False False
   }"

definition rope_builder_push_fragment :: "rope_builder \<Rightarrow> fragment \<Rightarrow> bool \<Rightarrow> rope_builder option" where
  "rope_builder_push_fragment b f was = rope_builder_push b (frag_len f) was (frag_visible f)"

definition rope_builder_push_str :: "rope_builder \<Rightarrow> str \<Rightarrow> rope_builder option" where
  "rope_builder_push_str b t = do { r \<leftarrow> rope_push (rb_new_visible b) t; Some (b\<lparr>rb_new_visible := r\<rparr>) }"

definition rope_builder_finish :: "rope_builder \<Rightarrow> (rope \<times> rope) option" where
  "rope_builder_finish b = do {
     v_rest \<leftarrow> rope_cursor_suffix (rb_old_visible b);
     v \<leftarrow> rope_append (rb_new_visible b) v_rest;
     d_rest \<leftarrow> rope_cursor_suffix (rb_old_deleted b);
     d \<leftarrow> rope_append (rb_new_deleted b) d_rest;
     Some (v, d)
   }"

end
