(* ===== verification/Line_Ending.thy ===== *)
theory Line_Ending
  imports Utf8_Text Rope
begin

text \<open>
  \<open>LineEnding\<close> and \<open>LineIndent\<close> of \<open>crates/text/src/text.rs\<close>. The regular expression of \<open>normalize\<close>, a carriage return with
  an optional line feed, is the recursion over the bytes; both bytes are characters of their own in UTF-8.
\<close>

subsection \<open>Line endings\<close>

datatype line_ending = Unix | Windows

definition line_ending_as_str :: "line_ending \<Rightarrow> str" where
  "line_ending_as_str l = (case l of Unix \<Rightarrow> [10] | Windows \<Rightarrow> [13, 10])"

text \<open>\<open>native\<close> is \<open>LineEnding::default()\<close>, which depends on the platform.\<close>

definition line_ending_detect :: "line_ending \<Rightarrow> str \<Rightarrow> line_ending" where
  "line_ending_detect native t =
     (let max_ix = back_to_boundary t (min (length t) 1000);
          ix = length (takeWhile (\<lambda>b. b \<noteq> 10) (take max_ix t))
      in if ix < max_ix then (if ix > 0 \<and> t ! (ix - 1) = 13 then Windows else Unix) else native)"

fun normalize :: "str \<Rightarrow> str" where
  "normalize [] = []"
| "normalize (b # bs) =
     (if b = 13 then 10 # (case bs of [] \<Rightarrow> [] | c # cs \<Rightarrow> if c = 10 then normalize cs else normalize bs)
      else b # normalize bs)"

lemma normalize_no_cr: "13 \<notin> set (normalize t)"
  by (induction t rule: normalize.induct) (auto split: list.splits)

lemma normalize_id: "13 \<notin> set t \<Longrightarrow> normalize t = t"
  by (induction t) auto

lemma normalize_idem [simp]: "normalize (normalize t) = normalize t"
  by (rule normalize_id) (rule normalize_no_cr)

lemma char_13:
  assumes "char_ok c" "13 \<in> set c"
  shows "c = [13]"
proof (cases c)
  case (Cons h r)
  have "13 \<notin> set r" using assms(1) Cons by (auto simp: char_ok_def boundary_iff)
  then have "h = 13" using assms(2) Cons by simp
  then show ?thesis using assms(1) Cons by (simp add: char_ok_def char_len_def)
qed (use assms(2) in simp)

lemma normalize_append: "13 \<notin> set a \<Longrightarrow> normalize (a @ b) = a @ normalize b"
  by (induction a) auto

lemma normalize_utf8: "utf8_ok t \<Longrightarrow> utf8_ok (normalize t)"
proof (induction t rule: length_induct)
  case (1 t)
  show ?case
  proof (cases rule: utf8_cases [OF 1(2)])
    case 1
    then show ?thesis by simp
  next
    case (2 c u)
    have nl: "utf8_ok (10 # w)" if "utf8_ok w" for w using utf8_ok_char [OF char_ok_newline] that by (metis append_Cons append_Nil)
    show ?thesis
    proof (cases "13 \<in> set c")
      case False
      then have "normalize t = c @ normalize u" using 2 by (simp add: normalize_append)
      moreover have "utf8_ok (normalize u)" using 1 2 by (auto simp: char_ok_def)
      ultimately show ?thesis using utf8_ok_char [OF 2(2)] by simp
    next
      case True
      then have t: "t = 13 # u" using char_13 [OF 2(2)] 2(1) by simp
      show ?thesis
      proof (cases "\<exists>w. u = 10 # w")
        case True
        then obtain w where w: "u = 10 # w" by blast
        have "utf8_ok w"
          using 2(3) w utf8_newline_cut [of "[]" w] by simp
        then show ?thesis using 1 t w nl by simp
      next
        case False
        then have "normalize t = 10 # normalize u" using t by (auto split: list.splits)
        then show ?thesis using 1 t 2(3) nl by simp
      qed
    qed
  qed
qed

subsection \<open>Indentation\<close>

record line_indent =
  li_tabs :: nat
  li_spaces :: nat
  li_line_blank :: bool

definition line_indent_spaces :: "nat \<Rightarrow> line_indent" where
  "line_indent_spaces n = \<lparr>li_tabs = 0, li_spaces = n, li_line_blank = True\<rparr>"

definition line_indent_tabs :: "nat \<Rightarrow> line_indent" where
  "line_indent_tabs n = \<lparr>li_tabs = n, li_spaces = 0, li_line_blank = True\<rparr>"

definition is_line_empty :: "line_indent \<Rightarrow> bool" where
  "is_line_empty i \<longleftrightarrow> li_tabs i = 0 \<and> li_spaces i = 0 \<and> li_line_blank i"

definition is_line_blank :: "line_indent \<Rightarrow> bool" where
  "is_line_blank i = li_line_blank i"

definition line_indent_raw_len :: "line_indent \<Rightarrow> nat" where
  "line_indent_raw_len i = li_tabs i + li_spaces i"

definition line_indent_len :: "line_indent \<Rightarrow> nat \<Rightarrow> nat" where
  "line_indent_len i tab_size = li_tabs i * tab_size + li_spaces i"

text \<open>\<open>FromIterator<char>\<close>: the loop stops at the first character that is neither a tab nor a space.\<close>

fun line_indent_loop :: "str \<Rightarrow> nat \<Rightarrow> nat \<Rightarrow> line_indent" where
  "line_indent_loop [] tabs spaces = \<lparr>li_tabs = tabs, li_spaces = spaces, li_line_blank = True\<rparr>"
| "line_indent_loop (c # cs) tabs spaces =
     (if c = 9 then line_indent_loop cs (tabs + 1) spaces
      else if c = 32 then line_indent_loop cs tabs (spaces + 1)
      else \<lparr>li_tabs = tabs, li_spaces = spaces, li_line_blank = (c = 10)\<rparr>)"

definition line_indent_from_str :: "str \<Rightarrow> line_indent" where
  "line_indent_from_str t = line_indent_loop t 0 0"

end
