(* ===== verification/Buffer_Snapshot.thy ===== *)
theory Buffer_Snapshot
  imports Fragment Line_Ending Patch
begin

text \<open>
  \<open>BufferSnapshot\<close> of \<open>crates/text/src/text.rs\<close> and the two ways an edit changes it: \<open>apply_edit_internal\<close> for an edit
  made here and \<open>apply_remote_edit\<close> for one that another replica sends. Both walk the fragments with a cursor, cut the
  fragment at the start of every range, insert the new text, mark what the range covers as deleted, and rebuild
  the two ropes and the indexes from what they passed. The local variables of the two functions are the fields of
  \<open>edit_state\<close>; the dimension of its cursor is a parameter, and \<open>loc\<close> reads the offset that the function compares with its
  ranges, \<open>visible\<close> here and \<open>full_offset()\<close> there.
\<close>

subsection \<open>Snapshots\<close>

record buffer_snapshot =
  visible_text :: rope
  deleted_text :: rope
  fragments :: fragment_tree
  insertions :: insertion_tree
  insertion_slices :: "insertion_slice tree_set"
  undo_map :: undo_map
  snapshot_version :: global
  snapshot_remote_id :: u64
  snapshot_replica_id :: replica_id
  snapshot_line_ending :: line_ending

subsection \<open>The state of an edit\<close>

record 'd edit_state =
  es_old_fragments :: "(fragment, fragment_summary, 'd) cursor"
  es_new_fragments :: fragment_builder
  es_new_ropes :: rope_builder
  es_new_insertions :: "insertion_edit list"
  es_insertion_slices :: "insertion_slice list"
  es_insertion_offset :: nat
  es_fragment_start :: nat
  es_edits_patch :: patch

text \<open>\<open>item().unwrap()\<close>\<close>

definition unwrap_item :: "('t, 's, 'd) cursor \<Rightarrow> 't option" where
  "unwrap_item c = (case cursor_item c of Some (Some x) \<Rightarrow> Some x | _ \<Rightarrow> None)"

definition loc_start :: "('d \<Rightarrow> nat option) \<Rightarrow> 'd edit_state \<Rightarrow> nat option" where
  "loc_start loc st = loc (cursor_start (es_old_fragments st))"

definition loc_end :: "(fragment_summary, 'd) dim_ops \<Rightarrow> ('d \<Rightarrow> nat option) \<Rightarrow> 'd edit_state \<Rightarrow> nat option" where
  "loc_end D loc st = do { e \<leftarrow> cursor_end D (es_old_fragments st); loc e }"

text \<open>The part of a fragment from \<open>a\<close> to \<open>b\<close>, where \<open>s\<close> is the offset of its first byte.\<close>

definition cut_fragment :: "fragment \<Rightarrow> nat \<Rightarrow> nat \<Rightarrow> nat \<Rightarrow> fragment" where
  "cut_fragment f s a b = f\<lparr>frag_len := b - a, frag_offset := frag_offset f + (a - s)\<rparr>"

text \<open>\<open>new_insertions.push\<close>, \<open>new_ropes.push_fragment\<close> and \<open>new_fragments.push\<close>, which always come together.\<close>

definition push_piece :: "'d edit_state \<Rightarrow> fragment \<Rightarrow> bool \<Rightarrow> 'd edit_state option" where
  "push_piece st f was = do {
     ropes \<leftarrow> rope_builder_push_fragment (es_new_ropes st) f was;
     Some (st\<lparr>es_new_insertions := es_new_insertions st @ [insert_new f], es_new_ropes := ropes,
       es_new_fragments := fragment_builder_push (es_new_fragments st) f\<rparr>)
   }"

text \<open>Consume the rest of a fragment that has been partially consumed, and advance.\<close>

definition finish_fragment ::
  "(fragment_summary, 'd) dim_ops \<Rightarrow> ('d \<Rightarrow> nat option) \<Rightarrow> 'd edit_state \<Rightarrow> 'd edit_state option" where
  "finish_fragment D loc st = do {
     s \<leftarrow> loc_start loc st;
     if es_fragment_start st > s then do {
       e \<leftarrow> loc_end D loc st;
       st \<leftarrow> (if e > es_fragment_start st then do {
           f \<leftarrow> unwrap_item (es_old_fragments st);
           push_piece st (cut_fragment f s (es_fragment_start st) e) (frag_visible f)
         } else Some st);
       c \<leftarrow> cursor_next D (es_old_fragments st);
       Some (st\<lparr>es_old_fragments := c\<rparr>)
     } else Some st
   }"

text \<open>Reuse the fragments up to the next range as they are.\<close>

definition append_slice :: "'d edit_state \<Rightarrow> fragment_tree \<Rightarrow> 'd edit_state option" where
  "append_slice st sl = do {
     ropes \<leftarrow> rope_builder_append (es_new_ropes st) (fs_text (node_summary sl));
     Some (st\<lparr>es_new_ropes := ropes, es_new_fragments := fragment_builder_append (es_new_fragments st) sl\<rparr>)
   }"

definition advance_to ::
  "(fragment_summary, 'd) dim_ops \<Rightarrow> ('d \<Rightarrow> nat option) \<Rightarrow> 'd target \<Rightarrow> bias \<Rightarrow> 'd edit_state \<Rightarrow> 'd edit_state option" where
  "advance_to D loc target bias st = do {
     (sl, c) \<leftarrow> cursor_slice fragment_ops D target bias (es_old_fragments st);
     st \<leftarrow> append_slice (st\<lparr>es_old_fragments := c\<rparr>) sl;
     s \<leftarrow> loc_start loc st;
     Some (st\<lparr>es_fragment_start := s\<rparr>)
   }"

text \<open>The last fragment id in the builder, \<open>new_fragments.summary().max_id\<close>, and the visible length so far.\<close>

definition new_max_id :: "'d edit_state \<Rightarrow> locator" where
  "new_max_id st = fs_max_id (fb_summary (es_new_fragments st))"

definition new_visible_len :: "'d edit_state \<Rightarrow> nat" where
  "new_visible_len st = ft_visible (fs_text (fb_summary (es_new_fragments st)))"

text \<open>Preserve the portion of the current fragment that precedes the range.\<close>

definition push_prefix :: "('d \<Rightarrow> nat option) \<Rightarrow> nat \<Rightarrow> 'd edit_state \<Rightarrow> 'd edit_state option" where
  "push_prefix loc range_start st =
     (if es_fragment_start st < range_start then do {
        f \<leftarrow> unwrap_item (es_old_fragments st);
        s \<leftarrow> loc_start loc st;
        let prefix = cut_fragment f s (es_fragment_start st) range_start;
        let prefix = prefix\<lparr>frag_id := between (new_max_id st) (frag_id f)\<rparr>;
        push_piece (st\<lparr>es_fragment_start := range_start\<rparr>) prefix (frag_visible f)
      } else Some st)"

subsection \<open>Insertions\<close>

text \<open>
  \<open>push_fragments_for_insertion\<close> cuts long texts into fragments of at most \<open>max_len\<close> bytes, the constant
  \<open>MAX_INSERTION_LEN\<close>: \<open>u32::MAX\<close>, and 16 in tests. The loop gives up when a piece would be empty; the end of a
  piece never lies below its start, so this is the test of the model.
\<close>

function insertion_loop ::
  "nat \<Rightarrow> lamport \<Rightarrow> lamport \<Rightarrow> locator \<Rightarrow> str \<Rightarrow> nat \<Rightarrow> 'd edit_state \<Rightarrow> 'd edit_state" where
  "insertion_loop max_len timestamp edit_ts next_id t text_offset st =
     (if text_offset < length t then
        let target_end = min (length t) (text_offset + max_len);
            chunk_end = (if target_end = length t then target_end else str_floor_char_boundary t target_end)
        in if chunk_end \<le> text_offset then st
           else
             let f = \<lparr>frag_id = between (new_max_id st) next_id, frag_timestamp = timestamp,
                   frag_offset = es_insertion_offset st, frag_len = chunk_end - text_offset, frag_visible = True,
                   frag_deletions = [], frag_max_undos = global_new\<rparr>
             in insertion_loop max_len timestamp edit_ts next_id t chunk_end
                  (st\<lparr>es_insertion_slices := es_insertion_slices st @ [slice_from_fragment edit_ts f],
                     es_new_insertions := es_new_insertions st @ [insert_new f],
                     es_new_fragments := fragment_builder_push (es_new_fragments st) f,
                     es_insertion_offset := es_insertion_offset st + (chunk_end - text_offset)\<rparr>)
      else st)"
  by pat_completeness auto

termination
  by (relation "measure (\<lambda>(max_len, timestamp, edit_ts, next_id, t, text_offset, st). length t - text_offset)") auto

declare insertion_loop.simps [simp del]

definition push_fragments_for_insertion ::
  "nat \<Rightarrow> str \<Rightarrow> lamport \<Rightarrow> locator \<Rightarrow> lamport \<Rightarrow> 'd edit_state \<Rightarrow> 'd edit_state option" where
  "push_fragments_for_insertion max_len new_text timestamp next_id edit_ts st = do {
     let st = insertion_loop max_len timestamp edit_ts next_id new_text 0 st;
     ropes \<leftarrow> rope_builder_push_str (es_new_ropes st) new_text;
     Some (st\<lparr>es_new_ropes := ropes\<rparr>)
   }"

definition push_edit :: "'d edit_state \<Rightarrow> nat \<Rightarrow> nat \<Rightarrow> nat \<Rightarrow> nat \<Rightarrow> 'd edit_state" where
  "push_edit st a b c d = st\<lparr>es_edits_patch := patch_push (es_edits_patch st) (mk_edit a b c d)\<rparr>"

text \<open>The id of the fragment in front of which the new text goes.\<close>

definition next_fragment_id :: "'d edit_state \<Rightarrow> locator option" where
  "next_fragment_id st =
     map_option (\<lambda>item. case item of None \<Rightarrow> locator_max | Some f \<Rightarrow> frag_id f) (cursor_item (es_old_fragments st))"

subsection \<open>Deletions\<close>

text \<open>\<open>while fragment_start < range.end\<close> with the body \<open>step\<close>\<close>

partial_function (option) delete_loop ::
  "('d edit_state \<Rightarrow> 'd edit_state option) \<Rightarrow> nat \<Rightarrow> 'd edit_state \<Rightarrow> 'd edit_state option" where
  "delete_loop step range_end st =
     (if es_fragment_start st < range_end then do { st \<leftarrow> step st; delete_loop step range_end st } else Some st)"

text \<open>The end of the body: push the intersection unless it is empty, and leave the fragment when the range covers its end.\<close>

definition push_intersection ::
  "(fragment_summary, 'd) dim_ops \<Rightarrow> nat \<Rightarrow> nat \<Rightarrow> nat \<Rightarrow> fragment \<Rightarrow> bool \<Rightarrow> 'd edit_state \<Rightarrow> 'd edit_state option" where
  "push_intersection D range_end fragment_end intersection_end g was st = do {
     st \<leftarrow> (if frag_len g > 0 then do {
         st \<leftarrow> push_piece st g was;
         Some (st\<lparr>es_fragment_start := intersection_end\<rparr>)
       } else Some st);
     if fragment_end \<le> range_end then do {
       c \<leftarrow> cursor_next D (es_old_fragments st);
       Some (st\<lparr>es_old_fragments := c\<rparr>)
     } else Some st
   }"

subsection \<open>\<open>apply_edit_internal\<close>\<close>

definition visible_loc :: "fragment_text_summary \<Rightarrow> nat option" where
  "visible_loc d = Some (ft_visible d)"

definition delete_step :: "lamport \<Rightarrow> nat \<Rightarrow> fragment_text_summary edit_state \<Rightarrow> fragment_text_summary edit_state option" where
  "delete_step timestamp range_end st = do {
     f \<leftarrow> unwrap_item (es_old_fragments st);
     fragment_end \<leftarrow> loc_end fragment_text_dim visible_loc st;
     s \<leftarrow> loc_start visible_loc st;
     let intersection_end = min range_end fragment_end;
     let g = (if frag_visible f
       then (cut_fragment f s (es_fragment_start st) intersection_end)\<lparr>frag_id := between (new_max_id st) (frag_id f),
         frag_deletions := frag_deletions f @ [timestamp], frag_visible := False\<rparr>
       else f);
     let st = (if frag_len g > 0 \<and> frag_visible f \<and> \<not> frag_visible g
       then (push_edit st (es_fragment_start st) intersection_end (new_visible_len st) (new_visible_len st))
         \<lparr>es_insertion_slices := es_insertion_slices st @ [slice_from_fragment timestamp g]\<rparr>
       else st);
     push_intersection fragment_text_dim range_end fragment_end intersection_end g (frag_visible f) st
   }"

type_synonym text_edit = "(nat \<times> nat) \<times> str"

definition edit_range ::
  "nat \<Rightarrow> lamport \<Rightarrow> text_edit \<Rightarrow> fragment_text_summary edit_state
     \<Rightarrow> (((full_offset \<times> full_offset) \<times> str) \<times> fragment_text_summary edit_state) option" where
  "edit_range max_len timestamp edit st = do {
     let ((range_start, range_end), new_text) = edit;
     let new_text = normalize new_text;
     fragment_end \<leftarrow> loc_end fragment_text_dim visible_loc st;
     st \<leftarrow> (if fragment_end < range_start then do {
         st \<leftarrow> finish_fragment fragment_text_dim visible_loc st;
         advance_to fragment_text_dim visible_loc (visible_target range_start) Right st
       } else Some st);
     let full_range_start = range_start + ft_deleted (cursor_start (es_old_fragments st));
     st \<leftarrow> push_prefix visible_loc range_start st;
     st \<leftarrow> (if new_text \<noteq> [] then do {
         let new_start = new_visible_len st;
         next_id \<leftarrow> next_fragment_id st;
         st \<leftarrow> push_fragments_for_insertion max_len new_text timestamp next_id timestamp st;
         Some (push_edit st (es_fragment_start st) (es_fragment_start st) new_start (new_start + length new_text))
       } else Some st);
     st \<leftarrow> delete_loop (delete_step timestamp range_end) range_end st;
     let full_range_end = range_end + ft_deleted (cursor_start (es_old_fragments st));
     Some (((full_range_start, full_range_end), new_text), st)
   }"

fun edit_ranges_loop ::
  "nat \<Rightarrow> lamport \<Rightarrow> text_edit list \<Rightarrow> fragment_text_summary edit_state
     \<Rightarrow> (((full_offset \<times> full_offset) \<times> str) list \<times> fragment_text_summary edit_state) option" where
  "edit_ranges_loop max_len timestamp [] st = Some ([], st)"
| "edit_ranges_loop max_len timestamp (e # es) st = do {
     (r, st) \<leftarrow> edit_range max_len timestamp e st;
     (rs, st) \<leftarrow> edit_ranges_loop max_len timestamp es st;
     Some (r # rs, st)
   }"

text \<open>The state in front of the loop, with the cursor and the fragments in front of the first range.\<close>

definition start_edit ::
  "buffer_snapshot \<Rightarrow> (fragment_summary, 'd) dim_ops \<Rightarrow> ('d \<Rightarrow> nat option) \<Rightarrow> 'd target \<Rightarrow> bias \<Rightarrow> 'd edit_state option" where
  "start_edit s D loc target bias = do {
     v \<leftarrow> rope_cursor_new (visible_text s) 0;
     d \<leftarrow> rope_cursor_new (deleted_text s) 0;
     (sl, c) \<leftarrow> cursor_slice fragment_ops D target bias (cursor_new D (fragments s));
     let new_fragments = fragment_builder_new sl;
     ropes \<leftarrow> rope_builder_append (rope_builder_new v d) (fs_text (fb_summary new_fragments));
     start \<leftarrow> loc (cursor_start c);
     Some \<lparr>es_old_fragments = c, es_new_fragments = new_fragments, es_new_ropes = ropes, es_new_insertions = [],
       es_insertion_slices = [], es_insertion_offset = 0, es_fragment_start = start, es_edits_patch = patch_empty\<rparr>
   }"

text \<open>The end of both functions: the rest of the fragments is kept, and the snapshot takes over what was built.\<close>

definition finish_edit ::
  "buffer_snapshot \<Rightarrow> (fragment_summary, 'd) dim_ops \<Rightarrow> ('d \<Rightarrow> nat option) \<Rightarrow> 'd edit_state
     \<Rightarrow> (buffer_snapshot \<times> patch) option" where
  "finish_edit s D loc st = do {
     st \<leftarrow> finish_fragment D loc st;
     (suffix, c) \<leftarrow> cursor_suffix fragment_ops D (es_old_fragments st);
     st \<leftarrow> append_slice st suffix;
     (visible, deleted) \<leftarrow> rope_builder_finish (es_new_ropes st);
     new_fragments \<leftarrow> to_sum_tree (es_new_fragments st);
     (new_insertions, _) \<leftarrow> edit_tree insertion_ops insertion_dim insertion_key (insertions s) (es_new_insertions st);
     new_slices \<leftarrow> set_extend (insertion_slices s) (es_insertion_slices st);
     Some (s\<lparr>fragments := new_fragments, visible_text := visible, deleted_text := deleted,
        insertions := new_insertions, insertion_slices := new_slices\<rparr>, es_edits_patch st)
   }"

definition apply_edit_internal ::
  "nat \<Rightarrow> buffer_snapshot \<Rightarrow> text_edit list \<Rightarrow> lamport \<Rightarrow> (buffer_snapshot \<times> edit_operation \<times> patch) option" where
  "apply_edit_internal max_len s edits timestamp =
     (if edits = [] then
        Some (s, \<lparr>edit_timestamp = timestamp, edit_version = snapshot_version s, edit_ranges = [], edit_new_text = []\<rparr>, patch_empty)
      else do {
        st \<leftarrow> start_edit s fragment_text_dim visible_loc (visible_target (fst (fst (hd edits)))) Right;
        (ranges, st) \<leftarrow> edit_ranges_loop max_len timestamp edits st;
        (s', edits_patch) \<leftarrow> finish_edit s fragment_text_dim visible_loc st;
        Some (s', \<lparr>edit_timestamp = timestamp, edit_version = snapshot_version s, edit_ranges = map fst ranges,
          edit_new_text = map snd ranges\<rparr>, edits_patch)
      })"

end
