(* ===== verification/Buffer_Remote.thy ===== *)
theory Buffer_Remote
  imports Buffer_Snapshot Text_Operation "HOL-Library.Product_Lexorder"
begin

text \<open>
  The changes of a snapshot in \<open>crates/text/src/text.rs\<close> that do not start from an edit made here: \<open>apply_remote_edit\<close>, whose
  ranges are full offsets at the version of the operation, and \<open>apply_undo\<close>, which finds the fragments of the edits
  whose undo counts changed and computes their visibility anew. The actions that \<open>apply_remote_edit\<close> shares with
  \<open>apply_edit_internal\<close> are those of \<open>Buffer_Snapshot\<close>. Both functions are methods of \<open>Buffer\<close>; here they return the new
  snapshot and the patch that the method publishes.
\<close>

subsection \<open>\<open>apply_remote_edit\<close>\<close>

type_synonym remote_position = "versioned_full_offset \<times> nat \<times> unit"

definition remote_dim :: "global \<Rightarrow> (fragment_summary, remote_position) dim_ops" where
  "remote_dim version = dimensions (versioned_dim version) visible_dim unit_dim"

definition remote_loc :: "remote_position \<Rightarrow> nat option" where
  "remote_loc d = versioned_offset (fst d)"

definition remote_target :: "full_offset \<Rightarrow> remote_position target" where
  "remote_target n = first_target (versioned_target n)"

text \<open>The second part of the cursor's start, the visible bytes in front of the current fragment.\<close>

definition visible_start :: "remote_position edit_state \<Rightarrow> nat" where
  "visible_start st = fst (snd (cursor_start (es_old_fragments st)))"

text \<open>At the end of a fragment that is not concurrent, go on to the next one.\<close>

definition leave_ended :: "global \<Rightarrow> full_offset \<Rightarrow> remote_position edit_state \<Rightarrow> remote_position edit_state option" where
  "leave_ended version range_start st = do {
     fragment_end \<leftarrow> loc_end (remote_dim version) remote_loc st;
     if fragment_end = range_start \<and> fragment_end > es_fragment_start st then do {
       f \<leftarrow> unwrap_item (es_old_fragments st);
       s \<leftarrow> loc_start remote_loc st;
       st \<leftarrow> push_piece st (cut_fragment f s (es_fragment_start st) fragment_end) (frag_visible f);
       c \<leftarrow> cursor_next (remote_dim version) (es_old_fragments st);
       let st = st\<lparr>es_old_fragments := c\<rparr>;
       s \<leftarrow> loc_start remote_loc st;
       Some (st\<lparr>es_fragment_start := s\<rparr>)
     } else Some st
   }"

text \<open>Skip over insertions that are concurrent to the edit and have a higher timestamp.\<close>

partial_function (option) skip_concurrent ::
  "global \<Rightarrow> full_offset \<Rightarrow> lamport \<Rightarrow> remote_position edit_state \<Rightarrow> remote_position edit_state option" where
  "skip_concurrent version range_start timestamp st = do {
     item \<leftarrow> cursor_item (es_old_fragments st);
     case item of
       None \<Rightarrow> Some st
     | Some f \<Rightarrow>
         if es_fragment_start st = range_start \<and> frag_timestamp f > timestamp then do {
           ropes \<leftarrow> rope_builder_push_fragment (es_new_ropes st) f (frag_visible f);
           c \<leftarrow> cursor_next (remote_dim version) (es_old_fragments st);
           skip_concurrent version range_start timestamp
             (st\<lparr>es_new_ropes := ropes, es_new_fragments := fragment_builder_push (es_new_fragments st) f, es_old_fragments := c\<rparr>)
         } else Some st
   }"

definition remote_insert ::
  "nat \<Rightarrow> lamport \<Rightarrow> str \<Rightarrow> remote_position edit_state \<Rightarrow> remote_position edit_state option" where
  "remote_insert max_len timestamp new_text st =
     (if new_text \<noteq> [] then do {
        item \<leftarrow> cursor_item (es_old_fragments st);
        s \<leftarrow> loc_start remote_loc st;
        let old_start = visible_start st +
          (case item of Some f \<Rightarrow> if frag_visible f then es_fragment_start st - s else 0 | None \<Rightarrow> 0);
        let new_start = new_visible_len st;
        next_id \<leftarrow> next_fragment_id st;
        st \<leftarrow> push_fragments_for_insertion max_len new_text timestamp next_id timestamp st;
        Some (push_edit st old_start old_start new_start (new_start + length new_text))
      } else Some st)"

definition remote_delete_step ::
  "global \<Rightarrow> undo_map \<Rightarrow> lamport \<Rightarrow> full_offset \<Rightarrow> remote_position edit_state \<Rightarrow> remote_position edit_state option" where
  "remote_delete_step version undos timestamp range_end st = do {
     f \<leftarrow> unwrap_item (es_old_fragments st);
     fragment_end \<leftarrow> loc_end (remote_dim version) remote_loc st;
     s \<leftarrow> loc_start remote_loc st;
     let intersection_end = min range_end fragment_end;
     (g, st) \<leftarrow> (if observed version (frag_timestamp f) then do {
         let g = (cut_fragment f s (es_fragment_start st) intersection_end)\<lparr>frag_id := between (new_max_id st) (frag_id f)\<rparr>;
         was \<leftarrow> was_visible f version undos;
         Some (if was then
             let g = g\<lparr>frag_deletions := frag_deletions g @ [timestamp], frag_visible := False\<rparr>
             in (g, st\<lparr>es_insertion_slices := es_insertion_slices st @ [slice_from_fragment timestamp g]\<rparr>)
           else (g, st))
       } else Some (f, st));
     let st = (if frag_len g > 0 \<and> frag_visible f \<and> \<not> frag_visible g
       then
         let old_start = visible_start st + (es_fragment_start st - s)
         in push_edit st old_start (old_start + frag_len g) (new_visible_len st) (new_visible_len st)
       else st);
     push_intersection (remote_dim version) range_end fragment_end intersection_end g (frag_visible f) st
   }"

definition remote_range ::
  "nat \<Rightarrow> global \<Rightarrow> undo_map \<Rightarrow> lamport \<Rightarrow> (full_offset \<times> full_offset) \<times> str \<Rightarrow> remote_position edit_state
     \<Rightarrow> remote_position edit_state option" where
  "remote_range max_len version undos timestamp edit st = do {
     let ((range_start, range_end), new_text) = edit;
     fragment_end \<leftarrow> loc_end (remote_dim version) remote_loc st;
     st \<leftarrow> (if fragment_end < range_start then do {
         st \<leftarrow> finish_fragment (remote_dim version) remote_loc st;
         advance_to (remote_dim version) remote_loc (remote_target range_start) Left st
       } else Some st);
     st \<leftarrow> leave_ended version range_start st;
     st \<leftarrow> skip_concurrent version range_start timestamp st;
     st \<leftarrow> push_prefix remote_loc range_start st;
     st \<leftarrow> remote_insert max_len timestamp new_text st;
     delete_loop (remote_delete_step version undos timestamp range_end) range_end st
   }"

fun remote_ranges_loop ::
  "nat \<Rightarrow> global \<Rightarrow> undo_map \<Rightarrow> lamport \<Rightarrow> ((full_offset \<times> full_offset) \<times> str) list \<Rightarrow> remote_position edit_state
     \<Rightarrow> remote_position edit_state option" where
  "remote_ranges_loop max_len version undos timestamp [] st = Some st"
| "remote_ranges_loop max_len version undos timestamp (e # es) st = do {
     st \<leftarrow> remote_range max_len version undos timestamp e st;
     remote_ranges_loop max_len version undos timestamp es st
   }"

definition apply_remote_edit ::
  "nat \<Rightarrow> buffer_snapshot \<Rightarrow> global \<Rightarrow> (full_offset \<times> full_offset) list \<Rightarrow> str list \<Rightarrow> lamport
     \<Rightarrow> (buffer_snapshot \<times> patch) option" where
  "apply_remote_edit max_len s version ranges new_text timestamp =
     (if ranges = [] then Some (s, patch_empty)
      else do {
        st \<leftarrow> start_edit s (remote_dim version) remote_loc (remote_target (fst (hd ranges))) Left;
        st \<leftarrow> remote_ranges_loop max_len version (undo_map s) timestamp (zip ranges new_text) st;
        finish_edit s (remote_dim version) remote_loc st
      })"

subsection \<open>The fragments of some edits\<close>

text \<open>The slices that an edit touched, \<open>iter_from\<close> and \<open>take_while\<close>; the fuel is one more than the slices there are.\<close>

definition slices_of_edit :: "buffer_snapshot \<Rightarrow> lamport \<Rightarrow> insertion_slice list option" where
  "slices_of_edit s edit_id =
     map_option (takeWhile (\<lambda>x. is_edit_id x = edit_id))
       (set_iter_from_run (length (tree_items (insertion_slices s)) + 1) (insertion_slices s)
         (InsertionSlice edit_id lamport_MIN 0 0))"

fun slices_of_edits :: "buffer_snapshot \<Rightarrow> lamport list \<Rightarrow> insertion_slice list option" where
  "slices_of_edits s [] = Some []"
| "slices_of_edits s (e # es) = do { x \<leftarrow> slices_of_edit s e; xs \<leftarrow> slices_of_edits s es; Some (x @ xs) }"

text \<open>
  \<open>sort_unstable_by_key\<close> with the key of the insertion, the start, and the end in reverse; what follows depends on nothing
  else of a slice.
\<close>

definition slice_sort_key :: "insertion_slice \<Rightarrow> lamport \<times> nat \<times> int" where
  "slice_sort_key x = (is_insertion_id x, is_start x, - int (is_end x))"

type_synonym insertion_cursor = "(insertion_fragment, insertion_fragment_key, insertion_fragment_key) cursor"

partial_function (option) collect_ids ::
  "insertion_slice \<Rightarrow> insertion_cursor \<Rightarrow> locator list \<Rightarrow> (insertion_cursor \<times> locator list) option" where
  "collect_ids x c ids = do {
     item \<leftarrow> cursor_item c;
     case item of
       None \<Rightarrow> Some (c, ids)
     | Some i \<Rightarrow>
         if if_timestamp i \<noteq> is_insertion_id x \<or> if_split_offset i \<ge> is_end x then Some (c, ids)
         else do { c \<leftarrow> cursor_next insertion_dim c; collect_ids x c (ids @ [if_fragment_id i]) }
   }"

fun slices_loop :: "insertion_slice list \<Rightarrow> insertion_cursor \<Rightarrow> locator list \<Rightarrow> locator list option" where
  "slices_loop [] c ids = Some ids"
| "slices_loop (x # xs) c ids = do {
     c \<leftarrow> (if is_insertion_id x \<noteq> ik_timestamp (cursor_start c) \<or> is_start x > ik_split_offset (cursor_start c) then
         map_option snd
           (cursor_seek_forward insertion_dim (ord_target (InsertionFragmentKey (is_insertion_id x) (is_start x))) Left c)
       else Some c);
     (c, ids) \<leftarrow> collect_ids x c ids;
     slices_loop xs c ids
   }"

definition fragment_ids_for_edits :: "buffer_snapshot \<Rightarrow> lamport list \<Rightarrow> locator list option" where
  "fragment_ids_for_edits s edit_ids = do {
     slices \<leftarrow> slices_of_edits s edit_ids;
     ids \<leftarrow> slices_loop (sort_key slice_sort_key slices) (cursor_new insertion_dim (insertions s)) [];
     Some (sort ids)
   }"

subsection \<open>\<open>apply_undo\<close>\<close>

type_synonym undo_position = "locator option \<times> nat \<times> unit"

definition undo_position_dim :: "(fragment_summary, undo_position) dim_ops" where
  "undo_position_dim = dimensions fragment_id_dim visible_dim unit_dim"

definition fragment_id_target :: "locator \<Rightarrow> undo_position target" where
  "fragment_id_target l = first_target (ord_target (Some l))"

record undo_state =
  us_old_fragments :: "(fragment, fragment_summary, undo_position) cursor"
  us_new_fragments :: fragment_tree
  us_new_ropes :: rope_builder
  us_edits :: patch

definition undo_append :: "undo_state \<Rightarrow> fragment_tree \<Rightarrow> undo_state option" where
  "undo_append st sl = do {
     ropes \<leftarrow> rope_builder_append (us_new_ropes st) (fs_text (node_summary sl));
     fragments \<leftarrow> append_tree fragment_ops (us_new_fragments st) sl;
     Some (st\<lparr>us_new_ropes := ropes, us_new_fragments := fragments\<rparr>)
   }"

definition undo_fragment :: "undo_map \<Rightarrow> lamport \<Rightarrow> fragment \<Rightarrow> undo_state \<Rightarrow> undo_state option" where
  "undo_fragment undos timestamp f st = do {
     vis \<leftarrow> is_visible f undos;
     let g = f\<lparr>frag_visible := vis, frag_max_undos := observe (frag_max_undos f) timestamp\<rparr>;
     let old_start = fst (snd (cursor_start (us_old_fragments st)));
     let new_start = ft_visible (fs_text (node_summary (us_new_fragments st)));
     let edits =
       (if frag_visible f \<and> \<not> vis then
          patch_push (us_edits st) (mk_edit old_start (old_start + frag_len g) new_start new_start)
        else if \<not> frag_visible f \<and> vis then
          patch_push (us_edits st) (mk_edit old_start old_start new_start (new_start + frag_len g))
        else us_edits st);
     ropes \<leftarrow> rope_builder_push_fragment (us_new_ropes st) g (frag_visible f);
     fragments \<leftarrow> push fragment_ops (us_new_fragments st) g;
     c \<leftarrow> cursor_next undo_position_dim (us_old_fragments st);
     Some (st\<lparr>us_edits := edits, us_new_ropes := ropes, us_new_fragments := fragments, us_old_fragments := c\<rparr>)
   }"

fun undo_ids_loop :: "undo_map \<Rightarrow> lamport \<Rightarrow> locator list \<Rightarrow> undo_state \<Rightarrow> undo_state option" where
  "undo_ids_loop undos timestamp [] st = Some st"
| "undo_ids_loop undos timestamp (l # ls) st = do {
     (sl, c) \<leftarrow> cursor_slice fragment_ops undo_position_dim (fragment_id_target l) Left (us_old_fragments st);
     st \<leftarrow> undo_append (st\<lparr>us_old_fragments := c\<rparr>) sl;
     item \<leftarrow> cursor_item (us_old_fragments st);
     st \<leftarrow> (case item of None \<Rightarrow> Some st | Some f \<Rightarrow> undo_fragment undos timestamp f st);
     undo_ids_loop undos timestamp ls st
   }"

definition apply_undo :: "buffer_snapshot \<Rightarrow> undo_operation \<Rightarrow> (buffer_snapshot \<times> patch) option" where
  "apply_undo s undo = do {
     undos \<leftarrow> undo_insert (undo_map s) undo;
     let s = s\<lparr>undo_map := undos\<rparr>;
     v \<leftarrow> rope_cursor_new (visible_text s) 0;
     d \<leftarrow> rope_cursor_new (deleted_text s) 0;
     ids \<leftarrow> fragment_ids_for_edits s (map fst (undo_counts undo));
     st \<leftarrow> undo_ids_loop undos (undo_timestamp undo) ids
       \<lparr>us_old_fragments = cursor_new undo_position_dim (fragments s), us_new_fragments = tree_new fragment_ops,
        us_new_ropes = rope_builder_new v d, us_edits = patch_empty\<rparr>;
     (suffix, c) \<leftarrow> cursor_suffix fragment_ops undo_position_dim (us_old_fragments st);
     st \<leftarrow> undo_append st suffix;
     (visible, deleted) \<leftarrow> rope_builder_finish (us_new_ropes st);
     Some (s\<lparr>fragments := us_new_fragments st, visible_text := visible, deleted_text := deleted\<rparr>, us_edits st)
   }"

end
