(* ===== verification/Fragment_Laws.thy ===== *)
theory Fragment_Laws
  imports Fragment Rope_Positions
begin

text \<open>
  The summaries of fragments and of insertions obey the laws of the sum tree, and the two builders of an edit
  collect what is pushed into them: \<open>FragmentBuilder\<close> a sequence of fragments, \<open>RopeBuilder\<close> the visible and the deleted
  text.
\<close>

subsection \<open>Version vectors as summaries\<close>

lemma vals_join:
  "vals (join g h) = map (\<lambda>i. max (get_or 0 (vals g) i) (get_or 0 (vals h) i)) [0..<max (length (vals g)) (length (vals h))]"
proof (rule nth_equalityI)
  show len: "length (vals (join g h)) = length (map (\<lambda>i. max (get_or 0 (vals g) i) (get_or 0 (vals h) i)) [0..<max (length (vals g)) (length (vals h))])"
    by (auto simp: join_def Let_def)
  fix i assume i: "i < length (vals (join g h))"
  define vs where "vs = (if length (vals h) > length (vals g) then resize_up (length (vals h)) 0 (vals g) else vals g)"
  have vs: "vals (join g h) = zip_max vs (vals h)" "length (vals h) \<le> length vs" "get_or 0 vs i = get_or 0 (vals g) i"
    by (auto simp: join_def vs_def Let_def)
  have "vals (join g h) ! i = get_or 0 (zip_max vs (vals h)) i" using i by (simp add: get_or_def vs(1))
  also have "\<dots> = max (get_or 0 (vals g) i) (get_or 0 (vals h) i)" using vs by (simp add: get_or_zip_max)
  finally show "vals (join g h) ! i = map (\<lambda>i. max (get_or 0 (vals g) i) (get_or 0 (vals h) i)) [0..<max (length (vals g)) (length (vals h))] ! i"
    using i len by simp
qed

lemma get_or_map: "get_or 0 (map f [0..<n]) i = (if i < n then f i else 0)"
  by (simp add: get_or_def)

lemma get_or_outside: "length xs \<le> i \<Longrightarrow> get_or d xs i = d"
  by (simp add: get_or_def)

lemma join_assoc: "join (join a b) c = join a (join b c)"
proof -
  have "vals (join (join a b) c) = vals (join a (join b c))"
    unfolding vals_join [of "join a b"] vals_join [of a "join b c"]
    by (auto simp: vals_join get_or_map max.assoc get_or_outside intro!: map_cong)
  then show ?thesis by (metis global.collapse)
qed

lemma join_new [simp]: "join global_new g = g"
proof -
  have "vals (join global_new g) = vals g"
    by (auto simp: vals_join global_new_def get_or_def intro!: nth_equalityI)
  then show ?thesis by (metis global.collapse)
qed

lemma meet_entry_assoc: "meet_entry (meet_entry a b) c = meet_entry a (meet_entry b c)"
  by (auto simp: meet_entry_def min.assoc min_def)

lemma meet_assoc:
  assumes "wf_global a" "wf_global b" "wf_global c"
  shows "meet (meet a b) c = meet a (meet b c)"
  using assms by (intro wf_global_eqI wf_meet) (simp_all add: get_meet meet_entry_assoc)

lemma get_new [simp]: "get global_new r = 0"
  by (simp add: get_def global_new_def)

lemma meet_new [simp]: "wf_global g \<Longrightarrow> meet global_new g = g"
  by (intro wf_global_eqI wf_meet wf_global_new) (simp_all add: get_meet meet_entry_def)

subsection \<open>Summaries of fragments\<close>

lemma fragment_ops_sel [simp]:
  "szero fragment_ops = fragment_summary_default" "sadd fragment_ops = fragment_summary_add"
  "ssummary fragment_ops f = fragment_item_summary f"
  by (simp_all add: fragment_ops_def)

definition insertion_versions_ok :: "fragment_summary \<Rightarrow> bool" where
  "insertion_versions_ok s \<longleftrightarrow> wf_global (fs_min_insertion_version s) \<and> wf_global (fs_max_insertion_version s)"

lemma item_versions_ok: "insertion_versions_ok (fragment_item_summary f)"
  by (simp add: insertion_versions_ok_def fragment_item_summary_def Let_def wf_observe wf_global_new)

lemma summable_versions: "summable fragment_ops s \<Longrightarrow> insertion_versions_ok s"
proof (induction rule: summable.induct)
  case summable_zero
  then show ?case by (simp add: insertion_versions_ok_def fragment_summary_default_def wf_global_new)
next
  case (summable_item f)
  then show ?case using item_versions_ok by simp
next
  case (summable_add a b)
  then show ?case by (simp add: insertion_versions_ok_def fragment_summary_add_def wf_meet wf_join)
qed

lemma text_plus_assoc: "text_summary_plus (text_summary_plus a b) c = text_summary_plus a (text_summary_plus b c)"
  by (simp add: text_summary_plus_def)

lemma text_plus_zero [simp]: "text_summary_plus fragment_text_summary_default a = a"
  by (simp add: text_summary_plus_def fragment_text_summary_default_def)

lemma lawful_fragment_ops: "lawful_summary fragment_ops"
  unfolding lawful_summary_def
proof (intro conjI allI impI)
  fix a b c assume "summable fragment_ops a" "summable fragment_ops b" "summable fragment_ops c"
  then show "sadd fragment_ops (sadd fragment_ops a b) c = sadd fragment_ops a (sadd fragment_ops b c)"
    using summable_versions
    by (auto simp: fragment_summary_add_def text_plus_assoc join_assoc insertion_versions_ok_def intro!: meet_assoc)
next
  fix a assume "summable fragment_ops a"
  then show "sadd fragment_ops (szero fragment_ops) a = a"
    using summable_versions [of a]
    by (simp add: fragment_summary_add_def fragment_summary_default_def insertion_versions_ok_def)
qed

interpretation fragment_tree: summary_laws fragment_ops
  by (unfold_locales) (rule lawful_fragment_ops)

lemma lawful_fragment_dims:
  "lawful_dim fragment_ops visible_dim" "lawful_dim fragment_ops fragment_text_dim"
  "lawful_dim fragment_ops full_offset_dim" "lawful_dim fragment_ops fragment_id_dim"
  by (simp_all add: lawful_dim_def visible_dim_def fragment_text_dim_def full_offset_dim_def fragment_id_dim_def
      fragment_summary_add_def text_plus_assoc text_summary_plus_def add.assoc)

interpretation by_visible: seek_laws fragment_ops visible_dim
  by unfold_locales (rule lawful_fragment_dims)

interpretation by_fragment_text: seek_laws fragment_ops fragment_text_dim
  by unfold_locales (rule lawful_fragment_dims)

interpretation by_fragment_id: seek_laws fragment_ops fragment_id_dim
  by unfold_locales (rule lawful_fragment_dims)

subsection \<open>Keys of insertions\<close>

lemma insertion_zero_least: "InsertionFragmentKey lamport_MIN 0 \<le> k"
  using lamport_MIN_least [of "ik_timestamp k"]
  by (cases k) (auto simp: less_eq_insertion_fragment_key_def less_insertion_fragment_key_def)

interpretation insertions: keyed_laws insertion_ops insertion_dim insertion_key
proof unfold_locales
  show "lawful_summary insertion_ops" by (simp add: lawful_summary_def insertion_ops_def)
  show "lawful_dim insertion_ops insertion_dim"
    by (simp add: lawful_dim_def insertion_dim_def summary_dim_def insertion_ops_def)
  fix d k :: insertion_fragment_key and x
  show "dadd insertion_dim d (ssummary insertion_ops x) = insertion_key x"
    by (simp add: insertion_dim_def summary_dim_def insertion_ops_def)
  show "dzero insertion_dim \<le> k" by (simp add: insertion_dim_def summary_dim_def insertion_ops_def insertion_zero_least)
qed

subsection \<open>Counting bytes\<close>

definition visible_len :: "fragment list \<Rightarrow> nat" where
  "visible_len fs = sum_list (map frag_len (filter frag_visible fs))"

definition deleted_len :: "fragment list \<Rightarrow> nat" where
  "deleted_len fs = sum_list (map frag_len (filter (\<lambda>f. \<not> frag_visible f) fs))"

lemma len_simps [simp]:
  "visible_len [] = 0" "visible_len (f # fs) = (if frag_visible f then frag_len f else 0) + visible_len fs"
  "visible_len (fs @ gs) = visible_len fs + visible_len gs"
  "deleted_len [] = 0" "deleted_len (f # fs) = (if frag_visible f then 0 else frag_len f) + deleted_len fs"
  "deleted_len (fs @ gs) = deleted_len fs + deleted_len gs"
  by (auto simp: visible_len_def deleted_len_def)

lemma fragment_text_pos:
  "pos_after fragment_ops fragment_text_dim d fs =
     \<lparr>ft_visible = ft_visible d + visible_len fs, ft_deleted = ft_deleted d + deleted_len fs\<rparr>"
  by (induction fs arbitrary: d)
    (auto simp: fragment_text_dim_def text_summary_plus_def fragment_item_summary_def Let_def)

lemma visible_pos: "pos_after fragment_ops visible_dim n fs = n + visible_len fs"
  by (induction fs arbitrary: n) (auto simp: visible_dim_def fragment_item_summary_def Let_def)

definition items_summary :: "fragment list \<Rightarrow> fragment_summary" where
  "items_summary fs = sum_of fragment_ops (map fragment_item_summary fs)"

lemma items_summary_snoc:
  "items_summary (fs @ [f]) = fragment_summary_add (items_summary fs) (fragment_item_summary f)"
  "items_summary [] = fragment_summary_default"
  by (simp_all add: items_summary_def sum_of_def)

lemma items_summary_sel:
  "fs_text (items_summary fs) = \<lparr>ft_visible = visible_len fs, ft_deleted = deleted_len fs\<rparr>"
  "fs_max_id (items_summary fs) = (if fs = [] then locator_min else frag_id (last fs))"
proof -
  show "fs_text (items_summary fs) = \<lparr>ft_visible = visible_len fs, ft_deleted = deleted_len fs\<rparr>"
    by (induction fs rule: rev_induct)
      (auto simp: items_summary_snoc fragment_summary_default_def fragment_text_summary_default_def
        fragment_summary_add_def text_summary_plus_def fragment_item_summary_def Let_def)
  show "fs_max_id (items_summary fs) = (if fs = [] then locator_min else frag_id (last fs))"
    by (cases fs rule: rev_cases)
      (auto simp: items_summary_snoc fragment_summary_default_def fragment_summary_add_def fragment_item_summary_def Let_def)
qed

lemma tree_items_summary: "wf_tree fragment_ops t \<Longrightarrow> node_summary t = items_summary (tree_items t)"
  using fragment_tree.tree_summary_items [of t] by (simp add: items_summary_def fragment_ops_def)

lemma items_summary_append:
  assumes "gs \<noteq> []"
  shows "items_summary (fs @ gs) = fragment_summary_add (items_summary fs) (items_summary gs)"
proof -
  have "summable fragment_ops s" if "s \<in> set (map fragment_item_summary hs)" for s hs
    using that summable_item [of fragment_ops] by auto
  then show ?thesis
    using fragment_tree.sum_of_append [of "map fragment_item_summary gs" "map fragment_item_summary fs"] assms
    by (simp add: items_summary_def)
qed

subsection \<open>\<open>FragmentBuilder\<close>\<close>

fun chunk_fragments :: "fragment_chunk \<Rightarrow> fragment list" where
  "chunk_fragments (Tree t) = tree_items t"
| "chunk_fragments (Loose fs) = fs"

fun fragment_chunk_ok :: "fragment_chunk \<Rightarrow> bool" where
  "fragment_chunk_ok (Tree t) \<longleftrightarrow> wf_tree fragment_ops t"
| "fragment_chunk_ok (Loose fs) \<longleftrightarrow> True"

text \<open>The builder holds the fragments \<open>fs\<close>.\<close>

definition builds :: "fragment_builder \<Rightarrow> fragment list \<Rightarrow> bool" where
  "builds b fs \<longleftrightarrow> (\<forall>c \<in> set (fb_chunks b). fragment_chunk_ok c) \<and>
     concat (map chunk_fragments (fb_chunks b)) = fs \<and> fb_summary b = items_summary fs"

lemma builds_new: "wf_tree fragment_ops t \<Longrightarrow> builds (fragment_builder_new t) (tree_items t)"
  by (auto simp: builds_def fragment_builder_new_def tree_items_summary is_empty_iff)

lemma builds_append:
  assumes "builds b fs" "wf_tree fragment_ops t"
  shows "builds (fragment_builder_append b t) (fs @ tree_items t)"
  using assms
  by (auto simp: builds_def fragment_builder_append_def tree_items_summary is_empty_iff items_summary_append)

lemma builds_push:
  assumes "builds b fs"
  shows "builds (fragment_builder_push b f) (fs @ [f])"
proof -
  consider gs cs where "fb_chunks b = cs @ [Loose gs]"
    | "\<forall>gs. last_opt (fb_chunks b) \<noteq> Some (Loose gs)"
    by (cases "fb_chunks b" rule: rev_cases) (auto simp: last_opt_def)
  then show ?thesis
  proof cases
    case 1
    then show ?thesis using assms
      by (auto simp: builds_def fragment_builder_push_def last_opt_def items_summary_snoc)
  next
    case 2
    then have "fb_chunks (fragment_builder_push b f) = fb_chunks b @ [Loose [f]]"
      by (auto simp: fragment_builder_push_def split: option.splits fragment_chunk.splits)
    then show ?thesis using assms by (auto simp: builds_def fragment_builder_push_def items_summary_snoc)
  qed
qed

lemma builder_loop_spec:
  assumes "wf_tree fragment_ops t" "\<forall>c \<in> set cs. fragment_chunk_ok c"
  shows "\<exists>t'. builder_loop t cs = Some t' \<and> wf_tree fragment_ops t' \<and>
    tree_items t' = tree_items t @ concat (map chunk_fragments cs)"
  using assms
proof (induction cs arbitrary: t)
  case (Cons c cs)
  have grown: "\<exists>t'. append_tree fragment_ops t u \<bind> (\<lambda>t. builder_loop t cs) = Some t' \<and> wf_tree fragment_ops t' \<and>
      tree_items t' = tree_items t @ tree_items u @ concat (map chunk_fragments cs)" if u: "wf_tree fragment_ops u" for u
  proof -
    obtain t1 where t1: "append_tree fragment_ops t u = Some t1" "wf_tree fragment_ops t1" "tree_items t1 = tree_items t @ tree_items u"
      using fragment_tree.append_tree_spec [OF Cons.prems(1) u] by blast
    then show ?thesis using Cons.IH [OF t1(2)] Cons.prems(2) by auto
  qed
  show ?case
  proof (cases c)
    case (Tree u)
    then show ?thesis using grown [of u] Cons.prems(2) by simp
  next
    case (Loose fs)
    have "from_par_iter fragment_ops fs = from_iter fragment_ops fs" by (rule fragment_tree.from_par_iter_eq)
    then show ?thesis using grown [of "from_iter fragment_ops fs"] fragment_tree.from_iter_spec [of fs] Loose by simp
  qed
qed simp

lemma to_sum_tree_spec:
  assumes "builds b fs"
  shows "\<exists>t. to_sum_tree b = Some t \<and> wf_tree fragment_ops t \<and> tree_items t = fs"
  using builder_loop_spec [of "tree_new fragment_ops" "fb_chunks b"] assms by (auto simp: builds_def to_sum_tree_def)

subsection \<open>\<open>RopeBuilder\<close>\<close>

text \<open>
  The cursors are at the offsets \<open>i\<close> of the old visible and \<open>j\<close> of the old deleted text, both boundaries of characters;
  the new texts so far are \<open>V\<close> and \<open>D\<close>.
\<close>

definition rope_at_boundary :: "rope \<Rightarrow> rope_cursor \<Rightarrow> nat \<Rightarrow> bool" where
  "rope_at_boundary r cur i \<longleftrightarrow> rope_ok r \<and> str_is_char_boundary (rope_text r) i \<and> (\<exists>pre suf. rope_at r cur i pre suf)"

definition rope_builder_at :: "rope \<Rightarrow> rope \<Rightarrow> rope_builder \<Rightarrow> nat \<Rightarrow> nat \<Rightarrow> str \<Rightarrow> str \<Rightarrow> bool" where
  "rope_builder_at v d b i j V D \<longleftrightarrow>
     rope_at_boundary v (rb_old_visible b) i \<and> rope_at_boundary d (rb_old_deleted b) j \<and>
     rope_ok (rb_new_visible b) \<and> rope_text (rb_new_visible b) = V \<and>
     rope_ok (rb_new_deleted b) \<and> rope_text (rb_new_deleted b) = D"

lemma rope_at_offset: "rope_at_boundary r cur i \<Longrightarrow> rc_offset cur = i"
  by (auto simp: rope_at_boundary_def rope_at_def)

lemma rope_at_slice:
  assumes "rope_at_boundary r cur i" "str_is_char_boundary (rope_text r) e" "i \<le> e"
  shows "\<exists>s cur'. rope_cursor_slice cur e = Some (s, cur') \<and> rope_ok s \<and> rope_text s = text_range (rope_text r) i e \<and>
    rope_at_boundary r cur' e"
  using assms rope_cursor_slice_spec [of r cur i _ _ e] unfolding rope_at_boundary_def slice_result_def by blast

lemma rope_at_suffix:
  assumes "rope_at_boundary r cur i"
  shows "\<exists>s. rope_cursor_suffix cur = Some s \<and> rope_ok s \<and> rope_text s = drop i (rope_text r)"
proof -
  have ok: "rope_ok r" "str_is_char_boundary (rope_text r) i" and rc: "rc_rope cur = r"
    using assms by (auto simp: rope_at_boundary_def rope_at_def)
  have len: "extent len_dim r = length (rope_text r)" using rope_len_eq [OF ok(1)] by (simp add: rope_len_def)
  have "i \<le> length (rope_text r)" using ok(2) by (auto simp: str_is_char_boundary_def)
  then show ?thesis
    using rope_at_slice [OF assms str_boundaries(2)] by (auto simp: rope_cursor_suffix_def rc len text_range_def)
qed

lemma rope_at_start:
  assumes "rope_ok r"
  shows "\<exists>cur. rope_cursor_new r 0 = Some cur \<and> rope_at_boundary r cur 0"
  using rope_cursor_new_spec [OF assms, of 0] assms by (auto simp: rope_at_boundary_def str_is_char_boundary_def)

lemma rope_builder_push_spec:
  assumes "rope_builder_at v d b i j V D"
    and "str_is_char_boundary (rope_text (if was then v else d)) ((if was then i else j) + n)"
    and t: "t = (if was then text_range (rope_text v) i (i + n) else text_range (rope_text d) j (j + n))"
  shows "\<exists>b'. rope_builder_push b n was vis = Some b' \<and>
    rope_builder_at v d b' (if was then i + n else i) (if was then j else j + n) (if vis then V @ t else V) (if vis then D else D @ t)"
proof -
  have curs: "rope_at_boundary v (rb_old_visible b) i" "rope_at_boundary d (rb_old_deleted b) j"
    and ok: "rope_ok (rb_new_visible b)" "rope_ok (rb_new_deleted b)"
    and new: "rope_text (rb_new_visible b) = V" "rope_text (rb_new_deleted b) = D"
    using assms(1) by (auto simp: rope_builder_at_def)
  obtain s v' d' where s: "rope_ok s" "rope_text s = t"
      "rope_at_boundary v v' (if was then i + n else i)" "rope_at_boundary d d' (if was then j else j + n)"
      "(if was then do { (t, v) \<leftarrow> rope_cursor_slice (rb_old_visible b) (rc_offset (rb_old_visible b) + n); Some (t, b\<lparr>rb_old_visible := v\<rparr>) }
       else do { (t, d) \<leftarrow> rope_cursor_slice (rb_old_deleted b) (rc_offset (rb_old_deleted b) + n); Some (t, b\<lparr>rb_old_deleted := d\<rparr>) })
       = Some (s, b\<lparr>rb_old_visible := v', rb_old_deleted := d'\<rparr>)"
  proof (cases was)
    case True
    obtain s v' where "rope_cursor_slice (rb_old_visible b) (i + n) = Some (s, v')" "rope_ok s"
        "rope_text s = text_range (rope_text v) i (i + n)" "rope_at_boundary v v' (i + n)"
      using rope_at_slice [OF curs(1)] assms(2) True by fastforce
    then show ?thesis using True curs that [of s v' "rb_old_deleted b"] rope_at_offset t by simp
  next
    case False
    obtain s d' where "rope_cursor_slice (rb_old_deleted b) (j + n) = Some (s, d')" "rope_ok s"
        "rope_text s = text_range (rope_text d) j (j + n)" "rope_at_boundary d d' (j + n)"
      using rope_at_slice [OF curs(2)] assms(2) False by fastforce
    then show ?thesis using False curs that [of s "rb_old_visible b" d'] rope_at_offset t by simp
  qed
  obtain rv rd where "rope_append (rb_new_visible b) s = Some rv" "rope_ok rv" "rope_text rv = V @ t"
      "rope_append (rb_new_deleted b) s = Some rd" "rope_ok rd" "rope_text rd = D @ t"
    using rope_append_spec [OF ok(1) s(1)] rope_append_spec [OF ok(2) s(1)] s(2) new by auto
  then show ?thesis
    unfolding rope_builder_push_def s(5) using s(3,4) ok new by (auto simp: rope_builder_at_def)
qed

lemma rope_builder_push_str_spec:
  assumes "rope_builder_at v d b i j V D" "utf8_ok t"
  shows "\<exists>b'. rope_builder_push_str b t = Some b' \<and> rope_builder_at v d b' i j (V @ t) D"
  using assms rope_push_spec [of "rb_new_visible b" t]
  by (auto simp: rope_builder_push_str_def rope_builder_at_def)

lemma rope_builder_finish_spec:
  assumes "rope_builder_at v d b i j V D"
  shows "\<exists>v' d'. rope_builder_finish b = Some (v', d') \<and> rope_ok v' \<and> rope_text v' = V @ drop i (rope_text v) \<and>
    rope_ok d' \<and> rope_text d' = D @ drop j (rope_text d)"
proof -
  have curs: "rope_at_boundary v (rb_old_visible b) i" "rope_at_boundary d (rb_old_deleted b) j"
    and ok: "rope_ok (rb_new_visible b)" "rope_ok (rb_new_deleted b)"
    and new: "rope_text (rb_new_visible b) = V" "rope_text (rb_new_deleted b) = D"
    using assms by (auto simp: rope_builder_at_def)
  obtain sv sd where s: "rope_cursor_suffix (rb_old_visible b) = Some sv" "rope_ok sv" "rope_text sv = drop i (rope_text v)"
      "rope_cursor_suffix (rb_old_deleted b) = Some sd" "rope_ok sd" "rope_text sd = drop j (rope_text d)"
    using rope_at_suffix [OF curs(1)] rope_at_suffix [OF curs(2)] by blast
  show ?thesis
    using rope_append_spec [OF ok(1) s(2)] rope_append_spec [OF ok(2) s(5)] s new by (auto simp: rope_builder_finish_def)
qed

end
