(* ===== verification/Document.thy ===== *)
theory Document
  imports Buffer_Snapshot Fragment_Laws
begin

text \<open>
  What a snapshot stands for: a document, the sequence of all bytes ever inserted, each with the insertion it belongs to,
  its place in that insertion, and whether it is visible. A content function says which byte an insertion has at a place; it
  is the same on all replicas. The visible and the deleted rope are the two halves of the document.
\<close>

subsection \<open>Atoms\<close>

record atom =
  atom_time :: lamport
  atom_place :: nat
  atom_visible :: bool
  atom_deletions :: "lamport list"
  atom_undos :: global

type_synonym content = "lamport \<Rightarrow> nat \<Rightarrow> u8"

definition atom_at :: "fragment \<Rightarrow> nat \<Rightarrow> atom" where
  "atom_at f i =
     \<lparr>atom_time = frag_timestamp f, atom_place = frag_offset f + i, atom_visible = frag_visible f,
      atom_deletions = frag_deletions f, atom_undos = frag_max_undos f\<rparr>"

definition atoms_of :: "fragment \<Rightarrow> atom list" where
  "atoms_of f = map (atom_at f) [0..<frag_len f]"

definition atoms :: "fragment list \<Rightarrow> atom list" where
  "atoms fs = concat (map atoms_of fs)"

definition atom_id :: "atom \<Rightarrow> lamport \<times> nat" where
  "atom_id a = (atom_time a, atom_place a)"

definition atom_byte :: "content \<Rightarrow> atom \<Rightarrow> u8" where
  "atom_byte c a = c (atom_time a) (atom_place a)"

definition bytes_of :: "content \<Rightarrow> atom list \<Rightarrow> str" where
  "bytes_of c as = map (atom_byte c) as"

definition shown :: "content \<Rightarrow> atom list \<Rightarrow> str" where
  "shown c as = bytes_of c (filter atom_visible as)"

definition hidden :: "content \<Rightarrow> atom list \<Rightarrow> str" where
  "hidden c as = bytes_of c (filter (\<lambda>a. \<not> atom_visible a) as)"

lemma atoms_simps [simp]:
  "atoms [] = []" "atoms (f # fs) = atoms_of f @ atoms fs" "atoms (fs @ gs) = atoms fs @ atoms gs"
  by (simp_all add: atoms_def)

lemma length_atoms_of [simp]: "length (atoms_of f) = frag_len f"
  by (simp add: atoms_of_def)

lemma bytes_of_simps [simp]:
  "bytes_of c [] = []" "bytes_of c (as @ bs) = bytes_of c as @ bytes_of c bs" "length (bytes_of c as) = length as"
  by (simp_all add: bytes_of_def)

lemma shown_simps [simp]:
  "shown c [] = []" "shown c (as @ bs) = shown c as @ shown c bs"
  "hidden c [] = []" "hidden c (as @ bs) = hidden c as @ hidden c bs"
  by (simp_all add: shown_def hidden_def)

lemma visible_atoms_of: "a \<in> set (atoms_of f) \<Longrightarrow> atom_visible a = frag_visible f"
  by (auto simp: atoms_of_def atom_at_def)

lemma filter_const: "\<forall>x \<in> set xs. P x = b \<Longrightarrow> filter P xs = (if b then xs else [])"
  by (induction xs) auto

lemma shown_atoms_of [simp]:
  "shown c (atoms_of f) = (if frag_visible f then bytes_of c (atoms_of f) else [])"
  "hidden c (atoms_of f) = (if frag_visible f then [] else bytes_of c (atoms_of f))"
  using filter_const [of "atoms_of f" atom_visible "frag_visible f"]
    filter_const [of "atoms_of f" "\<lambda>a. \<not> atom_visible a" "\<not> frag_visible f"]
  by (auto simp: shown_def hidden_def visible_atoms_of)

lemma length_shown [simp]: "length (shown c (atoms fs)) = visible_len fs" "length (hidden c (atoms fs)) = deleted_len fs"
  by (induction fs) auto

lemma length_atoms: "length (atoms fs) = visible_len fs + deleted_len fs"
  by (induction fs) auto

lemma atoms_of_cut:
  assumes "s \<le> a" "b - s \<le> frag_len f"
  shows "atoms_of (cut_fragment f s a b) = take (b - a) (drop (a - s) (atoms_of f))"
  using assms
  by (auto intro!: nth_equalityI simp: atoms_of_def cut_fragment_def atom_at_def)

lemma atoms_of_id [simp]: "atoms_of (f\<lparr>frag_id := l\<rparr>) = atoms_of f"
  by (simp add: atoms_of_def atom_at_def)

text \<open>An edit with timestamp \<open>t\<close> deletes what is visible.\<close>

definition mark_deleted :: "lamport \<Rightarrow> atom \<Rightarrow> atom" where
  "mark_deleted t a =
     (if atom_visible a then a\<lparr>atom_visible := False, atom_deletions := atom_deletions a @ [t]\<rparr> else a)"

lemma mark_deleted_sel [simp]:
  "atom_id (mark_deleted t a) = atom_id a" "atom_byte c (mark_deleted t a) = atom_byte c a" "\<not> atom_visible (mark_deleted t a)"
  by (auto simp: mark_deleted_def atom_id_def atom_byte_def)

lemma bytes_mark [simp]: "bytes_of c (map (mark_deleted t) as) = bytes_of c as"
  by (simp add: bytes_of_def)

lemma shown_mark [simp]: "shown c (map (mark_deleted t) as) = []" "hidden c (map (mark_deleted t) as) = bytes_of c as"
  by (simp_all add: shown_def hidden_def filter_map o_def bytes_of_def)

lemma atoms_of_deleted:
  assumes "frag_visible f"
  shows "atoms_of (f\<lparr>frag_deletions := frag_deletions f @ [t], frag_visible := False\<rparr>) = map (mark_deleted t) (atoms_of f)"
    "atoms_of (f\<lparr>frag_id := l, frag_deletions := frag_deletions f @ [t], frag_visible := False\<rparr>) = map (mark_deleted t) (atoms_of f)"
  using assms by (auto simp: atoms_of_def atom_at_def mark_deleted_def)

lemma mark_hidden: "\<not> frag_visible f \<Longrightarrow> map (mark_deleted t) (atoms_of f) = atoms_of f"
  by (auto simp: map_idI visible_atoms_of mark_deleted_def)

text \<open>The atoms of newly inserted text.\<close>

definition new_atom :: "lamport \<Rightarrow> nat \<Rightarrow> atom" where
  "new_atom t i =
     \<lparr>atom_time = t, atom_place = i, atom_visible = True, atom_deletions = [], atom_undos = global_new\<rparr>"

definition new_atoms :: "lamport \<Rightarrow> nat \<Rightarrow> nat \<Rightarrow> atom list" where
  "new_atoms t k n = map (new_atom t) [k..<k + n]"

lemma new_atoms_simps [simp]:
  "new_atoms t k 0 = []" "length (new_atoms t k n) = n" "shown c (new_atoms t k n) = bytes_of c (new_atoms t k n)"
  "hidden c (new_atoms t k n) = []"
  by (simp_all add: new_atoms_def shown_def hidden_def filter_map o_def new_atom_def)

lemma new_atoms_add: "new_atoms t k (m + n) = new_atoms t k m @ new_atoms t (k + m) n"
  using upt_add_eq_append [of k "k + m" n] by (simp add: new_atoms_def add.assoc)

lemma atoms_of_new:
  "frag_visible f \<Longrightarrow> frag_deletions f = [] \<Longrightarrow> frag_max_undos f = global_new \<Longrightarrow>
    atoms_of f = new_atoms (frag_timestamp f) (frag_offset f) (frag_len f)"
  by (auto intro!: nth_equalityI simp: atoms_of_def atom_at_def new_atoms_def new_atom_def)

subsection \<open>Locators of a sequence\<close>

definition id_ok :: "locator \<Rightarrow> bool" where
  "id_ok l \<longleftrightarrow> locator_min < l \<and> l < locator_max \<and> last l \<noteq> 0"

definition ids_ok :: "fragment list \<Rightarrow> bool" where
  "ids_ok fs \<longleftrightarrow> sorted_wrt (\<lambda>f g. frag_id f < frag_id g) fs \<and> (\<forall>f \<in> set fs. id_ok (frag_id f))"

text \<open>The id that bounds the fragments in front of \<open>suf\<close>, and the greatest id of a sequence.\<close>

definition next_id :: "fragment list \<Rightarrow> locator" where
  "next_id suf = (case suf of [] \<Rightarrow> locator_max | f # _ \<Rightarrow> frag_id f)"

definition top_id :: "fragment list \<Rightarrow> locator" where
  "top_id fs = (if fs = [] then locator_min else frag_id (last fs))"

lemma ids_ok_simps [simp]:
  "ids_ok []"
  "ids_ok (fs @ gs) \<longleftrightarrow> ids_ok fs \<and> ids_ok gs \<and> (\<forall>f \<in> set fs. \<forall>g \<in> set gs. frag_id f < frag_id g)"
  "ids_ok (f # fs) \<longleftrightarrow> id_ok (frag_id f) \<and> ids_ok fs \<and> (\<forall>g \<in> set fs. frag_id f < frag_id g)"
  by (auto simp: ids_ok_def sorted_wrt_append)

definition ids_below :: "fragment list \<Rightarrow> locator \<Rightarrow> bool" where
  "ids_below fs l \<longleftrightarrow> ids_ok fs \<and> (\<forall>f \<in> set fs. frag_id f < l)"

lemma min_less_max: "locator_min < locator_max" "last locator_max \<noteq> 0"
  by (simp_all add: locator_min_def locator_max_def word_gt_0)

lemma between_above: "l < between l r"
  by (simp add: between_def between_loop_above)

lemma between_below: "l < r \<Longrightarrow> last r \<noteq> 0 \<Longrightarrow> between l r < r"
  by (simp add: between_def between_loop_below)

lemma between_last: "last (between l r) \<noteq> 0"
  using between_loop_last by (simp add: between_def)

lemma top_id_below: "ids_below fs l \<Longrightarrow> locator_min < l \<Longrightarrow> top_id fs < l"
  by (cases fs rule: rev_cases) (auto simp: top_id_def ids_below_def)

lemma le_top_id: "ids_ok fs \<Longrightarrow> f \<in> set fs \<Longrightarrow> frag_id f \<le> top_id fs"
  by (cases fs rule: rev_cases) (auto simp: top_id_def less_imp_le)

lemma ids_below_between:
  assumes "ids_below fs r" "locator_min < r" "r \<le> locator_max" "last r \<noteq> 0" "frag_id g = between (top_id fs) r"
  shows "ids_below (fs @ [g]) r" "ids_ok (fs @ [g])"
proof -
  have less: "top_id fs < frag_id g" "frag_id g < r"
    using assms top_id_below by (auto simp: between_above between_below)
  have "locator_min \<le> top_id fs"
    using assms(1) by (cases fs rule: rev_cases) (auto simp: top_id_def ids_below_def id_ok_def)
  then have "id_ok (frag_id g)" using less assms(3,5) between_last by (auto simp: id_ok_def)
  moreover have "\<forall>f \<in> set fs. frag_id f < frag_id g"
    using le_top_id less(1) assms(1) by (auto simp: ids_below_def intro: le_less_trans)
  ultimately show "ids_below (fs @ [g]) r" "ids_ok (fs @ [g])"
    using assms(1) less(2) by (auto simp: ids_below_def)
qed

lemma ids_below_next:
  assumes "ids_ok (pre @ f # suf)" "ids_below fs (frag_id f)" "frag_id g = frag_id f"
  shows "ids_below (fs @ [g]) (next_id suf)"
proof -
  have "frag_id f < next_id suf" using assms(1) by (auto simp: next_id_def id_ok_def split: list.splits)
  then show ?thesis using assms by (auto simp: ids_below_def dest: less_trans)
qed

lemma ids_below_leave:
  assumes "ids_ok (pre @ f # suf)" "ids_below fs (frag_id f)"
  shows "ids_below fs (next_id suf)"
proof -
  have "frag_id f < next_id suf" using assms(1) by (auto simp: next_id_def id_ok_def split: list.splits)
  then show ?thesis using assms(2) by (auto simp: ids_below_def intro: less_trans [where y = "frag_id f"])
qed

lemma next_id_bounds:
  assumes "ids_ok suf"
  shows "locator_min < next_id suf" "next_id suf \<le> locator_max" "last (next_id suf) \<noteq> 0"
  using assms min_less_max by (auto simp: next_id_def id_ok_def split: list.splits)

subsection \<open>Snapshots that are well formed\<close>

definition frag_key :: "fragment \<Rightarrow> lamport \<times> nat" where
  "frag_key f = (frag_timestamp f, frag_offset f)"

text \<open>A fragment is not empty, its bytes are whole characters, and its timestamp counts from 1: no version observes the value 0.\<close>

definition frag_ok :: "content \<Rightarrow> fragment \<Rightarrow> bool" where
  "frag_ok c f \<longleftrightarrow> frag_len f > 0 \<and> 0 < tvalue (frag_timestamp f) \<and> utf8_ok (bytes_of c (atoms_of f))"

definition insertions_for :: "insertion_tree \<Rightarrow> fragment list \<Rightarrow> bool" where
  "insertions_for t fs \<longleftrightarrow> wf_tree insertion_ops t \<and> key_sorted insertion_key (tree_items t) \<and>
     set (tree_items t) = insertion_fragment_new ` set fs"

text \<open>The snapshot \<open>s\<close> holds the document that the fragments \<open>fs\<close> spell out.\<close>

definition holds :: "content \<Rightarrow> buffer_snapshot \<Rightarrow> fragment list \<Rightarrow> bool" where
  "holds c s fs \<longleftrightarrow> wf_tree fragment_ops (fragments s) \<and> tree_items (fragments s) = fs \<and>
     rope_ok (visible_text s) \<and> rope_text (visible_text s) = shown c (atoms fs) \<and>
     rope_ok (deleted_text s) \<and> rope_text (deleted_text s) = hidden c (atoms fs) \<and>
     (\<forall>f \<in> set fs. frag_ok c f) \<and> ids_ok fs \<and> distinct (map atom_id (atoms fs)) \<and>
     insertions_for (insertions s) fs \<and> map_inv (insertion_slices s) \<and> undo_inv (undo_map s)"

lemma holdsD:
  assumes "holds c s fs"
  shows "wf_tree fragment_ops (fragments s)" "tree_items (fragments s) = fs" "rope_ok (visible_text s)"
    "rope_text (visible_text s) = shown c (atoms fs)" "rope_ok (deleted_text s)"
    "rope_text (deleted_text s) = hidden c (atoms fs)" "\<forall>f \<in> set fs. frag_ok c f" "ids_ok fs"
    "distinct (map atom_id (atoms fs))" "insertions_for (insertions s) fs" "map_inv (insertion_slices s)" "undo_inv (undo_map s)"
  using assms by (simp_all add: holds_def)

lemma first_atom_id: "0 < frag_len f \<Longrightarrow> frag_key f \<in> atom_id ` set (atoms_of f)"
  by (auto simp: atoms_of_def atom_at_def atom_id_def frag_key_def image_image intro!: rev_image_eqI [of 0])

lemma first_atom: "frag_ok c f \<Longrightarrow> f \<in> set fs \<Longrightarrow> frag_timestamp f \<in> atom_time ` set (atoms fs)"
  by (force simp: atoms_def atoms_of_def atom_at_def frag_ok_def image_iff intro!: bexI [of _ f])

lemma distinct_keys:
  assumes "distinct (map atom_id (atoms fs))" "\<forall>f \<in> set fs. 0 < frag_len f"
  shows "distinct (map frag_key fs)"
  using assms
proof (induction fs)
  case (Cons f fs)
  have "frag_key f \<noteq> frag_key g" if "g \<in> set fs" for g
  proof -
    have "set (atoms_of g) \<subseteq> set (atoms fs)" using that by (auto simp: atoms_def)
    then show ?thesis
      using first_atom_id [of f] first_atom_id [of g] Cons.prems that by (fastforce simp: distinct_append)
  qed
  then show ?case using Cons by (auto simp: distinct_append)
qed simp

end
