(* ===== verification/Edit_State.thy ===== *)
theory Edit_State
  imports Document
begin

text \<open>
  The state of an edit as both edit functions keep it: the fragments \<open>pre\<close> are consumed, and the first \<open>k\<close> bytes of the
  first fragment of \<open>suf\<close>; what was consumed has become the fragments \<open>N\<close>, with both new ropes and the indexes in step.
  The lemmas show that every action of the two functions keeps this up.
\<close>

subsection \<open>Clean cuts\<close>

definition clean :: "content \<Rightarrow> atom list \<Rightarrow> bool" where
  "clean c as \<longleftrightarrow> utf8_ok (shown c as) \<and> utf8_ok (hidden c as)"

lemma clean_append: "clean c as \<Longrightarrow> clean c (as @ bs) \<longleftrightarrow> clean c bs"
  by (auto simp: clean_def utf8_append)

lemma clean_Nil [simp]: "clean c []"
  by (simp add: clean_def)

lemma clean_frag: "frag_ok c f \<Longrightarrow> clean c (atoms_of f)"
  by (auto simp: clean_def frag_ok_def)

lemma clean_frags: "\<forall>f \<in> set fs. frag_ok c f \<Longrightarrow> clean c (atoms fs)"
  by (induction fs) (auto simp: clean_frag clean_append)

lemma clean_boundary:
  assumes "clean c P" "clean c (P @ R)"
  shows "str_is_char_boundary (shown c (P @ R)) (length (shown c P))" "str_is_char_boundary (hidden c (P @ R)) (length (hidden c P))"
  using assms clean_append [of c P R] boundary_after by (auto simp: clean_def)

lemma boundary_inner:
  assumes "str_is_char_boundary (x @ b @ y) (length x + k)" "k \<le> length b"
  shows "str_is_char_boundary b k"
  using assms by (auto simp: str_is_char_boundary_def nth_append)

text \<open>A part of a fragment between two boundaries.\<close>

definition part :: "fragment \<Rightarrow> nat \<Rightarrow> nat \<Rightarrow> atom list" where
  "part f k n = take n (drop k (atoms_of f))"

lemma part_simps:
  "k + n \<le> frag_len f \<Longrightarrow> length (part f k n) = n" "a \<in> set (part f k n) \<Longrightarrow> atom_visible a = frag_visible f"
  "part f 0 (frag_len f) = atoms_of f" "part f k 0 = []"
  by (auto simp: part_def dest!: in_set_takeD in_set_dropD visible_atoms_of)

lemma part_add: "part f 0 (k + n) = part f 0 k @ part f k n"
  by (simp add: part_def take_add)

lemma shown_part:
  "shown c (part f k n) = (if frag_visible f then bytes_of c (part f k n) else [])"
  "hidden c (part f k n) = (if frag_visible f then [] else bytes_of c (part f k n))"
  using filter_const [of "part f k n" atom_visible "frag_visible f"]
    filter_const [of "part f k n" "\<lambda>a. \<not> atom_visible a" "\<not> frag_visible f"] part_simps(2) [of _ f k n]
  by (auto simp: shown_def hidden_def)

lemma bytes_part: "bytes_of c (part f k n) = text_range (bytes_of c (atoms_of f)) k (k + n)"
  by (simp add: bytes_of_def part_def text_range_def take_map drop_map)

lemma part_utf8:
  assumes "frag_ok c f" "str_is_char_boundary (bytes_of c (atoms_of f)) k" "str_is_char_boundary (bytes_of c (atoms_of f)) (k + n)"
  shows "utf8_ok (bytes_of c (part f k n))" "clean c (part f k n)"
proof -
  show "utf8_ok (bytes_of c (part f k n))" unfolding bytes_part using assms by (intro range_utf8) (auto simp: frag_ok_def)
  then show "clean c (part f k n)" by (simp add: clean_def shown_part)
qed

subsection \<open>The new fragments and ropes\<close>

text \<open>The atoms \<open>P\<close> of the old document are consumed, and the builders hold the fragments \<open>N\<close> and their texts.\<close>

definition built :: "content \<Rightarrow> buffer_snapshot \<Rightarrow> 'd edit_state \<Rightarrow> atom list \<Rightarrow> fragment list \<Rightarrow> bool" where
  "built c s st P N \<longleftrightarrow> builds (es_new_fragments st) N \<and> clean c P \<and> (\<forall>g \<in> set N. frag_ok c g) \<and>
     rope_builder_at (visible_text s) (deleted_text s) (es_new_ropes st) (length (shown c P)) (length (hidden c P))
       (shown c (atoms N)) (hidden c (atoms N))"

lemma built_ids:
  assumes "built c s st P N"
  shows "new_max_id st = top_id N" "new_visible_len st = length (shown c (atoms N))"
  using assms by (auto simp: built_def builds_def new_max_id_def new_visible_len_def items_summary_sel top_id_def)

lemma take_range: "text_range (x @ y @ z) (length x) (length x + length y) = y"
  by (rule range_middle)

lemma push_rope_spec:
  assumes "holds c s F" "atoms F = P @ Q @ R" "clean c P" "clean c Q" "\<forall>a \<in> set Q. atom_visible a = was"
    and "rope_builder_at (visible_text s) (deleted_text s) b (length (shown c P)) (length (hidden c P)) V D"
  shows "\<exists>b'. rope_builder_push b (length Q) was vis = Some b' \<and>
    rope_builder_at (visible_text s) (deleted_text s) b' (length (shown c (P @ Q))) (length (hidden c (P @ Q)))
      (if vis then V @ bytes_of c Q else V) (if vis then D else D @ bytes_of c Q)"
proof -
  note h = holdsD [OF assms(1)]
  have Q: "shown c Q = (if was then bytes_of c Q else [])" "hidden c Q = (if was then [] else bytes_of c Q)"
    using filter_const [of Q atom_visible was] filter_const [of Q "\<lambda>a. \<not> atom_visible a" "\<not> was"] assms(5)
    by (auto simp: shown_def hidden_def)
  have all: "clean c ((P @ Q) @ R)" using clean_frags [OF h(7)] assms(2) by simp
  have PQ: "clean c (P @ Q)" using assms(3,4) clean_append by blast
  have t: "bytes_of c Q = (if was then text_range (rope_text (visible_text s)) (length (shown c P)) (length (shown c P) + length Q)
      else text_range (rope_text (deleted_text s)) (length (hidden c P)) (length (hidden c P) + length Q))"
    using take_range [of "shown c P" "bytes_of c Q"] take_range [of "hidden c P" "bytes_of c Q"]
    by (simp add: h(4,6) assms(2) Q)
  have "str_is_char_boundary (rope_text (if was then visible_text s else deleted_text s))
      ((if was then length (shown c P) else length (hidden c P)) + length Q)"
    using clean_boundary [OF PQ all] by (cases was) (simp_all add: h(4,6) assms(2) Q)
  from rope_builder_push_spec [OF assms(6) this t, of vis] show ?thesis
    by (cases was) (simp_all add: Q)
qed

lemma push_piece_spec:
  assumes "holds c s F" "atoms F = P @ Q @ R" "built c s st P N" "clean c Q" "\<forall>a \<in> set Q. atom_visible a = was"
    and "frag_len g = length Q" "bytes_of c (atoms_of g) = bytes_of c Q" "frag_ok c g"
  shows "\<exists>st'. push_piece st g was = Some st' \<and> built c s st' (P @ Q) (N @ [g]) \<and>
    st' = st\<lparr>es_new_insertions := es_new_insertions st @ [insert_new g], es_new_ropes := es_new_ropes st',
      es_new_fragments := fragment_builder_push (es_new_fragments st) g\<rparr>"
proof -
  have b: "builds (es_new_fragments st) N" "clean c P" "\<forall>g \<in> set N. frag_ok c g"
    "rope_builder_at (visible_text s) (deleted_text s) (es_new_ropes st) (length (shown c P)) (length (hidden c P))
       (shown c (atoms N)) (hidden c (atoms N))"
    using assms(3) by (auto simp: built_def)
  obtain r where "rope_builder_push (es_new_ropes st) (length Q) was (frag_visible g) = Some r"
    "rope_builder_at (visible_text s) (deleted_text s) r (length (shown c (P @ Q))) (length (hidden c (P @ Q)))
      (if frag_visible g then shown c (atoms N) @ bytes_of c Q else shown c (atoms N))
      (if frag_visible g then hidden c (atoms N) else hidden c (atoms N) @ bytes_of c Q)"
    using push_rope_spec [OF assms(1,2) b(2) assms(4,5) b(4)] by blast
  then show ?thesis
    using b(1,2,3) assms(4,6,7,8) builds_push [OF b(1)] clean_append [OF b(2)]
    by (auto simp: push_piece_def rope_builder_push_fragment_def built_def)
qed

lemma append_ropes_spec:
  assumes "holds c s (pre @ l @ r)" "clean c (atoms pre)"
    and "rope_builder_at (visible_text s) (deleted_text s) b (length (shown c (atoms pre))) (length (hidden c (atoms pre))) V D"
  shows "\<exists>b'. rope_builder_append b \<lparr>ft_visible = visible_len l, ft_deleted = deleted_len l\<rparr> = Some b' \<and>
    rope_builder_at (visible_text s) (deleted_text s) b' (length (shown c (atoms (pre @ l)))) (length (hidden c (atoms (pre @ l))))
      (V @ shown c (atoms l)) (D @ hidden c (atoms l))"
proof -
  note h = holdsD [OF assms(1)]
  have cl: "clean c (atoms pre @ atoms l)" "clean c ((atoms pre @ atoms l) @ atoms r)"
    using h(7) clean_frags [of "pre @ l" c] clean_frags [of "pre @ l @ r" c] by auto
  let ?v = "visible_text s" and ?d = "deleted_text s"
  have bounds: "str_is_char_boundary (rope_text ?v) (length (shown c (atoms pre)) + visible_len l)"
    "str_is_char_boundary (rope_text ?d) (length (hidden c (atoms pre)) + deleted_len l)"
    using clean_boundary [OF cl] by (simp_all add: h(4,6))
  have ranges: "text_range (rope_text ?v) (length (shown c (atoms pre))) (length (shown c (atoms pre)) + visible_len l) = shown c (atoms l)"
    "text_range (rope_text ?d) (length (hidden c (atoms pre))) (length (hidden c (atoms pre)) + deleted_len l) = hidden c (atoms l)"
    using take_range [of "shown c (atoms pre)" "shown c (atoms l)" "shown c (atoms r)"]
      take_range [of "hidden c (atoms pre)" "hidden c (atoms l)" "hidden c (atoms r)"]
    by (simp_all add: h(4,6))
  obtain b1 where b1: "rope_builder_push b (visible_len l) True True = Some b1"
    "rope_builder_at ?v ?d b1 (length (shown c (atoms (pre @ l)))) (length (hidden c (atoms pre))) (V @ shown c (atoms l)) D"
    using rope_builder_push_spec [OF assms(3), of True "visible_len l", OF _ refl, of True] bounds(1) ranges(1) by auto
  obtain b2 where b2: "rope_builder_push b1 (deleted_len l) False False = Some b2"
    "rope_builder_at ?v ?d b2 (length (shown c (atoms (pre @ l)))) (length (hidden c (atoms (pre @ l))))
      (V @ shown c (atoms l)) (D @ hidden c (atoms l))"
    using rope_builder_push_spec [OF b1(2), of False "deleted_len l", OF _ refl, of False] bounds(2) ranges(2) by auto
  show ?thesis using b1(1) b2 by (simp add: rope_builder_append_def)
qed

lemma tree_texts: "wf_tree fragment_ops t \<Longrightarrow> tree_items t = l \<Longrightarrow>
    fs_text (node_summary t) = \<lparr>ft_visible = visible_len l, ft_deleted = deleted_len l\<rparr>"
  using tree_items_summary by (auto simp: items_summary_sel)

lemma append_slice_spec:
  assumes "holds c s (pre @ l @ r)" "built c s st (atoms pre) N" "wf_tree fragment_ops t" "tree_items t = l"
  shows "\<exists>st'. append_slice st t = Some st' \<and> built c s st' (atoms (pre @ l)) (N @ l) \<and>
    st' = st\<lparr>es_new_ropes := es_new_ropes st', es_new_fragments := es_new_fragments st'\<rparr>"
proof -
  have b: "builds (es_new_fragments st) N" "clean c (atoms pre)" "\<forall>g \<in> set N. frag_ok c g"
    "rope_builder_at (visible_text s) (deleted_text s) (es_new_ropes st) (length (shown c (atoms pre))) (length (hidden c (atoms pre)))
       (shown c (atoms N)) (hidden c (atoms N))"
    using assms(2) by (auto simp: built_def)
  have "\<forall>g \<in> set (N @ l). frag_ok c g" "clean c (atoms (pre @ l))"
    using holdsD(7) [OF assms(1)] b(3) clean_frags [of "pre @ l" c] by auto
  then show ?thesis
    using append_ropes_spec [OF assms(1) b(2,4)] tree_texts [OF assms(3,4)] builds_append [OF b(1) assms(3)] assms(4)
    by (auto simp: append_slice_def built_def)
qed

subsection \<open>The new insertions\<close>

text \<open>
  The pieces \<open>ps\<close> among the new fragments \<open>N\<close> are the ones recorded for the index; all other fragments of \<open>N\<close> are old ones,
  and every consumed old fragment is still there or a piece has its key.
\<close>

definition covers :: "fragment list \<Rightarrow> fragment list \<Rightarrow> nat \<Rightarrow> fragment list \<Rightarrow> fragment list \<Rightarrow> bool" where
  "covers pre suf k N ps \<longleftrightarrow> mset ps \<subseteq># mset N \<and> set N \<subseteq> set ps \<union> set pre \<and>
     (\<forall>f \<in> set pre \<union> (if 0 < k then set (take 1 suf) else {}). f \<in> set N \<or> frag_key f \<in> frag_key ` set ps)"

lemma mset_snoc_mono: "mset ps \<subseteq># mset N \<Longrightarrow> mset (ps @ [g]) \<subseteq># mset (N @ [g])"
  "mset ps \<subseteq># mset N \<Longrightarrow> mset ps \<subseteq># mset (N @ gs)"
  by (auto intro: subset_mset.trans mset_subset_eq_mono_add)

lemma covers_piece:
  assumes "covers pre (f # suf) k N ps" "k = 0 \<Longrightarrow> frag_key g = frag_key f"
  shows "covers pre (f # suf) (k + n) (N @ [g]) (ps @ [g])"
  using assms mset_snoc_mono unfolding covers_def by (auto split: if_splits)

lemma covers_new: "covers pre suf k N ps \<Longrightarrow> covers pre suf k (N @ gs) (ps @ gs)"
  using mset_snoc_mono unfolding covers_def by (auto split: if_splits)

lemma covers_next: "covers pre (f # suf) k N ps \<Longrightarrow> 0 < k \<Longrightarrow> covers (pre @ [f]) suf 0 N ps"
  unfolding covers_def by auto

lemma covers_slice: "covers pre (l @ r) 0 N ps \<Longrightarrow> covers (pre @ l) r 0 (N @ l) ps"
  using mset_snoc_mono(2) unfolding covers_def by auto

lemma covers_start: "covers l r 0 l []"
  by (auto simp: covers_def)

lemma keys_of_pieces:
  assumes "mset ps \<subseteq># mset N" "distinct (map atom_id (atoms N))" "\<forall>g \<in> set N. frag_ok c g"
  shows "distinct (map frag_key ps)" "set ps \<subseteq> set N"
proof -
  have "distinct (map frag_key N)" using assms(2,3) by (intro distinct_keys) (auto simp: frag_ok_def)
  moreover have "mset (map frag_key ps) \<subseteq># mset (map frag_key N)" using image_mset_subseteq_mono [OF assms(1)] by simp
  ultimately show "distinct (map frag_key ps)" by (metis distinct_submset)
  show "set ps \<subseteq> set N" using assms(1) by (metis mset_subset_eqD set_mset_mset subsetI)
qed

lemma insertion_key_new: "insertion_key (insertion_fragment_new f) = InsertionFragmentKey (fst (frag_key f)) (snd (frag_key f))"
  by (simp add: insertion_key_def insertion_fragment_new_def frag_key_def)

lemma insertion_keys_eq: "insertion_key (insertion_fragment_new f) = insertion_key (insertion_fragment_new g) \<longleftrightarrow> frag_key f = frag_key g"
  by (auto simp: insertion_key_new prod_eq_iff)

lemma insertions_edited:
  assumes "insertions_for t F" "covers F [] 0 N ps" "distinct (map atom_id (atoms N))" "\<forall>g \<in> set N. frag_ok c g"
    and "distinct (map atom_id (atoms F))" "\<forall>g \<in> set F. frag_ok c g"
  shows "\<exists>t' old. edit_tree insertion_ops insertion_dim insertion_key t (map insert_new ps) = Some (t', old) \<and> insertions_for t' N"
proof -
  note keys = keys_of_pieces [of ps N c] keys_of_pieces [of N N c] keys_of_pieces [of F F c]
  have ps: "mset ps \<subseteq># mset N" using assms(2) by (simp add: covers_def)
  have dN: "distinct (map frag_key N)" and dp: "distinct (map frag_key ps)" "set ps \<subseteq> set N" and dF: "distinct (map frag_key F)"
    using keys ps assms(3-6) by auto
  have eq: "map (edit_key insertion_key) (map insert_new ps) = map (insertion_key \<circ> insertion_fragment_new) ps"
    by (simp add: insert_new_def)
  have "distinct (map (insertion_key \<circ> insertion_fragment_new) ps)"
    using dp(1) by (auto simp: distinct_map inj_on_def insertion_keys_eq)
  then have dk: "distinct (map (edit_key insertion_key) (map insert_new ps))" by (simp only: eq)
  have t: "wf_tree insertion_ops t" "key_sorted insertion_key (tree_items t)" "set (tree_items t) = insertion_fragment_new ` set F"
    using assms(1) by (auto simp: insertions_for_def)
  let ?es = "map insert_new ps"
  obtain t' where t': "edit_tree insertion_ops insertion_dim insertion_key t ?es =
        Some (t', filter (\<lambda>x. insertion_key x \<in> edit_key insertion_key ` set ?es) (tree_items t))"
      "wf_tree insertion_ops t'" "tree_items t' = foldl (apply_edit insertion_key) (tree_items t) (sort_key (edit_key insertion_key) ?es)"
    using insertions.edit_tree_spec [OF t(1,2) dk] by blast
  have dsort: "distinct (map (edit_key insertion_key) (sort_key (edit_key insertion_key) ?es))"
    using dk by (simp only: distinct_map distinct_sort set_sort)
  have sorted: "key_sorted insertion_key (tree_items t')" unfolding t'(3) by (rule foldl_edits_sorted [OF t(2)])
  have member: "x \<in> set (tree_items t') \<longleftrightarrow> edit_lookup insertion_key (tree_items t) ?es (insertion_key x) = Some x" for x
    using lookup_key_Some_iff [OF sorted, of "insertion_key x" x] lookup_edits [OF t(2) dsort] edit_lookup_sort [OF dk]
    unfolding t'(3) by simp
  have pieces: "edit_lookup insertion_key (tree_items t) ?es (insertion_key (insertion_fragment_new g)) = Some (insertion_fragment_new g)"
    if "g \<in> set ps" for g
    using find_edit_unique [OF dk, of "insert_new g"] that by (simp add: edit_lookup_def insert_new_def)
  have others: "edit_lookup insertion_key (tree_items t) ?es (insertion_key (insertion_fragment_new f)) =
      lookup_key insertion_key (tree_items t) (insertion_key (insertion_fragment_new f))" if "frag_key f \<notin> frag_key ` set ps" for f
  proof -
    have "List.find (\<lambda>e. edit_key insertion_key e = insertion_key (insertion_fragment_new f)) ?es = None"
      using that by (fastforce simp: find_None_iff insert_new_def insertion_keys_eq image_iff)
    then show ?thesis by (simp add: edit_lookup_def)
  qed
  have "x \<in> set (tree_items t') \<longleftrightarrow> x \<in> insertion_fragment_new ` set N" for x
  proof
    assume x: "x \<in> set (tree_items t')"
    show "x \<in> insertion_fragment_new ` set N"
    proof (cases "\<exists>g \<in> set ps. insertion_key (insertion_fragment_new g) = insertion_key x")
      case True
      then obtain g where "g \<in> set ps" "insertion_key (insertion_fragment_new g) = insertion_key x" by blast
      then have "x = insertion_fragment_new g" using member [of x] pieces [of g] x by simp
      then show ?thesis using \<open>g \<in> set ps\<close> dp(2) by blast
    next
      case False
      then have "List.find (\<lambda>e. edit_key insertion_key e = insertion_key x) ?es = None"
        by (auto simp: find_None_iff insert_new_def)
      then have "lookup_key insertion_key (tree_items t) (insertion_key x) = Some x" using member [of x] x by (simp add: edit_lookup_def)
      then obtain f where f: "x = insertion_fragment_new f" "f \<in> set F" using lookup_key_Some_iff [OF t(2)] t(3) by blast
      then show ?thesis using False assms(2) by (fastforce simp: covers_def insertion_keys_eq)
    qed
  next
    assume "x \<in> insertion_fragment_new ` set N"
    then obtain g where g: "g \<in> set N" "x = insertion_fragment_new g" by blast
    show "x \<in> set (tree_items t')"
    proof (cases "frag_key g \<in> frag_key ` set ps")
      case True
      then have "g \<in> set ps" using dp(2) dN g(1) by (auto simp: distinct_map dest: inj_onD)
      then show ?thesis using pieces member g(2) by simp
    next
      case False
      then have "g \<in> set F" using assms(2) g(1) by (auto simp: covers_def)
      then have "x \<in> set (tree_items t)" using t(3) g(2) by blast
      then have "lookup_key insertion_key (tree_items t) (insertion_key x) = Some x" using lookup_key_Some_iff [OF t(2)] by blast
      then show ?thesis using others [OF False] member g(2) by simp
    qed
  qed
  then show ?thesis using t'(1,2) sorted by (auto simp: insertions_for_def)
qed

end
