(* ===== verification/Edit_Insertion.thy ===== *)
theory Edit_Insertion
  imports Edit_State
begin

text \<open>
  \<open>push_fragments_for_insertion\<close>: the new text becomes fragments whose atoms are the new atoms of the edit, in order, with ids
  in front of the next fragment. A piece ends at a character boundary, so the loop makes progress when a piece may hold
  four bytes, the longest character.
\<close>

lemma le_last: "sorted xs \<Longrightarrow> x \<in> set xs \<Longrightarrow> x \<le> last xs"
  by (induction xs) auto

lemma floor_progress:
  assumes "utf8_ok t" "o' + 4 \<le> e" "e < length t"
  shows "o' < str_floor_char_boundary t e" "str_floor_char_boundary t e \<le> e" "str_is_char_boundary t (str_floor_char_boundary t e)"
proof -
  obtain j where j: "j \<le> e" "e \<le> j + 3" "str_is_char_boundary t j"
    using boundary_near(2) [OF assms(1), of e] assms(3) by auto
  let ?xs = "filter (str_is_char_boundary t) [0..<Suc e]"
  have mem: "j \<in> set ?xs" using j by (simp del: upt_Suc)
  then have ne: "?xs \<noteq> []" by (metis empty_iff empty_set)
  have floor: "str_floor_char_boundary t e = last ?xs" using assms(3) by (simp add: str_floor_char_boundary_def)
  then have "str_floor_char_boundary t e \<in> set ?xs" using last_in_set [OF ne] by (simp only:)
  then show "str_floor_char_boundary t e \<le> e" "str_is_char_boundary t (str_floor_char_boundary t e)" by (auto simp del: upt_Suc)
  have "sorted ?xs" by (simp add: sorted_wrt_filter del: upt_Suc)
  then have "j \<le> last ?xs" using mem le_last by blast
  then show "o' < str_floor_char_boundary t e" using floor j(2) assms(2) by linarith
qed

text \<open>The bytes of the new atoms are the text; timestamps count from 1.\<close>

definition writes :: "content \<Rightarrow> lamport \<Rightarrow> nat \<Rightarrow> str \<Rightarrow> bool" where
  "writes c ts off t \<longleftrightarrow> 0 < tvalue ts \<and> bytes_of c (new_atoms ts off (length t)) = t"

lemma writes_range:
  assumes "writes c ts off t" "a \<le> b" "b \<le> length t"
  shows "bytes_of c (new_atoms ts (off + a) (b - a)) = text_range t a b"
proof -
  have "new_atoms ts off (length t) = new_atoms ts off a @ new_atoms ts (off + a) (b - a) @ new_atoms ts (off + b) (length t - b)"
    using new_atoms_add [of ts off a "length t - a"] new_atoms_add [of ts "off + a" "b - a" "length t - b"] assms(2,3) by simp
  then have "bytes_of c (new_atoms ts off (length t)) = bytes_of c (new_atoms ts off a) @ bytes_of c (new_atoms ts (off + a) (b - a)) @
      bytes_of c (new_atoms ts (off + b) (length t - b))" by simp
  then have "text_range t a b = text_range (bytes_of c (new_atoms ts off a) @ bytes_of c (new_atoms ts (off + a) (b - a)) @
      bytes_of c (new_atoms ts (off + b) (length t - b))) a b"
    using assms(1) by (simp add: writes_def)
  then show ?thesis
    using take_range [of "bytes_of c (new_atoms ts off a)" "bytes_of c (new_atoms ts (off + a) (b - a))"] assms(2) by simp
qed

lemma insertion_loop_spec:
  fixes st :: "'d edit_state"
  assumes "4 \<le> max_len" "utf8_ok t" "writes c ts off t" "locator_min < r" "r \<le> locator_max" "last r \<noteq> 0"
    and "str_is_char_boundary t a" "a \<le> length t" "es_insertion_offset st = off + a"
    and "builds (es_new_fragments st) N" "ids_below N r"
  shows "\<exists>gs nf. insertion_loop max_len ts edit_ts r t a st =
      st\<lparr>es_insertion_slices := es_insertion_slices st @ map (slice_from_fragment edit_ts) gs,
        es_new_insertions := es_new_insertions st @ map insert_new gs, es_new_fragments := nf,
        es_insertion_offset := off + length t\<rparr> \<and>
    builds nf (N @ gs) \<and> ids_below (N @ gs) r \<and> (\<forall>g \<in> set gs. frag_ok c g) \<and>
    atoms gs = new_atoms ts (off + a) (length t - a)"
  using assms(7-11)
proof (induction "length t - a" arbitrary: a st N rule: less_induct)
  case less
  note simps = insertion_loop.simps [of max_len ts edit_ts r t a st]
  show ?case
  proof (cases "a < length t")
    case False
    then show ?thesis using less.prems simps
      by (intro exI [of _ "[]"] exI [of _ "es_new_fragments st"]) simp
  next
    case True
    define e where "e = (if length t \<le> a + max_len then length t else str_floor_char_boundary t (a + max_len))"
    have e: "a < e" "e \<le> length t" "str_is_char_boundary t e"
      using floor_progress [OF assms(2), of a "a + max_len"] assms(1) True by (auto simp: e_def str_is_char_boundary_def)
    define f where "f = \<lparr>frag_id = between (new_max_id st) r, frag_timestamp = ts, frag_offset = es_insertion_offset st,
      frag_len = e - a, frag_visible = True, frag_deletions = [], frag_max_undos = global_new\<rparr>"
    define st' where "st' = st\<lparr>es_insertion_slices := es_insertion_slices st @ [slice_from_fragment edit_ts f],
      es_new_insertions := es_new_insertions st @ [insert_new f], es_new_fragments := fragment_builder_push (es_new_fragments st) f,
      es_insertion_offset := es_insertion_offset st + (e - a)\<rparr>"
    have e': "e = (let target_end = min (length t) (a + max_len)
        in if target_end = length t then target_end else str_floor_char_boundary t target_end)"
      by (auto simp: e_def Let_def min_def)
    have step: "insertion_loop max_len ts edit_ts r t a st = insertion_loop max_len ts edit_ts r t e st'"
      using True e(1) simps by (simp add: Let_def e' [symmetric, unfolded Let_def] f_def st'_def)
    have max: "new_max_id st = top_id N" using less.prems(4) by (simp add: builds_def new_max_id_def items_summary_sel top_id_def)
    have atoms: "atoms_of f = new_atoms ts (off + a) (e - a)" using less.prems(3) by (simp add: atoms_of_new f_def)
    have bytes: "bytes_of c (atoms_of f) = text_range t a e" using writes_range [OF assms(3)] e by (simp add: atoms)
    have ok: "frag_ok c f"
      using range_utf8 [OF assms(2) less.prems(1) e(3)] bytes e(1) assms(3) by (simp add: frag_ok_def f_def writes_def)
    have b': "builds (es_new_fragments st') (N @ [f])" using builds_push [OF less.prems(4)] by (simp add: st'_def)
    have "frag_id f = between (top_id N) r" by (simp add: f_def max)
    from ids_below_between(1) [OF less.prems(5) assms(4-6) this] have ids: "ids_below (N @ [f]) r" .
    have off: "es_insertion_offset st' = off + e" using less.prems(3) e(1) by (simp add: st'_def)
    obtain gs nf where ih: "insertion_loop max_len ts edit_ts r t e st' =
        st'\<lparr>es_insertion_slices := es_insertion_slices st' @ map (slice_from_fragment edit_ts) gs,
          es_new_insertions := es_new_insertions st' @ map insert_new gs, es_new_fragments := nf,
          es_insertion_offset := off + length t\<rparr>" "builds nf ((N @ [f]) @ gs)" "ids_below ((N @ [f]) @ gs) r"
        "\<forall>g \<in> set gs. frag_ok c g" "atoms gs = new_atoms ts (off + e) (length t - e)"
      using less.hyps [OF _ e(3,2) off b' ids] e(1) True by (meson diff_less_mono2)
    have "atoms (f # gs) = new_atoms ts (off + a) (length t - a)"
      using atoms ih(5) new_atoms_add [of ts "off + a" "e - a" "length t - e"] e by simp
    then show ?thesis using ih ok step
      by (intro exI [of _ "f # gs"] exI [of _ nf]) (simp add: st'_def)
  qed
qed

lemma push_fragments_spec:
  assumes "4 \<le> max_len" "utf8_ok t" "writes c ts off t" "locator_min < r" "r \<le> locator_max" "last r \<noteq> 0"
    and "es_insertion_offset st = off" "built c s st P N" "ids_below N r"
  shows "\<exists>gs st'. push_fragments_for_insertion max_len t ts r edit_ts st = Some st' \<and>
    built c s st' P (N @ gs) \<and> ids_below (N @ gs) r \<and> atoms gs = new_atoms ts off (length t) \<and>
    st' = st\<lparr>es_insertion_slices := es_insertion_slices st @ map (slice_from_fragment edit_ts) gs,
      es_new_insertions := es_new_insertions st @ map insert_new gs, es_new_fragments := es_new_fragments st',
      es_insertion_offset := off + length t, es_new_ropes := es_new_ropes st'\<rparr>"
proof -
  have b: "builds (es_new_fragments st) N" "clean c P" "\<forall>g \<in> set N. frag_ok c g"
    "rope_builder_at (visible_text s) (deleted_text s) (es_new_ropes st) (length (shown c P)) (length (hidden c P))
       (shown c (atoms N)) (hidden c (atoms N))"
    using assms(8) by (auto simp: built_def)
  obtain gs nf where l: "insertion_loop max_len ts edit_ts r t 0 st =
      st\<lparr>es_insertion_slices := es_insertion_slices st @ map (slice_from_fragment edit_ts) gs,
        es_new_insertions := es_new_insertions st @ map insert_new gs, es_new_fragments := nf,
        es_insertion_offset := off + length t\<rparr>" "builds nf (N @ gs)" "ids_below (N @ gs) r" "\<forall>g \<in> set gs. frag_ok c g"
      "atoms gs = new_atoms ts off (length t)"
    using insertion_loop_spec [OF assms(1-6), of 0 st N edit_ts] assms(7,9) b(1) by (auto simp: str_is_char_boundary_def)
  obtain b' where b': "rope_builder_push_str (es_new_ropes st) t = Some b'"
    "rope_builder_at (visible_text s) (deleted_text s) b' (length (shown c P)) (length (hidden c P))
       (shown c (atoms N) @ t) (hidden c (atoms N))"
    using rope_builder_push_str_spec [OF b(4) assms(2)] by blast
  show ?thesis using l b b' assms(3)
    by (intro exI [of _ gs]) (auto simp: push_fragments_for_insertion_def Let_def built_def writes_def)
qed

end
