(* ===== verification/Edit_Walk.thy ===== *)
theory Edit_Walk
  imports Edit_Insertion
begin

text \<open>
  The interface between the two edit functions and their cursors: what \<open>item\<close>, \<open>next\<close>, \<open>slice\<close> and \<open>suffix\<close> do for a dimension
  that counts the bytes of some of the fragments, and the actions of the edit functions proved from it once.
\<close>

text \<open>A fragment counts \<open>m f\<close> bytes, all of its bytes or none, and \<open>loc\<close> reads the count off a position.\<close>

definition msum :: "(fragment \<Rightarrow> nat) \<Rightarrow> fragment list \<Rightarrow> nat" where
  "msum m fs = sum_list (map m fs)"

lemma msum_simps [simp]:
  "msum m [] = 0" "msum m (f # fs) = m f + msum m fs" "msum m (fs @ gs) = msum m fs + msum m gs"
  by (simp_all add: msum_def)

text \<open>
  Slicing with a bias to the right passes every fragment that ends at the target or before it, and with a bias to the left
  every fragment that ends before it.
\<close>

definition passes :: "bias \<Rightarrow> nat \<Rightarrow> nat \<Rightarrow> bool" where
  "passes b n e \<longleftrightarrow> (if b = Right then e \<le> n else e < n)"

lemma slices_grow:
  assumes "\<exists>qs. sl = map (slice_from_fragment t) qs \<and> mset qs \<subseteq># mset N"
  shows "\<exists>qs. sl = map (slice_from_fragment t) qs \<and> mset qs \<subseteq># mset (N @ gs)"
    "\<exists>qs. sl @ map (slice_from_fragment t) gs = map (slice_from_fragment t) qs \<and> mset qs \<subseteq># mset (N @ gs)"
proof -
  obtain qs where qs: "sl = map (slice_from_fragment t) qs" "mset qs \<subseteq># mset N" using assms by blast
  show "\<exists>qs. sl = map (slice_from_fragment t) qs \<and> mset qs \<subseteq># mset (N @ gs)" using qs mset_snoc_mono(2) by blast
  show "\<exists>qs. sl @ map (slice_from_fragment t) gs = map (slice_from_fragment t) qs \<and> mset qs \<subseteq># mset (N @ gs)"
    using qs by (intro exI [of _ "qs @ gs"]) simp
qed

text \<open>The atoms that are consumed.\<close>

definition consumed :: "fragment list \<Rightarrow> fragment list \<Rightarrow> nat \<Rightarrow> atom list" where
  "consumed pre suf k = atoms pre @ take k (atoms suf)"

lemma consumed_simps [simp]:
  "consumed pre suf 0 = atoms pre" "k \<le> frag_len f \<Longrightarrow> consumed pre (f # suf) k = atoms pre @ part f 0 k"
  by (simp_all add: consumed_def part_def)

lemma consumed_add:
  "k + n \<le> frag_len f \<Longrightarrow> consumed pre (f # suf) (k + n) = consumed pre (f # suf) k @ part f k n"
  using part_add [of f k n] by simp

lemma consumed_all: "consumed pre (f # suf) (frag_len f) = atoms (pre @ [f])"
  by (simp add: part_simps)

lemma str_boundary_len: "str_is_char_boundary t (length t)"
  by (simp add: str_is_char_boundary_def)

lemma ids_okD: "ids_ok fs \<Longrightarrow> g \<in> set fs \<Longrightarrow> id_ok (frag_id g)"
  by (simp add: ids_ok_def)

lemma ids_below_keep:
  assumes "ids_ok (pre @ l @ r)" "ids_below N (next_id (l @ r))"
  shows "ids_below (N @ l) (next_id r)"
proof (cases l)
  case (Cons f l')
  have "\<forall>g \<in> set l. frag_id g < next_id r"
    using assms(1) by (cases r) (auto simp: next_id_def id_ok_def dest: ids_okD)
  then show ?thesis using assms Cons by (fastforce simp: ids_below_def next_id_def dest: less_trans)
qed (use assms in simp)

locale edit_walk =
  fixes D :: "(fragment_summary, 'd) dim_ops" and loc :: "'d \<Rightarrow> nat option" and m :: "fragment \<Rightarrow> nat"
    and target :: "nat \<Rightarrow> 'd target"
  assumes counts: "m f = 0 \<or> m f = frag_len f"
    and loc_pos: "loc (pos_after fragment_ops D (dzero D) fs) = Some (msum m fs)"
    and walk_next: "cursor_at fragment_ops D cur pre (f # suf) \<Longrightarrow>
      \<exists>cur'. cursor_next D cur = Some cur' \<and> cursor_at fragment_ops D cur' (pre @ [f]) suf \<and> cur_tree cur' = cur_tree cur"
    and walk_suffix: "cursor_at fragment_ops D cur pre suf \<Longrightarrow>
      \<exists>t cur'. cursor_suffix fragment_ops D cur = Some (t, cur') \<and> wf_tree fragment_ops t \<and> tree_items t = suf"
    and walk_slice: "cursor_before fragment_ops D cur pre suf \<Longrightarrow> msum m pre \<le> n \<Longrightarrow> \<forall>f \<in> set suf. 0 < tvalue (frag_timestamp f) \<Longrightarrow>
      \<exists>t cur' l r. cursor_slice fragment_ops D (target n) b cur = Some (t, cur') \<and> suf = l @ r \<and> wf_tree fragment_ops t \<and>
        tree_items t = l \<and> cursor_at fragment_ops D cur' (pre @ l) r \<and> cur_tree cur' = cur_tree cur \<and>
        (l \<noteq> [] \<longrightarrow> passes b n (msum m (pre @ l))) \<and> (r \<noteq> [] \<longrightarrow> \<not> passes b n (msum m (pre @ l @ take 1 r)))"
begin

lemma cursor_reads:
  assumes "cursor_at fragment_ops D (es_old_fragments st) pre suf"
  shows "cursor_item (es_old_fragments st) = Some (head_opt suf)" "loc_start loc st = Some (msum m pre)"
    "loc_end D loc st = Some (msum m (pre @ take 1 suf))"
proof -
  let ?c = "es_old_fragments st"
  have at_pos: "wf_tree fragment_ops (cur_tree ?c)" "did_seek ?c" "located fragment_ops D (cur_tree ?c) (cur_stack ?c) pre suf"
    "cur_pos ?c = pos_after fragment_ops D (dzero D) pre"
    using assms by (auto simp: cursor_at_def)
  show "cursor_item ?c = Some (head_opt suf)" by (rule cursor_item_located(1) [OF at_pos(1-3)])
  show "loc_start loc st = Some (msum m pre)" by (simp add: loc_start_def cursor_start_def at_pos(4) loc_pos)
  have "cursor_end D ?c = Some (pos_after fragment_ops D (dzero D) (pre @ take 1 suf))"
    using cursor_item_located(2) [OF at_pos(1-3)]
    by (cases suf) (auto simp: cursor_end_def cursor_start_def head_opt_def at_pos(4))
  then show "loc_end D loc st = Some (msum m (pre @ take 1 suf))"
    by (simp only: loc_end_def bind.bind_lunit loc_pos)
qed

lemma unwrap_reads: "cursor_at fragment_ops D cur pre (f # suf) \<Longrightarrow> unwrap_item cur = Some f"
  using cursor_item_located(1) [of fragment_ops cur D pre "f # suf"]
  by (simp add: unwrap_item_def head_opt_def cursor_at_def)

definition cut_ok :: "content \<Rightarrow> fragment list \<Rightarrow> nat \<Rightarrow> bool" where
  "cut_ok c suf k \<longleftrightarrow>
     (case suf of [] \<Rightarrow> k = 0
      | f # _ \<Rightarrow> k \<le> frag_len f \<and> (0 < k \<longrightarrow> m f = frag_len f) \<and> str_is_char_boundary (bytes_of c (atoms_of f)) k)"

definition walking ::
  "content \<Rightarrow> buffer_snapshot \<Rightarrow> lamport \<Rightarrow> 'd edit_state \<Rightarrow> fragment list \<Rightarrow> fragment list \<Rightarrow> nat
     \<Rightarrow> fragment list \<Rightarrow> fragment list \<Rightarrow> bool" where
  "walking c s t st pre suf k N ps \<longleftrightarrow> holds c s (pre @ suf) \<and>
     cursor_at fragment_ops D (es_old_fragments st) pre suf \<and> cut_ok c suf k \<and>
     built c s st (consumed pre suf k) N \<and> ids_below N (next_id suf) \<and>
     es_new_insertions st = map insert_new ps \<and> covers pre suf k N ps \<and>
     (\<exists>qs. es_insertion_slices st = map (slice_from_fragment t) qs \<and> mset qs \<subseteq># mset N)"

lemma walkingD:
  assumes "walking c s t st pre suf k N ps"
  shows "holds c s (pre @ suf)" "cursor_at fragment_ops D (es_old_fragments st) pre suf" "cut_ok c suf k"
    "built c s st (consumed pre suf k) N" "ids_below N (next_id suf)" "es_new_insertions st = map insert_new ps"
    "covers pre suf k N ps" "\<exists>qs. es_insertion_slices st = map (slice_from_fragment t) qs \<and> mset qs \<subseteq># mset N"
  using assms unfolding walking_def by blast+

lemma walking_cong:
  assumes "walking c s t st pre suf k N ps" "es_old_fragments st' = es_old_fragments st" "es_new_fragments st' = es_new_fragments st"
    and "es_new_ropes st' = es_new_ropes st" "es_new_insertions st' = es_new_insertions st"
    and "es_insertion_slices st' = es_insertion_slices st"
  shows "walking c s t st' pre suf k N ps"
  using assms by (simp add: walking_def built_def)

lemma cut_ok_0 [simp]: "cut_ok c suf 0"
  by (auto simp: cut_ok_def str_is_char_boundary_def split: list.splits)

text \<open>A part of the current fragment becomes the piece \<open>g\<close>, which has its bytes.\<close>

lemma walk_piece:
  assumes W: "holds c s (pre @ f # suf)" "cut_ok c (f # suf) k" "built c s st (consumed pre (f # suf) k) N"
      "es_new_insertions st = map insert_new ps" "covers pre (f # suf) k N ps" and n: "0 < n" "k + n \<le> frag_len f"
    and cut: "str_is_char_boundary (bytes_of c (atoms_of f)) (k + n)"
    and g: "frag_len g = n" "bytes_of c (atoms_of g) = bytes_of c (part f k n)" "frag_key g = (frag_timestamp f, frag_offset f + k)"
  obtains st' where "push_piece st g (frag_visible f) = Some st'" "built c s st' (consumed pre (f # suf) (k + n)) (N @ [g])"
    "covers pre (f # suf) (k + n) (N @ [g]) (ps @ [g])"
    "st' = st\<lparr>es_new_insertions := map insert_new (ps @ [g]), es_new_ropes := es_new_ropes st', es_new_fragments := es_new_fragments st'\<rparr>"
proof -
  have f: "frag_ok c f" using holdsD(7) [OF W(1)] by simp
  have k: "k \<le> frag_len f" "str_is_char_boundary (bytes_of c (atoms_of f)) k" using W(2) by (simp_all add: cut_ok_def)
  note Q = part_utf8 [OF f k(2) cut]
  have split: "atoms (pre @ f # suf) = consumed pre (f # suf) k @ part f k n @ (drop (k + n) (atoms_of f) @ atoms suf)"
  proof -
    have "atoms_of f = part f 0 k @ part f k n @ drop (k + n) (atoms_of f)"
      by (simp add: part_def take_drop) (metis add.commute append_take_drop_id drop_drop take_drop)
    then show ?thesis using k(1) by simp
  qed
  have gok: "frag_ok c g" using n(1) g Q(1) f by (simp add: frag_ok_def frag_key_def)
  obtain st' where st': "push_piece st g (frag_visible f) = Some st'"
    "built c s st' (consumed pre (f # suf) k @ part f k n) (N @ [g])"
    "st' = st\<lparr>es_new_insertions := es_new_insertions st @ [insert_new g], es_new_ropes := es_new_ropes st',
      es_new_fragments := fragment_builder_push (es_new_fragments st) g\<rparr>"
    using push_piece_spec [OF W(1) split W(3) Q(2) _ _ g(2) gok, of "frag_visible f"] part_simps(1) [OF n(2)]
      part_simps(2) [of _ f k n] g(1) by auto
  have "es_new_fragments st' = fragment_builder_push (es_new_fragments st) g" by (subst st'(3)) simp
  moreover have "covers pre (f # suf) (k + n) (N @ [g]) (ps @ [g])"
    by (rule covers_piece [OF W(5)]) (simp add: frag_key_def [of f] g(3))
  ultimately show ?thesis using st' W(4) consumed_add [OF n(2)] by (intro that [of st']) auto
qed

text \<open>Moving on past a fragment that is consumed.\<close>

lemma walk_leave:
  assumes "holds c s (pre @ f # suf)" "cursor_at fragment_ops D (es_old_fragments st) pre (f # suf)"
    and "built c s st (consumed pre (f # suf) (frag_len f)) N" "ids_below N (next_id suf)" "es_new_insertions st = map insert_new ps"
    and "covers pre (f # suf) (frag_len f) N ps"
    and "\<exists>qs. es_insertion_slices st = map (slice_from_fragment t) qs \<and> mset qs \<subseteq># mset N"
  obtains cur where "cursor_next D (es_old_fragments st) = Some cur"
    "walking c s t (st\<lparr>es_old_fragments := cur\<rparr>) (pre @ [f]) suf 0 N ps"
proof -
  obtain cur where cur: "cursor_next D (es_old_fragments st) = Some cur" "cursor_at fragment_ops D cur (pre @ [f]) suf"
    using walk_next [OF assms(2)] by blast
  have "0 < frag_len f" using holdsD(7) [OF assms(1)] by (simp add: frag_ok_def)
  with covers_next [OF assms(6)] have "covers (pre @ [f]) suf 0 N ps" by simp
  moreover have "built c s (st\<lparr>es_old_fragments := cur\<rparr>) (consumed (pre @ [f]) suf 0) N"
    using assms(3) consumed_all by (simp add: built_def)
  ultimately show ?thesis using assms(1,4,5,7) cur by (intro that) (auto simp: walking_def)
qed

lemma cut_len: "m f \<noteq> frag_len f \<Longrightarrow> cut_ok c (f # suf) k \<Longrightarrow> k = 0"
  by (auto simp: cut_ok_def)

text \<open>Preserving the part of the current fragment in front of the range.\<close>

lemma push_prefix_spec:
  assumes w: "walking c s t st pre suf k N ps" and start: "es_fragment_start st = msum m pre + k" and r: "k \<le> n" "cut_ok c suf n"
  shows "\<exists>st' gs. push_prefix loc (msum m pre + n) st = Some st' \<and> walking c s t st' pre suf n (N @ gs) (ps @ gs) \<and>
    atoms gs = part (hd suf) k (n - k) \<and>
    st' = st\<lparr>es_new_insertions := es_new_insertions st', es_new_ropes := es_new_ropes st', es_new_fragments := es_new_fragments st',
      es_fragment_start := msum m pre + n\<rparr>"
proof (cases "k = n")
  case True
  then show ?thesis using assms(1,2) by (intro exI [of _ st] exI [of _ "[]"]) (simp add: push_prefix_def part_simps)
next
  case False
  note W = walkingD [OF w]
  obtain f suf' where suf: "suf = f # suf'" using False r by (cases suf) (auto simp: cut_ok_def)
  have n: "0 < n - k" "k + (n - k) \<le> frag_len f" "k + (n - k) = n" "m f = frag_len f"
    "str_is_char_boundary (bytes_of c (atoms_of f)) (k + (n - k))"
    using False r suf by (auto simp: cut_ok_def)
  define g where "g = (cut_fragment f (msum m pre) (msum m pre + k) (msum m pre + n))\<lparr>frag_id := between (top_id N) (frag_id f)\<rparr>"
  have g: "frag_len g = n - k" "frag_id g = between (top_id N) (frag_id f)" "frag_key g = (frag_timestamp f, frag_offset f + k)"
    by (simp_all add: g_def cut_fragment_def frag_key_def)
  have atoms: "atoms_of g = part f k (n - k)"
    using atoms_of_cut [of "msum m pre" "msum m pre + k" "msum m pre + n" f] n(2,3) by (simp add: g_def part_def)
  note ids = next_id_bounds [of suf]
  have ids: "ids_below (N @ [g]) (next_id suf)"
    using holdsD(8) [OF W(1)] next_id_bounds [of suf] W(5) g(2) suf by (intro ids_below_between) (auto simp: next_id_def)
  have w0: "walking c s t (st\<lparr>es_fragment_start := msum m pre + n\<rparr>) pre (f # suf') k N ps"
    by (rule walking_cong [OF w [unfolded suf]]) simp_all
  note W0 = walkingD [OF w0]
  obtain st' where st': "push_piece (st\<lparr>es_fragment_start := msum m pre + n\<rparr>) g (frag_visible f) = Some st'"
    "built c s st' (consumed pre (f # suf') (k + (n - k))) (N @ [g])" "covers pre (f # suf') (k + (n - k)) (N @ [g]) (ps @ [g])"
    "st' = st\<lparr>es_fragment_start := msum m pre + n, es_new_insertions := map insert_new (ps @ [g]), es_new_ropes := es_new_ropes st',
      es_new_fragments := es_new_fragments st'\<rparr>"
    using walk_piece [OF W0(1,3,4,6,7) n(1,2,5) g(1) _ g(3)] atoms by auto
  have sel: "es_old_fragments st' = es_old_fragments st" "es_insertion_slices st' = es_insertion_slices st"
    "es_new_insertions st' = map insert_new (ps @ [g])" by (subst st'(4), simp)+
  have "walking c s t st' pre suf n (N @ [g]) (ps @ [g])"
    using W(1,2) r(2) ids slices_grow(1) [OF W(8), of "[g]"] st'(2,3) n(3) suf sel by (simp add: walking_def)
  moreover have "push_prefix loc (msum m pre + n) st = Some st'"
    using st'(1) False r(1) start cursor_reads(2) [OF W(2)] unwrap_reads [OF W(2) [unfolded suf]] built_ids(1) [OF W(4)]
    by (simp add: push_prefix_def Let_def g_def)
  moreover have "st' = st\<lparr>es_new_insertions := es_new_insertions st', es_new_ropes := es_new_ropes st', es_new_fragments := es_new_fragments st',
      es_fragment_start := msum m pre + n\<rparr>" by (subst st'(4)) (simp add: sel(3))
  ultimately show ?thesis using atoms suf by (intro exI [of _ st'] exI [of _ "[g]"]) simp
qed

text \<open>Finishing a fragment that has been partially consumed.\<close>

lemma finish_fragment_spec:
  assumes w: "walking c s t st pre suf k N ps" and start: "es_fragment_start st = msum m pre + k"
  shows "\<exists>st' gs. finish_fragment D loc st = Some st' \<and>
    walking c s t st' (pre @ (if k = 0 then [] else take 1 suf)) (if k = 0 then suf else tl suf) 0 (N @ gs) (ps @ gs) \<and>
    atoms gs = (if k = 0 then [] else part (hd suf) k (frag_len (hd suf) - k)) \<and>
    st' = st\<lparr>es_old_fragments := es_old_fragments st', es_new_insertions := es_new_insertions st', es_new_ropes := es_new_ropes st',
      es_new_fragments := es_new_fragments st'\<rparr>"
proof (cases "k = 0")
  case True
  then show ?thesis using w start cursor_reads(2) [OF walkingD(2) [OF w]]
    by (intro exI [of _ st] exI [of _ "[]"]) (simp add: finish_fragment_def)
next
  case False
  note W = walkingD [OF w]
  obtain f suf' where suf: "suf = f # suf'" using False W(3) by (cases suf) (auto simp: cut_ok_def)
  have k: "k \<le> frag_len f" "m f = frag_len f" using False W(3) suf by (auto simp: cut_ok_def)
  note reads = cursor_reads [OF W(2)] unwrap_reads [OF W(2) [unfolded suf]]
  obtain st1 gs where st1: "(if msum m pre + frag_len f > es_fragment_start st then do {
           f' \<leftarrow> unwrap_item (es_old_fragments st);
           push_piece st (cut_fragment f' (msum m pre) (es_fragment_start st) (msum m pre + frag_len f)) (frag_visible f')
         } else Some st) = Some st1"
      "built c s st1 (consumed pre (f # suf') (frag_len f)) (N @ gs)" "ids_below (N @ gs) (next_id suf')"
      "covers pre (f # suf') (frag_len f) (N @ gs) (ps @ gs)" "atoms gs = part f k (frag_len f - k)"
      "st1 = st\<lparr>es_new_insertions := map insert_new (ps @ gs), es_new_ropes := es_new_ropes st1, es_new_fragments := es_new_fragments st1\<rparr>"
  proof (cases "k = frag_len f")
    case True
    have "ids_below N (next_id suf')" using ids_below_leave [of pre f suf' N] holdsD(8) [OF W(1)] W(5) suf by (simp add: next_id_def)
    then show ?thesis using True start W(4,6,7) suf by (intro that [of st "[]"]) (simp_all add: part_simps)
  next
    case less: False
    have n: "0 < frag_len f - k" "k + (frag_len f - k) \<le> frag_len f" "k + (frag_len f - k) = frag_len f"
      "str_is_char_boundary (bytes_of c (atoms_of f)) (k + (frag_len f - k))"
      using less k str_boundary_len [of "bytes_of c (atoms_of f)"] by auto
    define g where "g = cut_fragment f (msum m pre) (msum m pre + k) (msum m pre + frag_len f)"
    have g: "frag_len g = frag_len f - k" "frag_id g = frag_id f" "frag_key g = (frag_timestamp f, frag_offset f + k)"
      by (simp_all add: g_def cut_fragment_def frag_key_def)
    have atoms: "atoms_of g = part f k (frag_len f - k)"
      using atoms_of_cut [of "msum m pre" "msum m pre + k" "msum m pre + frag_len f" f] by (simp add: g_def part_def)
    have ids: "ids_below (N @ [g]) (next_id suf')"
      using holdsD(8) [OF W(1)] W(5) suf g(2) by (intro ids_below_next [of pre f]) (auto simp: next_id_def)
    obtain st1 where st1: "push_piece st g (frag_visible f) = Some st1"
      "built c s st1 (consumed pre (f # suf') (k + (frag_len f - k))) (N @ [g])"
      "covers pre (f # suf') (k + (frag_len f - k)) (N @ [g]) (ps @ [g])"
      "st1 = st\<lparr>es_new_insertions := map insert_new (ps @ [g]), es_new_ropes := es_new_ropes st1, es_new_fragments := es_new_fragments st1\<rparr>"
      using walk_piece [OF W(1,3,4,6,7) [unfolded suf] n(1,2,4) g(1) _ g(3)] atoms by auto
    show ?thesis
      using st1(1-3) n(3) ids atoms start reads(4) less k(1)
      by (intro that [of st1 "[g]", OF _ _ _ _ _ st1(4)]) (simp_all add: g_def)
  qed
  have sel: "es_old_fragments st1 = es_old_fragments st" "es_insertion_slices st1 = es_insertion_slices st"
    "es_new_insertions st1 = map insert_new (ps @ gs)" by (subst st1(6), simp)+
  obtain cur where cur: "cursor_next D (es_old_fragments st1) = Some cur"
    "walking c s t (st1\<lparr>es_old_fragments := cur\<rparr>) (pre @ [f]) suf' 0 (N @ gs) (ps @ gs)"
    using walk_leave [OF W(1) [unfolded suf] _ st1(2,3) sel(3) st1(4), of t] W(2) slices_grow(1) [OF W(8)] sel(1,2) suf by auto
  have "finish_fragment D loc st = Some (st1\<lparr>es_old_fragments := cur\<rparr>)"
    using st1(1) False start reads(2,3) cur(1) suf k(2)
    by (auto simp: finish_fragment_def Option.bind_eq_Some_conv split: if_splits)
  moreover have "st1\<lparr>es_old_fragments := cur\<rparr> = st\<lparr>es_old_fragments := cur, es_new_insertions := es_new_insertions st1,
      es_new_ropes := es_new_ropes st1, es_new_fragments := es_new_fragments st1\<rparr>" by (subst (1) st1(6)) (simp add: sel(3))
  ultimately show ?thesis using cur(2) False suf st1(5)
    by (intro exI [of _ "st1\<lparr>es_old_fragments := cur\<rparr>"] exI [of _ gs]) simp
qed

text \<open>The intersection of the current fragment with a range becomes the piece \<open>g\<close>.\<close>

lemma push_intersection_spec:
  assumes W: "holds c s (pre @ f # suf)" "cut_ok c (f # suf) k" "built c s st (consumed pre (f # suf) k) N"
      "es_new_insertions st = map insert_new ps" "covers pre (f # suf) k N ps"
    and cur: "cursor_at fragment_ops D (es_old_fragments st) pre (f # suf)"
    and slices: "\<exists>qs. es_insertion_slices st = map (slice_from_fragment t) qs \<and> mset qs \<subseteq># mset (N @ [g])"
    and n: "0 < n" "k + n \<le> frag_len f" "fragment_end \<le> range_end \<longleftrightarrow> k + n = frag_len f" "k + n < frag_len f \<Longrightarrow> m f = frag_len f"
    and cut: "str_is_char_boundary (bytes_of c (atoms_of f)) (k + n)"
    and g: "frag_len g = n" "bytes_of c (atoms_of g) = bytes_of c (part f k n)" "frag_key g = (frag_timestamp f, frag_offset f + k)"
    and ids: "if k + n < frag_len f then ids_below (N @ [g]) (frag_id f) else ids_below (N @ [g]) (next_id suf)"
  shows "\<exists>st'. push_intersection D range_end fragment_end ie g (frag_visible f) st = Some st' \<and>
    (if k + n < frag_len f then walking c s t st' pre (f # suf) (k + n) (N @ [g]) (ps @ [g])
     else walking c s t st' (pre @ [f]) suf 0 (N @ [g]) (ps @ [g])) \<and>
    st' = st\<lparr>es_old_fragments := es_old_fragments st', es_new_insertions := es_new_insertions st', es_new_ropes := es_new_ropes st',
      es_new_fragments := es_new_fragments st', es_fragment_start := ie\<rparr>"
proof -
  obtain st1 where st1: "push_piece st g (frag_visible f) = Some st1" "built c s st1 (consumed pre (f # suf) (k + n)) (N @ [g])"
    "covers pre (f # suf) (k + n) (N @ [g]) (ps @ [g])"
    "st1 = st\<lparr>es_new_insertions := map insert_new (ps @ [g]), es_new_ropes := es_new_ropes st1, es_new_fragments := es_new_fragments st1\<rparr>"
    using walk_piece [OF W n(1,2) cut g] by blast
  let ?st = "st1\<lparr>es_fragment_start := ie\<rparr>"
  have sel: "es_old_fragments ?st = es_old_fragments st" "es_insertion_slices ?st = es_insertion_slices st"
    "es_new_insertions ?st = map insert_new (ps @ [g])"
    by (subst st1(4), simp)+
  have built: "built c s ?st (consumed pre (f # suf) (k + n)) (N @ [g])" using st1(2) by (simp add: built_def)
  show ?thesis
  proof (cases "k + n < frag_len f")
    case True
    have "walking c s t ?st pre (f # suf) (k + n) (N @ [g]) (ps @ [g])"
      unfolding walking_def using W(1) cur sel built st1(3) slices ids True n cut by (simp add: cut_ok_def next_id_def)
    moreover have "push_intersection D range_end fragment_end ie g (frag_visible f) st = Some ?st"
      using st1(1) True n(1,3) g(1) by (simp add: push_intersection_def)
    moreover have "?st = st\<lparr>es_old_fragments := es_old_fragments st, es_new_insertions := map insert_new (ps @ [g]),
        es_new_ropes := es_new_ropes st1, es_new_fragments := es_new_fragments st1, es_fragment_start := ie\<rparr>" by (subst st1(4)) simp
    ultimately show ?thesis using True sel by (intro exI [of _ ?st]) simp
  next
    case False
    then have full: "k + n = frag_len f" using n(2) by simp
    obtain cur' where cur': "cursor_next D (es_old_fragments ?st) = Some cur'"
      "walking c s t (?st\<lparr>es_old_fragments := cur'\<rparr>) (pre @ [f]) suf 0 (N @ [g]) (ps @ [g])"
      using walk_leave [OF W(1) _ built [unfolded full] _ sel(3) st1(3) [unfolded full], of t] cur ids slices sel(1,2) False by auto
    have "push_intersection D range_end fragment_end ie g (frag_visible f) st = Some (?st\<lparr>es_old_fragments := cur'\<rparr>)"
      using st1(1) full n(1,3) g(1) cur'(1) by (simp add: push_intersection_def)
    moreover have "?st\<lparr>es_old_fragments := cur'\<rparr> = st\<lparr>es_old_fragments := cur', es_new_insertions := map insert_new (ps @ [g]),
        es_new_ropes := es_new_ropes st1, es_new_fragments := es_new_fragments st1, es_fragment_start := ie\<rparr>" by (subst st1(4)) simp
    ultimately show ?thesis using False cur'(2) sel(3) by (intro exI [of _ "?st\<lparr>es_old_fragments := cur'\<rparr>"]) simp
  qed
qed

text \<open>Going on to the next range, with what lies in front of it kept as it is.\<close>

lemma advance_spec:
  assumes w: "walking c s t st pre suf 0 N ps" and n: "msum m pre \<le> n"
  shows "\<exists>st' l r. advance_to D loc (target n) b st = Some st' \<and> suf = l @ r \<and> walking c s t st' (pre @ l) r 0 (N @ l) ps \<and>
    (l \<noteq> [] \<longrightarrow> passes b n (msum m (pre @ l))) \<and> (r \<noteq> [] \<longrightarrow> \<not> passes b n (msum m (pre @ l @ take 1 r))) \<and>
    st' = st\<lparr>es_old_fragments := es_old_fragments st', es_new_ropes := es_new_ropes st', es_new_fragments := es_new_fragments st',
      es_fragment_start := msum m (pre @ l)\<rparr>"
proof -
  note W = walkingD [OF w]
  obtain sl cur l r where cur: "cursor_slice fragment_ops D (target n) b (es_old_fragments st) = Some (sl, cur)" "suf = l @ r"
    "wf_tree fragment_ops sl" "tree_items sl = l" "cursor_at fragment_ops D cur (pre @ l) r"
    "l \<noteq> [] \<longrightarrow> passes b n (msum m (pre @ l))" "r \<noteq> [] \<longrightarrow> \<not> passes b n (msum m (pre @ l @ take 1 r))"
    using walk_slice [OF _ n, of "es_old_fragments st" suf b] W(2) holdsD(7) [OF W(1)] unfolding cursor_before_def by (auto simp: frag_ok_def)
  have b0: "built c s (st\<lparr>es_old_fragments := cur\<rparr>) (atoms pre) N" using W(4) by (simp add: built_def)
  obtain st1 where st1: "append_slice (st\<lparr>es_old_fragments := cur\<rparr>) sl = Some st1" "built c s st1 (atoms (pre @ l)) (N @ l)"
    "st1 = st\<lparr>es_old_fragments := cur, es_new_ropes := es_new_ropes st1, es_new_fragments := es_new_fragments st1\<rparr>"
    using append_slice_spec [OF W(1) [unfolded cur(2)] b0 cur(3,4)] by auto
  let ?st = "st1\<lparr>es_fragment_start := msum m (pre @ l)\<rparr>"
  have sel: "es_old_fragments st1 = cur" "es_insertion_slices st1 = es_insertion_slices st" "es_new_insertions st1 = es_new_insertions st"
    by (subst st1(3), simp)+
  have "walking c s t ?st (pre @ l) r 0 (N @ l) ps"
    unfolding walking_def using W(1,6) cur(2,5) sel st1(2) slices_grow(1) [OF W(8), of l] covers_slice W(7)
      ids_below_keep [of pre l r N] holdsD(8) [OF W(1)] W(5) by (simp add: built_def)
  moreover have "advance_to D loc (target n) b st = Some ?st"
    using cur(1,5) st1(1) cursor_reads(2) [of st1 "pre @ l" r] sel(1) by (simp add: advance_to_def)
  moreover have "?st = st\<lparr>es_old_fragments := cur, es_new_ropes := es_new_ropes st1, es_new_fragments := es_new_fragments st1,
      es_fragment_start := msum m (pre @ l)\<rparr>" by (subst st1(3)) simp
  ultimately show ?thesis using cur(2,6,7) sel(1) by (intro exI [of _ ?st] exI [of _ l] exI [of _ r]) simp
qed

lemma start_edit_spec:
  assumes "holds c s F"
  shows "\<exists>st l r. start_edit s D loc (target n) b = Some st \<and> F = l @ r \<and> walking c s t st l r 0 l [] \<and>
    (l \<noteq> [] \<longrightarrow> passes b n (msum m l)) \<and> (r \<noteq> [] \<longrightarrow> \<not> passes b n (msum m (l @ take 1 r))) \<and>
    es_fragment_start st = msum m l \<and> es_edits_patch st = [] \<and> es_insertion_offset st = 0"
proof -
  note h = holdsD [OF assms]
  obtain v d where vd: "rope_cursor_new (visible_text s) 0 = Some v" "rope_at_boundary (visible_text s) v 0"
    "rope_cursor_new (deleted_text s) 0 = Some d" "rope_at_boundary (deleted_text s) d 0"
    using rope_at_start h(3,5) by blast
  obtain sl cur l r where cur: "cursor_slice fragment_ops D (target n) b (cursor_new D (fragments s)) = Some (sl, cur)" "F = l @ r"
    "wf_tree fragment_ops sl" "tree_items sl = l" "cursor_at fragment_ops D cur l r"
    "l \<noteq> [] \<longrightarrow> passes b n (msum m l)" "r \<noteq> [] \<longrightarrow> \<not> passes b n (msum m (l @ take 1 r))"
    using walk_slice [OF cursor_before_new [OF h(1)], of n b] h(2,7) by (auto simp: frag_ok_def)
  note sums = tree_texts [OF cur(3,4)]
  have h0: "holds c s ([] @ l @ r)" using assms cur(2) by simp
  have "rope_builder_at (visible_text s) (deleted_text s) (rope_builder_new v d) (length (shown c (atoms []))) (length (hidden c (atoms []))) [] []"
    using vd(2,4) by (simp add: rope_builder_at_def rope_builder_new_def)
  then obtain ropes where ropes: "rope_builder_append (rope_builder_new v d) (fs_text (node_summary sl)) = Some ropes"
    "rope_builder_at (visible_text s) (deleted_text s) ropes (length (shown c (atoms l))) (length (hidden c (atoms l)))
      (shown c (atoms l)) (hidden c (atoms l))"
    using append_ropes_spec [OF h0, of "rope_builder_new v d" "[]" "[]"] sums by auto
  define st where "st = \<lparr>es_old_fragments = cur, es_new_fragments = fragment_builder_new sl, es_new_ropes = ropes, es_new_insertions = [],
       es_insertion_slices = [], es_insertion_offset = 0, es_fragment_start = msum m l, es_edits_patch = patch_empty\<rparr>"
  have "loc_start loc st = Some (msum m l)" using cursor_reads(2) [of st l r] cur(5) by (simp add: st_def)
  then have "start_edit s D loc (target n) b = Some st"
    using vd(1,3) cur(1) ropes(1) by (simp add: start_edit_def st_def Let_def loc_start_def fragment_builder_new_def)
  moreover have "walking c s t st l r 0 l []"
    unfolding walking_def using assms cur(2,5) ropes(2) h(7) clean_frags [of l c] ids_below_keep [of "[]" l r "[]"] h(8)
      builds_new [OF cur(3)] cur(4) covers_start [of l r] next_id_bounds [of "l @ r"]
    by (simp add: built_def st_def ids_below_def)
  ultimately show ?thesis using cur(2,6,7) by (intro exI [of _ st] exI [of _ l] exI [of _ r]) (simp add: st_def patch_empty_def)
qed

text \<open>Inserting new text in front of the fragments that are left.\<close>

lemma insert_spec:
  assumes w: "walking c s t st pre suf k N ps" and len: "4 \<le> max_len" and u: "utf8_ok u" "writes c t off u"
    and off: "es_insertion_offset st = off"
  shows "\<exists>st' gs. push_fragments_for_insertion max_len u t (next_id suf) t st = Some st' \<and>
    walking c s t st' pre suf k (N @ gs) (ps @ gs) \<and> atoms gs = new_atoms t off (length u) \<and>
    st' = st\<lparr>es_insertion_slices := es_insertion_slices st', es_new_insertions := es_new_insertions st',
      es_new_fragments := es_new_fragments st', es_insertion_offset := off + length u, es_new_ropes := es_new_ropes st'\<rparr>"
proof -
  note W = walkingD [OF w]
  have bounds: "locator_min < next_id suf" "next_id suf \<le> locator_max" "last (next_id suf) \<noteq> 0"
    using next_id_bounds [of suf] holdsD(8) [OF W(1)] by auto
  obtain gs st' where st': "push_fragments_for_insertion max_len u t (next_id suf) t st = Some st'"
    "built c s st' (consumed pre suf k) (N @ gs)" "ids_below (N @ gs) (next_id suf)" "atoms gs = new_atoms t off (length u)"
    "st' = st\<lparr>es_insertion_slices := es_insertion_slices st @ map (slice_from_fragment t) gs,
      es_new_insertions := es_new_insertions st @ map insert_new gs, es_new_fragments := es_new_fragments st',
      es_insertion_offset := off + length u, es_new_ropes := es_new_ropes st'\<rparr>"
    using push_fragments_spec [OF len u bounds off W(4,5)] by blast
  have sel: "es_old_fragments st' = es_old_fragments st" "es_insertion_slices st' = es_insertion_slices st @ map (slice_from_fragment t) gs"
    "es_new_insertions st' = map insert_new (ps @ gs)" by (subst st'(5), simp add: W(6))+
  have "walking c s t st' pre suf k (N @ gs) (ps @ gs)"
    unfolding walking_def using W(1-3) st'(2,3) sel slices_grow(2) [OF W(8), of gs] covers_new [OF W(7), of gs] by (simp only: simp_thms)
  moreover have "st' = st\<lparr>es_insertion_slices := es_insertion_slices st', es_new_insertions := es_new_insertions st',
      es_new_fragments := es_new_fragments st', es_insertion_offset := off + length u, es_new_ropes := es_new_ropes st'\<rparr>"
    by (subst (1) st'(5)) (simp add: sel W(6))
  ultimately show ?thesis using st'(1,4) by blast
qed

lemma next_fragment_reads:
  assumes "cursor_at fragment_ops D (es_old_fragments st) pre suf"
  shows "next_fragment_id st = Some (next_id suf)"
  using cursor_reads(1) [OF assms] by (cases suf) (simp_all add: next_fragment_id_def next_id_def head_opt_def)

text \<open>The rest of the fragments is kept, and the snapshot takes over what was built.\<close>

lemma finish_edit_spec:
  assumes w: "walking c s t st pre suf k N ps" and start: "es_fragment_start st = msum m pre + k"
    and fresh: "distinct (map atom_id (atoms N @ drop k (atoms suf)))"
  shows "\<exists>s' F'. finish_edit s D loc st = Some (s', es_edits_patch st) \<and> holds c s' F' \<and> atoms F' = atoms N @ drop k (atoms suf) \<and>
    set_abs (insertion_slices s') = set_abs (insertion_slices s) \<union> set (es_insertion_slices st) \<and>
    s' = s\<lparr>visible_text := visible_text s', deleted_text := deleted_text s', fragments := fragments s', insertions := insertions s',
      insertion_slices := insertion_slices s'\<rparr>"
proof -
  note W = walkingD [OF w]
  obtain st1 gs pre1 suf1 where st1: "finish_fragment D loc st = Some st1"
    "walking c s t st1 pre1 suf1 0 (N @ gs) (ps @ gs)" "pre1 @ suf1 = pre @ suf" "atoms gs @ atoms suf1 = drop k (atoms suf)"
    "st1 = st\<lparr>es_old_fragments := es_old_fragments st1, es_new_insertions := es_new_insertions st1, es_new_ropes := es_new_ropes st1,
      es_new_fragments := es_new_fragments st1\<rparr>"
  proof -
    obtain st1 gs where st1: "finish_fragment D loc st = Some st1"
      "walking c s t st1 (pre @ (if k = 0 then [] else take 1 suf)) (if k = 0 then suf else tl suf) 0 (N @ gs) (ps @ gs)"
      "atoms gs = (if k = 0 then [] else part (hd suf) k (frag_len (hd suf) - k))"
      "st1 = st\<lparr>es_old_fragments := es_old_fragments st1, es_new_insertions := es_new_insertions st1, es_new_ropes := es_new_ropes st1,
        es_new_fragments := es_new_fragments st1\<rparr>"
      using finish_fragment_spec [OF w start] by blast
    have "atoms gs @ atoms (if k = 0 then suf else tl suf) = drop k (atoms suf)"
      using st1(3) W(3) by (cases suf) (auto simp: cut_ok_def part_def)
    moreover have "(pre @ (if k = 0 then [] else take 1 suf)) @ (if k = 0 then suf else tl suf) = pre @ suf"
      by (cases suf) auto
    ultimately show ?thesis using that st1 by blast
  qed
  note W1 = walkingD [OF st1(2)]
  obtain sl cur where cur: "cursor_suffix fragment_ops D (es_old_fragments st1) = Some (sl, cur)" "wf_tree fragment_ops sl" "tree_items sl = suf1"
    using walk_suffix [OF W1(2)] by blast
  have h1: "holds c s (pre1 @ suf1 @ [])" and b1: "built c s st1 (atoms pre1) (N @ gs)" using W1(1,4) by simp_all
  obtain st2 where st2: "append_slice st1 sl = Some st2" "built c s st2 (atoms (pre1 @ suf1)) ((N @ gs) @ suf1)"
    "st2 = st1\<lparr>es_new_ropes := es_new_ropes st2, es_new_fragments := es_new_fragments st2\<rparr>"
    using append_slice_spec [OF h1 b1 cur(2,3)] by blast
  let ?N = "(N @ gs) @ suf1"
  note h = holdsD [OF W1(1)]
  have atoms: "atoms ?N = atoms N @ drop k (atoms suf)" using st1(4) by simp
  have b2: "builds (es_new_fragments st2) ?N" "\<forall>g \<in> set ?N. frag_ok c g"
    "rope_builder_at (visible_text s) (deleted_text s) (es_new_ropes st2) (length (rope_text (visible_text s)))
      (length (rope_text (deleted_text s))) (shown c (atoms ?N)) (hidden c (atoms ?N))"
    using st2(2) h(4,6) by (auto simp: built_def)
  obtain v d where vd: "rope_builder_finish (es_new_ropes st2) = Some (v, d)" "rope_ok v" "rope_text v = shown c (atoms ?N)"
    "rope_ok d" "rope_text d = hidden c (atoms ?N)"
    using rope_builder_finish_spec [OF b2(3)] by auto
  obtain ft where ft: "to_sum_tree (es_new_fragments st2) = Some ft" "wf_tree fragment_ops ft" "tree_items ft = ?N"
    using to_sum_tree_spec [OF b2(1)] by blast
  have cov: "covers (pre1 @ suf1) [] 0 ?N (ps @ gs)" using covers_slice [of pre1 suf1 "[]" "N @ gs" "ps @ gs"] W1(7) by simp
  have dN: "distinct (map atom_id (atoms ?N))" using fresh atoms by simp
  have ins: "es_new_insertions st2 = map insert_new (ps @ gs)" "es_insertion_slices st2 = es_insertion_slices st" "es_edits_patch st2 = es_edits_patch st"
    by (subst st2(3), simp add: W1(6)) (subst st2(3), simp, subst st1(5), simp)+
  obtain it old where it: "edit_tree insertion_ops insertion_dim insertion_key (insertions s) (map insert_new (ps @ gs)) = Some (it, old)"
    "insertions_for it ?N"
    using insertions_edited [OF h(10) cov dN b2(2) h(9,7)] by blast
  have dsl: "distinct (es_insertion_slices st)"
  proof -
    obtain qs where qs: "es_insertion_slices st = map (slice_from_fragment t) qs" "mset qs \<subseteq># mset N" using W(8) by blast
    have "mset qs \<subseteq># mset ?N" using qs(2) by (metis mset_snoc_mono(2) append_assoc)
    then have "distinct (map frag_key qs)" using keys_of_pieces(1) dN b2(2) by blast
    then have "distinct (map (slice_from_fragment t) qs)" by (auto simp: distinct_map inj_on_def slice_from_fragment_def frag_key_def)
    then show ?thesis using qs(1) by simp
  qed
  obtain sls where sls: "set_extend (insertion_slices s) (es_insertion_slices st) = Some sls" "map_inv sls"
    "set_abs sls = set_abs (insertion_slices s) \<union> set (es_insertion_slices st)"
    using set_extend_spec [OF h(11) dsl] by blast
  have "ids_below ?N (next_id [])"
    by (rule ids_below_keep [of pre1 suf1 "[]"]) (simp_all only: append_Nil2 h(8) W1(5))
  then have ids: "ids_ok ?N" unfolding ids_below_def by blast
  let ?s = "s\<lparr>fragments := ft, visible_text := v, deleted_text := d, insertions := it, insertion_slices := sls\<rparr>"
  have "holds c ?s ?N" unfolding holds_def using ft(2,3) vd(2-5) b2(2) ids dN it(2) sls(2) h(12) by simp
  moreover have "finish_edit s D loc st = Some (?s, es_edits_patch st)"
    using st1(1) cur(1) st2(1) vd(1) ft(1) it(1) sls(1) ins by (simp add: finish_edit_def)
  ultimately show ?thesis using atoms sls(3) by (intro exI [of _ ?s] exI [of _ ?N]) simp
qed

end

end
