(* ===== verification/Local_Edit.thy ===== *)
theory Local_Edit
  imports Edit_Walk
begin

text \<open>
  \<open>apply_edit_internal\<close>: an edit made on this replica. Its ranges are offsets of the visible text, so its cursor counts the
  visible bytes and passes invisible fragments. The contract: on a snapshot that holds a document, sorted disjoint ranges at
  character boundaries, the function returns, the new snapshot holds the edited document, the visible text is the edited
  text, the patch leads from the old text to the new one, and the ranges of the operation are the same ranges in the offsets
  of the whole document.
\<close>

subsection \<open>The cursor over the visible text\<close>

definition visible_bytes :: "fragment \<Rightarrow> nat" where
  "visible_bytes f = (if frag_visible f then frag_len f else 0)"

lemma msum_visible [simp]: "msum visible_bytes fs = visible_len fs"
  by (induction fs) (simp_all add: visible_bytes_def)

lemma beyond_visible: "beyond (visible_target n) b d \<longleftrightarrow> passes b n (ft_visible d)"
  by (cases b) (auto simp: beyond_def visible_target_def passes_def cmp_def)

lemma text_zero [simp]: "dzero fragment_text_dim = \<lparr>ft_visible = 0, ft_deleted = 0\<rparr>"
  by (simp add: fragment_text_dim_def fragment_text_summary_default_def)

lemma ends_grow: "e \<in> set (ends fragment_ops fragment_text_dim d fs) \<Longrightarrow> ft_visible d \<le> ft_visible e"
proof (induction fs arbitrary: d)
  case (Cons f fs)
  have "ft_visible d \<le> ft_visible (dadd fragment_text_dim d (fragment_item_summary f))"
    by (simp add: fragment_text_dim_def text_summary_plus_def)
  then show ?case using Cons.IH [of "dadd fragment_text_dim d (fragment_item_summary f)"] Cons.prems by fastforce
qed simp

lemma visible_sorted: "target_sorted fragment_ops fragment_text_dim (beyond (visible_target n) b) d fs"
proof (induction fs arbitrary: d)
  case (Cons f fs)
  then show ?case
    using ends_grow by (fastforce simp: target_sorted_def beyond_visible passes_def split: if_splits)
qed (simp add: target_sorted_def)

lemma visible_walk_slice:
  assumes "cursor_before fragment_ops fragment_text_dim cur pre suf" "msum visible_bytes pre \<le> n"
  shows "\<exists>t cur' l r. cursor_slice fragment_ops fragment_text_dim (visible_target n) b cur = Some (t, cur') \<and> suf = l @ r \<and>
    wf_tree fragment_ops t \<and> tree_items t = l \<and> cursor_at fragment_ops fragment_text_dim cur' (pre @ l) r \<and> cur_tree cur' = cur_tree cur \<and>
    (l \<noteq> [] \<longrightarrow> passes b n (msum visible_bytes (pre @ l))) \<and> (r \<noteq> [] \<longrightarrow> \<not> passes b n (msum visible_bytes (pre @ l @ take 1 r)))"
proof -
  let ?D = fragment_text_dim and ?sk = "beyond (visible_target n) b"
  have pos: "cur_pos cur = pos_after fragment_ops ?D (dzero ?D) pre"
    using assms(1) by (auto simp: cursor_before_def cursor_at_def cursor_fresh_def)
  then have "visible_target n (cur_pos cur) \<noteq> Less" using assms(2)
    by (simp add: visible_target_def cmp_def fragment_text_pos)
  moreover obtain l p r where seek: "seek_list fragment_ops ?D ?sk (cur_pos cur) suf = (l, p, r)" by (metis prod_cases3)
  ultimately obtain t cur' where t: "cursor_slice fragment_ops ?D (visible_target n) b cur = Some (t, cur')" "wf_tree fragment_ops t"
    "tree_items t = l" "cursor_at fragment_ops ?D cur' (pre @ l) r" "cur_tree cur' = cur_tree cur"
    using by_fragment_text.cursor_slice_spec [OF assms(1) _ visible_sorted] by blast
  have parts: "suf = l @ r" "p = pos_after fragment_ops ?D (cur_pos cur) l"
    "r \<noteq> [] \<longrightarrow> \<not> ?sk (dadd ?D p (ssummary fragment_ops (hd r)))"
    using seek_list_parts [OF seek] by auto
  have at_pos: "ft_visible (pos_after fragment_ops ?D (cur_pos cur) fs) = msum visible_bytes (pre @ fs)" for fs
    by (simp add: pos fragment_text_pos)
  have "passes b n (msum visible_bytes (pre @ l))" if "l \<noteq> []"
    using seek_list_skipped [OF seek] pos_after_in_ends [OF that] at_pos [of l] by (metis beyond_visible)
  moreover have "\<not> passes b n (msum visible_bytes (pre @ l @ take 1 r))" if "r \<noteq> []"
    using parts(2,3) that at_pos [of "l @ take 1 r"] by (cases r) (auto simp: beyond_visible)
  ultimately show ?thesis using t parts(1) by blast
qed

interpretation visible_walk: edit_walk fragment_text_dim visible_loc visible_bytes visible_target
proof
  fix f show "visible_bytes f = 0 \<or> visible_bytes f = frag_len f" by (simp add: visible_bytes_def)
next
  fix fs show "visible_loc (pos_after fragment_ops fragment_text_dim (dzero fragment_text_dim) fs) = Some (msum visible_bytes fs)"
    by (simp add: visible_loc_def fragment_text_pos)
next
  fix cur pre f suf assume "cursor_at fragment_ops fragment_text_dim cur pre (f # suf)"
  then show "\<exists>cur'. cursor_next fragment_text_dim cur = Some cur' \<and> cursor_at fragment_ops fragment_text_dim cur' (pre @ [f]) suf \<and>
      cur_tree cur' = cur_tree cur"
    using by_fragment_text.cursor_next_spec by fastforce
next
  fix cur pre suf assume "cursor_at fragment_ops fragment_text_dim cur pre suf"
  then show "\<exists>t cur'. cursor_suffix fragment_ops fragment_text_dim cur = Some (t, cur') \<and> wf_tree fragment_ops t \<and> tree_items t = suf"
    by (rule by_fragment_text.cursor_suffix_at)
qed (rule visible_walk_slice)

subsection \<open>Deleting a range\<close>

text \<open>
  The state in front of the visible offset \<open>x\<close>: the atoms \<open>P\<close> are consumed and have become \<open>A\<close>, \<open>off\<close> bytes were inserted so
  far, and the patch leads from the text that was read to the text that was written.
\<close>

definition editing ::
  "content \<Rightarrow> buffer_snapshot \<Rightarrow> lamport \<Rightarrow> fragment_text_summary edit_state \<Rightarrow> fragment list \<Rightarrow> fragment list \<Rightarrow> nat
     \<Rightarrow> atom list \<Rightarrow> atom list \<Rightarrow> nat \<Rightarrow> bool" where
  "editing c s t st pre suf k P A off \<longleftrightarrow>
     (\<exists>N ps. visible_walk.walking c s t st pre suf k N ps \<and> atoms N = A) \<and> P = consumed pre suf k \<and>
     es_fragment_start st = visible_len pre + k \<and> es_insertion_offset st = off \<and>
     spans (es_edits_patch st) (shown c P) (shown c A)"

lemma editingI:
  "visible_walk.walking c s t st pre suf k N ps \<Longrightarrow> A = atoms N \<Longrightarrow> P = consumed pre suf k \<Longrightarrow>
    es_fragment_start st = visible_len pre + k \<Longrightarrow> es_insertion_offset st = off \<Longrightarrow>
    spans (es_edits_patch st) (shown c P) (shown c A) \<Longrightarrow> editing c s t st pre suf k P A off"
  unfolding editing_def by blast

lemma consumed_len:
  assumes "visible_walk.cut_ok c suf k"
  shows "length (shown c (consumed pre suf k)) = visible_len pre + k" "length (consumed pre suf k) = visible_len pre + deleted_len pre + k"
proof -
  show "length (shown c (consumed pre suf k)) = visible_len pre + k"
    using assms by (cases suf) (auto simp: visible_walk.cut_ok_def visible_bytes_def shown_part part_simps split: if_splits)
  show "length (consumed pre suf k) = visible_len pre + deleted_len pre + k"
    using assms by (cases suf) (auto simp: visible_walk.cut_ok_def part_simps length_atoms)
qed

lemma boundary_in_fragment:
  assumes "str_is_char_boundary (shown c (atoms (pre @ f # suf))) (visible_len pre + n)" "n \<le> visible_bytes f"
  shows "str_is_char_boundary (bytes_of c (atoms_of f)) n"
proof (cases "frag_visible f")
  case True
  then show ?thesis
    using assms boundary_inner [of "shown c (atoms pre)" "bytes_of c (atoms_of f)" "shown c (atoms suf)" n] by (simp add: visible_bytes_def)
qed (use assms(2) in \<open>simp add: visible_bytes_def str_is_char_boundary_def\<close>)

lemma mark_part: "\<not> frag_visible f \<Longrightarrow> map (mark_deleted t) (part f k n) = part f k n"
  by (simp add: part_def take_map [symmetric] drop_map [symmetric] mark_hidden)

lemma delete_step_spec:
  assumes e: "editing c s t st pre (f # suf) k P A off" and b: "visible_len pre + k < b"
    and bound: "b \<le> visible_len pre + frag_len f \<Longrightarrow> str_is_char_boundary (shown c (atoms (pre @ f # suf))) b"
  shows "\<exists>st' R. delete_step t b st = Some st' \<and>
    (if b < visible_len pre + visible_bytes f
     then editing c s t st' pre (f # suf) (b - visible_len pre) (P @ R) (A @ map (mark_deleted t) R) off
     else editing c s t st' (pre @ [f]) suf 0 (P @ R) (A @ map (mark_deleted t) R) off)"
proof -
  obtain N ps where w: "visible_walk.walking c s t st pre (f # suf) k N ps" "atoms N = A" and P: "P = consumed pre (f # suf) k"
    and start: "es_fragment_start st = visible_len pre + k" and off: "es_insertion_offset st = off"
    and sp: "spans (es_edits_patch st) (shown c P) (shown c A)"
    using e by (auto simp: editing_def)
  note W = visible_walk.walkingD [OF w(1)]
  note reads = visible_walk.cursor_reads [OF W(2)] visible_walk.unwrap_reads [OF W(2)]
  note h = holdsD [OF W(1)]
  have f: "frag_ok c f" using h(7) by simp
  have k: "k \<le> frag_len f" "str_is_char_boundary (bytes_of c (atoms_of f)) k" using W(3) by (simp_all add: visible_walk.cut_ok_def)
  define ie where "ie = min b (visible_len pre + visible_bytes f)"
  show ?thesis
  proof (cases "frag_visible f")
    case False
    then have k0: "k = 0" and vb: "visible_bytes f = 0" using visible_walk.cut_len [OF _ W(3)] f
      by (auto simp: visible_bytes_def frag_ok_def)
    have whole: "0 < frag_len f" "0 + frag_len f \<le> frag_len f" "str_is_char_boundary (bytes_of c (atoms_of f)) (0 + frag_len f)"
      using f str_boundary_len [of "bytes_of c (atoms_of f)"] by (auto simp: frag_ok_def)
    have ids: "ids_below (N @ [f]) (next_id suf)" using h(8) W(5) by (intro ids_below_next [of pre f]) (auto simp: next_id_def)
    obtain st' where st': "push_intersection fragment_text_dim b (visible_len pre) ie f (frag_visible f) st = Some st'"
      "visible_walk.walking c s t st' (pre @ [f]) suf 0 (N @ [f]) (ps @ [f])"
      "st' = st\<lparr>es_old_fragments := es_old_fragments st', es_new_insertions := es_new_insertions st', es_new_ropes := es_new_ropes st',
        es_new_fragments := es_new_fragments st', es_fragment_start := ie\<rparr>"
      using visible_walk.push_intersection_spec [OF W(1,3,4,6,7) [unfolded k0] W(2) slices_grow(1) [OF W(8), of "[f]"] whole(1,2) _ _ whole(3) refl,
          of "visible_len pre" b ie] b k0 ids part_simps(3) [of f] by (auto simp: frag_key_def)
    have "delete_step t b st = Some st'"
      using reads st'(1) False vb by (simp add: delete_step_def ie_def Let_def)
    moreover have "es_fragment_start st' = visible_len (pre @ [f])" "es_insertion_offset st' = off" "es_edits_patch st' = es_edits_patch st"
      using b vb off False by (subst st'(3), simp add: ie_def)+
    moreover have "P @ atoms_of f = atoms (pre @ [f])" using P k0 by simp
    moreover have "spans (es_edits_patch st) (shown c (atoms (pre @ [f]))) (shown c (A @ map (mark_deleted t) (atoms_of f)))"
      using sp P k0 False by simp
    ultimately show ?thesis using st'(2) vb b w(2) mark_hidden [OF False]
      by (intro exI [of _ st'] exI [of _ "atoms_of f"]) (auto simp: editing_def)
  next
    case True
    then have vb: "visible_bytes f = frag_len f" by (simp add: visible_bytes_def)
    note reads = reads(1) reads(2) reads(3) [simplified] reads(4)
    show ?thesis
    proof (cases "k = frag_len f")
      case full: True
      have ids: "ids_below N (next_id suf)" using ids_below_leave [of pre f suf N] h(8) W(5) by (simp add: next_id_def)
      obtain cur where cur: "cursor_next fragment_text_dim (es_old_fragments st) = Some cur"
        "visible_walk.walking c s t (st\<lparr>es_old_fragments := cur\<rparr>) (pre @ [f]) suf 0 N ps"
        using visible_walk.walk_leave [OF W(1,2) W(4) [unfolded full] ids W(6) W(7) [unfolded full] W(8)] by blast
      have "delete_step t b st = Some (st\<lparr>es_old_fragments := cur\<rparr>)"
        using reads cur(1) True vb start full b by (simp add: delete_step_def Let_def cut_fragment_def push_intersection_def)
      then show ?thesis using cur(2) w(2) P full start off sp True b vb
        by (intro exI [of _ "st\<lparr>es_old_fragments := cur\<rparr>"] exI [of _ "[]"]) (auto simp: editing_def part_simps)
    next
      case False
      define n where "n = ie - (visible_len pre + k)"
      have n: "0 < n" "k + n \<le> frag_len f" "visible_len pre + k + n = ie" "k + n = frag_len f \<longleftrightarrow> visible_len pre + frag_len f \<le> b"
        using False k(1) b vb by (auto simp: n_def ie_def min_def)
      have cut: "str_is_char_boundary (bytes_of c (atoms_of f)) (k + n)"
      proof (cases "k + n = frag_len f")
        case True
        then show ?thesis using str_boundary_len [of "bytes_of c (atoms_of f)"] by simp
      next
        case False
        then have "visible_len pre + (k + n) = b" using n by (auto simp: ie_def vb)
        then show ?thesis using bound n(2) boundary_in_fragment [of c pre f suf "k + n"] vb by auto
      qed
      define g where "g = (cut_fragment f (visible_len pre) (visible_len pre + k) ie)\<lparr>frag_id := between (top_id N) (frag_id f),
        frag_deletions := frag_deletions f @ [t], frag_visible := False\<rparr>"
      have g: "frag_len g = n" "frag_key g = (frag_timestamp f, frag_offset f + k)" "frag_id g = between (top_id N) (frag_id f)" "\<not> frag_visible g"
        using n by (simp_all add: g_def n_def cut_fragment_def frag_key_def)
      have atoms: "atoms_of g = map (mark_deleted t) (part f k n)"
        using atoms_of_deleted(2) [of "cut_fragment f (visible_len pre) (visible_len pre + k) ie" t]
          atoms_of_cut [of "visible_len pre" "visible_len pre + k" ie f] True n by (simp add: g_def part_def cut_fragment_def n_def [symmetric])
      define st0 where "st0 = (push_edit st (visible_len pre + k) ie (new_visible_len st) (new_visible_len st))
        \<lparr>es_insertion_slices := es_insertion_slices st @ [slice_from_fragment t g]\<rparr>"
      have st0: "es_old_fragments st0 = es_old_fragments st" "built c s st0 (consumed pre (f # suf) k) N" "es_new_insertions st0 = map insert_new ps"
        "\<exists>qs. es_insertion_slices st0 = map (slice_from_fragment t) qs \<and> mset qs \<subseteq># mset (N @ [g])"
        using W(4,6) slices_grow(2) [OF W(8), of "[g]"] by (simp_all add: st0_def push_edit_def built_def)
      have ids: "ids_below (N @ [g]) (frag_id f)"
        using h(8) W(5) g(3) by (intro ids_below_between) (auto simp: next_id_def id_ok_def less_imp_le)
      have ids': "if k + n < frag_len f then ids_below (N @ [g]) (frag_id f) else ids_below (N @ [g]) (next_id suf)"
        using ids ids_below_leave [OF _ ids] h(8) by auto
      have bytes: "bytes_of c (atoms_of g) = bytes_of c (part f k n)" by (simp add: atoms)
      obtain st' where st': "push_intersection fragment_text_dim b (visible_len pre + frag_len f) ie g (frag_visible f) st0 = Some st'"
        "if k + n < frag_len f then visible_walk.walking c s t st' pre (f # suf) (k + n) (N @ [g]) (ps @ [g])
           else visible_walk.walking c s t st' (pre @ [f]) suf 0 (N @ [g]) (ps @ [g])"
        "st' = st0\<lparr>es_old_fragments := es_old_fragments st', es_new_insertions := es_new_insertions st', es_new_ropes := es_new_ropes st',
          es_new_fragments := es_new_fragments st', es_fragment_start := ie\<rparr>"
        using visible_walk.push_intersection_spec [OF W(1,3) st0(2,3) W(7) _ st0(4) n(1,2) n(4) [symmetric] vb cut g(1) bytes g(2) ids', of ie]
          W(2) st0(1) by auto
      have "delete_step t b st = Some st'"
        using reads True vb start st'(1) g(1,4) n(1) built_ids(1) [OF W(4)]
        by (simp add: delete_step_def Let_def ie_def [symmetric, unfolded vb] g_def [symmetric] st0_def)
      moreover have "es_fragment_start st' = ie" "es_insertion_offset st' = off" "es_edits_patch st' = es_edits_patch st0"
        using off by (subst st'(3), simp add: st0_def push_edit_def)+
      moreover have "spans (es_edits_patch st0) (shown c (P @ part f k n)) (shown c (A @ map (mark_deleted t) (part f k n)))"
        using spans_push [OF sp, of "shown c (part f k n)" "[]"] consumed_len(1) [OF W(3)] built_ids(2) [OF W(4)] P w(2) n(2,3) True
        by (simp add: st0_def push_edit_def push_span_def shown_part part_simps)
      moreover have "P @ part f k n = consumed pre (f # suf) (k + n)" using P consumed_add [OF n(2)] by simp
      moreover have new: "A @ map (mark_deleted t) (part f k n) = atoms (N @ [g])" using w(2) atoms by simp
      moreover have "b < visible_len pre + visible_bytes f \<longleftrightarrow> k + n < frag_len f" "k + n < frag_len f \<Longrightarrow> b - visible_len pre = k + n"
        "\<not> k + n < frag_len f \<Longrightarrow> consumed pre (f # suf) (k + n) = atoms (pre @ [f]) \<and> ie = visible_len (pre @ [f])"
        using n vb consumed_all [of pre f suf] True by (auto simp: ie_def min_def split: if_splits)
      ultimately show ?thesis using st'(2) n(3)
        by (intro exI [of _ st'] exI [of _ "part f k n"]) (auto intro!: editingI simp del: atoms_simps consumed_simps(2))
    qed
  qed
qed

lemma editingD:
  assumes "editing c s t st pre suf k P A off"
  shows "holds c s (pre @ suf)" "P = consumed pre suf k" "es_fragment_start st = visible_len pre + k"
    "length (shown c P) = visible_len pre + k" "length P = visible_len pre + deleted_len pre + k"
    "spans (es_edits_patch st) (shown c P) (shown c A)" "es_insertion_offset st = off" "visible_walk.cut_ok c suf k"
    "cursor_at fragment_ops fragment_text_dim (es_old_fragments st) pre suf"
  using assms consumed_len [of c suf k pre] visible_walk.walkingD(1-3) by (auto simp: editing_def)

lemma atoms_consumed: "atoms (pre @ suf) = consumed pre suf k @ drop k (atoms suf)"
  by (simp add: consumed_def)

lemma delete_loop_spec:
  assumes "editing c s t st pre suf k P A off" "visible_len pre + k \<le> b" "b \<le> visible_len (pre @ suf)"
    and "str_is_char_boundary (shown c (atoms (pre @ suf))) b"
  shows "\<exists>st' pre' suf' k' R. delete_loop (delete_step t b) b st = Some st' \<and> pre' @ suf' = pre @ suf \<and> visible_len pre' + k' = b \<and>
    editing c s t st' pre' suf' k' (P @ R) (A @ map (mark_deleted t) R) off"
  using assms
proof (induction suf arbitrary: st pre k P A)
  case Nil
  have "b = visible_len pre + k" using Nil.prems(2,3) editingD(8) [OF Nil.prems(1)] by (simp add: visible_walk.cut_ok_def)
  then show ?case using Nil.prems(1) editingD(3) [OF Nil.prems(1)]
    by (intro exI [of _ st] exI [of _ pre] exI [of _ "[]"] exI [of _ k] exI [of _ "[]"]) (simp add: delete_loop.simps)
next
  case (Cons f suf)
  note start = editingD(3) [OF Cons.prems(1)]
  show ?case
  proof (cases "visible_len pre + k = b")
    case True
    then show ?thesis using Cons.prems(1) start
      by (intro exI [of _ st] exI [of _ pre] exI [of _ "f # suf"] exI [of _ k] exI [of _ "[]"]) (simp add: delete_loop.simps)
  next
    case False
    then have less: "visible_len pre + k < b" using Cons.prems(2) by simp
    obtain st1 R where st1: "delete_step t b st = Some st1"
      "if b < visible_len pre + visible_bytes f
       then editing c s t st1 pre (f # suf) (b - visible_len pre) (P @ R) (A @ map (mark_deleted t) R) off
       else editing c s t st1 (pre @ [f]) suf 0 (P @ R) (A @ map (mark_deleted t) R) off"
      using delete_step_spec [OF Cons.prems(1) less Cons.prems(4)] by blast
    have loop: "delete_loop (delete_step t b) b st = delete_loop (delete_step t b) b st1"
      using less start st1(1) by (simp add: delete_loop.simps [of _ b st])
    show ?thesis
    proof (cases "b < visible_len pre + visible_bytes f")
      case True
      then have e: "editing c s t st1 pre (f # suf) (b - visible_len pre) (P @ R) (A @ map (mark_deleted t) R) off" using st1(2) by simp
      have "delete_loop (delete_step t b) b st1 = Some st1" using editingD(3) [OF e] less by (simp add: delete_loop.simps)
      then show ?thesis using e loop less
        by (intro exI [of _ st1] exI [of _ pre] exI [of _ "f # suf"] exI [of _ "b - visible_len pre"] exI [of _ R]) simp
    next
      case False
      then have e: "editing c s t st1 (pre @ [f]) suf 0 (P @ R) (A @ map (mark_deleted t) R) off" using st1(2) by simp
      obtain st' pre' suf' k' R' where "delete_loop (delete_step t b) b st1 = Some st'" "pre' @ suf' = (pre @ [f]) @ suf"
        "visible_len pre' + k' = b" "editing c s t st' pre' suf' k' ((P @ R) @ R') ((A @ map (mark_deleted t) R) @ map (mark_deleted t) R') off"
        using Cons.IH [OF e] False Cons.prems(3,4) by (auto simp: visible_bytes_def split: if_splits)
      then show ?thesis using loop
        by (intro exI [of _ st'] exI [of _ pre'] exI [of _ suf'] exI [of _ k'] exI [of _ "R @ R'"]) simp
    qed
  qed
qed

subsection \<open>One range\<close>

text \<open>Going on to the fragment in which the range starts.\<close>

lemma approach_spec:
  assumes e: "editing c s t st pre suf k P A off" and a: "visible_len pre + k \<le> a" "a \<le> visible_len (pre @ suf)"
  shows "\<exists>fragment_end st' pre' suf' k' Q. loc_end fragment_text_dim visible_loc st = Some fragment_end \<and>
    (if fragment_end < a then do {
        st \<leftarrow> finish_fragment fragment_text_dim visible_loc st;
        advance_to fragment_text_dim visible_loc (visible_target a) Right st
      } else Some st) = Some st' \<and>
    pre' @ suf' = pre @ suf \<and> editing c s t st' pre' suf' k' (P @ Q) (A @ Q) off \<and>
    visible_len pre' + k' \<le> a \<and> a \<le> visible_len (pre' @ take 1 suf')"
proof -
  obtain N ps where w: "visible_walk.walking c s t st pre suf k N ps" "atoms N = A" using e by (auto simp: editing_def)
  note E = editingD [OF e]
  have "loc_end fragment_text_dim visible_loc st = Some (visible_len (pre @ take 1 suf))"
    using visible_walk.cursor_reads(3) [OF E(9)] by simp
  note reads = this
  show ?thesis
  proof (cases "visible_len (pre @ take 1 suf) < a")
    case False
    then show ?thesis using reads e a(1)
      by (intro exI [of _ "visible_len (pre @ take 1 suf)"] exI [of _ st] exI [of _ pre] exI [of _ suf] exI [of _ k] exI [of _ "[]"]) auto
  next
    case True
    let ?pre = "pre @ (if k = 0 then [] else take 1 suf)" and ?suf = "if k = 0 then suf else tl suf"
    obtain st1 gs where st1: "finish_fragment fragment_text_dim visible_loc st = Some st1"
      "visible_walk.walking c s t st1 ?pre ?suf 0 (N @ gs) (ps @ gs)"
      "atoms gs = (if k = 0 then [] else part (hd suf) k (frag_len (hd suf) - k))"
      "st1 = st\<lparr>es_old_fragments := es_old_fragments st1, es_new_insertions := es_new_insertions st1, es_new_ropes := es_new_ropes st1,
        es_new_fragments := es_new_fragments st1\<rparr>"
      using visible_walk.finish_fragment_spec [OF w(1)] E(3) by auto
    have all: "?pre @ ?suf = pre @ suf" by (cases suf) auto
    have P1: "atoms ?pre = P @ atoms gs"
      using st1(3) E(2,8) part_add [of "hd suf" k "frag_len (hd suf) - k"] part_simps(3) [of "hd suf"]
      by (cases suf) (auto simp: visible_walk.cut_ok_def)
    have "msum visible_bytes ?pre \<le> a" using True by (auto split: if_splits)
    from visible_walk.advance_spec [OF st1(2) this, of Right]
    obtain st2 l r where st2: "advance_to fragment_text_dim visible_loc (visible_target a) Right st1 = Some st2" "?suf = l @ r"
      "visible_walk.walking c s t st2 (?pre @ l) r 0 ((N @ gs) @ l) (ps @ gs)"
      "l \<noteq> [] \<longrightarrow> visible_len (?pre @ l) \<le> a" "r \<noteq> [] \<longrightarrow> \<not> visible_len (?pre @ l @ take 1 r) \<le> a"
      "st2 = st1\<lparr>es_old_fragments := es_old_fragments st2, es_new_ropes := es_new_ropes st2, es_new_fragments := es_new_fragments st2,
        es_fragment_start := visible_len (?pre @ l)\<rparr>"
      by (auto simp: passes_def simp del: append_assoc)
    have sel: "es_fragment_start st2 = visible_len (?pre @ l)" by (subst st2(6)) simp
    have sel': "es_insertion_offset st2 = off" "es_edits_patch st2 = es_edits_patch st"
      using E(7) by (subst st2(6), simp, subst st1(4), simp)+
    let ?Q = "atoms gs @ atoms l"
    have "editing c s t st2 (?pre @ l) r 0 (P @ ?Q) (A @ ?Q) off"
    proof (rule editingI [OF st2(3)])
      show "spans (es_edits_patch st2) (shown c (P @ ?Q)) (shown c (A @ ?Q))"
        using spans_keep [OF E(6), of "shown c ?Q"] sel'(2) by simp
    qed (use w(2) P1 sel sel' in simp_all)
    moreover have "(?pre @ l) @ r = pre @ suf" using all unfolding st2(2) by (simp only: append_assoc)
    moreover have "visible_len (?pre @ l) \<le> a" using st2(4) \<open>msum visible_bytes ?pre \<le> a\<close> by (cases l) auto
    moreover from calculation(2) have "a \<le> visible_len ((?pre @ l) @ take 1 r)"
      using a(2) st2(5) by (cases r) simp_all
    ultimately show ?thesis using reads True st1(1) st2(1)
      by (intro exI [of _ "visible_len (pre @ take 1 suf)"] exI [of _ st2] exI [of _ "?pre @ l"] exI [of _ r] exI [of _ 0] exI [of _ ?Q]) simp
  qed
qed

lemma insert_text_spec:
  assumes e: "editing c s t st pre suf k P A off" and u: "4 \<le> max_len" "utf8_ok u" "writes c t off u"
  shows "\<exists>st'. (if u \<noteq> [] then do {
         let new_start = new_visible_len st;
         next_id \<leftarrow> next_fragment_id st;
         st \<leftarrow> push_fragments_for_insertion max_len u t next_id t st;
         Some (push_edit st (es_fragment_start st) (es_fragment_start st) new_start (new_start + length u))
       } else Some st) = Some st' \<and>
    editing c s t st' pre suf k P (A @ new_atoms t off (length u)) (off + length u)"
proof (cases "u = []")
  case False
  obtain N ps where w: "visible_walk.walking c s t st pre suf k N ps" "atoms N = A" using e by (auto simp: editing_def)
  note E = editingD [OF e]
  obtain st1 gs where st1: "push_fragments_for_insertion max_len u t (next_id suf) t st = Some st1"
    "visible_walk.walking c s t st1 pre suf k (N @ gs) (ps @ gs)" "atoms gs = new_atoms t off (length u)"
    "st1 = st\<lparr>es_insertion_slices := es_insertion_slices st1, es_new_insertions := es_new_insertions st1,
      es_new_fragments := es_new_fragments st1, es_insertion_offset := off + length u, es_new_ropes := es_new_ropes st1\<rparr>"
    using visible_walk.insert_spec [OF w(1) u E(7)] by blast
  have sel: "es_fragment_start st1 = es_fragment_start st" "es_insertion_offset st1 = off + length u" "es_edits_patch st1 = es_edits_patch st"
    by (subst st1(4), simp)+
  define st' where "st' = push_edit st1 (es_fragment_start st1) (es_fragment_start st1) (new_visible_len st) (new_visible_len st + length u)"
  have len: "new_visible_len st = length (shown c A)" using built_ids(2) [OF visible_walk.walkingD(4) [OF w(1)]] w(2) by simp
  have "editing c s t st' pre suf k P (A @ new_atoms t off (length u)) (off + length u)"
  proof (rule editingI)
    show "visible_walk.walking c s t st' pre suf k (N @ gs) (ps @ gs)"
      by (rule visible_walk.walking_cong [OF st1(2)]) (simp_all add: st'_def push_edit_def)
    show "spans (es_edits_patch st') (shown c P) (shown c (A @ new_atoms t off (length u)))"
      using spans_push [OF E(6), of "[]" u] E(3,4) sel len u(3) by (simp add: st'_def push_edit_def push_span_def writes_def)
  qed (use E(2,3) sel st1(3) w(2) in \<open>simp_all add: st'_def push_edit_def\<close>)
  then show ?thesis using False st1(1) visible_walk.next_fragment_reads [OF E(9)] by (simp add: st'_def Let_def)
qed (use e in simp)

lemma cut_in_text:
  assumes "str_is_char_boundary (shown c (atoms (pre @ suf))) a" "visible_len pre \<le> a" "a \<le> visible_len (pre @ take 1 suf)"
  shows "visible_walk.cut_ok c suf (a - visible_len pre)"
proof (cases suf)
  case (Cons f r)
  then have "a - visible_len pre \<le> visible_bytes f" using assms(3) by (auto simp: visible_bytes_def split: if_splits)
  then show ?thesis
    using Cons assms(1,2) boundary_in_fragment [of c pre f r "a - visible_len pre"]
    by (auto simp: visible_walk.cut_ok_def visible_bytes_def split: if_splits)
qed (use assms in \<open>simp add: visible_walk.cut_ok_def\<close>)

lemma deleted_reads:
  "editing c s t st pre suf k P A off \<Longrightarrow> ft_deleted (cursor_start (es_old_fragments st)) = deleted_len pre"
  using editingD(9) by (auto simp: cursor_at_def cursor_start_def fragment_text_pos)

text \<open>What is consumed ends at a boundary of the whole document.\<close>

lemma editing_boundary:
  assumes "editing c s t st pre suf k P A off"
  shows "str_is_char_boundary (bytes_of c (atoms (pre @ suf))) (length P)"
proof -
  note E = editingD [OF assms]
  have ok: "\<forall>f \<in> set (pre @ suf). frag_ok c f" by (rule holdsD(7) [OF E(1)])
  have all: "utf8_ok (bytes_of c (atoms fs))" if "\<forall>f \<in> set fs. frag_ok c f" for fs
    using that by (induction fs) (auto simp: frag_ok_def utf8_append)
  have "utf8_ok (bytes_of c P)"
  proof (cases suf)
    case (Cons f suf')
    have f: "frag_ok c f" "k \<le> frag_len f" "str_is_char_boundary (bytes_of c (atoms_of f)) k"
      using ok E(8) Cons by (auto simp: visible_walk.cut_ok_def)
    have "utf8_ok (bytes_of c (part f 0 k))" using part_utf8(1) [OF f(1), of 0 k] f(3) by (simp add: str_is_char_boundary_def)
    then show ?thesis using all [of pre] ok E(2) Cons f(2) by (simp add: utf8_append)
  qed (use all [of pre] ok E(2,8) in \<open>simp add: visible_walk.cut_ok_def\<close>)
  moreover have "bytes_of c (atoms (pre @ suf)) = bytes_of c P @ bytes_of c (drop k (atoms suf))"
    unfolding E(2) by (simp only: atoms_consumed [of pre suf k] bytes_of_simps)
  ultimately show ?thesis using boundary_after [of "bytes_of c (drop k (atoms suf))" "bytes_of c P"] all [OF ok] utf8_append by auto
qed

lemma edit_range_spec:
  assumes e: "editing c s t st pre suf k P A off" and ab: "visible_len pre + k \<le> a" "a \<le> b" "b \<le> visible_len (pre @ suf)"
    and cuts: "str_is_char_boundary (shown c (atoms (pre @ suf))) a" "str_is_char_boundary (shown c (atoms (pre @ suf))) b"
    and u: "4 \<le> max_len" "utf8_ok (normalize txt)" "writes c t off (normalize txt)"
  shows "\<exists>st' pre' suf' k' Q R. edit_range max_len t ((a, b), txt) st =
      Some (((length (P @ Q), length (P @ Q @ R)), normalize txt), st') \<and>
    pre' @ suf' = pre @ suf \<and> visible_len pre' + k' = b \<and> length (shown c (P @ Q)) = a \<and>
    str_is_char_boundary (bytes_of c (atoms (pre @ suf))) (length (P @ Q)) \<and>
    editing c s t st' pre' suf' k' (P @ Q @ R)
      (A @ Q @ new_atoms t off (length (normalize txt)) @ map (mark_deleted t) R) (off + length (normalize txt))"
proof -
  have "a \<le> visible_len (pre @ suf)" using ab by simp
  from approach_spec [OF e ab(1) this] obtain fe st1 pre1 suf1 k1 Q1 where st1:
    "loc_end fragment_text_dim visible_loc st = Some fe"
    "(if fe < a then do {
        st \<leftarrow> finish_fragment fragment_text_dim visible_loc st;
        advance_to fragment_text_dim visible_loc (visible_target a) Right st
      } else Some st) = Some st1"
    "pre1 @ suf1 = pre @ suf" "editing c s t st1 pre1 suf1 k1 (P @ Q1) (A @ Q1) off"
    "visible_len pre1 + k1 \<le> a" "a \<le> visible_len (pre1 @ take 1 suf1)"
    by blast
  note E1 = editingD [OF st1(4)]
  obtain N ps where w: "visible_walk.walking c s t st1 pre1 suf1 k1 N ps" "atoms N = A @ Q1" using st1(4) by (auto simp: editing_def)
  define n where "n = a - visible_len pre1"
  have n: "k1 \<le> n" "visible_len pre1 + n = a" using st1(5) by (auto simp: n_def)
  have cut: "visible_walk.cut_ok c suf1 n" using cut_in_text [of c pre1 suf1 a] cuts(1) st1(3,5,6) by (simp add: n_def)
  obtain st2 gs where st2: "push_prefix visible_loc a st1 = Some st2" "visible_walk.walking c s t st2 pre1 suf1 n (N @ gs) (ps @ gs)"
    "atoms gs = part (hd suf1) k1 (n - k1)"
    "st2 = st1\<lparr>es_new_insertions := es_new_insertions st2, es_new_ropes := es_new_ropes st2, es_new_fragments := es_new_fragments st2,
      es_fragment_start := a\<rparr>"
    using visible_walk.push_prefix_spec [OF w(1) _ n(1) cut] E1(3) n(2) by auto
  have sel: "es_fragment_start st2 = a" "es_insertion_offset st2 = off" "es_edits_patch st2 = es_edits_patch st1"
    using E1(7) by (subst st2(4), simp)+
  let ?Q = "Q1 @ atoms gs"
  have P2: "consumed pre1 suf1 n = P @ ?Q"
    using E1(2) st2(3) cut consumed_add [of k1 "n - k1" "hd suf1" pre1 "tl suf1"] n(1)
    by (cases suf1) (auto simp: visible_walk.cut_ok_def part_simps)
  have e2: "editing c s t st2 pre1 suf1 n (P @ ?Q) (A @ ?Q) off"
  proof (rule editingI [OF st2(2)])
    show "spans (es_edits_patch st2) (shown c (P @ ?Q)) (shown c (A @ ?Q))"
      using spans_keep [OF E1(6), of "shown c (atoms gs)"] sel(3) by simp
  qed (use w(2) P2 sel n(2) in simp_all)
  obtain st3 where st3: "(if normalize txt \<noteq> [] then do {
         let new_start = new_visible_len st2;
         next_id \<leftarrow> next_fragment_id st2;
         st \<leftarrow> push_fragments_for_insertion max_len (normalize txt) t next_id t st2;
         Some (push_edit st (es_fragment_start st) (es_fragment_start st) new_start (new_start + length (normalize txt)))
       } else Some st2) = Some st3"
    "editing c s t st3 pre1 suf1 n (P @ ?Q) ((A @ ?Q) @ new_atoms t off (length (normalize txt))) (off + length (normalize txt))"
    using insert_text_spec [OF e2 u] by blast
  have "visible_len pre1 + n \<le> b" "b \<le> visible_len (pre1 @ suf1)" "str_is_char_boundary (shown c (atoms (pre1 @ suf1))) b"
    using n(2) ab cuts(2) st1(3) by simp_all
  from delete_loop_spec [OF st3(2) this] obtain st4 pre' suf' k' R where st4: "delete_loop (delete_step t b) b st3 = Some st4"
    "pre' @ suf' = pre1 @ suf1" "visible_len pre' + k' = b"
    "editing c s t st4 pre' suf' k' ((P @ ?Q) @ R) (((A @ ?Q) @ new_atoms t off (length (normalize txt))) @ map (mark_deleted t) R)
      (off + length (normalize txt))"
    by blast
  have "length (P @ ?Q) = a + deleted_len pre1" "length (P @ ?Q @ R) = b + deleted_len pre'" "length (shown c (P @ ?Q)) = a"
    using editingD(4,5) [OF e2] editingD(5) [OF st4(4)] n(2) st4(3) by simp_all
  moreover have "edit_range max_len t ((a, b), txt) st =
      Some (((a + deleted_len pre1, b + deleted_len pre'), normalize txt), st4)"
    using st1(1,2) st2(1) st3(1) st4(1) deleted_reads [OF st1(4)] deleted_reads [OF st4(4)] by (simp add: edit_range_def Let_def)
  moreover have "str_is_char_boundary (bytes_of c (atoms (pre @ suf))) (length (P @ ?Q))" using editing_boundary [OF e2] st1(3) by simp
  ultimately show ?thesis using st4(2,3,4) st1(3)
    by (intro exI [of _ st4] exI [of _ pre'] exI [of _ suf'] exI [of _ k'] exI [of _ ?Q] exI [of _ R]) simp
qed

subsection \<open>What an edit promises\<close>

text \<open>The text after the edits, and the edits that make sense: sorted, disjoint, and at character boundaries of the old text.\<close>

fun edit_text :: "str \<Rightarrow> nat \<Rightarrow> text_edit list \<Rightarrow> str" where
  "edit_text T pos [] = drop pos T"
| "edit_text T pos (((a, b), u) # es) = take (a - pos) (drop pos T) @ normalize u @ edit_text T b es"

fun edits_ok :: "str \<Rightarrow> nat \<Rightarrow> text_edit list \<Rightarrow> bool" where
  "edits_ok T pos [] \<longleftrightarrow> pos \<le> length T"
| "edits_ok T pos (((a, b), u) # es) \<longleftrightarrow> pos \<le> a \<and> a \<le> b \<and> b \<le> length T \<and> str_is_char_boundary T a \<and>
     str_is_char_boundary T b \<and> utf8_ok u \<and> edits_ok T b es"

text \<open>The document after an operation with ranges in the offsets of the whole document.\<close>

fun edit_atoms :: "lamport \<Rightarrow> nat \<Rightarrow> atom list \<Rightarrow> nat \<Rightarrow> ((nat \<times> nat) \<times> str) list \<Rightarrow> atom list" where
  "edit_atoms t off D pos [] = drop pos D"
| "edit_atoms t off D pos (((i, j), u) # rs) = take (i - pos) (drop pos D) @ new_atoms t off (length u) @
     map (mark_deleted t) (take (j - i) (drop i D)) @ edit_atoms t (off + length u) D j rs"

fun ranges_ok :: "nat \<Rightarrow> nat \<Rightarrow> ((nat \<times> nat) \<times> str) list \<Rightarrow> bool" where
  "ranges_ok n pos [] \<longleftrightarrow> pos \<le> n"
| "ranges_ok n pos (((i, j), u) # rs) \<longleftrightarrow> pos \<le> i \<and> i \<le> j \<and> ranges_ok n j rs"

lemma ranges_ok_le: "ranges_ok n pos rs \<Longrightarrow> pos \<le> n"
  by (induction rs arbitrary: pos) (auto, meson le_trans)

lemma edit_atoms_prefix:
  assumes "ranges_ok (length D) p rs"
  shows "edit_atoms t off D 0 rs = take p D @ edit_atoms t off D p rs"
proof (cases rs)
  case (Cons r rs')
  then obtain i j u where "r = ((i, j), u)" by (metis prod.collapse)
  then show ?thesis using Cons assms take_add [of p "i - p" D] by simp
qed simp

text \<open>The old atoms stay, in their order, and the new ones are numbered in order.\<close>

lemma new_atoms_time: "a \<in> set (new_atoms t k n) \<Longrightarrow> atom_time a = t" "map atom_id (new_atoms t k n) = map (Pair t) [k..<k + n]"
  by (auto simp: new_atoms_def new_atom_def atom_id_def)

lemma mark_time: "atom_time (mark_deleted t a) = atom_time a"
  by (simp add: mark_deleted_def)

lemma map_ids_mark: "map atom_id (map (mark_deleted t) as) = map atom_id as"
  by simp

lemma edit_atoms_ids:
  assumes "\<forall>a \<in> set D. atom_time a \<noteq> t" "ranges_ok (length D) pos rs"
  shows "map atom_id (filter (\<lambda>a. atom_time a \<noteq> t) (edit_atoms t off D pos rs)) = map atom_id (drop pos D)"
    "map atom_id (filter (\<lambda>a. atom_time a = t) (edit_atoms t off D pos rs)) =
      map (Pair t) [off..<off + length (concat (map snd rs))]"
proof -
  have keep: "filter (\<lambda>a. atom_time a \<noteq> t) as = as" "filter (\<lambda>a. atom_time a = t) as = []" if "set as \<subseteq> set D" for as
    using assms(1) that by (auto simp: filter_id_conv filter_empty_conv)
  have sub: "set (take n (drop k D)) \<subseteq> set D" "set (drop k D) \<subseteq> set D" for n k by (auto dest: in_set_takeD in_set_dropD)
  have new: "filter (\<lambda>a. atom_time a \<noteq> t) (new_atoms t k n) = []" "filter (\<lambda>a. atom_time a = t) (new_atoms t k n) = new_atoms t k n" for k n
    using new_atoms_time(1) by (auto simp: filter_id_conv filter_empty_conv)
  have mark: "filter P (map (mark_deleted t) as) = map (mark_deleted t) (filter P as)" if "P = (\<lambda>a. atom_time a \<noteq> t) \<or> P = (\<lambda>a. atom_time a = t)" for P as
    using that by (auto simp: filter_map o_def mark_time)
  show "map atom_id (filter (\<lambda>a. atom_time a \<noteq> t) (edit_atoms t off D pos rs)) = map atom_id (drop pos D)"
    using assms(2)
  proof (induction rs arbitrary: off pos)
    case (Cons r rs)
    obtain i j u where r: "r = ((i, j), u)" by (metis prod.collapse)
    have le: "pos \<le> i" "i \<le> j" "ranges_ok (length D) j rs" using Cons.prems r by auto
    have "drop pos D = take (i - pos) (drop pos D) @ take (j - i) (drop i D) @ drop j D"
      using le(1,2) append_take_drop_id [of "i - pos" "drop pos D", symmetric] append_take_drop_id [of "j - i" "drop i D", symmetric]
      by simp
    then have "map atom_id (drop pos D) = map atom_id (take (i - pos) (drop pos D) @ take (j - i) (drop i D) @ drop j D)" by (rule arg_cong)
    then show ?case using Cons.IH [OF le(3)] r by (simp add: keep sub new mark filter_append map_ids_mark del: map_map)
  qed (simp add: keep sub)
  show "map atom_id (filter (\<lambda>a. atom_time a = t) (edit_atoms t off D pos rs)) =
      map (Pair t) [off..<off + length (concat (map snd rs))]"
    using assms(2)
  proof (induction rs arbitrary: off pos)
    case (Cons r rs)
    obtain i j u where r: "r = ((i, j), u)" by (metis prod.collapse)
    have le: "ranges_ok (length D) j rs" using Cons.prems r by auto
    have "[off..<off + length (concat (map snd (r # rs)))] = [off..<off + length u] @ [off + length u..<off + length u + length (concat (map snd rs))]"
      using upt_add_eq_append [of off "off + length u"] r by (simp add: add.assoc)
    then show ?case using Cons.IH [OF le, of "off + length u"] r
      by (simp add: keep sub new mark filter_append new_atoms_time(2) del: map_map)
  qed (simp add: keep sub)
qed

lemma distinct_partition:
  assumes "distinct (map f (filter P xs))" "distinct (map f (filter (\<lambda>x. \<not> P x) xs))" "\<And>x y. f x = f y \<Longrightarrow> P x = P y"
  shows "distinct (map f xs)"
  using assms(1,2)
proof (induction xs)
  case (Cons x xs)
  have "f x \<notin> f ` set xs"
  proof
    assume "f x \<in> f ` set xs"
    then obtain y where y: "y \<in> set xs" "f x = f y" by blast
    then have "P x = P y" using assms(3) by blast
    then show False using Cons.prems y by (cases "P x") (auto simp: image_iff)
  qed
  then show ?case using Cons by (auto split: if_splits)
qed simp

lemma edit_atoms_distinct:
  assumes "distinct (map atom_id D)" "\<forall>a \<in> set D. atom_time a \<noteq> t" "ranges_ok (length D) pos rs"
  shows "distinct (map atom_id (edit_atoms t off D pos rs))"
proof (rule distinct_partition [where P = "\<lambda>a. atom_time a = t"])
  show "distinct (map atom_id (filter (\<lambda>a. atom_time a = t) (edit_atoms t off D pos rs)))"
    by (simp only: edit_atoms_ids(2) [OF assms(2,3)]) (simp add: distinct_map inj_on_def)
  show "distinct (map atom_id (filter (\<lambda>a. atom_time a \<noteq> t) (edit_atoms t off D pos rs)))"
    using assms(1) by (simp only: edit_atoms_ids(1) [OF assms(2,3)] drop_map [symmetric] distinct_drop)
qed (simp add: atom_id_def)

subsection \<open>All ranges\<close>

definition new_text_of :: "text_edit list \<Rightarrow> str" where
  "new_text_of es = concat (map (normalize \<circ> snd) es)"

lemma writes_append: "writes c t off (u @ v) \<longleftrightarrow> writes c t off u \<and> writes c t (off + length u) v"
  by (auto simp: writes_def new_atoms_add)

lemma shown_take: "D = P @ Q \<Longrightarrow> shown c (take (length P) D) = shown c P"
  by simp

text \<open>The ranges of the operation are the given ranges, counted in the whole document.\<close>

definition same_ranges :: "content \<Rightarrow> atom list \<Rightarrow> ((nat \<times> nat) \<times> str) list \<Rightarrow> text_edit list \<Rightarrow> bool" where
  "same_ranges c D rs es \<longleftrightarrow>
     list_all2 (\<lambda>((i, j), v) ((a, b), u). length (shown c (take i D)) = a \<and> length (shown c (take j D)) = b \<and> v = normalize u) rs es"

lemma same_ranges_texts: "same_ranges c D rs es \<Longrightarrow> map snd rs = map (normalize \<circ> snd) es"
  unfolding same_ranges_def by (induction rule: list_all2_induct) auto

lemma edit_ranges_loop_spec:
  assumes "editing c s t st pre suf k P A off" "edits_ok T (visible_len pre + k) es" "writes c t off (new_text_of es)"
    and "pre @ suf = F" "T = shown c (atoms F)" "4 \<le> max_len"
  shows "\<exists>rs st' pre' suf' k' P' A' off'. edit_ranges_loop max_len t es st = Some (rs, st') \<and> pre' @ suf' = F \<and>
    editing c s t st' pre' suf' k' P' A' off' \<and> ranges_ok (length (atoms F)) (length P) rs \<and> same_ranges c (atoms F) rs es \<and>
    edits_ok (bytes_of c (atoms F)) (length P) rs \<and>
    A' @ drop (length P') (atoms F) = A @ edit_atoms t off (atoms F) (length P) rs \<and>
    shown c (A' @ drop (length P') (atoms F)) = shown c A @ edit_text T (visible_len pre + k) es"
  using assms(1-4)
proof (induction es arbitrary: st pre suf k P A off)
  case Nil
  note E = editingD [OF Nil.prems(1)]
  have "atoms F = P @ drop k (atoms suf)" using Nil.prems(4) E(2) by (auto simp: consumed_def)
  then show ?case
    using Nil.prems(1,4) E(4) assms(5)
    by (intro exI [of _ "[]"] exI [of _ st] exI [of _ pre] exI [of _ suf] exI [of _ k] exI [of _ P] exI [of _ A] exI [of _ off])
      (simp add: same_ranges_def)
next
  case (Cons e es)
  obtain a b u where e: "e = ((a, b), u)" by (metis prod.collapse)
  have ok: "visible_len pre + k \<le> a" "a \<le> b" "b \<le> visible_len (pre @ suf)" "str_is_char_boundary (shown c (atoms (pre @ suf))) a"
    "str_is_char_boundary (shown c (atoms (pre @ suf))) b" "utf8_ok u" "edits_ok T b es"
    using Cons.prems(2,4) assms(5) e by auto
  have wr: "writes c t off (normalize u)" "writes c t (off + length (normalize u)) (new_text_of es)"
    using Cons.prems(3) e by (simp_all add: new_text_of_def writes_append)
  have u8: "utf8_ok (normalize u)" using normalize_utf8 [OF ok(6)] .
  obtain st1 pre1 suf1 k1 Q R where st1: "edit_range max_len t e st = Some (((length (P @ Q), length (P @ Q @ R)), normalize u), st1)"
    "pre1 @ suf1 = pre @ suf" "visible_len pre1 + k1 = b" "length (shown c (P @ Q)) = a"
    "editing c s t st1 pre1 suf1 k1 (P @ Q @ R) (A @ Q @ new_atoms t off (length (normalize u)) @ map (mark_deleted t) R)
       (off + length (normalize u))"
    "str_is_char_boundary (bytes_of c (atoms (pre @ suf))) (length (P @ Q))"
    using edit_range_spec [OF Cons.prems(1) ok(1-5) assms(6) u8 wr(1)] e by blast
  obtain rs st2 pre2 suf2 k2 P2 A2 off2 where st2: "edit_ranges_loop max_len t es st1 = Some (rs, st2)" "pre2 @ suf2 = F"
    "editing c s t st2 pre2 suf2 k2 P2 A2 off2" "ranges_ok (length (atoms F)) (length (P @ Q @ R)) rs" "same_ranges c (atoms F) rs es"
    "A2 @ drop (length P2) (atoms F) = (A @ Q @ new_atoms t off (length (normalize u)) @ map (mark_deleted t) R) @
       edit_atoms t (off + length (normalize u)) (atoms F) (length (P @ Q @ R)) rs"
    "shown c (A2 @ drop (length P2) (atoms F)) = shown c (A @ Q @ new_atoms t off (length (normalize u)) @ map (mark_deleted t) R) @
       edit_text T (visible_len pre1 + k1) es"
    "edits_ok (bytes_of c (atoms F)) (length (P @ Q @ R)) rs"
    using Cons.IH [OF st1(5) _ wr(2)] ok(7) st1(2,3) Cons.prems(4) by blast
  note E1 = editingD [OF st1(5)]
  have D: "atoms F = (P @ Q @ R) @ drop k1 (atoms suf1)" using Cons.prems(4) st1(2) E1(2) by (metis consumed_def append_take_drop_id append_assoc atoms_simps(3))
  have vis: "length (shown c P) = visible_len pre + k" "length (shown c (P @ Q @ R)) = b" using editingD(4) [OF Cons.prems(1)] E1(4) st1(3) by simp_all
  have T: "T = shown c P @ shown c Q @ shown c R @ shown c (drop k1 (atoms suf1))" using assms(5) D by simp
  have new: "bytes_of c (new_atoms t off (length (normalize u))) = normalize u" using wr(1) by (simp add: writes_def)
  let ?r = "((length (P @ Q), length (P @ Q @ R)), normalize u)"
  have "edit_atoms t off (atoms F) (length P) (?r # rs) = Q @ new_atoms t off (length (normalize u)) @ map (mark_deleted t) R @
      edit_atoms t (off + length (normalize u)) (atoms F) (length (P @ Q @ R)) rs"
    by (simp add: D)
  moreover have "edit_text T (visible_len pre + k) (e # es) = shown c Q @ normalize u @ edit_text T b es"
    using vis st1(4) e by (simp add: T)
  moreover have "same_ranges c (atoms F) (?r # rs) (e # es)" using st2(5) st1(4) vis(2) e by (simp add: same_ranges_def D)
  moreover have "edit_ranges_loop max_len t (e # es) st = Some (?r # rs, st2)" using st1(1) st2(1) by simp
  moreover have "ranges_ok (length (atoms F)) (length P) (?r # rs)" using st2(4) by simp
  moreover have "edits_ok (bytes_of c (atoms F)) (length P) (?r # rs)"
    using st2(8) st1(6) editing_boundary [OF st1(5)] Cons.prems(4) st1(2) u8 D by simp
  ultimately show ?case using st2(2,3,6,7) new st1(3)
    by (intro exI [of _ "?r # rs"] exI [of _ st2] exI [of _ pre2] exI [of _ suf2] exI [of _ k2] exI [of _ P2] exI [of _ A2] exI [of _ off2])
      (simp del: edit_text.simps edit_atoms.simps)
qed

subsection \<open>The contract of \<open>apply_edit_internal\<close>\<close>

text \<open>The content with the text of a new timestamp.\<close>

definition record_text :: "content \<Rightarrow> lamport \<Rightarrow> str \<Rightarrow> content" where
  "record_text c t u = c(t := nth u)"

definition fresh_in :: "lamport \<Rightarrow> fragment list \<Rightarrow> bool" where
  "fresh_in t fs \<longleftrightarrow> 0 < tvalue t \<and> (\<forall>f \<in> set fs. frag_timestamp f \<noteq> t)"

lemma fresh_atoms: "fresh_in t fs \<Longrightarrow> \<forall>a \<in> set (atoms fs). atom_time a \<noteq> t"
  by (auto simp: fresh_in_def atoms_def atoms_of_def atom_at_def)

lemma record_bytes: "\<forall>a \<in> set as. atom_time a \<noteq> t \<Longrightarrow> bytes_of (record_text c t u) as = bytes_of c as"
  by (simp add: bytes_of_def atom_byte_def record_text_def)

lemma record_shown:
  assumes "\<forall>a \<in> set as. atom_time a \<noteq> t"
  shows "shown (record_text c t u) as = shown c as" "hidden (record_text c t u) as = hidden c as"
  using assms by (simp_all add: shown_def hidden_def record_bytes)

lemma record_holds:
  assumes "holds c s fs" "fresh_in t fs"
  shows "holds (record_text c t u) s fs"
proof -
  have "frag_ok (record_text c t u) f \<longleftrightarrow> frag_ok c f" if "f \<in> set fs" for f
  proof -
    have "\<forall>a \<in> set (atoms_of f). atom_time a \<noteq> t" using that assms(2) by (auto simp: fresh_in_def atoms_of_def atom_at_def)
    then show ?thesis by (simp add: frag_ok_def record_bytes)
  qed
  then show ?thesis using assms(1) fresh_atoms [OF assms(2)] by (simp add: holds_def record_shown)
qed

lemma record_writes: "0 < tvalue t \<Longrightarrow> writes (record_text c t u) t 0 u"
  by (auto intro!: nth_equalityI simp: writes_def bytes_of_def new_atoms_def new_atom_def atom_byte_def record_text_def)

lemma local_edit_spec:
  assumes h: "holds c s fs" and ok: "edits_ok T 0 es" and T: "T = rope_text (visible_text s)" and fresh: "fresh_in t fs" and len: "4 \<le> max_len"
  shows "\<exists>s' op p fs' rs. apply_edit_internal max_len s es t = Some (s', op, p) \<and>
    holds (record_text c t (new_text_of es)) s' fs' \<and>
    op = \<lparr>edit_timestamp = t, edit_version = snapshot_version s, edit_ranges = map fst rs, edit_new_text = map snd rs\<rparr> \<and>
    ranges_ok (length (atoms fs)) 0 rs \<and> same_ranges c (atoms fs) rs es \<and> edits_ok (bytes_of c (atoms fs)) 0 rs \<and>
    atoms fs' = edit_atoms t 0 (atoms fs) 0 rs \<and> rope_text (visible_text s') = edit_text T 0 es \<and> transforms p 0 0 T (edit_text T 0 es) \<and>
    s' = s\<lparr>visible_text := visible_text s', deleted_text := deleted_text s', fragments := fragments s', insertions := insertions s',
      insertion_slices := insertion_slices s'\<rparr>"
proof (cases es)
  case Nil
  then show ?thesis using record_holds [OF h fresh] T
    by (intro exI [of _ s] exI [of _ "\<lparr>edit_timestamp = t, edit_version = snapshot_version s, edit_ranges = [], edit_new_text = []\<rparr>"]
      exI [of _ "[]"] exI [of _ fs] exI [of _ "[]"]) (simp add: apply_edit_internal_def patch_empty_def same_ranges_def)
next
  case (Cons e es')
  obtain a b u where e: "e = ((a, b), u)" by (metis prod.collapse)
  define c' where "c' = record_text c t (new_text_of es)"
  note h' = record_holds [OF h fresh, of "new_text_of es", folded c'_def]
  have pos: "0 < tvalue t" using fresh by (simp add: fresh_in_def)
  have sh: "shown c' (atoms fs) = T" using holdsD(4) [OF h'] T by simp
  obtain st l r where st: "start_edit s fragment_text_dim visible_loc (visible_target a) Right = Some st" "fs = l @ r"
    "visible_walk.walking c' s t st l r 0 l []" "l \<noteq> [] \<longrightarrow> passes Right a (visible_len l)"
    "es_fragment_start st = visible_len l" "es_edits_patch st = []" "es_insertion_offset st = 0"
    using visible_walk.start_edit_spec [OF h', of a Right t] by auto
  have "spans [] (shown c' (atoms l)) (shown c' (atoms l))" using spans_keep [OF spans_Nil] by fastforce
  then have ed: "editing c' s t st l r 0 (atoms l) (atoms l) 0" using st(3,5,6,7) by (intro editingI) simp_all
  have "visible_len l \<le> a" using st(4) by (cases "l = []") (simp_all add: passes_def)
  then have ok': "edits_ok T (visible_len l + 0) es" using ok Cons e by simp
  obtain rs st1 pre suf k P A off where st1: "edit_ranges_loop max_len t es st = Some (rs, st1)" "pre @ suf = fs"
    "editing c' s t st1 pre suf k P A off" "ranges_ok (length (atoms fs)) (length (atoms l)) rs" "same_ranges c' (atoms fs) rs es"
    "A @ drop (length P) (atoms fs) = atoms l @ edit_atoms t 0 (atoms fs) (length (atoms l)) rs"
    "shown c' (A @ drop (length P) (atoms fs)) = shown c' (atoms l) @ edit_text T (visible_len l + 0) es"
    "edits_ok (bytes_of c' (atoms fs)) (length (atoms l)) rs"
    using edit_ranges_loop_spec [OF ed ok' record_writes [OF pos, of c "new_text_of es", folded c'_def] st(2) [symmetric] sh [symmetric] len] by blast
  note E = editingD [OF st1(3)]
  have P: "P = consumed pre suf k" "atoms fs = P @ drop k (atoms suf)" using E(2) st1(2) by (auto simp: consumed_def)
  have rest: "drop (length P) (atoms fs) = drop k (atoms suf)" using P(2) by simp
  have l: "atoms l = take (length (atoms l)) (atoms fs)" using st(2) by simp
  have atoms: "A @ drop k (atoms suf) = edit_atoms t 0 (atoms fs) 0 rs"
    using st1(6) edit_atoms_prefix [OF st1(4)] rest l by simp
  have ro: "ranges_ok (length (atoms fs)) 0 rs" using st1(4) by (cases rs) auto
  have eo: "edits_ok (bytes_of c (atoms fs)) 0 rs"
    using st1(8) record_bytes [OF fresh_atoms [OF fresh]] unfolding c'_def by (cases rs) auto
  have dist: "distinct (map atom_id (A @ drop k (atoms suf)))"
    using edit_atoms_distinct [OF holdsD(9) [OF h] fresh_atoms [OF fresh] ro] atoms by simp
  obtain N ps where w: "visible_walk.walking c' s t st1 pre suf k N ps" "atoms N = A" using st1(3) by (auto simp: editing_def)
  obtain s' fs' where s': "finish_edit s fragment_text_dim visible_loc st1 = Some (s', es_edits_patch st1)" "holds c' s' fs'"
    "atoms fs' = A @ drop k (atoms suf)"
    "s' = s\<lparr>visible_text := visible_text s', deleted_text := deleted_text s', fragments := fragments s', insertions := insertions s',
      insertion_slices := insertion_slices s'\<rparr>"
    using visible_walk.finish_edit_spec [OF w(1)] E(3) dist w(2) by auto
  have edited: "shown c' (atoms fs') = edit_text T 0 es"
  proof -
    have "shown c' (atoms l) = take (visible_len l) T"
      by (metis sh st(2) atoms_simps(3) shown_simps(2) length_shown(1) append_eq_conv_conj)
    then have "shown c' (atoms l) @ edit_text T (visible_len l) es = edit_text T 0 es"
      using Cons e \<open>visible_len l \<le> a\<close> take_add [of "visible_len l" "a - visible_len l" T] by simp
    then show ?thesis using st1(7) s'(3) rest by simp
  qed
  have "spans (es_edits_patch st1) (shown c' (P @ drop k (atoms suf))) (shown c' (A @ drop k (atoms suf)))"
    using spans_keep [OF E(6), of "shown c' (drop k (atoms suf))"] by simp
  then have tr: "transforms (es_edits_patch st1) 0 0 T (edit_text T 0 es)"
    using spans_transforms sh P(2) s'(3) edited by metis
  have "shown c' (take i (atoms fs)) = shown c (take i (atoms fs))" for i
    using fresh_atoms [OF fresh] unfolding c'_def by (intro record_shown) (auto dest: in_set_takeD)
  then have same: "same_ranges c (atoms fs) rs es" using st1(5) by (simp add: same_ranges_def)
  have first: "fst (fst (hd es)) = a" "es \<noteq> []" using Cons e by simp_all
  have run: "apply_edit_internal max_len s es t = Some (s', \<lparr>edit_timestamp = t, edit_version = snapshot_version s, edit_ranges = map fst rs,
      edit_new_text = map snd rs\<rparr>, es_edits_patch st1)"
    by (simp add: apply_edit_internal_def first st(1) st1(1) s'(1))
  show ?thesis
    by (intro exI conjI, rule run, rule s'(2) [unfolded c'_def], rule refl, rule ro, rule same, rule eo)
      (use s'(3) atoms edited holdsD(4) [OF s'(2)] tr s'(4) in \<open>simp_all\<close>)
qed

end
