(* ===== verification/Remote_Walk.thy ===== *)
theory Remote_Walk
  imports Buffer_Remote Local_Edit
begin

text \<open>
  The cursor of \<open>apply_remote_edit\<close>: its dimension counts the bytes of the insertions that the version of the operation
  observed. A subtree that mixes observed and other insertions has no count, so the dimension is not a law for all
  subtrees; it is exact wherever the cursor skips one, and that is what the walk over the fragments needs.
\<close>

subsection \<open>The versions of the insertions below a node\<close>

definition observed_bytes :: "global \<Rightarrow> fragment \<Rightarrow> nat" where
  "observed_bytes v f = (if observed v (frag_timestamp f) then frag_len f else 0)"

lemma items_versions_wf:
  "wf_global (fs_max_insertion_version (items_summary fs))" "wf_global (fs_min_insertion_version (items_summary fs))"
  by (induction fs rule: rev_induct)
    (simp_all add: items_summary_snoc fragment_summary_default_def fragment_summary_add_def fragment_item_summary_def Let_def
      wf_global_new wf_join wf_meet wf_observe)

lemma insertion_bounds:
  assumes "f \<in> set fs" "0 < tvalue (frag_timestamp f)"
  defines "r \<equiv> replica_id (frag_timestamp f)"
  shows "tvalue (frag_timestamp f) \<le> get (fs_max_insertion_version (items_summary fs)) r"
    "0 < get (fs_min_insertion_version (items_summary fs)) r"
    "get (fs_min_insertion_version (items_summary fs)) r \<le> tvalue (frag_timestamp f)"
  using assms(1,2)
proof (induction fs rule: rev_induct)
  case (snoc g fs)
  { case 1
    then show ?case using snoc.IH(1)
      by (auto simp: items_summary_snoc fragment_summary_add_def fragment_item_summary_def Let_def get_join get_observe r_def le_max_iff_disj)
  next
    case 2
    then show ?case using snoc.IH(2)
      by (auto simp: items_summary_snoc fragment_summary_add_def fragment_item_summary_def Let_def get_meet get_observe r_def meet_entry_def
          min_def word_gt_0)
  next
    case 3
    then show ?case using snoc.IH(2,3)
      by (auto simp: items_summary_snoc fragment_summary_add_def fragment_item_summary_def Let_def get_meet get_observe r_def meet_entry_def
          min_def word_gt_0 intro: order_trans) }
qed simp_all

lemma observed_by_max:
  assumes "observed_all v (fs_max_insertion_version (items_summary fs))" "f \<in> set fs" "0 < tvalue (frag_timestamp f)"
  shows "observed v (frag_timestamp f)"
  using insertion_bounds(1) [OF assms(2,3)] assms(1) observed_all_get [OF items_versions_wf(1)]
  unfolding observed_def by (meson order_trans)

lemma unobserved_by_min:
  assumes "\<not> observed_any v (fs_min_insertion_version (items_summary fs))" "f \<in> set fs" "0 < tvalue (frag_timestamp f)"
  shows "\<not> observed v (frag_timestamp f)"
  using insertion_bounds(2,3) [OF assms(2,3)] assms(1) observed_any_get [OF items_versions_wf(2), of v fs]
  unfolding observed_def by (meson order_trans)

subsection \<open>Positions\<close>

lemma versioned_item:
  "dadd (versioned_dim v) (Offset n) (fragment_item_summary f) = Offset (n + observed_bytes v f)"
proof -
  let ?g = "observe global_new (frag_timestamp f)"
  have "observed_all v ?g \<longleftrightarrow> observed v (frag_timestamp f)"
    by (auto simp: observed_all_get [OF wf_observe [OF wf_global_new]] get_observe observed_def)
  moreover have "observed_any v ?g \<Longrightarrow> observed v (frag_timestamp f)"
    by (auto simp: observed_any_get [OF wf_observe [OF wf_global_new]] get_observe observed_def split: if_splits)
  ultimately show ?thesis by (auto simp: versioned_dim_def fragment_item_summary_def Let_def observed_bytes_def)
qed

lemma visible_item: "dadd visible_dim k (fragment_item_summary f) = k + (if frag_visible f then frag_len f else 0)"
  by (simp add: visible_dim_def fragment_item_summary_def Let_def)

lemma remote_dim_sel:
  "dzero (remote_dim v) = (Offset 0, 0, ())"
  "dadd (remote_dim v) (a, b, u) s = (dadd (versioned_dim v) a s, dadd visible_dim b s, ())"
  by (simp_all add: remote_dim_def dimensions_def versioned_dim_def visible_dim_def unit_dim_def)

lemma remote_pos:
  "pos_after fragment_ops (remote_dim v) (Offset n, k, u) fs = (Offset (n + msum (observed_bytes v) fs), k + visible_len fs, ())"
  by (induction fs arbitrary: n k u) (simp_all add: remote_dim_sel versioned_item visible_item)

lemma beyond_remote: "beyond (remote_target n) b d \<longleftrightarrow> (\<exists>m. fst d = Offset m \<and> passes b n m)"
  by (cases d; cases "fst d"; cases b)
    (auto simp: beyond_def remote_target_def first_target_def versioned_target_def passes_def cmp_def)

text \<open>Where the cursor passes a whole subtree, the cached versions decide for all of its fragments.\<close>

lemma remote_exact:
  assumes "\<forall>f \<in> X. 0 < tvalue (frag_timestamp f)"
  shows "exact_on fragment_ops (remote_dim v) (beyond (remote_target n) b) X"
  unfolding exact_on_def
proof (intro allI impI, elim conjE)
  fix t :: fragment_tree and d :: remote_position
  assume t: "wf_tree fragment_ops t" "tree_items t \<noteq> []" "set (tree_items t) \<subseteq> X"
    and sk: "beyond (remote_target n) b (dadd (remote_dim v) d (node_summary t))"
  let ?fs = "tree_items t"
  obtain a k u where d: "d = (a, k, u)" by (metis prod_cases3)
  obtain m where m: "dadd (versioned_dim v) a (node_summary t) = Offset m" using sk by (auto simp: beyond_remote d remote_dim_sel)
  obtain p where a: "a = Offset p" using m by (cases a) (auto simp: versioned_dim_def)
  have sum: "node_summary t = items_summary ?fs" by (rule tree_items_summary [OF t(1)])
  have pos: "0 < tvalue (frag_timestamp f)" if "f \<in> set ?fs" for f using assms t(3) that by blast
  have "m = p + msum (observed_bytes v) ?fs"
  proof (cases "observed_all v (fs_max_insertion_version (items_summary ?fs))")
    case True
    have "\<forall>f \<in> set fs. observed v (frag_timestamp f) \<Longrightarrow> msum (observed_bytes v) fs = visible_len fs + deleted_len fs" for fs
      by (induction fs) (auto simp: observed_bytes_def)
    then have "msum (observed_bytes v) ?fs = visible_len ?fs + deleted_len ?fs" using observed_by_max [OF True _ pos] by blast
    then show ?thesis using m True by (simp add: a versioned_dim_def sum items_summary_sel)
  next
    case False
    then have none: "\<not> observed_any v (fs_min_insertion_version (items_summary ?fs))"
      using m by (auto simp: a versioned_dim_def sum split: if_splits)
    have "\<forall>f \<in> set fs. \<not> observed v (frag_timestamp f) \<Longrightarrow> msum (observed_bytes v) fs = 0" for fs
      by (induction fs) (auto simp: observed_bytes_def)
    then have "msum (observed_bytes v) ?fs = 0" using unobserved_by_min [OF none _ pos] by blast
    then show ?thesis using m False none by (simp add: a versioned_dim_def sum)
  qed
  then show "dadd (remote_dim v) d (node_summary t) = pos_after fragment_ops (remote_dim v) d ?fs"
    using m t(1) by (simp add: d a remote_dim_sel remote_pos visible_dim_def sum items_summary_sel)
qed

subsection \<open>The walk\<close>

lemma remote_ends_grow: "e \<in> set (ends fragment_ops (remote_dim v) (Offset n, k, u) fs) \<Longrightarrow> \<exists>m k'. e = (Offset m, k', ()) \<and> n \<le> m"
proof (induction fs arbitrary: n k u)
  case (Cons f fs)
  then show ?case by (fastforce simp: remote_dim_sel versioned_item visible_dim_def)
qed simp

lemma remote_sorted: "target_sorted fragment_ops (remote_dim v) (beyond (remote_target n) b) (Offset p, k, u) fs"
proof (induction fs arbitrary: p k u)
  case (Cons f fs)
  have "beyond (remote_target n) b (Offset q, l, ())" if "e \<in> set (ends fragment_ops (remote_dim v) (Offset q, l, ()) fs)"
    "beyond (remote_target n) b e" for e q l
    using remote_ends_grow [OF that(1)] that(2) by (auto simp: beyond_remote passes_def split: if_splits)
  then show ?case using Cons
    by (auto simp: target_sorted_def remote_dim_sel versioned_item visible_dim_def)
qed (simp add: target_sorted_def)

interpretation remote_cursor: cursor_laws fragment_ops "remote_dim v" for v ..

lemma remote_walk_slice:
  assumes "cursor_before fragment_ops (remote_dim v) cur pre suf" "msum (observed_bytes v) pre \<le> n"
    and pos: "\<forall>f \<in> set suf. 0 < tvalue (frag_timestamp f)"
  shows "\<exists>t cur' l r. cursor_slice fragment_ops (remote_dim v) (remote_target n) b cur = Some (t, cur') \<and> suf = l @ r \<and>
    wf_tree fragment_ops t \<and> tree_items t = l \<and> cursor_at fragment_ops (remote_dim v) cur' (pre @ l) r \<and> cur_tree cur' = cur_tree cur \<and>
    (l \<noteq> [] \<longrightarrow> passes b n (msum (observed_bytes v) (pre @ l))) \<and> (r \<noteq> [] \<longrightarrow> \<not> passes b n (msum (observed_bytes v) (pre @ l @ take 1 r)))"
proof -
  let ?D = "remote_dim v" and ?sk = "beyond (remote_target n) b"
  have start: "cur_pos cur = (Offset (msum (observed_bytes v) pre), visible_len pre, ())"
    using assms(1) remote_pos [of v 0 0 "()" pre]
    by (auto simp: cursor_before_def cursor_at_def cursor_fresh_def remote_dim_sel)
  have less: "remote_target n (cur_pos cur) \<noteq> Less" using assms(2)
    by (simp add: start remote_target_def first_target_def versioned_target_def cmp_def)
  obtain l p r where seek: "seek_list fragment_ops ?D ?sk (cur_pos cur) suf = (l, p, r)" by (metis prod_cases3)
  have sorted: "target_sorted fragment_ops ?D ?sk (cur_pos cur) suf" unfolding start by (rule remote_sorted)
  obtain t cur' where t: "cursor_slice fragment_ops ?D (remote_target n) b cur = Some (t, cur')" "wf_tree fragment_ops t"
    "tree_items t = l" "cursor_at fragment_ops ?D cur' (pre @ l) r" "cur_tree cur' = cur_tree cur"
    using remote_cursor.cursor_slice_exact [OF assms(1) less sorted seek remote_exact [OF pos]] by blast
  have parts: "suf = l @ r" "p = pos_after fragment_ops ?D (cur_pos cur) l"
    "r \<noteq> [] \<longrightarrow> \<not> ?sk (dadd ?D p (ssummary fragment_ops (hd r)))"
    using seek_list_parts [OF seek] by auto
  have at_pos: "fst (pos_after fragment_ops ?D (cur_pos cur) fs) = Offset (msum (observed_bytes v) (pre @ fs))" for fs
    by (simp add: start remote_pos)
  have "passes b n (msum (observed_bytes v) (pre @ l))" if "l \<noteq> []"
    using seek_list_skipped [OF seek] pos_after_in_ends [OF that] at_pos [of l]
    by (metis beyond_remote versioned_full_offset.inject)
  moreover have "\<not> passes b n (msum (observed_bytes v) (pre @ l @ take 1 r))" if "r \<noteq> []"
    using parts(2,3) that at_pos [of "l @ take 1 r"] by (cases r) (auto simp: beyond_remote)
  ultimately show ?thesis using t parts(1) by blast
qed

interpretation remote_walk: edit_walk "remote_dim v" remote_loc "observed_bytes v" remote_target for v
proof
  fix f show "observed_bytes v f = 0 \<or> observed_bytes v f = frag_len f" by (simp add: observed_bytes_def)
next
  fix fs show "remote_loc (pos_after fragment_ops (remote_dim v) (dzero (remote_dim v)) fs) = Some (msum (observed_bytes v) fs)"
    by (simp add: remote_loc_def remote_dim_sel remote_pos)
next
  fix cur pre f suf assume "cursor_at fragment_ops (remote_dim v) cur pre (f # suf)"
  then show "\<exists>cur'. cursor_next (remote_dim v) cur = Some cur' \<and> cursor_at fragment_ops (remote_dim v) cur' (pre @ [f]) suf \<and>
      cur_tree cur' = cur_tree cur"
    using remote_cursor.cursor_next_spec by fastforce
next
  fix cur pre suf assume "cursor_at fragment_ops (remote_dim v) cur pre suf"
  then show "\<exists>t cur'. cursor_suffix fragment_ops (remote_dim v) cur = Some (t, cur') \<and> wf_tree fragment_ops t \<and> tree_items t = suf"
    by (rule remote_cursor.cursor_suffix_at)
qed (rule remote_walk_slice)

lemma remote_visible_start:
  "cursor_at fragment_ops (remote_dim v) (es_old_fragments st) pre suf \<Longrightarrow> visible_start st = visible_len pre"
  using remote_pos [of v 0 0 "()" pre] by (auto simp: visible_start_def cursor_at_def cursor_start_def remote_dim_sel)

end
