(* ===== verification/Remote_Spec.thy ===== *)
theory Remote_Spec
  imports Local_Edit
begin

text \<open>
  What an operation from another replica means for a document: its ranges count the atoms that its version observed. New text
  goes behind the last observed atom in front of the range, and behind everything concurrent with a greater
  timestamp that follows; the atoms of the range that were visible at the version are marked.
\<close>

subsection \<open>Prefixes that end with a counted element\<close>

fun counted_prefix :: "('a \<Rightarrow> bool) \<Rightarrow> nat \<Rightarrow> 'a list \<Rightarrow> 'a list" where
  "counted_prefix P 0 xs = []"
| "counted_prefix P (Suc n) [] = []"
| "counted_prefix P (Suc n) (x # xs) = x # counted_prefix P (if P x then n else Suc n) xs"

definition closes :: "('a \<Rightarrow> bool) \<Rightarrow> nat \<Rightarrow> 'a list \<Rightarrow> bool" where
  "closes P n xs \<longleftrightarrow> length (filter P xs) = n \<and> (xs \<noteq> [] \<longrightarrow> P (last xs))"

lemma closes_0: "closes P 0 xs \<longleftrightarrow> xs = []"
  by (cases xs rule: rev_cases) (auto simp: closes_def)

lemma closes_append:
  assumes "closes P n ys" "n = 0 \<Longrightarrow> xs \<noteq> [] \<Longrightarrow> P (last xs)"
  shows "closes P (length (filter P xs) + n) (xs @ ys)"
proof (cases "ys = []")
  case True
  then have "n = 0" using assms(1) by (simp add: closes_def)
  then show ?thesis using True assms(2) by (simp add: closes_def)
qed (use assms(1) in \<open>simp add: closes_def\<close>)

lemma counted_prefix_closes: "closes P n xs \<Longrightarrow> counted_prefix P n (xs @ ys) = xs"
proof (induction xs arbitrary: n)
  case (Cons x xs)
  have n: "n = (if P x then Suc (length (filter P xs)) else length (filter P xs))" using Cons.prems by (auto simp: closes_def)
  have last: "xs \<noteq> [] \<longrightarrow> P (last xs)" "xs = [] \<longrightarrow> P x" using Cons.prems by (auto simp: closes_def split: if_splits)
  have "n \<noteq> 0" using Cons.prems by (metis closes_0 list.distinct(1))
  then obtain m where m: "n = Suc m" by (cases n) auto
  then have "closes P (if P x then m else Suc m) xs" using n last(1) by (auto simp: closes_def)
  then show ?case using Cons.IH m by simp
qed (simp add: closes_def)

subsection \<open>The meaning of an operation\<close>

text \<open>An atom that was visible when the version was current.\<close>

definition was_shown :: "undo_map \<Rightarrow> global \<Rightarrow> atom \<Rightarrow> bool" where
  "was_shown u v a \<longleftrightarrow> observed v (atom_time a) \<and> \<not> the (was_undone u (atom_time a) v) \<and>
     (\<forall>d \<in> set (atom_deletions a). observed v d \<longrightarrow> the (was_undone u d v))"

definition mark_remote :: "lamport \<Rightarrow> undo_map \<Rightarrow> global \<Rightarrow> atom \<Rightarrow> atom" where
  "mark_remote t u v a =
     (if was_shown u v a then a\<lparr>atom_visible := False, atom_deletions := atom_deletions a @ [t]\<rparr> else a)"

definition known :: "global \<Rightarrow> atom \<Rightarrow> bool" where
  "known v a \<longleftrightarrow> observed v (atom_time a)"

fun remote_atoms ::
  "undo_map \<Rightarrow> global \<Rightarrow> lamport \<Rightarrow> nat \<Rightarrow> atom list \<Rightarrow> nat \<Rightarrow> ((nat \<times> nat) \<times> str) list \<Rightarrow> atom list" where
  "remote_atoms u v t off D pos [] = D"
| "remote_atoms u v t off D pos (((a, b), tx) # es) =
     (let before = counted_prefix (known v) (a - pos) D; D1 = drop (length before) D;
          newer = takeWhile (\<lambda>x. t < atom_time x) D1; D2 = drop (length newer) D1;
          covered = counted_prefix (known v) (b - a) D2; D3 = drop (length covered) D2
      in before @ newer @ new_atoms t off (length tx) @ map (mark_remote t u v) covered @
         remote_atoms u v t (off + length tx) D3 b es)"

lemma remote_atoms_step:
  assumes "closes (known v) (a - pos) Q" "\<forall>x \<in> set W. t < atom_time x" "Y \<noteq> [] \<longrightarrow> \<not> t < atom_time (hd Y)"
    and "Y = R @ Z" "closes (known v) (b - a) R"
  shows "remote_atoms u v t off (Q @ W @ Y) pos (((a, b), tx) # es) =
    Q @ W @ new_atoms t off (length tx) @ map (mark_remote t u v) R @ remote_atoms u v t (off + length tx) Z b es"
proof -
  have W: "takeWhile (\<lambda>x. t < atom_time x) (W @ Y) = W" using assms(2,3) by (cases Y) (auto simp: takeWhile_append)
  have Q: "counted_prefix (known v) (a - pos) (Q @ W @ Y) = Q" by (rule counted_prefix_closes [OF assms(1)])
  have R: "counted_prefix (known v) (b - a) Y = R" unfolding assms(4) by (rule counted_prefix_closes [OF assms(5)])
  have drops: "drop (length Q) (Q @ W @ Y) = W @ Y" "drop (length W) (W @ Y) = Y" "drop (length R) Y = Z" using assms(4) by simp_all
  show ?thesis by (simp only: remote_atoms.simps Let_def Q R W drops)
qed

subsection \<open>What the operation keeps\<close>

lemma mark_remote_sel [simp]:
  "atom_id (mark_remote t u v a) = atom_id a" "atom_time (mark_remote t u v a) = atom_time a"
  "atom_place (mark_remote t u v a) = atom_place a" "atom_byte c (mark_remote t u v a) = atom_byte c a"
  by (auto simp: mark_remote_def atom_id_def atom_byte_def)

lemma bytes_mark_remote [simp]: "bytes_of c (map (mark_remote t u v) as) = bytes_of c as"
  by (simp add: bytes_of_def)

lemma was_shown_known: "was_shown u v a \<Longrightarrow> known v a"
  by (simp add: was_shown_def known_def)

lemma was_visible_atom:
  assumes "undo_inv u" "a \<in> set (atoms_of f)"
  shows "was_visible f v u = Some (was_shown u v a)"
proof -
  have some: "was_undone u e v = Some (the (was_undone u e v))" for e
    using undo_query [OF assms(1), of e "observed v"] by (auto simp: was_undone_def Option.bind_eq_Some_conv)
  have "all_undone (\<lambda>d. if observed v d then was_undone u d v else Some True) ds =
      Some (\<forall>d \<in> set ds. observed v d \<longrightarrow> the (was_undone u d v))" for ds
  proof (induction ds)
    case (Cons d ds)
    then show ?case using some [of d] by (cases "was_undone u d v") auto
  qed simp
  moreover have "atom_time a = frag_timestamp f" "atom_deletions a = frag_deletions f"
    using assms(2) by (auto simp: atoms_of_def atom_at_def)
  ultimately show ?thesis using some [of "frag_timestamp f"]
    by (cases "was_undone u (frag_timestamp f) v") (auto simp: was_visible_def was_shown_def)
qed

text \<open>Every old atom stays, in its place, and the new ones are numbered in order.\<close>

lemma counted_prefix_split: "counted_prefix P n xs @ drop (length (counted_prefix P n xs)) xs = xs"
  by (induction P n xs rule: counted_prefix.induct) auto

lemma takeWhile_split: "takeWhile P xs @ drop (length (takeWhile P xs)) xs = xs"
  by (metis dropWhile_eq_drop takeWhile_dropWhile_id)

lemma counted_prefix_append:
  "counted_prefix P (length (filter P xs) + Suc n) (xs @ ys) = xs @ counted_prefix P (Suc n) ys"
  by (induction xs) auto

lemma remote_atoms_parts:
  obtains Q W R Z where "D = Q @ W @ R @ Z"
    "remote_atoms u v t off D pos (((a, b), tx) # es) =
      Q @ W @ new_atoms t off (length tx) @ map (mark_remote t u v) R @ remote_atoms u v t (off + length tx) Z b es"
proof -
  let ?Q = "counted_prefix (known v) (a - pos) D"
  let ?D1 = "drop (length ?Q) D"
  let ?W = "takeWhile (\<lambda>x. t < atom_time x) ?D1"
  let ?D2 = "drop (length ?W) ?D1"
  let ?R = "counted_prefix (known v) (b - a) ?D2"
  have "D = ?Q @ ?D1" "?D1 = ?W @ ?D2" "?D2 = ?R @ drop (length ?R) ?D2"
    by (simp_all only: counted_prefix_split takeWhile_split)
  then have "D = ?Q @ ?W @ ?R @ drop (length ?R) ?D2" by metis
  then show ?thesis by (rule that) (simp only: remote_atoms.simps Let_def)
qed

lemma remote_atoms_prefix:
  assumes "L \<noteq> [] \<Longrightarrow> length (filter (known v) L) < fst (fst (hd es)) \<or> es = []"
  shows "remote_atoms u v t off (L @ D) 0 es = L @ remote_atoms u v t off D (length (filter (known v) L)) es"
proof (cases "L = [] \<or> es = []")
  case False
  obtain a b tx es' where es: "es = ((a, b), tx) # es'" using False by (cases es) auto
  obtain m where m: "a = length (filter (known v) L) + Suc m" using assms False es by (metis add_Suc_right fst_conv less_iff_Suc_add list.sel(1) list.distinct(1))
  let ?n = "length (filter (known v) L)"
  have "counted_prefix (known v) (a - 0) (L @ D) = L @ counted_prefix (known v) (a - ?n) D" using counted_prefix_append [of "known v" L m D] by (simp only: m) simp
  moreover have "drop (length (L @ xs)) (L @ D) = drop (length xs) D" for xs by simp
  ultimately show ?thesis by (simp only: es remote_atoms.simps Let_def append_assoc)
qed auto

lemma remote_atoms_ids:
  assumes "\<forall>a \<in> set D. atom_time a \<noteq> t"
  shows "map atom_id (filter (\<lambda>a. atom_time a \<noteq> t) (remote_atoms u v t off D pos es)) = map atom_id D"
    "map atom_id (filter (\<lambda>a. atom_time a = t) (remote_atoms u v t off D pos es)) =
      map (Pair t) [off..<off + length (concat (map snd es))]"
proof -
  have keep: "filter (\<lambda>a. atom_time a \<noteq> t) as = as" "filter (\<lambda>a. atom_time a = t) as = []" if "\<forall>a \<in> set as. atom_time a \<noteq> t" for as
    using that by (auto simp: filter_id_conv filter_empty_conv)
  have new: "filter (\<lambda>a. atom_time a \<noteq> t) (new_atoms t k n) = []" "filter (\<lambda>a. atom_time a = t) (new_atoms t k n) = new_atoms t k n" for k n
    using new_atoms_time(1) by (auto simp: filter_id_conv filter_empty_conv)
  have mark: "filter (\<lambda>a. atom_time a \<noteq> t) (map (mark_remote t u v) as) = map (mark_remote t u v) (filter (\<lambda>a. atom_time a \<noteq> t) as)"
    "filter (\<lambda>a. atom_time a = t) (map (mark_remote t u v) as) = map (mark_remote t u v) (filter (\<lambda>a. atom_time a = t) as)" for as
    by (simp_all add: filter_map o_def)
  have "map atom_id (filter (\<lambda>a. atom_time a \<noteq> t) (remote_atoms u v t off D pos es)) = map atom_id D \<and>
    map atom_id (filter (\<lambda>a. atom_time a = t) (remote_atoms u v t off D pos es)) =
      map (Pair t) [off..<off + length (concat (map snd es))]"
    using assms
  proof (induction es arbitrary: off D pos)
    case (Cons e es)
    obtain a b tx where e: "e = ((a, b), tx)" by (metis prod.collapse)
    obtain Q W R Z where D: "D = Q @ W @ R @ Z"
      "remote_atoms u v t off D pos (e # es) =
        Q @ W @ new_atoms t off (length tx) @ map (mark_remote t u v) R @ remote_atoms u v t (off + length tx) Z b es"
      using remote_atoms_parts [of D u v t off pos a b tx es] e by blast
    have old: "\<forall>a \<in> set Q. atom_time a \<noteq> t" "\<forall>a \<in> set W. atom_time a \<noteq> t" "\<forall>a \<in> set R. atom_time a \<noteq> t" "\<forall>a \<in> set Z. atom_time a \<noteq> t"
      using Cons.prems D(1) by auto
    have up: "[off..<off + length (concat (map snd (e # es)))] = [off..<off + length tx] @ [off + length tx..<off + length tx + length (concat (map snd es))]"
      using upt_add_eq_append [of off "off + length tx"] e by (simp add: add.assoc)
    show ?case unfolding D(2) up using Cons.IH [OF old(4), of "off + length tx" b] D(1)
      by (simp add: keep old new mark new_atoms_time(2) filter_map o_def)
  qed (simp add: keep)
  then show "map atom_id (filter (\<lambda>a. atom_time a \<noteq> t) (remote_atoms u v t off D pos es)) = map atom_id D"
    "map atom_id (filter (\<lambda>a. atom_time a = t) (remote_atoms u v t off D pos es)) =
      map (Pair t) [off..<off + length (concat (map snd es))]" by blast+
qed

lemma remote_atoms_distinct:
  assumes "distinct (map atom_id D)" "\<forall>a \<in> set D. atom_time a \<noteq> t"
  shows "distinct (map atom_id (remote_atoms u v t off D pos es))"
proof (rule distinct_partition [where P = "\<lambda>a. atom_time a = t"])
  show "distinct (map atom_id (filter (\<lambda>a. atom_time a = t) (remote_atoms u v t off D pos es)))"
    by (simp only: remote_atoms_ids(2) [OF assms(2)]) (simp add: distinct_map inj_on_def)
  show "distinct (map atom_id (filter (\<lambda>a. atom_time a \<noteq> t) (remote_atoms u v t off D pos es)))"
    using assms(1) by (simp only: remote_atoms_ids(1) [OF assms(2)])
qed (simp add: atom_id_def)

end
