(* ===== verification/Remote_Edit.thy ===== *)
theory Remote_Edit
  imports Remote_Walk Remote_Spec
begin

text \<open>
  \<open>apply_remote_edit\<close>: the steps of the function keep the state of an edit in step with the document, and together they
  compute \<open>remote_atoms\<close>.
\<close>

subsection \<open>The state in front of an offset\<close>

text \<open>
  The atoms \<open>P\<close> are consumed and have become \<open>A\<close>; a fragment that is consumed in part was observed by the version and is
  not yet consumed to its end.
\<close>

definition patching ::
  "content \<Rightarrow> buffer_snapshot \<Rightarrow> global \<Rightarrow> lamport \<Rightarrow> remote_position edit_state \<Rightarrow> fragment list \<Rightarrow> fragment list \<Rightarrow> nat
     \<Rightarrow> atom list \<Rightarrow> atom list \<Rightarrow> nat \<Rightarrow> bool" where
  "patching c s v t st pre suf k P A off \<longleftrightarrow>
     (\<exists>N ps. remote_walk.walking v c s t st pre suf k N ps \<and> atoms N = A) \<and> P = consumed pre suf k \<and>
     es_fragment_start st = msum (observed_bytes v) pre + k \<and> es_insertion_offset st = off \<and>
     spans (es_edits_patch st) (shown c P) (shown c A) \<and> (0 < k \<longrightarrow> k < frag_len (hd suf))"

lemma patchingI:
  "remote_walk.walking v c s t st pre suf k N ps \<Longrightarrow> A = atoms N \<Longrightarrow> P = consumed pre suf k \<Longrightarrow>
    es_fragment_start st = msum (observed_bytes v) pre + k \<Longrightarrow> es_insertion_offset st = off \<Longrightarrow>
    spans (es_edits_patch st) (shown c P) (shown c A) \<Longrightarrow> 0 < k \<longrightarrow> k < frag_len (hd suf) \<Longrightarrow> patching c s v t st pre suf k P A off"
  unfolding patching_def by blast

lemma patchingD:
  assumes "patching c s v t st pre suf k P A off"
  shows "\<exists>N ps. remote_walk.walking v c s t st pre suf k N ps \<and> atoms N = A" "P = consumed pre suf k"
    "es_fragment_start st = msum (observed_bytes v) pre + k" "es_insertion_offset st = off"
    "spans (es_edits_patch st) (shown c P) (shown c A)" "0 < k \<longrightarrow> k < frag_len (hd suf)"
    "remote_walk.cut_ok v c suf k" "cursor_at fragment_ops (remote_dim v) (es_old_fragments st) pre suf"
    "0 < k \<longrightarrow> observed v (frag_timestamp (hd suf))" "holds c s (pre @ suf)"
proof -
  show all: "\<exists>N ps. remote_walk.walking v c s t st pre suf k N ps \<and> atoms N = A" "P = consumed pre suf k"
    "es_fragment_start st = msum (observed_bytes v) pre + k" "es_insertion_offset st = off"
    "spans (es_edits_patch st) (shown c P) (shown c A)" "0 < k \<longrightarrow> k < frag_len (hd suf)"
    using assms by (auto simp: patching_def)
  obtain N ps where "remote_walk.walking v c s t st pre suf k N ps" using all(1) by blast
  note W = remote_walk.walkingD [OF this]
  show w: "remote_walk.cut_ok v c suf k" "cursor_at fragment_ops (remote_dim v) (es_old_fragments st) pre suf" "holds c s (pre @ suf)"
    by (fact W)+
  show "0 < k \<longrightarrow> observed v (frag_timestamp (hd suf))"
    using w(1) by (cases suf) (auto simp: remote_walk.cut_ok_def observed_bytes_def split: if_splits)
qed

text \<open>Counting what the version observed.\<close>

lemma known_atoms_of [simp]: "filter (known v) (atoms_of f) = (if observed v (frag_timestamp f) then atoms_of f else [])"
  using filter_const [of "atoms_of f" "known v" "observed v (frag_timestamp f)"]
  by (auto simp: known_def atoms_of_def atom_at_def)

lemma known_len [simp]: "length (filter (known v) (atoms fs)) = msum (observed_bytes v) fs"
  by (induction fs) (simp_all add: observed_bytes_def)

lemma part_times: "x \<in> set (part f k n) \<Longrightarrow> atom_time x = frag_timestamp f"
  by (auto simp: part_def atoms_of_def atom_at_def dest!: in_set_takeD in_set_dropD)

lemma known_part: "filter (known v) (part f k n) = (if observed v (frag_timestamp f) then part f k n else [])"
  using filter_const [of "part f k n" "known v" "observed v (frag_timestamp f)"] part_times by (auto simp: known_def)

lemma part_closes: "x \<in> set (part f k n) \<Longrightarrow> known v x \<longleftrightarrow> observed v (frag_timestamp f)"
  by (simp add: known_def part_times)

definition known_text :: "content \<Rightarrow> global \<Rightarrow> atom list \<Rightarrow> str" where
  "known_text c v as = bytes_of c (filter (known v) as)"

lemma known_text_simps [simp]:
  "known_text c v (as @ bs) = known_text c v as @ known_text c v bs" "length (known_text c v (atoms fs)) = msum (observed_bytes v) fs"
  by (simp_all add: known_text_def)

lemma known_boundary:
  assumes "str_is_char_boundary (known_text c v (atoms (pre @ f # suf))) (msum (observed_bytes v) pre + n)" "n \<le> observed_bytes v f"
  shows "str_is_char_boundary (bytes_of c (atoms_of f)) n"
proof (cases "observed v (frag_timestamp f)")
  case True
  then show ?thesis
    using assms boundary_inner [of "known_text c v (atoms pre)" "bytes_of c (atoms_of f)" "known_text c v (atoms suf)" n]
    by (simp add: observed_bytes_def) (simp add: known_text_def)
qed (use assms(2) in \<open>simp add: observed_bytes_def str_is_char_boundary_def\<close>)

lemma patching_count:
  assumes "patching c s v t st pre suf k P A off"
  shows "length (filter (known v) P) = msum (observed_bytes v) pre + k"
  using patchingD(2,7) [OF assms]
  by (cases suf) (auto simp: remote_walk.cut_ok_def known_part part_simps observed_bytes_def split: if_splits)

lemma shown_consumed:
  assumes "k \<le> frag_len f"
  shows "length (shown c (consumed pre (f # suf) k)) = visible_len pre + (if frag_visible f then k else 0)"
  using assms by (simp add: shown_part part_simps)

subsection \<open>In front of a range\<close>

lemma remote_approach_spec:
  assumes e: "patching c s v t st pre suf k P A off"
    and a: "msum (observed_bytes v) pre + k \<le> a" "a \<le> msum (observed_bytes v) (pre @ suf)"
  shows "\<exists>fragment_end st' pre' suf' k' Q. loc_end (remote_dim v) remote_loc st = Some fragment_end \<and>
    (if fragment_end < a then do {
        st \<leftarrow> finish_fragment (remote_dim v) remote_loc st;
        advance_to (remote_dim v) remote_loc (remote_target a) Left st
      } else Some st) = Some st' \<and>
    pre' @ suf' = pre @ suf \<and> patching c s v t st' pre' suf' k' (P @ Q) (A @ Q) off \<and>
    msum (observed_bytes v) pre' + k' \<le> a \<and> a \<le> msum (observed_bytes v) (pre' @ take 1 suf') \<and>
    (Q = [] \<or> msum (observed_bytes v) pre' + k' < a)"
proof -
  let ?m = "msum (observed_bytes v)"
  note E = patchingD [OF e]
  obtain N ps where w: "remote_walk.walking v c s t st pre suf k N ps" "atoms N = A" using E(1) by blast
  note reads = remote_walk.cursor_reads(3) [OF E(8)]
  show ?thesis
  proof (cases "?m (pre @ take 1 suf) < a")
    case False
    then show ?thesis using reads e a(1)
      by (intro exI [of _ "?m (pre @ take 1 suf)"] exI [of _ st] exI [of _ pre] exI [of _ suf] exI [of _ k] exI [of _ "[]"]) auto
  next
    case True
    let ?pre = "pre @ (if k = 0 then [] else take 1 suf)" and ?suf = "if k = 0 then suf else tl suf"
    obtain st1 gs where st1: "finish_fragment (remote_dim v) remote_loc st = Some st1"
      "remote_walk.walking v c s t st1 ?pre ?suf 0 (N @ gs) (ps @ gs)"
      "atoms gs = (if k = 0 then [] else part (hd suf) k (frag_len (hd suf) - k))"
      "st1 = st\<lparr>es_old_fragments := es_old_fragments st1, es_new_insertions := es_new_insertions st1, es_new_ropes := es_new_ropes st1,
        es_new_fragments := es_new_fragments st1\<rparr>"
      using remote_walk.finish_fragment_spec [OF w(1) E(3)] by blast
    have all: "?pre @ ?suf = pre @ suf" by (cases suf) auto
    have P1: "atoms ?pre = P @ atoms gs"
      using st1(3) E(2,7) part_add [of "hd suf" k "frag_len (hd suf) - k"] part_simps(3) [of "hd suf"]
      by (cases suf) (auto simp: remote_walk.cut_ok_def)
    have "?m ?pre < a" using True by (auto split: if_splits)
    then have "?m ?pre \<le> a" by simp
    from remote_walk.advance_spec [OF st1(2) this, of Left]
    obtain st2 l r where st2: "advance_to (remote_dim v) remote_loc (remote_target a) Left st1 = Some st2" "?suf = l @ r"
      "remote_walk.walking v c s t st2 (?pre @ l) r 0 ((N @ gs) @ l) (ps @ gs)"
      "l \<noteq> [] \<longrightarrow> ?m (?pre @ l) < a" "r \<noteq> [] \<longrightarrow> \<not> ?m (?pre @ l @ take 1 r) < a"
      "st2 = st1\<lparr>es_old_fragments := es_old_fragments st2, es_new_ropes := es_new_ropes st2, es_new_fragments := es_new_fragments st2,
        es_fragment_start := ?m (?pre @ l)\<rparr>"
      by (auto simp: passes_def simp del: append_assoc msum_simps)
    have sel: "es_fragment_start st2 = ?m (?pre @ l)" by (subst st2(6)) simp
    have sel': "es_insertion_offset st2 = off" "es_edits_patch st2 = es_edits_patch st"
      using E(4) by (subst st2(6), simp, subst st1(4), simp)+
    let ?Q = "atoms gs @ atoms l"
    have "patching c s v t st2 (?pre @ l) r 0 (P @ ?Q) (A @ ?Q) off"
    proof (rule patchingI [OF st2(3)])
      show "spans (es_edits_patch st2) (shown c (P @ ?Q)) (shown c (A @ ?Q))"
        using spans_keep [OF E(5), of "shown c ?Q"] sel'(2) by simp
    qed (use w(2) P1 sel sel' in simp_all)
    moreover have "(?pre @ l) @ r = pre @ suf" using all unfolding st2(2) by (simp only: append_assoc)
    moreover have less: "?m (?pre @ l) < a" using st2(4) \<open>?m ?pre < a\<close> by (cases l) auto
    moreover from calculation(2) have "a \<le> ?m ((?pre @ l) @ take 1 r)"
      using a(2) st2(5) less by (cases r) (simp_all only: append_assoc not_less list.distinct take_Nil append_Nil2, simp_all)
    ultimately show ?thesis using reads True st1(1) st2(1)
      by (intro exI [of _ "?m (pre @ take 1 suf)"] exI [of _ st2] exI [of _ "?pre @ l"] exI [of _ r] exI [of _ 0] exI [of _ ?Q]) simp
  qed
qed

lemma remote_leave_spec:
  assumes e: "patching c s v t st pre suf k P A off"
    and a: "msum (observed_bytes v) pre + k \<le> a" "a \<le> msum (observed_bytes v) (pre @ take 1 suf)"
  shows "\<exists>st' pre' suf' k' G. leave_ended v a st = Some st' \<and> pre' @ suf' = pre @ suf \<and>
    patching c s v t st' pre' suf' k' (P @ G) (A @ G) off \<and>
    (msum (observed_bytes v) pre' + k' = a \<or> msum (observed_bytes v) pre' + k' < a \<and> a < msum (observed_bytes v) (pre' @ take 1 suf')) \<and>
    (G = [] \<or> known v (last G) \<and> msum (observed_bytes v) pre' + k' = a) \<and> (msum (observed_bytes v) pre + k = a \<longrightarrow> G = [])"
proof -
  let ?m = "msum (observed_bytes v)"
  note E = patchingD [OF e]
  obtain N ps where w: "remote_walk.walking v c s t st pre suf k N ps" "atoms N = A" using E(1) by blast
  note W = remote_walk.walkingD [OF w(1)]
  note reads = remote_walk.cursor_reads [OF E(8)]
  show ?thesis
  proof (cases "?m (pre @ take 1 suf) = a \<and> ?m pre + k < a")
    case False
    then have "leave_ended v a st = Some st" using reads(3) E(3) by (auto simp: leave_ended_def)
    moreover have "?m pre + k = a \<or> ?m pre + k < a \<and> a < ?m (pre @ take 1 suf)" using False a by linarith
    ultimately show ?thesis using e
      by (intro exI [of _ st] exI [of _ pre] exI [of _ suf] exI [of _ k] exI [of _ "[]"]) simp
  next
    case True
    obtain f suf' where suf: "suf = f # suf'" using True by (cases suf) auto
    have f: "frag_ok c f" using holdsD(7) [OF W(1)] suf by simp
    have obs: "observed v (frag_timestamp f)" "observed_bytes v f = frag_len f" using True suf by (auto simp: observed_bytes_def split: if_splits)
    have k: "k < frag_len f" using E(6) suf f by (cases k) (auto simp: frag_ok_def)
    have n: "0 < frag_len f - k" "k + (frag_len f - k) \<le> frag_len f" "str_is_char_boundary (bytes_of c (atoms_of f)) (k + (frag_len f - k))"
      using k str_boundary_len [of "bytes_of c (atoms_of f)"] by auto
    define g where "g = cut_fragment f (?m pre) (?m pre + k) (?m pre + frag_len f)"
    have g: "frag_len g = frag_len f - k" "frag_id g = frag_id f" "frag_key g = (frag_timestamp f, frag_offset f + k)"
      by (simp_all add: g_def cut_fragment_def frag_key_def)
    have atoms: "atoms_of g = part f k (frag_len f - k)"
      using atoms_of_cut [of "?m pre" "?m pre + k" "?m pre + frag_len f" f] by (simp add: g_def part_def)
    have ids: "ids_below (N @ [g]) (next_id suf')"
      using holdsD(8) [OF W(1)] W(5) suf g(2) by (intro ids_below_next [of pre f]) (auto simp: next_id_def)
    obtain st1 where st1: "push_piece st g (frag_visible f) = Some st1"
      "built c s st1 (consumed pre (f # suf') (k + (frag_len f - k))) (N @ [g])"
      "covers pre (f # suf') (k + (frag_len f - k)) (N @ [g]) (ps @ [g])"
      "st1 = st\<lparr>es_new_insertions := map insert_new (ps @ [g]), es_new_ropes := es_new_ropes st1, es_new_fragments := es_new_fragments st1\<rparr>"
      using remote_walk.walk_piece [OF W(1,3,4,6,7) [unfolded suf] n g(1) _ g(3)] atoms by auto
    have full: "k + (frag_len f - k) = frag_len f" using k by simp
    have sel: "es_old_fragments st1 = es_old_fragments st" "es_insertion_slices st1 = es_insertion_slices st"
      "es_new_insertions st1 = map insert_new (ps @ [g])" "es_edits_patch st1 = es_edits_patch st" "es_insertion_offset st1 = es_insertion_offset st"
      by (subst st1(4), simp)+
    have slices: "\<exists>qs. es_insertion_slices st1 = map (slice_from_fragment t) qs \<and> mset qs \<subseteq># mset (N @ [g])"
      using slices_grow(1) [OF W(8), of "[g]"] sel(2) by simp
    have at1: "cursor_at fragment_ops (remote_dim v) (es_old_fragments st1) pre (f # suf')" using W(2) sel(1) suf by simp
    obtain cur where cur: "cursor_next (remote_dim v) (es_old_fragments st1) = Some cur"
      "remote_walk.walking v c s t (st1\<lparr>es_old_fragments := cur\<rparr>) (pre @ [f]) suf' 0 (N @ [g]) (ps @ [g])"
      using remote_walk.walk_leave [OF W(1) [unfolded suf] at1 st1(2) [unfolded full] ids sel(3) st1(3) [unfolded full] slices] by blast
    let ?st = "st1\<lparr>es_old_fragments := cur, es_fragment_start := a\<rparr>" and ?G = "part f k (frag_len f - k)"
    have wst: "remote_walk.walking v c s t ?st (pre @ [f]) suf' 0 (N @ [g]) (ps @ [g])"
      by (rule remote_walk.walking_cong [OF cur(2)]) simp_all
    have end_a: "?m pre + frag_len f = a" using True suf obs by simp
    have "loc_start remote_loc (st1\<lparr>es_old_fragments := cur\<rparr>) = Some a"
      using remote_walk.cursor_reads(2) [OF remote_walk.walkingD(2) [OF cur(2)]] end_a obs by simp
    moreover have "loc_start remote_loc st = Some (?m pre)" "loc_end (remote_dim v) remote_loc st = Some a" using reads True by simp_all
    moreover have "unwrap_item (es_old_fragments st) = Some f" using remote_walk.unwrap_reads [of v "es_old_fragments st" pre f suf'] W(2) suf by simp
    moreover have "cut_fragment f (?m pre) (es_fragment_start st) a = g" using E(3) end_a by (simp add: g_def)
    ultimately have "leave_ended v a st = Some ?st"
      using True E(3) st1(1) cur(1) by (simp add: leave_ended_def)
    moreover have "patching c s v t ?st (pre @ [f]) suf' 0 (P @ ?G) (A @ ?G) off"
    proof (rule patchingI [OF wst])
      show "P @ ?G = consumed (pre @ [f]) suf' 0" using E(2) suf k consumed_add [of k "frag_len f - k" f pre suf'] consumed_all [of pre f suf'] by simp
      show "spans (es_edits_patch ?st) (shown c (P @ ?G)) (shown c (A @ ?G))"
        using spans_keep [OF E(5), of "shown c ?G"] sel(4) by simp
    qed (use w(2) atoms end_a obs sel(5) E(4) in simp_all)
    moreover have "?G \<noteq> []" using part_simps(1) [OF n(2)] n(1) by auto
    moreover from this have "known v (last ?G)" using part_closes [of "last ?G" f k "frag_len f - k" v] obs(1) by simp
    ultimately show ?thesis using suf end_a obs True
      by (intro exI [of _ ?st] exI [of _ "pre @ [f]"] exI [of _ suf'] exI [of _ 0] exI [of _ ?G]) simp
  qed
qed

text \<open>A fragment that is kept as it is.\<close>

lemma keep_fragment_spec:
  assumes w: "remote_walk.walking v c s t st pre (f # suf) 0 N ps"
  shows "\<exists>ropes cur. rope_builder_push_fragment (es_new_ropes st) f (frag_visible f) = Some ropes \<and>
    cursor_next (remote_dim v) (es_old_fragments st) = Some cur \<and>
    remote_walk.walking v c s t (st\<lparr>es_new_ropes := ropes, es_new_fragments := fragment_builder_push (es_new_fragments st) f,
      es_old_fragments := cur\<rparr>) (pre @ [f]) suf 0 (N @ [f]) ps"
proof -
  note W = remote_walk.walkingD [OF w]
  note h = holdsD [OF W(1)]
  have b: "builds (es_new_fragments st) N" "clean c (atoms pre)" "\<forall>g \<in> set N. frag_ok c g"
    "rope_builder_at (visible_text s) (deleted_text s) (es_new_ropes st) (length (shown c (atoms pre))) (length (hidden c (atoms pre)))
       (shown c (atoms N)) (hidden c (atoms N))"
    using W(4) by (auto simp: built_def)
  have f: "frag_ok c f" using h(7) by simp
  have split: "atoms (pre @ f # suf) = atoms pre @ atoms_of f @ atoms suf" by simp
  obtain r where r: "rope_builder_push (es_new_ropes st) (length (atoms_of f)) (frag_visible f) (frag_visible f) = Some r"
    "rope_builder_at (visible_text s) (deleted_text s) r (length (shown c (atoms pre @ atoms_of f))) (length (hidden c (atoms pre @ atoms_of f)))
      (if frag_visible f then shown c (atoms N) @ bytes_of c (atoms_of f) else shown c (atoms N))
      (if frag_visible f then hidden c (atoms N) else hidden c (atoms N) @ bytes_of c (atoms_of f))"
    using push_rope_spec [OF W(1) split b(2) clean_frag [OF f] _ b(4), of "frag_visible f" "frag_visible f"] visible_atoms_of by blast
  obtain cur where cur: "cursor_next (remote_dim v) (es_old_fragments st) = Some cur" "cursor_at fragment_ops (remote_dim v) cur (pre @ [f]) suf"
    using remote_walk.walk_next [OF W(2)] by blast
  have "clean c (atoms (pre @ [f]))" using clean_frags [of "pre @ [f]" c] h(7) by simp
  moreover have "ids_below (N @ [f]) (next_id suf)" using ids_below_keep [of pre "[f]" suf N] h(8) W(5) by simp
  moreover have "covers (pre @ [f]) suf 0 (N @ [f]) ps" using covers_slice [of pre "[f]" suf N ps] W(7) by simp
  ultimately show ?thesis
    using r cur W(1,6) builds_push [OF b(1)] b(3) f slices_grow(1) [OF W(8), of "[f]"]
    by (intro exI [of _ r] exI [of _ cur]) (auto simp: remote_walk.walking_def built_def rope_builder_push_fragment_def)
qed

lemma skip_concurrent_spec:
  assumes "patching c s v t st pre suf 0 P A off" "\<forall>f \<in> set suf. observed v (frag_timestamp f) \<longrightarrow> frag_timestamp f < t"
  shows "\<exists>st' l r. skip_concurrent v (msum (observed_bytes v) pre) t st = Some st' \<and> suf = l @ r \<and>
    patching c s v t st' (pre @ l) r 0 (P @ atoms l) (A @ atoms l) off \<and> msum (observed_bytes v) l = 0 \<and>
    (\<forall>f \<in> set l. t < frag_timestamp f) \<and> (r \<noteq> [] \<longrightarrow> \<not> t < frag_timestamp (hd r))"
  using assms
proof (induction suf arbitrary: st pre P A)
  case Nil
  then show ?case using remote_walk.cursor_reads(1) [OF patchingD(8) [OF Nil.prems(1)]]
    by (intro exI [of _ st] exI [of _ "[]"]) (simp add: skip_concurrent.simps head_opt_def)
next
  case (Cons f suf)
  note E = patchingD [OF Cons.prems(1)]
  note item = remote_walk.cursor_reads(1) [OF E(8)]
  show ?case
  proof (cases "t < frag_timestamp f")
    case False
    then show ?thesis using item Cons.prems(1)
      by (intro exI [of _ st] exI [of _ "[]"] exI [of _ "f # suf"]) (simp add: skip_concurrent.simps [of _ _ _ st] head_opt_def)
  next
    case True
    then have none: "observed_bytes v f = 0" using Cons.prems(2) by (auto simp: observed_bytes_def)
    obtain N ps where w: "remote_walk.walking v c s t st pre (f # suf) 0 N ps" "atoms N = A" using E(1) by blast
    obtain r cur where st1: "rope_builder_push_fragment (es_new_ropes st) f (frag_visible f) = Some r"
      "cursor_next (remote_dim v) (es_old_fragments st) = Some cur"
      "remote_walk.walking v c s t (st\<lparr>es_new_ropes := r, es_new_fragments := fragment_builder_push (es_new_fragments st) f,
        es_old_fragments := cur\<rparr>) (pre @ [f]) suf 0 (N @ [f]) ps"
      using keep_fragment_spec [OF w(1)] by blast
    define st1 where "st1 = st\<lparr>es_new_ropes := r, es_new_fragments := fragment_builder_push (es_new_fragments st) f, es_old_fragments := cur\<rparr>"
    have e1: "patching c s v t st1 (pre @ [f]) suf 0 (P @ atoms_of f) (A @ atoms_of f) off"
    proof (rule patchingI [OF st1(3) [folded st1_def]])
      show "spans (es_edits_patch st1) (shown c (P @ atoms_of f)) (shown c (A @ atoms_of f))"
        using spans_keep [OF E(5), of "shown c (atoms_of f)"] by (simp add: st1_def)
    qed (use E(2,3,4) w(2) none in \<open>simp_all add: st1_def\<close>)
    have ih: "\<exists>st' l r. skip_concurrent v (msum (observed_bytes v) (pre @ [f])) t st1 = Some st' \<and> suf = l @ r \<and>
        patching c s v t st' ((pre @ [f]) @ l) r 0 ((P @ atoms_of f) @ atoms l) ((A @ atoms_of f) @ atoms l) off \<and>
        msum (observed_bytes v) l = 0 \<and> (\<forall>f \<in> set l. t < frag_timestamp f) \<and> (r \<noteq> [] \<longrightarrow> \<not> t < frag_timestamp (hd r))"
      using Cons.IH [OF e1] Cons.prems(2) by simp
    then obtain st' l r' where st': "skip_concurrent v (msum (observed_bytes v) (pre @ [f])) t st1 = Some st'" "suf = l @ r'"
      "patching c s v t st' ((pre @ [f]) @ l) r' 0 ((P @ atoms_of f) @ atoms l) ((A @ atoms_of f) @ atoms l) off"
      "msum (observed_bytes v) l = 0" "\<forall>f \<in> set l. t < frag_timestamp f" "r' \<noteq> [] \<longrightarrow> \<not> t < frag_timestamp (hd r')" by blast
    have "skip_concurrent v (msum (observed_bytes v) pre) t st = Some st'"
      using item True st1(1,2) st'(1) E(3) none
      by (simp add: skip_concurrent.simps [of _ _ _ st] head_opt_def st1_def)
    then show ?thesis using st' True none
      by (intro exI [of _ st'] exI [of _ "f # l"] exI [of _ r']) simp
  qed
qed

text \<open>The next atom is not newer when it was observed.\<close>

lemma rest_head:
  assumes "holds c s (pre @ suf)" "k = 0 \<and> (suf \<noteq> [] \<longrightarrow> \<not> t < frag_timestamp (hd suf)) \<or> 0 < k \<and> k < frag_len (hd suf) \<and> frag_timestamp (hd suf) < t"
  shows "drop k (atoms suf) \<noteq> [] \<longrightarrow> \<not> t < atom_time (hd (drop k (atoms suf)))"
proof (cases suf)
  case (Cons f suf')
  have "0 < frag_len f" using holdsD(7) [OF assms(1)] Cons by (simp add: frag_ok_def)
  then have k: "k < frag_len f" using assms(2) Cons by auto
  then have "drop k (atoms_of f) \<noteq> []" by simp
  then have "hd (drop k (atoms suf)) \<in> set (atoms_of f)" using Cons by (metis drop_append hd_append hd_in_set in_set_dropD atoms_simps(2))
  then have "atom_time (hd (drop k (atoms suf))) = frag_timestamp f" by (auto simp: atoms_of_def atom_at_def)
  then show ?thesis using assms(2) Cons by auto
qed simp

lemma remote_position_spec:
  assumes e: "patching c s v t st pre suf k P A off"
    and a: "msum (observed_bytes v) pre + k \<le> a" "a \<le> msum (observed_bytes v) (pre @ take 1 suf)"
    and causal: "\<forall>f \<in> set (pre @ suf). observed v (frag_timestamp f) \<longrightarrow> frag_timestamp f < t"
    and cut: "str_is_char_boundary (known_text c v (atoms (pre @ suf))) a"
  shows "\<exists>st1 st2 st' pre' suf' k' G W. leave_ended v a st = Some st1 \<and> skip_concurrent v a t st1 = Some st2 \<and>
    push_prefix remote_loc a st2 = Some st' \<and> pre' @ suf' = pre @ suf \<and>
    patching c s v t st' pre' suf' k' (P @ G @ W) (A @ G @ W) off \<and> msum (observed_bytes v) pre' + k' = a \<and>
    (G \<noteq> [] \<longrightarrow> known v (last G)) \<and> (msum (observed_bytes v) pre + k = a \<longleftrightarrow> G = []) \<and> (\<forall>x \<in> set W. t < atom_time x) \<and>
    (drop k' (atoms suf') \<noteq> [] \<longrightarrow> \<not> t < atom_time (hd (drop k' (atoms suf'))))"
proof -
  let ?m = "msum (observed_bytes v)"
  obtain st1 pre1 suf1 k1 G where l: "leave_ended v a st = Some st1" "pre1 @ suf1 = pre @ suf"
    "patching c s v t st1 pre1 suf1 k1 (P @ G) (A @ G) off"
    "?m pre1 + k1 = a \<or> ?m pre1 + k1 < a \<and> a < ?m (pre1 @ take 1 suf1)" "G = [] \<or> known v (last G) \<and> ?m pre1 + k1 = a"
    "?m pre + k = a \<longrightarrow> G = []"
    using remote_leave_spec [OF e a] by blast
  note E = patchingD [OF l(3)]
  have causal1: "\<forall>f \<in> set (pre1 @ suf1). observed v (frag_timestamp f) \<longrightarrow> frag_timestamp f < t" using causal l(2) by simp
  have count: "length (filter (known v) (P @ G)) = ?m pre1 + k1" "length (filter (known v) P) = ?m pre + k"
    using patching_count [OF l(3)] patching_count [OF e] by simp_all
  have diff: "?m pre + k = a \<longleftrightarrow> G = []" if "?m pre1 + k1 = a"
    using count that l(6) by auto
  show ?thesis
  proof (cases "?m pre1 + k1 = a")
    case True
    have G: "G \<noteq> [] \<longrightarrow> known v (last G)" using l(5) by blast
    have prefix: "push_prefix remote_loc a st' = Some st'" if "es_fragment_start st' = a" for st'
      using that by (simp add: push_prefix_def)
    show ?thesis
    proof (cases "k1 = 0")
      case zero: True
      obtain st2 l' r where st2: "skip_concurrent v (?m pre1) t st1 = Some st2" "suf1 = l' @ r"
        "patching c s v t st2 (pre1 @ l') r 0 ((P @ G) @ atoms l') ((A @ G) @ atoms l') off" "?m l' = 0"
        "\<forall>f \<in> set l'. t < frag_timestamp f" "r \<noteq> [] \<longrightarrow> \<not> t < frag_timestamp (hd r)"
        using skip_concurrent_spec [of c s v t st1 pre1 suf1 "P @ G" "A @ G" off] l(3) zero causal1 by auto
      have "\<forall>x \<in> set (atoms l'). t < atom_time x" using st2(5) by (auto simp: atoms_def atoms_of_def atom_at_def)
      moreover have "drop 0 (atoms r) \<noteq> [] \<longrightarrow> \<not> t < atom_time (hd (drop 0 (atoms r)))"
        using rest_head [of c s "pre1 @ l'" r 0 t] patchingD(10) [OF st2(3)] st2(6) by simp
      moreover have "?m pre1 = a" "(pre1 @ l') @ r = pre @ suf" "patching c s v t st2 (pre1 @ l') r 0 (P @ G @ atoms l') (A @ G @ atoms l') off"
        using True zero l(2) st2(2,3) by simp_all
      moreover have "push_prefix remote_loc a st2 = Some st2" using patchingD(3) [OF st2(3)] calculation(3) st2(4) by (intro prefix) simp
      ultimately show ?thesis using l(1) st2(1,4) G diff [OF True]
        by (intro exI [of _ st1] exI [of _ st2] exI [of _ st2] exI [of _ "pre1 @ l'"] exI [of _ r] exI [of _ 0] exI [of _ G] exI [of _ "atoms l'"] conjI)
          simp_all
    next
      case False
      then obtain f suf' where suf: "suf1 = f # suf'" using E(7) by (cases suf1) (auto simp: remote_walk.cut_ok_def)
      have old: "frag_timestamp f < t" using False E(9) suf causal1 by simp
      have "skip_concurrent v a t st1 = Some st1"
        using remote_walk.cursor_reads(1) [OF E(8)] suf less_not_sym [OF old] by (simp add: skip_concurrent.simps [of _ _ _ st1] head_opt_def)
      moreover have "drop k1 (atoms suf1) \<noteq> [] \<longrightarrow> \<not> t < atom_time (hd (drop k1 (atoms suf1)))"
        using rest_head [OF E(10), of k1 t] False E(6) old suf by simp
      moreover have "push_prefix remote_loc a st1 = Some st1" using prefix E(3) True by simp
      ultimately show ?thesis using l(1,2,3) True G diff [OF True]
        by (intro exI [of _ st1] exI [of _ st1] exI [of _ st1] exI [of _ pre1] exI [of _ suf1] exI [of _ k1] exI [of _ G] exI [of _ "[]"] conjI)
          simp_all
    qed
  next
    case False
    then have less: "?m pre1 + k1 < a" "a < ?m (pre1 @ take 1 suf1)" and G: "G = []" using l(4,5) by auto
    obtain f suf' where suf: "suf1 = f # suf'" using less by (cases suf1) auto
    have obs: "observed v (frag_timestamp f)" "observed_bytes v f = frag_len f" using less suf by (auto simp: observed_bytes_def split: if_splits)
    have old: "frag_timestamp f < t" using obs suf causal1 by simp
    define n where "n = a - ?m pre1"
    have n: "k1 \<le> n" "?m pre1 + n = a" "n < frag_len f" "0 < n" "0 < n - k1" using less suf obs by (auto simp: n_def)
    have cutf: "str_is_char_boundary (bytes_of c (atoms_of f)) n"
      using cut l(2) known_boundary [of c v pre1 f suf' n] n(2,3) obs(2) suf by (metis less_imp_le)
    have ok: "remote_walk.cut_ok v c suf1 n" using n obs cutf suf by (simp add: remote_walk.cut_ok_def)
    obtain N ps where w: "remote_walk.walking v c s t st1 pre1 suf1 k1 N ps" "atoms N = A @ G" using E(1) by blast
    obtain st2 gs where st2: "push_prefix remote_loc a st1 = Some st2" "remote_walk.walking v c s t st2 pre1 suf1 n (N @ gs) (ps @ gs)"
      "atoms gs = part (hd suf1) k1 (n - k1)"
      "st2 = st1\<lparr>es_new_insertions := es_new_insertions st2, es_new_ropes := es_new_ropes st2, es_new_fragments := es_new_fragments st2,
        es_fragment_start := a\<rparr>"
      using remote_walk.push_prefix_spec [OF w(1) E(3) n(1) ok] n(2) by auto
    have sel: "es_fragment_start st2 = a" "es_insertion_offset st2 = off" "es_edits_patch st2 = es_edits_patch st1"
      using E(4) by (subst st2(4), simp)+
    let ?G = "part f k1 (n - k1)"
    have skip: "skip_concurrent v a t st1 = Some st1"
      using remote_walk.cursor_reads(1) [OF E(8)] suf less_not_sym [OF old] by (simp add: skip_concurrent.simps [of _ _ _ st1] head_opt_def)
    have "patching c s v t st2 pre1 suf1 n (P @ ?G) (A @ ?G) off"
    proof (rule patchingI [OF st2(2)])
      show "P @ ?G = consumed pre1 suf1 n" using E(2) G suf consumed_add [of k1 "n - k1" f pre1 suf'] n by simp
      show "spans (es_edits_patch st2) (shown c (P @ ?G)) (shown c (A @ ?G))"
        using spans_keep [OF E(5), of "shown c ?G"] sel(3) G by simp
    qed (use w(2) G st2(3) suf sel n in simp_all)
    moreover have "?G \<noteq> []" using part_simps(1) [of k1 "n - k1" f] n by auto
    moreover from this have "known v (last ?G)" using part_closes [of "last ?G" f k1 "n - k1" v] obs(1) by simp
    moreover have "?m pre + k \<noteq> a" using count False G by simp
    moreover have "drop n (atoms suf1) \<noteq> [] \<longrightarrow> \<not> t < atom_time (hd (drop n (atoms suf1)))"
      using rest_head [OF E(10), of n t] n old suf by simp
    ultimately show ?thesis using l(1,2) skip st2(1) n(2)
      by (intro exI [of _ st1] exI [of _ st1] exI [of _ st2] exI [of _ pre1] exI [of _ suf1] exI [of _ n] exI [of _ ?G] exI [of _ "[]"]) simp
  qed
qed

subsection \<open>The new text\<close>

lemma visible_offset:
  assumes "patching c s v t st pre suf k P A off"
  shows "length (shown c P) = visible_len pre + (case head_opt suf of Some f \<Rightarrow> if frag_visible f then k else 0 | None \<Rightarrow> 0)"
proof -
  note E = patchingD [OF assms]
  show ?thesis using E(2,7) shown_consumed [of k "hd suf" c pre "tl suf"]
    by (cases suf) (auto simp: head_opt_def remote_walk.cut_ok_def)
qed

lemma remote_insert_spec:
  assumes e: "patching c s v t st pre suf k P A off" and u: "4 \<le> max_len" "utf8_ok u" "writes c t off u"
  shows "\<exists>st'. remote_insert max_len t u st = Some st' \<and>
    patching c s v t st' pre suf k P (A @ new_atoms t off (length u)) (off + length u)"
proof (cases "u = []")
  case False
  note E = patchingD [OF e]
  obtain N ps where w: "remote_walk.walking v c s t st pre suf k N ps" "atoms N = A" using E(1) by blast
  obtain st1 gs where st1: "push_fragments_for_insertion max_len u t (next_id suf) t st = Some st1"
    "remote_walk.walking v c s t st1 pre suf k (N @ gs) (ps @ gs)" "atoms gs = new_atoms t off (length u)"
    "st1 = st\<lparr>es_insertion_slices := es_insertion_slices st1, es_new_insertions := es_new_insertions st1,
      es_new_fragments := es_new_fragments st1, es_insertion_offset := off + length u, es_new_ropes := es_new_ropes st1\<rparr>"
    using remote_walk.insert_spec [OF w(1) u E(4)] by blast
  have sel: "es_fragment_start st1 = es_fragment_start st" "es_insertion_offset st1 = off + length u" "es_edits_patch st1 = es_edits_patch st"
    by (subst st1(4), simp)+
  let ?old = "length (shown c P)"
  define st' where "st' = push_edit st1 ?old ?old (new_visible_len st) (new_visible_len st + length u)"
  have len: "new_visible_len st = length (shown c A)" using built_ids(2) [OF remote_walk.walkingD(4) [OF w(1)]] w(2) by simp
  have "patching c s v t st' pre suf k P (A @ new_atoms t off (length u)) (off + length u)"
  proof (rule patchingI)
    show "remote_walk.walking v c s t st' pre suf k (N @ gs) (ps @ gs)"
      by (rule remote_walk.walking_cong [OF st1(2)]) (simp_all add: st'_def push_edit_def)
    show "spans (es_edits_patch st') (shown c P) (shown c (A @ new_atoms t off (length u)))"
      using spans_push [OF E(5), of "[]" u] sel len u(3) by (simp add: st'_def push_edit_def push_span_def writes_def)
  qed (use E(2,3,6) sel st1(3) w(2) in \<open>simp_all add: st'_def push_edit_def\<close>)
  moreover have "remote_insert max_len t u st = Some st'"
    using False st1(1) remote_walk.next_fragment_reads [OF E(8)] remote_walk.cursor_reads(1,2) [OF E(8)] remote_visible_start [OF E(8)]
      visible_offset [OF e] E(3) by (cases "head_opt suf") (auto simp: remote_insert_def st'_def Let_def)
  ultimately show ?thesis by blast
qed (use e in \<open>simp add: remote_insert_def\<close>)

subsection \<open>Deleting a range\<close>

lemma mark_remote_part:
  assumes "\<forall>x \<in> set xs. was_shown u v x = w" "\<forall>x \<in> set xs. atom_visible x = vis"
  shows "shown c (map (mark_remote t u v) xs) = (if w then [] else shown c xs)"
    "\<not> w \<Longrightarrow> map (mark_remote t u v) xs = xs" "\<not> vis \<Longrightarrow> shown c xs = []"
proof -
  show id: "\<not> w \<Longrightarrow> map (mark_remote t u v) xs = xs" using assms(1) by (auto intro!: map_idI simp: mark_remote_def)
  show "shown c (map (mark_remote t u v) xs) = (if w then [] else shown c xs)"
    using id assms(1) by (auto simp: shown_def filter_empty_conv mark_remote_def)
  show "\<not> vis \<Longrightarrow> shown c xs = []" using assms(2) by (auto simp: shown_def filter_empty_conv)
qed

lemma atoms_of_marked:
  assumes "\<forall>x \<in> set (atoms_of f). was_shown u v x"
  shows "atoms_of (f\<lparr>frag_id := l, frag_deletions := frag_deletions f @ [t], frag_visible := False\<rparr>) = map (mark_remote t u v) (atoms_of f)"
  using assms by (auto simp: atoms_of_def atom_at_def mark_remote_def)

lemma remote_delete_unobserved:
  assumes e: "patching c s v t st pre (f # suf) k P A off" and b: "msum (observed_bytes v) pre + k < b" and no: "\<not> observed v (frag_timestamp f)"
  shows "\<exists>st'. remote_delete_step v u t b st = Some st' \<and>
    patching c s v t st' (pre @ [f]) suf 0 (P @ atoms_of f) (A @ map (mark_remote t u v) (atoms_of f)) off"
proof -
  let ?m = "msum (observed_bytes v)"
  note E = patchingD [OF e]
  obtain N ps where w: "remote_walk.walking v c s t st pre (f # suf) k N ps" "atoms N = A" using E(1) by blast
  note W = remote_walk.walkingD [OF w(1)]
  note reads = remote_walk.cursor_reads [OF W(2)] remote_walk.unwrap_reads [OF W(2)]
  have f: "frag_ok c f" using holdsD(7) [OF W(1)] by simp
  have k0: "k = 0" and mb: "observed_bytes v f = 0" using E(9) no by (auto simp: observed_bytes_def)
  have whole: "0 < frag_len f" "0 + frag_len f \<le> frag_len f" "str_is_char_boundary (bytes_of c (atoms_of f)) (0 + frag_len f)"
    using f str_boundary_len [of "bytes_of c (atoms_of f)"] by (auto simp: frag_ok_def)
  have ids: "ids_below (N @ [f]) (next_id suf)" using holdsD(8) [OF W(1)] W(5) by (intro ids_below_next [of pre f]) (auto simp: next_id_def)
  obtain st' where st': "push_intersection (remote_dim v) b (?m pre) (?m pre) f (frag_visible f) st = Some st'"
    "remote_walk.walking v c s t st' (pre @ [f]) suf 0 (N @ [f]) (ps @ [f])"
    "st' = st\<lparr>es_old_fragments := es_old_fragments st', es_new_insertions := es_new_insertions st', es_new_ropes := es_new_ropes st',
      es_new_fragments := es_new_fragments st', es_fragment_start := ?m pre\<rparr>"
    using remote_walk.push_intersection_spec [OF W(1,3,4,6,7) [unfolded k0] W(2) slices_grow(1) [OF W(8), of "[f]"] whole(1,2) _ _ whole(3) refl,
        of "?m pre" b "?m pre"] b k0 ids part_simps(3) [of f] by (auto simp: frag_key_def)
  have same: "map (mark_remote t u v) (atoms_of f) = atoms_of f"
    using no by (auto intro!: map_idI simp: mark_remote_def was_shown_def atoms_of_def atom_at_def)
  have "remote_delete_step v u t b st = Some st'"
    using reads st'(1) no mb b k0 by (simp add: remote_delete_step_def Let_def)
  moreover have sel: "es_fragment_start st' = ?m pre" "es_insertion_offset st' = off" "es_edits_patch st' = es_edits_patch st"
    using E(4) by (subst st'(3), simp)+
  moreover have "patching c s v t st' (pre @ [f]) suf 0 (P @ atoms_of f) (A @ map (mark_remote t u v) (atoms_of f)) off"
  proof (rule patchingI [OF st'(2)])
    show "spans (es_edits_patch st') (shown c (P @ atoms_of f)) (shown c (A @ map (mark_remote t u v) (atoms_of f)))"
      using spans_keep [OF E(5), of "shown c (atoms_of f)"] sel(3) same by simp
  qed (use w(2) E(2) k0 same sel mb in simp_all)
  ultimately show ?thesis by blast
qed

lemma remote_delete_observed:
  assumes e: "patching c s v t st pre (f # suf) k P A off" and b: "msum (observed_bytes v) pre + k < b" and obs: "observed v (frag_timestamp f)"
    and u: "undo_inv u" and cut: "str_is_char_boundary (known_text c v (atoms (pre @ f # suf))) b"
  defines "n \<equiv> min b (msum (observed_bytes v) pre + frag_len f) - (msum (observed_bytes v) pre + k)"
  shows "\<exists>st'. remote_delete_step v u t b st = Some st' \<and> 0 < n \<and>
    (if b < msum (observed_bytes v) pre + frag_len f
     then patching c s v t st' pre (f # suf) (b - msum (observed_bytes v) pre) (P @ part f k n) (A @ map (mark_remote t u v) (part f k n)) off
     else patching c s v t st' (pre @ [f]) suf 0 (P @ part f k n) (A @ map (mark_remote t u v) (part f k n)) off)"
proof -
  let ?m = "msum (observed_bytes v) pre"
  note E = patchingD [OF e]
  obtain N ps where w: "remote_walk.walking v c s t st pre (f # suf) k N ps" "atoms N = A" using E(1) by blast
  note W = remote_walk.walkingD [OF w(1)]
  note h = holdsD [OF W(1)]
  note reads = remote_walk.cursor_reads [OF W(2)] remote_walk.unwrap_reads [OF W(2)]
  have f: "frag_ok c f" using h(7) by simp
  have mb: "observed_bytes v f = frag_len f" using obs by (simp add: observed_bytes_def)
  have k: "k < frag_len f" using E(6) f by (cases k) (auto simp: frag_ok_def)
  define ie where "ie = min b (?m + frag_len f)"
  have n: "0 < n" "k + n \<le> frag_len f" "?m + k + n = ie" "k + n = frag_len f \<longleftrightarrow> ?m + frag_len f \<le> b"
    using k b by (auto simp: n_def ie_def min_def)
  have cutf: "str_is_char_boundary (bytes_of c (atoms_of f)) (k + n)"
  proof (cases "k + n = frag_len f")
    case True
    then show ?thesis using str_boundary_len [of "bytes_of c (atoms_of f)"] by simp
  next
    case False
    then have "?m + (k + n) = b" using n by (auto simp: ie_def)
    then show ?thesis using cut n(2) known_boundary [of c v pre f suf "k + n"] mb by simp
  qed
  obtain wv where was: "was_visible f v u = Some wv" "\<forall>x \<in> set (atoms_of f). was_shown u v x = wv"
  proof -
    have "atoms_of f \<noteq> []" using f by (metis frag_ok_def length_atoms_of length_0_conv less_numeral_extra(3))
    then obtain x where x: "x \<in> set (atoms_of f)" by (meson all_not_in_conv set_empty)
    have "\<forall>y \<in> set (atoms_of f). was_visible f v u = Some (was_shown u v y)" using was_visible_atom [OF u] by blast
    then show ?thesis using that [of "was_shown u v x"] x by (metis option.inject)
  qed
  define cutg where "cutg = (cut_fragment f ?m (?m + k) ie)\<lparr>frag_id := between (top_id N) (frag_id f)\<rparr>"
  define g where "g = (if wv then cutg\<lparr>frag_deletions := frag_deletions cutg @ [t], frag_visible := False\<rparr> else cutg)"
  have g: "frag_len g = n" "frag_key g = (frag_timestamp f, frag_offset f + k)" "frag_id g = between (top_id N) (frag_id f)"
    "frag_visible g \<longleftrightarrow> frag_visible f \<and> \<not> wv"
    using n by (auto simp: g_def cutg_def n_def ie_def cut_fragment_def frag_key_def)
  have cuts: "atoms_of (cut_fragment f ?m (?m + k) ie) = part f k n"
    using atoms_of_cut [of ?m "?m + k" ie f] n by (simp add: part_def n_def [folded ie_def])
  have sub: "\<forall>x \<in> set (part f k n). was_shown u v x = wv" using was(2) by (auto simp: part_def dest!: in_set_takeD in_set_dropD)
  note vis = mark_remote_part [OF sub, of "frag_visible f"]
  have all_vis: "\<forall>x \<in> set (part f k n). atom_visible x = frag_visible f" using part_simps(2) by blast
  have atoms: "atoms_of g = map (mark_remote t u v) (part f k n)"
  proof (cases wv)
    case True
    then show ?thesis using atoms_of_marked [where f = "cut_fragment f ?m (?m + k) ie" and u = u and v = v and t = t and l = "between (top_id N) (frag_id f)"] sub cuts
      by (simp add: g_def cutg_def)
  next
    case False
    then show ?thesis using cuts vis(2) [OF all_vis] by (simp add: g_def cutg_def)
  qed
  define st0 where "st0 = (if wv then st\<lparr>es_insertion_slices := es_insertion_slices st @ [slice_from_fragment t g]\<rparr> else st)"
  define st1 where "st1 = (if frag_visible f \<and> wv
    then push_edit st0 (visible_len pre + k) (visible_len pre + k + n) (new_visible_len st0) (new_visible_len st0) else st0)"
  have st1: "es_old_fragments st1 = es_old_fragments st" "built c s st1 (consumed pre (f # suf) k) N" "es_new_insertions st1 = map insert_new ps"
    "\<exists>qs. es_insertion_slices st1 = map (slice_from_fragment t) qs \<and> mset qs \<subseteq># mset (N @ [g])"
    "es_insertion_offset st1 = off" "new_visible_len st0 = length (shown c A)"
    using W(4,6) slices_grow [OF W(8), of "[g]"] E(4) built_ids(2) [OF W(4)] w(2)
    by (simp_all add: st0_def st1_def push_edit_def built_def new_visible_len_def)
  have ids: "ids_below (N @ [g]) (frag_id f)"
    using h(8) W(5) g(3) by (intro ids_below_between) (auto simp: next_id_def id_ok_def less_imp_le)
  have ids': "if k + n < frag_len f then ids_below (N @ [g]) (frag_id f) else ids_below (N @ [g]) (next_id suf)"
    using ids ids_below_leave [OF _ ids] h(8) by auto
  have bytes: "bytes_of c (atoms_of g) = bytes_of c (part f k n)" by (simp add: atoms)
  obtain st' where st': "push_intersection (remote_dim v) b (?m + frag_len f) ie g (frag_visible f) st1 = Some st'"
    "if k + n < frag_len f then remote_walk.walking v c s t st' pre (f # suf) (k + n) (N @ [g]) (ps @ [g])
       else remote_walk.walking v c s t st' (pre @ [f]) suf 0 (N @ [g]) (ps @ [g])"
    "st' = st1\<lparr>es_old_fragments := es_old_fragments st', es_new_insertions := es_new_insertions st', es_new_ropes := es_new_ropes st',
      es_new_fragments := es_new_fragments st', es_fragment_start := ie\<rparr>"
    using remote_walk.push_intersection_spec [OF W(1,3) st1(2,3) W(7) _ st1(4) n(1,2) n(4) [symmetric] mb cutf g(1) bytes g(2) ids', of ie]
      W(2) st1(1) by auto
  have len: "cut_fragment f ?m (?m + k) ie = f\<lparr>frag_len := n, frag_offset := frag_offset f + k\<rparr>"
    using n(3) by (simp add: cut_fragment_def)
  have "remote_delete_step v u t b st = push_intersection (remote_dim v) b (?m + frag_len f) ie g (frag_visible f) st1"
    using reads obs mb was(1) E(3) n(1) remote_visible_start [OF W(2), unfolded visible_start_def] built_ids(1) [OF W(4)]
    by (cases wv; cases "frag_visible f")
      (simp_all add: remote_delete_step_def Let_def ie_def [symmetric] g_def cutg_def len st0_def st1_def new_visible_len_def push_edit_def
          visible_start_def)
  then have step: "remote_delete_step v u t b st = Some st'" using st'(1) by simp
  have sel: "es_fragment_start st' = ie" "es_insertion_offset st' = off" "es_edits_patch st' = es_edits_patch st1"
    using st1(5) by (subst st'(3), simp)+
  have sp: "spans (es_edits_patch st1) (shown c (P @ part f k n)) (shown c (A @ map (mark_remote t u v) (part f k n)))"
  proof (cases "frag_visible f \<and> wv")
    case True
    have "length (shown c P) = visible_len pre + k" using visible_offset [OF e] True by (simp add: head_opt_def)
    then show ?thesis
      using spans_push [OF E(5), of "shown c (part f k n)" "[]"] True st1(6) vis(1) [OF all_vis] part_simps(1) [OF n(2)]
      by (simp add: st1_def st0_def push_edit_def push_span_def shown_part)
  next
    case False
    then have "shown c (map (mark_remote t u v) (part f k n)) = shown c (part f k n)" using vis(1,3) [OF all_vis] by (cases wv) auto
    moreover have "es_edits_patch st1 = es_edits_patch st" using False by (auto simp: st1_def st0_def)
    ultimately show ?thesis using spans_keep [OF E(5), of "shown c (part f k n)"] by simp
  qed
  have P: "P @ part f k n = consumed pre (f # suf) (k + n)" using E(2) consumed_add [OF n(2)] by simp
  have new: "A @ map (mark_remote t u v) (part f k n) = atoms (N @ [g])" using w(2) atoms by simp
  have "b < ?m + frag_len f \<longleftrightarrow> k + n < frag_len f" "k + n < frag_len f \<Longrightarrow> b - ?m = k + n"
    "\<not> k + n < frag_len f \<Longrightarrow> consumed pre (f # suf) (k + n) = atoms (pre @ [f]) \<and> ie = msum (observed_bytes v) (pre @ [f])"
    using n mb consumed_all [of pre f suf] by (auto simp: ie_def min_def split: if_splits)
  then show ?thesis using step st'(2) n(1,3) P new sel sp
    by (intro exI [of _ st']) (auto intro!: patchingI simp del: atoms_simps consumed_simps(2))
qed

lemma remote_delete_loop_spec:
  assumes "patching c s v t st pre suf k P A off" "msum (observed_bytes v) pre + k \<le> b" "b \<le> msum (observed_bytes v) (pre @ suf)"
    and "str_is_char_boundary (known_text c v (atoms (pre @ suf))) b" "undo_inv u"
  shows "\<exists>st' pre' suf' k' R. delete_loop (remote_delete_step v u t b) b st = Some st' \<and> pre' @ suf' = pre @ suf \<and>
    msum (observed_bytes v) pre' + k' = b \<and> patching c s v t st' pre' suf' k' (P @ R) (A @ map (mark_remote t u v) R) off \<and>
    closes (known v) (b - (msum (observed_bytes v) pre + k)) R"
  using assms
proof (induction suf arbitrary: st pre k P A)
  case Nil
  note E = patchingD [OF Nil.prems(1)]
  have "b = msum (observed_bytes v) pre + k" using Nil.prems(2,3) E(7) by (simp add: remote_walk.cut_ok_def)
  then show ?case using Nil.prems(1) E(3)
    by (intro exI [of _ st] exI [of _ pre] exI [of _ "[]"] exI [of _ k] exI [of _ "[]"]) (simp add: delete_loop.simps closes_0)
next
  case (Cons f suf)
  let ?m = "msum (observed_bytes v)"
  note E = patchingD [OF Cons.prems(1)]
  show ?case
  proof (cases "?m pre + k = b")
    case True
    then show ?thesis using Cons.prems(1) E(3)
      by (intro exI [of _ st] exI [of _ pre] exI [of _ "f # suf"] exI [of _ k] exI [of _ "[]"]) (simp add: delete_loop.simps closes_0)
  next
    case False
    then have less: "?m pre + k < b" using Cons.prems(2) by simp
    have k: "k \<le> frag_len f" using E(7) by (simp add: remote_walk.cut_ok_def)
    obtain st1 R where st1: "remote_delete_step v u t b st = Some st1"
      "if b < ?m pre + observed_bytes v f
       then patching c s v t st1 pre (f # suf) (b - ?m pre) (P @ R) (A @ map (mark_remote t u v) R) off
       else patching c s v t st1 (pre @ [f]) suf 0 (P @ R) (A @ map (mark_remote t u v) R) off"
      "length (filter (known v) R) = min b (?m pre + observed_bytes v f) - (?m pre + k)"
      "observed v (frag_timestamp f) \<and> R \<noteq> [] \<longrightarrow> known v (last R)"
    proof (cases "observed v (frag_timestamp f)")
      case False
      show ?thesis using remote_delete_unobserved [OF Cons.prems(1) less False, of u] False less
        by (auto simp: observed_bytes_def intro: that)
    next
      case True
      let ?n = "min b (?m pre + frag_len f) - (?m pre + k)"
      obtain st1 where r: "remote_delete_step v u t b st = Some st1" "0 < ?n"
        "if b < ?m pre + frag_len f
         then patching c s v t st1 pre (f # suf) (b - ?m pre) (P @ part f k ?n) (A @ map (mark_remote t u v) (part f k ?n)) off
         else patching c s v t st1 (pre @ [f]) suf 0 (P @ part f k ?n) (A @ map (mark_remote t u v) (part f k ?n)) off"
        using remote_delete_observed [OF Cons.prems(1) less True Cons.prems(5,4)] by blast
      have len: "length (part f k ?n) = ?n" using k by (intro part_simps(1)) simp
      have "known v (last (part f k ?n))" if "part f k ?n \<noteq> []"
        using part_closes [of "last (part f k ?n)" f k ?n v] that True by simp
      then show ?thesis using r len True by (intro that [of st1 "part f k ?n"]) (simp_all add: observed_bytes_def known_part)
    qed
    have loop: "delete_loop (remote_delete_step v u t b) b st = delete_loop (remote_delete_step v u t b) b st1"
      using less E(3) st1(1) by (simp add: delete_loop.simps [of _ b st])
    show ?thesis
    proof (cases "b < ?m pre + observed_bytes v f")
      case True
      then have e: "patching c s v t st1 pre (f # suf) (b - ?m pre) (P @ R) (A @ map (mark_remote t u v) R) off" using st1(2) by simp
      have "delete_loop (remote_delete_step v u t b) b st1 = Some st1" using patchingD(3) [OF e] less by (simp add: delete_loop.simps)
      moreover have "closes (known v) (b - (?m pre + k)) R"
        using st1(3,4) True less by (auto simp: closes_def observed_bytes_def min_def split: if_splits)
      ultimately show ?thesis using e loop less
        by (intro exI [of _ st1] exI [of _ pre] exI [of _ "f # suf"] exI [of _ "b - ?m pre"] exI [of _ R]) simp
    next
      case False
      then have e: "patching c s v t st1 (pre @ [f]) suf 0 (P @ R) (A @ map (mark_remote t u v) R) off" using st1(2) by simp
      have le: "?m (pre @ [f]) + 0 \<le> b" "b \<le> ?m ((pre @ [f]) @ suf)" "str_is_char_boundary (known_text c v (atoms ((pre @ [f]) @ suf))) b"
        using False Cons.prems(3,4) by simp_all
      obtain st' pre' suf' k' R' where r: "delete_loop (remote_delete_step v u t b) b st1 = Some st'" "pre' @ suf' = (pre @ [f]) @ suf"
        "?m pre' + k' = b" "patching c s v t st' pre' suf' k' ((P @ R) @ R') ((A @ map (mark_remote t u v) R) @ map (mark_remote t u v) R') off"
        "closes (known v) (b - (?m (pre @ [f]) + 0)) R'"
        using Cons.IH [OF e le Cons.prems(5)] by blast
      have lenR: "length (filter (known v) R) = ?m pre + observed_bytes v f - (?m pre + k)" using st1(3) False by simp
      have "closes (known v) (length (filter (known v) R) + (b - ?m (pre @ [f]))) (R @ R')"
      proof (rule closes_append)
        show "closes (known v) (b - ?m (pre @ [f])) R'" using r(5) by simp
        assume z: "b - ?m (pre @ [f]) = 0" "R \<noteq> []"
        then have "b = ?m pre + observed_bytes v f" using False by simp
        then have "observed v (frag_timestamp f)" using less by (auto simp: observed_bytes_def split: if_splits)
        then show "known v (last R)" using st1(4) z(2) by blast
      qed
      moreover have "length (filter (known v) R) + (b - ?m (pre @ [f])) = b - (?m pre + k)"
        using lenR False E(7,9) by (cases "k = 0") (auto simp: remote_walk.cut_ok_def observed_bytes_def)
      ultimately have cl: "closes (known v) (b - (?m pre + k)) (R @ R')" by simp
      show ?thesis
        by (intro exI [of _ st'] exI [of _ pre'] exI [of _ suf'] exI [of _ k'] exI [of _ "R @ R'"] conjI)
          (use loop r cl in simp_all)
    qed
  qed
qed

subsection \<open>One range\<close>

lemma atom_from: "x \<in> set (atoms fs) \<Longrightarrow> \<exists>f \<in> set fs. atom_time x = frag_timestamp f"
  by (force simp: atoms_def atoms_of_def atom_at_def)

lemma remote_range_spec:
  assumes e: "patching c s v t st pre suf k P A off"
    and ab: "msum (observed_bytes v) pre + k \<le> a" "a \<le> b" "b \<le> msum (observed_bytes v) (pre @ suf)"
    and cuts: "str_is_char_boundary (known_text c v (atoms (pre @ suf))) a" "str_is_char_boundary (known_text c v (atoms (pre @ suf))) b"
    and causal: "\<forall>f \<in> set (pre @ suf). observed v (frag_timestamp f) \<longrightarrow> frag_timestamp f < t"
    and u: "undo_inv u" and tx: "4 \<le> max_len" "utf8_ok tx" "writes c t off tx"
  shows "\<exists>st' pre' suf' k' Q W R. remote_range max_len v u t ((a, b), tx) st = Some st' \<and> pre' @ suf' = pre @ suf \<and>
    msum (observed_bytes v) pre' + k' = b \<and>
    patching c s v t st' pre' suf' k' (P @ Q @ W @ R)
      (A @ Q @ W @ new_atoms t off (length tx) @ map (mark_remote t u v) R) (off + length tx) \<and>
    closes (known v) (a - (msum (observed_bytes v) pre + k)) Q \<and> (\<forall>x \<in> set W. t < atom_time x) \<and> closes (known v) (b - a) R \<and>
    (R @ drop k' (atoms suf') \<noteq> [] \<longrightarrow> \<not> t < atom_time (hd (R @ drop k' (atoms suf'))))"
proof -
  let ?m = "msum (observed_bytes v)"
  have "a \<le> ?m (pre @ suf)" using ab by simp
  from remote_approach_spec [OF e ab(1) this] obtain fe st1 pre1 suf1 k1 Q1 where st1:
    "loc_end (remote_dim v) remote_loc st = Some fe"
    "(if fe < a then do {
        st \<leftarrow> finish_fragment (remote_dim v) remote_loc st;
        advance_to (remote_dim v) remote_loc (remote_target a) Left st
      } else Some st) = Some st1"
    "pre1 @ suf1 = pre @ suf" "patching c s v t st1 pre1 suf1 k1 (P @ Q1) (A @ Q1) off"
    "?m pre1 + k1 \<le> a" "a \<le> ?m (pre1 @ take 1 suf1)" "Q1 = [] \<or> ?m pre1 + k1 < a"
    by blast
  have causal1: "\<forall>f \<in> set (pre1 @ suf1). observed v (frag_timestamp f) \<longrightarrow> frag_timestamp f < t" using causal st1(3) by simp
  have cut1: "str_is_char_boundary (known_text c v (atoms (pre1 @ suf1))) a" using cuts(1) st1(3) by simp
  obtain st2 st3 st4 pre2 suf2 k2 G W where st2: "leave_ended v a st1 = Some st2" "skip_concurrent v a t st2 = Some st3"
    "push_prefix remote_loc a st3 = Some st4" "pre2 @ suf2 = pre1 @ suf1"
    "patching c s v t st4 pre2 suf2 k2 ((P @ Q1) @ G @ W) ((A @ Q1) @ G @ W) off" "?m pre2 + k2 = a"
    "G \<noteq> [] \<longrightarrow> known v (last G)" "?m pre1 + k1 = a \<longleftrightarrow> G = []" "\<forall>x \<in> set W. t < atom_time x"
    "drop k2 (atoms suf2) \<noteq> [] \<longrightarrow> \<not> t < atom_time (hd (drop k2 (atoms suf2)))"
    using remote_position_spec [OF st1(4,5,6) causal1 cut1] by blast
  obtain st5 where st5: "remote_insert max_len t tx st4 = Some st5"
    "patching c s v t st5 pre2 suf2 k2 ((P @ Q1) @ G @ W) (((A @ Q1) @ G @ W) @ new_atoms t off (length tx)) (off + length tx)"
    using remote_insert_spec [OF st2(5) tx] by blast
  have all: "pre2 @ suf2 = pre @ suf" using st2(4) st1(3) by simp
  have le: "?m pre2 + k2 \<le> b" "b \<le> ?m (pre2 @ suf2)" "str_is_char_boundary (known_text c v (atoms (pre2 @ suf2))) b"
    using st2(6) ab cuts(2) all by simp_all
  obtain st6 pre' suf' k' R where st6: "delete_loop (remote_delete_step v u t b) b st5 = Some st6" "pre' @ suf' = pre2 @ suf2"
    "?m pre' + k' = b" "patching c s v t st6 pre' suf' k' (((P @ Q1) @ G @ W) @ R)
      ((((A @ Q1) @ G @ W) @ new_atoms t off (length tx)) @ map (mark_remote t u v) R) (off + length tx)"
    "closes (known v) (b - (?m pre2 + k2)) R"
    using remote_delete_loop_spec [OF st5(2) le u] by blast
  have run: "remote_range max_len v u t ((a, b), tx) st = Some st6"
    using st1(1,2) st2(1-3) st5(1) st6(1) by (simp add: remote_range_def)
  have split: "atoms (pre @ suf) = ((P @ Q1) @ G @ W) @ drop k2 (atoms suf2)" "atoms (pre @ suf) = (((P @ Q1) @ G @ W) @ R) @ drop k' (atoms suf')"
    using patchingD(2) [OF st2(5)] patchingD(2) [OF st6(4)] atoms_consumed [of pre2 suf2 k2] atoms_consumed [of pre' suf' k'] all st6(2)
    by (metis append_assoc)+
  then have rest: "drop k2 (atoms suf2) = R @ drop k' (atoms suf')" by (metis append_assoc same_append_eq)
  have "\<not> known v x" if "x \<in> set W" for x
  proof
    assume "known v x"
    moreover have "x \<in> set (atoms (pre @ suf))" using split(1) that by simp
    then obtain f where "f \<in> set (pre @ suf)" "atom_time x = frag_timestamp f" using atom_from by blast
    ultimately have "atom_time x < t" using causal by (simp add: known_def)
    then show False using st2(9) that less_not_sym by blast
  qed
  then have noW: "filter (known v) W = []" by (simp add: filter_empty_conv)
  have "length (filter (known v) (Q1 @ G)) = a - (?m pre + k)"
    using patching_count [OF st2(5)] patching_count [OF e] noW st2(6) by simp
  moreover have "Q1 @ G \<noteq> [] \<longrightarrow> known v (last (Q1 @ G))" using st2(7,8) st1(7) by (cases "G = []") auto
  ultimately have "closes (known v) (a - (?m pre + k)) (Q1 @ G)" by (simp add: closes_def)
  moreover have "closes (known v) (b - a) R" using st6(5) st2(6) by simp
  ultimately show ?thesis using run st6(2,3,4) all st2(9,10) unfolding rest
    by (intro exI [of _ st6] exI [of _ pre'] exI [of _ suf'] exI [of _ k'] exI [of _ "Q1 @ G"] exI [of _ W] exI [of _ R] conjI) simp_all
qed

subsection \<open>All ranges\<close>

lemma remote_loop_spec:
  assumes "patching c s v t st pre suf k P A off" "edits_ok T (msum (observed_bytes v) pre + k) es" "writes c t off (concat (map snd es))"
    and "pre @ suf = F" "T = known_text c v (atoms F)" "4 \<le> max_len" "undo_inv u"
    and "\<forall>f \<in> set F. observed v (frag_timestamp f) \<longrightarrow> frag_timestamp f < t"
  shows "\<exists>st' pre' suf' k' P' A' off'. remote_ranges_loop max_len v u t es st = Some st' \<and> pre' @ suf' = F \<and>
    patching c s v t st' pre' suf' k' P' A' off' \<and>
    A' @ drop k' (atoms suf') = A @ remote_atoms u v t off (drop k (atoms suf)) (msum (observed_bytes v) pre + k) es"
  using assms(1-4)
proof (induction es arbitrary: st pre suf k P A off)
  case Nil
  then show ?case
    by (intro exI [of _ st] exI [of _ pre] exI [of _ suf] exI [of _ k] exI [of _ P] exI [of _ A] exI [of _ off]) simp
next
  case (Cons e es)
  let ?m = "msum (observed_bytes v)"
  obtain a b tx where e: "e = ((a, b), tx)" by (metis prod.collapse)
  have ok: "?m pre + k \<le> a" "a \<le> b" "b \<le> ?m (pre @ suf)" "str_is_char_boundary (known_text c v (atoms (pre @ suf))) a"
    "str_is_char_boundary (known_text c v (atoms (pre @ suf))) b" "utf8_ok tx" "edits_ok T b es"
    using Cons.prems(2,4) assms(5) e by auto
  have wr: "writes c t off tx" "writes c t (off + length tx) (concat (map snd es))"
    using Cons.prems(3) e by (simp_all add: writes_append)
  have causal: "\<forall>f \<in> set (pre @ suf). observed v (frag_timestamp f) \<longrightarrow> frag_timestamp f < t" using assms(8) Cons.prems(4) by simp
  obtain st1 pre1 suf1 k1 Q W R where st1: "remote_range max_len v u t ((a, b), tx) st = Some st1" "pre1 @ suf1 = pre @ suf" "?m pre1 + k1 = b"
    "patching c s v t st1 pre1 suf1 k1 (P @ Q @ W @ R)
      (A @ Q @ W @ new_atoms t off (length tx) @ map (mark_remote t u v) R) (off + length tx)"
    "closes (known v) (a - (?m pre + k)) Q" "\<forall>x \<in> set W. t < atom_time x" "closes (known v) (b - a) R"
    "R @ drop k1 (atoms suf1) \<noteq> [] \<longrightarrow> \<not> t < atom_time (hd (R @ drop k1 (atoms suf1)))"
    using remote_range_spec [OF Cons.prems(1) ok(1-5) causal assms(7,6) ok(6) wr(1)] by blast
  have F1: "pre1 @ suf1 = F" using st1(2) Cons.prems(4) by simp
  obtain st2 pre2 suf2 k2 P2 A2 off2 where st2: "remote_ranges_loop max_len v u t es st1 = Some st2" "pre2 @ suf2 = F"
    "patching c s v t st2 pre2 suf2 k2 P2 A2 off2"
    "A2 @ drop k2 (atoms suf2) = (A @ Q @ W @ new_atoms t off (length tx) @ map (mark_remote t u v) R) @
       remote_atoms u v t (off + length tx) (drop k1 (atoms suf1)) (?m pre1 + k1) es"
    using Cons.IH [OF st1(4) _ wr(2) F1] ok(7) st1(3) by auto
  have "P @ drop k (atoms suf) = (P @ Q @ W @ R) @ drop k1 (atoms suf1)"
    using patchingD(2) [OF Cons.prems(1)] patchingD(2) [OF st1(4)] atoms_consumed [of pre suf k] atoms_consumed [of pre1 suf1 k1] st1(2)
    by metis
  then have rest: "drop k (atoms suf) = Q @ W @ (R @ drop k1 (atoms suf1))" by simp
  have "remote_atoms u v t off (drop k (atoms suf)) (?m pre + k) (e # es) = Q @ W @ new_atoms t off (length tx) @ map (mark_remote t u v) R @
      remote_atoms u v t (off + length tx) (drop k1 (atoms suf1)) b es"
    unfolding rest e by (rule remote_atoms_step [OF st1(5,6,8) refl st1(7)])
  then show ?case using st1(1,3) st2 e
    by (intro exI [of _ st2] exI [of _ pre2] exI [of _ suf2] exI [of _ k2] exI [of _ P2] exI [of _ A2] exI [of _ off2])
      (simp del: remote_atoms.simps)
qed

subsection \<open>The contract of \<open>apply_remote_edit\<close>\<close>

definition causal_at :: "global \<Rightarrow> lamport \<Rightarrow> fragment list \<Rightarrow> bool" where
  "causal_at v t fs \<longleftrightarrow> (\<forall>f \<in> set fs. observed v (frag_timestamp f) \<longrightarrow> frag_timestamp f < t)"

lemma remote_edit_spec:
  assumes h: "holds c s fs" and ok: "edits_ok (known_text c v (atoms fs)) 0 (zip ranges txts)" and fresh: "fresh_in t fs"
    and causal: "causal_at v t fs" and len: "4 \<le> max_len"
  shows "\<exists>s' p fs'. apply_remote_edit max_len s v ranges txts t = Some (s', p) \<and>
    holds (record_text c t (concat (map snd (zip ranges txts)))) s' fs' \<and>
    atoms fs' = remote_atoms (undo_map s) v t 0 (atoms fs) 0 (zip ranges txts) \<and>
    transforms p 0 0 (rope_text (visible_text s)) (rope_text (visible_text s')) \<and>
    s' = s\<lparr>visible_text := visible_text s', deleted_text := deleted_text s', fragments := fragments s', insertions := insertions s',
      insertion_slices := insertion_slices s'\<rparr>"
proof (cases "ranges = []")
  case True
  have "spans [] (rope_text (visible_text s)) (rope_text (visible_text s))" using spans_keep [OF spans_Nil] by fastforce
  then show ?thesis using record_holds [OF h fresh] True spans_transforms
    by (intro exI [of _ s] exI [of _ "[]"] exI [of _ fs]) (simp add: apply_remote_edit_def patch_empty_def)
next
  case False
  define es where "es = zip ranges txts"
  define c' where "c' = record_text c t (concat (map snd es))"
  let ?m = "msum (observed_bytes v)" and ?a = "fst (hd ranges)" and ?u = "undo_map s"
  have pos: "0 < tvalue t" using fresh by (simp add: fresh_in_def)
  have h': "holds c' s fs" using record_holds [OF h fresh] by (simp add: c'_def)
  have first: "es = [] \<or> fst (fst (hd es)) = ?a" using False by (cases ranges; cases txts) (auto simp: es_def)
  have T: "known_text c' v (atoms fs) = known_text c v (atoms fs)"
    using fresh_atoms [OF fresh] unfolding known_text_def c'_def by (intro record_bytes) auto
  obtain st l r where st: "start_edit s (remote_dim v) remote_loc (remote_target ?a) Left = Some st" "fs = l @ r"
    "remote_walk.walking v c' s t st l r 0 l []" "l \<noteq> [] \<longrightarrow> passes Left ?a (?m l)"
    "es_fragment_start st = ?m l" "es_edits_patch st = []" "es_insertion_offset st = 0"
    using remote_walk.start_edit_spec [OF h', of v ?a Left t] by auto
  have less: "l \<noteq> [] \<longrightarrow> ?m l < ?a" using st(4) by (simp add: passes_def)
  have "spans [] (shown c' (atoms l)) (shown c' (atoms l))" using spans_keep [OF spans_Nil] by fastforce
  then have pt: "patching c' s v t st l r 0 (atoms l) (atoms l) 0" using st(3,5,6,7) by (intro patchingI) simp_all
  have ok': "edits_ok (known_text c' v (atoms fs)) (?m l + 0) es \<or> es = []"
  proof (cases es)
    case (Cons e es')
    obtain a b tx where "e = ((a, b), tx)" by (metis prod.collapse)
    then show ?thesis using ok first less Cons by (cases "l = []") (auto simp: T es_def [symmetric])
  qed simp
  have causal': "\<forall>f \<in> set fs. observed v (frag_timestamp f) \<longrightarrow> frag_timestamp f < t" using causal by (simp add: causal_at_def)
  have wr: "writes c' t 0 (concat (map snd es))" unfolding c'_def by (rule record_writes [OF pos])
  obtain st1 pre suf k P A off where st1: "remote_ranges_loop max_len v ?u t es st = Some st1" "pre @ suf = fs"
    "patching c' s v t st1 pre suf k P A off"
    "A @ drop k (atoms suf) = atoms l @ remote_atoms ?u v t 0 (drop 0 (atoms r)) (?m l + 0) es"
  proof (cases "es = []")
    case True
    then show ?thesis using that [of st l r 0] st(2) pt by simp
  next
    case False
    then show ?thesis using remote_loop_spec [OF pt _ wr st(2) [symmetric] refl len holdsD(12) [OF h'] causal'] ok' that by blast
  qed
  note E = patchingD [OF st1(3)]
  have atoms: "A @ drop k (atoms suf) = remote_atoms ?u v t 0 (atoms fs) 0 es"
    using st1(4) remote_atoms_prefix [of "atoms l" v es ?u t 0 "atoms r"] less first st(2) by (cases "l = []") auto
  have dist: "distinct (map atom_id (A @ drop k (atoms suf)))"
    unfolding atoms by (rule remote_atoms_distinct [OF holdsD(9) [OF h] fresh_atoms [OF fresh]])
  obtain N ps where w: "remote_walk.walking v c' s t st1 pre suf k N ps" "atoms N = A" using E(1) by blast
  obtain s' fs' where s': "finish_edit s (remote_dim v) remote_loc st1 = Some (s', es_edits_patch st1)" "holds c' s' fs'"
    "atoms fs' = A @ drop k (atoms suf)"
    "s' = s\<lparr>visible_text := visible_text s', deleted_text := deleted_text s', fragments := fragments s', insertions := insertions s',
      insertion_slices := insertion_slices s'\<rparr>"
    using remote_walk.finish_edit_spec [OF w(1) E(3)] dist w(2) by auto
  have "atoms fs = P @ drop k (atoms suf)" using E(2) st1(2) by (auto simp: consumed_def)
  moreover have "spans (es_edits_patch st1) (shown c' (P @ drop k (atoms suf))) (shown c' (A @ drop k (atoms suf)))"
    using spans_keep [OF E(5), of "shown c' (drop k (atoms suf))"] by simp
  ultimately have "transforms (es_edits_patch st1) 0 0 (shown c' (atoms fs)) (shown c' (atoms fs'))"
    using spans_transforms s'(3) by metis
  then have tr: "transforms (es_edits_patch st1) 0 0 (rope_text (visible_text s)) (rope_text (visible_text s'))"
    using holdsD(4) [OF h'] holdsD(4) [OF s'(2)] by simp
  have run: "apply_remote_edit max_len s v ranges txts t = Some (s', es_edits_patch st1)"
    using False st(1) st1(1) s'(1) by (simp add: apply_remote_edit_def es_def)
  show ?thesis unfolding es_def [symmetric]
    by (intro exI conjI, rule run, rule s'(2) [unfolded c'_def]) (use s'(3) atoms tr s'(4) in \<open>simp_all\<close>)
qed

end
