(* ===== verification/Remote_Convergence.thy ===== *)
theory Remote_Convergence
  imports Remote_Edit
begin

text \<open>
  Concurrent operations commute. An operation is a marking of atoms that it knows, which never moves anything, and a
  sequence of insertions of runs of new atoms, each behind a number of known atoms and everything newer that follows.
  Insertions of different timestamps commute whatever the document is; markings commute up to the order in which the
  deletions of an atom were recorded.
\<close>

subsection \<open>Inserting a run\<close>

fun place :: "(atom \<Rightarrow> bool) \<Rightarrow> lamport \<Rightarrow> nat \<Rightarrow> atom list \<Rightarrow> atom list \<Rightarrow> atom list" where
  "place K t n B [] = B"
| "place K t 0 B (x # xs) = (if t < atom_time x then x # place K t 0 B xs else B @ x # xs)"
| "place K t (Suc n) B (x # xs) = x # place K t (if K x then n else Suc n) B xs"

lemma place_newer: "\<forall>x \<in> set W. t < atom_time x \<Longrightarrow> place K t 0 B (W @ xs) = W @ place K t 0 B xs"
  by (induction W) auto

lemma place_unknown: "\<forall>x \<in> set W. \<not> K x \<Longrightarrow> place K t (Suc n) B (W @ xs) = W @ place K t (Suc n) B xs"
  by (induction W) auto

lemma place_here: "xs = [] \<or> \<not> t < atom_time (hd xs) \<Longrightarrow> place K t 0 B xs = B @ xs"
  by (cases xs) auto

lemma place_behind: "closes K n Q \<Longrightarrow> place K t (n + m) B (Q @ xs) = Q @ place K t m B xs"
proof (induction Q arbitrary: n)
  case (Cons x Q)
  have n: "n = (if K x then Suc (length (filter K Q)) else length (filter K Q))" using Cons.prems by (auto simp: closes_def)
  have last: "Q \<noteq> [] \<longrightarrow> K (last Q)" using Cons.prems by (auto simp: closes_def split: if_splits)
  have "n \<noteq> 0" using Cons.prems by (metis closes_0 list.distinct(1))
  then obtain j where j: "n = Suc j" by (cases n) auto
  then have "closes K (if K x then j else Suc j) Q" using n last by (auto simp: closes_def)
  then show ?case using Cons.IH [of "if K x then j else Suc j"] j by (cases "K x") simp_all
qed (simp add: closes_def)

text \<open>Insertions with different timestamps commute.\<close>

definition run_of :: "lamport \<Rightarrow> atom list \<Rightarrow> bool" where
  "run_of t B \<longleftrightarrow> (\<forall>x \<in> set B. atom_time x = t)"

lemma place_commute:
  assumes "t1 \<noteq> t2" "run_of t1 B1" "run_of t2 B2" "\<forall>x \<in> set B2. \<not> K1 x" "\<forall>x \<in> set B1. \<not> K2 x"
    and "n1 \<le> length (filter K1 D)" "n2 \<le> length (filter K2 D)"
  shows "place K1 t1 n1 B1 (place K2 t2 n2 B2 D) = place K2 t2 n2 B2 (place K1 t1 n1 B1 D)"
  using assms(6,7)
proof (induction D arbitrary: n1 n2)
  case Nil
  have B: "place K t 0 X Y = (if t < t' then Y @ X else X @ Y)" if "run_of t' Y" for K X Y t t'
    using that place_newer [of Y t K X "[]"] place_here [of Y t K X] by (cases Y) (auto simp: run_of_def)
  have "t1 < t2 \<longleftrightarrow> \<not> t2 < t1" using assms(1) by auto
  then show ?case using Nil B [OF assms(3), of K1 t1 B1] B [OF assms(2), of K2 t2 B2] by auto
next
  case (Cons x D)
  have skip1: "place K1 t1 0 B1 (B2 @ xs) = B2 @ place K1 t1 0 B1 xs" if "t1 < t2" for xs
    using that assms(3) by (intro place_newer) (auto simp: run_of_def)
  have skip2: "place K2 t2 0 B2 (B1 @ xs) = B1 @ place K2 t2 0 B2 xs" if "t2 < t1" for xs
    using that assms(2) by (intro place_newer) (auto simp: run_of_def)
  have stop1: "place K1 t1 0 B1 (B2 @ x # xs) = B1 @ B2 @ x # xs" if "t2 < t1" "\<not> t1 < atom_time x" for xs
    using that assms(3) by (intro place_here) (cases B2; auto simp: run_of_def)
  have stop2: "place K2 t2 0 B2 (B1 @ x # xs) = B2 @ B1 @ x # xs" if "t1 < t2" "\<not> t2 < atom_time x" for xs
    using that assms(2) by (intro place_here) (cases B1; auto simp: run_of_def)
  have far1: "place K1 t1 (Suc n) B1 (B2 @ xs) = B2 @ place K1 t1 (Suc n) B1 xs" for n xs using assms(4) by (rule place_unknown)
  have far2: "place K2 t2 (Suc n) B2 (B1 @ xs) = B1 @ place K2 t2 (Suc n) B2 xs" for n xs using assms(5) by (rule place_unknown)
  show ?case
  proof (cases n1; cases n2)
    assume n: "n1 = 0" "n2 = 0"
    show ?thesis
    proof (cases "t1 < atom_time x \<and> t2 < atom_time x")
      case True
      then show ?thesis using Cons.IH [of 0 0] n by simp
    next
      case False
      consider "t1 < t2" | "t2 < t1" using assms(1) by (meson linorder_neqE)
      then show ?thesis using False n by cases (auto simp: skip1 skip2 stop1 stop2)
    qed
  next
    fix m assume n: "n1 = 0" "n2 = Suc m"
    then show ?thesis using Cons.IH [of 0 "if K2 x then m else Suc m"] Cons.prems by (auto simp: far2 split: if_splits)
  next
    fix m assume n: "n1 = Suc m" "n2 = 0"
    then show ?thesis using Cons.IH [of "if K1 x then m else Suc m" 0] Cons.prems by (auto simp: far1 split: if_splits)
  next
    fix m k assume n: "n1 = Suc m" "n2 = Suc k"
    then show ?thesis using Cons.IH [of "if K1 x then m else Suc m" "if K2 x then k else Suc k"] Cons.prems by (auto split: if_splits)
  qed
qed

text \<open>The insertions of an operation, from the last to the first.\<close>

fun place_all :: "(atom \<Rightarrow> bool) \<Rightarrow> lamport \<Rightarrow> nat \<Rightarrow> nat \<Rightarrow> ((nat \<times> nat) \<times> str) list \<Rightarrow> atom list \<Rightarrow> atom list" where
  "place_all K t off pos [] D = D"
| "place_all K t off pos (((a, b), tx) # es) D =
     place K t (a - pos) (new_atoms t off (length tx)) (place_all K t (off + length tx) pos es D)"

lemma run_new: "run_of t (new_atoms t off n)"
  using new_atoms_time(1) by (auto simp: run_of_def)

lemma place_count: "\<forall>x \<in> set B. \<not> K' x \<Longrightarrow> filter K' (place K t n B D) = filter K' D"
  by (induction K t n B D rule: place.induct) (auto simp: filter_empty_conv)

definition unknown_run :: "(atom \<Rightarrow> bool) \<Rightarrow> lamport \<Rightarrow> bool" where
  "unknown_run K t \<longleftrightarrow> (\<forall>x. atom_time x = t \<longrightarrow> \<not> K x)"

lemma unknown_new: "unknown_run K t \<Longrightarrow> \<forall>x \<in> set (new_atoms t off n). \<not> K x"
  using new_atoms_time(1) by (auto simp: unknown_run_def)

lemma place_all_count: "unknown_run K' t \<Longrightarrow> filter K' (place_all K t off pos es D) = filter K' D"
  by (induction K t off pos es D rule: place_all.induct) (auto simp: place_count unknown_new)

lemma ranges_within: "ranges_ok n pos es \<Longrightarrow> ((a, b), tx) \<in> set es \<Longrightarrow> pos \<le> a \<and> a \<le> b \<and> b \<le> n"
proof (induction es arbitrary: pos)
  case (Cons e es)
  obtain i j x where "e = ((i, j), x)" by (metis prod.collapse)
  then show ?case using Cons ranges_ok_le [of n j es] by force
qed simp

lemma place_all_one:
  assumes "t1 \<noteq> t2" "unknown_run K1 t2" "unknown_run K2 t1" "run_of t1 B" "n \<le> length (filter K1 D)"
    and "ranges_ok (length (filter K2 D)) 0 es" "pos = 0" and unknown: "unknown_run K2 t2"
  shows "place K1 t1 n B (place_all K2 t2 off pos es D) = place_all K2 t2 off pos es (place K1 t1 n B D)"
proof -
  have "\<forall>((a, b), tx) \<in> set es. a \<le> length (filter K2 D)" using ranges_within [OF assms(6)] by fastforce
  then show ?thesis
  proof (induction es arbitrary: off)
    case (Cons e es)
    obtain a b tx where e: "e = ((a, b), tx)" by (metis prod.collapse)
    have B: "\<forall>x \<in> set B. \<not> K2 x" using assms(3,4) by (auto simp: run_of_def unknown_run_def)
    have "place K1 t1 n B (place K2 t2 a (new_atoms t2 off (length tx)) (place_all K2 t2 (off + length tx) pos es D)) =
        place K2 t2 a (new_atoms t2 off (length tx)) (place K1 t1 n B (place_all K2 t2 (off + length tx) pos es D))"
      using Cons.prems e assms(5) place_all_count [OF assms(2)] place_all_count [OF unknown]
      by (intro place_commute [OF assms(1,4) run_new unknown_new [OF assms(2)] B]) simp_all
    then show ?case using Cons.IH [of "off + length tx"] Cons.prems assms(7) by (simp add: e)
  qed simp
qed

lemma place_all_commute:
  assumes "t1 \<noteq> t2" "unknown_run K1 t1" "unknown_run K1 t2" "unknown_run K2 t1" "unknown_run K2 t2"
    and "ranges_ok (length (filter K1 D)) 0 es1" "ranges_ok (length (filter K2 D)) 0 es2"
  shows "place_all K1 t1 off1 0 es1 (place_all K2 t2 off2 0 es2 D) = place_all K2 t2 off2 0 es2 (place_all K1 t1 off1 0 es1 D)"
proof -
  have "\<forall>((a, b), tx) \<in> set es1. a \<le> length (filter K1 D)" using ranges_within [OF assms(6)] by fastforce
  then show ?thesis
  proof (induction es1 arbitrary: off1)
    case (Cons e es)
    obtain a b tx where e: "e = ((a, b), tx)" by (metis prod.collapse)
    let ?X = "place_all K1 t1 (off1 + length tx) 0 es D"
    have "place K1 t1 a (new_atoms t1 off1 (length tx)) (place_all K2 t2 off2 0 es2 ?X) =
        place_all K2 t2 off2 0 es2 (place K1 t1 a (new_atoms t1 off1 (length tx)) ?X)"
      using Cons.prems e assms(7) place_all_count [OF assms(2)] place_all_count [OF assms(4)]
      by (intro place_all_one [OF assms(1,3,4) run_new _ _ refl assms(5)]) simp_all
    then show ?case using Cons.IH [of "off1 + length tx"] Cons.prems by (simp add: e)
  qed simp
qed

subsection \<open>Marking\<close>

text \<open>Marking the known atoms whose numbers lie in a range.\<close>

definition in_ranges :: "((nat \<times> nat) \<times> str) list \<Rightarrow> nat \<Rightarrow> bool" where
  "in_ranges es i \<longleftrightarrow> (\<exists>((a, b), tx) \<in> set es. a \<le> i \<and> i < b)"

fun mark_known :: "(atom \<Rightarrow> bool) \<Rightarrow> (atom \<Rightarrow> atom) \<Rightarrow> (nat \<Rightarrow> bool) \<Rightarrow> nat \<Rightarrow> atom list \<Rightarrow> atom list" where
  "mark_known K M C i [] = []"
| "mark_known K M C i (x # xs) =
     (if K x then (if C i then M x else x) # mark_known K M C (Suc i) xs else x # mark_known K M C i xs)"

lemma mark_known_append: "mark_known K M C i (xs @ ys) = mark_known K M C i xs @ mark_known K M C (i + length (filter K xs)) ys"
  by (induction xs arbitrary: i) auto

lemma mark_known_off: "\<forall>j. i \<le> j \<and> j < i + length (filter K xs) \<longrightarrow> \<not> C j \<Longrightarrow> mark_known K M C i xs = xs"
  by (induction xs arbitrary: i) auto

lemma mark_known_on:
  "\<forall>j. i \<le> j \<and> j < i + length (filter K xs) \<longrightarrow> C j \<Longrightarrow> \<forall>x \<in> set xs. \<not> K x \<longrightarrow> M x = x \<Longrightarrow> mark_known K M C i xs = map M xs"
  by (induction xs arbitrary: i) auto

lemma mark_known_cong: "\<forall>j. i \<le> j \<longrightarrow> C j = C' j \<Longrightarrow> mark_known K M C i xs = mark_known K M C' i xs"
  by (induction xs arbitrary: i) auto

lemma mark_place:
  assumes "\<forall>x. atom_time (M x) = atom_time x" "\<forall>x. K' (M x) = K' x" "\<forall>x \<in> set B. \<not> K x"
  shows "mark_known K M C i (place K' t n B D) = place K' t n B (mark_known K M C i D)"
proof -
  have none: "filter K B = []" using assms(3) by (simp add: filter_empty_conv)
  then have "mark_known K M C i B = B" for i by (intro mark_known_off) auto
  then have "mark_known K M C i (B @ xs) = B @ mark_known K M C i xs" for i xs
    using none by (simp add: mark_known_append)
  moreover from this [of _ "[]"] have "mark_known K M C i B = B" for i by simp
  ultimately show ?thesis using assms(1,2)
    by (induction K' t n B D arbitrary: i rule: place.induct) auto
qed

lemma mark_place_all:
  assumes "\<forall>x. atom_time (M x) = atom_time x" "\<forall>x. K' (M x) = K' x" "unknown_run K t"
  shows "mark_known K M C i (place_all K' t off pos es D) = place_all K' t off pos es (mark_known K M C i D)"
  by (induction es arbitrary: off) (auto simp: mark_place [OF assms(1,2) unknown_new [OF assms(3)]])

subsection \<open>An operation is a marking and insertions\<close>

lemma newer_unknown: "\<forall>x \<in> set D. K x \<longrightarrow> atom_time x < t \<Longrightarrow> \<forall>x \<in> set W. t < atom_time x \<Longrightarrow> set W \<subseteq> set D \<Longrightarrow> filter K W = []"
  by (auto simp: filter_empty_conv dest: less_not_sym)

text \<open>Insertions that count from further on.\<close>

lemma place_all_behind:
  assumes "closes K n Q" "\<forall>((a, b), tx) \<in> set es. pos + n \<le> a"
  shows "place_all K t off pos es (Q @ D) = Q @ place_all K t off (pos + n) es D"
  using assms(2)
proof (induction es arbitrary: off)
  case (Cons e es)
  obtain a b tx where e: "e = ((a, b), tx)" by (metis prod.collapse)
  have "a - pos = n + (a - (pos + n))" using Cons.prems e by auto
  then have "place K t (a - pos) B (Q @ xs) = Q @ place K t (a - (pos + n)) B xs" for B xs using place_behind [OF assms(1)] by metis
  then show ?case using Cons.IH Cons.prems e by simp
qed simp

lemma place_all_newer:
  assumes "filter K W = []" "\<forall>x \<in> set W. t < atom_time x"
  shows "place_all K t off pos es (W @ D) = W @ place_all K t off pos es D"
proof -
  have "place K t n B (W @ D) = W @ place K t n B D" for n B D
    using assms place_newer place_unknown by (cases n) (auto simp: filter_empty_conv)
  then show ?thesis by (induction es arbitrary: off) auto
qed

lemma place_all_hd:
  "D = [] \<or> \<not> t < atom_time (hd D) \<Longrightarrow> place_all K t off pos es D = [] \<or> \<not> t < atom_time (hd (place_all K t off pos es D))"
proof (induction es arbitrary: off)
  case (Cons e es)
  obtain a b tx where e: "e = ((a, b), tx)" by (metis prod.collapse)
  have "place K t n B xs = [] \<or> \<not> t < atom_time (hd (place K t n B xs))"
    if "xs = [] \<or> \<not> t < atom_time (hd xs)" "run_of t B" for n B xs
    using that by (cases n; cases xs; cases B) (auto simp: run_of_def)
  then show ?case using Cons run_new e by simp
qed simp

lemma closes_exists: "n \<le> length (filter P D) \<Longrightarrow> \<exists>Q Z. D = Q @ Z \<and> closes P n Q"
proof (induction D arbitrary: n)
  case (Cons x D)
  show ?case
  proof (cases n)
    case (Suc m)
    obtain Q Z where Q: "D = Q @ Z" "closes P (if P x then m else Suc m) Q"
      using Cons.IH [of "if P x then m else Suc m"] Cons.prems Suc by (auto split: if_splits)
    have "\<not> P x \<Longrightarrow> Q \<noteq> []" using Q(2) by (auto simp: closes_def)
    then have "closes P n (x # Q)" using Q(2) Suc by (auto simp: closes_def)
    then show ?thesis using Q(1) by (intro exI [of _ "x # Q"] exI [of _ Z]) simp
  qed (use closes_0 [of P] in auto)
qed (use closes_0 [of P] in auto)

lemma known_mark: "known v (mark_remote t u w x) = known v x"
  by (simp add: known_def)

lemma remote_atoms_decompose:
  assumes "\<forall>x \<in> set D. known v x \<longrightarrow> atom_time x < t" "ranges_ok (pos + length (filter (known v) D)) pos es"
  shows "remote_atoms u v t off D pos es =
    place_all (known v) t off pos es (mark_known (known v) (mark_remote t u v) (in_ranges es) pos D)"
  using assms
proof (induction es arbitrary: off pos D)
  case Nil
  have "mark_known (known v) (mark_remote t u v) (in_ranges []) pos D = D" by (intro mark_known_off) (simp add: in_ranges_def)
  then show ?case by simp
next
  case (Cons e es)
  let ?K = "known v" and ?M = "mark_remote t u v"
  obtain a b tx where e: "e = ((a, b), tx)" by (metis prod.collapse)
  let ?n = "length (filter ?K D)"
  have ok: "pos \<le> a" "a \<le> b" "ranges_ok (pos + ?n) b es" "b \<le> pos + ?n" using Cons.prems(2) ranges_ok_le [of "pos + ?n" b es] by (auto simp: e)
  obtain Q Y where Q: "D = Q @ Y" "closes ?K (a - pos) Q" proof -
    have "a - pos \<le> ?n" using ok by simp
    then show ?thesis using closes_exists that by blast
  qed
  define W where "W = takeWhile (\<lambda>x. t < atom_time x) Y"
  define Y' where "Y' = dropWhile (\<lambda>x. t < atom_time x) Y"
  have W: "Y = W @ Y'" "\<forall>x \<in> set W. t < atom_time x" "Y' \<noteq> [] \<longrightarrow> \<not> t < atom_time (hd Y')"
    using hd_dropWhile [of "\<lambda>x. t < atom_time x" Y] by (auto simp: W_def Y'_def dest: set_takeWhileD)
  have noW: "filter ?K W = []" using newer_unknown [OF Cons.prems(1) W(2)] Q(1) W(1) by auto
  have nQ: "length (filter ?K Q) = a - pos" using Q(2) by (simp add: closes_def)
  have "b - a \<le> length (filter ?K Y')" using ok Q(1) W(1) noW nQ by auto
  then obtain R Z where R: "Y' = R @ Z" "closes ?K (b - a) R" using closes_exists by blast
  have nR: "length (filter ?K R) = b - a" using R(2) by (simp add: closes_def)
  have D: "D = Q @ W @ R @ Z" using Q(1) W(1) R(1) by simp
  have step: "remote_atoms u v t off D pos (e # es) = Q @ W @ new_atoms t off (length tx) @ map ?M R @ remote_atoms u v t (off + length tx) Z b es"
    unfolding D e using remote_atoms_step [OF Q(2) W(2,3) R(1,2)] by (simp only: R(1))
  have nZ: "pos + ?n = b + length (filter ?K Z)" using D noW nQ nR ok by simp
  have "\<forall>((i, j), x) \<in> set es. b \<le> i" using ranges_within [OF ok(3)] by fastforce
  then have C: "in_ranges (e # es) j = (a \<le> j \<and> j < b \<or> in_ranges es j)" "j < b \<Longrightarrow> \<not> in_ranges es j" for j
    by (auto simp: in_ranges_def e)
  let ?mk = "mark_known ?K ?M"
  have marks: "?mk (in_ranges (e # es)) pos D = Q @ W @ map ?M R @ ?mk (in_ranges es) b Z"
  proof -
    have "?mk (in_ranges (e # es)) pos Q = Q" using C ok nQ by (intro mark_known_off) auto
    moreover have "?mk (in_ranges (e # es)) a W = W" using noW by (intro mark_known_off) auto
    moreover have "?mk (in_ranges (e # es)) a R = map ?M R"
      using C(1) nR was_shown_known by (intro mark_known_on) (auto simp: mark_remote_def)
    moreover have "?mk (in_ranges (e # es)) b Z = ?mk (in_ranges es) b Z" using C(1) by (intro mark_known_cong) auto
    ultimately show ?thesis using D noW nQ nR ok by (simp add: mark_known_append)
  qed
  have clM: "closes ?K (b - a) (map ?M R)"
    using R(2) by (auto simp: closes_def last_map known_mark filter_map o_def)
  let ?Z = "?mk (in_ranges es) b Z"
  have far: "\<forall>((i, j), x) \<in> set es. pos + (a - pos) \<le> i" "\<forall>((i, j), x) \<in> set es. a + (b - a) \<le> i"
    using ranges_within [OF ok(3)] ok by fastforce+
  have "place_all ?K t (off + length tx) pos es (Q @ W @ map ?M R @ ?Z) = Q @ W @ map ?M R @ place_all ?K t (off + length tx) b es ?Z"
    using place_all_behind [OF Q(2) far(1)] place_all_newer [OF noW W(2)] place_all_behind [OF clM far(2)] ok by simp
  moreover have "place_all ?K t (off + length tx) b es ?Z = remote_atoms u v t (off + length tx) Z b es"
    using Cons.IH [of Z b "off + length tx"] Cons.prems(1) D ok(3) [unfolded nZ] by simp
  moreover have "map ?M R @ place_all ?K t (off + length tx) b es ?Z = [] \<or>
      \<not> t < atom_time (hd (map ?M R @ place_all ?K t (off + length tx) b es ?Z))"
  proof (cases R)
    case Nil
    have "?Z = [] \<or> \<not> t < atom_time (hd ?Z)" using W(3) R(1) Nil by (cases Z) auto
    then show ?thesis using place_all_hd Nil by simp
  qed (use W(3) R(1) in simp)
  ultimately have "place_all ?K t off pos (e # es) (?mk (in_ranges (e # es)) pos D) =
      Q @ W @ new_atoms t off (length tx) @ map ?M R @ remote_atoms u v t (off + length tx) Z b es"
    using place_behind [OF Q(2), of t 0] place_newer [OF W(2), of ?K] place_here [of "map ?M R @ remote_atoms u v t (off + length tx) Z b es" t ?K]
    by (simp add: e marks [unfolded e])
  then show ?case unfolding step by simp
qed

subsection \<open>Concurrent operations on a document\<close>

text \<open>Atoms that differ at most in the order of their deletions.\<close>

definition same_atom :: "atom \<Rightarrow> atom \<Rightarrow> bool" where
  "same_atom a b \<longleftrightarrow> atom_id a = atom_id b \<and> atom_visible a = atom_visible b \<and> atom_undos a = atom_undos b \<and>
     mset (atom_deletions a) = mset (atom_deletions b)"

lemma same_atom_time: "same_atom a b \<Longrightarrow> atom_time a = atom_time b"
  by (simp add: same_atom_def atom_id_def)

lemma same_refl: "list_all2 same_atom xs xs"
  by (simp add: list_all2_same same_atom_def)

lemma same_shown:
  assumes "list_all2 same_atom xs ys"
  shows "shown c xs = shown c ys" "hidden c xs = hidden c ys" "map atom_id xs = map atom_id ys"
  using assms
  by (induction rule: list_all2_induct) (auto simp: same_atom_def shown_def hidden_def bytes_of_def atom_byte_def atom_id_def)

lemma same_place:
  assumes "list_all2 same_atom xs ys"
  shows "list_all2 same_atom (place (known v) t n B xs) (place (known v) t n B ys)"
proof -
  have "list_all2 same_atom (B @ xs) (B @ ys)" if "list_all2 same_atom xs ys" for xs ys
    using that same_refl by (rule list_all2_appendI [rotated])
  then show ?thesis using assms
  proof (induction "known v" t n B xs arbitrary: ys rule: place.induct)
    case (1 t n B)
    then show ?case using same_refl by simp
  next
    case (2 t B x xs)
    then show ?case by (cases ys) (auto dest: same_atom_time)
  next
    case (3 t n B x xs)
    then show ?case by (cases ys) (auto simp: known_def dest: same_atom_time)
  qed
qed

lemma same_place_all:
  "list_all2 same_atom xs ys \<Longrightarrow> list_all2 same_atom (place_all (known v) t off pos es xs) (place_all (known v) t off pos es ys)"
  by (induction es arbitrary: off) (auto simp: same_place)

text \<open>A deletion that a version has not observed does not change what was visible then.\<close>

lemma was_shown_mark: "\<not> observed v t \<Longrightarrow> was_shown u v (mark_remote t u' v' a) = was_shown u v a"
  by (auto simp: was_shown_def mark_remote_def)

lemma same_marks:
  assumes "\<not> observed v1 t2" "\<not> observed v2 t1"
  shows "list_all2 same_atom (mark_known (known v1) (mark_remote t1 u v1) C1 i (mark_known (known v2) (mark_remote t2 u v2) C2 j D))
    (mark_known (known v2) (mark_remote t2 u v2) C2 j (mark_known (known v1) (mark_remote t1 u v1) C1 i D))"
proof (induction D arbitrary: i j)
  case (Cons x D)
  have m: "mark_remote t u v y = (if was_shown u v x then y\<lparr>atom_visible := False, atom_deletions := atom_deletions y @ [t]\<rparr> else y)"
    if "was_shown u v y = was_shown u v x" for t v y using that by (simp add: mark_remote_def)
  have "same_atom (mark_remote t1 u v1 (mark_remote t2 u v2 x)) (mark_remote t2 u v2 (mark_remote t1 u v1 x))"
    using m [OF was_shown_mark [OF assms(1)], of t1 u v2] m [OF was_shown_mark [OF assms(2)], of t2 u v1] m [OF refl]
    by (simp add: same_atom_def atom_id_def)
  moreover have "same_atom a a" for a by (simp add: same_atom_def)
  ultimately show ?case using Cons by (simp add: known_mark)
qed simp

lemma known_ids: "map atom_id (filter (known v) xs) = filter (\<lambda>(t, i). observed v t) (map atom_id xs)"
  by (induction xs) (auto simp: known_def atom_id_def)

lemma remote_known_ids:
  assumes "\<forall>a \<in> set D. atom_time a \<noteq> t" "\<not> observed v t"
  shows "map atom_id (filter (known v) (remote_atoms u v' t off D pos es)) = map atom_id (filter (known v) D)"
proof -
  have "filter (known v) xs = filter (known v) (filter (\<lambda>a. atom_time a \<noteq> t) xs)" for xs
    using assms(2) by (induction xs) (auto simp: known_def)
  then show ?thesis unfolding known_ids using remote_atoms_ids(1) [OF assms(1)] by (metis known_ids)
qed

lemma remote_known_text:
  assumes "\<forall>a \<in> set D. atom_time a \<noteq> t" "\<not> observed v t"
  shows "known_text (record_text c t x) v (remote_atoms u v' t off D pos es) = known_text c v D"
    "length (filter (known v) (remote_atoms u v' t off D pos es)) = length (filter (known v) D)"
proof -
  have b: "bytes_of c' xs = map (\<lambda>(t, i). c' t i) (map atom_id xs)" for c' xs by (simp add: bytes_of_def atom_byte_def atom_id_def)
  have "bytes_of (record_text c t x) (filter (known v) D) = bytes_of c (filter (known v) D)" using assms(1) by (intro record_bytes) auto
  then show "known_text (record_text c t x) v (remote_atoms u v' t off D pos es) = known_text c v D"
    by (simp only: known_text_def b [of _ "filter (known v) (remote_atoms u v' t off D pos es)"] remote_known_ids [OF assms] b [symmetric])
  show "length (filter (known v) (remote_atoms u v' t off D pos es)) = length (filter (known v) D)"
    using arg_cong [OF remote_known_ids [OF assms], of length] by simp
qed

definition causal_doc :: "global \<Rightarrow> lamport \<Rightarrow> atom list \<Rightarrow> bool" where
  "causal_doc v t D \<longleftrightarrow> (\<forall>x \<in> set D. known v x \<longrightarrow> atom_time x < t)"

lemma remote_causal:
  assumes "\<forall>a \<in> set D. atom_time a \<noteq> t'" "\<not> observed v t'" "causal_doc v t D"
  shows "causal_doc v t (remote_atoms u v' t' off D pos es)"
  unfolding causal_doc_def
proof (intro ballI impI)
  fix x assume "x \<in> set (remote_atoms u v' t' off D pos es)" "known v x"
  then have "atom_id x \<in> set (map atom_id (filter (known v) (remote_atoms u v' t' off D pos es)))" by simp
  then obtain y where "y \<in> set D" "known v y" "atom_id x = atom_id y" unfolding remote_known_ids [OF assms(1,2)] by auto
  then show "atom_time x < t" using assms(3) by (auto simp: causal_doc_def atom_id_def)
qed

lemma remote_atoms_commute:
  assumes "t1 \<noteq> t2" "\<not> observed v1 t1" "\<not> observed v1 t2" "\<not> observed v2 t1" "\<not> observed v2 t2"
    and "\<forall>a \<in> set D. atom_time a \<noteq> t1" "\<forall>a \<in> set D. atom_time a \<noteq> t2" "causal_doc v1 t1 D" "causal_doc v2 t2 D"
    and "ranges_ok (length (filter (known v1) D)) 0 es1" "ranges_ok (length (filter (known v2) D)) 0 es2"
  shows "list_all2 same_atom (remote_atoms u v2 t2 0 (remote_atoms u v1 t1 0 D 0 es1) 0 es2)
    (remote_atoms u v1 t1 0 (remote_atoms u v2 t2 0 D 0 es2) 0 es1)"
proof -
  let ?P1 = "place_all (known v1) t1 0 0 es1" and ?P2 = "place_all (known v2) t2 0 0 es2"
  let ?M1 = "mark_known (known v1) (mark_remote t1 u v1) (in_ranges es1) 0" and ?M2 = "mark_known (known v2) (mark_remote t2 u v2) (in_ranges es2) 0"
  have un: "unknown_run (known v1) t1" "unknown_run (known v1) t2" "unknown_run (known v2) t1" "unknown_run (known v2) t2"
    using assms(2-5) by (auto simp: unknown_run_def known_def)
  have d: "remote_atoms u v t 0 X 0 es = place_all (known v) t 0 0 es (mark_known (known v) (mark_remote t u v) (in_ranges es) 0 X)"
    if "causal_doc v t X" "ranges_ok (length (filter (known v) X)) 0 es" for X v t es
    using remote_atoms_decompose [of X v t 0 es u 0] that by (simp add: causal_doc_def)
  have one: "remote_atoms u v1 t1 0 D 0 es1 = ?P1 (?M1 D)" "remote_atoms u v2 t2 0 D 0 es2 = ?P2 (?M2 D)"
    using d assms(8-11) by simp_all
  have two: "remote_atoms u v2 t2 0 (remote_atoms u v1 t1 0 D 0 es1) 0 es2 = ?P2 (?M2 (?P1 (?M1 D)))"
    using d [OF remote_causal [OF assms(6,4,9)]] remote_known_text(2) [OF assms(6,4)] assms(11) one(1) by metis
  have two': "remote_atoms u v1 t1 0 (remote_atoms u v2 t2 0 D 0 es2) 0 es1 = ?P1 (?M1 (?P2 (?M2 D)))"
    using d [OF remote_causal [OF assms(7,3,8)]] remote_known_text(2) [OF assms(7,3)] assms(10) one(2) by metis
  have len: "length (filter (known v) (mark_known K (mark_remote t u w) C i X)) = length (filter (known v) X)" for v K t w C i X
    by (induction X arbitrary: i) (auto simp: known_mark)
  have "?M2 (?P1 X) = ?P1 (?M2 X)" "?M1 (?P2 X) = ?P2 (?M1 X)" for X using un by (auto intro!: mark_place_all simp: known_mark)
  then have "?P2 (?M2 (?P1 (?M1 D))) = ?P2 (?P1 (?M2 (?M1 D)))" "?P1 (?M1 (?P2 (?M2 D))) = ?P1 (?P2 (?M1 (?M2 D)))" by simp_all
  moreover have "?P2 (?P1 (?M2 (?M1 D))) = ?P1 (?P2 (?M2 (?M1 D)))"
    using place_all_commute [OF assms(1) un, of "?M2 (?M1 D)" es1 es2 0 0] assms(10,11) by (simp add: len)
  moreover have "list_all2 same_atom (?P1 (?P2 (?M2 (?M1 D)))) (?P1 (?P2 (?M1 (?M2 D))))"
    by (intro same_place_all same_marks assms(3,4))
  ultimately show ?thesis using two two' by simp
qed

end
