(* ===== verification/Replicas.thy ===== *)
theory Replicas
  imports Remote_Convergence
begin

text \<open>
  Replicas: a snapshot that applies two concurrent operations in either order shows the same text, an operation that a
  replica receives changes its document as the edit changed the document of its author, and two replicas that edit the same
  document at the same time and exchange their operations show the same text.
\<close>

subsection \<open>Timestamps of fragments and of atoms\<close>

lemma causal_at_doc:
  assumes "holds c s fs"
  shows "causal_at v t fs \<longleftrightarrow> causal_doc v t (atoms fs)"
proof
  show "causal_at v t fs \<Longrightarrow> causal_doc v t (atoms fs)"
    using atom_from by (fastforce simp: causal_at_def causal_doc_def known_def)
  assume "causal_doc v t (atoms fs)"
  then show "causal_at v t fs"
    using first_atom holdsD(7) [OF assms] by (fastforce simp: causal_at_def causal_doc_def known_def image_iff)
qed

lemma fresh_in_doc:
  assumes "holds c s fs"
  shows "fresh_in t fs \<longleftrightarrow> 0 < tvalue t \<and> (\<forall>x \<in> set (atoms fs). atom_time x \<noteq> t)"
proof
  show "fresh_in t fs \<Longrightarrow> 0 < tvalue t \<and> (\<forall>x \<in> set (atoms fs). atom_time x \<noteq> t)"
    using fresh_atoms by (auto simp: fresh_in_def)
  assume *: "0 < tvalue t \<and> (\<forall>x \<in> set (atoms fs). atom_time x \<noteq> t)"
  then show "fresh_in t fs"
    using first_atom holdsD(7) [OF assms] unfolding fresh_in_def by (metis imageE)
qed

lemma remote_times:
  assumes "\<forall>a \<in> set D. atom_time a \<noteq> t" "x \<in> set (remote_atoms u v t off D pos es)"
  shows "atom_time x = t \<or> atom_time x \<in> atom_time ` set D"
proof (cases "atom_time x = t")
  case False
  then have "atom_id x \<in> set (map atom_id (filter (\<lambda>a. atom_time a \<noteq> t) (remote_atoms u v t off D pos es)))" using assms(2) by simp
  then have "atom_id x \<in> atom_id ` set D" by (simp only: remote_atoms_ids(1) [OF assms(1)]) simp
  then show ?thesis by (auto simp: atom_id_def)
qed simp

lemma edits_ranges_ok: "edits_ok T pos es \<Longrightarrow> ranges_ok (length T) pos es"
  by (induction T pos es rule: edits_ok.induct) auto

subsection \<open>Operations on documents\<close>

definition edits_of :: "edit_operation \<Rightarrow> text_edit list" where
  "edits_of op = zip (edit_ranges op) (edit_new_text op)"

definition after_op :: "undo_map \<Rightarrow> atom list \<Rightarrow> edit_operation \<Rightarrow> atom list" where
  "after_op u D op = remote_atoms u (edit_version op) (edit_timestamp op) 0 D 0 (edits_of op)"

definition with_text :: "content \<Rightarrow> edit_operation \<Rightarrow> content" where
  "with_text c op = record_text c (edit_timestamp op) (concat (map snd (edits_of op)))"

text \<open>
  What an operation that arrives relies on: its timestamp is new and above everything its author knew, and its ranges are
  sorted, disjoint and at character boundaries of the text its author knew.
\<close>

definition op_ok :: "content \<Rightarrow> atom list \<Rightarrow> edit_operation \<Rightarrow> bool" where
  "op_ok c D op \<longleftrightarrow> edits_ok (known_text c (edit_version op) D) 0 (edits_of op) \<and> 0 < tvalue (edit_timestamp op) \<and>
     (\<forall>a \<in> set D. atom_time a \<noteq> edit_timestamp op) \<and> causal_doc (edit_version op) (edit_timestamp op) D \<and>
     \<not> observed (edit_version op) (edit_timestamp op)"

text \<open>Two operations that do not know each other.\<close>

definition concurrent :: "edit_operation \<Rightarrow> edit_operation \<Rightarrow> bool" where
  "concurrent p q \<longleftrightarrow> edit_timestamp p \<noteq> edit_timestamp q \<and>
     \<not> observed (edit_version p) (edit_timestamp q) \<and> \<not> observed (edit_version q) (edit_timestamp p)"

lemma with_text_commute: "concurrent p q \<Longrightarrow> with_text (with_text c p) q = with_text (with_text c q) p"
  unfolding with_text_def record_text_def by (rule fun_upd_twist) (simp add: concurrent_def)

lemma op_ok_count: "op_ok c D op \<Longrightarrow> ranges_ok (length (filter (known (edit_version op)) D)) 0 (edits_of op)"
  using edits_ranges_ok [of "known_text c (edit_version op) D" 0 "edits_of op"] by (simp add: op_ok_def known_text_def)

lemma after_op_known:
  assumes "\<forall>a \<in> set D. atom_time a \<noteq> edit_timestamp p" "\<not> observed v (edit_timestamp p)"
  shows "known_text (with_text c p) v (after_op u D p) = known_text c v D"
    "causal_doc v t (after_op u D p) \<longleftrightarrow> causal_doc v t D"
proof -
  show "known_text (with_text c p) v (after_op u D p) = known_text c v D"
    unfolding with_text_def after_op_def by (rule remote_known_text(1) [OF assms])
  have *: "causal_doc v t X \<longleftrightarrow> (\<forall>(r, i) \<in> set (map atom_id (filter (known v) X)). r < t)" for X
    by (auto simp: causal_doc_def atom_id_def)
  show "causal_doc v t (after_op u D p) \<longleftrightarrow> causal_doc v t D"
    unfolding * after_op_def by (simp only: remote_known_ids [OF assms])
qed

lemma after_op_times:
  assumes "\<forall>a \<in> set D. atom_time a \<noteq> edit_timestamp p"
  shows "atom_time ` set D \<subseteq> atom_time ` set (after_op u D p)"
    "atom_time ` set (after_op u D p) \<subseteq> insert (edit_timestamp p) (atom_time ` set D)"
proof -
  show "atom_time ` set (after_op u D p) \<subseteq> insert (edit_timestamp p) (atom_time ` set D)"
    using remote_times [OF assms] unfolding after_op_def by blast
  show "atom_time ` set D \<subseteq> atom_time ` set (after_op u D p)"
  proof
    fix r assume "r \<in> atom_time ` set D"
    then obtain i where "(r, i) \<in> set (map atom_id D)" by (force simp: atom_id_def)
    then have "(r, i) \<in> set (map atom_id (filter (\<lambda>a. atom_time a \<noteq> edit_timestamp p) (after_op u D p)))"
      unfolding after_op_def by (simp only: remote_atoms_ids(1) [OF assms])
    then show "r \<in> atom_time ` set (after_op u D p)" by (force simp: atom_id_def)
  qed
qed

text \<open>Concurrent operations can be swapped.\<close>

lemma swap_ops:
  assumes p: "op_ok c D p" and q: "op_ok (with_text c p) (after_op u D p) q" and conc: "concurrent p q"
  shows "op_ok c D q" "op_ok (with_text c q) (after_op u D q) p"
    "list_all2 same_atom (after_op u (after_op u D p) q) (after_op u (after_op u D q) p)"
proof -
  note P = p [unfolded op_ok_def] and Q = q [unfolded op_ok_def]
  have fp: "\<forall>a \<in> set D. atom_time a \<noteq> edit_timestamp p" using P by blast
  have fq: "\<forall>a \<in> set D. atom_time a \<noteq> edit_timestamp q" using Q after_op_times(1) [OF fp, of u] by auto
  have un: "\<not> observed (edit_version q) (edit_timestamp p)" "\<not> observed (edit_version p) (edit_timestamp q)"
    "edit_timestamp p \<noteq> edit_timestamp q" using conc by (auto simp: concurrent_def)
  show q': "op_ok c D q" using Q fq by (simp add: op_ok_def after_op_known [OF fp un(1)])
  have "\<forall>a \<in> set (after_op u D q). atom_time a \<noteq> edit_timestamp p" using after_op_times(2) [OF fq, of u] fp un(3) by auto
  then show "op_ok (with_text c q) (after_op u D q) p" using P by (simp add: op_ok_def after_op_known [OF fq un(2)])
  show "list_all2 same_atom (after_op u (after_op u D p) q) (after_op u (after_op u D q) p)"
    unfolding after_op_def using P Q un fp fq op_ok_count [OF p] op_ok_count [OF q'] q'
    by (intro remote_atoms_commute) (simp_all add: op_ok_def)
qed

text \<open>Documents that differ only in the order of deletions take the same operations.\<close>

lemma same_known:
  assumes "list_all2 same_atom D D'"
  shows "map atom_id (filter (known v) D) = map atom_id (filter (known v) D')"
  using same_shown(3) [OF assms] by (simp only: known_ids)

lemma same_mark:
  "same_atom a b \<Longrightarrow> same_atom (mark_remote t u v a) (mark_remote t u v b)"
  by (auto simp: same_atom_def mark_remote_def was_shown_def atom_id_def dest: mset_eq_setD)

lemma same_mark_known:
  "list_all2 same_atom D D' \<Longrightarrow>
    list_all2 same_atom (mark_known (known v) (mark_remote t u v) C i D) (mark_known (known v) (mark_remote t u v) C i D')"
proof (induction D D' arbitrary: i rule: list_all2_induct)
  case (Cons a D b D')
  have "known v a = known v b" using same_atom_time [OF Cons(1)] by (simp add: known_def)
  then show ?case using Cons same_mark by simp
qed simp

lemma same_op:
  assumes "list_all2 same_atom D D'" "op_ok c D op"
  shows "op_ok c D' op" "list_all2 same_atom (after_op u D op) (after_op u D' op)"
proof -
  let ?v = "edit_version op" and ?t = "edit_timestamp op"
  have times: "atom_time ` set D' = atom_time ` set D"
    using arg_cong [OF same_shown(3) [OF assms(1)], of "\<lambda>xs. fst ` set xs"] by (simp add: image_image atom_id_def)
  have c: "causal_doc ?v ?t X \<longleftrightarrow> (\<forall>(r, i) \<in> set (map atom_id (filter (known ?v) X)). r < ?t)" for X
    by (auto simp: causal_doc_def atom_id_def)
  have k: "known_text c ?v X = map (\<lambda>(r, i). c r i) (map atom_id (filter (known ?v) X))" for X
    by (simp add: known_text_def bytes_of_def atom_byte_def atom_id_def)
  have "\<forall>a \<in> set D'. atom_time a \<noteq> ?t" using assms(2) times unfolding op_ok_def by (metis imageE imageI)
  then show ok': "op_ok c D' op" using assms(2) unfolding op_ok_def c k same_known [OF assms(1)] by blast
  have d: "after_op u X op = place_all (known ?v) ?t 0 0 (edits_of op) (mark_known (known ?v) (mark_remote ?t u ?v) (in_ranges (edits_of op)) 0 X)"
    if "op_ok c X op" for X
    using remote_atoms_decompose [of X ?v ?t 0 "edits_of op" u 0] that op_ok_count [OF that] by (simp add: after_op_def op_ok_def causal_doc_def)
  show "list_all2 same_atom (after_op u D op) (after_op u D' op)"
    unfolding d [OF assms(2)] d [OF ok'] by (intro same_place_all same_mark_known assms(1))
qed

subsection \<open>Sequences of operations\<close>

fun after_ops :: "undo_map \<Rightarrow> atom list \<Rightarrow> edit_operation list \<Rightarrow> atom list" where
  "after_ops u D [] = D"
| "after_ops u D (op # ops) = after_ops u (after_op u D op) ops"

fun ops_ok :: "undo_map \<Rightarrow> content \<Rightarrow> atom list \<Rightarrow> edit_operation list \<Rightarrow> bool" where
  "ops_ok u c D [] \<longleftrightarrow> True"
| "ops_ok u c D (op # ops) \<longleftrightarrow> op_ok c D op \<and> ops_ok u (with_text c op) (after_op u D op) ops"

lemma same_ops:
  assumes "list_all2 same_atom D D'" "ops_ok u c D ops"
  shows "ops_ok u c D' ops \<and> list_all2 same_atom (after_ops u D ops) (after_ops u D' ops)"
  using assms
proof (induction ops arbitrary: c D D')
  case (Cons op ops)
  then show ?case using same_op [OF Cons.prems(1), of c op] by auto
qed simp

lemma same_trans: "list_all2 same_atom xs ys \<Longrightarrow> list_all2 same_atom ys zs \<Longrightarrow> list_all2 same_atom xs zs"
  by (rule list_all2_trans [of same_atom same_atom same_atom]) (auto simp: same_atom_def)

lemma bring_forward:
  assumes "ops_ok u c D (xs @ h # ys)" "\<forall>x \<in> set xs. concurrent x h"
  shows "ops_ok u c D (h # xs @ ys) \<and> list_all2 same_atom (after_ops u D (xs @ h # ys)) (after_ops u D (h # xs @ ys))"
  using assms
proof (induction xs arbitrary: c D)
  case Nil
  then show ?case using same_refl by simp
next
  case (Cons x xs)
  let ?D = "after_op u D x" and ?c = "with_text c x"
  have ih: "ops_ok u ?c ?D (h # xs @ ys)" "list_all2 same_atom (after_ops u ?D (xs @ h # ys)) (after_ops u ?D (h # xs @ ys))"
    using Cons.IH [of ?c ?D] Cons.prems by auto
  have x: "op_ok c D x" "concurrent x h" using Cons.prems by auto
  note sw = swap_ops [OF x(1) _ x(2), of u]
  have h: "op_ok ?c ?D h" using ih(1) by simp
  have rest: "ops_ok u (with_text (with_text c h) x) (after_op u ?D h) (xs @ ys)"
    using ih(1) with_text_commute [OF x(2), of c] by simp
  note same = same_ops [OF sw(3) [OF h] rest]
  have "ops_ok u c D (h # (x # xs) @ ys)" using sw(1,2) [OF h] same by simp
  moreover have "list_all2 same_atom (after_ops u D ((x # xs) @ h # ys)) (after_ops u D (h # (x # xs) @ ys))"
    using same_trans [OF ih(2), of "after_ops u D (h # (x # xs) @ ys)"] same by simp
  ultimately show ?case by blast
qed

text \<open>An order is causal when no operation knows one that comes after it.\<close>

definition causal_order :: "edit_operation list \<Rightarrow> bool" where
  "causal_order ops \<longleftrightarrow> sorted_wrt (\<lambda>p q. edit_timestamp p \<noteq> edit_timestamp q \<and> \<not> observed (edit_version p) (edit_timestamp q)) ops"

lemma causal_orders_agree:
  assumes "ops_ok u c D ops" "causal_order ops" "causal_order ops'" "mset ops' = mset ops"
  shows "ops_ok u c D ops' \<and> list_all2 same_atom (after_ops u D ops) (after_ops u D ops')"
  using assms
proof (induction ops' arbitrary: c D ops)
  case Nil
  then show ?case using same_refl by simp
next
  case (Cons h hs)
  have "h \<in> set ops" using Cons.prems(4) by (metis list.set_intros(1) set_mset_mset)
  then obtain xs ys where ops: "ops = xs @ h # ys" by (meson split_list)
  have m: "mset hs = mset (xs @ ys)" using Cons.prems(4) by (simp add: ops)
  have "concurrent x h" if "x \<in> set xs" for x
  proof -
    have "x \<in> set hs" using that m by (metis in_multiset_in_set set_mset_mset Un_iff set_append)
    then show ?thesis using Cons.prems(2,3) that by (auto simp: causal_order_def ops sorted_wrt_append concurrent_def)
  qed
  then have f: "ops_ok u c D (h # xs @ ys)" "list_all2 same_atom (after_ops u D ops) (after_ops u D (h # xs @ ys))"
    using bring_forward Cons.prems(1) unfolding ops by blast+
  have "causal_order (xs @ ys)" "causal_order hs" using Cons.prems(2,3) by (auto simp: causal_order_def ops sorted_wrt_append)
  then have ih: "ops_ok u (with_text c h) (after_op u D h) hs \<and>
      list_all2 same_atom (after_ops u (after_op u D h) (xs @ ys)) (after_ops u (after_op u D h) hs)"
    using f(1) m by (intro Cons.IH) auto
  then show ?case using f same_trans [OF f(2)] by auto
qed

subsection \<open>Sending an edit\<close>

text \<open>The version observed everything in the document, and what it shows is what is visible.\<close>

definition settled :: "undo_map \<Rightarrow> global \<Rightarrow> atom list \<Rightarrow> bool" where
  "settled u v D \<longleftrightarrow> (\<forall>x \<in> set D. known v x \<and> (was_shown u v x \<longleftrightarrow> atom_visible x))"

lemma counted_all: "\<forall>x \<in> set xs. P x \<Longrightarrow> counted_prefix P n xs = take n xs"
  by (induction P n xs rule: counted_prefix.induct) auto

lemma edit_as_remote:
  assumes "settled u v D" "\<forall>x \<in> set D. atom_time x < t" "ranges_ok (length D) pos rs"
  shows "edit_atoms t off D pos rs = remote_atoms u v t off (drop pos D) pos rs"
  using assms(3)
proof (induction rs arbitrary: off pos)
  case (Cons r rs)
  obtain i j w where r: "r = ((i, j), w)" by (metis prod.collapse)
  have le: "pos \<le> i" "i \<le> j" "ranges_ok (length D) j rs" using Cons.prems r by auto
  have known: "\<forall>x \<in> set (drop k D). known v x" for k using assms(1) by (auto simp: settled_def dest: in_set_dropD)
  have drops: "drop (i - pos) (drop pos D) = drop i D" "drop (j - i) (drop i D) = drop j D" using le by simp_all
  have D: "drop pos D = take (i - pos) (drop pos D) @ [] @ drop i D" "drop i D = take (j - i) (drop i D) @ drop j D"
    by (simp only: append_Nil drops(1) [symmetric] append_take_drop_id) (simp only: drops(2) [symmetric] append_take_drop_id)
  have len: "i \<le> length D" "j \<le> length D" using ranges_ok_le [OF le(3)] le by auto
  have cl: "closes (known v) n (take n (drop k D))" if "k + n \<le> length D" for n k
  proof -
    have all: "\<forall>x \<in> set (take n (drop k D)). known v x" using known [of k] by (auto dest: in_set_takeD)
    then have "filter (known v) (take n (drop k D)) = take n (drop k D)" by (simp add: filter_id_conv)
    then show ?thesis using that all last_in_set unfolding closes_def by fastforce
  qed
  have "drop i D \<noteq> [] \<longrightarrow> \<not> t < atom_time (hd (drop i D))"
    using assms(2) by (metis hd_in_set in_set_dropD less_not_sym)
  note step = remote_atoms_step [where Q = "take (i - pos) (drop pos D)" and W = "[]" and pos = pos and a = i and v = v and b = j
      and u = u and off = off, OF _ _ this D(2)]
  have "remote_atoms u v t off (drop pos D) pos (r # rs) = take (i - pos) (drop pos D) @ new_atoms t off (length w) @
      map (mark_remote t u v) (take (j - i) (drop i D)) @ remote_atoms u v t (off + length w) (drop j D) j rs"
    using step cl [of pos "i - pos"] cl [of i "j - i"] le len D(1) r by (simp del: remote_atoms.simps)
  moreover have "map (mark_remote t u v) (take (j - i) (drop i D)) = map (mark_deleted t) (take (j - i) (drop i D))"
    using assms(1) by (auto simp: settled_def mark_remote_def mark_deleted_def dest!: in_set_takeD in_set_dropD)
  ultimately show ?case using Cons.IH [OF le(3), of "off + length w"] r by simp
qed simp

end
