(* ===== verification/History.thy ===== *)
theory History
  imports Text_Operation Tree_Map Rope "HOL-Library.Monad_Syntax"
begin

text \<open>
  \<open>History\<close> of \<open>crates/text/src/text.rs\<close>: the transactions of a buffer on two stacks, which undo and redo move to and
  fro. A stack is a list with its top at the end, as the vectors of the code are. An \<open>Instant\<close> is a natural number of
  time units; the difference of two instants saturates at zero, as in Rust.
\<close>

subsection \<open>Transactions\<close>

type_synonym transaction_id = lamport
type_synonym instant = nat
type_synonym duration = nat

record transaction =
  transaction_id :: transaction_id
  edit_ids :: "lamport list"
  transaction_start :: global

record history_entry =
  transaction :: transaction
  first_edit_at :: instant
  last_edit_at :: instant
  suppress_grouping :: bool

record history =
  base_text :: rope
  operations :: "(lamport, operation) tree_map"
  undo_stack :: "history_entry list"
  redo_stack :: "history_entry list"
  transaction_depth :: nat
  group_interval :: duration

definition merge_in :: "transaction \<Rightarrow> transaction \<Rightarrow> transaction" where
  "merge_in t other = t\<lparr>edit_ids := edit_ids t @ edit_ids other\<rparr>"

definition entry_transaction_id :: "history_entry \<Rightarrow> transaction_id" where
  "entry_transaction_id e = transaction_id (transaction e)"

text \<open>The interval is zero in tests and 300 milliseconds otherwise.\<close>

definition history_new :: "duration \<Rightarrow> rope \<Rightarrow> history" where
  "history_new interval r =
     \<lparr>base_text = r, operations = map_default, undo_stack = [], redo_stack = [], transaction_depth = 0,
      group_interval = interval\<rparr>"

definition history_push :: "history \<Rightarrow> operation \<Rightarrow> history option" where
  "history_push h op = do {
     ops \<leftarrow> map_insert (operations h) (operation_timestamp op) op;
     Some (h\<lparr>operations := ops\<rparr>)
   }"

subsection \<open>Opening and closing a transaction\<close>

definition new_entry :: "transaction \<Rightarrow> instant \<Rightarrow> history_entry" where
  "new_entry t now = \<lparr>transaction = t, first_edit_at = now, last_edit_at = now, suppress_grouping = False\<rparr>"

definition history_start_transaction ::
  "history \<Rightarrow> global \<Rightarrow> instant \<Rightarrow> lamport \<Rightarrow> transaction_id option \<times> history \<times> lamport" where
  "history_start_transaction h start now clock =
     (let h = h\<lparr>transaction_depth := transaction_depth h + 1\<rparr> in
      if transaction_depth h = 1 then
        let (tid, clock) = tick clock;
            e = new_entry \<lparr>transaction_id = tid, edit_ids = [], transaction_start = start\<rparr> now
        in (Some tid, h\<lparr>undo_stack := undo_stack h @ [e]\<rparr>, clock)
      else (None, h, clock))"

definition history_end_transaction :: "history \<Rightarrow> instant \<Rightarrow> (history_entry option \<times> history) option" where
  "history_end_transaction h now =
     (if transaction_depth h = 0 then None
      else
        let h = h\<lparr>transaction_depth := transaction_depth h - 1\<rparr> in
        if transaction_depth h = 0 then
          if undo_stack h = [] then None
          else if edit_ids (transaction (last (undo_stack h))) = [] then
            Some (None, h\<lparr>undo_stack := butlast (undo_stack h)\<rparr>)
          else
            let e = (last (undo_stack h))\<lparr>last_edit_at := now\<rparr>
            in Some (Some e, h\<lparr>redo_stack := [], undo_stack := butlast (undo_stack h) @ [e]\<rparr>)
        else Some (None, h))"

subsection \<open>Grouping\<close>

text \<open>
  \<open>group_trailing\<close> merges the last \<open>n\<close> transactions into the one before them; the subtraction underflows when there are
  fewer.
\<close>

definition absorb_entries :: "history_entry \<Rightarrow> history_entry list \<Rightarrow> history_entry" where
  "absorb_entries e es =
     (let e = e\<lparr>transaction := (transaction e)\<lparr>edit_ids := edit_ids (transaction e) @ concat (map (edit_ids \<circ> transaction) es)\<rparr>\<rparr>
      in if es = [] then e else e\<lparr>last_edit_at := last_edit_at (last es)\<rparr>)"

definition group_trailing :: "history \<Rightarrow> nat \<Rightarrow> (transaction_id option \<times> history) option" where
  "group_trailing h n =
     (if length (undo_stack h) < n then None
      else
        let new_len = length (undo_stack h) - n;
            keep = take new_len (undo_stack h);
            merge = drop new_len (undo_stack h);
            stack = (if keep = [] then [] else butlast keep @ [absorb_entries (last keep) merge])
        in Some (map_option entry_transaction_id (last_opt stack), h\<lparr>undo_stack := stack\<rparr>))"

text \<open>The loop of \<open>group\<close> walks down the stack from its top \<open>e\<close>.\<close>

fun group_count :: "duration \<Rightarrow> history_entry \<Rightarrow> history_entry list \<Rightarrow> nat" where
  "group_count interval e [] = 0"
| "group_count interval e (p # ps) =
     (if \<not> suppress_grouping p \<and> first_edit_at e - last_edit_at p < interval
      then Suc (group_count interval p ps) else 0)"

definition history_group :: "history \<Rightarrow> (transaction_id option \<times> history) option" where
  "history_group h =
     group_trailing h
       (case rev (undo_stack h) of [] \<Rightarrow> 0 | e # es \<Rightarrow> group_count (group_interval h) e es)"

fun until_count :: "transaction_id \<Rightarrow> history_entry list \<Rightarrow> nat \<Rightarrow> nat option" where
  "until_count tid [] n = None"
| "until_count tid (e # es) n =
     (if entry_transaction_id e = tid then Some n
      else if suppress_grouping e then None
      else until_count tid es (n + 1))"

definition history_group_until :: "history \<Rightarrow> transaction_id \<Rightarrow> history option" where
  "history_group_until h tid =
     (case until_count tid (rev (undo_stack h)) 0 of
        None \<Rightarrow> Some h
      | Some n \<Rightarrow> map_option snd (group_trailing h n))"

definition history_finalize_last_transaction :: "history \<Rightarrow> transaction option \<times> history" where
  "history_finalize_last_transaction h =
     (if undo_stack h = [] then (None, h)
      else
        let e = (last (undo_stack h))\<lparr>suppress_grouping := True\<rparr>
        in (Some (transaction e), h\<lparr>undo_stack := butlast (undo_stack h) @ [e]\<rparr>))"

subsection \<open>Pushing\<close>

definition history_push_transaction :: "history \<Rightarrow> transaction \<Rightarrow> instant \<Rightarrow> history option" where
  "history_push_transaction h t now =
     (if transaction_depth h \<noteq> 0 then None else Some (h\<lparr>undo_stack := undo_stack h @ [new_entry t now]\<rparr>))"

definition history_push_empty_transaction ::
  "history \<Rightarrow> global \<Rightarrow> instant \<Rightarrow> lamport \<Rightarrow> (transaction_id \<times> history \<times> lamport) option" where
  "history_push_empty_transaction h start now clock =
     (if transaction_depth h \<noteq> 0 then None
      else
        let (tid, clock) = tick clock;
            e = new_entry \<lparr>transaction_id = tid, edit_ids = [], transaction_start = start\<rparr> now
        in Some (tid, h\<lparr>undo_stack := undo_stack h @ [e]\<rparr>, clock))"

definition push_edit_id :: "history_entry \<Rightarrow> lamport \<Rightarrow> history_entry" where
  "push_edit_id e op_id = e\<lparr>transaction := (transaction e)\<lparr>edit_ids := edit_ids (transaction e) @ [op_id]\<rparr>\<rparr>"

definition history_push_undo :: "history \<Rightarrow> lamport \<Rightarrow> history option" where
  "history_push_undo h op_id =
     (if transaction_depth h = 0 then None
      else
        (case map_get (operations h) op_id of
           Some (Edit e) \<Rightarrow>
             if undo_stack h = [] then None
             else Some (h\<lparr>undo_stack := butlast (undo_stack h) @ [push_edit_id (last (undo_stack h)) op_id]\<rparr>)
         | _ \<Rightarrow> Some h))"

subsection \<open>Moving transactions between the stacks\<close>

text \<open>\<open>rposition\<close>, \<open>rfind\<close>, \<open>Vec::remove\<close>\<close>

definition rposition :: "('a \<Rightarrow> bool) \<Rightarrow> 'a list \<Rightarrow> nat option" where
  "rposition P xs =
     (case dropWhile (\<lambda>x. \<not> P x) (rev xs) of [] \<Rightarrow> None | x # r \<Rightarrow> Some (length r))"

definition rfind :: "('a \<Rightarrow> bool) \<Rightarrow> 'a list \<Rightarrow> 'a option" where
  "rfind P xs = List.find P (rev xs)"

definition remove_at :: "nat \<Rightarrow> 'a list \<Rightarrow> 'a list" where
  "remove_at i xs = take i xs @ drop (Suc i) xs"

definition history_pop_undo :: "history \<Rightarrow> (history_entry option \<times> history) option" where
  "history_pop_undo h =
     (if transaction_depth h \<noteq> 0 then None
      else if undo_stack h = [] then Some (None, h)
      else
        let e = last (undo_stack h)
        in Some (Some e, h\<lparr>undo_stack := butlast (undo_stack h), redo_stack := redo_stack h @ [e]\<rparr>))"

definition history_pop_redo :: "history \<Rightarrow> (history_entry option \<times> history) option" where
  "history_pop_redo h =
     (if transaction_depth h \<noteq> 0 then None
      else if redo_stack h = [] then Some (None, h)
      else
        let e = last (redo_stack h)
        in Some (Some e, h\<lparr>redo_stack := butlast (redo_stack h), undo_stack := undo_stack h @ [e]\<rparr>))"

definition has_id :: "transaction_id \<Rightarrow> history_entry \<Rightarrow> bool" where
  "has_id tid e \<longleftrightarrow> transaction_id (transaction e) = tid"

definition history_remove_from_undo :: "history \<Rightarrow> transaction_id \<Rightarrow> (history_entry option \<times> history) option" where
  "history_remove_from_undo h tid =
     (if transaction_depth h \<noteq> 0 then None
      else
        (case rposition (has_id tid) (undo_stack h) of
           None \<Rightarrow> Some (None, h)
         | Some ix \<Rightarrow>
             let e = undo_stack h ! ix
             in Some (Some e, h\<lparr>undo_stack := remove_at ix (undo_stack h), redo_stack := redo_stack h @ [e]\<rparr>)))"

definition history_remove_from_undo_until :: "history \<Rightarrow> transaction_id \<Rightarrow> (history_entry list \<times> history) option" where
  "history_remove_from_undo_until h tid =
     (if transaction_depth h \<noteq> 0 then None
      else
        (case rposition (has_id tid) (undo_stack h) of
           None \<Rightarrow> Some ([], h)
         | Some ix \<Rightarrow>
             let es = rev (drop ix (undo_stack h))
             in Some (es, h\<lparr>undo_stack := take ix (undo_stack h), redo_stack := redo_stack h @ es\<rparr>)))"

definition history_remove_from_redo :: "history \<Rightarrow> transaction_id \<Rightarrow> (history_entry list \<times> history) option" where
  "history_remove_from_redo h tid =
     (if transaction_depth h \<noteq> 0 then None
      else
        (case rposition (has_id tid) (redo_stack h) of
           None \<Rightarrow> Some ([], h)
         | Some ix \<Rightarrow>
             let es = rev (drop ix (redo_stack h))
             in Some (es, h\<lparr>redo_stack := take ix (redo_stack h), undo_stack := undo_stack h @ es\<rparr>)))"

definition history_forget :: "history \<Rightarrow> transaction_id \<Rightarrow> (transaction option \<times> history) option" where
  "history_forget h tid =
     (if transaction_depth h \<noteq> 0 then None
      else
        (case rposition (has_id tid) (undo_stack h) of
           Some ix \<Rightarrow>
             Some (Some (transaction (undo_stack h ! ix)), h\<lparr>undo_stack := remove_at ix (undo_stack h)\<rparr>)
         | None \<Rightarrow>
             (case rposition (has_id tid) (redo_stack h) of
                Some ix \<Rightarrow>
                  Some (Some (transaction (redo_stack h ! ix)), h\<lparr>redo_stack := remove_at ix (redo_stack h)\<rparr>)
              | None \<Rightarrow> Some (None, h))))"

definition history_transaction :: "history \<Rightarrow> transaction_id \<Rightarrow> transaction option" where
  "history_transaction h tid =
     map_option transaction
       (case rfind (has_id tid) (undo_stack h) of
          Some e \<Rightarrow> Some e
        | None \<Rightarrow> rfind (has_id tid) (redo_stack h))"

text \<open>
  \<open>transaction_mut\<close> hands out a reference; the model applies the change \<open>f\<close> that the caller makes through it, and the
  result says whether there was such a transaction.
\<close>

definition update_entry :: "(transaction \<Rightarrow> transaction) \<Rightarrow> nat \<Rightarrow> history_entry list \<Rightarrow> history_entry list" where
  "update_entry f ix es = es[ix := (es ! ix)\<lparr>transaction := f (transaction (es ! ix))\<rparr>]"

definition history_transaction_mut ::
  "history \<Rightarrow> transaction_id \<Rightarrow> (transaction \<Rightarrow> transaction) \<Rightarrow> history option" where
  "history_transaction_mut h tid f =
     (case rposition (has_id tid) (undo_stack h) of
        Some ix \<Rightarrow> Some (h\<lparr>undo_stack := update_entry f ix (undo_stack h)\<rparr>)
      | None \<Rightarrow>
          (case rposition (has_id tid) (redo_stack h) of
             Some ix \<Rightarrow> Some (h\<lparr>redo_stack := update_entry f ix (redo_stack h)\<rparr>)
           | None \<Rightarrow> None))"

definition history_merge_transactions :: "history \<Rightarrow> transaction_id \<Rightarrow> transaction_id \<Rightarrow> history option" where
  "history_merge_transactions h tid destination = do {
     (forgotten, h) \<leftarrow> history_forget h tid;
     Some (case forgotten of
         None \<Rightarrow> h
       | Some t \<Rightarrow>
           (case history_transaction_mut h destination (\<lambda>d. d\<lparr>edit_ids := edit_ids d @ edit_ids t\<rparr>) of
              None \<Rightarrow> h
            | Some h \<Rightarrow> h))
   }"

end
