(* ===== verification/Buffer.thy ===== *)
theory Buffer
  imports Buffer_Remote History Subscription Operation_Queue
begin

text \<open>
  \<open>Buffer\<close> of \<open>crates/text/src/text.rs\<close>: a snapshot together with its history, the operations that cannot be applied
  yet, the clock, the subscriptions, and those who wait for edits or versions. A \<open>oneshot\<close> channel is a number, and
  \<open>signalled\<close> lists the channels on which a message was sent. The time is a parameter of the operations that read it.
\<close>

record buffer =
  snapshot :: buffer_snapshot
  buffer_history :: history
  deferred_ops :: "operation operation_queue"
  deferred_replicas :: "replica_id set"
  lamport_clock :: lamport
  subscriptions :: pubsub
  edit_id_resolvers :: "lamport \<Rightarrow> nat list"
  wait_for_version_txs :: "(global \<times> nat) list"
  next_channel :: nat
  signalled :: "nat list"

subsection \<open>New buffers\<close>

text \<open>The loop of \<open>new_normalized\<close>; it does not end when a piece is empty.\<close>

partial_function (option) initial_loop ::
  "nat \<Rightarrow> rope \<Rightarrow> lamport \<Rightarrow> nat \<Rightarrow> nat \<Rightarrow> locator \<Rightarrow> fragment_tree \<Rightarrow> insertion_tree \<Rightarrow> (fragment_tree \<times> insertion_tree) option" where
  "initial_loop max_len visible timestamp insertion_offset text_offset prev ft it =
     (if text_offset < rope_len visible then do {
        let target_end = min (rope_len visible) (text_offset + max_len);
        let chunk_end = (if target_end = rope_len visible then target_end else rope_floor_char_boundary visible target_end);
        let chunk_len = chunk_end - text_offset;
        let f = \<lparr>frag_id = between prev locator_max, frag_timestamp = timestamp, frag_offset = insertion_offset,
          frag_len = chunk_len, frag_visible = True, frag_deletions = [], frag_max_undos = global_new\<rparr>;
        it \<leftarrow> push insertion_ops it (insertion_fragment_new f);
        ft \<leftarrow> push fragment_ops ft f;
        initial_loop max_len visible timestamp (insertion_offset + chunk_len) chunk_end (frag_id f) ft it
      } else Some (ft, it))"

definition buffer_new_normalized ::
  "nat \<Rightarrow> duration \<Rightarrow> replica_id \<Rightarrow> u64 \<Rightarrow> line_ending \<Rightarrow> rope \<Rightarrow> buffer option" where
  "buffer_new_normalized max_len interval rid remote_id ending normalized = do {
     let h = history_new interval normalized;
     let visible = base_text h;
     (ft, it, version, clock) \<leftarrow>
       (if rope_is_empty visible then
          Some (tree_new fragment_ops, tree_new insertion_ops, global_new, lamport_new rid)
        else do {
          let timestamp = lamport_new LOCAL;
          (fs, is) \<leftarrow> initial_loop max_len visible timestamp 0 0 locator_min (tree_new fragment_ops) (tree_new insertion_ops);
          Some (fs, is, observe global_new timestamp, lamport_observe (lamport_new rid) timestamp)
        });
     Some \<lparr>snapshot = \<lparr>visible_text = visible, deleted_text = rope_new, fragments = ft, insertions = it,
         insertion_slices = map_default, undo_map = undo_map_default, snapshot_version = version, snapshot_remote_id = remote_id,
         snapshot_replica_id = rid, snapshot_line_ending = ending\<rparr>,
       buffer_history = h, deferred_ops = queue_new operation_timestamp, deferred_replicas = {}, lamport_clock = clock,
       subscriptions = topic_default, edit_id_resolvers = (\<lambda>_. []), wait_for_version_txs = [], next_channel = 0, signalled = []\<rparr>
   }"

text \<open>The line ending of a text without one is the native one.\<close>

definition buffer_new :: "nat \<Rightarrow> duration \<Rightarrow> line_ending \<Rightarrow> replica_id \<Rightarrow> u64 \<Rightarrow> str \<Rightarrow> buffer option" where
  "buffer_new max_len interval native rid remote_id t = do {
     r \<leftarrow> rope_from_str (normalize t);
     buffer_new_normalized max_len interval rid remote_id (line_ending_detect native t) r
   }"

definition buffer_branch :: "duration \<Rightarrow> buffer \<Rightarrow> buffer" where
  "buffer_branch interval b =
     \<lparr>snapshot = snapshot b, buffer_history = history_new interval (base_text (buffer_history b)),
      deferred_ops = queue_new operation_timestamp, deferred_replicas = {}, lamport_clock = lamport_new LOCAL_BRANCH,
      subscriptions = topic_default, edit_id_resolvers = (\<lambda>_. []), wait_for_version_txs = [], next_channel = 0, signalled = []\<rparr>"

definition buffer_version :: "buffer \<Rightarrow> global" where
  "buffer_version b = snapshot_version (snapshot b)"

definition set_line_ending :: "buffer \<Rightarrow> line_ending \<Rightarrow> buffer" where
  "set_line_ending b e = b\<lparr>snapshot := (snapshot b)\<lparr>snapshot_line_ending := e\<rparr>\<rparr>"

definition observe_version :: "buffer \<Rightarrow> lamport \<Rightarrow> buffer" where
  "observe_version b t = b\<lparr>snapshot := (snapshot b)\<lparr>snapshot_version := observe (snapshot_version (snapshot b)) t\<rparr>\<rparr>"

subsection \<open>Transactions and local edits\<close>

definition start_transaction_at :: "buffer \<Rightarrow> instant \<Rightarrow> transaction_id option \<times> buffer" where
  "start_transaction_at b now =
     (let (tid, h, clock) = history_start_transaction (buffer_history b) (buffer_version b) now (lamport_clock b)
      in (tid, b\<lparr>buffer_history := h, lamport_clock := clock\<rparr>))"

definition end_transaction_at :: "buffer \<Rightarrow> instant \<Rightarrow> ((transaction_id \<times> global) option \<times> buffer) option" where
  "end_transaction_at b now = do {
     (entry, h) \<leftarrow> history_end_transaction (buffer_history b) now;
     case entry of
       None \<Rightarrow> Some (None, b\<lparr>buffer_history := h\<rparr>)
     | Some e \<Rightarrow> do {
         (grouped, h) \<leftarrow> history_group h;
         tid \<leftarrow> grouped;
         Some (Some (tid, transaction_start (transaction e)), b\<lparr>buffer_history := h\<rparr>)
       }
   }"

text \<open>\<open>usize::to_offset\<close> moves an offset inside a character to the start of the character.\<close>

definition offset_in :: "buffer_snapshot \<Rightarrow> nat \<Rightarrow> nat" where
  "offset_in s i = (if \<not> rope_is_char_boundary (visible_text s) i then rope_floor_char_boundary (visible_text s) i else i)"

definition apply_local_edit :: "nat \<Rightarrow> buffer \<Rightarrow> text_edit list \<Rightarrow> lamport \<Rightarrow> (edit_operation \<times> buffer) option" where
  "apply_local_edit max_len b edits timestamp = do {
     let edits = map (\<lambda>((x, y), t). ((offset_in (snapshot b) x, offset_in (snapshot b) y), t)) edits;
     (s, op, patch) \<leftarrow> apply_edit_internal max_len (snapshot b) edits timestamp;
     subs \<leftarrow> publish_mut (subscriptions b) patch;
     Some (op, b\<lparr>snapshot := s, subscriptions := subs\<rparr>)
   }"

definition buffer_edit :: "nat \<Rightarrow> instant \<Rightarrow> instant \<Rightarrow> buffer \<Rightarrow> text_edit list \<Rightarrow> (operation \<times> buffer) option" where
  "buffer_edit max_len now now' b edits = do {
     let (_, b) = start_transaction_at b now;
     let (timestamp, clock) = tick (lamport_clock b);
     (op, b) \<leftarrow> apply_local_edit max_len (b\<lparr>lamport_clock := clock\<rparr>) edits timestamp;
     let op = Edit op;
     h \<leftarrow> history_push (buffer_history b) op;
     h \<leftarrow> history_push_undo h (operation_timestamp op);
     let b = observe_version (b\<lparr>buffer_history := h\<rparr>) (operation_timestamp op);
     (_, b) \<leftarrow> end_transaction_at b now';
     Some (op, b)
   }"

subsection \<open>Waiting\<close>

fun wait_for_edits :: "buffer \<Rightarrow> lamport list \<Rightarrow> nat list \<times> buffer" where
  "wait_for_edits b [] = ([], b)"
| "wait_for_edits b (e # es) =
     (if observed (buffer_version b) e then wait_for_edits b es
      else
        let n = next_channel b;
            (futures, b') = wait_for_edits
              (b\<lparr>edit_id_resolvers := (edit_id_resolvers b)(e := edit_id_resolvers b e @ [n]), next_channel := Suc n\<rparr>) es
        in (n # futures, b'))"

definition wait_for_version :: "buffer \<Rightarrow> global \<Rightarrow> nat option \<times> buffer" where
  "wait_for_version b version =
     (if observed_all (buffer_version b) version then (None, b)
      else
        let n = next_channel b
        in (Some n, b\<lparr>wait_for_version_txs := wait_for_version_txs b @ [(version, n)], next_channel := Suc n\<rparr>))"

definition give_up_waiting :: "buffer \<Rightarrow> buffer" where
  "give_up_waiting b = b\<lparr>edit_id_resolvers := (\<lambda>_. []), wait_for_version_txs := []\<rparr>"

definition resolve_edit :: "buffer \<Rightarrow> lamport \<Rightarrow> buffer" where
  "resolve_edit b e =
     b\<lparr>edit_id_resolvers := (edit_id_resolvers b)(e := []), signalled := signalled b @ edit_id_resolvers b e\<rparr>"

text \<open>\<open>retain_mut\<close> at the end of \<open>apply_op\<close>\<close>

definition resolve_versions :: "buffer \<Rightarrow> buffer" where
  "resolve_versions b =
     (let ready = (\<lambda>(version, tx). observed_all (buffer_version b) version)
      in b\<lparr>wait_for_version_txs := filter (\<lambda>w. \<not> ready w) (wait_for_version_txs b),
           signalled := signalled b @ map snd (filter ready (wait_for_version_txs b))\<rparr>)"

subsection \<open>Operations of other replicas\<close>

definition can_apply_op :: "buffer \<Rightarrow> operation \<Rightarrow> bool" where
  "can_apply_op b op \<longleftrightarrow>
     (if operation_replica_id op \<in> deferred_replicas b then False
      else observed_all (buffer_version b) (operation_version op))"

definition publish_change :: "buffer \<Rightarrow> buffer_snapshot \<times> patch \<Rightarrow> buffer option" where
  "publish_change b change = do {
     let (s, patch) = change;
     subs \<leftarrow> publish_mut (subscriptions b) patch;
     Some (b\<lparr>snapshot := s, subscriptions := subs\<rparr>)
   }"

text \<open>
  \<open>apply_remote_edit\<close> returns before it publishes when there are no ranges; publishing the empty patch changes no patch, but
  drops the dead subscriptions, so the two cases are kept apart.
\<close>

definition buffer_remote_edit :: "nat \<Rightarrow> buffer \<Rightarrow> edit_operation \<Rightarrow> buffer option" where
  "buffer_remote_edit max_len b e =
     (if edit_ranges e = [] then Some b
      else do {
        change \<leftarrow> apply_remote_edit max_len (snapshot b) (edit_version e) (edit_ranges e) (edit_new_text e) (edit_timestamp e);
        publish_change b change
      })"

definition buffer_apply_undo :: "buffer \<Rightarrow> undo_operation \<Rightarrow> buffer option" where
  "buffer_apply_undo b undo = do { change \<leftarrow> apply_undo (snapshot b) undo; publish_change b change }"

definition observe_op :: "buffer \<Rightarrow> lamport \<Rightarrow> buffer" where
  "observe_op b t = (observe_version b t)\<lparr>lamport_clock := lamport_observe (lamport_clock b) t\<rparr>"

fun apply_op :: "nat \<Rightarrow> buffer \<Rightarrow> operation \<Rightarrow> buffer option" where
  "apply_op max_len b (Edit e) = do {
     b \<leftarrow> (if observed (buffer_version b) (edit_timestamp e) then Some b
       else do {
         b \<leftarrow> buffer_remote_edit max_len b e;
         Some (resolve_edit (observe_op b (edit_timestamp e)) (edit_timestamp e))
       });
     Some (resolve_versions b)
   }"
| "apply_op max_len b (Undo u) = do {
     b \<leftarrow> (if observed (buffer_version b) (undo_timestamp u) then Some b
       else do { b \<leftarrow> buffer_apply_undo b u; Some (observe_op b (undo_timestamp u)) });
     Some (resolve_versions b)
   }"

definition defer_op :: "buffer \<Rightarrow> operation \<Rightarrow> buffer" where
  "defer_op b op = b\<lparr>deferred_replicas := insert (operation_replica_id op) (deferred_replicas b)\<rparr>"

fun flush_loop :: "nat \<Rightarrow> buffer \<Rightarrow> operation list \<Rightarrow> operation list \<Rightarrow> (buffer \<times> operation list) option" where
  "flush_loop max_len b deferred [] = Some (b, deferred)"
| "flush_loop max_len b deferred (op # ops) =
     (if can_apply_op b op then do { b \<leftarrow> apply_op max_len b op; flush_loop max_len b deferred ops }
      else flush_loop max_len (defer_op b op) (deferred @ [op]) ops)"

definition flush_deferred_ops :: "nat \<Rightarrow> buffer \<Rightarrow> buffer option" where
  "flush_deferred_ops max_len b = do {
     let (q, drained) = queue_drain operation_timestamp (deferred_ops b);
     let b = b\<lparr>deferred_replicas := {}, deferred_ops := q\<rparr>;
     (b, deferred) \<leftarrow> flush_loop max_len b [] (queue_iter_run (queue_len drained + 1) drained);
     q \<leftarrow> queue_insert operation_timestamp (deferred_ops b) deferred;
     Some (b\<lparr>deferred_ops := q\<rparr>)
   }"

fun apply_ops_loop :: "nat \<Rightarrow> buffer \<Rightarrow> operation list \<Rightarrow> operation list \<Rightarrow> (buffer \<times> operation list) option" where
  "apply_ops_loop max_len b deferred [] = Some (b, deferred)"
| "apply_ops_loop max_len b deferred (op # ops) = do {
     h \<leftarrow> history_push (buffer_history b) op;
     let b = b\<lparr>buffer_history := h\<rparr>;
     if can_apply_op b op then do { b \<leftarrow> apply_op max_len b op; apply_ops_loop max_len b deferred ops }
     else apply_ops_loop max_len (defer_op b op) (deferred @ [op]) ops
   }"

definition apply_ops :: "nat \<Rightarrow> buffer \<Rightarrow> operation list \<Rightarrow> buffer option" where
  "apply_ops max_len b ops = do {
     (b, deferred) \<leftarrow> apply_ops_loop max_len b [] ops;
     q \<leftarrow> queue_insert operation_timestamp (deferred_ops b) deferred;
     flush_deferred_ops max_len (b\<lparr>deferred_ops := q\<rparr>)
   }"

definition has_deferred_ops :: "buffer \<Rightarrow> bool" where
  "has_deferred_ops b \<longleftrightarrow> \<not> queue_is_empty (deferred_ops b)"

subsection \<open>Undo and redo\<close>

definition saturating_succ :: "u32 \<Rightarrow> u32" where
  "saturating_succ n = (if n = - 1 then n else n + 1)"

definition undo_operations :: "buffer \<Rightarrow> (lamport \<times> u32) list \<Rightarrow> (operation \<times> buffer) option" where
  "undo_operations b new_counts = do {
     let (timestamp, clock) = tick (lamport_clock b);
     let version = buffer_version b;
     let b = observe_version (b\<lparr>lamport_clock := clock\<rparr>) timestamp;
     let undo = \<lparr>undo_timestamp = timestamp, undo_version = version, undo_counts = new_counts\<rparr>;
     b \<leftarrow> buffer_apply_undo b undo;
     Some (Undo undo, b)
   }"

text \<open>The counts are a hash map, so an edit that occurs twice is counted once.\<close>

fun undo_counts_of :: "undo_map \<Rightarrow> lamport list \<Rightarrow> (lamport \<times> u32) list option" where
  "undo_counts_of m [] = Some []"
| "undo_counts_of m (e # es) = do {
     n \<leftarrow> undo_count m e;
     rest \<leftarrow> undo_counts_of m es;
     Some ((e, saturating_succ n) # rest)
   }"

definition undo_or_redo :: "buffer \<Rightarrow> transaction \<Rightarrow> (operation \<times> buffer) option" where
  "undo_or_redo b t = do {
     new_counts \<leftarrow> undo_counts_of (undo_map (snapshot b)) (remdups (edit_ids t));
     (op, b) \<leftarrow> undo_operations b new_counts;
     h \<leftarrow> history_push (buffer_history b) op;
     Some (op, b\<lparr>buffer_history := h\<rparr>)
   }"

definition buffer_undo :: "buffer \<Rightarrow> ((transaction_id \<times> operation) option \<times> buffer) option" where
  "buffer_undo b = do {
     (entry, h) \<leftarrow> history_pop_undo (buffer_history b);
     let b = b\<lparr>buffer_history := h\<rparr>;
     case entry of
       None \<Rightarrow> Some (None, b)
     | Some e \<Rightarrow> do { (op, b) \<leftarrow> undo_or_redo b (transaction e); Some (Some (entry_transaction_id e, op), b) }
   }"

definition buffer_redo :: "buffer \<Rightarrow> ((transaction_id \<times> operation) option \<times> buffer) option" where
  "buffer_redo b = do {
     (entry, h) \<leftarrow> history_pop_redo (buffer_history b);
     let b = b\<lparr>buffer_history := h\<rparr>;
     case entry of
       None \<Rightarrow> Some (None, b)
     | Some e \<Rightarrow> do { (op, b) \<leftarrow> undo_or_redo b (transaction e); Some (Some (entry_transaction_id e, op), b) }
   }"

fun undo_all :: "buffer \<Rightarrow> history_entry list \<Rightarrow> (operation list \<times> buffer) option" where
  "undo_all b [] = Some ([], b)"
| "undo_all b (e # es) = do {
     (op, b) \<leftarrow> undo_or_redo b (transaction e);
     (ops, b) \<leftarrow> undo_all b es;
     Some (op # ops, b)
   }"

definition undo_transaction :: "buffer \<Rightarrow> transaction_id \<Rightarrow> (operation option \<times> buffer) option" where
  "undo_transaction b tid = do {
     (entry, h) \<leftarrow> history_remove_from_undo (buffer_history b) tid;
     let b = b\<lparr>buffer_history := h\<rparr>;
     case entry of
       None \<Rightarrow> Some (None, b)
     | Some e \<Rightarrow> do { (op, b) \<leftarrow> undo_or_redo b (transaction e); Some (Some op, b) }
   }"

definition undo_to_transaction :: "buffer \<Rightarrow> transaction_id \<Rightarrow> (operation list \<times> buffer) option" where
  "undo_to_transaction b tid = do {
     (entries, h) \<leftarrow> history_remove_from_undo_until (buffer_history b) tid;
     undo_all (b\<lparr>buffer_history := h\<rparr>) entries
   }"

definition redo_to_transaction :: "buffer \<Rightarrow> transaction_id \<Rightarrow> (operation list \<times> buffer) option" where
  "redo_to_transaction b tid = do {
     (entries, h) \<leftarrow> history_remove_from_redo (buffer_history b) tid;
     undo_all (b\<lparr>buffer_history := h\<rparr>) entries
   }"

subsection \<open>The other operations on transactions\<close>

definition buffer_finalize_last_transaction :: "buffer \<Rightarrow> transaction option \<times> buffer" where
  "buffer_finalize_last_transaction b =
     (let (t, h) = history_finalize_last_transaction (buffer_history b) in (t, b\<lparr>buffer_history := h\<rparr>))"

definition group_until_transaction :: "buffer \<Rightarrow> transaction_id \<Rightarrow> buffer option" where
  "group_until_transaction b tid =
     map_option (\<lambda>h. b\<lparr>buffer_history := h\<rparr>) (history_group_until (buffer_history b) tid)"

definition forget_transaction :: "buffer \<Rightarrow> transaction_id \<Rightarrow> (transaction option \<times> buffer) option" where
  "forget_transaction b tid =
     map_option (\<lambda>(t, h). (t, b\<lparr>buffer_history := h\<rparr>)) (history_forget (buffer_history b) tid)"

definition get_transaction :: "buffer \<Rightarrow> transaction_id \<Rightarrow> transaction option" where
  "get_transaction b tid = history_transaction (buffer_history b) tid"

definition merge_transactions :: "buffer \<Rightarrow> transaction_id \<Rightarrow> transaction_id \<Rightarrow> buffer option" where
  "merge_transactions b tid destination =
     map_option (\<lambda>h. b\<lparr>buffer_history := h\<rparr>) (history_merge_transactions (buffer_history b) tid destination)"

definition push_transaction :: "buffer \<Rightarrow> transaction \<Rightarrow> instant \<Rightarrow> buffer option" where
  "push_transaction b t now =
     map_option (\<lambda>h. b\<lparr>buffer_history := h\<rparr>) (history_push_transaction (buffer_history b) t now)"

definition push_empty_transaction :: "buffer \<Rightarrow> instant \<Rightarrow> (transaction_id \<times> buffer) option" where
  "push_empty_transaction b now =
     map_option (\<lambda>(tid, h, clock). (tid, b\<lparr>buffer_history := h, lamport_clock := clock\<rparr>))
       (history_push_empty_transaction (buffer_history b) (buffer_version b) now (lamport_clock b))"

definition set_group_interval :: "buffer \<Rightarrow> duration \<Rightarrow> buffer" where
  "set_group_interval b interval = b\<lparr>buffer_history := (buffer_history b)\<lparr>group_interval := interval\<rparr>\<rparr>"

definition peek_undo_stack :: "buffer \<Rightarrow> history_entry option" where
  "peek_undo_stack b = (if undo_stack (buffer_history b) = [] then None else Some (last (undo_stack (buffer_history b))))"

definition peek_redo_stack :: "buffer \<Rightarrow> history_entry option" where
  "peek_redo_stack b = (if redo_stack (buffer_history b) = [] then None else Some (last (redo_stack (buffer_history b))))"

definition buffer_subscribe :: "buffer \<Rightarrow> nat \<times> buffer" where
  "buffer_subscribe b = (let (r, subs) = subscribe (subscriptions b) in (r, b\<lparr>subscriptions := subs\<rparr>))"

subsection \<open>Edits on a copy of the snapshot\<close>

record edited_buffer_snapshot =
  base_version :: global
  edited_snapshot :: buffer_snapshot
  did_edit :: bool

definition snapshot_with_edits :: "nat \<Rightarrow> buffer \<Rightarrow> text_edit list \<Rightarrow> (edited_buffer_snapshot \<times> buffer) option" where
  "snapshot_with_edits max_len b edits =
     (let edits = map (\<lambda>((x, y), t). ((offset_in (snapshot b) x, offset_in (snapshot b) y), t)) edits
      in if edits = [] then
           Some (\<lparr>base_version = buffer_version b, edited_snapshot = snapshot b, did_edit = False\<rparr>, b)
         else do {
           let (timestamp, clock) = tick (lamport_clock b);
           (s, op, patch) \<leftarrow> apply_edit_internal max_len (snapshot b) edits timestamp;
           let s = s\<lparr>snapshot_version := observe (snapshot_version s) timestamp\<rparr>;
           Some (\<lparr>base_version = buffer_version b, edited_snapshot = s, did_edit = True\<rparr>, b\<lparr>lamport_clock := clock\<rparr>)
         })"

definition fast_forward :: "buffer \<Rightarrow> edited_buffer_snapshot \<Rightarrow> buffer option" where
  "fast_forward b e =
     (if changed_since (buffer_version b) (base_version e) then None
      else Some (b\<lparr>snapshot := edited_snapshot e,
        lamport_clock := foldl lamport_observe (lamport_clock b) (global_iter (snapshot_version (edited_snapshot e)))\<rparr>))"

end
