(* ===== verification/History_Properties.thy ===== *)
theory History_Properties
  imports History
begin

text \<open>
  The properties of the undo history: what the stacks hold after any sequence of calls, that no call panics when it is
  allowed, that grouping merges exactly the longest run of close transactions, and that redoing restores what was undone.
\<close>

subsection \<open>Positions from the end\<close>

lemma rposition_simps [simp]:
  "rposition P [] = None"
  "rposition P (xs @ [x]) = (if P x then Some (length xs) else rposition P xs)"
  by (simp_all add: rposition_def)

lemma rposition_None_iff: "rposition P xs = None \<longleftrightarrow> (\<forall>x \<in> set xs. \<not> P x)"
  by (induction xs rule: rev_induct) auto

lemma rposition_SomeD:
  "rposition P xs = Some i \<Longrightarrow> i < length xs \<and> P (xs ! i) \<and> (\<forall>x \<in> set (drop (Suc i) xs). \<not> P x)"
proof (induction xs rule: rev_induct)
  case (snoc x xs)
  show ?case
  proof (cases "P x")
    case True
    with snoc.prems show ?thesis by (auto simp: nth_append)
  next
    case False
    with snoc.prems snoc.IH have "i < length xs \<and> P (xs ! i) \<and> (\<forall>x \<in> set (drop (Suc i) xs). \<not> P x)" by simp
    then show ?thesis using False by (auto simp: nth_append)
  qed
qed simp

lemma rposition_found:
  assumes "P x" "\<forall>y \<in> set ys. \<not> P y"
  shows "rposition P (xs @ x # ys) = Some (length xs)"
  using assms by (induction ys rule: rev_induct) (auto simp flip: append_Cons append_assoc simp: rposition_simps)

lemma remove_at_split:
  assumes "i < length xs"
  shows "xs = take i xs @ xs ! i # drop (Suc i) xs" "remove_at i xs = take i xs @ drop (Suc i) xs"
  using assms by (simp_all add: remove_at_def id_take_nth_drop)

subsection \<open>What the stacks hold\<close>

definition stacks :: "history \<Rightarrow> history_entry list" where
  "stacks h = undo_stack h @ redo_stack h"

definition stack_ids :: "history_entry list \<Rightarrow> lamport list" where
  "stack_ids es = map entry_transaction_id es"

definition stack_edits :: "history_entry list \<Rightarrow> lamport list" where
  "stack_edits es = concat (map (edit_ids \<circ> transaction) es)"

lemma stack_simps [simp]:
  "stack_ids [] = []" "stack_ids (e # es) = entry_transaction_id e # stack_ids es"
  "stack_ids (es @ fs) = stack_ids es @ stack_ids fs" "stack_ids (rev es) = rev (stack_ids es)"
  "stack_edits [] = []" "stack_edits (e # es) = edit_ids (transaction e) @ stack_edits es"
  "stack_edits (es @ fs) = stack_edits es @ stack_edits fs"
  by (simp_all add: stack_ids_def stack_edits_def rev_map)

text \<open>The invariant: ids and edits are distinct and below the clock, and an open transaction is on the undo stack.\<close>

definition stacks_ok :: "lamport \<Rightarrow> history_entry list \<Rightarrow> bool" where
  "stacks_ok clock es \<longleftrightarrow> distinct (stack_ids es) \<and> distinct (stack_edits es) \<and>
     (\<forall>t \<in> set (stack_ids es) \<union> set (stack_edits es). t < clock)"

definition history_ok :: "history \<Rightarrow> lamport \<Rightarrow> bool" where
  "history_ok h clock \<longleftrightarrow> stacks_ok clock (stacks h) \<and> map_inv (operations h) \<and>
     (transaction_depth h \<noteq> 0 \<longrightarrow> undo_stack h \<noteq> [])"

text \<open>A change of the stacks that permutes entries or drops some of them keeps the invariant.\<close>

lemma stack_edits_mset: "mset (stack_edits es) = sum_mset (image_mset (mset \<circ> edit_ids \<circ> transaction) (mset es))"
  by (induction es) (auto simp: stack_edits_def)

lemma stacks_ok_sub:
  assumes "stacks_ok clock es" "mset fs \<subseteq># mset es"
  shows "stacks_ok clock fs"
proof -
  have ids: "mset (stack_ids fs) \<subseteq># mset (stack_ids es)"
    using image_mset_subseteq_mono [OF assms(2), of entry_transaction_id] by (simp add: stack_ids_def)
  obtain gs where "mset es = mset fs + gs" using assms(2) by (metis mset_subset_eq_exists_conv)
  then have edits: "mset (stack_edits fs) \<subseteq># mset (stack_edits es)" by (simp add: stack_edits_mset)
  show ?thesis
    using assms(1) distinct_submset [OF _ ids] distinct_submset [OF _ edits] unfolding stacks_ok_def by blast
qed

lemma stacks_ok_perm: "stacks_ok clock es \<Longrightarrow> mset fs = mset es \<Longrightarrow> stacks_ok clock fs"
  by (erule stacks_ok_sub) (simp add: subset_mset.order_refl)

lemma stacks_ok_clock: "stacks_ok clock es \<Longrightarrow> clock \<le> clock' \<Longrightarrow> stacks_ok clock' es"
  unfolding stacks_ok_def by (blast intro: less_le_trans)

subsection \<open>Every call keeps the invariant\<close>

lemma stacks_ok_less:
  assumes "stacks_ok clock es" "mset (stack_ids fs) \<subseteq># mset (stack_ids es)" "mset (stack_edits fs) \<subseteq># mset (stack_edits es)"
  shows "stacks_ok clock fs"
  using assms(1) distinct_submset [OF _ assms(2)] distinct_submset [OF _ assms(3)] unfolding stacks_ok_def by blast

lemma history_okI:
  "stacks_ok clock (undo_stack h @ redo_stack h) \<Longrightarrow> map_inv (operations h) \<Longrightarrow>
    (transaction_depth h = 0 \<or> undo_stack h \<noteq> []) \<Longrightarrow> history_ok h clock"
  by (auto simp: history_ok_def stacks_def)

lemma history_okD:
  assumes "history_ok h clock"
  shows "stacks_ok clock (undo_stack h @ redo_stack h)" "map_inv (operations h)"
    "transaction_depth h = 0 \<or> undo_stack h \<noteq> []"
  using assms by (auto simp: history_ok_def stacks_def)

lemma stacks_ok_new:
  assumes "stacks_ok clock es" "clock < clock'"
  shows "stacks_ok clock' (new_entry \<lparr>transaction_id = clock, edit_ids = [], transaction_start = v\<rparr> now # es)"
  using assms unfolding stacks_ok_def
  by (auto simp: new_entry_def entry_transaction_id_def dest: less_trans)

lemma tick_less: "tvalue clock < - 1 \<Longrightarrow> clock < snd (tick clock)"
  by (simp add: tick_def lamport_less_iff word_less_add_1)

lemma last_removed: "xs \<noteq> [] \<Longrightarrow> mset xs = add_mset (last xs) (mset (butlast xs))"
  by (cases xs rule: rev_cases) auto

lemma start_ok:
  assumes "history_ok h clock" "tvalue clock < - 1" "history_start_transaction h v now clock = (r, h', clock')"
  shows "history_ok h' clock'"
proof (cases "transaction_depth h = 0")
  case True
  let ?e = "new_entry \<lparr>transaction_id = clock, edit_ids = [], transaction_start = v\<rparr> now"
  have eq: "h' = h\<lparr>transaction_depth := 1, undo_stack := undo_stack h @ [?e]\<rparr>" "clock' = snd (tick clock)"
    using assms(3) True by (auto simp: history_start_transaction_def tick_def)
  have "stacks_ok clock' (?e # undo_stack h @ redo_stack h)"
    unfolding eq by (intro stacks_ok_new history_okD assms tick_less)
  then have "stacks_ok clock' (undo_stack h' @ redo_stack h')" by (rule stacks_ok_perm) (simp add: eq)
  then show ?thesis using history_okD(2) [OF assms(1)] by (intro history_okI) (simp_all add: eq)
next
  case False
  then have "h' = h\<lparr>transaction_depth := transaction_depth h + 1\<rparr>" "clock' = clock"
    using assms(3) by (auto simp: history_start_transaction_def)
  then show ?thesis using history_okD [OF assms(1)] False by (intro history_okI) simp_all
qed

lemma end_ok:
  assumes "history_ok h clock" "history_end_transaction h now = Some (r, h')"
  shows "history_ok h' clock"
proof -
  note ok = history_okD [OF assms(1)]
  let ?e = "(last (undo_stack h))\<lparr>last_edit_at := now\<rparr>"
  consider (inner) "h' = h\<lparr>transaction_depth := transaction_depth h - 1\<rparr>" "undo_stack h \<noteq> []"
    | (dropped) "h' = h\<lparr>transaction_depth := 0, undo_stack := butlast (undo_stack h)\<rparr>" "undo_stack h \<noteq> []"
    | (closed) "h' = h\<lparr>transaction_depth := 0, redo_stack := [], undo_stack := butlast (undo_stack h) @ [?e]\<rparr>" "undo_stack h \<noteq> []"
    using assms(2) ok(3) by (auto simp: history_end_transaction_def Let_def split: if_splits)
  then show ?thesis
  proof cases
    case inner
    then show ?thesis using ok by (intro history_okI) simp_all
  next
    case dropped
    have "stacks_ok clock (butlast (undo_stack h) @ redo_stack h)"
      by (rule stacks_ok_sub [OF ok(1)]) (simp add: last_removed [OF dropped(2)])
    then show ?thesis using ok by (intro history_okI) (simp_all add: dropped)
  next
    case closed
    obtain xs e where u: "undo_stack h = xs @ [e]" using closed(2) by (cases "undo_stack h" rule: rev_cases) auto
    have "stacks_ok clock (xs @ [e\<lparr>last_edit_at := now\<rparr>])"
      by (rule stacks_ok_less [OF ok(1)]) (simp_all add: u entry_transaction_id_def)
    then show ?thesis using ok by (intro history_okI) (simp_all add: closed(1) u)
  qed
qed

lemma edit_ok:
  assumes "history_ok h clock" "tvalue clock < - 1" "history_push h op = Some h1" "operation_timestamp op = clock"
    "history_push_undo h1 clock = Some h'"
  shows "history_ok h' (snd (tick clock))"
proof -
  note ok = history_okD [OF assms(1)]
  obtain ops where ops: "map_insert (operations h) clock op = Some ops" "map_inv ops"
    using map_insert_or_replace_spec [OF ok(2)] by blast
  have h1: "h1 = h\<lparr>operations := ops\<rparr>" using assms(3,4) ops(1) by (simp add: history_push_def)
  have later: "stacks_ok (snd (tick clock)) (undo_stack h @ redo_stack h)"
    using stacks_ok_clock [OF ok(1)] tick_less [OF assms(2)] by simp
  consider "h' = h1" | "undo_stack h \<noteq> []"
    "h' = h1\<lparr>undo_stack := butlast (undo_stack h) @ [push_edit_id (last (undo_stack h)) clock]\<rparr>"
    using assms(5) by (auto simp: history_push_undo_def h1 split: if_splits option.splits operation.splits)
  then show ?thesis
  proof cases
    case 1
    then show ?thesis using later ops(2) ok by (intro history_okI) (simp_all add: h1)
  next
    case 2
    obtain xs e where u: "undo_stack h = xs @ [e]" using 2(1) by (cases "undo_stack h" rule: rev_cases) auto
    have new: "clock \<notin> set (stack_edits (undo_stack h @ redo_stack h))" using ok(1) unfolding stacks_ok_def by blast
    have "stacks_ok (snd (tick clock)) (xs @ push_edit_id e clock # redo_stack h)"
      using later new tick_less [OF assms(2)]
      by (auto simp: stacks_ok_def u push_edit_id_def entry_transaction_id_def)
    then show ?thesis using ops(2) ok by (intro history_okI) (simp_all add: 2(2) h1 u)
  qed
qed

lemma push_ok:
  assumes "history_ok h clock" "history_push h op = Some h'"
  shows "history_ok h' clock"
proof -
  note ok = history_okD [OF assms(1)]
  obtain ops where "map_insert (operations h) (operation_timestamp op) op = Some ops" "map_inv ops"
    using map_insert_or_replace_spec [OF ok(2)] by blast
  then show ?thesis using assms(2) ok by (intro history_okI) (auto simp: history_push_def)
qed

lemma absorb_simps [simp]:
  "entry_transaction_id (absorb_entries e es) = entry_transaction_id e"
  "edit_ids (transaction (absorb_entries e es)) = edit_ids (transaction e) @ stack_edits es"
  "first_edit_at (absorb_entries e es) = first_edit_at e"
  "suppress_grouping (absorb_entries e es) = suppress_grouping e"
  "last_edit_at (absorb_entries e es) = (if es = [] then last_edit_at e else last_edit_at (last es))"
  by (simp_all add: absorb_entries_def entry_transaction_id_def stack_edits_def Let_def)

lemma group_trailing_eq:
  assumes "undo_stack h = xs @ e # ys"
  shows "group_trailing h (length ys) = Some (Some (entry_transaction_id e), h\<lparr>undo_stack := xs @ [absorb_entries e ys]\<rparr>)"
  using assms by (simp add: group_trailing_def last_opt_def Let_def)

lemma group_trailing_0: "group_trailing h 0 = Some (map_option entry_transaction_id (last_opt (undo_stack h)), h)"
proof (cases "undo_stack h" rule: rev_cases)
  case (snoc xs e)
  then show ?thesis using group_trailing_eq [of h xs e "[]"] by (simp add: absorb_entries_def stack_edits_def last_opt_def)
qed (simp add: group_trailing_def last_opt_def)

lemma group_count_less: "group_count iv e es \<le> length es"
  by (induction iv e es rule: group_count.induct) auto

lemma until_count_less: "until_count tid es n = Some k \<Longrightarrow> n \<le> k \<and> k < n + length es"
  by (induction es arbitrary: n) (fastforce split: if_splits)+

lemma group_trailing_ok:
  assumes "history_ok h clock" "n < length (undo_stack h)"
  shows "\<exists>r h'. group_trailing h n = Some (r, h') \<and> history_ok h' clock \<and> transaction_depth h' = transaction_depth h"
proof -
  note ok = history_okD [OF assms(1)]
  let ?i = "length (undo_stack h) - Suc n"
  obtain xs e ys where u: "undo_stack h = xs @ e # ys" "length ys = n"
    using assms(2) id_take_nth_drop [of ?i "undo_stack h"] by (metis Suc_diff_Suc diff_less length_drop
        diff_diff_cancel less_imp_le zero_less_Suc length_greater_0_conv list.size(3) not_less_zero Suc_leI)
  have "stacks_ok clock (xs @ absorb_entries e ys # redo_stack h)"
    by (rule stacks_ok_less [OF ok(1)]) (simp_all add: u)
  then have "history_ok (h\<lparr>undo_stack := xs @ [absorb_entries e ys]\<rparr>) clock"
    using ok by (intro history_okI) simp_all
  then show ?thesis using group_trailing_eq [OF u(1)] u(2) by auto
qed

text \<open>Grouping keeps whatever merging some of the entries at the top keeps.\<close>

lemma group_keeps:
  assumes "P h" "\<And>n. n < length (undo_stack h) \<Longrightarrow> \<exists>r h'. group_trailing h n = Some (r, h') \<and> P h'"
  shows "\<exists>r h'. history_group h = Some (r, h') \<and> P h'"
    and "\<exists>h'. history_group_until h tid = Some h' \<and> P h'"
proof -
  show "\<exists>r h'. history_group h = Some (r, h') \<and> P h'"
  proof (cases "rev (undo_stack h)")
    case Nil
    then show ?thesis using assms(1) by (simp add: history_group_def group_trailing_0)
  next
    case (Cons e es)
    have "length (undo_stack h) = Suc (length es)" using arg_cong [OF Cons, of length] by simp
    then have "group_count (group_interval h) e es < length (undo_stack h)"
      using group_count_less [of "group_interval h" e es] by simp
    then show ?thesis using assms(2) by (simp add: history_group_def Cons)
  qed
  show "\<exists>h'. history_group_until h tid = Some h' \<and> P h'"
  proof (cases "until_count tid (rev (undo_stack h)) 0")
    case None
    then show ?thesis using assms(1) by (simp add: history_group_until_def)
  next
    case (Some k)
    then have "k < length (undo_stack h)" using until_count_less by fastforce
    then show ?thesis using assms(2) [of k] by (auto simp: history_group_until_def Some)
  qed
qed

lemma group_ok:
  assumes "history_ok h clock"
  shows "\<exists>r h'. history_group h = Some (r, h') \<and> history_ok h' clock"
    and "\<exists>h'. history_group_until h tid = Some h' \<and> history_ok h' clock"
  by (rule group_keeps [where P = "\<lambda>h. history_ok h clock", OF assms]; use group_trailing_ok [OF assms] in blast)+

lemma finalize_ok:
  assumes "history_ok h clock" "history_finalize_last_transaction h = (r, h')"
  shows "history_ok h' clock"
proof (cases "undo_stack h" rule: rev_cases)
  case Nil
  then show ?thesis using assms by (simp add: history_finalize_last_transaction_def)
next
  case (snoc xs e)
  note ok = history_okD [OF assms(1)]
  have "stacks_ok clock (xs @ e\<lparr>suppress_grouping := True\<rparr> # redo_stack h)"
    by (rule stacks_ok_less [OF ok(1)]) (simp_all add: snoc entry_transaction_id_def)
  then show ?thesis using assms(2) ok
    by (intro history_okI) (auto simp: history_finalize_last_transaction_def snoc)
qed

lemma push_empty_ok:
  assumes "history_ok h clock" "tvalue clock < - 1" "history_push_empty_transaction h v now clock = Some (r, h', clock')"
  shows "history_ok h' clock'"
proof -
  let ?e = "new_entry \<lparr>transaction_id = clock, edit_ids = [], transaction_start = v\<rparr> now"
  have eq: "h' = h\<lparr>undo_stack := undo_stack h @ [?e]\<rparr>" "clock' = snd (tick clock)"
    using assms(3) by (auto simp: history_push_empty_transaction_def tick_def split: if_splits)
  have "stacks_ok clock' (?e # undo_stack h @ redo_stack h)"
    unfolding eq by (intro stacks_ok_new history_okD assms tick_less)
  then have "stacks_ok clock' (undo_stack h' @ redo_stack h')" by (rule stacks_ok_perm) (simp add: eq)
  then show ?thesis using history_okD(2) [OF assms(1)] by (intro history_okI) (simp_all add: eq)
qed

text \<open>The calls that move entries between the stacks or drop them.\<close>

lemma moved_ok:
  assumes "history_ok h clock" "transaction_depth h = 0" "mset (us @ rs) \<subseteq># mset (undo_stack h @ redo_stack h)"
  shows "history_ok (h\<lparr>undo_stack := us, redo_stack := rs\<rparr>) clock" "history_ok (h\<lparr>redo_stack := rs, undo_stack := us\<rparr>) clock"
  using stacks_ok_sub [OF history_okD(1) [OF assms(1)] assms(3)] history_okD(2) [OF assms(1)] assms(2)
  by (auto intro!: history_okI)

lemma mset_remove_at: "i < length xs \<Longrightarrow> mset xs = add_mset (xs ! i) (mset (remove_at i xs))"
  by (subst remove_at_split(1)) (simp_all add: remove_at_def)

lemma mset_split_at: "mset xs = mset (take i xs) + mset (drop i xs)"
  by (metis append_take_drop_id mset_append)

lemma move_ok:
  assumes "history_ok h clock" "transaction_depth h = 0"
  shows "history_pop_undo h = Some (e, h') \<Longrightarrow> history_ok h' clock"
    and "history_pop_redo h = Some (e, h') \<Longrightarrow> history_ok h' clock"
    and "history_remove_from_undo h tid = Some (e, h') \<Longrightarrow> history_ok h' clock"
    and "history_remove_from_undo_until h tid = Some (es, h') \<Longrightarrow> history_ok h' clock"
    and "history_remove_from_redo h tid = Some (es, h') \<Longrightarrow> history_ok h' clock"
    and "history_forget h tid = Some (t, h') \<Longrightarrow> history_ok h' clock \<and> transaction_depth h' = 0"
proof -
  note moved = moved_ok [OF assms]
  show "history_pop_undo h = Some (e, h') \<Longrightarrow> history_ok h' clock"
    using moved [of "butlast (undo_stack h)" "redo_stack h @ [last (undo_stack h)]"] assms
    by (auto simp: history_pop_undo_def last_removed Let_def split: if_splits)
  show "history_pop_redo h = Some (e, h') \<Longrightarrow> history_ok h' clock"
    using moved(2) [of "undo_stack h @ [last (redo_stack h)]" "butlast (redo_stack h)"] assms
    by (auto simp: history_pop_redo_def last_removed Let_def split: if_splits)
  show "history_forget h tid = Some (t, h') \<Longrightarrow> history_ok h' clock \<and> transaction_depth h' = 0"
  proof (cases "rposition (has_id tid) (undo_stack h)"; cases "rposition (has_id tid) (redo_stack h)")
    fix ix assume "rposition (has_id tid) (undo_stack h) = None" "rposition (has_id tid) (redo_stack h) = Some ix"
    then show "history_forget h tid = Some (t, h') \<Longrightarrow> history_ok h' clock \<and> transaction_depth h' = 0"
      using moved(1) [of "undo_stack h" "remove_at ix (redo_stack h)"] mset_remove_at [of ix "redo_stack h"] assms
      by (auto simp: history_forget_def dest: rposition_SomeD)
  qed (use moved(1) [of "remove_at ix (undo_stack h)" "redo_stack h" for ix] mset_remove_at [of _ "undo_stack h"] assms in
      \<open>auto simp: history_forget_def dest: rposition_SomeD\<close>)
  show "history_remove_from_undo h tid = Some (e, h') \<Longrightarrow> history_ok h' clock"
  proof (cases "rposition (has_id tid) (undo_stack h)")
    case (Some ix)
    then show "history_remove_from_undo h tid = Some (e, h') \<Longrightarrow> history_ok h' clock"
      using moved(1) [of "remove_at ix (undo_stack h)" "redo_stack h @ [undo_stack h ! ix]"] mset_remove_at [of ix "undo_stack h"] assms
      by (auto simp: history_remove_from_undo_def Let_def dest: rposition_SomeD)
  qed (use assms in \<open>simp add: history_remove_from_undo_def\<close>)
  show "history_remove_from_undo_until h tid = Some (es, h') \<Longrightarrow> history_ok h' clock"
  proof (cases "rposition (has_id tid) (undo_stack h)")
    case (Some ix)
    then show "history_remove_from_undo_until h tid = Some (es, h') \<Longrightarrow> history_ok h' clock"
      using moved(1) [of "take ix (undo_stack h)" "redo_stack h @ rev (drop ix (undo_stack h))"] mset_split_at [of "undo_stack h" ix] assms
      by (auto simp: history_remove_from_undo_until_def Let_def)
  qed (use assms in \<open>simp add: history_remove_from_undo_until_def\<close>)
  show "history_remove_from_redo h tid = Some (es, h') \<Longrightarrow> history_ok h' clock"
  proof (cases "rposition (has_id tid) (redo_stack h)")
    case (Some ix)
    then show "history_remove_from_redo h tid = Some (es, h') \<Longrightarrow> history_ok h' clock"
      using moved(2) [of "undo_stack h @ rev (drop ix (redo_stack h))" "take ix (redo_stack h)"] mset_split_at [of "redo_stack h" ix] assms
      by (auto simp: history_remove_from_redo_def Let_def)
  qed (use assms in \<open>simp add: history_remove_from_redo_def\<close>)
qed

lemma update_entry_stacks:
  assumes "ix < length es"
  shows "stack_ids (update_entry (\<lambda>d. d\<lparr>edit_ids := edit_ids d @ ids\<rparr>) ix es) = stack_ids es"
    and "mset (stack_edits (update_entry (\<lambda>d. d\<lparr>edit_ids := edit_ids d @ ids\<rparr>) ix es)) = mset (stack_edits es) + mset ids"
proof -
  obtain xs e ys where u: "es = xs @ e # ys" "length xs = ix" using assms by (metis id_take_nth_drop length_take min.absorb4)
  have eq: "update_entry (\<lambda>d. d\<lparr>edit_ids := edit_ids d @ ids\<rparr>) ix es =
      xs @ e\<lparr>transaction := (transaction e)\<lparr>edit_ids := edit_ids (transaction e) @ ids\<rparr>\<rparr> # ys"
    using u by (auto simp: update_entry_def)
  show "stack_ids (update_entry (\<lambda>d. d\<lparr>edit_ids := edit_ids d @ ids\<rparr>) ix es) = stack_ids es"
    unfolding eq by (simp add: u(1) entry_transaction_id_def)
  show "mset (stack_edits (update_entry (\<lambda>d. d\<lparr>edit_ids := edit_ids d @ ids\<rparr>) ix es)) = mset (stack_edits es) + mset ids"
    unfolding eq by (simp add: u(1))
qed

lemma forget_edits:
  assumes "history_forget h tid = Some (Some t, h')"
  shows "mset (stack_ids (stacks h')) \<subseteq># mset (stack_ids (stacks h))"
    and "mset (stack_edits (stacks h')) + mset (edit_ids t) = mset (stack_edits (stacks h))"
proof -
  have rem: "mset (stack_ids es) = mset (stack_ids (remove_at ix es)) + {#entry_transaction_id (es ! ix)#}"
      "mset (stack_edits es) = mset (stack_edits (remove_at ix es)) + mset (edit_ids (transaction (es ! ix)))"
    if "rposition P es = Some ix" for P es ix
  proof -
    have "es = take ix es @ es ! ix # drop (Suc ix) es" using rposition_SomeD [OF that] remove_at_split by blast
    then have "stack_ids es = stack_ids (take ix es @ es ! ix # drop (Suc ix) es)"
      "stack_edits es = stack_edits (take ix es @ es ! ix # drop (Suc ix) es)" by (rule arg_cong)+
    then show "mset (stack_ids es) = mset (stack_ids (remove_at ix es)) + {#entry_transaction_id (es ! ix)#}"
      "mset (stack_edits es) = mset (stack_edits (remove_at ix es)) + mset (edit_ids (transaction (es ! ix)))"
      by (simp_all only: remove_at_def stack_simps mset_append mset.simps union_mset_add_mset_right) (simp_all add: ac_simps)
  qed
  consider ix where "rposition (has_id tid) (undo_stack h) = Some ix" "t = transaction (undo_stack h ! ix)"
      "h' = h\<lparr>undo_stack := remove_at ix (undo_stack h)\<rparr>"
    | ix where "rposition (has_id tid) (redo_stack h) = Some ix" "t = transaction (redo_stack h ! ix)"
      "h' = h\<lparr>redo_stack := remove_at ix (redo_stack h)\<rparr>"
    using assms by (auto simp: history_forget_def split: if_splits option.splits)
  note C = this
  show "mset (stack_ids (stacks h')) \<subseteq># mset (stack_ids (stacks h))"
    using C by cases (simp_all add: stacks_def rem)
  show "mset (stack_edits (stacks h')) + mset (edit_ids t) = mset (stack_edits (stacks h))"
    using C by cases (simp_all add: stacks_def rem)
qed

lemma mut_stacks:
  assumes "history_transaction_mut h tid (\<lambda>d. d\<lparr>edit_ids := edit_ids d @ ids\<rparr>) = Some h'"
  shows "stack_ids (stacks h') = stack_ids (stacks h)" "mset (stack_edits (stacks h')) = mset (stack_edits (stacks h)) + mset ids"
    "operations h' = operations h" "transaction_depth h' = transaction_depth h"
  using assms update_entry_stacks
  by (auto simp: history_transaction_mut_def stacks_def dest!: rposition_SomeD split: option.splits)

lemma merge_ok:
  assumes "history_ok h clock" "history_merge_transactions h a b = Some h'"
  shows "history_ok h' clock"
proof -
  have depth: "transaction_depth h = 0"
    using assms(2) by (auto simp: history_merge_transactions_def history_forget_def split: if_splits)
  obtain f h1 where f: "history_forget h a = Some (f, h1)" using assms(2) by (auto simp: history_merge_transactions_def Option.bind_eq_Some_conv)
  have h1: "history_ok h1 clock" "transaction_depth h1 = 0" using move_ok(6) [OF assms(1) depth f] by auto
  show ?thesis
  proof (cases "\<exists>t. f = Some t \<and> history_transaction_mut h1 b (\<lambda>d. d\<lparr>edit_ids := edit_ids d @ edit_ids t\<rparr>) \<noteq> None")
    case False
    then have "h' = h1" using assms(2) f by (auto simp: history_merge_transactions_def split: option.splits)
    then show ?thesis using h1 by simp
  next
    case True
    then obtain t where t: "f = Some t" "history_transaction_mut h1 b (\<lambda>d. d\<lparr>edit_ids := edit_ids d @ edit_ids t\<rparr>) = Some h'"
      using assms(2) f by (auto simp: history_merge_transactions_def)
    note sub = forget_edits [OF f [unfolded t(1)]] and m = mut_stacks [OF t(2)]
    have "stacks_ok clock (stacks h')"
      by (rule stacks_ok_less [of clock "stacks h"]) (use assms(1) sub m in \<open>simp_all add: history_ok_def\<close>)
    then show ?thesis using h1 m history_okD(2) [OF h1(1)] by (simp add: history_ok_def)
  qed
qed

subsection \<open>Properties\<close>

text \<open>A transaction that is on no stack, with edits that are in none of their transactions.\<close>

definition new_transaction :: "transaction \<Rightarrow> history_entry list \<Rightarrow> lamport \<Rightarrow> bool" where
  "new_transaction t es clock \<longleftrightarrow> transaction_id t \<notin> set (stack_ids es) \<and> distinct (edit_ids t) \<and>
     set (edit_ids t) \<inter> set (stack_edits es) = {} \<and> (\<forall>i \<in> set (transaction_id t # edit_ids t). i < clock)"

text \<open>
  The states of a history and the clock of its replica that calls of \<open>Buffer\<close> can reach. \<open>push_transaction\<close> takes whatever
  transaction its caller has; \<open>fresh\<close> says that callers only pass transactions that are not on a stack.
\<close>

inductive history_run :: "bool \<Rightarrow> history \<Rightarrow> lamport \<Rightarrow> bool" where
  run_new: "history_run fresh (history_new interval r) (lamport_new replica)"
| run_start: "history_run fresh h clock \<Longrightarrow> tvalue clock < - 1 \<Longrightarrow>
    history_start_transaction h v now clock = (r, h', clock') \<Longrightarrow> history_run fresh h' clock'"
| run_edit: "history_run fresh h clock \<Longrightarrow> tvalue clock < - 1 \<Longrightarrow> operation_timestamp op = fst (tick clock) \<Longrightarrow>
    history_push h op = Some h1 \<Longrightarrow> history_push_undo h1 (operation_timestamp op) = Some h' \<Longrightarrow> history_run fresh h' (snd (tick clock))"
| run_push: "history_run fresh h clock \<Longrightarrow> history_push h op = Some h' \<Longrightarrow> history_run fresh h' clock"
| run_observe: "history_run fresh h clock \<Longrightarrow> max (tvalue clock) (tvalue t) < - 1 \<Longrightarrow> history_run fresh h (lamport_observe clock t)"
| run_end: "history_run fresh h clock \<Longrightarrow> history_end_transaction h now = Some (r, h') \<Longrightarrow> history_run fresh h' clock"
| run_group: "history_run fresh h clock \<Longrightarrow> history_group h = Some (g, h') \<Longrightarrow> history_run fresh h' clock"
| run_group_until: "history_run fresh h clock \<Longrightarrow> history_group_until h tid = Some h' \<Longrightarrow> history_run fresh h' clock"
| run_finalize: "history_run fresh h clock \<Longrightarrow> history_finalize_last_transaction h = (f, h') \<Longrightarrow> history_run fresh h' clock"
| run_push_empty: "history_run fresh h clock \<Longrightarrow> tvalue clock < - 1 \<Longrightarrow>
    history_push_empty_transaction h v now clock = Some (tid, h', clock') \<Longrightarrow> history_run fresh h' clock'"
| run_pop_undo: "history_run fresh h clock \<Longrightarrow> history_pop_undo h = Some (e, h') \<Longrightarrow> history_run fresh h' clock"
| run_pop_redo: "history_run fresh h clock \<Longrightarrow> history_pop_redo h = Some (e, h') \<Longrightarrow> history_run fresh h' clock"
| run_remove: "history_run fresh h clock \<Longrightarrow> history_remove_from_undo h tid = Some (e, h') \<Longrightarrow> history_run fresh h' clock"
| run_remove_until: "history_run fresh h clock \<Longrightarrow> history_remove_from_undo_until h tid = Some (es, h') \<Longrightarrow> history_run fresh h' clock"
| run_remove_redo: "history_run fresh h clock \<Longrightarrow> history_remove_from_redo h tid = Some (es, h') \<Longrightarrow> history_run fresh h' clock"
| run_forget: "history_run fresh h clock \<Longrightarrow> history_forget h tid = Some (t', h') \<Longrightarrow> history_run fresh h' clock"
| run_merge: "history_run fresh h clock \<Longrightarrow> history_merge_transactions h tid tid' = Some h' \<Longrightarrow> history_run fresh h' clock"
| run_push_transaction: "history_run fresh h clock \<Longrightarrow> fresh \<longrightarrow> new_transaction t (stacks h) clock \<Longrightarrow>
    history_push_transaction h t now = Some h' \<Longrightarrow> history_run fresh h' clock"
| run_set_interval: "history_run fresh h clock \<Longrightarrow> history_run fresh (h\<lparr>group_interval := interval\<rparr>) clock"








lemma push_transaction_ok:
  assumes "history_ok h clock" "new_transaction t (stacks h) clock" "history_push_transaction h t now = Some h'"
  shows "history_ok h' clock"
proof -
  note ok = history_okD [OF assms(1)]
  have h': "h' = h\<lparr>undo_stack := undo_stack h @ [new_entry t now]\<rparr>" "transaction_depth h = 0"
    using assms(3) by (simp_all add: history_push_transaction_def split: if_splits)
  have "stacks_ok clock (new_entry t now # undo_stack h @ redo_stack h)"
    using ok(1) assms(2) by (auto simp: stacks_ok_def new_transaction_def stacks_def new_entry_def entry_transaction_id_def)
  then have "stacks_ok clock (undo_stack h' @ redo_stack h')" by (rule stacks_ok_perm) (simp add: h'(1))
  then show ?thesis using ok(2) by (intro history_okI) (simp_all add: h')
qed

lemma moves_closed:
  "history_pop_undo h = Some (e, h') \<Longrightarrow> transaction_depth h = 0" "history_pop_redo h = Some (e, h') \<Longrightarrow> transaction_depth h = 0"
  "history_remove_from_undo h tid = Some (e, h') \<Longrightarrow> transaction_depth h = 0"
  "history_remove_from_undo_until h tid = Some (es, h') \<Longrightarrow> transaction_depth h = 0"
  "history_remove_from_redo h tid = Some (es, h') \<Longrightarrow> transaction_depth h = 0"
  "history_forget h tid = Some (t, h') \<Longrightarrow> transaction_depth h = 0"
  by (auto simp: history_pop_undo_def history_pop_redo_def history_remove_from_undo_def
      history_remove_from_undo_until_def history_remove_from_redo_def history_forget_def split: if_splits)

lemma new_ok: "history_ok (history_new interval r) clock"
  by (simp add: history_ok_def history_new_def stacks_def stacks_ok_def map_default_spec)

lemma observe_ok:
  assumes "history_ok h clock" "max (tvalue clock) (tvalue t) < - 1"
  shows "history_ok h (lamport_observe clock t)"
proof -
  have "clock < lamport_observe clock t"
    using word_less_add_1 [OF assms(2)] by (auto simp: lamport_observe_def lamport_less_iff)
  then show ?thesis using assms(1) stacks_ok_clock by (auto simp: history_ok_def)
qed

lemma history_run_ok: "history_run fresh h clock \<Longrightarrow> fresh \<Longrightarrow> history_ok h clock"
proof (induction rule: history_run.induct)
  case run_new
  show ?case by (rule new_ok)
next
  case run_start
  then show ?case using start_ok by blast
next
  case (run_edit fresh h clock op h1 h')
  then show ?case using edit_ok by (simp add: tick_def)
next
  case run_push
  then show ?case using push_ok by blast
next
  case run_observe
  then show ?case using observe_ok by blast
next
  case run_end
  then show ?case using end_ok by blast
next
  case (run_group fresh h clock g h')
  then show ?case using group_ok(1) by fastforce
next
  case (run_group_until fresh h clock tid h')
  then show ?case using group_ok(2) [of h clock tid] by auto
next
  case run_finalize
  then show ?case using finalize_ok by blast
next
  case run_push_empty
  then show ?case using push_empty_ok by blast
next
  case run_merge
  then show ?case using merge_ok by blast
next
  case run_push_transaction
  then show ?case using push_transaction_ok by blast
next
  case run_set_interval
  then show ?case by (simp add: history_ok_def stacks_def)
next
  case run_pop_undo
  then show ?case by (blast intro: move_ok(1) moves_closed(1))
next
  case run_pop_redo
  then show ?case by (blast intro: move_ok(2) moves_closed(2))
next
  case run_remove
  then show ?case by (blast intro: move_ok(3) moves_closed(3))
next
  case run_remove_until
  then show ?case by (blast intro: move_ok(4) moves_closed(4))
next
  case run_remove_redo
  then show ?case by (blast intro: move_ok(5) moves_closed(5))
next
  case run_forget
  then show ?case using move_ok(6) moves_closed(6) by blast
qed


text \<open>C10 (redo_restores): \<open>pop_redo\<close> after \<open>pop_undo\<close> restores the history, and so does \<open>remove_from_redo\<close> of the first
  transaction that \<open>remove_from_undo_until\<close> took back; it returns them in the opposite order.\<close>

theorem redo_restores:
  assumes "history_run True h clock" "transaction_depth h = 0"
  shows "(\<exists>e h1. history_pop_undo h = Some (e, h1) \<and> (if undo_stack h = [] then e = None \<and> h1 = h
        else e = Some (last (undo_stack h)) \<and> history_pop_redo h1 = Some (e, h))) \<and>
    (\<exists>es h1. history_remove_from_undo_until h tid = Some (es, h1) \<and>
        (if tid \<in> entry_transaction_id ` set (undo_stack h)
         then es \<noteq> [] \<and> entry_transaction_id (last es) = tid \<and>
           history_remove_from_redo h1 (entry_transaction_id (hd es)) = Some (rev es, h)
         else es = [] \<and> h1 = h))"
proof (intro conjI)
  show "\<exists>e h1. history_pop_undo h = Some (e, h1) \<and> (if undo_stack h = [] then e = None \<and> h1 = h
        else e = Some (last (undo_stack h)) \<and> history_pop_redo h1 = Some (e, h))"
    using assms(2) by (auto simp: history_pop_undo_def history_pop_redo_def Let_def)
  have ids: "distinct (stack_ids (undo_stack h @ redo_stack h))"
    using history_okD(1) [OF history_run_ok [OF assms(1)]] by (simp add: stacks_ok_def)
  show "\<exists>es h1. history_remove_from_undo_until h tid = Some (es, h1) \<and>
        (if tid \<in> entry_transaction_id ` set (undo_stack h)
         then es \<noteq> [] \<and> entry_transaction_id (last es) = tid \<and>
           history_remove_from_redo h1 (entry_transaction_id (hd es)) = Some (rev es, h)
         else es = [] \<and> h1 = h)"
  proof (cases "rposition (has_id tid) (undo_stack h)")
    case None
    then have "tid \<notin> entry_transaction_id ` set (undo_stack h)"
      by (auto simp: rposition_None_iff has_id_def entry_transaction_id_def)
    then show ?thesis using assms(2) None by (simp add: history_remove_from_undo_until_def)
  next
    case (Some ix)
    note found = rposition_SomeD [OF Some]
    obtain es e where es: "drop ix (undo_stack h) = es @ [e]" using found by (metis Cons_nth_drop_Suc neq_Nil_conv rev_exhaust)
    have u: "undo_stack h = take ix (undo_stack h) @ es @ [e]" by (metis append_take_drop_id es)
    have first: "hd (es @ [e]) = undo_stack h ! ix" using found es by (metis hd_drop_conv_nth)
    have "distinct (entry_transaction_id e # stack_ids es)"
      using ids by (subst (asm) u) (simp only: stack_simps append_assoc distinct_append, auto)
    then have "\<forall>y \<in> set (rev es). \<not> has_id (entry_transaction_id e) y"
      by (auto simp: has_id_def entry_transaction_id_def stack_ids_def image_iff)
    then have "rposition (has_id (entry_transaction_id e)) (redo_stack h @ e # rev es) = Some (length (redo_stack h))"
      by (intro rposition_found) (simp_all add: has_id_def entry_transaction_id_def)
    moreover have "entry_transaction_id (undo_stack h ! ix) = tid" using found by (simp add: has_id_def entry_transaction_id_def)
    moreover have "tid \<in> entry_transaction_id ` set (undo_stack h)" using found calculation(2) by force
    ultimately show ?thesis
      using assms(2) Some es u first
      by (auto simp: history_remove_from_undo_until_def history_remove_from_redo_def hd_append last_rev Let_def split: if_splits)
  qed
qed

definition demo_history :: history where
  "demo_history = (history_new 300 rope_new)\<lparr>undo_stack :=
     [new_entry \<lparr>transaction_id = Lamport 1 0, edit_ids = [], transaction_start = global_new\<rparr> 10,
      new_entry \<lparr>transaction_id = Lamport 2 0, edit_ids = [], transaction_start = global_new\<rparr> 400,
      new_entry \<lparr>transaction_id = Lamport 3 0, edit_ids = [], transaction_start = global_new\<rparr> 500]\<rparr>"

lemma run_push_empty_entry:
  assumes "history_run True h (Lamport v r)" "v < - 1" "transaction_depth h = 0"
  shows "history_run True (h\<lparr>undo_stack := undo_stack h @
      [new_entry \<lparr>transaction_id = Lamport v r, edit_ids = [], transaction_start = global_new\<rparr> now]\<rparr>) (Lamport (v + 1) r)"
  by (rule run_push_empty [OF assms(1), where v = global_new and now = now and tid = "Lamport v r"])
    (simp_all add: assms history_push_empty_transaction_def tick_def)

lemma demo_history_run: "history_run True demo_history (Lamport 4 0)"
proof -
  have small: "1 < (- 1 :: u32)" by (simp add: word_less_def uint_word_arith_bintrs mask_eq_exp_minus_1)
  note push = run_push_empty_entry [OF run_push_empty_entry [OF run_push_empty_entry [where v = 1 and now = 10]], of _ 0 400 500]
  have "history_run True (history_new 300 rope_new) (Lamport 1 0)"
    using run_new [of True 300 rope_new 0] by (simp add: lamport_new_def)
  from push [OF this] show ?thesis using small by (simp add: demo_history_def history_new_def)
qed


theorem redo_restores_witness:
  "let h = demo_history; tid = Lamport 2 0 in
    (\<exists>e h1. history_pop_undo h = Some (e, h1) \<and> (if undo_stack h = [] then e = None \<and> h1 = h
        else e = Some (last (undo_stack h)) \<and> history_pop_redo h1 = Some (e, h))) \<and>
    (\<exists>es h1. history_remove_from_undo_until h tid = Some (es, h1) \<and>
        (if tid \<in> entry_transaction_id ` set (undo_stack h)
         then es \<noteq> [] \<and> entry_transaction_id (last es) = tid \<and>
           history_remove_from_redo h1 (entry_transaction_id (hd es)) = Some (rev es, h)
         else es = [] \<and> h1 = h))"
  unfolding Let_def by (rule redo_restores [OF demo_history_run]) (simp add: demo_history_def history_new_def)

subsection \<open>Grouping\<close>

definition close_edits :: "duration \<Rightarrow> history_entry list \<Rightarrow> nat \<Rightarrow> bool" where
  "close_edits interval s i \<longleftrightarrow>
     \<not> suppress_grouping (s ! i) \<and> first_edit_at (s ! Suc i) - last_edit_at (s ! i) < interval"

lemma close_edits_append: "Suc i < length s \<Longrightarrow> close_edits interval (s @ r) i = close_edits interval s i"
  by (simp add: close_edits_def nth_append)

lemma group_count_spec:
  "(\<forall>i < length es. length es - group_count iv e es \<le> i \<longrightarrow> close_edits iv (rev (e # es)) i) \<and>
    (group_count iv e es < length es \<longrightarrow> \<not> close_edits iv (rev (e # es)) (length es - group_count iv e es - 1))"
proof (induction iv e es rule: group_count.induct)
  case (2 iv e p ps)
  have first: "close_edits iv (rev (e # p # ps)) (length ps) \<longleftrightarrow>
      \<not> suppress_grouping p \<and> first_edit_at e - last_edit_at p < iv"
    by (simp add: close_edits_def nth_append)
  have rest: "close_edits iv (rev (e # p # ps)) i = close_edits iv (rev (p # ps)) i" if "i < length ps" for i
    using close_edits_append [of i "rev (p # ps)" iv "[e]"] that by simp
  show ?case
  proof (cases "\<not> suppress_grouping p \<and> first_edit_at e - last_edit_at p < iv")
    case True
    then have close: "close_edits iv (rev (e # p # ps)) (length ps)" using first by simp
    have IH: "\<forall>i < length ps. length ps - group_count iv p ps \<le> i \<longrightarrow> close_edits iv (rev (p # ps)) i"
      "group_count iv p ps < length ps \<Longrightarrow> \<not> close_edits iv (rev (p # ps)) (length ps - group_count iv p ps - 1)"
      using "2.IH" [OF True] by auto
    have "close_edits iv (rev (e # p # ps)) i" if "i < length (p # ps)" "length ps - group_count iv p ps \<le> i" for i
      using that close IH(1) rest [of i] by (cases "i = length ps") auto
    moreover have "\<not> close_edits iv (rev (e # p # ps)) (length ps - group_count iv p ps - 1)" if "group_count iv p ps < length ps"
      using IH(2) [OF that] rest that by simp
    ultimately show ?thesis using True by simp
  next
    case False
    then show ?thesis using first by auto
  qed
qed simp

text \<open>C11 (grouping_merges): \<open>History::group\<close> merges exactly the longest run of transactions at the top of the undo stack
  that follow one another within the group interval and are not protected from grouping. It keeps all edits in order and returns the
  id of the merged transaction.\<close>

theorem grouping_merges:
  assumes "undo_stack h \<noteq> []"
  shows "\<exists>g h' k. history_group h = Some (Some g, h') \<and> redo_stack h' = redo_stack h \<and> k < length (undo_stack h) \<and>
    (\<forall>i. k \<le> i \<longrightarrow> Suc i < length (undo_stack h) \<longrightarrow> close_edits (group_interval h) (undo_stack h) i) \<and>
    (0 < k \<longrightarrow> \<not> close_edits (group_interval h) (undo_stack h) (k - 1)) \<and>
    length (undo_stack h') = Suc k \<and> take k (undo_stack h') = take k (undo_stack h) \<and>
    g = transaction_id (transaction (undo_stack h ! k)) \<and> transaction_id (transaction (last (undo_stack h'))) = g \<and>
    edit_ids (transaction (last (undo_stack h'))) = concat (map (edit_ids \<circ> transaction) (drop k (undo_stack h))) \<and>
    first_edit_at (last (undo_stack h')) = first_edit_at (undo_stack h ! k) \<and>
    last_edit_at (last (undo_stack h')) = last_edit_at (last (undo_stack h))"
proof -
  obtain e es where s: "rev (undo_stack h) = e # es" using assms by (cases "rev (undo_stack h)") auto
  define n where "n = group_count (group_interval h) e es"
  define k where "k = length es - n"
  have u: "undo_stack h = rev (e # es)" using s by (metis rev_rev_ident)
  have n: "n \<le> length es" unfolding n_def by (rule group_count_less)
  have "k < length (undo_stack h)" using u k_def by simp
  then have split: "undo_stack h = take k (undo_stack h) @ undo_stack h ! k # drop (Suc k) (undo_stack h)"
    by (rule id_take_nth_drop)
  have len: "length (drop (Suc k) (undo_stack h)) = n" using n by (simp add: k_def u)
  have "history_group h = group_trailing h n" by (simp add: history_group_def s n_def)
  also have "\<dots> = Some (Some (entry_transaction_id (undo_stack h ! k)),
      h\<lparr>undo_stack := take k (undo_stack h) @ [absorb_entries (undo_stack h ! k) (drop (Suc k) (undo_stack h))]\<rparr>)"
    using group_trailing_eq [OF split] by (simp only: len)
  finally have res: "history_group h = \<dots>" .
  have close: "close_edits (group_interval h) (undo_stack h) i" if "k \<le> i" "Suc i < length (undo_stack h)" for i
    using group_count_spec [of es "group_interval h" e] that by (simp add: u n_def [symmetric] k_def)
  have stop: "\<not> close_edits (group_interval h) (undo_stack h) (k - 1)" if "0 < k"
    using group_count_spec [of es "group_interval h" e] that by (simp add: u n_def [symmetric] k_def)
  have drop: "drop k (undo_stack h) = undo_stack h ! k # drop (Suc k) (undo_stack h)"
    using \<open>k < length (undo_stack h)\<close> by (simp add: Cons_nth_drop_Suc)
  have last_at: "last (undo_stack h) = last (undo_stack h ! k # drop (Suc k) (undo_stack h))"
    using drop \<open>k < length (undo_stack h)\<close> by (metis last_drop)
  show ?thesis
  proof (intro exI conjI)
    let ?h = "h\<lparr>undo_stack := take k (undo_stack h) @ [absorb_entries (undo_stack h ! k) (drop (Suc k) (undo_stack h))]\<rparr>"
    show "history_group h = Some (Some (transaction_id (transaction (undo_stack h ! k))), ?h)"
      using res by (simp add: entry_transaction_id_def)
    show "k < length (undo_stack h)" by fact
    show "last_edit_at (last (undo_stack ?h)) = last_edit_at (last (undo_stack h))" unfolding last_at by simp
    show "edit_ids (transaction (last (undo_stack ?h))) = concat (map (edit_ids \<circ> transaction) (drop k (undo_stack h)))"
      unfolding drop by (simp add: stack_edits_def)
    show "transaction_id (transaction (last (undo_stack ?h))) = transaction_id (transaction (undo_stack h ! k))"
      by (simp add: absorb_entries_def Let_def)
  qed (use close stop \<open>k < length (undo_stack h)\<close> in simp_all)
qed

theorem grouping_merges_witness:
  "\<exists>g h' k. let h = demo_history in history_group h = Some (Some g, h') \<and> redo_stack h' = redo_stack h \<and> k < length (undo_stack h) \<and>
    (\<forall>i. k \<le> i \<longrightarrow> Suc i < length (undo_stack h) \<longrightarrow> close_edits (group_interval h) (undo_stack h) i) \<and>
    (0 < k \<longrightarrow> \<not> close_edits (group_interval h) (undo_stack h) (k - 1)) \<and>
    length (undo_stack h') = Suc k \<and> take k (undo_stack h') = take k (undo_stack h) \<and>
    g = transaction_id (transaction (undo_stack h ! k)) \<and> transaction_id (transaction (last (undo_stack h'))) = g \<and>
    edit_ids (transaction (last (undo_stack h'))) = concat (map (edit_ids \<circ> transaction) (drop k (undo_stack h))) \<and>
    first_edit_at (last (undo_stack h')) = first_edit_at (undo_stack h ! k) \<and>
    last_edit_at (last (undo_stack h')) = last_edit_at (last (undo_stack h))"
  unfolding Let_def by (rule grouping_merges) (simp add: demo_history_def)

end
