(* ===== verification/Buffer_Properties.thy ===== *)
theory Buffer_Properties
  imports Buffer Local_Edit History_Properties
begin

text \<open>
  What a buffer promises: a new one holds the normalised text; an edit keeps the invariant of the buffer, changes the text as
  it says, and every subscription learns of it.
\<close>

subsection \<open>New buffers\<close>

text \<open>The fragments in front of \<open>n\<close> bytes of the initial insertion.\<close>

definition initial :: "content \<Rightarrow> lamport \<Rightarrow> nat \<Rightarrow> fragment_tree \<Rightarrow> insertion_tree \<Rightarrow> locator \<Rightarrow> bool" where
  "initial c t n ft it prev \<longleftrightarrow> wf_tree fragment_ops ft \<and> wf_tree insertion_ops it \<and>
     tree_items it = map insertion_fragment_new (tree_items ft) \<and> ids_ok (tree_items ft) \<and> top_id (tree_items ft) = prev \<and>
     (\<forall>f \<in> set (tree_items ft). frag_ok c f \<and> frag_timestamp f = t \<and> frag_offset f < n) \<and>
     key_sorted insertion_key (tree_items it) \<and> atoms (tree_items ft) = new_atoms t 0 n"

lemma ids_below_max: "ids_ok fs \<Longrightarrow> ids_below fs locator_max"
  by (auto simp: ids_below_def id_ok_def dest: ids_okD)

lemma initial_loop_spec:
  assumes "4 \<le> max_len" "rope_ok r" "rope_text r = T" "writes c t 0 T"
    and "initial c t n ft it prev" "n \<le> length T" "str_is_char_boundary T n"
  shows "\<exists>ft' it' prev'. initial_loop max_len r t n n prev ft it = Some (ft', it') \<and> initial c t (length T) ft' it' prev'"
  using assms(5-7)
proof (induction "length T - n" arbitrary: n prev ft it rule: less_induct)
  case less
  have len: "rope_len r = length T" using rope_len_eq [OF assms(2)] assms(3) by simp
  have T: "utf8_ok T" using rope_text_utf8 [OF assms(2)] assms(3) by simp
  show ?case
  proof (cases "n < length T")
    case False
    then show ?thesis using less.prems len by (auto simp: initial_loop.simps)
  next
    case True
    define e where "e = (if length T \<le> n + max_len then length T else str_floor_char_boundary T (n + max_len))"
    have e: "n < e" "e \<le> length T" "str_is_char_boundary T e"
      using floor_progress [OF T, of n "n + max_len"] assms(1) True by (auto simp: e_def str_is_char_boundary_def)
    have e': "(if min (length T) (n + max_len) = length T then min (length T) (n + max_len)
        else rope_floor_char_boundary r (min (length T) (n + max_len))) = e"
      using rope_floor_eq [OF assms(2)] assms(3) by (auto simp: e_def min_def)
    define f where "f = \<lparr>frag_id = between prev locator_max, frag_timestamp = t, frag_offset = n,
        frag_len = e - n, frag_visible = True, frag_deletions = [], frag_max_undos = global_new\<rparr>"
    note I = less.prems(1) [unfolded initial_def]
    obtain it1 where it1: "push insertion_ops it (insertion_fragment_new f) = Some it1" "wf_tree insertion_ops it1"
      "tree_items it1 = tree_items it @ [insertion_fragment_new f]"
      using insertions.push_spec I by blast
    obtain ft1 where ft1: "push fragment_ops ft f = Some ft1" "wf_tree fragment_ops ft1" "tree_items ft1 = tree_items ft @ [f]"
      using fragment_tree.push_spec I by blast
    have step: "initial_loop max_len r t n n prev ft it = initial_loop max_len r t e e (frag_id f) ft1 it1"
      using True it1(1) ft1(1) e(1) by (simp add: initial_loop.simps [of _ _ _ n] len Let_def e' f_def [symmetric]) (simp add: f_def)
    have atoms: "atoms_of f = new_atoms t n (e - n)" by (simp add: atoms_of_new f_def)
    have ok: "frag_ok c f"
      using range_utf8 [OF T less.prems(3) e(3)] writes_range [OF assms(4), of n e] e atoms assms(4) by (simp add: frag_ok_def f_def writes_def)
    have "frag_id f = between (top_id (tree_items ft)) locator_max" using I by (simp add: f_def)
    from ids_below_between(2) [OF ids_below_max min_less_max(1) order_refl min_less_max(2) this]
    have ids: "ids_ok (tree_items ft @ [f])" using I by blast
    have "initial c t e ft1 it1 (frag_id f)"
      unfolding initial_def using I it1 ft1 ids ok e atoms new_atoms_add [of t 0 n "e - n"]
      by (auto simp: f_def top_id_def key_sorted_def sorted_wrt_append insertion_key_def insertion_fragment_new_def
          less_insertion_fragment_key_def)
    then show ?thesis using less.hyps [of e] e step True by (auto simp: diff_less_mono2)
  qed
qed

text \<open>
  The invariant of a buffer: its snapshot holds a document, the version observed every insertion in it, and the clock is
  ahead of everything that the version knows.
\<close>

definition buffer_ok :: "content \<Rightarrow> buffer \<Rightarrow> fragment list \<Rightarrow> bool" where
  "buffer_ok c b fs \<longleftrightarrow> holds c (snapshot b) fs \<and> history_ok (buffer_history b) (lamport_clock b) \<and>
     (\<forall>f \<in> set fs. observed (buffer_version b) (frag_timestamp f)) \<and>
     wf_global (buffer_version b) \<and> (\<forall>r. get (buffer_version b) r < tvalue (lamport_clock b)) \<and>
     queue_inv operation_timestamp (deferred_ops b)"

definition buffer_text :: "buffer \<Rightarrow> str" where
  "buffer_text b = rope_text (visible_text (snapshot b))"

lemma buffer_okD:
  assumes "buffer_ok c b fs"
  shows "holds c (snapshot b) fs" "history_ok (buffer_history b) (lamport_clock b)"
    "\<forall>f \<in> set fs. observed (buffer_version b) (frag_timestamp f)"
    "\<forall>r. get (buffer_version b) r < tvalue (lamport_clock b)" "queue_inv operation_timestamp (deferred_ops b)"
    "wf_global (buffer_version b)"
  using assms by (simp_all add: buffer_ok_def)

lemma holds_initial:
  assumes "initial c t (length T) ft it prev" "writes c t 0 T" "rope_ok r" "rope_text r = T"
    and "s = \<lparr>visible_text = r, deleted_text = rope_new, fragments = ft, insertions = it, insertion_slices = map_default,
      undo_map = undo_map_default, snapshot_version = v, snapshot_remote_id = i, snapshot_replica_id = rid, snapshot_line_ending = e\<rparr>"
  shows "holds c s (tree_items ft)"
  using assms(1) [unfolded initial_def] assms(2-4) new_atoms_time(2) [of t 0 "length T"]
  by (auto simp: holds_def assms(5) insertions_for_def map_default_spec undo_default_spec writes_def distinct_map inj_on_def)

lemma initial_empty: "initial c t 0 (tree_new fragment_ops) (tree_new insertion_ops) locator_min"
  by (simp add: initial_def top_id_def key_sorted_def fragment_tree.tree_new_wf insertions.tree_new_wf)

text \<open>The state that only depends on the text and on the replica.\<close>

definition pristine :: "replica_id \<Rightarrow> str \<Rightarrow> buffer \<Rightarrow> fragment list \<Rightarrow> bool" where
  "pristine rid T b fs \<longleftrightarrow> atoms fs = new_atoms (lamport_new LOCAL) 0 (length T) \<and> undo_map (snapshot b) = undo_map_default \<and>
     buffer_version b = (if T = [] then global_new else observe global_new (lamport_new LOCAL)) \<and>
     replica_id (lamport_clock b) = rid \<and> tree_items (deferred_ops b) = []"

lemma buffer_new_normalized_spec:
  assumes "4 \<le> max_len" "rope_ok r" "rope_text r = T"
  shows "\<exists>b fs. buffer_new_normalized max_len interval rid remote_id e r = Some b \<and>
    buffer_ok (record_text c (lamport_new LOCAL) T) b fs \<and> buffer_text b = T \<and> subscriptions b = topic_default \<and>
    transaction_depth (buffer_history b) = 0 \<and> tvalue (lamport_clock b) \<le> 2 \<and> snapshot_line_ending (snapshot b) = e \<and>
    (\<forall>f \<in> set fs. frag_timestamp f = lamport_new LOCAL) \<and> pristine rid T b fs"
proof -
  let ?t = "lamport_new LOCAL" and ?c = "record_text c (lamport_new LOCAL) T"
  have w: "writes ?c ?t 0 T" by (rule record_writes) (simp add: lamport_new_def)
  note empty = rope_is_empty_def [of r] rope_len_eq [OF assms(2)] assms(3)
  have "(0 :: u32) < 2" "(1 :: u32) < 2" "(0 :: u32) < 1" by simp_all
  then have small: "get global_new r < 2" "get (observe global_new ?t) r < 2" "get global_new r < 1" for r
    by (simp_all add: get_observe lamport_new_def get_global_new)
  note wf = wf_global_new wf_observe [OF wf_global_new, of ?t]
  have ver: "observed (observe global_new ?t) ?t"
    by (simp_all add: get_observe lamport_new_def observed_def)
  show ?thesis
  proof (cases "T = []")
    case True
    have i: "initial ?c ?t (length T) (tree_new fragment_ops) (tree_new insertion_ops) locator_min" using initial_empty True by simp
    show ?thesis using True holds_initial [OF i w assms(2,3)]
      by (simp add: buffer_new_normalized_def empty history_new_def buffer_ok_def buffer_text_def buffer_version_def new_ok [unfolded history_new_def]
          queue_new_spec lamport_new_def assms(3) small wf pristine_def Let_def) (intro exI [of _ "[]"]; simp)
  next
    case False
    have "str_is_char_boundary T 0" by (simp add: str_is_char_boundary_def)
    from initial_loop_spec [OF assms w initial_empty _ this] obtain ft it prev where i:
      "initial_loop max_len r ?t 0 0 locator_min (tree_new fragment_ops) (tree_new insertion_ops) = Some (ft, it)"
      "initial ?c ?t (length T) ft it prev" by auto
    have "\<forall>f \<in> set (tree_items ft). frag_timestamp f = ?t" using i(2) by (simp add: initial_def)
    moreover have "atoms (tree_items ft) = new_atoms ?t 0 (length T)" using i(2) by (simp add: initial_def)
    ultimately show ?thesis using False i(1) holds_initial [OF i(2) w assms(2,3)] ver small wf
      by (simp add: buffer_new_normalized_def empty history_new_def buffer_ok_def buffer_text_def buffer_version_def new_ok [unfolded history_new_def]
          queue_new_spec lamport_observe_def lamport_new_def assms(3) pristine_def Let_def) (intro exI [of _ "tree_items ft"]; simp)
  qed
qed

subsection \<open>Local edits\<close>

lemma group_some:
  assumes "undo_stack h \<noteq> []" "history_group h = Some (g, h')"
  shows "g \<noteq> None \<and> transaction_depth h' = transaction_depth h"
proof -
  obtain e es where r: "rev (undo_stack h) = e # es" using assms(1) by (cases "rev (undo_stack h)") auto
  let ?n = "group_count (group_interval h) e es"
  have len: "?n < length (undo_stack h)" using group_count_less [of "group_interval h" e es] arg_cong [OF r, of length] by simp
  define k where "k = length (undo_stack h) - Suc ?n"
  have "undo_stack h = take k (undo_stack h) @ undo_stack h ! k # drop (Suc k) (undo_stack h)"
    using len by (intro id_take_nth_drop) (simp add: k_def)
  from group_trailing_eq [OF this] show ?thesis using assms(2) r len by (auto simp: history_group_def k_def)
qed

text \<open>The history through one edit.\<close>

lemma history_edit_spec:
  assumes ok: "history_ok h clock" "tvalue clock < - 2" and start: "history_start_transaction h v now clock = (tid, h1, clock1)"
    and op: "edit_timestamp op = clock1"
  shows "history_ok h1 clock1 \<and> tvalue clock1 < - 1 \<and> clock \<le> clock1 \<and> replica_id clock1 = replica_id clock \<and>
    (\<exists>h2 h3 r h4. history_push h1 (Edit op) = Some h2 \<and> history_push_undo h2 clock1 = Some h3 \<and>
      history_end_transaction h3 now' = Some (r, h4) \<and>
      (case r of None \<Rightarrow> history_ok h4 (snd (tick clock1)) \<and> transaction_depth h4 = transaction_depth h
       | Some e \<Rightarrow> \<exists>g h5. history_group h4 = Some (Some g, h5) \<and> history_ok h5 (snd (tick clock1)) \<and>
           transaction_depth h5 = transaction_depth h))"
proof -
  have "(- 2 :: u32) < - 1" by simp
  with ok(2) have lt: "tvalue clock < - 1" by (rule less_trans)
  note ok1 = start_ok [OF ok(1) lt start]
  have "tvalue clock + 1 \<le> - 2" using ok(2) by (rule inc_le)
  then have small: "tvalue clock + 1 < - 1" using \<open>(- 2 :: u32) < - 1\<close> by (rule le_less_trans)
  have clock1: "tvalue clock1 < - 1" "clock \<le> clock1" "replica_id clock1 = replica_id clock"
    using start small lt tick_less [OF lt] by (auto simp: history_start_transaction_def tick_def Let_def split: if_splits)
  have depth1: "transaction_depth h1 = Suc (transaction_depth h)"
    using start by (auto simp: history_start_transaction_def tick_def Let_def split: if_splits)
  obtain ops where ops: "map_insert (operations h1) clock1 (Edit op) = Some ops" "map_inv ops" "map_abs ops clock1 = Some (Edit op)"
    using map_insert_or_replace_spec [OF history_okD(2) [OF ok1], of clock1 "Edit op"] by auto
  define h2 where "h2 = h1\<lparr>operations := ops\<rparr>"
  have h2: "history_push h1 (Edit op) = Some h2" using ops(1) op by (simp add: history_push_def h2_def)
  obtain xs e where u: "undo_stack h1 = xs @ [e]" using history_okD(3) [OF ok1] depth1 by (cases "undo_stack h1" rule: rev_cases) auto
  define h3 where "h3 = h2\<lparr>undo_stack := xs @ [push_edit_id e clock1]\<rparr>"
  have h3: "history_push_undo h2 clock1 = Some h3"
    using depth1 map_get_spec [OF ops(2)] ops(3) u by (simp add: history_push_undo_def h2_def h3_def)
  have ok3: "history_ok h3 (snd (tick clock1))" using edit_ok [OF ok1 clock1(1) h2 _ h3] op by simp
  have stack3: "undo_stack h3 = xs @ [push_edit_id e clock1]" "transaction_depth h3 = Suc (transaction_depth h)"
    "edit_ids (transaction (push_edit_id e clock1)) \<noteq> []"
    using depth1 by (simp_all add: h3_def h2_def push_edit_id_def)
  have "\<exists>r h4. history_end_transaction h3 now' = Some (r, h4) \<and> transaction_depth h4 = transaction_depth h \<and>
      (r \<noteq> None \<longrightarrow> undo_stack h4 \<noteq> [])"
    using stack3 by (simp add: history_end_transaction_def Let_def)
  then obtain r h4 where h4: "history_end_transaction h3 now' = Some (r, h4)" "transaction_depth h4 = transaction_depth h"
    "r \<noteq> None \<longrightarrow> undo_stack h4 \<noteq> []" by blast
  note ok4 = end_ok [OF ok3 h4(1)]
  have "\<exists>g h5. history_group h4 = Some (Some g, h5) \<and> history_ok h5 (snd (tick clock1)) \<and> transaction_depth h5 = transaction_depth h"
    if "r \<noteq> None"
    using group_ok(1) [OF ok4] group_some [of h4] h4(2,3) that by fastforce
  then show ?thesis using ok1 clock1 h2 h3 h4(1,2) ok4 by (cases r) auto
qed

lemma edit_times:
  assumes "\<forall>a \<in> set D. atom_time a \<noteq> t" "ranges_ok (length D) 0 rs" "a \<in> set (edit_atoms t 0 D 0 rs)"
  shows "atom_time a = t \<or> atom_time a \<in> atom_time ` set D"
proof (cases "atom_time a = t")
  case False
  then have "atom_id a \<in> set (map atom_id (filter (\<lambda>a. atom_time a \<noteq> t) (edit_atoms t 0 D 0 rs)))" using assms(3) by simp
  then have "atom_id a \<in> atom_id ` set D" by (simp only: edit_atoms_ids(1) [OF assms(1,2)]) simp
  then show ?thesis by (auto simp: atom_id_def)
qed simp

lemma offsets_in:
  assumes "rope_ok (visible_text s)" "edits_ok (rope_text (visible_text s)) n es"
  shows "map (\<lambda>((x, y), t). ((offset_in s x, offset_in s y), t)) es = es"
  using assms(2)
proof (induction es arbitrary: n)
  case (Cons e es)
  obtain x y t where "e = ((x, y), t)" by (metis prod.collapse)
  then show ?case using Cons rope_is_char_boundary_eq [OF assms(1)] by (auto simp: offset_in_def)
qed simp

lemma observed_more: "observed g s \<Longrightarrow> observed (observe g t) s" "observed (observe g t) t"
  by (auto simp: observed_def get_observe le_max_iff_disj)

lemma holds_version: "holds c s fs \<Longrightarrow> holds c (s\<lparr>snapshot_version := v\<rparr>) fs"
  by (simp add: holds_def)

lemma buffer_edit_spec:
  assumes ok: "buffer_ok c b fs" and es: "edits_ok (buffer_text b) 0 es" and clock: "tvalue (lamport_clock b) < - 2"
    and len: "4 \<le> max_len" and subs: "tracking (subscriptions b) (buffer_text b) base"
  shows "\<exists>op b' fs' rs. buffer_edit max_len now now' b es = Some (Edit op, b') \<and>
    buffer_ok (record_text c (edit_timestamp op) (new_text_of es)) b' fs' \<and> buffer_text b' = edit_text (buffer_text b) 0 es \<and>
    tracking (subscriptions b') (buffer_text b') base \<and>
    op = \<lparr>edit_timestamp = edit_timestamp op, edit_version = buffer_version b, edit_ranges = map fst rs, edit_new_text = map snd rs\<rparr> \<and>
    \<not> observed (buffer_version b) (edit_timestamp op) \<and> buffer_version b' = observe (buffer_version b) (edit_timestamp op) \<and>
    ranges_ok (length (atoms fs)) 0 rs \<and> same_ranges c (atoms fs) rs es \<and> edits_ok (bytes_of c (atoms fs)) 0 rs \<and>
    atoms fs' = edit_atoms (edit_timestamp op) 0 (atoms fs) 0 rs \<and>
    (\<forall>r. get (buffer_version b) r < tvalue (edit_timestamp op)) \<and> replica_id (edit_timestamp op) = replica_id (lamport_clock b) \<and>
    undo_map (snapshot b') = undo_map (snapshot b) \<and> deferred_ops b' = deferred_ops b \<and>
    transaction_depth (buffer_history b') = transaction_depth (buffer_history b)"
proof -
  note B = buffer_okD [OF ok]
  obtain tid h1 t where start: "history_start_transaction (buffer_history b) (buffer_version b) now (lamport_clock b) = (tid, h1, t)"
    by (metis prod_cases3)
  have t: "history_ok h1 t" "tvalue t < - 1" "lamport_clock b \<le> t" "replica_id t = replica_id (lamport_clock b)"
    using history_edit_spec [OF B(2) clock start, of "\<lparr>edit_timestamp = t, edit_version = v, edit_ranges = x, edit_new_text = y\<rparr>" for v x y]
    by simp_all
  have le: "tvalue (lamport_clock b) \<le> tvalue t" using t(3) by (auto simp: not_less [symmetric] lamport_less_iff)
  then have above: "get (buffer_version b) r < tvalue t" for r using B(4) by (blast intro: less_le_trans)
  then have new: "\<not> observed (buffer_version b) t" by (simp add: observed_def not_le)
  have "0 < tvalue t" using above [of 0] by (metis word_gt_0 word_not_simps(1))
  then have fresh: "fresh_in t fs" using B(3) new by (auto simp: fresh_in_def)
  obtain s' op p fs' rs where s': "apply_edit_internal max_len (snapshot b) es t = Some (s', op, p)"
    "holds (record_text c t (new_text_of es)) s' fs'"
    "op = \<lparr>edit_timestamp = t, edit_version = snapshot_version (snapshot b), edit_ranges = map fst rs, edit_new_text = map snd rs\<rparr>"
    "ranges_ok (length (atoms fs)) 0 rs" "same_ranges c (atoms fs) rs es" "edits_ok (bytes_of c (atoms fs)) 0 rs"
    "atoms fs' = edit_atoms t 0 (atoms fs) 0 rs" "rope_text (visible_text s') = edit_text (buffer_text b) 0 es"
    "transforms p 0 0 (buffer_text b) (edit_text (buffer_text b) 0 es)"
    "s' = (snapshot b)\<lparr>visible_text := visible_text s', deleted_text := deleted_text s', fragments := fragments s', insertions := insertions s',
      insertion_slices := insertion_slices s'\<rparr>"
    using local_edit_spec [OF B(1) es [unfolded buffer_text_def] refl fresh len] unfolding buffer_text_def by blast
  obtain subs' where subs': "publish (subscriptions b) p = Some subs'" "tracking subs' (edit_text (buffer_text b) 0 es) base"
    using publish_tracking [OF subs s'(9)] by blast
  have op: "edit_timestamp op = t" by (subst s'(3)) simp
  obtain h2 h3 r h4 where h: "history_push h1 (Edit op) = Some h2" "history_push_undo h2 t = Some h3"
    "history_end_transaction h3 now' = Some (r, h4)"
    "case r of None \<Rightarrow> history_ok h4 (snd (tick t)) \<and> transaction_depth h4 = transaction_depth (buffer_history b)
     | Some e \<Rightarrow> \<exists>g h5. history_group h4 = Some (Some g, h5) \<and> history_ok h5 (snd (tick t)) \<and>
         transaction_depth h5 = transaction_depth (buffer_history b)"
    using history_edit_spec [OF B(2) clock start op, of now'] by blast
  obtain h5 where h5: "history_ok h5 (snd (tick t))" "transaction_depth h5 = transaction_depth (buffer_history b)"
    "\<And>b0. buffer_history b0 = h3 \<Longrightarrow> \<exists>x. end_transaction_at b0 now' = Some (x, b0\<lparr>buffer_history := h5\<rparr>)"
    using h(3,4) that by (cases r) (force simp: end_transaction_at_def)+
  define b' where "b' = b\<lparr>snapshot := s'\<lparr>snapshot_version := observe (buffer_version b) t\<rparr>, lamport_clock := snd (tick t),
    subscriptions := subs', buffer_history := h5\<rparr>"
  have ver: "snapshot_version s' = buffer_version b" by (subst s'(10)) (simp add: buffer_version_def)
  have clip: "map (\<lambda>((x, y), t). ((offset_in (snapshot b) x, offset_in (snapshot b) y), t)) es = es"
    using offsets_in [OF holdsD(3) [OF B(1)] es [unfolded buffer_text_def]] .
  obtain x where e: "end_transaction_at (b\<lparr>lamport_clock := snd (tick t), subscriptions := subs', buffer_history := h3,
      snapshot := s'\<lparr>snapshot_version := observe (buffer_version b) t\<rparr>\<rparr>) now' = Some (x, b')"
    using h5(3) [of "b\<lparr>lamport_clock := snd (tick t), subscriptions := subs', buffer_history := h3,
      snapshot := s'\<lparr>snapshot_version := observe (buffer_version b) t\<rparr>\<rparr>"] by (auto simp: b'_def)
  have "buffer_edit max_len now now' b es = Some (Edit op, b')"
    using e by (simp add: buffer_edit_def start_transaction_at_def start apply_local_edit_def clip s'(1) publish_mut_def subs'(1)
        op h(1,2) observe_version_def ver Let_def tick_def)
  moreover have "buffer_ok (record_text c t (new_text_of es)) b' fs'"
  proof -
    have "observed (observe (buffer_version b) t) (frag_timestamp f)" if f: "f \<in> set fs'" for f
    proof -
      obtain x where x: "x \<in> set (atoms fs')" "frag_timestamp f = atom_time x" using first_atom [OF _ f] holdsD(7) [OF s'(2)] f by blast
      have "frag_timestamp f = t \<or> frag_timestamp f \<in> atom_time ` set (atoms fs)"
        using edit_times [OF fresh_atoms [OF fresh] s'(4) x(1) [unfolded s'(7)]] x(2) by simp
      moreover have "atom_time ` set (atoms fs) \<subseteq> frag_timestamp ` set fs" by (auto simp: atoms_def atoms_of_def atom_at_def)
      ultimately have "frag_timestamp f = t \<or> frag_timestamp f \<in> frag_timestamp ` set fs" by blast
      then show ?thesis using B(3) observed_more by auto
    qed
    moreover have "get (observe (buffer_version b) t) r < tvalue t + 1" for r
    proof -
      have "tvalue t < tvalue t + 1" using t(2) by (rule word_less_add_1)
      then show ?thesis using less_trans [OF above] by (simp add: get_observe)
    qed
    ultimately show ?thesis
      using s'(2) h5(1) B(5) wf_observe [OF B(6)] holds_version [OF s'(2)] by (simp add: buffer_ok_def b'_def buffer_version_def tick_def)
  qed
  moreover have "undo_map s' = undo_map (snapshot b)" by (subst s'(10)) simp
  ultimately show ?thesis
    using op s'(3-8) subs'(2) new h5(2) above t(4)
    by (intro exI [of _ op] exI [of _ b'] exI [of _ fs'] exI [of _ rs]) (simp add: b'_def buffer_text_def buffer_version_def)
qed

lemma buffer_new_spec:
  assumes "4 \<le> max_len" "utf8_ok t"
  shows "\<exists>b fs. buffer_new max_len interval native rid remote_id t = Some b \<and>
    buffer_ok (record_text c (lamport_new LOCAL) (normalize t)) b fs \<and> buffer_text b = normalize t \<and> subscriptions b = topic_default \<and>
    transaction_depth (buffer_history b) = 0 \<and> tvalue (lamport_clock b) \<le> 2 \<and>
    snapshot_line_ending (snapshot b) = line_ending_detect native t \<and> (\<forall>f \<in> set fs. frag_timestamp f = lamport_new LOCAL) \<and>
    pristine rid (normalize t) b fs"
proof -
  obtain r where r: "rope_from_str (normalize t) = Some r" "rope_ok r" "rope_text r = normalize t"
    using rope_push_spec [OF rope_new_ok(1) normalize_utf8 [OF assms(2)]] by (auto simp: rope_from_str_def)
  show ?thesis using buffer_new_normalized_spec [OF assms(1) r(2,3)] r(1) by (simp add: buffer_new_def)
qed

subsection \<open>The properties\<close>

text \<open>The text that the witnesses edit, and the edit.\<close>

definition demo_text :: str where
  "demo_text = [97, 98, 13, 10, 195, 169]"

definition demo_edits :: "text_edit list" where
  "demo_edits = [((1, 2), [120, 121]), ((3, 5), [])]"

lemma demo_text_facts: "utf8_ok demo_text" "normalize demo_text = [97, 98, 10, 195, 169]"
  "edits_ok [97, 98, 10, 195, 169] 0 demo_edits" "edit_text [97, 98, 10, 195, 169] 0 demo_edits = [97, 120, 121, 10]"
  by code_simp+

lemma demo_buffer:
  obtains b c fs where "buffer_new 16 300 Unix 0 1 demo_text = Some b" "buffer_ok c b fs" "buffer_text b = [97, 98, 10, 195, 169]"
    "subscriptions b = topic_default" "transaction_depth (buffer_history b) = 0" "tvalue (lamport_clock b) \<le> 2"
    "\<forall>f \<in> set fs. frag_timestamp f = lamport_new LOCAL"
proof -
  fix c
  obtain b fs where "buffer_new 16 300 Unix 0 1 demo_text = Some b" "buffer_text b = normalize demo_text" "subscriptions b = topic_default"
    "buffer_ok (record_text c (lamport_new LOCAL) (normalize demo_text)) b fs" "transaction_depth (buffer_history b) = 0"
    "tvalue (lamport_clock b) \<le> 2" "\<forall>f \<in> set fs. frag_timestamp f = lamport_new LOCAL"
    using buffer_new_spec [OF _ demo_text_facts(1), of 16 300 Unix 0 1 c] by auto
  then show thesis by (intro that) (simp_all add: demo_text_facts(2))
qed

text \<open>C7 (new_buffer_holds_text): making a buffer ends for every text when a piece may hold four bytes, the longest character, and
  the buffer satisfies its invariant and holds the text with normalised line endings, so without carriage returns.\<close>

theorem new_buffer_holds_text:
  assumes "4 \<le> max_len" "utf8_ok t"
  shows "\<exists>b c fs. buffer_new max_len interval native rid remote_id t = Some b \<and> buffer_ok c b fs \<and>
    buffer_text b = normalize t \<and> 13 \<notin> set (buffer_text b) \<and> snapshot_line_ending (snapshot b) = line_ending_detect native t"
  using buffer_new_spec [OF assms] normalize_no_cr [of t] by metis

theorem new_buffer_holds_text_witness:
  "\<exists>b c fs. buffer_new 16 300 Unix 0 1 demo_text = Some b \<and> buffer_ok c b fs \<and>
    buffer_text b = normalize demo_text \<and> 13 \<notin> set (buffer_text b) \<and>
    snapshot_line_ending (snapshot b) = line_ending_detect Unix demo_text"
  by (rule new_buffer_holds_text) (simp_all add: demo_text_facts)

text \<open>C4 (local_edit_rewrites_document): on a snapshot that holds a document, edits with sorted disjoint ranges at character boundaries
  return. The new snapshot holds a document: its bytes are the old ones in their order, with the same identities, and the new
  ones numbered in order; the ranges of the operation name in full offsets what the given ranges name in the visible text;
  the visible text is the edited text; and the patch leads from the old text to the new one.\<close>

theorem local_edit_rewrites_document:
  assumes "holds c s fs" "edits_ok (rope_text (visible_text s)) 0 es" "fresh_in t fs" "4 \<le> max_len"
  shows "\<exists>s' op p fs' rs. apply_edit_internal max_len s es t = Some (s', op, p) \<and>
    holds (record_text c t (new_text_of es)) s' fs' \<and>
    op = \<lparr>edit_timestamp = t, edit_version = snapshot_version s, edit_ranges = map fst rs, edit_new_text = map snd rs\<rparr> \<and>
    same_ranges c (atoms fs) rs es \<and> atoms fs' = edit_atoms t 0 (atoms fs) 0 rs \<and>
    map atom_id (filter (\<lambda>a. atom_time a \<noteq> t) (atoms fs')) = map atom_id (atoms fs) \<and>
    map atom_id (filter (\<lambda>a. atom_time a = t) (atoms fs')) = map (Pair t) [0..<length (new_text_of es)] \<and>
    rope_text (visible_text s') = edit_text (rope_text (visible_text s)) 0 es \<and>
    transforms p 0 0 (rope_text (visible_text s)) (rope_text (visible_text s'))"
proof -
  obtain s' op p fs' rs where s': "apply_edit_internal max_len s es t = Some (s', op, p)" "holds (record_text c t (new_text_of es)) s' fs'"
    "op = \<lparr>edit_timestamp = t, edit_version = snapshot_version s, edit_ranges = map fst rs, edit_new_text = map snd rs\<rparr>"
    "ranges_ok (length (atoms fs)) 0 rs" "same_ranges c (atoms fs) rs es" "atoms fs' = edit_atoms t 0 (atoms fs) 0 rs"
    "rope_text (visible_text s') = edit_text (rope_text (visible_text s)) 0 es"
    "transforms p 0 0 (rope_text (visible_text s)) (edit_text (rope_text (visible_text s)) 0 es)"
    using local_edit_spec [OF assms(1,2) refl assms(3,4)] by blast
  have "length (concat (map snd rs)) = length (new_text_of es)" by (simp add: same_ranges_texts [OF s'(5)] new_text_of_def)
  then show ?thesis using s' edit_atoms_ids [OF fresh_atoms [OF assms(3)] s'(4), of 0]
    by (intro exI [of _ s'] exI [of _ op] exI [of _ p] exI [of _ fs'] exI [of _ rs]) simp
qed

theorem local_edit_rewrites_document_witness:
  "\<exists>b s' op p. buffer_new 16 300 Unix 0 1 demo_text = Some b \<and>
    apply_edit_internal 16 (snapshot b) demo_edits (Lamport 7 0) = Some (s', op, p) \<and>
    rope_text (visible_text s') = [97, 120, 121, 10] \<and> edit_new_text op = [[120, 121], []] \<and>
    transforms p 0 0 (rope_text (visible_text (snapshot b))) (rope_text (visible_text s'))"
proof -
  obtain b c fs where b: "buffer_new 16 300 Unix 0 1 demo_text = Some b" "buffer_ok c b fs" "buffer_text b = [97, 98, 10, 195, 169]"
    "\<forall>f \<in> set fs. frag_timestamp f = lamport_new LOCAL"
    using demo_buffer by metis
  have fresh: "fresh_in (Lamport 7 0) fs" using b(4) by (simp add: fresh_in_def lamport_new_def)
  have ok: "edits_ok (rope_text (visible_text (snapshot b))) 0 demo_edits" using b(3) demo_text_facts(3) by (simp add: buffer_text_def)
  obtain s' op p rs where r: "apply_edit_internal 16 (snapshot b) demo_edits (Lamport 7 0) = Some (s', op, p)"
    "op = \<lparr>edit_timestamp = Lamport 7 0, edit_version = snapshot_version (snapshot b), edit_ranges = map fst rs, edit_new_text = map snd rs\<rparr>"
    "same_ranges c (atoms fs) rs demo_edits" "rope_text (visible_text s') = edit_text (rope_text (visible_text (snapshot b))) 0 demo_edits"
    "transforms p 0 0 (rope_text (visible_text (snapshot b))) (rope_text (visible_text s'))"
    using local_edit_rewrites_document [OF buffer_okD(1) [OF b(2)] ok fresh, of 16] by fastforce
  have "edit_new_text op = map (normalize \<circ> snd) demo_edits" using same_ranges_texts [OF r(3)] by (simp add: r(2))
  then show ?thesis using b(1,3) r(1,4,5) demo_text_facts(4)
    by (intro exI [of _ b] exI [of _ s'] exI [of _ op] exI [of _ p]) (simp add: buffer_text_def demo_edits_def)
qed

text \<open>C5 (buffer_edit_refines_text): an edit of a buffer returns, keeps the invariant of the buffer, replaces the ranges in
  its text, leaves no subscriber behind, closes its transaction, and the version observes the timestamp of the operation, which it had not
  observed before.\<close>

theorem buffer_edit_refines_text:
  assumes "buffer_ok c b fs" "edits_ok (buffer_text b) 0 es" "tvalue (lamport_clock b) < - 2" "4 \<le> max_len"
    and "tracking (subscriptions b) (buffer_text b) base"
  shows "\<exists>op b' c' fs'. buffer_edit max_len now now' b es = Some (Edit op, b') \<and> buffer_ok c' b' fs' \<and>
    buffer_text b' = edit_text (buffer_text b) 0 es \<and> tracking (subscriptions b') (buffer_text b') base \<and>
    transaction_depth (buffer_history b') = transaction_depth (buffer_history b) \<and>
    edit_version op = buffer_version b \<and> \<not> observed (buffer_version b) (edit_timestamp op) \<and>
    buffer_version b' = observe (buffer_version b) (edit_timestamp op)"
proof -
  obtain op b' fs' rs where "buffer_edit max_len now now' b es = Some (Edit op, b')"
    "buffer_ok (record_text c (edit_timestamp op) (new_text_of es)) b' fs'" "buffer_text b' = edit_text (buffer_text b) 0 es"
    "tracking (subscriptions b') (buffer_text b') base"
    "op = \<lparr>edit_timestamp = edit_timestamp op, edit_version = buffer_version b, edit_ranges = map fst rs, edit_new_text = map snd rs\<rparr>"
    "\<not> observed (buffer_version b) (edit_timestamp op)" "buffer_version b' = observe (buffer_version b) (edit_timestamp op)"
    "transaction_depth (buffer_history b') = transaction_depth (buffer_history b)"
    using buffer_edit_spec [OF assms, of now now'] by blast
  moreover from this(5) have "edit_version op = buffer_version b" by (metis edit_operation.select_convs(2))
  ultimately show ?thesis by blast
qed

theorem buffer_edit_refines_text_witness:
  "\<exists>b op b'. buffer_new 16 300 Unix 0 1 demo_text = Some b \<and> buffer_edit 16 5 6 b demo_edits = Some (Edit op, b') \<and>
    buffer_text b' = [97, 120, 121, 10] \<and> buffer_version b' = observe (buffer_version b) (edit_timestamp op)"
proof -
  obtain b c fs where b: "buffer_new 16 300 Unix 0 1 demo_text = Some b" "buffer_ok c b fs" "buffer_text b = [97, 98, 10, 195, 169]"
    "subscriptions b = topic_default" "tvalue (lamport_clock b) \<le> 2"
    using demo_buffer by metis
  have "edits_ok (buffer_text b) 0 demo_edits" using b(3) demo_text_facts(3) by simp
  moreover have "(2 :: u32) < - 2" by simp
  then have "tvalue (lamport_clock b) < - 2" using b(5) by (rule le_less_trans [rotated])
  moreover have "tracking (subscriptions b) (buffer_text b) (\<lambda>_. [])" by (simp add: b(4) tracking_def topic_default_def)
  ultimately show ?thesis
    using buffer_edit_refines_text [OF b(2), of demo_edits 16 "\<lambda>_. []" 5 6] b(1,3) demo_text_facts(4) by auto
qed

end
