(* ===== verification/Deferred_Ops.thy ===== *)
theory Deferred_Ops
  imports Buffer
begin

text \<open>
  The queue of deferred operations of a buffer: \<open>apply_ops\<close> applies what it can, in the order of the timestamps, and
  what stays behind misses an operation that has not arrived.
\<close>

subsection \<open>What an operation changes\<close>

lemma apply_op_frame:
  assumes "apply_op max_len b op = Some b'"
  shows "buffer_version b' = (if observed (buffer_version b) (operation_timestamp op) then buffer_version b
      else observe (buffer_version b) (operation_timestamp op))"
    "deferred_ops b' = deferred_ops b" "deferred_replicas b' = deferred_replicas b" "buffer_history b' = buffer_history b"
proof -
  have edit: "snapshot_version (fst x) = snapshot_version s"
    if "finish_edit s D loc st = Some x" for s x and D :: "(fragment_summary, 'd) dim_ops" and loc st
    using that by (auto simp: finish_edit_def Option.bind_eq_Some_conv)
  have undo: "snapshot_version (fst x) = snapshot_version s" if "apply_undo s u = Some x" for s u x
    using that by (auto simp: apply_undo_def Option.bind_eq_Some_conv Let_def)
  have publish: "snapshot b' = fst x \<and> deferred_ops b' = deferred_ops b \<and> deferred_replicas b' = deferred_replicas b \<and>
      buffer_history b' = buffer_history b" if "publish_change b x = Some b'" for b b' x
    using that by (auto simp: publish_change_def Option.bind_eq_Some_conv split: prod.splits)
  have "buffer_version b' = (if observed (buffer_version b) (operation_timestamp op) then buffer_version b
      else observe (buffer_version b) (operation_timestamp op)) \<and>
    deferred_ops b' = deferred_ops b \<and> deferred_replicas b' = deferred_replicas b \<and> buffer_history b' = buffer_history b"
  proof (cases op)
    case (Edit e)
    have "snapshot_version (snapshot b1) = snapshot_version (snapshot b) \<and> deferred_ops b1 = deferred_ops b \<and>
        deferred_replicas b1 = deferred_replicas b \<and> buffer_history b1 = buffer_history b" if "buffer_remote_edit max_len b e = Some b1" for b1
      using that by (auto simp: buffer_remote_edit_def apply_remote_edit_def Option.bind_eq_Some_conv dest!: publish edit split: if_splits)
    then show ?thesis using assms Edit
      by (auto simp: buffer_version_def resolve_versions_def resolve_edit_def observe_op_def observe_version_def Let_def
          Option.bind_eq_Some_conv split: if_splits)
  next
    case (Undo u)
    have "snapshot_version (snapshot b1) = snapshot_version (snapshot b) \<and> deferred_ops b1 = deferred_ops b \<and>
        deferred_replicas b1 = deferred_replicas b \<and> buffer_history b1 = buffer_history b" if "buffer_apply_undo b u = Some b1" for b1
      using that by (auto simp: buffer_apply_undo_def Option.bind_eq_Some_conv dest!: publish undo)
    then show ?thesis using assms Undo
      by (auto simp: buffer_version_def resolve_versions_def observe_op_def observe_version_def Let_def
          Option.bind_eq_Some_conv split: if_splits)
  qed
  then show "buffer_version b' = (if observed (buffer_version b) (operation_timestamp op) then buffer_version b
      else observe (buffer_version b) (operation_timestamp op))"
    "deferred_ops b' = deferred_ops b" "deferred_replicas b' = deferred_replicas b" "buffer_history b' = buffer_history b" by auto
qed

lemma apply_op_version:
  assumes "apply_op max_len b op = Some b'" "wf_global (buffer_version b)"
  shows "wf_global (buffer_version b')" "observed (buffer_version b') (operation_timestamp op)"
    "get (buffer_version b') r = (if r = operation_replica_id op
       then max (get (buffer_version b) r) (tvalue (operation_timestamp op)) else get (buffer_version b) r)"
  using assms(2) unfolding apply_op_frame(1) [OF assms(1)]
  by (auto simp: wf_observe get_observe observed_def operation_replica_id_def max_def)

subsection \<open>Causality\<close>

text \<open>
  The operations of a set know what their replicas knew: the version of an operation lies below its timestamp, the versions
  of a replica grow, and who knows an operation of a replica knows no more of that replica than its later operations do.
\<close>

definition causal :: "operation set \<Rightarrow> bool" where
  "causal Q \<longleftrightarrow>
     (\<forall>p \<in> Q. wf_global (operation_version p) \<and> (\<forall>r. get (operation_version p) r < tvalue (operation_timestamp p))) \<and>
     (\<forall>p \<in> Q. \<forall>q \<in> Q. operation_replica_id p = operation_replica_id q \<and> operation_timestamp p < operation_timestamp q \<longrightarrow>
        (\<forall>r. get (operation_version p) r \<le> get (operation_version q) r)) \<and>
     (\<forall>p \<in> Q. \<forall>q \<in> Q. get (operation_version p) (operation_replica_id q) < tvalue (operation_timestamp q) \<longrightarrow>
        get (operation_version p) (operation_replica_id q) \<le> get (operation_version q) (operation_replica_id q))"

lemma causal_mono: "causal Q \<Longrightarrow> Q' \<subseteq> Q \<Longrightarrow> causal Q'"
  unfolding causal_def by blast

text \<open>A version misses something that the operation builds on.\<close>

definition misses :: "global \<Rightarrow> operation \<Rightarrow> bool" where
  "misses v p \<longleftrightarrow> (\<exists>r. get v r < get (operation_version p) r)"

lemma not_observed_all_iff:
  "wf_global v \<Longrightarrow> causal Q \<Longrightarrow> p \<in> Q \<Longrightarrow> observed_all v (operation_version p) \<longleftrightarrow> \<not> misses v p"
  by (auto simp: observed_all_iff causal_def misses_def not_less)

text \<open>An operation that can be applied does not bring what an earlier one misses.\<close>

lemma misses_stable:
  assumes "causal Q" "p \<in> Q" "q \<in> Q" "operation_timestamp p < operation_timestamp q" "misses v p" "\<not> misses v q"
    and v': "\<And>r. get v' r = (if r = operation_replica_id q then max (get v r) (tvalue (operation_timestamp q)) else get v r)"
  shows "misses v' p"
proof -
  obtain r where r: "get v r < get (operation_version p) r" using assms(5) by (auto simp: misses_def)
  have "r \<noteq> operation_replica_id q"
  proof
    assume eq: "r = operation_replica_id q"
    have "get (operation_version p) r < tvalue (operation_timestamp p)" using assms(1,2) by (simp add: causal_def)
    moreover have "tvalue (operation_timestamp p) \<le> tvalue (operation_timestamp q)" using assms(4) by (auto simp: lamport_less_iff)
    ultimately have "get (operation_version p) r \<le> get (operation_version q) r"
      using assms(1-3) eq unfolding causal_def by (metis less_le_trans)
    then show False using r assms(6) unfolding misses_def by (meson less_le_trans)
  qed
  then show ?thesis using r v' by (auto simp: misses_def)
qed

lemma misses_same_replica:
  assumes "causal Q" "p \<in> Q" "q \<in> Q" "operation_timestamp p < operation_timestamp q" "operation_replica_id p = operation_replica_id q" "misses v p"
  shows "misses v q"
  using assms unfolding causal_def misses_def by (meson less_le_trans)

subsection \<open>The loops\<close>

lemma flush_loop_spec:
  assumes "flush_loop max_len b ds ops = Some (b', ds')" "sorted_wrt (<) (map operation_timestamp (ds @ ops))"
    and "causal (set (ds @ ops))" "wf_global (buffer_version b)"
    and "deferred_replicas b = operation_replica_id ` set ds" "\<forall>p \<in> set ds. misses (buffer_version b) p"
  shows "wf_global (buffer_version b') \<and> deferred_ops b' = deferred_ops b \<and> set ds' \<subseteq> set (ds @ ops) \<and> set ds \<subseteq> set ds' \<and>
    (\<forall>p \<in> set ds'. misses (buffer_version b') p) \<and>
    (\<forall>p \<in> set ops - set ds'. observed (buffer_version b') (operation_timestamp p)) \<and>
    (\<forall>r. get (buffer_version b) r \<le> get (buffer_version b') r)"
  using assms
proof (induction ops arbitrary: b ds)
  case (Cons op ops)
  show ?case
  proof (cases "can_apply_op b op")
    case True
    obtain b1 where b1: "apply_op max_len b op = Some b1" "flush_loop max_len b1 ds ops = Some (b', ds')"
      using Cons.prems(1) True by (auto simp: Option.bind_eq_Some_conv)
    note v1 = apply_op_version [OF b1(1) Cons.prems(4)]
    have "observed_all (buffer_version b) (operation_version op)" using True by (auto simp: can_apply_op_def split: if_splits)
    then have "\<not> misses (buffer_version b) op"
      using not_observed_all_iff [OF Cons.prems(4,3), of op] by simp
    then have "misses (buffer_version b1) p" if "p \<in> set ds" for p
      using misses_stable [OF Cons.prems(3), of p op] Cons.prems(2,6) that v1(3) by (auto simp: sorted_wrt_append)
    then have ih: "wf_global (buffer_version b') \<and> deferred_ops b' = deferred_ops b1 \<and> set ds' \<subseteq> set (ds @ ops) \<and> set ds \<subseteq> set ds' \<and>
        (\<forall>p \<in> set ds'. misses (buffer_version b') p) \<and>
        (\<forall>p \<in> set ops - set ds'. observed (buffer_version b') (operation_timestamp p)) \<and>
        (\<forall>r. get (buffer_version b1) r \<le> get (buffer_version b') r)"
      using Cons.prems(2,3,5) apply_op_frame(3) [OF b1(1)] v1(1)
      by (intro Cons.IH [OF b1(2)]) (auto simp: sorted_wrt_append intro: causal_mono)
    have "get (buffer_version b) r \<le> get (buffer_version b1) r" for r using v1(3) by simp
    with ih have "\<forall>r. get (buffer_version b) r \<le> get (buffer_version b') r" by (meson order_trans)
    moreover have "observed (buffer_version b') (operation_timestamp op)" using ih v1(2) unfolding observed_def by (meson order_trans)
    ultimately show ?thesis using ih apply_op_frame(2) [OF b1(1)] by auto
  next
    case False
    have rest: "flush_loop max_len (defer_op b op) (ds @ [op]) ops = Some (b', ds')" using Cons.prems(1) False by simp
    have "misses (buffer_version b) op"
    proof (cases "operation_replica_id op \<in> deferred_replicas b")
      case True
      then obtain p where "p \<in> set ds" "operation_replica_id p = operation_replica_id op" using Cons.prems(5) by auto
      then show ?thesis
        using misses_same_replica [OF Cons.prems(3), of p op] Cons.prems(2,6) by (auto simp: sorted_wrt_append)
    next
      case notin: False
      then show ?thesis using False not_observed_all_iff [OF Cons.prems(4,3), of op] by (simp add: can_apply_op_def)
    qed
    then show ?thesis
      using Cons.IH [OF rest] Cons.prems(2-6) by (auto simp: defer_op_def buffer_version_def)
  qed
qed simp

lemma apply_ops_loop_spec:
  assumes "apply_ops_loop max_len b ds ops = Some (b', ds')" "wf_global (buffer_version b)"
  shows "wf_global (buffer_version b') \<and> deferred_ops b' = deferred_ops b \<and> set ds' \<subseteq> set (ds @ ops) \<and> set ds \<subseteq> set ds' \<and>
    (\<forall>p \<in> set ops - set ds'. observed (buffer_version b') (operation_timestamp p))  \<and>
    (\<forall>r. get (buffer_version b) r \<le> get (buffer_version b') r)"
  using assms
proof (induction ops arbitrary: b ds)
  case (Cons op ops)
  obtain h where h: "history_push (buffer_history b) op = Some h"
    "(if can_apply_op (b\<lparr>buffer_history := h\<rparr>) op
      then do { b \<leftarrow> apply_op max_len (b\<lparr>buffer_history := h\<rparr>) op; apply_ops_loop max_len b ds ops }
      else apply_ops_loop max_len (defer_op (b\<lparr>buffer_history := h\<rparr>) op) (ds @ [op]) ops) = Some (b', ds')"
    using Cons.prems(1) by (auto simp: Option.bind_eq_Some_conv Let_def)
  let ?b = "b\<lparr>buffer_history := h\<rparr>"
  have wf: "wf_global (buffer_version ?b)" using Cons.prems(2) by (simp add: buffer_version_def)
  show ?case
  proof (cases "can_apply_op ?b op")
    case True
    obtain b1 where b1: "apply_op max_len ?b op = Some b1" "apply_ops_loop max_len b1 ds ops = Some (b', ds')"
      using h(2) True by (auto simp: Option.bind_eq_Some_conv)
    note v1 = apply_op_version [OF b1(1) wf]
    note ih = Cons.IH [OF b1(2) v1(1)]
    have "get (buffer_version b) r \<le> get (buffer_version b1) r" for r using v1(3) by (simp add: buffer_version_def)
    with ih have "\<forall>r. get (buffer_version b) r \<le> get (buffer_version b') r" by (meson order_trans)
    moreover have "observed (buffer_version b') (operation_timestamp op)" using ih v1(2) unfolding observed_def by (meson order_trans)
    ultimately show ?thesis using ih apply_op_frame(2) [OF b1(1)] by auto
  next
    case False
    then show ?thesis using Cons.IH [of "defer_op ?b op" "ds @ [op]"] h(2) wf by (auto simp: defer_op_def buffer_version_def)
  qed
qed simp

lemma apply_ops_spec:
  assumes "apply_ops max_len b ops = Some b'" "wf_global (buffer_version b)" "queue_inv operation_timestamp (deferred_ops b)"
    and "causal (set (tree_items (deferred_ops b)) \<union> set ops)"
    and "inj_on operation_timestamp (set (tree_items (deferred_ops b)) \<union> set ops)"
  shows "queue_inv operation_timestamp (deferred_ops b')"
    "set (tree_items (deferred_ops b')) \<subseteq> set (tree_items (deferred_ops b)) \<union> set ops"
    "\<forall>p \<in> set (tree_items (deferred_ops b')). \<not> observed_all (buffer_version b') (operation_version p)"
    "\<forall>p \<in> set (tree_items (deferred_ops b)) \<union> set ops - set (tree_items (deferred_ops b')).
       observed (buffer_version b') (operation_timestamp p)"
    "wf_global (buffer_version b')" "\<forall>r. get (buffer_version b) r \<le> get (buffer_version b') r"
proof -
  let ?all = "set (tree_items (deferred_ops b)) \<union> set ops"
  obtain b1 ds where b1: "apply_ops_loop max_len b [] ops = Some (b1, ds)"
    and rest: "do { q \<leftarrow> queue_insert operation_timestamp (deferred_ops b1) ds; flush_deferred_ops max_len (b1\<lparr>deferred_ops := q\<rparr>) } = Some b'"
    using assms(1) by (auto simp: apply_ops_def Option.bind_eq_Some_conv)
  note s1 = apply_ops_loop_spec [OF b1 assms(2)]
  have "inj_on operation_timestamp (set (tree_items (deferred_ops b1)) \<union> set ds)" using s1 assms(5) by (auto elim!: inj_on_subset)
  then obtain q where q: "queue_insert operation_timestamp (deferred_ops b1) ds = Some q" "queue_inv operation_timestamp q"
    "set (tree_items q) = set (tree_items (deferred_ops b)) \<union> set ds"
    using queue_insert_spec [of operation_timestamp "deferred_ops b1" ds] assms(3) s1 by auto
  have sub: "set (tree_items q) \<subseteq> ?all" using q(3) s1 by auto
  have run: "queue_iter_run (queue_len q + 1) q = tree_items q"
    using queue.iter_run_spec [OF queue_invD(1) [OF q(2)], of "[]" "tree_items q"] queue_len_spec [OF q(2)] by (simp add: queue_iter_run_def)
  let ?b2 = "b1\<lparr>deferred_replicas := {}, deferred_ops := queue_new operation_timestamp\<rparr>"
  obtain b3 ds' where b3: "flush_loop max_len ?b2 [] (tree_items q) = Some (b3, ds')"
    and last: "do { q \<leftarrow> queue_insert operation_timestamp (deferred_ops b3) ds'; Some (b3\<lparr>deferred_ops := q\<rparr>) } = Some b'"
    using rest q(1) run by (auto simp: flush_deferred_ops_def queue_drain_def Option.bind_eq_Some_conv)
  have sorted: "sorted_wrt (<) (map operation_timestamp (tree_items q))"
    using queue_invD(2) [OF q(2)] by (simp add: key_sorted_def sorted_wrt_map)
  have s3: "wf_global (buffer_version b3) \<and> deferred_ops b3 = queue_new operation_timestamp \<and> set ds' \<subseteq> set (tree_items q) \<and>
    (\<forall>p \<in> set ds'. misses (buffer_version b3) p) \<and>
    (\<forall>p \<in> set (tree_items q) - set ds'. observed (buffer_version b3) (operation_timestamp p)) \<and>
    (\<forall>r. get (buffer_version b1) r \<le> get (buffer_version b3) r)"
    using flush_loop_spec [OF b3] sorted causal_mono [OF assms(4) sub] s1 by (simp add: buffer_version_def)
  have "inj_on operation_timestamp (set (tree_items (queue_new operation_timestamp)) \<union> set ds')"
    using s3 sub assms(5) by (auto simp: queue_new_spec(2) elim!: inj_on_subset)
  then obtain q' where q': "queue_insert operation_timestamp (queue_new operation_timestamp) ds' = Some q'" "queue_inv operation_timestamp q'"
    "set (tree_items q') = set ds'"
    using queue_insert_spec [of operation_timestamp "queue_new operation_timestamp" ds', OF queue_new_spec(1)] by (auto simp: queue_new_spec(2))
  have b': "b' = b3\<lparr>deferred_ops := q'\<rparr>" using last q'(1) s3 by simp
  have ver: "buffer_version b' = buffer_version b3" by (simp add: b' buffer_version_def)
  show "queue_inv operation_timestamp (deferred_ops b')" "set (tree_items (deferred_ops b')) \<subseteq> ?all"
    using q'(2,3) s3 sub by (auto simp: b')
  show "wf_global (buffer_version b')" "\<forall>r. get (buffer_version b) r \<le> get (buffer_version b') r"
    using s1 s3 ver by (auto intro: order_trans)
  show "\<forall>p \<in> set (tree_items (deferred_ops b')). \<not> observed_all (buffer_version b') (operation_version p)"
    using s3 q'(3) sub not_observed_all_iff [OF _ assms(4)] ver by (auto simp: b')
  show "\<forall>p \<in> ?all - set (tree_items (deferred_ops b')). observed (buffer_version b') (operation_timestamp p)"
  proof
    fix p assume p: "p \<in> ?all - set (tree_items (deferred_ops b'))"
    show "observed (buffer_version b') (operation_timestamp p)"
    proof (cases "p \<in> set (tree_items q)")
      case True
      then show ?thesis using p s3 q'(3) ver by (auto simp: b')
    next
      case False
      then have "observed (buffer_version b1) (operation_timestamp p)" using p s1 q(3) by auto
      then show ?thesis using s3 ver unfolding observed_def by (auto intro: order_trans)
    qed
  qed
qed

subsection \<open>Those who wait\<close>

text \<open>Nobody waits for a version that is there, and whoever waited in \<open>b\<close> waits in \<open>b'\<close> or was told.\<close>

definition none_ready :: "buffer \<Rightarrow> bool" where
  "none_ready b \<longleftrightarrow> (\<forall>(v, n) \<in> set (wait_for_version_txs b). \<not> observed_all (buffer_version b) v)"

definition waiters_kept :: "buffer \<Rightarrow> buffer \<Rightarrow> bool" where
  "waiters_kept b b' \<longleftrightarrow> set (signalled b) \<subseteq> set (signalled b') \<and>
     (\<forall>(v, n) \<in> set (wait_for_version_txs b). (v, n) \<in> set (wait_for_version_txs b') \<or> n \<in> set (signalled b'))"

lemma waiters_kept_trans: "waiters_kept b1 b2 \<Longrightarrow> waiters_kept b2 b3 \<Longrightarrow> waiters_kept b1 b3"
  unfolding waiters_kept_def by fast

lemma waiters_cong:
  assumes "wait_for_version_txs b' = wait_for_version_txs b" "signalled b' = signalled b" "buffer_version b' = buffer_version b"
  shows "none_ready b' = none_ready b" "waiters_kept b' c = waiters_kept b c" "waiters_kept c b' = waiters_kept c b"
  using assms by (simp_all add: none_ready_def waiters_kept_def)

lemma resolve_versions_spec: "none_ready (resolve_versions b)" "waiters_kept b (resolve_versions b)"
  by (force simp: none_ready_def waiters_kept_def resolve_versions_def buffer_version_def Let_def split: prod.splits)+

lemma apply_op_waiters:
  assumes "apply_op max_len b op = Some b'"
  shows "none_ready b'" "waiters_kept b b'"
proof -
  have publish: "wait_for_version_txs b' = wait_for_version_txs b \<and> signalled b' = signalled b" if "publish_change b x = Some b'" for b b' x
    using that by (auto simp: publish_change_def Option.bind_eq_Some_conv split: prod.splits)
  obtain b1 where b1: "b' = resolve_versions b1" "wait_for_version_txs b1 = wait_for_version_txs b" "set (signalled b) \<subseteq> set (signalled b1)"
  proof (cases op)
    case (Edit e)
    have "wait_for_version_txs b2 = wait_for_version_txs b \<and> signalled b2 = signalled b" if "buffer_remote_edit max_len b e = Some b2" for b2
      using that by (auto simp: buffer_remote_edit_def Option.bind_eq_Some_conv dest!: publish split: if_splits)
    then show ?thesis using assms Edit that
      by (fastforce simp: resolve_edit_def observe_op_def observe_version_def Option.bind_eq_Some_conv split: if_splits)
  next
    case (Undo u)
    have "wait_for_version_txs b2 = wait_for_version_txs b \<and> signalled b2 = signalled b" if "buffer_apply_undo b u = Some b2" for b2
      using that by (auto simp: buffer_apply_undo_def Option.bind_eq_Some_conv dest!: publish)
    then show ?thesis using assms Undo that
      by (fastforce simp: observe_op_def observe_version_def Option.bind_eq_Some_conv split: if_splits)
  qed
  show "none_ready b'" unfolding b1(1) by (rule resolve_versions_spec)
  have "waiters_kept b b1" using b1(2,3) by (auto simp: waiters_kept_def)
  then show "waiters_kept b b'" unfolding b1(1) by (rule waiters_kept_trans [OF _ resolve_versions_spec(2)])
qed

lemma flush_loop_waiters:
  "flush_loop max_len b ds ops = Some (b', ds') \<Longrightarrow> none_ready b \<Longrightarrow> none_ready b' \<and> waiters_kept b b'"
proof (induction ops arbitrary: b ds)
  case Nil
  then show ?case by (auto simp: waiters_kept_def)
next
  case (Cons op ops)
  show ?case
  proof (cases "can_apply_op b op")
    case True
    then obtain b1 where "apply_op max_len b op = Some b1" "flush_loop max_len b1 ds ops = Some (b', ds')"
      using Cons.prems(1) by (auto simp: Option.bind_eq_Some_conv)
    then show ?thesis using Cons.IH apply_op_waiters waiters_kept_trans by blast
  next
    case False
    then show ?thesis using Cons.IH [of "defer_op b op"] Cons.prems waiters_cong [of "defer_op b op" b]
      by (simp add: defer_op_def buffer_version_def)
  qed
qed

lemma apply_ops_loop_waiters:
  "apply_ops_loop max_len b ds ops = Some (b', ds') \<Longrightarrow> none_ready b \<Longrightarrow> none_ready b' \<and> waiters_kept b b'"
proof (induction ops arbitrary: b ds)
  case Nil
  then show ?case by (auto simp: waiters_kept_def)
next
  case (Cons op ops)
  obtain h where h: "(if can_apply_op (b\<lparr>buffer_history := h\<rparr>) op
      then do { b \<leftarrow> apply_op max_len (b\<lparr>buffer_history := h\<rparr>) op; apply_ops_loop max_len b ds ops }
      else apply_ops_loop max_len (defer_op (b\<lparr>buffer_history := h\<rparr>) op) (ds @ [op]) ops) = Some (b', ds')"
    using Cons.prems(1) by (auto simp: Option.bind_eq_Some_conv Let_def)
  let ?b = "b\<lparr>buffer_history := h\<rparr>"
  have same: "none_ready ?b = none_ready b" "waiters_kept ?b b' = waiters_kept b b'"
    "none_ready (defer_op ?b op) = none_ready b" "waiters_kept (defer_op ?b op) b' = waiters_kept b b'"
    by (rule waiters_cong; simp add: defer_op_def buffer_version_def)+
  show ?case
  proof (cases "can_apply_op ?b op")
    case True
    then obtain b1 where b1: "apply_op max_len ?b op = Some b1" "apply_ops_loop max_len b1 ds ops = Some (b', ds')"
      using h by (auto simp: Option.bind_eq_Some_conv)
    then show ?thesis using Cons.IH [OF b1(2)] apply_op_waiters [OF b1(1)] waiters_kept_trans same(2) by blast
  next
    case False
    then show ?thesis using Cons.IH [of "defer_op ?b op" "ds @ [op]"] h Cons.prems(2) same(3,4) by simp
  qed
qed

lemma apply_ops_waiters:
  assumes "apply_ops max_len b ops = Some b'" "none_ready b"
  shows "none_ready b'" "waiters_kept b b'"
proof -
  obtain b1 ds q where b1: "apply_ops_loop max_len b [] ops = Some (b1, ds)" "flush_deferred_ops max_len (b1\<lparr>deferred_ops := q\<rparr>) = Some b'"
    using assms(1) by (auto simp: apply_ops_def Option.bind_eq_Some_conv)
  obtain q' q'' n b3 ds' where b3: "flush_loop max_len (b1\<lparr>deferred_replicas := {}, deferred_ops := q'\<rparr>) [] n = Some (b3, ds')"
    "b' = b3\<lparr>deferred_ops := q''\<rparr>"
    using b1(2) by (auto simp: flush_deferred_ops_def Option.bind_eq_Some_conv split: prod.splits)
  have r1: "none_ready b1 \<and> waiters_kept b b1" by (rule apply_ops_loop_waiters [OF b1(1) assms(2)])
  then have "none_ready b3 \<and> waiters_kept b1 b3"
    using flush_loop_waiters [OF b3(1)] waiters_cong [of "b1\<lparr>deferred_replicas := {}, deferred_ops := q'\<rparr>" b1] by (simp add: buffer_version_def)
  moreover have "none_ready b' = none_ready b3" "waiters_kept b b' = waiters_kept b b3"
    unfolding b3(2) by (rule waiters_cong; simp add: buffer_version_def)+
  ultimately show "none_ready b'" "waiters_kept b b'" using r1 waiters_kept_trans by blast+
qed

subsection \<open>The property\<close>

text \<open>C8 (deferred_operations_proceed): after \<open>apply_ops\<close> every operation that was delivered now or waited before is either
  applied, or it waits in the queue and its version is not there yet: nothing that could be applied stays behind. Likewise everybody who
  waited for a version was told, or waits for one that is not there yet.\<close>

theorem deferred_operations_proceed:
  assumes "apply_ops max_len b ops = Some b'" "wf_global (buffer_version b)" "queue_inv operation_timestamp (deferred_ops b)"
    and "causal (set (tree_items (deferred_ops b)) \<union> set ops)"
    and "inj_on operation_timestamp (set (tree_items (deferred_ops b)) \<union> set ops)" "none_ready b"
  shows "(\<forall>p \<in> set (tree_items (deferred_ops b)) \<union> set ops.
      if p \<in> set (tree_items (deferred_ops b')) then \<not> observed_all (buffer_version b') (operation_version p)
      else observed (buffer_version b') (operation_timestamp p)) \<and>
    set (tree_items (deferred_ops b')) \<subseteq> set (tree_items (deferred_ops b)) \<union> set ops \<and>
    queue_inv operation_timestamp (deferred_ops b') \<and>
    (\<forall>(v, n) \<in> set (wait_for_version_txs b).
      (v, n) \<in> set (wait_for_version_txs b') \<and> \<not> observed_all (buffer_version b') v \<or> n \<in> set (signalled b'))"
  using apply_ops_spec [OF assms(1-5)] apply_ops_waiters [OF assms(1,6)]
  unfolding none_ready_def waiters_kept_def by fastforce

definition demo_op :: "u32 \<Rightarrow> u32 \<Rightarrow> operation" where
  "demo_op v n = Edit \<lparr>edit_timestamp = Lamport n 2, edit_version = observe global_new (Lamport v 2), edit_ranges = [], edit_new_text = []\<rparr>"

definition empty_buffer :: buffer where
  "empty_buffer =
     \<lparr>snapshot = \<lparr>visible_text = rope_new, deleted_text = rope_new, fragments = tree_new fragment_ops, insertions = tree_new insertion_ops,
         insertion_slices = map_default, undo_map = undo_map_default, snapshot_version = global_new, snapshot_remote_id = 1,
         snapshot_replica_id = 0, snapshot_line_ending = Unix\<rparr>,
       buffer_history = history_new 300 rope_new, deferred_ops = queue_new operation_timestamp, deferred_replicas = {},
       lamport_clock = lamport_new 0, subscriptions = topic_default, edit_id_resolvers = (\<lambda>_. []), wait_for_version_txs = [],
       next_channel = 0, signalled = []\<rparr>"

lemma empty_buffer_new: "buffer_new 16 300 Unix 0 1 [] = Some empty_buffer"
proof -
  have "rope_from_str (normalize []) = Some rope_new" by code_simp
  moreover have "rope_is_empty rope_new" by code_simp
  moreover have "line_ending_detect Unix [] = Unix" by code_simp
  ultimately show ?thesis by (simp add: buffer_new_def buffer_new_normalized_def history_new_def empty_buffer_def Let_def)
qed

definition waiting_buffer :: buffer where
  "waiting_buffer = snd (wait_for_version empty_buffer (observe global_new (Lamport 1 2)))"

lemma demo_applied:
  "case apply_ops 16 waiting_buffer [demo_op 2 3, demo_op 0 1] of None \<Rightarrow> False
   | Some b' \<Rightarrow> tree_items (deferred_ops b') = [demo_op 2 3] \<and> signalled b' = [0]"
  by code_simp

lemma demo_causal: "causal (set [demo_op 2 3, demo_op 0 1])" "inj_on operation_timestamp (set [demo_op 2 3, demo_op 0 1])"
  by (auto simp: causal_def demo_op_def operation_replica_id_def get_observe wf_observe wf_global_new get_global_new lamport_less_iff)

theorem deferred_operations_proceed_witness:
  "\<exists>b'. apply_ops 16 waiting_buffer [demo_op 2 3, demo_op 0 1] = Some b' \<and>
    \<not> observed_all (buffer_version b') (operation_version (demo_op 2 3)) \<and> observed (buffer_version b') (Lamport 1 2) \<and>
    0 \<in> set (signalled b')"
proof -
  obtain b' where b': "apply_ops 16 waiting_buffer [demo_op 2 3, demo_op 0 1] = Some b'" "tree_items (deferred_ops b') = [demo_op 2 3]"
    "signalled b' = [0]"
    using demo_applied by (auto split: option.splits)
  have w: "deferred_ops waiting_buffer = queue_new operation_timestamp" "buffer_version waiting_buffer = global_new"
    "wait_for_version_txs waiting_buffer = [(observe global_new (Lamport 1 2), 0)]"
    "\<not> observed_all global_new (observe global_new (Lamport 1 2))"
    by code_simp+
  have "none_ready waiting_buffer" using w by (simp add: none_ready_def)
  moreover have "demo_op 2 3 \<noteq> demo_op 0 1" "operation_timestamp (demo_op 0 1) = Lamport 1 2" by (simp_all add: demo_op_def)
  ultimately show ?thesis
    using deferred_operations_proceed [OF b'(1)] demo_causal b' w(1,2) by (simp add: queue_new_spec wf_global_new)
qed

end
