(* ===== verification/Collaboration.thy ===== *)
theory Collaboration
  imports Replicas Buffer_Properties Deferred_Ops
begin

text \<open>
  Buffers that exchange operations. A buffer may receive the operations of others in any order, in any batches and more than
  once; \<open>apply_ops\<close> applies what it can and defers the rest. When everything has arrived nothing is deferred, and the text
  and the version are the same whatever the order was.
\<close>

subsection \<open>One operation\<close>

definition shares :: "content \<Rightarrow> buffer \<Rightarrow> fragment list \<Rightarrow> (nat \<Rightarrow> str) \<Rightarrow> bool" where
  "shares c b fs base \<longleftrightarrow> holds c (snapshot b) fs \<and> tracking (subscriptions b) (buffer_text b) base \<and> map_inv (operations (buffer_history b))"

lemma sharesD:
  "shares c b fs base \<Longrightarrow> holds c (snapshot b) fs" "shares c b fs base \<Longrightarrow> tracking (subscriptions b) (buffer_text b) base"
  "shares c b fs base \<Longrightarrow> map_inv (operations (buffer_history b))"
  by (simp_all add: shares_def)

lemma remote_op_spec:
  assumes h: "holds c s fs" and op: "op_ok c (atoms fs) e" and len: "4 \<le> max_len"
  shows "\<exists>s' p fs'. apply_remote_edit max_len s (edit_version e) (edit_ranges e) (edit_new_text e) (edit_timestamp e) = Some (s', p) \<and>
    holds (with_text c e) s' fs' \<and> atoms fs' = after_op (undo_map s) (atoms fs) e \<and>
    transforms p 0 0 (rope_text (visible_text s)) (rope_text (visible_text s')) \<and>
    undo_map s' = undo_map s \<and> snapshot_version s' = snapshot_version s"
proof -
  have pre: "fresh_in (edit_timestamp e) fs" "causal_at (edit_version e) (edit_timestamp e) fs"
    "edits_ok (known_text c (edit_version e) (atoms fs)) 0 (zip (edit_ranges e) (edit_new_text e))"
    using op fresh_in_doc [OF h] causal_at_doc [OF h] by (auto simp: op_ok_def edits_of_def)
  from remote_edit_spec [OF h pre(3,1,2) len, folded edits_of_def, folded with_text_def after_op_def]
  obtain s' p fs' where s': "apply_remote_edit max_len s (edit_version e) (edit_ranges e) (edit_new_text e) (edit_timestamp e) = Some (s', p)"
    "holds (with_text c e) s' fs'" "atoms fs' = after_op (undo_map s) (atoms fs) e"
    "transforms p 0 0 (rope_text (visible_text s)) (rope_text (visible_text s'))"
    "s' = s\<lparr>visible_text := visible_text s', deleted_text := deleted_text s', fragments := fragments s', insertions := insertions s',
      insertion_slices := insertion_slices s'\<rparr>" by blast
  moreover have "undo_map s' = undo_map s" "snapshot_version s' = snapshot_version s" by (subst s'(5), simp)+
  ultimately show ?thesis by blast
qed

lemma shares_cong:
  assumes "shares c b fs base" "holds c (snapshot b') fs" "subscriptions b' = subscriptions b" "buffer_text b' = buffer_text b"
    and "buffer_history b' = buffer_history b"
  shows "shares c b' fs base"
  using assms by (simp add: shares_def)

lemma apply_edit_op_spec:
  assumes sh: "shares c b fs base" and op: "op_ok c (atoms fs) e" and new: "\<not> observed (buffer_version b) (edit_timestamp e)" and len: "4 \<le> max_len"
  shows "\<exists>b' fs'. apply_op max_len b (Edit e) = Some b' \<and> shares (with_text c e) b' fs' base \<and>
    atoms fs' = after_op (undo_map (snapshot b)) (atoms fs) e \<and> undo_map (snapshot b') = undo_map (snapshot b) \<and>
    buffer_version b' = observe (buffer_version b) (edit_timestamp e)"
proof -
  note S = sharesD [OF sh]
  obtain b1 fs' where b1: "buffer_remote_edit max_len b e = Some b1" "shares (with_text c e) b1 fs' base"
    "atoms fs' = after_op (undo_map (snapshot b)) (atoms fs) e" "undo_map (snapshot b1) = undo_map (snapshot b)"
    "snapshot_version (snapshot b1) = snapshot_version (snapshot b)"
  proof (cases "edit_ranges e = []")
    case True
    have "holds (with_text c e) (snapshot b) fs"
      unfolding with_text_def using op fresh_in_doc [OF S(1)] by (intro record_holds [OF S(1)]) (auto simp: op_ok_def)
    then have "shares (with_text c e) b fs base" using sh by (simp add: shares_def)
    then show ?thesis using True by (intro that [of b fs]) (simp_all add: buffer_remote_edit_def after_op_def edits_of_def)
  next
    case False
    obtain s' p fs' where s': "apply_remote_edit max_len (snapshot b) (edit_version e) (edit_ranges e) (edit_new_text e) (edit_timestamp e) = Some (s', p)"
      "holds (with_text c e) s' fs'" "atoms fs' = after_op (undo_map (snapshot b)) (atoms fs) e"
      "transforms p 0 0 (rope_text (visible_text (snapshot b))) (rope_text (visible_text s'))"
      "undo_map s' = undo_map (snapshot b)" "snapshot_version s' = snapshot_version (snapshot b)"
      using remote_op_spec [OF S(1) op len] by blast
    obtain subs where subs: "publish (subscriptions b) p = Some subs" "tracking subs (rope_text (visible_text s')) base"
      using publish_tracking [OF S(2) s'(4) [folded buffer_text_def]] by blast
    let ?b = "b\<lparr>snapshot := s', subscriptions := subs\<rparr>"
    have "buffer_remote_edit max_len b e = Some ?b"
      using False s'(1) subs(1) by (simp add: buffer_remote_edit_def publish_change_def publish_mut_def)
    then show ?thesis using s' subs(2) S(3) by (intro that [of ?b fs']) (simp_all add: shares_def buffer_text_def)
  qed
  let ?b = "resolve_versions (resolve_edit (observe_op b1 (edit_timestamp e)) (edit_timestamp e))"
  have sel: "snapshot ?b = (snapshot b1)\<lparr>snapshot_version := observe (snapshot_version (snapshot b1)) (edit_timestamp e)\<rparr>"
    "subscriptions ?b = subscriptions b1" "buffer_history ?b = buffer_history b1"
    by (simp_all add: resolve_versions_def resolve_edit_def observe_op_def observe_version_def Let_def)
  have "shares (with_text c e) ?b fs' base"
    using b1(2) holds_version [OF sharesD(1) [OF b1(2)]] sel by (intro shares_cong [OF b1(2)]) (simp_all add: buffer_text_def)
  moreover have "apply_op max_len b (Edit e) = Some ?b" using new b1(1) by simp
  ultimately show ?thesis using b1(3-5) sel(1) by (intro exI [of _ ?b] exI [of _ fs']) (simp add: buffer_version_def)
qed

text \<open>An operation that arrives again changes nothing but that it wakes those who wait.\<close>

lemma apply_known_op_spec:
  assumes "shares c b fs base" "observed (buffer_version b) (edit_timestamp e)"
  shows "\<exists>b'. apply_op max_len b (Edit e) = Some b' \<and> shares c b' fs base \<and> snapshot b' = snapshot b"
  using assms by (intro exI [of _ "resolve_versions b"])
    (auto simp: resolve_versions_def Let_def shares_def buffer_text_def)

lemma history_push_shares:
  assumes "shares c b fs base"
  shows "\<exists>h. history_push (buffer_history b) op = Some h \<and> shares c (b\<lparr>buffer_history := h\<rparr>) fs base"
  using map_insert_or_replace_spec [OF sharesD(3) [OF assms], of "operation_timestamp op" op] assms
  by (auto simp: history_push_def shares_def buffer_text_def)

subsection \<open>Orders in which operations can be applied\<close>

fun deliverable :: "global \<Rightarrow> edit_operation list \<Rightarrow> bool" where
  "deliverable v [] \<longleftrightarrow> True"
| "deliverable v (e # es) \<longleftrightarrow> observed_all v (edit_version e) \<and> \<not> observed v (edit_timestamp e) \<and>
     deliverable (observe v (edit_timestamp e)) es"

text \<open>A replica knows what it did before.\<close>

definition knows_own :: "edit_operation set \<Rightarrow> bool" where
  "knows_own Q \<longleftrightarrow> (\<forall>p \<in> Q. wf_global (edit_version p)) \<and>
     (\<forall>p \<in> Q. \<forall>q \<in> Q. Clock.covers (edit_timestamp q) (edit_timestamp p) \<longrightarrow> p = q \<or> observed (edit_version q) (edit_timestamp p))"

lemma observed_all_observed:
  "wf_global h \<Longrightarrow> observed_all g h \<Longrightarrow> observed h s \<Longrightarrow> observed g s"
  unfolding observed_all_get observed_def by (meson order_trans)

lemma observed_all_more: "wf_global h \<Longrightarrow> observed_all g h \<Longrightarrow> observed_all (observe g t) h"
  unfolding observed_all_get get_observe by (simp add: le_max_iff_disj)

lemma observe_commute:
  assumes "wf_global v"
  shows "observe (observe v s) t = observe (observe v t) s"
  using assms by (intro wf_global_eqI wf_observe) (auto simp: get_observe max.left_commute max.commute)

lemma deliverable_front:
  assumes "deliverable v (xs @ h # ys)" "observed_all v (edit_version h)" "knows_own (set (xs @ h # ys))" "wf_global v"
    and "h \<notin> set xs"
  shows "deliverable v (h # xs @ ys)"
  using assms
proof (induction xs arbitrary: v)
  case (Cons x xs)
  have wf: "wf_global (edit_version h)" "wf_global (edit_version x)" using Cons.prems(3) by (auto simp: knows_own_def)
  have ih: "deliverable (observe v (edit_timestamp x)) (h # xs @ ys)"
    using Cons.prems observed_all_more [OF wf(1)] by (intro Cons.IH) (auto simp: knows_own_def wf_observe)
  have "\<not> Clock.covers (edit_timestamp h) (edit_timestamp x)"
  proof
    assume "Clock.covers (edit_timestamp h) (edit_timestamp x)"
    then have "observed (edit_version h) (edit_timestamp x)" using Cons.prems(3,5) by (auto simp: knows_own_def)
    then show False using observed_all_observed [OF wf(1) Cons.prems(2)] Cons.prems(1) by simp
  qed
  then show ?case
    using ih Cons.prems observed_all_more [OF wf(2)] observe_commute [OF Cons.prems(4)] by (auto simp: vv.observed_observe)
qed simp

lemma deliverable_later: "deliverable v es \<Longrightarrow> e \<in> set es \<Longrightarrow> \<not> observed v (edit_timestamp e)"
proof (induction es arbitrary: v)
  case (Cons x es)
  then show ?case using vv.observed_observe by (cases "e = x") auto
qed simp

lemma deliverable_causal:
  assumes "deliverable v es" "\<forall>e \<in> set es. wf_global (edit_version e)"
  shows "causal_order es"
  using assms
proof (induction es arbitrary: v)
  case (Cons x es)
  have "edit_timestamp x \<noteq> edit_timestamp e \<and> \<not> observed (edit_version x) (edit_timestamp e)" if "e \<in> set es" for e
  proof -
    have "\<not> observed (observe v (edit_timestamp x)) (edit_timestamp e)" using deliverable_later Cons.prems(1) that by auto
    then have "\<not> observed v (edit_timestamp e)" "\<not> Clock.covers (edit_timestamp x) (edit_timestamp e)"
      by (simp_all add: vv.observed_observe)
    moreover have "wf_global (edit_version x)" "observed_all v (edit_version x)" using Cons.prems by simp_all
    ultimately show ?thesis using observed_all_observed by (metis Clock.covers_def order_refl)
  qed
  moreover have "causal_order es" using Cons by auto
  ultimately show ?case by (simp add: causal_order_def)
qed (simp add: causal_order_def)

subsection \<open>The state of a delivery\<close>

text \<open>
  The operations of \<open>Q\<close> are on their way, \<open>R\<close> are the ones that have not been applied, in an order in which they can
  be applied; applying them leads to the content \<open>C\<close> and to the document \<open>F\<close>.
\<close>

fun with_texts :: "content \<Rightarrow> edit_operation list \<Rightarrow> content" where
  "with_texts c [] = c"
| "with_texts c (e # es) = with_texts (with_text c e) es"

definition underway ::
  "edit_operation set \<Rightarrow> global \<Rightarrow> undo_map \<Rightarrow> content \<Rightarrow> atom list \<Rightarrow> (nat \<Rightarrow> str) \<Rightarrow> buffer \<Rightarrow> edit_operation list \<Rightarrow> bool" where
  "underway Q v0 u C F base b R \<longleftrightarrow>
     (\<exists>c fs. shares c b fs base \<and> undo_map (snapshot b) = u \<and> ops_ok u c (atoms fs) R \<and>
        with_texts c R = C \<and> list_all2 same_atom (after_ops u (atoms fs) R) F) \<and>
     set R \<subseteq> Q \<and> distinct R \<and> deliverable (buffer_version b) R \<and> wf_global (buffer_version b) \<and>
     (\<forall>e \<in> Q - set R. observed_all (buffer_version b) (edit_version e)) \<and>
     (\<forall>s. observed (buffer_version b) s \<longleftrightarrow> observed v0 s \<or> (\<exists>e \<in> Q - set R. Clock.covers (edit_timestamp e) s))"

lemma with_texts_forward:
  "\<forall>x \<in> set xs. concurrent x h \<Longrightarrow> with_texts c (xs @ h # ys) = with_texts c (h # xs @ ys)"
proof (induction xs arbitrary: c)
  case (Cons x xs)
  then show ?case using with_text_commute [of x h c] by simp
qed simp

lemma underway_apply:
  assumes un: "underway Q v0 u C F base b R" and Q: "knows_own Q" "e \<in> Q" and can: "observed_all (buffer_version b) (edit_version e)" and len: "4 \<le> max_len"
  shows "\<exists>b' R'. apply_op max_len b (Edit e) = Some b' \<and> underway Q v0 u C F base b' R'"
proof (cases "e \<in> set R")
  case False
  have "observed (buffer_version b) (edit_timestamp e)" using un Q(2) False unfolding underway_def Clock.covers_def by blast
  moreover obtain c fs where c: "shares c b fs base" "undo_map (snapshot b) = u" "ops_ok u c (atoms fs) R" "with_texts c R = C"
    "list_all2 same_atom (after_ops u (atoms fs) R) F" using un by (auto simp: underway_def)
  ultimately obtain b' where b': "apply_op max_len b (Edit e) = Some b'" "shares c b' fs base" "snapshot b' = snapshot b"
    using apply_known_op_spec by blast
  have v: "buffer_version b' = buffer_version b" by (simp add: buffer_version_def b'(3))
  have "underway Q v0 u C F base b' R"
    unfolding underway_def v b'(3)
  proof (intro conjI exI)
    show "shares c b' fs base" "undo_map (snapshot b) = u" "ops_ok u c (atoms fs) R" "with_texts c R = C"
      "list_all2 same_atom (after_ops u (atoms fs) R) F" by (fact b'(2) c)+
  qed (use un in \<open>simp_all add: underway_def\<close>)
  then show ?thesis using b'(1) by blast
next
  case True
  obtain c fs where c: "shares c b fs base" "undo_map (snapshot b) = u" "ops_ok u c (atoms fs) R" "with_texts c R = C"
    "list_all2 same_atom (after_ops u (atoms fs) R) F" using un by (auto simp: underway_def)
  note U = un [unfolded underway_def]
  obtain xs ys where R: "R = xs @ e # ys" using True by (meson split_list)
  have wf: "\<forall>x \<in> set R. wf_global (edit_version x)" "wf_global (edit_version e)" using U Q by (auto simp: knows_own_def)
  have notin: "e \<notin> set xs" using U R by auto
  have own: "knows_own (set (xs @ e # ys))" using Q(1) U R unfolding knows_own_def by (meson subsetD)
  have dl: "deliverable (buffer_version b) (e # xs @ ys)"
    using U R by (intro deliverable_front [OF _ can own _ notin]) auto
  have "concurrent x e" if "x \<in> set xs" for x
  proof -
    have "causal_order R" "causal_order (e # xs @ ys)" using deliverable_causal dl U wf R by auto
    then show ?thesis using that R by (auto simp: causal_order_def sorted_wrt_append concurrent_def)
  qed
  then have f: "ops_ok u c (atoms fs) (e # xs @ ys)" "list_all2 same_atom (after_ops u (atoms fs) R) (after_ops u (atoms fs) (e # xs @ ys))"
    "with_texts c (e # xs @ ys) = C"
    using bring_forward [of u c "atoms fs" xs e ys] with_texts_forward [of xs e c ys] c(3,4) R by auto
  have op: "op_ok c (atoms fs) e" using f(1) by simp
  have new: "\<not> observed (buffer_version b) (edit_timestamp e)" using dl by simp
  obtain b' fs' where b': "apply_op max_len b (Edit e) = Some b'" "shares (with_text c e) b' fs' base"
    "atoms fs' = after_op u (atoms fs) e" "undo_map (snapshot b') = u" "buffer_version b' = observe (buffer_version b) (edit_timestamp e)"
    using apply_edit_op_spec [OF c(1) op new len] c(2) by auto
  have "list_all2 same_atom F F" by (rule same_refl)
  have same: "list_all2 same_atom (after_ops u (atoms fs') (xs @ ys)) F"
  proof -
    have "list_all2 same_atom (after_ops u (atoms fs) (e # xs @ ys)) (after_ops u (atoms fs) R)"
      using f(2) by (auto simp: list_all2_conv_all_nth same_atom_def)
    then show ?thesis using same_trans [OF _ c(5)] b'(3) by simp
  qed
  have "underway Q v0 u C F base b' (xs @ ys)"
    unfolding underway_def
  proof (intro conjI exI)
    show "shares (with_text c e) b' fs' base" "undo_map (snapshot b') = u" "list_all2 same_atom (after_ops u (atoms fs') (xs @ ys)) F"
      by (fact b'(2) b'(4) same)+
    show "ops_ok u (with_text c e) (atoms fs') (xs @ ys)" "with_texts (with_text c e) (xs @ ys) = C" using f(1,3) b'(3) by simp_all
    show "set (xs @ ys) \<subseteq> Q" "distinct (xs @ ys)" "deliverable (buffer_version b') (xs @ ys)" "wf_global (buffer_version b')"
      using U R dl b'(5) by (auto simp: wf_observe)
    have rest: "Q - set (xs @ ys) = insert e (Q - set R)" using R notin U Q(2) by auto
    have "observed_all (buffer_version b) (edit_version x) \<and> wf_global (edit_version x)" if "x \<in> insert e (Q - set R)" for x
      using that U can Q unfolding knows_own_def by blast
    then show "\<forall>x \<in> Q - set (xs @ ys). observed_all (buffer_version b') (edit_version x)"
      unfolding rest b'(5) using observed_all_more by blast
    have ver: "observed (buffer_version b) s \<longleftrightarrow> observed v0 s \<or> (\<exists>x \<in> Q - set R. Clock.covers (edit_timestamp x) s)" for s
      using U by blast
    show "\<forall>s. observed (buffer_version b') s \<longleftrightarrow> observed v0 s \<or> (\<exists>x \<in> Q - set (xs @ ys). Clock.covers (edit_timestamp x) s)"
      unfolding rest b'(5) vv.observed_observe ver by (simp only: bex_simps disj_ac) simp
  qed
  then show ?thesis using b'(1) by blast
qed

lemma underway_cong:
  assumes "underway Q v0 u C F base b R" "snapshot b' = snapshot b" "subscriptions b' = subscriptions b" "map_inv (operations (buffer_history b'))"
  shows "underway Q v0 u C F base b' R"
proof -
  have "shares c b' fs base \<longleftrightarrow> shares c b fs base" if "map_inv (operations (buffer_history b))" for c fs
    using assms that by (simp add: shares_def buffer_text_def)
  moreover have "shares c b fs base \<Longrightarrow> map_inv (operations (buffer_history b))" for c fs by (rule sharesD(3))
  moreover obtain c fs where c: "shares c b fs base" "undo_map (snapshot b) = u" "ops_ok u c (atoms fs) R" "with_texts c R = C"
    "list_all2 same_atom (after_ops u (atoms fs) R) F" using assms(1) by (auto simp: underway_def)
  ultimately have "shares c b' fs base" by blast
  then show ?thesis using c(2-5) assms(1) unfolding underway_def assms(2) buffer_version_def by blast
qed

lemma underway_history: "underway Q v0 u C F base b R \<Longrightarrow> map_inv (operations (buffer_history b))"
  unfolding underway_def by (blast dest: sharesD)

lemma can_apply_observed: "can_apply_op b (Edit e) \<Longrightarrow> observed_all (buffer_version b) (edit_version e)"
  by (simp add: can_apply_op_def split: if_splits)

lemma underway_flush:
  assumes "underway Q v0 u C F base b R" "set ops \<subseteq> Edit ` Q" and Q: "knows_own Q" "4 \<le> max_len"
  shows "\<exists>b' ds' R'. flush_loop max_len b ds ops = Some (b', ds') \<and> underway Q v0 u C F base b' R' \<and>
    deferred_ops b' = deferred_ops b \<and> set ds' \<subseteq> set (ds @ ops)"
  using assms(1,2)
proof (induction ops arbitrary: b ds R)
  case (Cons op ops)
  obtain e where e: "op = Edit e" "e \<in> Q" using Cons.prems(2) by auto
  show ?case
  proof (cases "can_apply_op b op")
    case True
    obtain b1 R1 where b1: "apply_op max_len b op = Some b1" "underway Q v0 u C F base b1 R1"
      using underway_apply [OF Cons.prems(1) Q(1) e(2) can_apply_observed Q(2)] True e(1) by blast
    have "set ops \<subseteq> Edit ` Q" using Cons.prems(2) by simp
    from Cons.IH [OF b1(2) this, of ds] show ?thesis
      using True b1(1) apply_op_frame(2) [OF b1(1)] by auto
  next
    case False
    have "underway Q v0 u C F base (defer_op b op) R"
      by (rule underway_cong [OF Cons.prems(1)]) (simp_all add: defer_op_def underway_history [OF Cons.prems(1)])
    moreover have "set ops \<subseteq> Edit ` Q" using Cons.prems(2) by simp
    ultimately show ?thesis using False Cons.IH [of "defer_op b op" R "ds @ [op]"] by (auto simp: defer_op_def)
  qed
qed auto

lemma underway_push:
  assumes "underway Q v0 u C F base b R"
  shows "\<exists>h. history_push (buffer_history b) op = Some h \<and> underway Q v0 u C F base (b\<lparr>buffer_history := h\<rparr>) R"
proof -
  obtain ops where "map_insert (operations (buffer_history b)) (operation_timestamp op) op = Some ops" "map_inv ops"
    using map_insert_or_replace_spec [OF underway_history [OF assms], of "operation_timestamp op" op] by blast
  then show ?thesis using underway_cong [OF assms] by (simp add: history_push_def)
qed

lemma underway_loop:
  assumes "underway Q v0 u C F base b R" "set ops \<subseteq> Edit ` Q" and Q: "knows_own Q" "4 \<le> max_len"
  shows "\<exists>b' ds' R'. apply_ops_loop max_len b ds ops = Some (b', ds') \<and> underway Q v0 u C F base b' R' \<and>
    deferred_ops b' = deferred_ops b \<and> set ds' \<subseteq> set (ds @ ops)"
  using assms(1,2)
proof (induction ops arbitrary: b ds R)
  case (Cons op ops)
  obtain e where e: "op = Edit e" "e \<in> Q" using Cons.prems(2) by auto
  obtain h where h: "history_push (buffer_history b) op = Some h" "underway Q v0 u C F base (b\<lparr>buffer_history := h\<rparr>) R"
    using underway_push [OF Cons.prems(1)] by blast
  let ?b = "b\<lparr>buffer_history := h\<rparr>"
  have sub: "set ops \<subseteq> Edit ` Q" using Cons.prems(2) by simp
  show ?case
  proof (cases "can_apply_op ?b op")
    case True
    obtain b1 R1 where b1: "apply_op max_len ?b op = Some b1" "underway Q v0 u C F base b1 R1"
      using underway_apply [OF h(2) Q(1) e(2) can_apply_observed Q(2)] True e(1) by blast
    from Cons.IH [OF b1(2) sub, of ds] show ?thesis
      using True h(1) b1(1) apply_op_frame(2) [OF b1(1)] by auto
  next
    case False
    have "underway Q v0 u C F base (defer_op ?b op) R"
      by (rule underway_cong [OF h(2)]) (simp_all add: defer_op_def underway_history [OF h(2), simplified])
    from Cons.IH [OF this sub, of "ds @ [op]"] show ?thesis using False h(1) by (auto simp: defer_op_def)
  qed
qed auto

lemma underway_apply_ops:
  assumes un: "underway Q v0 u C F base b R" and ops: "set ops \<subseteq> Edit ` Q" "set (tree_items (deferred_ops b)) \<subseteq> Edit ` Q"
    and queue: "queue_inv operation_timestamp (deferred_ops b)" and inj: "inj_on operation_timestamp (Edit ` Q)"
    and Q: "knows_own Q" "4 \<le> max_len"
  shows "\<exists>b' R'. apply_ops max_len b ops = Some b' \<and> underway Q v0 u C F base b' R'"
proof -
  obtain b1 ds R1 where b1: "apply_ops_loop max_len b [] ops = Some (b1, ds)" "underway Q v0 u C F base b1 R1"
    "deferred_ops b1 = deferred_ops b" "set ds \<subseteq> set ops"
    using underway_loop [OF un ops(1) Q, of "[]"] by auto
  have all: "set (tree_items (deferred_ops b1)) \<union> set ds \<subseteq> Edit ` Q" using b1(3,4) ops by auto
  obtain q where q: "queue_insert operation_timestamp (deferred_ops b1) ds = Some q" "queue_inv operation_timestamp q"
    "set (tree_items q) = set (tree_items (deferred_ops b1)) \<union> set ds"
    using queue_insert_spec [of operation_timestamp "deferred_ops b1" ds] queue b1(3) inj_on_subset [OF inj all] by auto
  have run: "queue_iter_run (queue_len q + 1) q = tree_items q"
    using queue.iter_run_spec [OF queue_invD(1) [OF q(2)], of "[]" "tree_items q"] queue_len_spec [OF q(2)] by (simp add: queue_iter_run_def)
  let ?b2 = "b1\<lparr>deferred_replicas := {}, deferred_ops := queue_new operation_timestamp\<rparr>"
  have "underway Q v0 u C F base ?b2 R1" by (rule underway_cong [OF b1(2)]) (simp_all add: underway_history [OF b1(2)])
  moreover have items: "set (tree_items q) \<subseteq> Edit ` Q" using all q(3) by simp
  ultimately obtain b3 ds' R' where b3: "flush_loop max_len ?b2 [] (tree_items q) = Some (b3, ds')" "underway Q v0 u C F base b3 R'"
    "deferred_ops b3 = queue_new operation_timestamp" "set ds' \<subseteq> set (tree_items q)"
    using underway_flush [OF _ _ Q, of v0 u C F base ?b2 R1 "tree_items q" "[]"] by auto
  have "inj_on operation_timestamp (set (tree_items (queue_new operation_timestamp)) \<union> set ds')"
    using inj_on_subset [OF inj subset_trans [OF b3(4) items]] by (simp add: queue_new_spec(2))
  then obtain q' where q': "queue_insert operation_timestamp (queue_new operation_timestamp) ds' = Some q'"
    using queue_insert_spec [of operation_timestamp "queue_new operation_timestamp" ds', OF queue_new_spec(1)] by (auto simp: queue_new_spec(2))
  have "underway Q v0 u C F base (b3\<lparr>deferred_ops := q'\<rparr>) R'"
    by (rule underway_cong [OF b3(2)]) (simp_all add: underway_history [OF b3(2)])
  moreover have "apply_ops max_len b ops = Some (b3\<lparr>deferred_ops := q'\<rparr>)"
    using b1(1) q(1) run b3(1,3) q' by (simp add: apply_ops_def flush_deferred_ops_def queue_drain_def)
  ultimately show ?thesis by blast
qed

subsection \<open>Deliveries in batches\<close>

fun deliver :: "nat \<Rightarrow> buffer \<Rightarrow> operation list list \<Rightarrow> buffer option" where
  "deliver max_len b [] = Some b"
| "deliver max_len b (ops # rest) = do { b \<leftarrow> apply_ops max_len b ops; deliver max_len b rest }"

text \<open>The operations \<open>S\<close> have been delivered: they are applied, or they wait for something.\<close>

definition delivered :: "edit_operation set \<Rightarrow> buffer \<Rightarrow> operation set \<Rightarrow> bool" where
  "delivered Q b S \<longleftrightarrow> queue_inv operation_timestamp (deferred_ops b) \<and> set (tree_items (deferred_ops b)) \<subseteq> Edit ` Q \<and>
     (\<forall>p \<in> set (tree_items (deferred_ops b)). \<not> observed_all (buffer_version b) (operation_version p)) \<and>
     (\<forall>p \<in> S. p \<in> set (tree_items (deferred_ops b)) \<or> observed (buffer_version b) (operation_timestamp p))"

lemma causal_inj:
  assumes "causal (Edit ` Q)" "knows_own Q"
  shows "inj_on operation_timestamp (Edit ` Q)"
proof (rule inj_onI)
  fix x y assume xy: "x \<in> Edit ` Q" "y \<in> Edit ` Q" "operation_timestamp x = operation_timestamp y"
  then obtain p q where p: "x = Edit p" "p \<in> Q" "y = Edit q" "q \<in> Q" by blast
  have t: "edit_timestamp p = edit_timestamp q" using xy p by simp
  then have "Clock.covers (edit_timestamp q) (edit_timestamp p)" by (simp add: Clock.covers_def)
  then have "p = q \<or> observed (edit_version q) (edit_timestamp q)" using assms(2) p t unfolding knows_own_def by metis
  moreover have "\<not> observed (edit_version q) (edit_timestamp q)"
    using assms(1) p(4) unfolding causal_def observed_def not_le by force
  ultimately show "x = y" using p by simp
qed

lemma underway_wf: "underway Q v0 u C F base b R \<Longrightarrow> wf_global (buffer_version b)"
  by (simp add: underway_def)

lemma deliver_spec:
  assumes "underway Q v0 u C F base b R" "delivered Q b S" "\<forall>ops \<in> set bs. set ops \<subseteq> Edit ` Q"
    and Q: "causal (Edit ` Q)" "knows_own Q" "4 \<le> max_len"
  shows "\<exists>b' R'. deliver max_len b bs = Some b' \<and> underway Q v0 u C F base b' R' \<and> delivered Q b' (S \<union> set (concat bs))"
  using assms(1-3)
proof (induction bs arbitrary: b R S)
  case (Cons ops bs)
  note D = Cons.prems(2) [unfolded delivered_def]
  have sub: "set ops \<subseteq> Edit ` Q" "set (tree_items (deferred_ops b)) \<subseteq> Edit ` Q" "queue_inv operation_timestamp (deferred_ops b)"
    using Cons.prems(3) D by auto
  obtain b1 R1 where b1: "apply_ops max_len b ops = Some b1" "underway Q v0 u C F base b1 R1"
    using underway_apply_ops [OF Cons.prems(1) sub causal_inj [OF Q(1,2)] Q(2,3)] by blast
  have all: "set (tree_items (deferred_ops b)) \<union> set ops \<subseteq> Edit ` Q" using sub by simp
  note A = apply_ops_spec [OF b1(1) underway_wf [OF Cons.prems(1)] sub(3) causal_mono [OF Q(1) all]
      inj_on_subset [OF causal_inj [OF Q(1,2)] all]]
  have kept: "observed (buffer_version b1) t" if "observed (buffer_version b) t" for t
    using that A(6) unfolding observed_def by (meson order_trans)
  have "p \<in> set (tree_items (deferred_ops b1)) \<or> observed (buffer_version b1) (operation_timestamp p)" if "p \<in> S \<union> set ops" for p
  proof (cases "p \<in> set (tree_items (deferred_ops b)) \<union> set ops")
    case True
    then show ?thesis using A(4) by blast
  next
    case False
    then have "observed (buffer_version b) (operation_timestamp p)" using that D by blast
    then show ?thesis using kept by blast
  qed
  then have "delivered Q b1 (S \<union> set ops)"
    unfolding delivered_def using A(1,3) subset_trans [OF A(2) all] by blast
  from Cons.IH [OF b1(2) this] Cons.prems(3) show ?case using b1(1) by (auto simp: Un_assoc)
qed auto

text \<open>When everything was delivered, nothing is left.\<close>

lemma delivered_all:
  assumes un: "underway Q v0 u C F base b R" and all: "delivered Q b S" "Edit ` Q \<subseteq> S"
  shows "R = []" "tree_items (deferred_ops b) = []"
proof -
  note U = un [unfolded underway_def] and D = all(1) [unfolded delivered_def]
  show R: "R = []"
  proof (cases R)
    case (Cons e R')
    have e: "observed_all (buffer_version b) (edit_version e)" "\<not> observed (buffer_version b) (edit_timestamp e)" "e \<in> Q"
      using U Cons by auto
    have "Edit e \<in> S" using all(2) e(3) by blast
    then have "Edit e \<in> set (tree_items (deferred_ops b))" using D e(2) by fastforce
    then have "\<not> observed_all (buffer_version b) (operation_version (Edit e))" using D by blast
    then show ?thesis using e(1) by simp
  qed
  have "p \<notin> set (tree_items (deferred_ops b))" for p
  proof
    assume p: "p \<in> set (tree_items (deferred_ops b))"
    then obtain e where e: "p = Edit e" "e \<in> Q" using D by blast
    then have "observed_all (buffer_version b) (operation_version p)" using U R by simp
    then show False using D p by blast
  qed
  then show "tree_items (deferred_ops b) = []" by (metis list.set_intros(1) neq_Nil_conv)
qed

text \<open>A replica that shows a document and waits for nothing.\<close>

definition replica :: "content \<Rightarrow> buffer \<Rightarrow> fragment list \<Rightarrow> (nat \<Rightarrow> str) \<Rightarrow> bool" where
  "replica c b fs base \<longleftrightarrow> shares c b fs base \<and> wf_global (buffer_version b) \<and>
     queue_inv operation_timestamp (deferred_ops b) \<and> tree_items (deferred_ops b) = []"

lemma replica_text: "replica c b fs base \<Longrightarrow> buffer_text b = shown c (atoms fs)"
  using holdsD(4) [OF sharesD(1)] unfolding replica_def buffer_text_def by blast

definition same_replica :: "buffer \<Rightarrow> fragment list \<Rightarrow> buffer \<Rightarrow> fragment list \<Rightarrow> bool" where
  "same_replica b fs b' fs' \<longleftrightarrow> list_all2 same_atom (atoms fs) (atoms fs') \<and> undo_map (snapshot b) = undo_map (snapshot b') \<and>
     buffer_version b = buffer_version b'"

definition sent :: "edit_operation list \<Rightarrow> content \<Rightarrow> buffer \<Rightarrow> fragment list \<Rightarrow> bool" where
  "sent es c b fs \<longleftrightarrow> causal (Edit ` set es) \<and> knows_own (set es) \<and> deliverable (buffer_version b) es \<and>
     ops_ok (undo_map (snapshot b)) c (atoms fs) es"

lemma deliverable_distinct: "deliverable v es \<Longrightarrow> distinct es"
proof (induction es arbitrary: v)
  case (Cons e es)
  then show ?case using deliverable_later [of "observe v (edit_timestamp e)" es e] by (auto simp: vv.observed_self)
qed simp

lemma replica_underway:
  assumes "replica c b fs base" "deliverable (buffer_version b) es" "ops_ok (undo_map (snapshot b)) c (atoms fs) es"
    and "list_all2 same_atom (after_ops (undo_map (snapshot b)) (atoms fs) es) F"
  shows "underway (set es) (buffer_version b) (undo_map (snapshot b)) (with_texts c es) F base b es" "delivered (set es) b {}"
  using assms deliverable_distinct [OF assms(2)] by (auto simp: underway_def replica_def delivered_def)

lemma underway_end:
  assumes "underway Q v0 u C F base b []"
  shows "\<exists>fs. shares C b fs base \<and> undo_map (snapshot b) = u \<and> list_all2 same_atom (atoms fs) F"
    "\<forall>s. observed (buffer_version b) s \<longleftrightarrow> observed v0 s \<or> (\<exists>e \<in> Q. Clock.covers (edit_timestamp e) s)"
  using assms by (auto simp: underway_def)

lemma replica_converges:
  assumes r: "replica c b fs base" and es: "sent es c b fs" and bs: "\<Union> (set (map set bs)) = Edit ` set es" and len: "4 \<le> max_len"
    and F: "list_all2 same_atom (after_ops (undo_map (snapshot b)) (atoms fs) es) F"
  shows "\<exists>b' fs'. deliver max_len b bs = Some b' \<and> replica (with_texts c es) b' fs' base \<and> undo_map (snapshot b') = undo_map (snapshot b) \<and>
    list_all2 same_atom (atoms fs') F \<and>
    (\<forall>s. observed (buffer_version b') s \<longleftrightarrow> observed (buffer_version b) s \<or> (\<exists>e \<in> set es. Clock.covers (edit_timestamp e) s))"
proof -
  note E = es [unfolded sent_def]
  have un: "underway (set es) (buffer_version b) (undo_map (snapshot b)) (with_texts c es) F base b es" "delivered (set es) b {}"
    using replica_underway [OF r _ _ F] E by blast+
  have sub: "\<forall>ops \<in> set bs. set ops \<subseteq> Edit ` set es" using bs by auto
  obtain b' R' where b': "deliver max_len b bs = Some b'" "underway (set es) (buffer_version b) (undo_map (snapshot b)) (with_texts c es) F base b' R'"
    "delivered (set es) b' ({} \<union> set (concat bs))"
    using deliver_spec [OF un sub _ _ len] E by blast
  have "Edit ` set es \<subseteq> {} \<union> set (concat bs)" using bs by auto
  note R = delivered_all [OF b'(2,3) this]
  note fin = underway_end [OF b'(2) [unfolded R(1)]]
  obtain fs' where "shares (with_texts c es) b' fs' base" "undo_map (snapshot b') = undo_map (snapshot b)" "list_all2 same_atom (atoms fs') F"
    using fin(1) by blast
  moreover have "queue_inv operation_timestamp (deferred_ops b')" using b'(3) by (simp add: delivered_def)
  ultimately show ?thesis using b'(1) fin(2) R(2) underway_wf [OF b'(2)] unfolding replica_def by blast
qed

lemma replicas_converge:
  assumes r: "replica c b1 fs1 base1" "replica c b2 fs2 base2" "same_replica b1 fs1 b2 fs2" and es: "sent es c b1 fs1"
    and bs: "\<Union> (set (map set bs1)) = Edit ` set es" "\<Union> (set (map set bs2)) = Edit ` set es" and len: "4 \<le> max_len"
  shows "\<exists>b1' fs1' b2' fs2'. deliver max_len b1 bs1 = Some b1' \<and> deliver max_len b2 bs2 = Some b2' \<and>
    replica (with_texts c es) b1' fs1' base1 \<and> replica (with_texts c es) b2' fs2' base2 \<and> same_replica b1' fs1' b2' fs2' \<and>
    buffer_text b1' = shown (with_texts c es) (after_ops (undo_map (snapshot b1)) (atoms fs1) es) \<and> buffer_text b2' = buffer_text b1'"
proof -
  note S = r(3) [unfolded same_replica_def] and E = es [unfolded sent_def]
  define u F where "u = undo_map (snapshot b1)" and "F = after_ops u (atoms fs1) es"
  have F1: "list_all2 same_atom (after_ops u (atoms fs1) es) F" unfolding F_def by (rule same_refl)
  have ok: "ops_ok u c (atoms fs2) es" "list_all2 same_atom F (after_ops u (atoms fs2) es)"
    using same_ops [of "atoms fs1" "atoms fs2" u c es] S E unfolding F_def u_def by blast+
  have F2: "list_all2 same_atom (after_ops u (atoms fs2) es) F"
    using ok(2) by (auto simp: list_all2_conv_all_nth same_atom_def)
  have u2: "undo_map (snapshot b2) = u" using S u_def by simp
  have es2: "sent es c b2 fs2" using E S ok(1) unfolding sent_def u2 by simp
  obtain b1' fs1' where b1: "deliver max_len b1 bs1 = Some b1'" "replica (with_texts c es) b1' fs1' base1" "undo_map (snapshot b1') = u"
    "list_all2 same_atom (atoms fs1') F"
    "\<forall>s. observed (buffer_version b1') s \<longleftrightarrow> observed (buffer_version b1) s \<or> (\<exists>e \<in> set es. Clock.covers (edit_timestamp e) s)"
    using replica_converges [OF r(1) es bs(1) len F1 [unfolded u_def]] unfolding u_def by blast
  obtain b2' fs2' where b2: "deliver max_len b2 bs2 = Some b2'" "replica (with_texts c es) b2' fs2' base2" "undo_map (snapshot b2') = u"
    "list_all2 same_atom (atoms fs2') F"
    "\<forall>s. observed (buffer_version b2') s \<longleftrightarrow> observed (buffer_version b2) s \<or> (\<exists>e \<in> set es. Clock.covers (edit_timestamp e) s)"
    using replica_converges [OF r(2) es2 bs(2) len, unfolded u2, OF F2] by blast
  have rest: "list_all2 same_atom F (atoms fs2')" using b2(4) by (auto simp: list_all2_conv_all_nth same_atom_def)
  have same: "list_all2 same_atom (atoms fs1') (atoms fs2')" by (rule same_trans [OF b1(4) rest])
  have "buffer_version b1' = buffer_version b2'"
    using b1(2,5) b2(2,5) S by (intro observed_ext) (simp_all add: replica_def)
  then have "same_replica b1' fs1' b2' fs2'" using same b1(3) b2(3) by (simp add: same_replica_def)
  moreover have "buffer_text b1' = shown (with_texts c es) (after_ops (undo_map (snapshot b1)) (atoms fs1) es)"
    unfolding replica_text [OF b1(2)] using same_shown(1) [OF b1(4)] by (simp add: F_def u_def)
  moreover have "buffer_text b2' = buffer_text b1'"
    unfolding replica_text [OF b1(2)] replica_text [OF b2(2)] by (rule same_shown(1) [OF same, symmetric])
  ultimately show ?thesis using b1(1,2) b2(1,2) by blast
qed

end
