(* ===== verification/Replica_Properties.thy ===== *)
theory Replica_Properties
  imports Collaboration
begin

text \<open>
  What replicas of a buffer promise each other: an operation that arrives does to the document what the edit did at its
  author, two replicas that edit at the same time agree once they have exchanged their operations, and so do replicas that
  receive the same operations in different orders.
\<close>

subsection \<open>An edit as its author sends it\<close>

lemma settled_known: "settled u v D \<Longrightarrow> known_text c v D = bytes_of c D"
  by (simp add: settled_def known_text_def filter_id_conv)

lemma buffer_replica:
  assumes "buffer_ok c b fs" "tracking (subscriptions b) (buffer_text b) base" "tree_items (deferred_ops b) = []"
  shows "replica c b fs base"
  using buffer_okD [OF assms(1)] history_okD(2) assms(2,3) unfolding replica_def shares_def by blast

lemma settled_edit_spec:
  assumes ok: "buffer_ok c b fs" and set: "settled (undo_map (snapshot b)) (buffer_version b) (atoms fs)"
    and es: "edits_ok (buffer_text b) 0 es" and clock: "tvalue (lamport_clock b) < - 2" and len: "4 \<le> max_len"
    and subs: "tracking (subscriptions b) (buffer_text b) base" and queue: "tree_items (deferred_ops b) = []"
  shows "\<exists>op b' fs'. buffer_edit max_len now now' b es = Some (Edit op, b') \<and> buffer_ok (with_text c op) b' fs' \<and>
    replica (with_text c op) b' fs' base \<and> buffer_text b' = edit_text (buffer_text b) 0 es \<and>
    atoms fs' = after_op (undo_map (snapshot b)) (atoms fs) op \<and> undo_map (snapshot b') = undo_map (snapshot b) \<and>
    op_ok c (atoms fs) op \<and> edit_version op = buffer_version b \<and> buffer_version b' = observe (buffer_version b) (edit_timestamp op) \<and>
    replica_id (edit_timestamp op) = replica_id (lamport_clock b) \<and> (\<forall>r. get (buffer_version b) r < tvalue (edit_timestamp op))"
proof -
  note B = buffer_okD [OF ok]
  obtain op b' fs' rs where E: "buffer_edit max_len now now' b es = Some (Edit op, b')"
    "buffer_ok (record_text c (edit_timestamp op) (new_text_of es)) b' fs'" "buffer_text b' = edit_text (buffer_text b) 0 es"
    "tracking (subscriptions b') (buffer_text b') base"
    "op = \<lparr>edit_timestamp = edit_timestamp op, edit_version = buffer_version b, edit_ranges = map fst rs, edit_new_text = map snd rs\<rparr>"
    "\<not> observed (buffer_version b) (edit_timestamp op)" "buffer_version b' = observe (buffer_version b) (edit_timestamp op)"
    "ranges_ok (length (atoms fs)) 0 rs" "same_ranges c (atoms fs) rs es" "edits_ok (bytes_of c (atoms fs)) 0 rs"
    "atoms fs' = edit_atoms (edit_timestamp op) 0 (atoms fs) 0 rs"
    "\<forall>r. get (buffer_version b) r < tvalue (edit_timestamp op)" "replica_id (edit_timestamp op) = replica_id (lamport_clock b)"
    "undo_map (snapshot b') = undo_map (snapshot b)" "deferred_ops b' = deferred_ops b"
    using buffer_edit_spec [OF ok es clock len subs, of now now'] by blast
  let ?t = "edit_timestamp op" and ?v = "buffer_version b"
  have ver: "edit_version op = ?v" "edit_ranges op = map fst rs" "edit_new_text op = map snd rs" by (subst E(5), simp)+
  have rs: "edits_of op = rs" by (simp add: edits_of_def ver zip_map_fst_snd)
  have "concat (map snd rs) = new_text_of es" by (simp add: same_ranges_texts [OF E(9)] new_text_of_def)
  then have c: "with_text c op = record_text c ?t (new_text_of es)" by (simp add: with_text_def rs)
  have known: "known ?v x" if "x \<in> set (atoms fs)" for x using set that by (simp add: settled_def)
  have below: "atom_time x < ?t" if "x \<in> set (atoms fs)" for x
  proof -
    have "tvalue (atom_time x) \<le> get ?v (replica_id (atom_time x))" using known [OF that] by (simp add: known_def observed_def)
    also have "\<dots> < tvalue ?t" using E(12) by blast
    finally show ?thesis by (simp add: lamport_less_iff)
  qed
  then have new: "\<forall>x \<in> set (atoms fs). atom_time x \<noteq> ?t" by fastforce
  have pos: "0 < tvalue ?t" using spec [OF E(12), of 0] by (metis word_gt_0 word_not_simps(1))
  have "op_ok c (atoms fs) op"
    using E(6,10) pos below new settled_known [OF set, of c] by (auto simp: op_ok_def rs ver causal_doc_def)
  moreover have "atoms fs' = after_op (undo_map (snapshot b)) (atoms fs) op"
    using edit_as_remote [OF set _ E(8), of ?t 0] below by (simp add: E(11) after_op_def ver rs)
  moreover have "replica (with_text c op) b' fs' base" unfolding c by (rule buffer_replica [OF E(2,4)]) (simp add: E(15) queue)
  ultimately show ?thesis using E(1-3,7,12-14) ver(1) c by (intro exI [of _ op] exI [of _ b'] exI [of _ fs']) simp
qed

subsection \<open>One operation arrives\<close>

lemma observed_all_refl: "wf_global v \<Longrightarrow> observed_all v v"
  by (simp add: observed_all_get)

lemma op_sent:
  assumes "wf_global (edit_version op)" "\<forall>r. get (edit_version op) r < tvalue (edit_timestamp op)" "op_ok c (atoms fs) op"
    and "observed_all (buffer_version b) (edit_version op)" "\<not> observed (buffer_version b) (edit_timestamp op)"
  shows "sent [op] c b fs"
  using assms by (simp add: sent_def causal_def knows_own_def operation_replica_id_def)

lemma op_arrives:
  assumes "replica c b fs base" "sent [op] c b fs" "4 \<le> max_len"
  shows "\<exists>b' fs'. apply_ops max_len b [Edit op] = Some b' \<and> replica (with_text c op) b' fs' base \<and>
    undo_map (snapshot b') = undo_map (snapshot b) \<and>
    list_all2 same_atom (atoms fs') (after_op (undo_map (snapshot b)) (atoms fs) op) \<and>
    buffer_version b' = observe (buffer_version b) (edit_timestamp op)"
proof -
  have "list_all2 same_atom (after_ops (undo_map (snapshot b)) (atoms fs) [op]) (after_op (undo_map (snapshot b)) (atoms fs) op)"
    by (simp add: same_refl)
  from replica_converges [OF assms(1,2) _ assms(3) this, of "[[Edit op]]"] obtain b' fs' where
    b': "apply_ops max_len b [Edit op] = Some b'" "replica (with_text c op) b' fs' base" "undo_map (snapshot b') = undo_map (snapshot b)"
    "list_all2 same_atom (atoms fs') (after_op (undo_map (snapshot b)) (atoms fs) op)"
    "\<forall>s. observed (buffer_version b') s \<longleftrightarrow> observed (buffer_version b) s \<or> Clock.covers (edit_timestamp op) s"
    by (auto simp: Option.bind_eq_Some_conv)
  have "buffer_version b' = observe (buffer_version b) (edit_timestamp op)"
    using b'(2,5) assms(1) by (intro observed_ext) (simp_all add: replica_def wf_observe vv.observed_observe)
  then show ?thesis using b'(1-4) by blast
qed

subsection \<open>Two edits at the same time\<close>

lemma after_concurrent:
  assumes "op_ok c D p" "op_ok c D q" "concurrent p q"
  shows "op_ok (with_text c p) (after_op u D p) q"
proof -
  have p: "\<forall>a \<in> set D. atom_time a \<noteq> edit_timestamp p" "\<forall>a \<in> set D. atom_time a \<noteq> edit_timestamp q"
    using assms(1,2) by (simp_all add: op_ok_def)
  have "\<forall>a \<in> set (after_op u D p). atom_time a \<noteq> edit_timestamp q"
    using after_op_times(2) [OF p(1), of u] p(2) assms(3) by (auto simp: concurrent_def)
  then show ?thesis
    using assms(2) after_op_known [OF p(1), of "edit_version q"] assms(3) by (simp add: op_ok_def concurrent_def)
qed

lemma same_sym: "list_all2 same_atom xs ys \<Longrightarrow> list_all2 same_atom ys xs"
  by (auto simp: list_all2_conv_all_nth same_atom_def)

lemma same_atom_shown:
  assumes "same_atom x y"
  shows "known v x = known v y" "was_shown u v x = was_shown u v y" "atom_visible x = atom_visible y"
proof -
  have *: "atom_time x = atom_time y" "set (atom_deletions x) = set (atom_deletions y)"
    using same_atom_time [OF assms] assms mset_eq_setD by (auto simp only: same_atom_def)
  show "known v x = known v y" "was_shown u v x = was_shown u v y" "atom_visible x = atom_visible y"
    using assms by (simp_all add: known_def was_shown_def * same_atom_def)
qed

lemma same_text:
  assumes "replica c b1 fs1 base1" "replica c b2 fs2 base2" "same_replica b1 fs1 b2 fs2"
  shows "buffer_text b1 = buffer_text b2"
  unfolding replica_text [OF assms(1)] replica_text [OF assms(2)] using assms(3) same_shown(1) by (simp add: same_replica_def)

lemma replay_spec:
  assumes ok: "buffer_ok c b1 fs1" and r: "replica c b2 fs2 base2" "same_replica b1 fs1 b2 fs2"
    and set: "settled (undo_map (snapshot b1)) (buffer_version b1) (atoms fs1)" and es: "edits_ok (buffer_text b1) 0 es"
    and rest: "tvalue (lamport_clock b1) < - 2" "4 \<le> max_len" "tracking (subscriptions b1) (buffer_text b1) base1" "tree_items (deferred_ops b1) = []"
  shows "\<exists>op b1' b2' c' fs1' fs2'. buffer_edit max_len now now' b1 es = Some (Edit op, b1') \<and> apply_ops max_len b2 [Edit op] = Some b2' \<and>
    buffer_text b2' = edit_text (buffer_text b2) 0 es \<and> replica c' b1' fs1' base1 \<and> replica c' b2' fs2' base2 \<and>
    same_replica b1' fs1' b2' fs2'"
proof -
  note S = r(2) [unfolded same_replica_def]
  define u v where "u = undo_map (snapshot b1)" and "v = buffer_version b1"
  have uv: "undo_map (snapshot b2) = u" "buffer_version b2 = v" using S by (simp_all add: u_def v_def)
  have wf: "wf_global v" using buffer_okD(6) [OF ok] by (simp add: v_def)
  obtain op b1' fs1' where E: "buffer_edit max_len now now' b1 es = Some (Edit op, b1')"
    "replica (with_text c op) b1' fs1' base1" "buffer_text b1' = edit_text (buffer_text b1) 0 es"
    "atoms fs1' = after_op u (atoms fs1) op" "undo_map (snapshot b1') = u" "op_ok c (atoms fs1) op" "edit_version op = v"
    "buffer_version b1' = observe v (edit_timestamp op)" "\<forall>r. get v r < tvalue (edit_timestamp op)"
    using settled_edit_spec [OF ok set es rest, of now now'] unfolding u_def v_def by blast
  have same: "list_all2 same_atom (atoms fs1) (atoms fs2)" using S by blast
  note q = same_op [OF same E(6)]
  have "\<not> observed v (edit_timestamp op)" using E(9) by (simp add: observed_def not_le)
  then have "sent [op] c b2 fs2" using op_sent [OF _ _ q(1), of b2] wf E(7,9) uv observed_all_refl [OF wf] by simp
  then obtain b2' fs2' where A: "apply_ops max_len b2 [Edit op] = Some b2'" "replica (with_text c op) b2' fs2' base2"
    "undo_map (snapshot b2') = u" "list_all2 same_atom (atoms fs2') (after_op u (atoms fs2) op)"
    "buffer_version b2' = observe v (edit_timestamp op)"
    using op_arrives [OF r(1) _ rest(2)] unfolding uv by blast
  have "list_all2 same_atom (atoms fs1') (atoms fs2')"
    unfolding E(4) by (rule same_trans [OF q(2) same_sym [OF A(4)]])
  then have s: "same_replica b1' fs1' b2' fs2'" using E(5,8) A(3,5) by (simp add: same_replica_def)
  have "buffer_text b1 = buffer_text b2"
    using holdsD(4) [OF buffer_okD(1) [OF ok]] same_shown(1) [OF same] replica_text [OF r(1)] by (simp add: buffer_text_def)
  then have "buffer_text b2' = edit_text (buffer_text b2) 0 es" using same_text [OF E(2) A(2) s] E(3) by simp
  then show ?thesis using E(1,2) A(1,2) s by blast
qed

lemma settled_Cons: "settled u v (x # D) \<longleftrightarrow> (known v x \<and> (was_shown u v x \<longleftrightarrow> atom_visible x)) \<and> settled u v D"
  by (simp add: settled_def)

lemma settled_same: "list_all2 same_atom D D' \<Longrightarrow> settled u v D \<Longrightarrow> settled u v D'"
proof (induction D D' rule: list_all2_induct)
  case (Cons x D y D')
  have "settled u v D'" using Cons.IH Cons.prems unfolding settled_Cons by blast
  then show ?case using Cons.prems unfolding settled_Cons same_atom_shown [OF Cons.hyps(1)] by blast
qed simp

lemma exchange_spec:
  assumes ok: "buffer_ok c b1 fs1" "buffer_ok c b2 fs2" "same_replica b1 fs1 b2 fs2"
    and set: "settled (undo_map (snapshot b1)) (buffer_version b1) (atoms fs1)"
    and ids: "replica_id (lamport_clock b1) \<noteq> replica_id (lamport_clock b2)"
    and es: "edits_ok (buffer_text b1) 0 es1" "edits_ok (buffer_text b2) 0 es2"
    and clock: "tvalue (lamport_clock b1) < - 2" "tvalue (lamport_clock b2) < - 2" and len: "4 \<le> max_len"
    and subs: "tracking (subscriptions b1) (buffer_text b1) base1" "tracking (subscriptions b2) (buffer_text b2) base2"
    and queue: "tree_items (deferred_ops b1) = []" "tree_items (deferred_ops b2) = []"
  shows "\<exists>op1 b1' op2 b2' b1'' b2'' c' fs1'' fs2''. buffer_edit max_len now1 now1' b1 es1 = Some (Edit op1, b1') \<and>
    buffer_edit max_len now2 now2' b2 es2 = Some (Edit op2, b2') \<and>
    buffer_text b1' = edit_text (buffer_text b1) 0 es1 \<and> buffer_text b2' = edit_text (buffer_text b2) 0 es2 \<and>
    apply_ops max_len b1' [Edit op2] = Some b1'' \<and> apply_ops max_len b2' [Edit op1] = Some b2'' \<and>
    replica c' b1'' fs1'' base1 \<and> replica c' b2'' fs2'' base2 \<and> same_replica b1'' fs1'' b2'' fs2''"
proof -
  note S = ok(3) [unfolded same_replica_def]
  define u v where "u = undo_map (snapshot b1)" and "v = buffer_version b1"
  have uv: "undo_map (snapshot b2) = u" "buffer_version b2 = v" using S by (simp_all add: u_def v_def)
  have wf: "wf_global v" using buffer_okD(6) [OF ok(1)] by (simp add: v_def)
  have set2: "settled u v (atoms fs2)" using settled_same [OF _ set] S by (simp add: u_def v_def)
  obtain op1 b1' fs1' where E1: "buffer_edit max_len now1 now1' b1 es1 = Some (Edit op1, b1')"
    "replica (with_text c op1) b1' fs1' base1" "buffer_text b1' = edit_text (buffer_text b1) 0 es1"
    "atoms fs1' = after_op u (atoms fs1) op1" "undo_map (snapshot b1') = u" "op_ok c (atoms fs1) op1" "edit_version op1 = v"
    "buffer_version b1' = observe v (edit_timestamp op1)" "replica_id (edit_timestamp op1) = replica_id (lamport_clock b1)"
    "\<forall>r. get v r < tvalue (edit_timestamp op1)"
    using settled_edit_spec [OF ok(1) set es(1) clock(1) len subs(1) queue(1), of now1 now1'] unfolding u_def v_def by blast
  obtain op2 b2' fs2' where E2: "buffer_edit max_len now2 now2' b2 es2 = Some (Edit op2, b2')"
    "replica (with_text c op2) b2' fs2' base2" "buffer_text b2' = edit_text (buffer_text b2) 0 es2"
    "atoms fs2' = after_op u (atoms fs2) op2" "undo_map (snapshot b2') = u" "op_ok c (atoms fs2) op2" "edit_version op2 = v"
    "buffer_version b2' = observe v (edit_timestamp op2)" "replica_id (edit_timestamp op2) = replica_id (lamport_clock b2)"
    "\<forall>r. get v r < tvalue (edit_timestamp op2)"
    using settled_edit_spec [OF ok(2) _ es(2) clock(2) len subs(2) queue(2), unfolded uv, OF set2, of now2 now2'] by blast
  have new: "\<not> observed v (edit_timestamp op1)" "\<not> observed v (edit_timestamp op2)"
    using E1(10) E2(10) by (simp_all add: observed_def not_le)
  have conc: "concurrent op1 op2" "concurrent op2 op1"
    using new E1(7,9) E2(7,9) ids by (auto simp: concurrent_def)
  have same: "list_all2 same_atom (atoms fs1) (atoms fs2)" using S by blast
  note q1 = same_op [OF same_sym [OF same] E2(6)]
  note q2 = same_op [OF same E1(6)]
  have ok1: "op_ok (with_text c op1) (atoms fs1') op2" unfolding E1(4) by (rule after_concurrent [OF E1(6) q1(1) conc(1)])
  have ok2: "op_ok (with_text c op2) (atoms fs2') op1" unfolding E2(4) by (rule after_concurrent [OF E2(6) q2(1) conc(2)])
  have fresh: "\<not> observed (buffer_version b1') (edit_timestamp op2)" "\<not> observed (buffer_version b2') (edit_timestamp op1)"
    "observed_all (buffer_version b1') v" "observed_all (buffer_version b2') v"
    using new ids E1(9) E2(9) observed_all_more [OF wf observed_all_refl [OF wf]]
    by (simp_all add: E1(8) E2(8) vv.observed_observe Clock.covers_def)
  have s1: "sent [op2] (with_text c op1) b1' fs1'" using op_sent [OF _ _ ok1] wf E2(7,10) fresh by simp
  have s2: "sent [op1] (with_text c op2) b2' fs2'" using op_sent [OF _ _ ok2] wf E1(7,10) fresh by simp
  obtain b1'' fs1'' where A1: "apply_ops max_len b1' [Edit op2] = Some b1''" "replica (with_text (with_text c op1) op2) b1'' fs1'' base1"
    "undo_map (snapshot b1'') = u" "list_all2 same_atom (atoms fs1'') (after_op u (after_op u (atoms fs1) op1) op2)"
    "buffer_version b1'' = observe (observe v (edit_timestamp op1)) (edit_timestamp op2)"
    using op_arrives [OF E1(2) s1 len] unfolding E1(4,5,8) by blast
  obtain b2'' fs2'' where A2: "apply_ops max_len b2' [Edit op1] = Some b2''" "replica (with_text (with_text c op2) op1) b2'' fs2'' base2"
    "undo_map (snapshot b2'') = u" "list_all2 same_atom (atoms fs2'') (after_op u (after_op u (atoms fs2) op2) op1)"
    "buffer_version b2'' = observe (observe v (edit_timestamp op2)) (edit_timestamp op1)"
    using op_arrives [OF E2(2) s2 len] unfolding E2(4,5,8) by blast
  note sw = swap_ops [OF E1(6) ok1 [unfolded E1(4)] conc(1)]
  have "list_all2 same_atom (after_op u (after_op u (atoms fs1) op2) op1) (after_op u (after_op u (atoms fs2) op2) op1)"
    by (rule same_op(2) [OF same_op(2) [OF same sw(1)] sw(2)])
  then have "list_all2 same_atom (atoms fs1'') (atoms fs2'')"
    using same_trans [OF A1(4) same_trans [OF sw(3)]] same_trans same_sym [OF A2(4)] by blast
  then have "same_replica b1'' fs1'' b2'' fs2''"
    using A1(3,5) A2(3,5) observe_commute [OF wf] by (simp add: same_replica_def)
  then show ?thesis using E1(1,3) E2(1,3) A1(1,2) A2(1,2) with_text_commute [OF conc(1), of c] by metis
qed

subsection \<open>New replicas\<close>

lemma undone_default: "was_undone undo_map_default e v = Some False"
proof -
  have "was_undone undo_map_default e v = map_option (\<lambda>n. n mod 2 = 1)
      (Option.bind (undo_seek undo_map_default e) (\<lambda>c. undo_loop (length (tree_items undo_map_default) + 1) (observed v) e c 0))"
    by (simp add: was_undone_def map_option_bind o_def del: undo_loop.simps)
  then show ?thesis unfolding undo_query [OF undo_default_spec(1)] by (simp add: undo_default_spec)
qed

lemma settled_new: "observed v t \<Longrightarrow> settled undo_map_default v (new_atoms t 0 n)"
  by (auto simp: settled_def new_atoms_def new_atom_def known_def was_shown_def undone_default)

text \<open>The replicas that the witnesses use share the initial text.\<close>

definition demo_content :: content where
  "demo_content = record_text (\<lambda>_ _. 0) (Lamport 1 0) [97, 98, 10, 195, 169]"

lemma demo_replica:
  assumes "rid = 8 \<or> rid = 9"
  obtains b fs where "buffer_new 16 300 Unix rid 1 demo_text = Some b"
    "buffer_ok demo_content b fs" "buffer_text b = [97, 98, 10, 195, 169]"
    "subscriptions b = topic_default" "tvalue (lamport_clock b) < - 2" "replica_id (lamport_clock b) = rid"
    "atoms fs = new_atoms (Lamport 1 0) 0 5" "undo_map (snapshot b) = undo_map_default" "buffer_version b = observe global_new (Lamport 1 0)"
    "tree_items (deferred_ops b) = []"
proof -
  have t: "lamport_new LOCAL = Lamport 1 0" by code_simp
  have two: "(2 :: u32) < - 2" by simp
  obtain b fs where b: "buffer_new 16 300 Unix rid 1 demo_text = Some b" "buffer_text b = normalize demo_text" "subscriptions b = topic_default"
    "buffer_ok (record_text (\<lambda>_ _. 0) (lamport_new LOCAL) (normalize demo_text)) b fs" "tvalue (lamport_clock b) \<le> 2"
    "pristine rid (normalize demo_text) b fs"
    using buffer_new_spec [OF _ demo_text_facts(1), of 16 300 Unix rid 1 "\<lambda>_ _. 0"] by auto
  have len: "length [97, 98, 10, 195, 169 :: u8] = 5" by simp
  note p = b(6) [unfolded pristine_def demo_text_facts(2) t len]
  show thesis
  proof (rule that [OF b(1)])
    show "buffer_ok demo_content b fs" "buffer_text b = [97, 98, 10, 195, 169]"
      using b(2,4) by (simp_all only: demo_text_facts(2) t demo_content_def)
  qed (use b(3) p le_less_trans [OF b(5) two] in \<open>simp_all only: list.distinct if_False\<close>)
qed

lemma tracking_new: "tracking topic_default tx (\<lambda>_. [])"
  by (simp add: tracking_def topic_default_def)

lemma demo_remote_ok:
  "edits_ok (known_text demo_content (observe global_new (Lamport 1 0)) (new_atoms (Lamport 1 0) 0 5)) 0
     (zip [(1, 2), (3, 5)] [[120, 121], []])"
  by code_simp

text \<open>Two operations of different replicas for the same place, and one of the second replica that knows the first.\<close>

definition demo_sent :: "edit_operation list" where
  "demo_sent =
     [\<lparr>edit_timestamp = Lamport 2 10, edit_version = observe global_new (Lamport 1 0), edit_ranges = [(1, 2)], edit_new_text = [[120, 121]]\<rparr>,
      \<lparr>edit_timestamp = Lamport 3 11, edit_version = observe (observe global_new (Lamport 1 0)) (Lamport 2 10), edit_ranges = [(5, 7)],
        edit_new_text = [[122]]\<rparr>,
      \<lparr>edit_timestamp = Lamport 2 12, edit_version = observe global_new (Lamport 1 0), edit_ranges = [(1, 1)], edit_new_text = [[113]]\<rparr>]"

lemma demo_sent_ok: "ops_ok undo_map_default demo_content (new_atoms (Lamport 1 0) 0 5) demo_sent"
  by code_simp

lemma demo_sent_deliverable: "deliverable (observe global_new (Lamport 1 0)) demo_sent"
  by code_simp

lemma demo_sent_text:
  "shown (with_texts demo_content demo_sent) (after_ops undo_map_default (new_atoms (Lamport 1 0) 0 5) demo_sent) = [97, 113, 120, 121, 10, 122]"
  by code_simp

lemma demo_sent_causal: "causal (Edit ` set demo_sent)" "knows_own (set demo_sent)"
  by (auto simp: causal_def knows_own_def demo_sent_def operation_replica_id_def get_observe wf_observe wf_global_new get_global_new
      lamport_less_iff observed_def Clock.covers_def)

lemma demo_pair:
  obtains b1 fs1 b2 fs2 where "buffer_new 16 300 Unix 8 1 demo_text = Some b1" "buffer_new 16 300 Unix 9 1 demo_text = Some b2"
    "buffer_ok demo_content b1 fs1" "buffer_ok demo_content b2 fs2" "same_replica b1 fs1 b2 fs2"
    "settled (undo_map (snapshot b1)) (buffer_version b1) (atoms fs1)" "replica_id (lamport_clock b1) \<noteq> replica_id (lamport_clock b2)"
    "buffer_text b1 = [97, 98, 10, 195, 169]" "buffer_text b2 = [97, 98, 10, 195, 169]"
    "tvalue (lamport_clock b1) < - 2" "tvalue (lamport_clock b2) < - 2"
    "tracking (subscriptions b1) (buffer_text b1) (\<lambda>_. [])" "tracking (subscriptions b2) (buffer_text b2) (\<lambda>_. [])"
    "tree_items (deferred_ops b1) = []" "tree_items (deferred_ops b2) = []"
    "atoms fs1 = new_atoms (Lamport 1 0) 0 5" "undo_map (snapshot b1) = undo_map_default" "buffer_version b1 = observe global_new (Lamport 1 0)"
proof -
  obtain b1 fs1 where 1: "buffer_new 16 300 Unix 8 1 demo_text = Some b1" "buffer_ok demo_content b1 fs1" "buffer_text b1 = [97, 98, 10, 195, 169]"
    "subscriptions b1 = topic_default" "tvalue (lamport_clock b1) < - 2" "replica_id (lamport_clock b1) = 8"
    "atoms fs1 = new_atoms (Lamport 1 0) 0 5" "undo_map (snapshot b1) = undo_map_default"
    "buffer_version b1 = observe global_new (Lamport 1 0)" "tree_items (deferred_ops b1) = []"
    using demo_replica [of 8] by metis
  obtain b2 fs2 where 2: "buffer_new 16 300 Unix 9 1 demo_text = Some b2" "buffer_ok demo_content b2 fs2" "buffer_text b2 = [97, 98, 10, 195, 169]"
    "subscriptions b2 = topic_default" "tvalue (lamport_clock b2) < - 2" "replica_id (lamport_clock b2) = 9"
    "atoms fs2 = new_atoms (Lamport 1 0) 0 5" "undo_map (snapshot b2) = undo_map_default"
    "buffer_version b2 = observe global_new (Lamport 1 0)" "tree_items (deferred_ops b2) = []"
    using demo_replica [of 9] by metis
  show thesis
  proof (rule that [OF 1(1) 2(1) 1(2) 2(2)])
    show "same_replica b1 fs1 b2 fs2" using same_refl by (simp add: same_replica_def 1 2)
    show "settled (undo_map (snapshot b1)) (buffer_version b1) (atoms fs1)"
      unfolding 1(7-9) by (rule settled_new) (simp add: vv.observed_self)
    show "replica_id (lamport_clock b1) \<noteq> replica_id (lamport_clock b2)" by (simp add: 1(6) 2(6))
    show "tracking (subscriptions b1) (buffer_text b1) (\<lambda>_. [])" "tracking (subscriptions b2) (buffer_text b2) (\<lambda>_. [])"
      by (simp_all add: 1(4) 2(4) tracking_new)
  qed (fact 1 2)+
qed

subsection \<open>The properties\<close>

text \<open>C3 (remote_edit_refines_document): an operation that arrives returns when its ranges are sorted, disjoint and at
  character boundaries of the text that its author knew, its timestamp is new and above everything its author knew. The document keeps
  its bytes in their order, with their identities, the new ones are numbered in order, their places and the bytes that are deleted
  are those of the specification, and the patch leads from the old visible text to the new one.\<close>

theorem remote_edit_refines_document:
  assumes "holds c s fs" "edits_ok (known_text c v (atoms fs)) 0 (zip ranges news)" "fresh_in t fs" "causal_at v t fs" "4 \<le> max_len"
  shows "\<exists>s' p fs'. apply_remote_edit max_len s v ranges news t = Some (s', p) \<and>
    holds (record_text c t (concat (map snd (zip ranges news)))) s' fs' \<and>
    atoms fs' = remote_atoms (undo_map s) v t 0 (atoms fs) 0 (zip ranges news) \<and>
    map atom_id (filter (\<lambda>a. atom_time a \<noteq> t) (atoms fs')) = map atom_id (atoms fs) \<and>
    map atom_id (filter (\<lambda>a. atom_time a = t) (atoms fs')) = map (Pair t) [0..<length (concat (map snd (zip ranges news)))] \<and>
    transforms p 0 0 (rope_text (visible_text s)) (rope_text (visible_text s'))"
proof -
  obtain s' p fs' where s': "apply_remote_edit max_len s v ranges news t = Some (s', p)"
    "holds (record_text c t (concat (map snd (zip ranges news)))) s' fs'"
    "atoms fs' = remote_atoms (undo_map s) v t 0 (atoms fs) 0 (zip ranges news)"
    "transforms p 0 0 (rope_text (visible_text s)) (rope_text (visible_text s'))"
    using remote_edit_spec [OF assms] by blast
  then show ?thesis using remote_atoms_ids [OF fresh_atoms [OF assms(3)], of "undo_map s" v 0 0 "zip ranges news"]
    by (intro exI [of _ s'] exI [of _ p] exI [of _ fs']) simp
qed

theorem remote_edit_refines_document_witness:
  "\<exists>b s' p. buffer_new 16 300 Unix 8 1 demo_text = Some b \<and>
    apply_remote_edit 16 (snapshot b) (buffer_version b) [(1, 2), (3, 5)] [[120, 121], []] (Lamport 7 9) = Some (s', p) \<and>
    rope_text (visible_text s') = [97, 120, 121, 10] \<and>
    transforms p 0 0 (rope_text (visible_text (snapshot b))) (rope_text (visible_text s'))"
proof -
  obtain b fs where b: "buffer_new 16 300 Unix 8 1 demo_text = Some b" "buffer_ok demo_content b fs"
    "atoms fs = new_atoms (Lamport 1 0) 0 5" "undo_map (snapshot b) = undo_map_default" "buffer_version b = observe global_new (Lamport 1 0)"
    using demo_replica [of 8] by metis
  note h = buffer_okD(1) [OF b(2)]
  have new: "fresh_in (Lamport 7 9) fs" "causal_at (buffer_version b) (Lamport 7 9) fs"
    unfolding fresh_in_doc [OF h] causal_at_doc [OF h] b(3) by (auto simp: new_atoms_def new_atom_def causal_doc_def lamport_less_iff)
  have es: "edits_ok (known_text demo_content (buffer_version b) (atoms fs)) 0 (zip [(1, 2), (3, 5)] [[120, 121], []])"
    unfolding b(3,5) by (rule demo_remote_ok)
  have "(4 :: nat) \<le> 16" by simp
  from remote_edit_refines_document [OF h es new this]
  obtain s' p fs' where s': "apply_remote_edit 16 (snapshot b) (buffer_version b) [(1, 2), (3, 5)] [[120, 121], []] (Lamport 7 9) = Some (s', p)"
    "holds (record_text demo_content (Lamport 7 9) (concat (map snd (zip [(1 :: nat, 2 :: nat), (3, 5)] [[120, 121], []])))) s' fs'"
    "atoms fs' = remote_atoms (undo_map (snapshot b)) (buffer_version b) (Lamport 7 9) 0 (atoms fs) 0 (zip [(1, 2), (3, 5)] [[120, 121], []])"
    "transforms p 0 0 (rope_text (visible_text (snapshot b))) (rope_text (visible_text s'))"
    by blast
  have "rope_text (visible_text s') = [97, 120, 121, 10]"
    unfolding holdsD(4) [OF s'(2)] s'(3) b(3-5) by code_simp
  then show ?thesis using b(1) s'(1,4) by blast
qed

text \<open>C6 (operation_replays_edit): the operation that an edit of one replica returns does to the text of another replica of
  the same document what the edit did to the text of the first, and the second has then the version of the first.\<close>

theorem operation_replays_edit:
  assumes "buffer_ok c b1 fs1" "replica c b2 fs2 base2" "same_replica b1 fs1 b2 fs2"
    and "settled (undo_map (snapshot b1)) (buffer_version b1) (atoms fs1)" "edits_ok (buffer_text b1) 0 es"
    and "tvalue (lamport_clock b1) < - 2" "4 \<le> max_len" "tracking (subscriptions b1) (buffer_text b1) base1" "tree_items (deferred_ops b1) = []"
  shows "\<exists>op b1' b2' c' fs1' fs2'. buffer_edit max_len now now' b1 es = Some (Edit op, b1') \<and> apply_ops max_len b2 [Edit op] = Some b2' \<and>
    buffer_text b2' = edit_text (buffer_text b2) 0 es \<and> replica c' b1' fs1' base1 \<and> replica c' b2' fs2' base2 \<and>
    same_replica b1' fs1' b2' fs2'"
  by (rule replay_spec [OF assms])

theorem operation_replays_edit_witness:
  "\<exists>b1 b2 op b1' b2'. buffer_new 16 300 Unix 8 1 demo_text = Some b1 \<and> buffer_new 16 300 Unix 9 1 demo_text = Some b2 \<and>
    buffer_edit 16 5 6 b1 demo_edits = Some (Edit op, b1') \<and> apply_ops 16 b2 [Edit op] = Some b2' \<and> buffer_text b2' = [97, 120, 121, 10]"
proof -
  obtain b1 fs1 b2 fs2 where b: "buffer_new 16 300 Unix 8 1 demo_text = Some b1" "buffer_new 16 300 Unix 9 1 demo_text = Some b2"
    "buffer_ok demo_content b1 fs1" "buffer_ok demo_content b2 fs2" "same_replica b1 fs1 b2 fs2"
    "settled (undo_map (snapshot b1)) (buffer_version b1) (atoms fs1)"
    "buffer_text b1 = [97, 98, 10, 195, 169]" "buffer_text b2 = [97, 98, 10, 195, 169]" "tvalue (lamport_clock b1) < - 2"
    "tracking (subscriptions b1) (buffer_text b1) (\<lambda>_. [])" "tracking (subscriptions b2) (buffer_text b2) (\<lambda>_. [])"
    "tree_items (deferred_ops b1) = []" "tree_items (deferred_ops b2) = []"
    by (rule demo_pair)
  have es: "edits_ok (buffer_text b1) 0 demo_edits" unfolding b(7) by (rule demo_text_facts(3))
  have "(4 :: nat) \<le> 16" by simp
  from operation_replays_edit [OF b(3) buffer_replica [OF b(4,11,13)] b(5,6) es b(9) this b(10,12), of 5 6]
  show ?thesis using b(1,2,8) demo_text_facts(4) by auto
qed

text \<open>C2 (concurrent_edits_converge): two replicas of the same document edit it at the same time, each as it likes, and send each
  other the operations. Everything returns, and afterwards both show the same document and text and have the same version.\<close>

theorem concurrent_edits_converge:
  assumes "buffer_ok c b1 fs1" "buffer_ok c b2 fs2" "same_replica b1 fs1 b2 fs2"
    and "settled (undo_map (snapshot b1)) (buffer_version b1) (atoms fs1)" "replica_id (lamport_clock b1) \<noteq> replica_id (lamport_clock b2)"
    and "edits_ok (buffer_text b1) 0 es1" "edits_ok (buffer_text b2) 0 es2"
    and "tvalue (lamport_clock b1) < - 2" "tvalue (lamport_clock b2) < - 2" "4 \<le> max_len"
    and "tracking (subscriptions b1) (buffer_text b1) base1" "tracking (subscriptions b2) (buffer_text b2) base2"
    and "tree_items (deferred_ops b1) = []" "tree_items (deferred_ops b2) = []"
  shows "\<exists>op1 b1' op2 b2' b1'' b2'' c' fs1'' fs2''. buffer_edit max_len now1 now1' b1 es1 = Some (Edit op1, b1') \<and>
    buffer_edit max_len now2 now2' b2 es2 = Some (Edit op2, b2') \<and>
    buffer_text b1' = edit_text (buffer_text b1) 0 es1 \<and> buffer_text b2' = edit_text (buffer_text b2) 0 es2 \<and>
    apply_ops max_len b1' [Edit op2] = Some b1'' \<and> apply_ops max_len b2' [Edit op1] = Some b2'' \<and>
    replica c' b1'' fs1'' base1 \<and> replica c' b2'' fs2'' base2 \<and> same_replica b1'' fs1'' b2'' fs2'' \<and>
    buffer_text b1'' = buffer_text b2'' \<and> buffer_version b1'' = buffer_version b2''"
proof -
  obtain op1 b1' op2 b2' b1'' b2'' c' fs1'' fs2'' where E: "buffer_edit max_len now1 now1' b1 es1 = Some (Edit op1, b1')"
    "buffer_edit max_len now2 now2' b2 es2 = Some (Edit op2, b2')"
    "buffer_text b1' = edit_text (buffer_text b1) 0 es1" "buffer_text b2' = edit_text (buffer_text b2) 0 es2"
    "apply_ops max_len b1' [Edit op2] = Some b1''" "apply_ops max_len b2' [Edit op1] = Some b2''"
    "replica c' b1'' fs1'' base1" "replica c' b2'' fs2'' base2" "same_replica b1'' fs1'' b2'' fs2''"
    using exchange_spec [OF assms, of now1 now1' now2 now2'] by blast
  moreover have "buffer_version b1'' = buffer_version b2''" using E(9) by (simp add: same_replica_def)
  ultimately show ?thesis using same_text [OF E(7-9)] by blast
qed

definition demo_edits2 :: "text_edit list" where
  "demo_edits2 = [((0, 2), [13, 10]), ((2, 2), [122])]"

theorem concurrent_edits_converge_witness:
  "\<exists>b1 b2 op1 b1' op2 b2' b1'' b2''. buffer_new 16 300 Unix 8 1 demo_text = Some b1 \<and> buffer_new 16 300 Unix 9 1 demo_text = Some b2 \<and>
    buffer_edit 16 5 6 b1 demo_edits = Some (Edit op1, b1') \<and> buffer_edit 16 7 8 b2 demo_edits2 = Some (Edit op2, b2') \<and>
    apply_ops 16 b1' [Edit op2] = Some b1'' \<and> apply_ops 16 b2' [Edit op1] = Some b2'' \<and>
    buffer_text b1' \<noteq> buffer_text b2' \<and> buffer_text b1'' = buffer_text b2''"
proof -
  obtain b1 fs1 b2 fs2 where b: "buffer_new 16 300 Unix 8 1 demo_text = Some b1" "buffer_new 16 300 Unix 9 1 demo_text = Some b2"
    "buffer_ok demo_content b1 fs1" "buffer_ok demo_content b2 fs2" "same_replica b1 fs1 b2 fs2"
    "settled (undo_map (snapshot b1)) (buffer_version b1) (atoms fs1)" "replica_id (lamport_clock b1) \<noteq> replica_id (lamport_clock b2)"
    "buffer_text b1 = [97, 98, 10, 195, 169]" "buffer_text b2 = [97, 98, 10, 195, 169]"
    "tvalue (lamport_clock b1) < - 2" "tvalue (lamport_clock b2) < - 2"
    "tracking (subscriptions b1) (buffer_text b1) (\<lambda>_. [])" "tracking (subscriptions b2) (buffer_text b2) (\<lambda>_. [])"
    "tree_items (deferred_ops b1) = []" "tree_items (deferred_ops b2) = []"
    by (rule demo_pair)
  have es: "edits_ok (buffer_text b1) 0 demo_edits" "edits_ok (buffer_text b2) 0 demo_edits2"
    unfolding b(8,9) by (rule demo_text_facts(3)) code_simp
  have ne: "edit_text (buffer_text b1) 0 demo_edits \<noteq> edit_text (buffer_text b2) 0 demo_edits2" unfolding b(8,9) by code_simp
  have "(4 :: nat) \<le> 16" by simp
  from concurrent_edits_converge [OF b(3-7) es b(10,11) this b(12-15), of 5 6 7 8]
  show ?thesis using b(1,2) ne by metis
qed

text \<open>C1 (deliveries_converge): two replicas of the same document receive the same operations, each in its own order, in
  its own batches and possibly more than once. Both apply everything, nothing waits at the end, and they show the same text, which depends only on the
  document and the operations, and have the same version.\<close>

theorem deliveries_converge:
  assumes "replica c b1 fs1 base1" "replica c b2 fs2 base2" "same_replica b1 fs1 b2 fs2" "sent es c b1 fs1"
    and "\<Union> (set (map set bs1)) = Edit ` set es" "\<Union> (set (map set bs2)) = Edit ` set es" "4 \<le> max_len"
  shows "\<exists>b1' fs1' b2' fs2'. deliver max_len b1 bs1 = Some b1' \<and> deliver max_len b2 bs2 = Some b2' \<and>
    replica (with_texts c es) b1' fs1' base1 \<and> replica (with_texts c es) b2' fs2' base2 \<and> same_replica b1' fs1' b2' fs2' \<and>
    buffer_text b1' = shown (with_texts c es) (after_ops (undo_map (snapshot b1)) (atoms fs1) es) \<and>
    buffer_text b2' = buffer_text b1' \<and> buffer_version b1' = buffer_version b2'"
  using replicas_converge [OF assms] unfolding same_replica_def by blast

theorem deliveries_converge_witness:
  "\<exists>b1 b2 b1' b2'. buffer_new 16 300 Unix 8 1 demo_text = Some b1 \<and> buffer_new 16 300 Unix 9 1 demo_text = Some b2 \<and>
    deliver 16 b1 [[Edit (demo_sent ! 1)], [Edit (demo_sent ! 2), Edit (demo_sent ! 0)]] = Some b1' \<and>
    deliver 16 b2 [[Edit (demo_sent ! 0)], [], [Edit (demo_sent ! 0), Edit (demo_sent ! 1), Edit (demo_sent ! 2)]] = Some b2' \<and>
    buffer_text b1' = [97, 113, 120, 121, 10, 122] \<and> buffer_text b2' = [97, 113, 120, 121, 10, 122]"
proof -
  obtain b1 fs1 b2 fs2 where b: "buffer_new 16 300 Unix 8 1 demo_text = Some b1" "buffer_new 16 300 Unix 9 1 demo_text = Some b2"
    "buffer_ok demo_content b1 fs1" "buffer_ok demo_content b2 fs2" "same_replica b1 fs1 b2 fs2"
    "tracking (subscriptions b1) (buffer_text b1) (\<lambda>_. [])" "tracking (subscriptions b2) (buffer_text b2) (\<lambda>_. [])"
    "tree_items (deferred_ops b1) = []" "tree_items (deferred_ops b2) = []"
    "atoms fs1 = new_atoms (Lamport 1 0) 0 5" "undo_map (snapshot b1) = undo_map_default" "buffer_version b1 = observe global_new (Lamport 1 0)"
    by (rule demo_pair)
  have sent: "sent demo_sent demo_content b1 fs1"
    unfolding sent_def b(10-12) by (intro conjI demo_sent_causal demo_sent_deliverable demo_sent_ok)
  have batches: "\<Union> (set (map set [[Edit (demo_sent ! 1)], [Edit (demo_sent ! 2), Edit (demo_sent ! 0)]])) = Edit ` set demo_sent"
    "\<Union> (set (map set [[Edit (demo_sent ! 0)], [], [Edit (demo_sent ! 0), Edit (demo_sent ! 1), Edit (demo_sent ! 2)]])) = Edit ` set demo_sent"
    by (auto simp: demo_sent_def)
  have "(4 :: nat) \<le> 16" by simp
  from deliveries_converge [OF buffer_replica [OF b(3,6,8)] buffer_replica [OF b(4,7,9)] b(5) sent batches this]
  show ?thesis using b(1,2) unfolding b(10,11) demo_sent_text by metis
qed

end
