(* ===== verification/Spec2Isabelle.thy ===== *)
theory Spec2Isabelle
  imports Clock Tree_Properties Locator Undo_Map Operation_Queue Subscription Network Rope_Properties Replica_Properties
begin

text \<open>
  Verification of the text core of the editor: the crates \<open>clock\<close>, \<open>sum_tree\<close>, \<open>rope\<close> and \<open>text\<close>.

  \<^bold>\<open>The program.\<close> Every buffer of the editor is a CRDT. Its text is a \<open>Rope\<close>, a B+ tree (\<open>SumTree\<close>) of chunks of at most
  128 bytes whose inner nodes cache the summaries of their subtrees; lookups by offset, by row and column or by UTF-16
  position descend along those summaries. Replicas exchange operations that carry Lamport timestamps and version
  vectors (\<open>clock\<close>), name positions by \<open>Locator\<close>s, count the undo operations of every edit in an \<open>UndoMap\<close>, defer what
  arrives early in an \<open>OperationQueue\<close>, and report changes to the rest of the editor as \<open>Patch\<close>es, which the
  subscribers of a \<open>Topic\<close> accumulate. Everything but the clocks is built on \<open>SumTree\<close>.

  \<^bold>\<open>Theories and code.\<close>

  \<^item> \<open>Editor_Prelude\<close>: machine integers, Rust's \<open>Ordering\<close>, the convention for panics, shared lemmas.

  \<^item> \<open>Clock\<close>: \<open>crates/clock/src/clock.rs\<close>. \<open>Lamport\<close>, \<open>Global\<close> (a vector of 32-bit counters indexed by replica) and every
  operation on them. Lemmas: total order of timestamps, ticking, join and meet as lattice operations, independence of
  the delivery order.

  \<^item> \<open>Sum_Tree\<close>: \<open>sum_tree.rs\<close>, construction, appending, splitting, updates of the end items. \<open>wf_tree\<close> is the
  invariant of the B+ tree (inner nodes with at least one and at most \<open>2 * TREE_BASE\<close> children, equal heights, cached summaries equal to
  the sums; that nodes are at least half full is not part of it). \<open>Sum_Seek\<close>: the traits \<open>Dimension\<close> and \<open>SeekTarget\<close> as records of
  functions (dictionaries), \<open>Bias\<close>, \<open>find\<close> and its variants. \<open>Sum_Cursor\<close> and \<open>Cursor_Back\<close>: \<open>cursor.rs\<close>, the stack of nodes and indices, seeking forward and
  backward, slices, iterators, filters. \<open>Keyed_Tree\<close> and \<open>Tree_Map\<close>: \<open>KeyedItem\<close>, \<open>Edit\<close>, and \<open>tree_map.rs\<close>.
  \<open>Tree_Properties\<close>: the properties of lookups and cursors. The abstract specification is the list of items
  of the tree; every operation is related to a scan of that list.

  \<^item> \<open>Locator\<close>, \<open>Undo_Map\<close>, \<open>Operation_Queue\<close>, \<open>Patch\<close>, \<open>Subscription\<close>, \<open>Network\<close>: the files of the same names in
  \<open>crates/text/src\<close>. A patch is specified as a relation between an old and a new text (lists of elements), a topic by the
  texts its subscribers saw last, a queue and an undo map by sets of operations.

  \<^item> \<open>Rope_Point\<close>: \<open>point.rs\<close>, \<open>point_utf16.rs\<close>, \<open>offset_utf16.rs\<close>, \<open>unclipped.rs\<close> of \<open>crates/rope/src\<close>. \<open>Utf8_Text\<close>: UTF-8
  texts as lists of bytes, their lines and lengths. \<open>Bitmap\<close>, \<open>Nth_Set_Bit\<close>, \<open>Chunk\<close>, \<open>Chunk_Spec\<close>, \<open>Chunk_Positions\<close>:
  \<open>chunk.rs\<close>, with the bitmaps kept as 128-bit words and the selection of the \<open>n\<close>-th set bit as the code computes it.
  \<open>Text_Summary\<close>: \<open>TextSummary\<close>. \<open>Rope\<close>: every operation of \<open>rope.rs\<close> but the iterators; \<open>Rope_Laws\<close>: a rope is a lawful sum
  tree and each of its dimensions measures its text; \<open>Rope_Edit\<close>, \<open>Rope_Cursor\<close>, \<open>Rope_Positions\<close>: editing,
  cursors and conversions computed on the tree equal those of the text; \<open>Rope_Properties\<close>: the properties, for every
  rope that a sequence of edits can build.

  \<^item> \<open>Text_Operation\<close>, \<open>History\<close>, \<open>Fragment\<close>, \<open>Line_Ending\<close>, \<open>Buffer_Snapshot\<close>, \<open>Buffer_Remote\<close>, \<open>Buffer\<close>: the parts of
  \<open>crates/text/src/text.rs\<close> in the order of the calls. The operations that replicas exchange; the undo and redo stacks; fragments
  with their summaries, dimensions, index and builders; line endings; \<open>apply_edit_internal\<close>; \<open>apply_remote_edit\<close>,
  \<open>fragment_ids_for_edits\<close> and \<open>apply_undo\<close>; and the buffer that ties them to the clock, the queue of deferred
  operations, the subscriptions and those who wait. The local variables of the two edit functions are the record
  \<open>edit_state\<close>, and the actions they share are shared definitions over the dimension of the cursor.

  \<^item> \<open>History_Properties\<close>: what every sequence of calls keeps (\<open>history_run\<close>; the distinctness of transactions as long as
  \<open>push_transaction\<close> is given transactions that are on no stack), undo against redo, and grouping.

  \<^item> \<open>Document\<close>: the abstract document, a list of atoms (one byte each, named by its insertion and its offset there, with
  its deletions and its visibility), the relation \<open>holds\<close> between a document and a snapshot (its tree, its ropes, its index), and
  the laws of fragment ids. \<open>Fragment_Laws\<close>: the tree of fragments is lawful. \<open>Edit_State\<close>: what a builder has built so far.
  \<open>Edit_Insertion\<close>, \<open>Edit_Walk\<close>, \<open>Local_Edit\<close>: the contract of every action of an edit, up to that of the whole
  \<open>apply_edit_internal\<close>, over the atoms. \<open>Buffer_Properties\<close>: the invariant of a buffer, and its construction
  and editing as refinements of plain text.

  \<^item> \<open>Remote_Spec\<close>: what an operation does to a document (\<open>remote_atoms\<close>): its offsets count the bytes that its version
  observed, its insertions go behind concurrent ones of higher timestamps, and it deletes what its author saw. \<open>Remote_Walk\<close>,
  \<open>Remote_Edit\<close>: the contract of every action of \<open>apply_remote_edit\<close>, on the same walk over the fragments as local edits but over
  the versioned dimension, up to \<open>remote_edit_spec\<close>. \<open>Remote_Convergence\<close>, \<open>Replicas\<close>: concurrent operations commute on documents, all
  causal orders of the same operations lead to the same document (\<open>causal_orders_agree\<close>, up to the order in which deletions were
  recorded, \<open>same_atom\<close>), and a local edit does what its operation does (\<open>edit_as_remote\<close>).

  \<^item> \<open>Deferred_Ops\<close>: the queue of deferred operations makes progress, for operations that know what their replicas
  knew (\<open>causal\<close>). \<open>Collaboration\<close>: buffers that receive the same edits in any order and in any batches (\<open>deliver\<close>); the state of a delivery is
  \<open>underway\<close>. \<open>Replica_Properties\<close>: convergence of buffers, for one exchange of concurrent edits and for whole deliveries.

  \<^bold>\<open>What convergence assumes.\<close> The edits know what their replicas knew, some order of them is one in which each can be applied,
  and in that order their ranges are valid (\<open>sent\<close>); this is meant to describe replicas that only send what \<open>edit\<close> returns; for one edit
  and for two concurrent ones it is proved (\<open>operation_replays_edit\<close>, \<open>concurrent_edits_converge\<close>). An author's
  snapshot is \<open>settled\<close> when its version observed every byte and its visibility is that of the version, as in every buffer whose operations
  were all applied. Undo operations take part in the theorems on the undo map and on the deferral, not in those on convergence of the text.

  \<^bold>\<open>Interfaces.\<close> A locale states what a client relies on, and an interpretation on the model's own definitions proves
  it: lawful summaries and dimensions of a sum tree (used by every tree-shaped component), keyed items, measures of a
  text (\<open>text_measure\<close>, \<open>ordered_measure\<close>) and text dimensions (\<open>text_dimension_laws\<close>), each with one interpretation per
  implementation of the trait in the code; and the walk of an edit over the fragments (\<open>edit_walk\<close>, \<open>cursor_laws\<close>), parametric in the
  dimension of its cursor, with one interpretation for local edits and one for remote edits at each version.

  \<^bold>\<open>Conventions.\<close> A function that can panic returns an option; \<open>None\<close> is a panic or a loop that does not end, and the
  properties prove \<open>Some\<close>. Loops whose end is not structural are \<open>partial_function (option)\<close> or functions with a
  measure, and the properties prove that they return. Fuel is used where the code runs an iterator to its end (\<open>iter_run\<close>, \<open>filter_run\<close>,
  \<open>undo_loop\<close>, \<open>retain_loop\<close>, \<open>slices_of_edit\<close>): it is one more than the items there are, and the lemmas show that it is enough
  but for \<open>slices_of_edit\<close>, which only \<open>apply_undo\<close> uses. Timestamps, locator components, undo counts and bitmaps keep their machine width
  and wrap as the release profile does. Lengths, offsets, rows and columns (\<open>usize\<close> and \<open>u32\<close>) of ropes and patches are
  natural numbers with subtraction that underflows to \<open>None\<close> where the code subtracts: texts of 4 GiB and more, where a
  32-bit column would wrap, are outside the model. \<open>Arc\<close> and copy-on-write are not observable and are dropped; locks
  make the calls of a topic atomic. The stack of a cursor is a list: the code reserves sixteen slots and would panic on a tree with more levels. \<open>sort_unstable_by_key\<close> is modelled as a stable sort; this matters only for batches that repeat a key.

  Offsets and lengths inside an insertion, which the code keeps in 32 bits, are natural numbers too. A \<open>oneshot\<close> channel is a
  number and \<open>signalled\<close> lists those on which a message was sent. The counts of an undo are the list of the entries of
  the hash map.

  \<^bold>\<open>Parameters.\<close> The random generator of the test network; the grapheme boundaries of \<open>unicode_segmentation\<close> that
  \<open>clip_point\<close> asks for; the length \<open>max_len\<close> of the longest fragment of an insertion, 16 in tests and \<open>u32::MAX\<close> otherwise (the
  properties need four, the longest character); the time, the group interval and the native line ending.

  \<^bold>\<open>Not modelled.\<close> The rest of the workspace: the user interface and its framework (\<open>gpui\<close>, \<open>editor\<close>, \<open>workspace\<close>), project
  and language-server glue (\<open>project\<close>, \<open>lsp\<close>, \<open>language\<close>), the collaboration server, agents, git, terminals, extensions,
  settings, layers over many buffers (\<open>multi_buffer\<close>): they are input and output, rendering, or glue around services, and none of the modelled crates depends on
  them. Within \<open>text\<close>: anchors and selections, the iterator \<open>Edits\<close> and \<open>rope_for_version\<close>, which read the modelled state.
  Within the modelled crates: formatting (\<open>Debug\<close>, \<open>Display\<close>), tests and random generators, logging, and the parts
  named in the manifest.
\<close>

end
